(* ===== verification/Prelude.thy ===== *)
theory Prelude
  imports Main "HOL-Library.Word"
begin

text \<open>
  Shared vocabulary of the development.

  \<^item> machine integers: \<open>uint8\<close> to \<open>uint64\<close> are words of kernel/types.h; C's signed
    \<open>int\<close> (whose overflow is undefined) is HOL's \<open>int\<close>;
  \<^item> \<open>chan\<close>: the wait channels handed to \<open>sleep\<close> and \<open>wakeup\<close>; the C code uses
    the address of some object as the channel, the model one constructor per kind of object;
  \<^item> \<open>res\<close>: how a kernel function ends: it returns (\<open>Ok\<close>), it calls \<open>panic\<close>
    (\<open>Panic\<close>), it goes to sleep and is not resumed within the modelled run (\<open>Asleep\<close>), it leaves
    for the scheduler for good (\<open>Gone\<close>, the end of \<open>exit\<close>), or a
    recursion that the source does not bound ran out of the fuel of the model (\<open>Diverge\<close>);
  \<^item> \<open>bindR\<close>: sequencing of such functions, with the rules of a small Hoare logic:
    \<open>ensures r Q\<close> is total correctness (the run returns, and \<open>Q\<close> holds), \<open>keeps r Q\<close>
    partial correctness;
  \<^item> \<open>find_slot\<close>: the scan of a table for its first entry with some property, the
    shape of \<open>allocproc\<close>, \<open>filealloc\<close>, \<open>fdalloc\<close>, \<open>iget\<close> and \<open>alloc_desc\<close>.
\<close>

unbundle bit_operations_syntax

type_synonym uint8 = "8 word"
type_synonym uint16 = "16 word"
type_synonym uint32 = "32 word"
type_synonym uint64 = "64 word"

named_theorems kernel_defs \<open>definitions that component proofs unfold together\<close>
named_theorems frame_simps \<open>fields that an operation leaves alone\<close>

section \<open>Outcomes of kernel functions\<close>

datatype chan =
    ChProc nat
  | ChTicks
  | ChLog
  | ChPipeRead uint64
  | ChPipeWrite uint64
  | ChBufLock nat
  | ChInodeLock nat
  | ChUartTx
  | ChCons
  | ChDiskFree
  | ChDiskBuf nat

datatype ('a, 's) res = Ok 'a 's | Panic string | Asleep chan 's | Gone 's | Diverge

fun bindR :: "('a, 's) res \<Rightarrow> ('a \<Rightarrow> 's \<Rightarrow> ('b, 's) res) \<Rightarrow> ('b, 's) res" where
  "bindR (Ok a s) f = f a s"
| "bindR (Panic e) f = Panic e"
| "bindR (Asleep c s) f = Asleep c s"
| "bindR (Gone s) f = Gone s"
| "bindR Diverge f = Diverge"

fun ensures :: "('a, 's) res \<Rightarrow> ('a \<Rightarrow> 's \<Rightarrow> bool) \<Rightarrow> bool" where
  "ensures (Ok a s) Q = Q a s"
| "ensures (Panic e) Q = False"
| "ensures (Asleep c s) Q = False"
| "ensures (Gone s) Q = False"
| "ensures Diverge Q = False"

fun keeps :: "('a, 's) res \<Rightarrow> ('a \<Rightarrow> 's \<Rightarrow> bool) \<Rightarrow> bool" where
  "keeps (Ok a s) Q = Q a s"
| "keeps (Panic e) Q = True"
| "keeps (Asleep c s) Q = True"
| "keeps (Gone s) Q = True"
| "keeps Diverge Q = True"

lemma bindR_Ok_iff:
  "bindR r f = Ok b t \<longleftrightarrow> (\<exists>a s. r = Ok a s \<and> f a s = Ok b t)"
  by (cases r) auto

lemma bindR_OkE:
  assumes "bindR r f = Ok b t"
  obtains a s where "r = Ok a s" "f a s = Ok b t"
  using assms by (auto simp: bindR_Ok_iff)

lemma bindR_assoc [simp]:
  "bindR (bindR r f) g = bindR r (\<lambda>a s. bindR (f a s) g)"
  by (cases r) auto

lemma bindR_cong [fundef_cong]:
  "r = r' \<Longrightarrow> (\<And>a s. r' = Ok a s \<Longrightarrow> f a s = f' a s) \<Longrightarrow> bindR r f = bindR r' f'"
  by (cases r') auto

lemma ensures_iff: "ensures r Q \<longleftrightarrow> (\<exists>a s. r = Ok a s \<and> Q a s)"
  by (cases r) auto

lemma keeps_iff: "keeps r Q \<longleftrightarrow> (\<forall>a s. r = Ok a s \<longrightarrow> Q a s)"
  by (cases r) auto

lemma ensures_bind:
  "ensures r (\<lambda>a s. ensures (f a s) Q) \<Longrightarrow> ensures (bindR r f) Q"
  by (cases r) auto

lemma keeps_bind:
  "keeps r (\<lambda>a s. keeps (f a s) Q) \<Longrightarrow> keeps (bindR r f) Q"
  by (cases r) auto

lemma ensures_weaken:
  "ensures r P \<Longrightarrow> (\<And>a s. P a s \<Longrightarrow> Q a s) \<Longrightarrow> ensures r Q"
  by (cases r) auto

lemma keeps_weaken:
  "keeps r P \<Longrightarrow> (\<And>a s. P a s \<Longrightarrow> Q a s) \<Longrightarrow> keeps r Q"
  by (cases r) auto

lemma ensuresE:
  assumes "ensures r Q"
  obtains a s where "r = Ok a s" "Q a s"
  using assms by (auto simp: ensures_iff)

section \<open>Scanning a table\<close>

fun find_slot :: "('a \<Rightarrow> bool) \<Rightarrow> 'a list \<Rightarrow> nat option" where
  "find_slot P [] = None"
| "find_slot P (x # xs) = (if P x then Some 0 else map_option Suc (find_slot P xs))"

lemma find_slot_Some:
  "find_slot P xs = Some i \<Longrightarrow>
     i < length xs \<and> P (xs ! i) \<and> (\<forall>j < i. \<not> P (xs ! j))"
proof (induction xs arbitrary: i)
  case Nil
  then show ?case by simp
next
  case (Cons x xs)
  then show ?case by (auto split: if_splits simp: nth_Cons split: nat.splits)
qed

lemma find_slot_None: "find_slot P xs = None \<longleftrightarrow> (\<forall>x \<in> set xs. \<not> P x)"
  by (induction xs) auto

lemma find_slot_least:
  assumes "i < length xs" "P (xs ! i)" "\<And>j. j < i \<Longrightarrow> \<not> P (xs ! j)"
  shows "find_slot P xs = Some i"
  using assms
proof (induction xs arbitrary: i)
  case Nil
  then show ?case by simp
next
  case (Cons x xs)
  show ?case
  proof (cases i)
    case 0
    with Cons.prems show ?thesis by simp
  next
    case (Suc k)
    have "\<not> P (xs ! j)" if "j < k" for j
      using Cons.prems(3) [of "Suc j"] Suc that by simp
    then have "find_slot P xs = Some k"
      using Cons.prems(1,2) Suc by (intro Cons.IH) auto
    moreover have "\<not> P x" using Cons.prems(3) [of 0] Suc by simp
    ultimately show ?thesis using Suc by simp
  qed
qed

lemma find_slot_SomeD [dest]:
  assumes "find_slot P xs = Some i"
  shows "i < length xs" "P (xs ! i)"
  using find_slot_Some [OF assms] by auto

lemma find_slot_ex: "(\<exists>x \<in> set xs. P x) \<Longrightarrow> \<exists>i. find_slot P xs = Some i"
  using find_slot_None [of P xs] by (cases "find_slot P xs") auto

section \<open>Updating one entry of a table\<close>

definition upd_nth :: "nat \<Rightarrow> ('a \<Rightarrow> 'a) \<Rightarrow> 'a list \<Rightarrow> 'a list" where
  "upd_nth i f xs = (if i < length xs then xs[i := f (xs ! i)] else xs)"

lemma length_upd_nth [simp]: "length (upd_nth i f xs) = length xs"
  by (simp add: upd_nth_def)

lemma nth_upd_nth:
  "j < length xs \<Longrightarrow> upd_nth i f xs ! j = (if i = j then f (xs ! j) else xs ! j)"
  by (auto simp: upd_nth_def nth_list_update)

lemma nth_upd_nth_same [simp]: "i < length xs \<Longrightarrow> upd_nth i f xs ! i = f (xs ! i)"
  by (simp add: nth_upd_nth)

lemma nth_upd_nth_other [simp]: "i \<noteq> j \<Longrightarrow> upd_nth i f xs ! j = xs ! j"
  by (simp add: upd_nth_def)

end
