(* ===== verification/Bytes.thy ===== *)
theory Bytes
  imports Prelude
begin

text \<open>
  Bytes and byte-addressed memory. RISC-V is little endian: \<open>bytes_of_word\<close> and
  \<open>word_of_bytes\<close> convert between a word and its bytes in memory order. A \<open>memory\<close> maps
  every 64-bit address to a byte; \<open>load_bytes\<close> and \<open>store_bytes\<close> read and write a run of
  bytes, \<open>load64\<close> and \<open>store64\<close> one aligned or unaligned 64-bit word (a page-table entry, the
  \<open>next\<close> pointer of a free page). The locale \<open>codec\<close> is the contract of every fixed-size
  on-disk structure: encoding has a fixed length and decoding undoes it.
\<close>

section \<open>Words as little-endian bytes\<close>

fun word_of_bytes :: "uint8 list \<Rightarrow> 'a::len word" where
  "word_of_bytes [] = 0"
| "word_of_bytes (b # bs) = ucast b OR push_bit 8 (word_of_bytes bs)"

definition bytes_of_word :: "nat \<Rightarrow> 'a::len word \<Rightarrow> uint8 list" where
  "bytes_of_word n w = map (\<lambda>i. ucast (drop_bit (8 * i) w)) [0..<n]"

lemma length_bytes_of_word [simp]: "length (bytes_of_word n w) = n"
  by (simp add: bytes_of_word_def)

lemma bit_word_of_bytes:
  "bit (word_of_bytes bs :: 'a::len word) k \<longleftrightarrow>
     k < LENGTH('a) \<and> k div 8 < length bs \<and> bit (bs ! (k div 8)) (k mod 8)"
proof (induction bs arbitrary: k)
  case Nil
  then show ?case by simp
next
  case (Cons b bs)
  show ?case
  proof (cases "k < 8")
    case True
    then show ?thesis by (auto simp: bit_simps)
  next
    case False
    then obtain j where j: "k = j + 8" by (metis add.commute le_Suc_ex not_less)
    have "\<not> bit b k" using False by (auto dest: bit_imp_le_length)
    moreover have "k div 8 = Suc (j div 8)" and "k mod 8 = j mod 8"
      using j by auto
    ultimately show ?thesis using Cons.IH [of j] j
      by (auto simp: bit_simps)
  qed
qed

lemma word_of_bytes_of_word:
  assumes "LENGTH('a) \<le> 8 * n"
  shows "word_of_bytes (bytes_of_word n w) = (w :: 'a::len word)"
proof (rule bit_eqI)
  fix k assume "possible_bit TYPE('a word) k"
  then have k: "k < LENGTH('a)" by simp
  then have "k div 8 < n" using assms by auto
  moreover have "8 * (k div 8) + k mod 8 = k" by simp
  ultimately show "bit (word_of_bytes (bytes_of_word n w) :: 'a word) k = bit w k"
    using k by (simp add: bit_word_of_bytes bytes_of_word_def bit_simps)
qed

lemma bytes_of_word_of_bytes:
  assumes "length bs = n" "8 * n \<le> LENGTH('a::len)"
  shows "bytes_of_word n (word_of_bytes bs :: 'a word) = bs"
proof (rule nth_equalityI)
  show "length (bytes_of_word n (word_of_bytes bs :: 'a word)) = length bs"
    using assms by simp
next
  fix i assume "i < length (bytes_of_word n (word_of_bytes bs :: 'a word))"
  then have i: "i < n" by simp
  show "bytes_of_word n (word_of_bytes bs :: 'a word) ! i = bs ! i"
  proof (rule bit_eqI)
    fix k assume "possible_bit TYPE(uint8) k"
    then have k: "k < 8" by simp
    have "(8 * i + k) div 8 = i" and "(8 * i + k) mod 8 = k" using k by auto
    moreover have "8 * i + k < LENGTH('a)" using i k assms by auto
    ultimately show "bit (bytes_of_word n (word_of_bytes bs :: 'a word) ! i) k = bit (bs ! i) k"
      using i k assms by (simp add: bytes_of_word_def bit_simps bit_word_of_bytes)
  qed
qed

section \<open>The contract of an on-disk structure\<close>

locale codec =
  fixes enc :: "'a \<Rightarrow> uint8 list"
    and dec :: "uint8 list \<Rightarrow> 'a"
    and wf :: "'a \<Rightarrow> bool"
    and width :: nat
  assumes length_enc: "wf x \<Longrightarrow> length (enc x) = width"
    and dec_enc: "wf x \<Longrightarrow> dec (enc x) = x"
begin

text \<open>Decoding ignores what follows the structure: arrays of structures can be read entry by
  entry.\<close>

lemma enc_inj: "wf x \<Longrightarrow> wf y \<Longrightarrow> enc x = enc y \<Longrightarrow> x = y"
  using dec_enc by metis

lemma dec_slice:
  assumes "wf x" "length pre = k * width"
  shows "dec (take width (drop (k * width) (pre @ enc x @ post))) = x"
  using assms by (simp add: length_enc dec_enc)

end

section \<open>Byte-addressed memory\<close>

type_synonym memory = "uint64 \<Rightarrow> uint8"

definition load_bytes :: "memory \<Rightarrow> uint64 \<Rightarrow> nat \<Rightarrow> uint8 list" where
  "load_bytes m a n = map (\<lambda>i. m (a + of_nat i)) [0..<n]"

definition store_bytes :: "memory \<Rightarrow> uint64 \<Rightarrow> uint8 list \<Rightarrow> memory" where
  "store_bytes m a bs =
     (\<lambda>x. if unat (x - a) < length bs then bs ! unat (x - a) else m x)"

definition load64 :: "memory \<Rightarrow> uint64 \<Rightarrow> uint64" where
  "load64 m a = word_of_bytes (load_bytes m a 8)"

definition store64 :: "memory \<Rightarrow> uint64 \<Rightarrow> uint64 \<Rightarrow> memory" where
  "store64 m a v = store_bytes m a (bytes_of_word 8 v)"

lemma length_load_bytes [simp]: "length (load_bytes m a n) = n"
  by (simp add: load_bytes_def)

lemma nth_load_bytes [simp]: "i < n \<Longrightarrow> load_bytes m a n ! i = m (a + of_nat i)"
  by (simp add: load_bytes_def)

lemma load_bytes_cong:
  "(\<And>i. i < n \<Longrightarrow> m (a + of_nat i) = m' (a + of_nat i)) \<Longrightarrow> load_bytes m a n = load_bytes m' a n"
  by (simp add: load_bytes_def)

lemma load64_cong:
  "(\<And>i. i < 8 \<Longrightarrow> m (a + of_nat i) = m' (a + of_nat i)) \<Longrightarrow> load64 m a = load64 m' a"
  unfolding load64_def by (simp add: load_bytes_cong [of 8 m a m'])

lemma unat_of_nat_64 [simp]: "n < 2 ^ 64 \<Longrightarrow> unat (of_nat n :: uint64) = n"
  by (simp add: unat_of_nat take_bit_nat_eq_self)

lemma load_store_bytes:
  assumes "length bs \<le> 2 ^ 64"
  shows "load_bytes (store_bytes m a bs) a (length bs) = bs"
proof (rule nth_equalityI)
  show "length (load_bytes (store_bytes m a bs) a (length bs)) = length bs" by simp
next
  fix i assume "i < length (load_bytes (store_bytes m a bs) a (length bs))"
  then have "i < length bs" by simp
  with assms show "load_bytes (store_bytes m a bs) a (length bs) ! i = bs ! i"
    by (simp add: store_bytes_def)
qed

lemma store_bytes_outside:
  "\<not> unat (x - a) < length bs \<Longrightarrow> store_bytes m a bs x = m x"
  by (simp add: store_bytes_def)

lemma load_store64 [simp]: "load64 (store64 m a v) a = v"
proof -
  have "load_bytes (store64 m a v) a 8 = bytes_of_word 8 v"
    using load_store_bytes [of "bytes_of_word 8 v" m a] by (simp add: store64_def)
  then show ?thesis by (simp add: load64_def word_of_bytes_of_word)
qed

lemma store64_outside: "8 \<le> unat (x - a) \<Longrightarrow> store64 m a v x = m x"
  by (simp add: store64_def store_bytes_def)

text \<open>An address lies in a run of \<open>n\<close> bytes that does not wrap around the address space.\<close>

lemma in_run_iff:
  fixes a x :: uint64
  assumes "unat a + n \<le> 2 ^ 64"
  shows "unat (x - a) < n \<longleftrightarrow> unat a \<le> unat x \<and> unat x < unat a + n"
proof (cases "a \<le> x")
  case True
  then have "unat (x - a) = unat x - unat a" by (simp add: unat_sub)
  with True show ?thesis by (auto simp: word_le_nat_alt)
next
  case False
  then have lt: "unat x < unat a" by (simp add: word_le_nat_alt)
  have "unat (x - a) = 2 ^ 64 + unat x - unat a"
    using unat_sub_if_size [of x a] lt by (simp add: word_size)
  then show ?thesis using lt assms by simp
qed

end
