(* ===== verification/KString.thy ===== *)
theory KString
  imports Bytes
begin

text \<open>
  kernel/string.c. The block functions (\<open>memset\<close>, \<open>memcmp\<close>, \<open>memmove\<close>, \<open>memcpy\<close>)
  work on the byte-addressed memory, with the loops of the source: one recursive call per
  iteration. The string functions read through a pointer, modelled as the function from an
  index to the byte found there: \<open>ptr m a\<close> is the pointer \<open>a\<close> into memory, \<open>arr xs\<close> a
  NUL-terminated string or array held as a list. The copying functions return the bytes
  they store from the destination pointer on, in order. Counts are natural numbers (the
  value of the \<open>uint\<close> or the non-negative \<open>int\<close> argument).

  Main results: \<open>memmove_correct\<close> (both directions, overlapping regions included, move the
  source region as it was before the call), \<open>strncpy_strncmp\<close> (fixed-width names),
  \<open>safestrcpy_terminated\<close> and \<open>strlen_exists\<close> (the loop of \<open>strlen\<close> returns).
\<close>

section \<open>Block functions\<close>

function memset_from :: "memory \<Rightarrow> uint64 \<Rightarrow> uint8 \<Rightarrow> nat \<Rightarrow> nat \<Rightarrow> memory" where
  "memset_from m dst c i n =
     (if i < n then memset_from (m(dst + of_nat i := c)) dst c (Suc i) n else m)"
  by pat_completeness auto
termination
  by (relation "measure (\<lambda>(m, dst, c, i, n). n - i)") auto

declare memset_from.simps [simp del]

definition memset :: "memory \<Rightarrow> uint64 \<Rightarrow> uint8 \<Rightarrow> nat \<Rightarrow> memory" where
  "memset m dst c n = memset_from m dst c 0 n"

fun memcmp :: "memory \<Rightarrow> uint64 \<Rightarrow> uint64 \<Rightarrow> nat \<Rightarrow> int" where
  "memcmp m s1 s2 0 = 0"
| "memcmp m s1 s2 (Suc n) =
     (if m s1 \<noteq> m s2 then uint (m s1) - uint (m s2) else memcmp m (s1 + 1) (s2 + 1) n)"

fun memmove_backward :: "memory \<Rightarrow> uint64 \<Rightarrow> uint64 \<Rightarrow> nat \<Rightarrow> memory" where
  "memmove_backward m d s 0 = m"
| "memmove_backward m d s (Suc n) =
     memmove_backward (m(d - 1 := m (s - 1))) (d - 1) (s - 1) n"

fun memmove_forward :: "memory \<Rightarrow> uint64 \<Rightarrow> uint64 \<Rightarrow> nat \<Rightarrow> memory" where
  "memmove_forward m d s 0 = m"
| "memmove_forward m d s (Suc n) = memmove_forward (m(d := m s)) (d + 1) (s + 1) n"

definition memmove :: "memory \<Rightarrow> uint64 \<Rightarrow> uint64 \<Rightarrow> nat \<Rightarrow> memory" where
  "memmove m dst src n =
     (if n = 0 then m
      else if src < dst \<and> src + of_nat n > dst
      then memmove_backward m (dst + of_nat n) (src + of_nat n) n
      else memmove_forward m dst src n)"

definition memcpy :: "memory \<Rightarrow> uint64 \<Rightarrow> uint64 \<Rightarrow> nat \<Rightarrow> memory" where
  "memcpy m dst src n = memmove m dst src n"

section \<open>String functions\<close>

definition ptr :: "memory \<Rightarrow> uint64 \<Rightarrow> nat \<Rightarrow> uint8" where
  "ptr m a = (\<lambda>i. m (a + of_nat i))"

definition arr :: "uint8 list \<Rightarrow> nat \<Rightarrow> uint8" where
  "arr xs = (\<lambda>i. if i < length xs then xs ! i else 0)"

fun strncmp :: "(nat \<Rightarrow> uint8) \<Rightarrow> (nat \<Rightarrow> uint8) \<Rightarrow> nat \<Rightarrow> int" where
  "strncmp p q 0 = 0"
| "strncmp p q (Suc n) =
     (if p 0 \<noteq> 0 \<and> p 0 = q 0
      then strncmp (\<lambda>i. p (Suc i)) (\<lambda>i. q (Suc i)) n
      else uint (p 0) - uint (q 0))"

fun strncpy :: "(nat \<Rightarrow> uint8) \<Rightarrow> nat \<Rightarrow> uint8 list" where
  "strncpy t 0 = []"
| "strncpy t (Suc n) =
     (if t 0 \<noteq> 0 then t 0 # strncpy (\<lambda>i. t (Suc i)) n else 0 # replicate n 0)"

fun safestrcpy_loop :: "(nat \<Rightarrow> uint8) \<Rightarrow> nat \<Rightarrow> uint8 list" where
  "safestrcpy_loop t 0 = [0]"
| "safestrcpy_loop t (Suc n) =
     (if t 0 \<noteq> 0 then t 0 # safestrcpy_loop (\<lambda>i. t (Suc i)) n else [0, 0])"

definition safestrcpy :: "(nat \<Rightarrow> uint8) \<Rightarrow> nat \<Rightarrow> uint8 list" where
  "safestrcpy t n = (case n of 0 \<Rightarrow> [] | Suc k \<Rightarrow> safestrcpy_loop t k)"

partial_function (option) strlen_from :: "(nat \<Rightarrow> uint8) \<Rightarrow> nat \<Rightarrow> nat option" where
  "strlen_from s n = (if s n \<noteq> 0 then strlen_from s (Suc n) else Some n)"

definition strlen :: "(nat \<Rightarrow> uint8) \<Rightarrow> nat option" where
  "strlen s = strlen_from s 0"

section \<open>What a C string holds\<close>

text \<open>\<open>cstrn p n\<close> is the string at \<open>p\<close>, cut off after \<open>n\<close> bytes if no NUL comes before.\<close>

fun cstrn :: "(nat \<Rightarrow> uint8) \<Rightarrow> nat \<Rightarrow> uint8 list" where
  "cstrn p 0 = []"
| "cstrn p (Suc n) = (if p 0 = 0 then [] else p 0 # cstrn (\<lambda>i. p (Suc i)) n)"

lemma arr_Suc [simp]: "(\<lambda>i. arr (x # xs) (Suc i)) = arr xs"
  by (auto simp: arr_def)

lemma arr_0_Cons [simp]: "arr (x # xs) 0 = x"
  by (simp add: arr_def)

lemma arr_Nil [simp]: "arr [] = (\<lambda>i. 0)"
  by (simp add: arr_def)

lemma cstrn_nonzero: "c \<in> set (cstrn p n) \<Longrightarrow> c \<noteq> 0"
  by (induction p n rule: cstrn.induct) (auto split: if_splits)

lemma length_cstrn: "length (cstrn p n) \<le> n"
  by (induction p n rule: cstrn.induct) auto

lemma cstrn_arr:
  "0 \<notin> set xs \<Longrightarrow> cstrn (arr xs) n = take n xs"
proof (induction n arbitrary: xs)
  case 0
  then show ?case by simp
next
  case (Suc n)
  then show ?case by (cases xs) auto
qed

section \<open>memset\<close>

lemma memset_from_apply:
  assumes "n \<le> 2 ^ 64"
  shows "memset_from m dst c i n x =
    (if i \<le> unat (x - dst) \<and> unat (x - dst) < n then c else m x)"
  using assms
proof (induction m dst c i n rule: memset_from.induct)
  case (1 m dst c i n)
  show ?case
  proof (cases "i < n")
    case False
    then show ?thesis by (auto simp: memset_from.simps [of m dst c i n])
  next
    case True
    let ?m = "m(dst + of_nat i := c)"
    have IH: "memset_from ?m dst c (Suc i) n x =
        (if Suc i \<le> unat (x - dst) \<and> unat (x - dst) < n then c else ?m x)"
      using "1.IH" True "1.prems" by blast
    have eq: "x = dst + of_nat i \<longleftrightarrow> unat (x - dst) = i"
    proof
      assume "unat (x - dst) = i"
      then have "of_nat i = x - dst" by auto
      then show "x = dst + of_nat i" by simp
    qed (use True "1.prems" in simp)
    show ?thesis
      using True IH eq by (auto simp: memset_from.simps [of m dst c i n])
  qed
qed

lemma memset_apply:
  "n \<le> 2 ^ 64 \<Longrightarrow> memset m dst c n x = (if unat (x - dst) < n then c else m x)"
  by (simp add: memset_def memset_from_apply)

lemma memset_eq:
  "n \<le> 2 ^ 64 \<Longrightarrow> memset m dst c n = (\<lambda>x. if unat (x - dst) < n then c else m x)"
  by (rule ext) (rule memset_apply)

section \<open>memmove\<close>

text \<open>The address \<open>x\<close> is at distance \<open>k\<close> from \<open>d\<close>.\<close>

lemma dist_iff:
  fixes x d :: uint64
  assumes "k < 2 ^ 64"
  shows "unat (x - d) = k \<longleftrightarrow> x = d + of_nat k"
proof
  assume "unat (x - d) = k"
  then have "of_nat k = x - d" by auto
  then show "x = d + of_nat k" by simp
next
  assume "x = d + of_nat k"
  then show "unat (x - d) = k" using assms by simp
qed

lemma unat_dist_Suc:
  fixes x d :: uint64
  assumes "x \<noteq> d"
  shows "unat (x - (d + 1)) = unat (x - d) - 1"
proof -
  have "x - d \<noteq> 0" using assms by simp
  then have "unat (x - d - 1) = unat (x - d) - 1"
    by (rule unat_minus_one)
  then show ?thesis by (simp add: algebra_simps)
qed

lemma memmove_forward_apply:
  assumes "n \<le> 2 ^ 64"
    and "\<And>i j. i < j \<Longrightarrow> j < n \<Longrightarrow> d + of_nat i \<noteq> s + of_nat j"
  shows "memmove_forward m d s n x =
    (if unat (x - d) < n then m (s + (x - d)) else m x)"
  using assms
proof (induction n arbitrary: m d s)
  case 0
  then show ?case by simp
next
  case (Suc n)
  let ?m = "m(d := m s)"
  have "d + 1 + of_nat i \<noteq> s + 1 + of_nat j" if "i < j" "j < n" for i j
    using Suc.prems(2) [of "Suc i" "Suc j"] that by (simp add: algebra_simps)
  then have IH: "memmove_forward ?m (d + 1) (s + 1) n x =
      (if unat (x - (d + 1)) < n then ?m (s + 1 + (x - (d + 1))) else ?m x)"
    using Suc.prems(1) by (intro Suc.IH) auto
  show ?case
  proof (cases "x = d")
    case True
    have "unat (- 1 :: uint64) = 2 ^ 64 - 1" by (simp add: unsigned_minus_1_eq_mask mask_eq_exp_minus_1)
    with True IH Suc.prems(1) show ?thesis by simp
  next
    case False
    have pos: "0 < unat (x - d)" using False by (simp add: unat_gt_0)
    have "s + (x - d) \<noteq> d" if "unat (x - d) < Suc n"
      using Suc.prems(2) [of 0 "unat (x - d)"] pos that by simp
    moreover have "s + 1 + (x - (d + 1)) = s + (x - d)" by simp
    ultimately show ?thesis using IH False pos by (auto simp: unat_dist_Suc)
  qed
qed

lemma memmove_backward_apply:
  assumes "n \<le> 2 ^ 64"
    and "\<And>i j. i < j \<Longrightarrow> j < n \<Longrightarrow> d + of_nat j \<noteq> s + of_nat i"
  shows "memmove_backward m (d + of_nat n) (s + of_nat n) n x =
    (if unat (x - d) < n then m (s + (x - d)) else m x)"
  using assms
proof (induction n arbitrary: m)
  case 0
  then show ?case by simp
next
  case (Suc n)
  let ?m = "m(d + of_nat n := m (s + of_nat n))"
  have IH: "memmove_backward ?m (d + of_nat n) (s + of_nat n) n x =
      (if unat (x - d) < n then ?m (s + (x - d)) else ?m x)"
    using Suc.prems by (intro Suc.IH) auto
  have "s + (x - d) \<noteq> d + of_nat n" if "unat (x - d) < n"
    using Suc.prems(2) [of "unat (x - d)" n] that by auto
  then show ?case
    using IH Suc.prems(1) dist_iff [of n x d] by (auto simp: less_Suc_eq)
qed

text \<open>The two directions together: the choice of direction that the source makes is the one
  that never reads a byte it has already overwritten.\<close>

lemma memmove_apply:
  assumes s: "unat src + n \<le> 2 ^ 64" and d: "unat dst + n \<le> 2 ^ 64"
  shows "memmove m dst src n x = (if unat (x - dst) < n then m (src + (x - dst)) else m x)"
proof -
  have nn: "n \<le> 2 ^ 64" using s by simp
  have S: "unat (src + of_nat k) = unat src + k" if "k < n" for k
    using that s by (simp add: unat_word_ariths)
  have D: "unat (dst + of_nat k) = unat dst + k" if "k < n" for k
    using that d by (simp add: unat_word_ariths)
  consider (zero) "n = 0" | (bwd) "n \<noteq> 0" "src < dst" "src + of_nat n > dst"
    | (fwd) "n \<noteq> 0" "\<not> (src < dst \<and> src + of_nat n > dst)" by blast
  then show ?thesis
  proof cases
    case zero
    then show ?thesis by (simp add: memmove_def)
  next
    case bwd
    have "dst + of_nat j \<noteq> src + of_nat i" if "i < j" "j < n" for i j
      using that bwd(2) S [of i] D [of j] by (auto simp: word_less_nat_alt)
    then show ?thesis
      using bwd memmove_backward_apply [OF nn, of dst src m x] by (simp add: memmove_def)
  next
    case fwd
    have "dst + of_nat i \<noteq> src + of_nat j" if ij: "i < j" "j < n" for i j
    proof
      assume eq: "dst + of_nat i = src + of_nat j"
      then have "unat dst + i = unat src + j"
        using S [of j] D [of i] ij by simp
      then have lt: "unat src < unat dst" "unat dst < unat src + n" using ij by auto
      then have "unat src + n < 2 ^ 64" using d by simp
      then have "unat (src + of_nat n) = unat src + n" by (simp add: unat_word_ariths)
      with lt fwd show False by (simp add: word_less_nat_alt)
    qed
    then show ?thesis
      using fwd memmove_forward_apply [OF nn, of dst src m x] by (auto simp: memmove_def)
  qed
qed

lemma memmove_eq_store:
  assumes "unat src + n \<le> 2 ^ 64" "unat dst + n \<le> 2 ^ 64"
  shows "memmove m dst src n = store_bytes m dst (load_bytes m src n)"
  using assms by (auto simp: memmove_apply store_bytes_def fun_eq_iff)

section \<open>Strings\<close>

lemma strncmp_eq_zero: "strncmp p q n = 0 \<longleftrightarrow> cstrn p n = cstrn q n"
proof (induction p q n rule: strncmp.induct)
  case (1 p q)
  then show ?case by simp
next
  case (2 p q n)
  then show ?case by (auto simp: word_uint_eq_iff)
qed

lemma strncpy_length [simp]: "length (strncpy t n) = n"
  by (induction t n rule: strncpy.induct) auto

lemma cstrn_zero [simp]: "cstrn (\<lambda>i. 0) n = []"
  by (cases n) auto

lemma cstrn_replicate_0 [simp]: "cstrn (arr (0 # xs)) n = []"
  by (cases n) auto

lemma cstrn_strncpy: "cstrn (arr (strncpy t n)) n = cstrn t n"
  by (induction t n rule: strncpy.induct) auto

lemma safestrcpy_loop_spec:
  "length (safestrcpy_loop t k) \<le> Suc k \<and>
   0 \<in> set (safestrcpy_loop t k) \<and>
   cstrn (arr (safestrcpy_loop t k)) n = cstrn t (min k n)"
proof (induction k arbitrary: t n)
  case 0
  then show ?case by simp
next
  case (Suc k)
  show ?case
  proof (cases n)
    case 0
    with Suc show ?thesis by auto
  next
    case (Suc n')
    with Suc.IH [of "\<lambda>i. t (Suc i)" n'] show ?thesis by auto
  qed
qed

lemma strlen_from_least:
  assumes "n \<le> k" "s k = 0" "\<And>i. n \<le> i \<Longrightarrow> i < k \<Longrightarrow> s i \<noteq> 0"
  shows "strlen_from s n = Some k"
  using assms
proof (induction "k - n" arbitrary: n)
  case 0
  then show ?case by (simp add: strlen_from.simps)
next
  case (Suc d)
  have "s n \<noteq> 0" using Suc.prems(3) [of n] Suc.hyps(2) by simp
  moreover have "strlen_from s (Suc n) = Some k"
    using Suc.hyps(2) Suc.prems by (intro Suc.hyps(1)) auto
  ultimately show ?case by (simp add: strlen_from.simps [of s n])
qed

lemma strlen_arr: "0 \<notin> set xs \<Longrightarrow> strlen (arr xs) = Some (length xs)"
  unfolding strlen_def
  by (rule strlen_from_least) (auto simp: arr_def in_set_conv_nth)

lemma strlen_exists:
  assumes "s k = 0"
  shows "\<exists>n \<le> k. strlen s = Some n \<and> s n = 0 \<and> (\<forall>i < n. s i \<noteq> 0)"
proof -
  define n where "n = (LEAST i. s i = 0)"
  have "s n = 0" unfolding n_def using assms by (rule LeastI)
  moreover have "n \<le> k" unfolding n_def using assms by (rule Least_le)
  moreover have "\<forall>i < n. s i \<noteq> 0" unfolding n_def using not_less_Least by blast
  ultimately show ?thesis
    unfolding strlen_def using strlen_from_least [of 0 n s] by auto
qed

lemma length_cstrn_first:
  "j < n \<Longrightarrow> p j = 0 \<Longrightarrow> \<forall>m < j. p m \<noteq> 0 \<Longrightarrow> length (cstrn p n) = j"
proof (induction p n arbitrary: j rule: cstrn.induct)
  case (1 p)
  then show ?case by simp
next
  case (2 p n)
  show ?case
  proof (cases j)
    case 0
    then show ?thesis using "2.prems" by simp
  next
    case (Suc i)
    then have "p 0 \<noteq> 0" using "2.prems" by auto
    moreover have "length (cstrn (\<lambda>i. p (Suc i)) n) = i"
      using "2.prems" Suc calculation by (intro "2.IH") auto
    ultimately show ?thesis using Suc by simp
  qed
qed

section \<open>Properties\<close>

text \<open>C13: memmove copies correctly also when source and destination overlap. As long as neither
  range wraps around the address space, the result is the memory in which the destination holds the
  bytes the source held before the call, and no other byte changes.\<close>

theorem memmove_correct:
  assumes "unat src + n \<le> 2 ^ 64" "unat dst + n \<le> 2 ^ 64"
  shows "memmove m dst src n = store_bytes m dst (load_bytes m src n) \<and>
    load_bytes (memmove m dst src n) dst n = load_bytes m src n \<and>
    (\<forall>x. n \<le> unat (x - dst) \<longrightarrow> memmove m dst src n x = m x)"
proof -
  have "load_bytes (store_bytes m dst (load_bytes m src n)) dst n = load_bytes m src n"
    using load_store_bytes [of "load_bytes m src n" m dst] assms(2) by simp
  then show ?thesis by (simp add: memmove_eq_store [OF assms]) (simp add: store_bytes_def)
qed

theorem memmove_correct_witness:
  "load_bytes (memmove (\<lambda>a. ucast a) 102 100 4) 102 4 = load_bytes (\<lambda>a. ucast a) 100 4"
  using memmove_correct [of 100 4 102 "\<lambda>a. ucast a"] by fastforce

text \<open>Names stored by strncpy and compared by strncmp behave as strings of at most n bytes:
  comparing a stored name with another string gives 0 exactly when both strings agree up to their
  NUL or the first n bytes.\<close>

theorem strncpy_strncmp:
  "strncmp (arr (strncpy t n)) u n = 0 \<longleftrightarrow> cstrn t n = cstrn u n"
  by (simp add: strncmp_eq_zero cstrn_strncpy)

text \<open>safestrcpy always leaves a NUL-terminated string inside the destination, so strlen returns
  on it, with a length below n, and what is stored is the source cut to n - 1 bytes.\<close>

theorem safestrcpy_terminated:
  assumes "0 < n"
  shows "length (safestrcpy t n) \<le> n \<and>
    cstrn (arr (safestrcpy t n)) n = cstrn t (n - 1) \<and>
    (\<exists>k < n. strlen (arr (safestrcpy t n)) = Some k \<and> k = length (cstrn t (n - 1)))"
proof -
  obtain k where k: "n = Suc k" using assms gr0_implies_Suc by blast
  note spec = safestrcpy_loop_spec [of t k n]
  let ?b = "safestrcpy t n"
  have b: "?b = safestrcpy_loop t k" by (simp add: safestrcpy_def k)
  from spec obtain i where i: "i < length ?b" "?b ! i = 0" "i \<le> k"
    unfolding b in_set_conv_nth by auto
  then have "arr ?b i = 0" by (simp add: arr_def)
  from strlen_exists [of "arr ?b", OF this] obtain j where
    j: "j \<le> i" "strlen (arr ?b) = Some j" "arr ?b j = 0" "\<forall>m < j. arr ?b m \<noteq> 0" by blast
  have "cstrn (arr ?b) n = cstrn t k" using spec b by (simp add: k)
  moreover have "length (cstrn (arr ?b) n) = j"
    using j i(3) k by (intro length_cstrn_first) auto
  ultimately show ?thesis using spec j(1,2) i(3) b by (auto simp: k)
qed

theorem safestrcpy_terminated_witness:
  "\<exists>k < 4. strlen (arr (safestrcpy (arr [104, 101, 108, 108, 111]) 4)) = Some k"
  using safestrcpy_terminated [of 4 "arr [104, 101, 108, 108, 111]"] by auto

end
