(* ===== verification/Riscv.thy ===== *)
theory Riscv
  imports KString
begin

text \<open>
  The page and page-table macros of kernel/riscv.h and the address constants of
  kernel/memlayout.h, on 64-bit words, with the bit-level facts the memory components rest
  on: rounding to pages, the round trip between a physical address and the page-table entry
  that holds it, and that the three 9-bit indices and the page offset determine an address
  below \<open>MAXVA\<close>.
\<close>

section \<open>Macros and constants\<close>

definition PGSIZE :: nat where
  "PGSIZE = 4096"

definition PGSIZE_w :: uint64 where
  "PGSIZE_w = 4096"

definition PGROUNDUP :: "uint64 \<Rightarrow> uint64" where
  "PGROUNDUP sz = (sz + 4096 - 1) AND NOT 4095"

definition PGROUNDDOWN :: "uint64 \<Rightarrow> uint64" where
  "PGROUNDDOWN a = a AND NOT 4095"

definition PTE_V :: uint64 where "PTE_V = 1"
definition PTE_R :: uint64 where "PTE_R = 2"
definition PTE_W :: uint64 where "PTE_W = 4"
definition PTE_X :: uint64 where "PTE_X = 8"
definition PTE_U :: uint64 where "PTE_U = 16"

definition PA2PTE :: "uint64 \<Rightarrow> uint64" where
  "PA2PTE pa = push_bit 10 (drop_bit 12 pa)"

definition PTE2PA :: "uint64 \<Rightarrow> uint64" where
  "PTE2PA pte = push_bit 12 (drop_bit 10 pte)"

definition PTE_FLAGS :: "uint64 \<Rightarrow> uint64" where
  "PTE_FLAGS pte = pte AND 0x3FF"

definition PXSHIFT :: "nat \<Rightarrow> nat" where
  "PXSHIFT level = 12 + 9 * level"

definition PX :: "nat \<Rightarrow> uint64 \<Rightarrow> uint64" where
  "PX level va = drop_bit (PXSHIFT level) va AND 0x1FF"

definition MAXVA :: uint64 where
  "MAXVA = 0x4000000000"

definition KERNBASE :: uint64 where
  "KERNBASE = 0x80000000"

definition PHYSTOP :: uint64 where
  "PHYSTOP = KERNBASE + 128 * 1024 * 1024"

definition TRAMPOLINE :: uint64 where
  "TRAMPOLINE = MAXVA - 4096"

definition TRAPFRAME :: uint64 where
  "TRAPFRAME = TRAMPOLINE - 4096"

definition KSTACK :: "nat \<Rightarrow> uint64" where
  "KSTACK p = TRAMPOLINE - (of_nat p + 1) * 2 * 4096"

lemmas pte_bits = PTE_V_def PTE_R_def PTE_W_def PTE_X_def PTE_U_def
lemmas address_consts = MAXVA_def KERNBASE_def PHYSTOP_def TRAMPOLINE_def TRAPFRAME_def

lemma PHYSTOP_eq: "PHYSTOP = 0x88000000"
  by (simp add: address_consts)

section \<open>Rounding to pages\<close>

definition page_aligned :: "uint64 \<Rightarrow> bool" where
  "page_aligned a \<longleftrightarrow> unat a mod 4096 = 0"

lemma page_mask: "(4095 :: uint64) = mask 12"
  by (simp add: mask_eq_exp_minus_1)

lemma and_not_mask: "(a :: uint64) AND NOT (mask 12) = push_bit 12 (drop_bit 12 a)"
  by (rule bit_eqI) (auto simp: bit_simps)

lemma unat_push_drop: "unat (push_bit 12 (drop_bit 12 (a :: uint64))) = unat a div 4096 * 4096"
proof -
  have lt: "unat a div 4096 * 4096 < 2 ^ 64"
    using unsigned_less [of a, where ?'a = nat] by simp
  have "take_bit 64 (unat a) = unat a"
    using unsigned_less [of a, where ?'a = nat] by (simp add: take_bit_nat_eq_self)
  then have "unat (push_bit 12 (drop_bit 12 a)) = take_bit 64 (push_bit 12 (drop_bit 12 (unat a)))"
    by (simp add: unsigned_push_bit_eq unsigned_drop_bit_eq)
  also have "\<dots> = take_bit 64 (unat a div 4096 * 4096)"
    by (simp add: push_bit_eq_mult drop_bit_eq_div)
  also have "\<dots> = unat a div 4096 * 4096"
    using lt by (simp add: take_bit_nat_eq_self)
  finally show ?thesis .
qed

lemma unat_PGROUNDDOWN: "unat (PGROUNDDOWN a) = unat a div 4096 * 4096"
  by (simp add: PGROUNDDOWN_def page_mask and_not_mask unat_push_drop)

lemma unat_PGROUNDUP:
  assumes "unat sz + 4095 < 2 ^ 64"
  shows "unat (PGROUNDUP sz) = (unat sz + 4095) div 4096 * 4096"
proof -
  have "sz + 4096 - 1 = sz + 4095" by simp
  moreover have "unat (sz + 4095) = unat sz + 4095"
    using assms by (simp add: unat_word_ariths)
  moreover have "(sz + 4095) AND NOT 4095 = push_bit 12 (drop_bit 12 (sz + 4095))"
    unfolding and_not_mask [symmetric] by (simp add: page_mask)
  ultimately show ?thesis
    unfolding PGROUNDUP_def by (simp only: unat_push_drop)
qed

lemma page_aligned_PGROUNDDOWN [simp]: "page_aligned (PGROUNDDOWN a)"
  by (simp add: page_aligned_def unat_PGROUNDDOWN)

lemma PGROUNDDOWN_le: "PGROUNDDOWN a \<le> a"
  by (simp add: word_le_nat_alt unat_PGROUNDDOWN)

lemma PGROUNDDOWN_aligned: "page_aligned a \<Longrightarrow> PGROUNDDOWN a = a"
  unfolding word_unat_eq_iff unat_PGROUNDDOWN page_aligned_def by auto

lemma page_aligned_PGROUNDUP: "page_aligned (PGROUNDUP sz)"
  by (simp add: page_aligned_def PGROUNDUP_def page_mask and_not_mask unat_push_drop)

lemma page_aligned_0 [simp]: "page_aligned 0"
  by (simp add: page_aligned_def)

lemma page_aligned_mod: "page_aligned a \<longleftrightarrow> a mod 4096 = 0"
  by (simp add: page_aligned_def word_unat_eq_iff unat_mod)

lemma page_aligned_bits: "page_aligned a \<longleftrightarrow> push_bit 12 (drop_bit 12 a) = a"
  unfolding word_unat_eq_iff unat_push_drop page_aligned_def
  using div_mult_mod_eq [of "unat a" 4096] by linarith

section \<open>Page-table entries\<close>

text \<open>An aligned physical address survives the trip through a page-table entry, whatever the
  ten flag bits are, and so do the flags.\<close>

lemma bit_small:
  assumes "(f :: uint64) < 1024" "10 \<le> n"
  shows "\<not> bit f n"
proof -
  have "take_bit 10 f = f" using assms(1)
    by (simp add: take_bit_eq_mod word_mod_less_divisor word_unat_eq_iff unat_mod word_less_nat_alt)
  then show ?thesis using assms(2) by (metis bit_take_bit_iff not_le)
qed

lemma PTE2PA_PA2PTE:
  assumes "page_aligned pa" "f < 1024"
  shows "PTE2PA (PA2PTE pa OR f) = pa"
proof (rule bit_eqI)
  fix n assume "possible_bit TYPE(uint64) n"
  then have n: "n < 64" by simp
  have al: "bit pa n \<longleftrightarrow> 12 \<le> n \<and> bit pa n"
    using assms(1) n by (metis bit_push_bit_iff page_aligned_bits)
  have "\<not> bit f (n - 2)" if "12 \<le> n" using assms(2) that by (intro bit_small) auto
  moreover have "10 + (n - 12) = n - 2" "n - 2 + 2 = n" if "12 \<le> n" using that by auto
  ultimately show "bit (PTE2PA (PA2PTE pa OR f)) n = bit pa n"
    using n al by (auto simp: PTE2PA_def PA2PTE_def bit_simps)
qed

lemma PTE_FLAGS_PA2PTE:
  assumes "f < 1024"
  shows "PTE_FLAGS (PA2PTE pa OR f) = f"
proof (rule bit_eqI)
  fix n assume "possible_bit TYPE(uint64) n"
  then have n: "n < 64" by simp
  have m: "(0x3FF :: uint64) = mask 10" by (simp add: mask_eq_exp_minus_1)
  show "bit (PTE_FLAGS (PA2PTE pa OR f)) n = bit f n"
    using n bit_small [OF assms, of n]
    by (cases "n < 10") (auto simp: PTE_FLAGS_def PA2PTE_def m bit_simps)
qed

lemma PA2PTE_low_bits:
  assumes "n < 10"
  shows "\<not> bit (PA2PTE pa) n"
  using assms by (simp add: PA2PTE_def bit_simps)

lemma PA2PTE_and_flag: "PA2PTE pa AND PTE_V = 0"
  by (rule bit_eqI) (auto simp: PTE_V_def PA2PTE_def bit_simps)

lemma PTE_V_set: "(x OR PTE_V) AND PTE_V \<noteq> 0"
proof -
  have "bit ((x OR PTE_V) AND PTE_V) 0" by (simp add: PTE_V_def bit_simps)
  then show ?thesis by auto
qed

lemma PTE2PA_aligned [simp]: "page_aligned (PTE2PA pte)"
  unfolding page_aligned_bits PTE2PA_def by (rule bit_eqI) (auto simp: bit_simps)

section \<open>The indices of a virtual address\<close>

lemma PX_take_bit: "PX level va = take_bit 9 (drop_bit (PXSHIFT level) va)"
proof -
  have "(0x1FF :: uint64) = mask 9" by (simp add: mask_eq_exp_minus_1)
  then show ?thesis by (simp add: PX_def take_bit_eq_mask)
qed

lemma PX_lt: "unat (PX level va) < 512"
  by (simp add: PX_take_bit unsigned_take_bit_eq) (simp add: take_bit_eq_mod)

lemma bit_PX: "bit (PX level va) k \<longleftrightarrow> k < 9 \<and> bit va (PXSHIFT level + k)"
  by (simp add: PX_take_bit bit_simps)

lemma bit_below_MAXVA:
  assumes "va < MAXVA" "bit va n"
  shows "n < 38"
proof (rule ccontr)
  assume "\<not> n < 38"
  moreover have "take_bit 38 va = va"
    using assms(1) by (simp add: MAXVA_def take_bit_eq_mod word_unat_eq_iff unat_mod word_less_nat_alt)
  ultimately show False using assms(2) by (metis bit_take_bit_iff)
qed

text \<open>Two page-aligned virtual addresses with the same three indices are the same address.\<close>

lemma PX_determines:
  assumes "va < MAXVA" "vb < MAXVA" "page_aligned va" "page_aligned vb"
    and px: "\<And>l. l < 3 \<Longrightarrow> PX l va = PX l vb"
  shows "va = vb"
proof (rule bit_eqI)
  fix n assume "possible_bit TYPE(uint64) n"
  have low: "\<not> bit v n" if "page_aligned v" "n < 12" for v
    using that by (metis bit_push_bit_iff not_le page_aligned_bits)
  show "bit va n = bit vb n"
  proof (cases "12 \<le> n \<and> n < 38")
    case False
    then show ?thesis using assms(1-4) bit_below_MAXVA low by (metis not_le)
  next
    case True
    define l where "l = (n - 12) div 9"
    define k where "k = (n - 12) mod 9"
    have "l < 3" "k < 9" using True by (auto simp: l_def k_def)
    moreover have "PXSHIFT l + k = n" using True by (simp add: PXSHIFT_def l_def k_def)
    ultimately show ?thesis using px [of l] bit_PX [of l va k] bit_PX [of l vb k] by simp
  qed
qed

end
