(* ===== verification/Kalloc.thy ===== *)
theory Kalloc
  imports Riscv
begin

text \<open>
  kernel/kalloc.c: the physical page allocator. Its state is physical memory, the address
  \<open>kend\<close> of the first byte after the kernel (the linker symbol \<open>end\<close>, whose value the build
  fixes) and the head of the free list. The free list is threaded through the free pages
  themselves: the first eight bytes of a free page hold the address of the next one
  (\<open>struct run\<close>), so \<open>kalloc\<close> and \<open>kfree\<close> read and write memory. A critical section under
  \<open>kmem.lock\<close> is one atomic step of the model (the lock itself is the subject of Spinlock).

  Later components extend this record with their own fields, so every operation here is
  polymorphic in the rest of the kernel state.

  \<open>free_pages s ps\<close> says that \<open>ps\<close> is the list of free pages: it starts at the list head,
  follows the links in memory, has no duplicates, and every page is aligned and inside
  [\<open>kend\<close>, \<open>PHYSTOP\<close>). The locale \<open>page_allocator\<close> is the contract the rest of the kernel
  relies on; its interpretation \<open>kmem\<close> discharges it for \<open>kalloc\<close> and \<open>kfree\<close>.
\<close>

record kmem_st =
  mem :: memory
  kend :: uint64
  freelist :: uint64

section \<open>Operations\<close>

definition kfree :: "uint64 \<Rightarrow> 'a kmem_st_scheme \<Rightarrow> (unit, 'a kmem_st_scheme) res" where
  "kfree pa s =
     (if pa mod 4096 \<noteq> 0 \<or> pa < kend s \<or> pa \<ge> PHYSTOP then Panic ''kfree''
      else
        let m = memset (mem s) pa 1 PGSIZE;
            m' = store64 m pa (freelist s)
        in Ok () (s\<lparr>mem := m', freelist := pa\<rparr>))"

definition kalloc :: "'a kmem_st_scheme \<Rightarrow> (uint64, 'a kmem_st_scheme) res" where
  "kalloc s =
     (let r = freelist s;
          s1 = (if r \<noteq> 0 then s\<lparr>freelist := load64 (mem s) r\<rparr> else s);
          s2 = (if r \<noteq> 0 then s1\<lparr>mem := memset (mem s1) r 5 PGSIZE\<rparr> else s1)
      in Ok r s2)"

text \<open>\<open>freerange\<close>: pointer arithmetic does not wrap, so the cursor is a natural number.\<close>

function freerange_from ::
  "nat \<Rightarrow> nat \<Rightarrow> 'a kmem_st_scheme \<Rightarrow> (unit, 'a kmem_st_scheme) res" where
  "freerange_from p pa_end s =
     (if p + PGSIZE \<le> pa_end
      then bindR (kfree (of_nat p) s) (\<lambda>_ s. freerange_from (p + PGSIZE) pa_end s)
      else Ok () s)"
  by pat_completeness auto
termination
  by (relation "measure (\<lambda>(p, e, s). e - p)") (auto simp: PGSIZE_def)

declare freerange_from.simps [simp del]

definition freerange ::
  "uint64 \<Rightarrow> uint64 \<Rightarrow> 'a kmem_st_scheme \<Rightarrow> (unit, 'a kmem_st_scheme) res" where
  "freerange pa_start pa_end s = freerange_from (unat (PGROUNDUP pa_start)) (unat pa_end) s"

definition kinit :: "'a kmem_st_scheme \<Rightarrow> (unit, 'a kmem_st_scheme) res" where
  "kinit s = freerange (kend s) PHYSTOP s"

section \<open>Pages\<close>

lemma page_run:
  assumes "page_aligned p"
  shows "unat p + 4096 \<le> 2 ^ 64"
proof -
  define k where "k = unat p div 4096"
  have k: "unat p = k * 4096"
    using assms div_mult_mod_eq [of "unat p" 4096] by (simp add: page_aligned_def k_def)
  moreover have "unat p < 2 ^ 64" using unsigned_less [of p, where ?'a = nat] by simp
  ultimately have "k < 2 ^ 52" by simp
  with k show ?thesis by simp
qed

lemma in_page_iff:
  assumes "page_aligned p"
  shows "unat (x - p) < 4096 \<longleftrightarrow> PGROUNDDOWN x = p"
proof -
  have "unat p = unat p div 4096 * 4096"
    using assms div_mult_mod_eq [of "unat p" 4096] by (simp add: page_aligned_def)
  moreover define k where "k = unat p div 4096"
  ultimately have k: "unat p = k * 4096" by simp
  have "unat (x - p) < 4096 \<longleftrightarrow> unat p \<le> unat x \<and> unat x < unat p + 4096"
    by (rule in_run_iff [OF page_run [OF assms]])
  also have "\<dots> \<longleftrightarrow> unat x div 4096 = k" unfolding k by auto
  also have "\<dots> \<longleftrightarrow> PGROUNDDOWN x = p"
    unfolding word_unat_eq_iff unat_PGROUNDDOWN k by simp
  finally show ?thesis .
qed

lemma memset_page:
  "page_aligned p \<Longrightarrow> memset m p c PGSIZE x = (if PGROUNDDOWN x = p then c else m x)"
  by (simp add: memset_apply PGSIZE_def in_page_iff)

lemma PGROUNDDOWN_add:
  assumes "unat a mod 4096 + i < 4096"
  shows "PGROUNDDOWN (a + of_nat i) = PGROUNDDOWN a"
proof -
  have al: "page_aligned (PGROUNDDOWN a)" by simp
  define y where "y = a - PGROUNDDOWN a"
  have "unat y = unat a mod 4096"
    by (simp add: y_def unat_sub PGROUNDDOWN_le unat_PGROUNDDOWN minus_div_mult_eq_mod)
  then have "unat (y + of_nat i) < 4096"
    using assms by (simp add: unat_word_ariths)
  moreover have "a + of_nat i - PGROUNDDOWN a = y + of_nat i" by (simp add: y_def)
  ultimately have "unat (a + of_nat i - PGROUNDDOWN a) < 4096" by (simp only:)
  then show ?thesis using in_page_iff [OF al] by blast
qed

text \<open>A 64-bit slot inside a page.\<close>

definition in_page_slot :: "uint64 \<Rightarrow> bool" where
  "in_page_slot a \<longleftrightarrow> unat a mod 4096 + 8 \<le> 4096"

lemma in_page_slot_aligned: "page_aligned p \<Longrightarrow> in_page_slot p"
  by (simp add: in_page_slot_def page_aligned_def)

lemma slot_pages: "in_page_slot a \<Longrightarrow> i < 8 \<Longrightarrow> PGROUNDDOWN (a + of_nat i) = PGROUNDDOWN a"
  by (rule PGROUNDDOWN_add) (simp add: in_page_slot_def)

lemma load64_page_cong:
  assumes "in_page_slot a" "\<And>x. PGROUNDDOWN x = PGROUNDDOWN a \<Longrightarrow> m x = m' x"
  shows "load64 m a = load64 m' a"
  by (rule load64_cong) (simp add: assms slot_pages)

lemma store64_other_page:
  assumes "in_page_slot a" "PGROUNDDOWN x \<noteq> PGROUNDDOWN a"
  shows "store64 m a v x = m x"
proof (rule store64_outside, rule ccontr)
  assume "\<not> 8 \<le> unat (x - a)"
  then have lt: "unat (x - a) < 8" by simp
  have "x = a + of_nat (unat (x - a))" by simp
  then have "PGROUNDDOWN x = PGROUNDDOWN a" using slot_pages [OF assms(1) lt] by metis
  with assms(2) show False by simp
qed

section \<open>The free list\<close>

fun chained :: "memory \<Rightarrow> uint64 \<Rightarrow> uint64 list \<Rightarrow> bool" where
  "chained m r [] = (r = 0)"
| "chained m r (p # ps) = (r = p \<and> p \<noteq> 0 \<and> chained m (load64 m p) ps)"

definition ram_page :: "'a kmem_st_scheme \<Rightarrow> uint64 \<Rightarrow> bool" where
  "ram_page s p \<longleftrightarrow> page_aligned p \<and> kend s \<le> p \<and> p < PHYSTOP \<and> p \<noteq> 0"

definition free_pages :: "'a kmem_st_scheme \<Rightarrow> uint64 list \<Rightarrow> bool" where
  "free_pages s ps \<longleftrightarrow>
     chained (mem s) (freelist s) ps \<and> distinct ps \<and> (\<forall>p \<in> set ps. ram_page s p)"

lemma chained_cong:
  assumes "\<And>p x. p \<in> set ps \<Longrightarrow> PGROUNDDOWN x = p \<Longrightarrow> m x = m' x"
    and "\<And>p. p \<in> set ps \<Longrightarrow> page_aligned p"
  shows "chained m r ps = chained m' r ps"
  using assms
proof (induction ps arbitrary: r)
  case Nil
  then show ?case by simp
next
  case (Cons p ps)
  have "page_aligned p" using Cons.prems(2) by simp
  then have "load64 m p = load64 m' p"
    using Cons.prems(1) [of p]
    by (intro load64_page_cong) (auto simp: in_page_slot_aligned PGROUNDDOWN_aligned)
  moreover have "chained m (load64 m' p) ps = chained m' (load64 m' p) ps"
    using Cons.prems by (intro Cons.IH) auto
  ultimately show ?case by simp
qed

lemma free_pages_frame:
  assumes "free_pages s ps" "freelist t = freelist s" "kend t = kend s"
    and "\<And>x. PGROUNDDOWN x \<in> set ps \<Longrightarrow> mem t x = mem s x"
  shows "free_pages t ps"
proof -
  have "chained (mem t) (freelist s) ps = chained (mem s) (freelist s) ps"
    using assms by (intro chained_cong) (auto simp: free_pages_def ram_page_def)
  with assms show ?thesis by (auto simp: free_pages_def ram_page_def)
qed

lemma ram_page_aligned: "ram_page s p \<Longrightarrow> page_aligned p"
  by (simp add: ram_page_def)

lemma kfree_Ok:
  assumes "ram_page s p"
  shows "kfree p s = Ok () (s\<lparr>mem := store64 (memset (mem s) p 1 PGSIZE) p (freelist s), freelist := p\<rparr>)"
  using assms by (simp add: kfree_def ram_page_def page_aligned_mod not_less not_le Let_def)

lemma kfree_free_pages:
  assumes fp: "free_pages s ps" and p: "ram_page s p" "p \<notin> set ps"
  shows "\<exists>t. kfree p s = Ok () t \<and> free_pages t (p # ps) \<and> kend t = kend s \<and>
           kmem_st.more t = kmem_st.more s \<and>
           (\<forall>x. PGROUNDDOWN x \<noteq> p \<longrightarrow> mem t x = mem s x)"
proof -
  let ?m = "store64 (memset (mem s) p 1 PGSIZE) p (freelist s)"
  let ?t = "s\<lparr>mem := ?m, freelist := p\<rparr>"
  have al: "page_aligned p" using p(1) by (rule ram_page_aligned)
  have frame: "?m x = mem s x" if "PGROUNDDOWN x \<noteq> p" for x
    using that al
    by (simp add: store64_other_page in_page_slot_aligned PGROUNDDOWN_aligned memset_page)
  have "chained ?m (freelist s) ps = chained (mem s) (freelist s) ps"
    using fp p(2) by (intro chained_cong frame) (auto simp: free_pages_def ram_page_def)
  then have "free_pages ?t (p # ps)"
    using fp p by (auto simp: free_pages_def ram_page_def)
  then show ?thesis using kfree_Ok [OF p(1)] frame by simp
qed

lemma kalloc_None: "free_pages s [] \<Longrightarrow> kalloc s = Ok 0 s"
  by (simp add: free_pages_def kalloc_def)

lemma kalloc_free_pages:
  assumes fp: "free_pages s (p # ps)"
  shows "\<exists>t. kalloc s = Ok p t \<and> free_pages t ps \<and> kend t = kend s \<and>
           kmem_st.more t = kmem_st.more s \<and>
           (\<forall>x. mem t x = (if PGROUNDDOWN x = p then 5 else mem s x))"
proof -
  let ?t = "s\<lparr>freelist := load64 (mem s) p, mem := memset (mem s) p 5 PGSIZE\<rparr>"
  have r: "freelist s = p" "p \<noteq> 0" "p \<notin> set ps" and al: "page_aligned p"
    using fp by (auto simp: free_pages_def ram_page_def)
  have frame: "memset (mem s) p 5 PGSIZE x = (if PGROUNDDOWN x = p then 5 else mem s x)" for x
    using al by (rule memset_page)
  have "chained (memset (mem s) p 5 PGSIZE) (load64 (mem s) p) ps =
      chained (mem s) (load64 (mem s) p) ps"
    using fp r by (intro chained_cong) (auto simp: frame free_pages_def ram_page_def)
  then have "free_pages ?t ps"
    using fp by (auto simp: free_pages_def ram_page_def)
  moreover have "kalloc s = Ok p ?t"
    using r by (simp add: kalloc_def Let_def)
  ultimately show ?thesis using frame by simp
qed

section \<open>The contract of a page allocator\<close>

fun repeat_alloc :: "('s \<Rightarrow> (uint64, 's) res) \<Rightarrow> nat \<Rightarrow> 's \<Rightarrow> (uint64 list, 's) res" where
  "repeat_alloc alloc 0 s = Ok [] s"
| "repeat_alloc alloc (Suc n) s =
     bindR (alloc s) (\<lambda>p s. bindR (repeat_alloc alloc n s) (\<lambda>ps s. Ok (p # ps) s))"

locale page_allocator =
  fixes alloc :: "'s \<Rightarrow> (uint64, 's) res"
    and free :: "uint64 \<Rightarrow> 's \<Rightarrow> (unit, 's) res"
    and avail :: "'s \<Rightarrow> uint64 list \<Rightarrow> bool"
    and usable :: "'s \<Rightarrow> uint64 \<Rightarrow> bool"
  assumes alloc_some: "avail s (p # ps) \<Longrightarrow> \<exists>t. alloc s = Ok p t \<and> avail t ps"
    and alloc_none: "avail s [] \<Longrightarrow> alloc s = Ok 0 s"
    and free_back: "avail s ps \<Longrightarrow> usable s p \<Longrightarrow> p \<notin> set ps \<Longrightarrow>
      \<exists>t. free p s = Ok () t \<and> avail t (p # ps)"
    and avail_wf: "avail s ps \<Longrightarrow> distinct ps \<and> (\<forall>p \<in> set ps. usable s p \<and> p \<noteq> 0)"
    and usable_alloc: "alloc s = Ok q t \<Longrightarrow> usable t p = usable s p"
begin

text \<open>Allocating \<open>n\<close> times takes the first \<open>n\<close> free pages, then answers 0 for ever.\<close>

lemma repeat_alloc_take:
  assumes "avail s ps"
  shows "\<exists>t. repeat_alloc alloc n s = Ok (take n ps @ replicate (n - length ps) 0) t \<and>
             avail t (drop n ps)"
  using assms
proof (induction n arbitrary: s ps)
  case 0
  then show ?case by simp
next
  case (Suc n)
  show ?case
  proof (cases ps)
    case Nil
    with Suc.prems have "alloc s = Ok 0 s" by (simp add: alloc_none)
    then show ?thesis using Suc.IH [OF Suc.prems] Nil by auto
  next
    case (Cons p qs)
    then obtain t where t: "alloc s = Ok p t" "avail t qs"
      using alloc_some Suc.prems by blast
    then show ?thesis using Suc.IH [OF t(2)] Cons by auto
  qed
qed

text \<open>A page given back is the next one handed out, and the free pages are as before.\<close>

lemma alloc_free_alloc:
  assumes "avail s (p # ps)"
  shows "\<exists>t u v. alloc s = Ok p t \<and> free p t = Ok () u \<and> avail u (p # ps) \<and>
           alloc u = Ok p v \<and> avail v ps"
proof -
  obtain t where t: "alloc s = Ok p t" "avail t ps" using alloc_some assms by blast
  have "usable t p" "p \<notin> set ps"
    using avail_wf [OF assms] usable_alloc [OF t(1)] by auto
  then obtain u where u: "free p t = Ok () u" "avail u (p # ps)"
    using free_back t(2) by blast
  then show ?thesis using t alloc_some [OF u(2)] by blast
qed

end

lemma kalloc_kend: "kalloc s = Ok q t \<Longrightarrow> kend t = kend s"
  by (auto simp: kalloc_def Let_def split: if_splits)

lemma kalloc_more: "kalloc s = Ok q t \<Longrightarrow> kmem_st.more t = kmem_st.more s"
  by (auto simp: kalloc_def Let_def split: if_splits)

lemma ram_page_kalloc: "kalloc s = Ok q t \<Longrightarrow> ram_page t p = ram_page s p"
  by (simp add: ram_page_def kalloc_kend)

interpretation kmem: page_allocator kalloc kfree free_pages ram_page
proof unfold_locales
  fix s :: "'a kmem_st_scheme" and p ps
  assume "free_pages s (p # ps)"
  then show "\<exists>t. kalloc s = Ok p t \<and> free_pages t ps" using kalloc_free_pages by blast
next
  fix s :: "'a kmem_st_scheme"
  assume "free_pages s []"
  then show "kalloc s = Ok 0 s" by (rule kalloc_None)
next
  fix s :: "'a kmem_st_scheme" and p ps
  assume "free_pages s ps" "ram_page s p" "p \<notin> set ps"
  then show "\<exists>t. kfree p s = Ok () t \<and> free_pages t (p # ps)" using kfree_free_pages by blast
next
  fix s :: "'a kmem_st_scheme" and ps
  assume "free_pages s ps"
  then show "distinct ps \<and> (\<forall>p \<in> set ps. ram_page s p \<and> p \<noteq> 0)"
    by (auto simp: free_pages_def ram_page_def)
next
  fix s :: "'a kmem_st_scheme" and q t p
  assume "kalloc s = Ok q t"
  then show "ram_page t p = ram_page s p" by (rule ram_page_kalloc)
qed

section \<open>Initialisation\<close>

text \<open>The pages whose addresses lie in [\<open>a\<close>, \<open>e\<close>) when \<open>a\<close> is a page boundary, in the order
  \<open>freerange\<close> leaves them on the list: last first.\<close>

definition pages_down :: "nat \<Rightarrow> nat \<Rightarrow> uint64 list" where
  "pages_down a n = rev (map (\<lambda>i. of_nat (a + i * 4096)) [0..<n])"

lemma freerange_from_free_pages:
  assumes "free_pages s ps" "a mod 4096 = 0" "unat (kend s) \<le> a" "0 < a"
    and "e \<le> unat PHYSTOP" "n = (e - a) div 4096"
    and "\<And>p. p \<in> set ps \<Longrightarrow> unat p < a"
  shows "\<exists>t. freerange_from a e s = Ok () t \<and> free_pages t (pages_down a n @ ps) \<and>
             kend t = kend s \<and> kmem_st.more t = kmem_st.more s"
  using assms
proof (induction n arbitrary: a s ps)
  case 0
  then have "\<not> a + 4096 \<le> e" by auto
  then show ?case using 0
    by (simp add: freerange_from.simps [of a] PGSIZE_def pages_down_def)
next
  case (Suc n)
  have ge: "4096 \<le> e - a" using Suc.prems(6) by (metis Zero_not_Suc div_less not_less)
  then have le: "a + 4096 \<le> e" by simp
  have n: "n = (e - (a + 4096)) div 4096"
    using Suc.prems(6) le_div_geq [of 4096 "e - a"] ge by simp
  have stop: "unat PHYSTOP < 2 ^ 64" by (simp add: PHYSTOP_eq)
  let ?p = "of_nat a :: uint64"
  have up: "unat ?p = a" using le Suc.prems(5) stop by (intro unat_of_nat_64) simp
  have ram: "ram_page s ?p"
    using up Suc.prems(2-5) le
    by (auto simp: ram_page_def page_aligned_def word_le_nat_alt word_less_nat_alt
        simp flip: unat_gt_0)
  have new: "?p \<notin> set ps" using Suc.prems(7) up by force
  obtain t where t: "kfree ?p s = Ok () t" "free_pages t (?p # ps)" "kend t = kend s"
      "kmem_st.more t = kmem_st.more s"
    using kfree_free_pages [OF Suc.prems(1) ram new] by blast
  have below: "unat q < a + 4096" if "q \<in> set (?p # ps)" for q
    using that up Suc.prems(7) [of q] by auto
  have "\<exists>u. freerange_from (a + 4096) e t = Ok () u \<and>
      free_pages u (pages_down (a + 4096) n @ (?p # ps)) \<and> kend u = kend t \<and>
      kmem_st.more u = kmem_st.more t"
    using t Suc.prems n below by (intro Suc.IH) auto
  moreover have "pages_down a (Suc n) = pages_down (a + 4096) n @ [?p]"
    by (simp add: pages_down_def upt_conv_Cons map_Suc_upt [symmetric] o_def algebra_simps
        del: upt_Suc)
  ultimately show ?case
    using le t by (simp add: freerange_from.simps [of a] PGSIZE_def)
qed

lemma aligned_ge_iff:
  fixes a p :: nat
  assumes "p mod 4096 = 0"
  shows "(a + 4095) div 4096 * 4096 \<le> p \<longleftrightarrow> a \<le> p"
proof -
  define k where "k = p div 4096"
  have "p = k * 4096"
    using assms div_mult_mod_eq [of p 4096] by (simp add: k_def)
  then show ?thesis by (auto simp: less_mult_imp_div_less div_le_mono)
qed

lemma set_pages_down:
  assumes "a mod 4096 = 0" "e mod 4096 = 0" "e < 2 ^ 64" "n = (e - a) div 4096"
  shows "set (pages_down a n) = {p. page_aligned p \<and> a \<le> unat p \<and> unat p < e}"
    (is "?L = ?R")
proof
  have ae: "a + i * 4096 < e" if "i < n" for i
  proof -
    have "Suc i * 4096 \<le> n * 4096" using that by simp
    also have "\<dots> \<le> e - a" using assms(4) by simp
    finally show ?thesis by simp
  qed
  show "?L \<subseteq> ?R"
  proof
    fix p assume "p \<in> ?L"
    then obtain i where i: "i < n" "p = of_nat (a + i * 4096)"
      by (auto simp: pages_down_def)
    then have "unat p = a + i * 4096"
      using ae [OF i(1)] assms(3) by (simp del: of_nat_add of_nat_mult)
    then show "p \<in> ?R" using ae [OF i(1)] assms(1) by (simp add: page_aligned_def mod_simps)
  qed
  show "?R \<subseteq> ?L"
  proof
    fix p assume p: "p \<in> ?R"
    define i where "i = (unat p - a) div 4096"
    have "(unat p - a) mod 4096 = 0"
      using p assms(1) by (simp add: page_aligned_def mod_eq_0_iff_dvd)
    then have "unat p = a + i * 4096"
      using p div_mult_mod_eq [of "unat p - a" 4096] by (simp add: i_def)
    moreover have "i < n"
    proof -
      have "(e - a) mod 4096 = 0" using assms(1,2) p by (simp add: mod_eq_0_iff_dvd)
      then have "e - a = n * 4096"
        using assms(4) div_mult_mod_eq [of "e - a" 4096] by simp
      moreover have "i * 4096 < e - a" using \<open>unat p = a + i * 4096\<close> p by auto
      ultimately show ?thesis by simp
    qed
    moreover have "p = of_nat (unat p)" by simp
    ultimately show "p \<in> ?L" by (auto simp: pages_down_def simp del: of_nat_unat)
  qed
qed

section \<open>Properties\<close>

text \<open>C8: \<open>kinit\<close> returns, and afterwards the free list holds exactly the pages of physical
  memory between the end of the kernel and \<open>PHYSTOP\<close>, each once.\<close>

theorem kinit_frees_all_ram:
  assumes "freelist s = 0" "0 < kend s" "kend s \<le> PHYSTOP"
  shows "\<exists>t ps. kinit s = Ok () t \<and> free_pages t ps \<and>
           set ps = {p. page_aligned p \<and> kend s \<le> p \<and> p < PHYSTOP}"
proof -
  let ?a = "unat (PGROUNDUP (kend s))" and ?e = "unat PHYSTOP"
  have stop: "?e = 0x88000000" by (simp add: PHYSTOP_eq)
  have ks: "unat (kend s) \<le> ?e" using assms(3) by (simp add: word_le_nat_alt)
  then have a: "?a = (unat (kend s) + 4095) div 4096 * 4096"
    using stop by (intro unat_PGROUNDUP) simp
  have a0: "?a mod 4096 = 0" by (simp add: a)
  have a1: "unat (kend s) \<le> ?a" using aligned_ge_iff [of ?a "unat (kend s)"] a by simp
  have "0 < unat (kend s)" using assms(2) by (simp add: unat_gt_0)
  then have "\<exists>t. freerange_from ?a ?e s = Ok () t \<and>
      free_pages t (pages_down ?a ((?e - ?a) div 4096) @ []) \<and> kend t = kend s \<and>
      kmem_st.more t = kmem_st.more s"
    using a0 a1 assms(1) by (intro freerange_from_free_pages) (auto simp: free_pages_def)
  moreover have "set (pages_down ?a ((?e - ?a) div 4096)) =
      {p. page_aligned p \<and> ?a \<le> unat p \<and> unat p < ?e}"
    using a0 stop by (intro set_pages_down) auto
  moreover have "page_aligned p \<Longrightarrow> ?a \<le> unat p \<longleftrightarrow> kend s \<le> p" for p
    unfolding a by (simp add: aligned_ge_iff page_aligned_def word_le_nat_alt)
  ultimately show ?thesis
    by (auto simp: kinit_def freerange_def word_less_nat_alt cong: conj_cong)
qed

theorem kinit_frees_all_ram_witness:
  "\<exists>t ps. kinit \<lparr>mem = (\<lambda>_. 0), kend = 0x80021000, freelist = 0\<rparr> = Ok () t \<and> free_pages t ps \<and>
     set ps = {p. page_aligned p \<and> 0x80021000 \<le> p \<and> p < PHYSTOP}"
  using kinit_frees_all_ram [of "\<lparr>mem = (\<lambda>_. 0), kend = 0x80021000, freelist = 0\<rparr>"]
  by (simp add: PHYSTOP_eq)

text \<open>\<open>n\<close> calls of \<open>kalloc\<close> hand out \<open>n\<close> different free pages (never one page twice), and
  once the list is empty every further call answers 0.\<close>

theorem kalloc_never_twice:
  assumes "free_pages s ps"
  shows "\<exists>t. repeat_alloc kalloc n s = Ok (take n ps @ replicate (n - length ps) 0) t \<and>
             free_pages t (drop n ps) \<and> distinct (take n ps) \<and> 0 \<notin> set ps"
  using kmem.repeat_alloc_take [OF assms, of n] kmem.avail_wf [OF assms] by auto

theorem kalloc_never_twice_witness:
  "\<exists>t. repeat_alloc kalloc 2
        \<lparr>mem = store64 (\<lambda>_. 0) 0x87fff000 0, kend = 0x80021000, freelist = 0x87fff000\<rparr> =
      Ok [0x87fff000, 0] t \<and> free_pages t []"
  using kalloc_never_twice [of "\<lparr>mem = store64 (\<lambda>_. 0) 0x87fff000 0, kend = 0x80021000,
      freelist = 0x87fff000\<rparr>" "[0x87fff000]" 2]
  by (simp add: free_pages_def ram_page_def page_aligned_mod PHYSTOP_eq)

text \<open>C9: \<open>kfree\<close> panics exactly on an address that is misaligned or outside the allocatable
  memory; otherwise it returns, fills nothing but the freed page, and the page is the next one
  \<open>kalloc\<close> hands out.\<close>

theorem kfree_spec:
  assumes "free_pages s ps" "p \<notin> set ps" "0 < kend s"
  shows "if \<not> page_aligned p \<or> p < kend s \<or> PHYSTOP \<le> p then kfree p s = Panic ''kfree''
         else \<exists>t u. kfree p s = Ok () t \<and> free_pages t (p # ps) \<and>
                (\<forall>x. PGROUNDDOWN x \<noteq> p \<longrightarrow> mem t x = mem s x) \<and>
                kalloc t = Ok p u \<and> free_pages u ps"
proof (cases "\<not> page_aligned p \<or> p < kend s \<or> PHYSTOP \<le> p")
  case True
  then show ?thesis by (simp add: kfree_def page_aligned_mod)
next
  case False
  then have "p \<noteq> 0" using assms(3) by auto
  with False have "ram_page s p" by (auto simp: ram_page_def)
  from kfree_free_pages [OF assms(1) this assms(2)] obtain t where
    t: "kfree p s = Ok () t" "free_pages t (p # ps)"
      "\<forall>x. PGROUNDDOWN x \<noteq> p \<longrightarrow> mem t x = mem s x" by blast
  from kmem.alloc_some [OF t(2)] obtain u where "kalloc t = Ok p u" "free_pages u ps" by blast
  with t False show ?thesis by auto
qed

theorem kfree_spec_witness:
  "\<exists>t u. kfree 0x87ffe000
        \<lparr>mem = store64 (\<lambda>_. 0) 0x87fff000 0, kend = 0x80021000, freelist = 0x87fff000\<rparr> =
      Ok () t \<and> free_pages t [0x87ffe000, 0x87fff000] \<and> kalloc t = Ok 0x87ffe000 u"
  using kfree_spec [of "\<lparr>mem = store64 (\<lambda>_. 0) 0x87fff000 0, kend = 0x80021000,
      freelist = 0x87fff000\<rparr>" "[0x87fff000]" "0x87ffe000"]
  by (auto simp: free_pages_def ram_page_def page_aligned_mod PHYSTOP_eq)

end
