(* ===== verification/Vm.thy ===== *)
theory Vm
  imports Kalloc
begin

text \<open>
  kernel/vm.c: Sv39 page tables in physical memory. A page table is the address of a page of
  512 eight-byte entries; \<open>walk\<close> reads and, when asked, extends the three-level tree through
  \<open>load64\<close>, \<open>store64\<close>, \<open>memset\<close> and \<open>kalloc\<close>, exactly as the source does. Integer results
  0 and -1 are HOL integers; an address or size result 0 for failure is the word 0.

  Loops that step a virtual address by a page are recursive functions whose termination
  rests on \<open>walk\<close>: it panics at \<open>MAXVA\<close>, so the address cannot wrap. The recursion of
  \<open>freewalk\<close> through memory has no bound in the source and takes fuel; VmTables shows that
  three levels are enough for a well-formed table.

  A kernel buffer that \<open>copyout\<close> reads or \<open>copyin\<close> fills is a list of bytes: such buffers
  are C objects outside the modelled pages. \<open>copyin\<close> and \<open>copyinstr\<close> return the bytes
  stored so far also when they fail, since the caller's buffer keeps them.
\<close>

section \<open>Walking a page table\<close>

definition pte_addr :: "uint64 \<Rightarrow> nat \<Rightarrow> uint64 \<Rightarrow> uint64" where
  "pte_addr pagetable level va = pagetable + 8 * PX level va"

fun walk_levels ::
  "nat \<Rightarrow> uint64 \<Rightarrow> uint64 \<Rightarrow> bool \<Rightarrow> 'a kmem_st_scheme \<Rightarrow> (uint64, 'a kmem_st_scheme) res" where
  "walk_levels 0 pagetable va alloc s = Ok (pte_addr pagetable 0 va) s"
| "walk_levels (Suc l) pagetable va alloc s =
     (let pte = pte_addr pagetable (Suc l) va; v = load64 (mem s) pte in
      if v AND PTE_V \<noteq> 0 then walk_levels l (PTE2PA v) va alloc s
      else if \<not> alloc then Ok 0 s
      else bindR (kalloc s) (\<lambda>pg s.
        if pg = 0 then Ok 0 s
        else
          let m = memset (mem s) pg 0 PGSIZE;
              m' = store64 m pte (PA2PTE pg OR PTE_V)
          in walk_levels l pg va alloc (s\<lparr>mem := m'\<rparr>)))"

definition walk ::
  "uint64 \<Rightarrow> uint64 \<Rightarrow> bool \<Rightarrow> 'a kmem_st_scheme \<Rightarrow> (uint64, 'a kmem_st_scheme) res" where
  "walk pagetable va alloc s =
     (if va \<ge> MAXVA then Panic ''walk'' else walk_levels 2 pagetable va alloc s)"

definition walkaddr ::
  "uint64 \<Rightarrow> uint64 \<Rightarrow> 'a kmem_st_scheme \<Rightarrow> (uint64, 'a kmem_st_scheme) res" where
  "walkaddr pagetable va s =
     (if va \<ge> MAXVA then Ok 0 s
      else bindR (walk pagetable va False s) (\<lambda>pte s.
        if pte = 0 then Ok 0 s
        else let v = load64 (mem s) pte in
          if v AND PTE_V = 0 then Ok 0 s
          else if v AND PTE_U = 0 then Ok 0 s
          else Ok (PTE2PA v) s))"

lemma walk_Ok_below: "walk pagetable va alloc s = Ok pte t \<Longrightarrow> va < MAXVA"
  by (auto simp: walk_def not_le split: if_splits)

lemma add_page_below:
  assumes "a < MAXVA"
  shows "unat (a + 4096) = unat a + 4096"
  using assms by (simp add: MAXVA_def word_less_nat_alt unat_word_ariths)

section \<open>Mapping and unmapping\<close>

function mappages_from ::
  "uint64 \<Rightarrow> uint64 \<Rightarrow> uint64 \<Rightarrow> uint64 \<Rightarrow> uint64 \<Rightarrow> 'a kmem_st_scheme \<Rightarrow>
     (int, 'a kmem_st_scheme) res" where
  "mappages_from pagetable a last_a pa perm s =
     bindR (walk pagetable a True s) (\<lambda>pte s.
       if pte = 0 then Ok (- 1) s
       else if load64 (mem s) pte AND PTE_V \<noteq> 0 then Panic ''mappages: remap''
       else
         let s = s\<lparr>mem := store64 (mem s) pte (PA2PTE pa OR perm OR PTE_V)\<rparr> in
         if a = last_a then Ok 0 s
         else mappages_from pagetable (a + 4096) last_a (pa + 4096) perm s)"
  by pat_completeness auto
termination
proof (relation "measure (\<lambda>(pagetable, a, last_a, pa, perm, s). unat MAXVA - unat a)")
  fix pagetable a last_a pa perm :: uint64 and s :: "'a kmem_st_scheme" and pte s1 s2
  assume "walk pagetable a True s = Ok pte s1"
  then have "a < MAXVA" by (rule walk_Ok_below)
  then show "((pagetable, a + 4096, last_a, pa + 4096, perm, s2), pagetable, a, last_a, pa, perm, s)
      \<in> measure (\<lambda>(pagetable, a, last_a, pa, perm, s). unat MAXVA - unat a)"
    using add_page_below [of a] by (simp add: word_less_nat_alt)
qed simp

declare mappages_from.simps [simp del]

definition mappages ::
  "uint64 \<Rightarrow> uint64 \<Rightarrow> uint64 \<Rightarrow> uint64 \<Rightarrow> uint64 \<Rightarrow> 'a kmem_st_scheme \<Rightarrow>
     (int, 'a kmem_st_scheme) res" where
  "mappages pagetable va nbytes pa perm s =
     (if nbytes = 0 then Panic ''mappages: size''
      else mappages_from pagetable (PGROUNDDOWN va) (PGROUNDDOWN (va + nbytes - 1)) pa perm s)"

definition kvmmap ::
  "uint64 \<Rightarrow> uint64 \<Rightarrow> uint64 \<Rightarrow> uint64 \<Rightarrow> uint64 \<Rightarrow> 'a kmem_st_scheme \<Rightarrow>
     (unit, 'a kmem_st_scheme) res" where
  "kvmmap kpgtbl va pa sz perm s =
     bindR (mappages kpgtbl va sz pa perm s) (\<lambda>r s.
       if r \<noteq> 0 then Panic ''kvmmap'' else Ok () s)"

function uvmunmap_from ::
  "uint64 \<Rightarrow> uint64 \<Rightarrow> uint64 \<Rightarrow> bool \<Rightarrow> 'a kmem_st_scheme \<Rightarrow> (unit, 'a kmem_st_scheme) res" where
  "uvmunmap_from pagetable a end_a do_free s =
     (if a < end_a then
        bindR (walk pagetable a False s) (\<lambda>pte s.
          if pte = 0 then Panic ''uvmunmap: walk''
          else let v = load64 (mem s) pte in
            if v AND PTE_V = 0 then Panic ''uvmunmap: not mapped''
            else if PTE_FLAGS v = PTE_V then Panic ''uvmunmap: not a leaf''
            else bindR (if do_free then kfree (PTE2PA v) s else Ok () s) (\<lambda>_ s.
              uvmunmap_from pagetable (a + 4096) end_a do_free
                (s\<lparr>mem := store64 (mem s) pte 0\<rparr>)))
      else Ok () s)"
  by pat_completeness auto
termination
proof (relation "measure (\<lambda>(pagetable, a, end_a, do_free, s). unat MAXVA - unat a)")
  fix pagetable a end_a :: uint64 and do_free :: bool and s :: "'a kmem_st_scheme" and pte s1 s2
  assume "walk pagetable a False s = Ok pte s1"
  then have "a < MAXVA" by (rule walk_Ok_below)
  then show "((pagetable, a + 4096, end_a, do_free, s2), pagetable, a, end_a, do_free, s)
      \<in> measure (\<lambda>(pagetable, a, end_a, do_free, s). unat MAXVA - unat a)"
    using add_page_below [of a] by (simp add: word_less_nat_alt)
qed simp

declare uvmunmap_from.simps [simp del]

definition uvmunmap ::
  "uint64 \<Rightarrow> uint64 \<Rightarrow> uint64 \<Rightarrow> bool \<Rightarrow> 'a kmem_st_scheme \<Rightarrow> (unit, 'a kmem_st_scheme) res" where
  "uvmunmap pagetable va npages do_free s =
     (if va mod 4096 \<noteq> 0 then Panic ''uvmunmap: not aligned''
      else uvmunmap_from pagetable va (va + npages * 4096) do_free s)"

section \<open>User address spaces\<close>

definition uvmcreate :: "'a kmem_st_scheme \<Rightarrow> (uint64, 'a kmem_st_scheme) res" where
  "uvmcreate s =
     bindR (kalloc s) (\<lambda>pagetable s.
       if pagetable = 0 then Ok 0 s
       else Ok pagetable (s\<lparr>mem := memset (mem s) pagetable 0 PGSIZE\<rparr>))"

definition uvmfirst ::
  "uint64 \<Rightarrow> uint8 list \<Rightarrow> 'a kmem_st_scheme \<Rightarrow> (unit, 'a kmem_st_scheme) res" where
  "uvmfirst pagetable src s =
     (if length src \<ge> PGSIZE then Panic ''uvmfirst: more than a page''
      else bindR (kalloc s) (\<lambda>pg s.
        bindR (mappages pagetable 0 4096 pg (PTE_W OR PTE_R OR PTE_X OR PTE_U)
                 (s\<lparr>mem := memset (mem s) pg 0 PGSIZE\<rparr>)) (\<lambda>_ s.
          Ok () (s\<lparr>mem := store_bytes (mem s) pg src\<rparr>))))"

text \<open>The page count of \<open>uvmdealloc\<close> is a C \<open>int\<close>: the 64-bit quotient is cut to 32 bits and
  sign-extended again when it is passed on.\<close>

definition uvmdealloc ::
  "uint64 \<Rightarrow> uint64 \<Rightarrow> uint64 \<Rightarrow> 'a kmem_st_scheme \<Rightarrow> (uint64, 'a kmem_st_scheme) res" where
  "uvmdealloc pagetable oldsz newsz s =
     (if newsz \<ge> oldsz then Ok oldsz s
      else if PGROUNDUP newsz < PGROUNDUP oldsz then
        let npages = ucast ((PGROUNDUP oldsz - PGROUNDUP newsz) div 4096) :: uint32 in
        bindR (uvmunmap pagetable (PGROUNDUP newsz) (scast npages) True s) (\<lambda>_ s.
          Ok newsz s)
      else Ok newsz s)"

lemma mappages_from_Ok_below:
  "mappages_from pagetable a last_a pa perm s = Ok r t \<Longrightarrow> a < MAXVA"
  by (subst (asm) mappages_from.simps) (auto elim!: bindR_OkE dest: walk_Ok_below)

lemma mappages_Ok_below:
  "mappages pagetable a nbytes pa perm s = Ok r t \<Longrightarrow> PGROUNDDOWN a < MAXVA"
  by (auto simp: mappages_def split: if_splits dest: mappages_from_Ok_below)

lemma PGROUNDDOWN_below: "PGROUNDDOWN a < MAXVA \<longleftrightarrow> a < MAXVA"
  by (simp add: word_less_nat_alt unat_PGROUNDDOWN MAXVA_def) (simp add: div_less_iff_less_mult)

function uvmalloc_from ::
  "uint64 \<Rightarrow> uint64 \<Rightarrow> uint64 \<Rightarrow> uint64 \<Rightarrow> uint64 \<Rightarrow> 'a kmem_st_scheme \<Rightarrow>
     (uint64, 'a kmem_st_scheme) res" where
  "uvmalloc_from pagetable oldsz a newsz xperm s =
     (if a < newsz then
        bindR (kalloc s) (\<lambda>pg s.
          if pg = 0 then
            bindR (uvmdealloc pagetable a oldsz s) (\<lambda>_ s. Ok 0 s)
          else
            bindR (mappages pagetable a 4096 pg (PTE_R OR PTE_U OR xperm)
                     (s\<lparr>mem := memset (mem s) pg 0 PGSIZE\<rparr>)) (\<lambda>r s.
              if r \<noteq> 0 then
                bindR (kfree pg s) (\<lambda>_ s.
                  bindR (uvmdealloc pagetable a oldsz s) (\<lambda>_ s. Ok 0 s))
              else uvmalloc_from pagetable oldsz (a + 4096) newsz xperm s))
      else Ok newsz s)"
  by pat_completeness auto
termination
proof (relation "measure (\<lambda>(pagetable, oldsz, a, newsz, xperm, s). unat MAXVA - unat a)")
  fix pagetable oldsz a newsz xperm pg :: uint64 and s s1 s2 :: "'a kmem_st_scheme" and r
  assume "mappages pagetable a 4096 pg (PTE_R OR PTE_U OR xperm)
      (s1\<lparr>mem := memset (mem s1) pg 0 PGSIZE\<rparr>) = Ok r s2"
  then have "a < MAXVA" using PGROUNDDOWN_below by (blast dest: mappages_Ok_below)
  then show "((pagetable, oldsz, a + 4096, newsz, xperm, s2), pagetable, oldsz, a, newsz, xperm, s)
      \<in> measure (\<lambda>(pagetable, oldsz, a, newsz, xperm, s). unat MAXVA - unat a)"
    using add_page_below [of a] by (simp add: word_less_nat_alt)
qed simp

declare uvmalloc_from.simps [simp del]

definition uvmalloc ::
  "uint64 \<Rightarrow> uint64 \<Rightarrow> uint64 \<Rightarrow> uint64 \<Rightarrow> 'a kmem_st_scheme \<Rightarrow>
     (uint64, 'a kmem_st_scheme) res" where
  "uvmalloc pagetable oldsz newsz xperm s =
     (if newsz < oldsz then Ok oldsz s
      else uvmalloc_from pagetable (PGROUNDUP oldsz) (PGROUNDUP oldsz) newsz xperm s)"

fun freewalk_entries ::
  "(uint64 \<Rightarrow> 'a kmem_st_scheme \<Rightarrow> (unit, 'a kmem_st_scheme) res) \<Rightarrow> nat list \<Rightarrow> uint64 \<Rightarrow>
     'a kmem_st_scheme \<Rightarrow> (unit, 'a kmem_st_scheme) res" where
  "freewalk_entries rec [] pagetable s = Ok () s"
| "freewalk_entries rec (i # is) pagetable s =
     (let a = pagetable + 8 * of_nat i; pte = load64 (mem s) a in
      if pte AND PTE_V \<noteq> 0 \<and> pte AND (PTE_R OR PTE_W OR PTE_X) = 0 then
        bindR (rec (PTE2PA pte) s) (\<lambda>_ s.
          freewalk_entries rec is pagetable (s\<lparr>mem := store64 (mem s) a 0\<rparr>))
      else if pte AND PTE_V \<noteq> 0 then Panic ''freewalk: leaf''
      else freewalk_entries rec is pagetable s)"

primrec freewalk ::
  "nat \<Rightarrow> uint64 \<Rightarrow> 'a kmem_st_scheme \<Rightarrow> (unit, 'a kmem_st_scheme) res" where
  "freewalk 0 pagetable s = Diverge"
| "freewalk (Suc fuel) pagetable s =
     bindR (freewalk_entries (freewalk fuel) [0..<512] pagetable s) (\<lambda>_ s. kfree pagetable s)"

definition uvmfree ::
  "uint64 \<Rightarrow> uint64 \<Rightarrow> 'a kmem_st_scheme \<Rightarrow> (unit, 'a kmem_st_scheme) res" where
  "uvmfree pagetable sz s =
     bindR (if sz > 0 then uvmunmap pagetable 0 (PGROUNDUP sz div 4096) True s else Ok () s)
       (\<lambda>_ s. freewalk 3 pagetable s)"

function uvmcopy_from ::
  "uint64 \<Rightarrow> uint64 \<Rightarrow> uint64 \<Rightarrow> uint64 \<Rightarrow> 'a kmem_st_scheme \<Rightarrow> (int, 'a kmem_st_scheme) res" where
  "uvmcopy_from old new i sz s =
     (if i < sz then
        bindR (walk old i False s) (\<lambda>pte s.
          if pte = 0 then Panic ''uvmcopy: pte should exist''
          else let v = load64 (mem s) pte in
            if v AND PTE_V = 0 then Panic ''uvmcopy: page not present''
            else
              let pa = PTE2PA v; flags = PTE_FLAGS v in
              bindR (kalloc s) (\<lambda>pg s.
                if pg = 0 then
                  bindR (uvmunmap new 0 (i div 4096) True s) (\<lambda>_ s. Ok (- 1) s)
                else
                  bindR (mappages new i 4096 pg flags
                           (s\<lparr>mem := memmove (mem s) pg pa PGSIZE\<rparr>)) (\<lambda>r s.
                    if r \<noteq> 0 then
                      bindR (kfree pg s) (\<lambda>_ s.
                        bindR (uvmunmap new 0 (i div 4096) True s) (\<lambda>_ s. Ok (- 1) s))
                    else uvmcopy_from old new (i + 4096) sz s)))
      else Ok 0 s)"
  by pat_completeness auto
termination
proof (relation "measure (\<lambda>(old, new, i, sz, s). unat MAXVA - unat i)")
  fix old new i sz :: uint64 and s :: "'a kmem_st_scheme" and pte s1 s2
  assume "walk old i False s = Ok pte s1"
  then have "i < MAXVA" by (rule walk_Ok_below)
  then show "((old, new, i + 4096, sz, s2), old, new, i, sz, s)
      \<in> measure (\<lambda>(old, new, i, sz, s). unat MAXVA - unat i)"
    using add_page_below [of i] by (simp add: word_less_nat_alt)
qed simp

declare uvmcopy_from.simps [simp del]

definition uvmcopy ::
  "uint64 \<Rightarrow> uint64 \<Rightarrow> uint64 \<Rightarrow> 'a kmem_st_scheme \<Rightarrow> (int, 'a kmem_st_scheme) res" where
  "uvmcopy old new sz s = uvmcopy_from old new 0 sz s"

definition uvmclear ::
  "uint64 \<Rightarrow> uint64 \<Rightarrow> 'a kmem_st_scheme \<Rightarrow> (unit, 'a kmem_st_scheme) res" where
  "uvmclear pagetable va s =
     bindR (walk pagetable va False s) (\<lambda>pte s.
       if pte = 0 then Panic ''uvmclear''
       else Ok () (s\<lparr>mem := store64 (mem s) pte (load64 (mem s) pte AND NOT PTE_U)\<rparr>))"

section \<open>Copying between kernel and user\<close>

definition page_room :: "uint64 \<Rightarrow> nat" where
  "page_room va = 4096 - unat (va - PGROUNDDOWN va)"

lemma page_room_pos: "0 < page_room va"
  using in_page_iff [of "PGROUNDDOWN va" va] by (simp add: page_room_def)

function copyout ::
  "uint64 \<Rightarrow> uint64 \<Rightarrow> uint8 list \<Rightarrow> 'a kmem_st_scheme \<Rightarrow> (int, 'a kmem_st_scheme) res" where
  "copyout pagetable dstva src s =
     (if src \<noteq> [] then
        let va0 = PGROUNDDOWN dstva in
        bindR (walkaddr pagetable va0 s) (\<lambda>pa0 s.
          if pa0 = 0 then Ok (- 1) s
          else
            let n = min (page_room dstva) (length src);
                m = store_bytes (mem s) (pa0 + (dstva - va0)) (take n src)
            in copyout pagetable (va0 + 4096) (drop n src) (s\<lparr>mem := m\<rparr>))
      else Ok 0 s)"
  by pat_completeness auto
termination
  by (relation "measure (\<lambda>(pagetable, dstva, src, s). length src)") (auto simp: page_room_pos)

declare copyout.simps [simp del]

function copyin ::
  "uint64 \<Rightarrow> uint64 \<Rightarrow> nat \<Rightarrow> 'a kmem_st_scheme \<Rightarrow> (int \<times> uint8 list, 'a kmem_st_scheme) res" where
  "copyin pagetable srcva len s =
     (if len > 0 then
        let va0 = PGROUNDDOWN srcva in
        bindR (walkaddr pagetable va0 s) (\<lambda>pa0 s.
          if pa0 = 0 then Ok (- 1, []) s
          else
            let n = min (page_room srcva) len;
                bs = load_bytes (mem s) (pa0 + (srcva - va0)) n
            in bindR (copyin pagetable (va0 + 4096) (len - n) s) (\<lambda>(r, rest) s.
                 Ok (r, bs @ rest) s))
      else Ok (0, []) s)"
  by pat_completeness auto
termination
  by (relation "measure (\<lambda>(pagetable, srcva, len, s). len)") (auto simp: page_room_pos)

declare copyin.simps [simp del]

text \<open>The inner loop of \<open>copyinstr\<close>: whether a NUL was met within \<open>n\<close> bytes, and the bytes
  stored (the NUL included).\<close>

fun copyinstr_page :: "memory \<Rightarrow> uint64 \<Rightarrow> nat \<Rightarrow> bool \<times> uint8 list" where
  "copyinstr_page m p 0 = (False, [])"
| "copyinstr_page m p (Suc n) =
     (if m p = 0 then (True, [0])
      else let (got_null, bs) = copyinstr_page m (p + 1) n in (got_null, m p # bs))"

function copyinstr ::
  "uint64 \<Rightarrow> uint64 \<Rightarrow> nat \<Rightarrow> 'a kmem_st_scheme \<Rightarrow> (int \<times> uint8 list, 'a kmem_st_scheme) res" where
  "copyinstr pagetable srcva lim s =
     (if lim > 0 then
        let va0 = PGROUNDDOWN srcva in
        bindR (walkaddr pagetable va0 s) (\<lambda>pa0 s.
          if pa0 = 0 then Ok (- 1, []) s
          else
            let n = min (page_room srcva) lim;
                (got_null, bs) = copyinstr_page (mem s) (pa0 + (srcva - va0)) n
            in if got_null then Ok (0, bs) s
               else bindR (copyinstr pagetable (va0 + 4096) (lim - n) s) (\<lambda>(r, rest) s.
                 Ok (r, bs @ rest) s))
      else Ok (- 1, []) s)"
  by pat_completeness auto
termination
  by (relation "measure (\<lambda>(pagetable, srcva, lim, s). lim)") (auto simp: page_room_pos)

declare copyinstr.simps [simp del]

section \<open>The kernel page table\<close>

text \<open>\<open>proc_mapstacks\<close> (kernel/proc.c) maps one stack page per process slot below the
  trampoline. \<open>etext\<close> and \<open>trampoline\<close> are addresses fixed by the linker.\<close>

fun proc_mapstacks_from ::
  "uint64 \<Rightarrow> nat list \<Rightarrow> 'a kmem_st_scheme \<Rightarrow> (unit, 'a kmem_st_scheme) res" where
  "proc_mapstacks_from kpgtbl [] s = Ok () s"
| "proc_mapstacks_from kpgtbl (p # ps) s =
     bindR (kalloc s) (\<lambda>pa s.
       if pa = 0 then Panic ''kalloc''
       else bindR (kvmmap kpgtbl (KSTACK p) pa 4096 (PTE_R OR PTE_W) s) (\<lambda>_ s.
         proc_mapstacks_from kpgtbl ps s))"

definition proc_mapstacks :: "uint64 \<Rightarrow> 'a kmem_st_scheme \<Rightarrow> (unit, 'a kmem_st_scheme) res" where
  "proc_mapstacks kpgtbl s = proc_mapstacks_from kpgtbl [0..<64] s"

definition kvmmake ::
  "uint64 \<Rightarrow> uint64 \<Rightarrow> 'a kmem_st_scheme \<Rightarrow> (uint64, 'a kmem_st_scheme) res" where
  "kvmmake etext trampoline s =
     bindR (kalloc s) (\<lambda>kpgtbl s.
     bindR (kvmmap kpgtbl 0x10000000 0x10000000 4096 (PTE_R OR PTE_W)
              (s\<lparr>mem := memset (mem s) kpgtbl 0 PGSIZE\<rparr>)) (\<lambda>_ s.
     bindR (kvmmap kpgtbl 0x10001000 0x10001000 4096 (PTE_R OR PTE_W) s) (\<lambda>_ s.
     bindR (kvmmap kpgtbl 0x0c000000 0x0c000000 0x400000 (PTE_R OR PTE_W) s) (\<lambda>_ s.
     bindR (kvmmap kpgtbl KERNBASE KERNBASE (etext - KERNBASE) (PTE_R OR PTE_X) s) (\<lambda>_ s.
     bindR (kvmmap kpgtbl etext etext (PHYSTOP - etext) (PTE_R OR PTE_W) s) (\<lambda>_ s.
     bindR (kvmmap kpgtbl TRAMPOLINE trampoline 4096 (PTE_R OR PTE_X) s) (\<lambda>_ s.
     bindR (proc_mapstacks kpgtbl s) (\<lambda>_ s. Ok kpgtbl s))))))))"

end
