(* ===== verification/VmFrame.thy ===== *)
theory VmFrame
  imports Vm
begin

text \<open>
  What the virtual-memory operations leave alone: every function of kernel/vm.c changes at
  most physical memory and the head of the free list. Later components extend the state
  record; \<open>mem_only\<close> gives them, once and for all, that their own fields survive a call.
  \<open>touches s r\<close> says so of the outcome \<open>r\<close> of a call made in state \<open>s\<close>.
\<close>

definition mem_only :: "'a kmem_st_scheme \<Rightarrow> 'a kmem_st_scheme \<Rightarrow> bool" where
  "mem_only s t \<longleftrightarrow> kend t = kend s \<and> kmem_st.more t = kmem_st.more s"

lemma mem_only_refl [simp, intro!]: "mem_only s s"
  by (simp add: mem_only_def)

lemma mem_only_trans [trans]: "mem_only s t \<Longrightarrow> mem_only t u \<Longrightarrow> mem_only s u"
  by (simp add: mem_only_def)

lemma mem_only_upd [simp]:
  "mem_only s (t\<lparr>mem := m\<rparr>) \<longleftrightarrow> mem_only s t"
  "mem_only s (t\<lparr>freelist := f\<rparr>) \<longleftrightarrow> mem_only s t"
  "mem_only (s\<lparr>mem := m\<rparr>) t \<longleftrightarrow> mem_only s t"
  "mem_only (s\<lparr>freelist := f\<rparr>) t \<longleftrightarrow> mem_only s t"
  by (simp_all add: mem_only_def)

lemma mem_only_eq: "mem_only s t \<longleftrightarrow> t = s\<lparr>mem := mem t, freelist := freelist t\<rparr>"
  by (cases s; cases t) (auto simp: mem_only_def)

definition touches :: "'a kmem_st_scheme \<Rightarrow> ('b, 'a kmem_st_scheme) res \<Rightarrow> bool" where
  "touches s r \<longleftrightarrow> keeps r (\<lambda>_ t. mem_only s t)"

lemma touches_simps [simp]:
  "touches s (Ok a t) \<longleftrightarrow> mem_only s t" "touches s (Panic e)" "touches s Diverge"
  "touches (s\<lparr>mem := m\<rparr>) r \<longleftrightarrow> touches s r"
  "touches (s\<lparr>freelist := f\<rparr>) r \<longleftrightarrow> touches s r"
  by (simp_all add: touches_def)

lemma touchesD: "touches s r \<Longrightarrow> r = Ok a t \<Longrightarrow> mem_only s t"
  by (simp add: touches_def)

lemma touches_from: "mem_only s t \<Longrightarrow> touches t r \<Longrightarrow> touches s r"
  by (auto simp: touches_def keeps_iff intro: mem_only_trans)

lemma touches_bind:
  assumes "touches s r" "\<And>a t. r = Ok a t \<Longrightarrow> touches t (f a t)"
  shows "touches s (bindR r f)"
  using assms by (cases r) (auto simp: touches_def intro: touches_from [unfolded touches_def])

lemma touches_mem: "touches (s\<lparr>mem := m\<rparr>) r \<Longrightarrow> touches s r"
  by simp

named_theorems vm_frame \<open>operations that change only memory and the free list\<close>

lemma kfree_frame [vm_frame, simp]: "touches s (kfree pa s)"
  by (simp add: kfree_def Let_def)

lemma kalloc_frame [vm_frame, simp]: "touches s (kalloc s)"
  by (simp add: kalloc_def Let_def)

lemma walk_levels_frame [simp]: "touches s (walk_levels l pt va al s)"
proof (induction l arbitrary: pt s)
  case (Suc l)
  have "touches t (walk_levels l a va al (t\<lparr>mem := m\<rparr>))" for a m and t :: "'a kmem_st_scheme"
    using Suc [of "t\<lparr>mem := m\<rparr>" a] by simp
  then show ?case using Suc by (auto simp: Let_def intro!: touches_bind)
qed simp

lemma walk_frame [vm_frame, simp]: "touches s (walk pt va al s)"
  by (simp add: walk_def)

text \<open>A walk that may not allocate changes nothing.\<close>

lemma walk_levels_read: "walk_levels l pt va False s = Ok r t \<Longrightarrow> t = s"
  by (induction l arbitrary: pt) (auto simp: Let_def split: if_splits)

lemma walk_read: "walk pt va False s = Ok r t \<Longrightarrow> t = s"
  by (auto simp: walk_def split: if_splits dest: walk_levels_read)

lemma walkaddr_read: "walkaddr pt va s = Ok r t \<Longrightarrow> t = s"
  by (auto simp: walkaddr_def Let_def split: if_splits elim!: bindR_OkE dest: walk_read)

lemma walkaddr_frame [vm_frame, simp]: "touches s (walkaddr pt va s)"
  by (auto simp: touches_def keeps_iff dest: walkaddr_read)

lemma mappages_from_frame [simp]: "touches s (mappages_from pt a last_a pa perm s)"
proof (induction pt a last_a pa perm s rule: mappages_from.induct)
  case (1 pt a last_a pa perm s)
  show ?case
    by (subst mappages_from.simps, rule touches_bind)
      (use "1.IH" in \<open>auto simp: Let_def\<close>)
qed

lemma mappages_frame [vm_frame, simp]: "touches s (mappages pt va n pa perm s)"
  by (simp add: mappages_def)

lemma kvmmap_frame [vm_frame, simp]: "touches s (kvmmap pt va pa sz perm s)"
  by (simp add: kvmmap_def touches_bind)

lemma uvmunmap_from_frame [simp]: "touches s (uvmunmap_from pt a end_a do_free s)"
proof (induction pt a end_a do_free s rule: uvmunmap_from.induct)
  case (1 pt a end_a do_free s)
  show ?case
    by (subst uvmunmap_from.simps)
      (use "1.IH" in \<open>auto simp: Let_def intro!: touches_bind\<close>)
qed

lemma uvmunmap_frame [vm_frame, simp]: "touches s (uvmunmap pt va n do_free s)"
  by (simp add: uvmunmap_def)

lemma uvmcreate_frame [vm_frame, simp]: "touches s (uvmcreate s)"
  by (simp add: uvmcreate_def touches_bind)

lemma uvmfirst_frame [vm_frame, simp]: "touches s (uvmfirst pt src s)"
  unfolding uvmfirst_def
  by (auto intro!: touches_bind) (metis touches_simps(4) mappages_frame)

lemma uvmdealloc_frame [vm_frame, simp]: "touches s (uvmdealloc pt oldsz newsz s)"
  by (simp add: uvmdealloc_def Let_def touches_bind)

lemma uvmalloc_from_frame [simp]: "touches s (uvmalloc_from pt oldsz a newsz xperm s)"
proof (induction pt oldsz a newsz xperm s rule: uvmalloc_from.induct)
  case (1 pt oldsz a newsz xperm s)
  have m: "touches t (mappages pt a 4096 pg perm (t\<lparr>mem := m\<rparr>))"
    for pg perm m and t :: "'a kmem_st_scheme"
    by (rule touches_mem [where m = m]) (rule mappages_frame)
  show ?case
    by (subst uvmalloc_from.simps)
      (use "1.IH" in \<open>auto simp: Let_def m intro!: touches_bind\<close>)
qed

lemma uvmalloc_frame [vm_frame, simp]: "touches s (uvmalloc pt oldsz newsz xperm s)"
  by (simp add: uvmalloc_def)

lemma freewalk_entries_frame:
  assumes "\<And>pa s. touches s (rec pa s)"
  shows "touches s (freewalk_entries rec is pt s)"
proof (induction "is" arbitrary: s)
  case (Cons i "is")
  have "touches t (freewalk_entries rec is pt (t\<lparr>mem := m\<rparr>))" for m and t :: "'a kmem_st_scheme"
    using Cons [of "t\<lparr>mem := m\<rparr>"] by simp
  then show ?case using Cons assms by (auto simp: Let_def intro!: touches_bind)
qed simp

lemma freewalk_frame [vm_frame, simp]: "touches s (freewalk fuel pt s)"
  by (induction fuel arbitrary: pt s) (auto intro!: touches_bind freewalk_entries_frame)

lemma uvmfree_frame [vm_frame, simp]: "touches s (uvmfree pt sz s)"
  by (auto simp: uvmfree_def simp del: freewalk.simps intro!: touches_bind)

lemma uvmcopy_from_frame [simp]: "touches s (uvmcopy_from old new i sz s)"
proof (induction old new i sz s rule: uvmcopy_from.induct)
  case (1 old new i sz s)
  have m: "touches t (mappages pt a 4096 pg perm (t\<lparr>mem := m\<rparr>))"
    for pt a pg perm m and t :: "'a kmem_st_scheme"
    by (rule touches_mem [where m = m]) (rule mappages_frame)
  show ?case
    by (subst uvmcopy_from.simps)
      (use "1.IH" in \<open>auto simp: Let_def m intro!: touches_bind\<close>)
qed

lemma uvmcopy_frame [vm_frame, simp]: "touches s (uvmcopy old new sz s)"
  by (simp add: uvmcopy_def)

lemma uvmclear_frame [vm_frame, simp]: "touches s (uvmclear pt va s)"
  by (simp add: uvmclear_def touches_bind)

lemma copyout_frame [vm_frame, simp]: "touches s (copyout pt dstva src s)"
proof (induction pt dstva src s rule: copyout.induct)
  case (1 pt dstva src s)
  show ?case
    by (subst copyout.simps) (use "1.IH" in \<open>auto simp: Let_def intro!: touches_bind\<close>)
qed

lemma copyin_frame [vm_frame, simp]: "touches s (copyin pt srcva len s)"
proof (induction pt srcva len s rule: copyin.induct)
  case (1 pt srcva len s)
  show ?case
    by (subst copyin.simps) (use "1.IH" in \<open>auto simp: Let_def intro!: touches_bind\<close>)
qed

lemma copyin_read: "copyin pt srcva len s = Ok r t \<Longrightarrow> t = s"
proof (induction pt srcva len s arbitrary: r t rule: copyin.induct)
  case (1 pt srcva len s)
  show ?case
  proof (cases "len = 0")
    case True
    then show ?thesis using "1.prems" by (simp add: copyin.simps)
  next
    case False
    with "1.prems" obtain pa0 s1 where w: "walkaddr pt (PGROUNDDOWN srcva) s = Ok pa0 s1"
      and rest: "pa0 = 0 \<and> t = s1 \<or> pa0 \<noteq> 0 \<and> (\<exists>r' t'. copyin pt (PGROUNDDOWN srcva + 4096)
          (len - min (page_room srcva) len) s1 = Ok r' t' \<and> t = t')"
      by (subst (asm) copyin.simps) (auto simp: Let_def split: if_splits elim!: bindR_OkE)
    then show ?thesis using walkaddr_read [OF w] "1.IH" [OF _ refl w _ refl refl] False by blast
  qed
qed

lemma copyinstr_read: "copyinstr pt srcva lim s = Ok r t \<Longrightarrow> t = s"
proof (induction pt srcva lim s arbitrary: r t rule: copyinstr.induct)
  case (1 pt srcva lim s)
  show ?case
  proof (cases "lim = 0")
    case True
    then show ?thesis using "1.prems" by (simp add: copyinstr.simps)
  next
    case False
    with "1.prems" obtain pa0 s1 where w: "walkaddr pt (PGROUNDDOWN srcva) s = Ok pa0 s1"
      and rest: "t = s1 \<or> pa0 \<noteq> 0 \<and>
          \<not> fst (copyinstr_page (mem s1) (pa0 + (srcva - PGROUNDDOWN srcva)) (min (page_room srcva) lim)) \<and>
          (\<exists>r' t'. copyinstr pt (PGROUNDDOWN srcva + 4096)
          (lim - min (page_room srcva) lim) s1 = Ok r' t' \<and> t = t')"
      by (subst (asm) copyinstr.simps)
        (auto simp: Let_def split: if_splits prod.splits elim!: bindR_OkE)
    then show ?thesis
      using walkaddr_read [OF w] "1.IH" [OF _ refl w _ refl refl prod.collapse] False by blast
  qed
qed

end
