(* ===== verification/VmTables.thy ===== *)
theory VmTables
  imports VmFrame
begin

text \<open>
  Page tables as trees. \<open>tpages l m pt\<close> is the set of pages that make up the table of level \<open>l\<close>
  rooted at \<open>pt\<close> in memory \<open>m\<close>; \<open>table_ok\<close> says that they form a tree (no page is used
  twice) whose interior entries carry no access bits; \<open>slot\<close> is the address of the level-0
  entry of a virtual address, \<open>lookup\<close> its value when valid. The lemmas show that the walk of
  kernel/vm.c refines \<open>slot\<close>, that a store to one entry changes one translation, that
  tables are unaffected by memory outside their pages, and that \<open>freewalk\<close> gives back the pages of a table.
\<close>

section \<open>Entries of one table page\<close>

definition entry :: "memory \<Rightarrow> uint64 \<Rightarrow> nat \<Rightarrow> uint64" where
  "entry m pt i = load64 m (pt + 8 * of_nat i)"

definition child :: "memory \<Rightarrow> uint64 \<Rightarrow> nat \<Rightarrow> uint64 option" where
  "child m pt i = (if entry m pt i AND PTE_V \<noteq> 0 then Some (PTE2PA (entry m pt i)) else None)"

definition px :: "nat \<Rightarrow> uint64 \<Rightarrow> nat" where
  "px l va = unat (PX l va)"

lemma px_lt [simp]: "px l va < 512"
  by (simp add: px_def PX_lt)

lemma pte_addr_eq: "pte_addr pt l va = pt + 8 * of_nat (px l va)"
  by (simp add: pte_addr_def px_def)

lemma entry_addr:
  assumes "page_aligned pt" "i < 512"
  shows "unat (pt + 8 * of_nat i) = unat pt + 8 * i"
proof -
  have "unat pt + 8 * i < 2 ^ 64" using page_run [OF assms(1)] assms(2) by simp
  moreover have "pt + 8 * of_nat i = of_nat (unat pt + 8 * i)" by simp
  ultimately show ?thesis by (simp only: unat_of_nat_64)
qed

lemma entry_page:
  assumes "page_aligned pt" "i < 512"
  shows "PGROUNDDOWN (pt + 8 * of_nat i) = pt" "in_page_slot (pt + 8 * of_nat i)"
proof -
  have "pt + 8 * of_nat i = pt + of_nat (8 * i)" by simp
  moreover have "PGROUNDDOWN (pt + of_nat (8 * i)) = PGROUNDDOWN pt"
    using assms by (intro PGROUNDDOWN_add) (simp add: page_aligned_def)
  ultimately show "PGROUNDDOWN (pt + 8 * of_nat i) = pt"
    using assms(1) by (simp only: PGROUNDDOWN_aligned)
  have "(unat pt + 8 * i) mod 4096 = 8 * i"
    using assms by (simp add: page_aligned_def mod_add_eq [symmetric, of "unat pt"])
  then show "in_page_slot (pt + 8 * of_nat i)"
    using assms by (simp add: in_page_slot_def entry_addr)
qed

lemma entry_cong:
  assumes "page_aligned pt" "i < 512" "\<And>x. PGROUNDDOWN x = pt \<Longrightarrow> m' x = m x"
  shows "entry m' pt i = entry m pt i"
  unfolding entry_def using assms by (intro load64_page_cong) (auto simp: entry_page)

lemma child_cong:
  assumes "page_aligned pt" "i < 512" "\<And>x. PGROUNDDOWN x = pt \<Longrightarrow> m' x = m x"
  shows "child m' pt i = child m pt i"
  using entry_cong [of pt i m' m] assms by (simp add: child_def)

lemma load64_store64_disjoint:
  assumes "unat a + 8 \<le> unat b \<or> unat b + 8 \<le> unat a" "unat a + 8 \<le> 2 ^ 64" "unat b + 8 \<le> 2 ^ 64"
  shows "load64 (store64 m a v) b = load64 m b"
proof (rule load64_cong, rule store64_outside)
  fix i :: nat assume i: "i < 8"
  have "unat (b + of_nat i) = unat b + i" using i assms(3) by (simp add: unat_word_ariths)
  then have "\<not> unat (b + of_nat i - a) < 8"
    using assms(1) i in_run_iff [OF assms(2), of "b + of_nat i"] by auto
  then show "8 \<le> unat (b + of_nat i - a)" by simp
qed

lemma entry_store:
  assumes "page_aligned pt" "i < 512" "j < 512"
  shows "entry (store64 m (pt + 8 * of_nat i) v) pt j = (if i = j then v else entry m pt j)"
proof (cases "i = j")
  case True
  then show ?thesis by (simp add: entry_def)
next
  case False
  then have "8 * i + 8 \<le> 8 * j \<or> 8 * j + 8 \<le> 8 * i" by auto
  then have "load64 (store64 m (pt + 8 * of_nat i) v) (pt + 8 * of_nat j) =
      load64 m (pt + 8 * of_nat j)"
    using assms page_run [OF assms(1)]
    by (intro load64_store64_disjoint) (auto simp: entry_addr)
  with False show ?thesis by (simp add: entry_def)
qed

lemma store_entry_outside:
  assumes "page_aligned pt" "i < 512" "PGROUNDDOWN x \<noteq> pt"
  shows "store64 m (pt + 8 * of_nat i) v x = m x"
  using assms by (intro store64_other_page) (auto simp: entry_page)

section \<open>The tree\<close>

primrec tpages :: "nat \<Rightarrow> memory \<Rightarrow> uint64 \<Rightarrow> uint64 set" where
  "tpages 0 m pt = {pt}"
| "tpages (Suc l) m pt =
     insert pt (\<Union>i \<in> {..<512}. case child m pt i of None \<Rightarrow> {} | Some c \<Rightarrow> tpages l m c)"

definition kid_pages :: "nat \<Rightarrow> memory \<Rightarrow> uint64 \<Rightarrow> nat \<Rightarrow> uint64 set" where
  "kid_pages l m pt i = (case child m pt i of None \<Rightarrow> {} | Some c \<Rightarrow> tpages l m c)"

primrec table_ok :: "nat \<Rightarrow> memory \<Rightarrow> uint64 \<Rightarrow> bool" where
  "table_ok 0 m pt \<longleftrightarrow> page_aligned pt \<and> pt \<noteq> 0"
| "table_ok (Suc l) m pt \<longleftrightarrow>
     page_aligned pt \<and> pt \<noteq> 0 \<and>
     (\<forall>i < 512. case child m pt i of
        None \<Rightarrow> True
      | Some c \<Rightarrow>
          entry m pt i AND (PTE_R OR PTE_W OR PTE_X) = 0 \<and> table_ok l m c \<and> pt \<notin> tpages l m c \<and>
          (\<forall>j < 512. j \<noteq> i \<longrightarrow> tpages l m c \<inter> kid_pages l m pt j = {}))"

primrec slot :: "nat \<Rightarrow> memory \<Rightarrow> uint64 \<Rightarrow> uint64 \<Rightarrow> uint64 option" where
  "slot 0 m pt va = Some (pte_addr pt 0 va)"
| "slot (Suc l) m pt va =
     (case child m pt (px (Suc l) va) of None \<Rightarrow> None | Some c \<Rightarrow> slot l m c va)"

definition leaf :: "nat \<Rightarrow> memory \<Rightarrow> uint64 \<Rightarrow> uint64 \<Rightarrow> uint64 option" where
  "leaf l m pt va =
     (case slot l m pt va of
        None \<Rightarrow> None
      | Some a \<Rightarrow> if load64 m a AND PTE_V \<noteq> 0 then Some (load64 m a) else None)"

abbreviation lookup :: "memory \<Rightarrow> uint64 \<Rightarrow> uint64 \<Rightarrow> uint64 option" where
  "lookup \<equiv> leaf 2"

lemma leaf_Suc [simp]:
  "leaf (Suc l) m pt va =
     (case child m pt (px (Suc l) va) of None \<Rightarrow> None | Some c \<Rightarrow> leaf l m c va)"
  by (simp add: leaf_def split: option.splits)

lemma tpages_Suc: "tpages (Suc l) m pt = insert pt (\<Union>i \<in> {..<512}. kid_pages l m pt i)"
  by (simp add: kid_pages_def)

lemma tpages_root [simp]: "pt \<in> tpages l m pt"
  by (cases l) auto

lemma table_ok_aligned: "table_ok l m pt \<Longrightarrow> page_aligned pt"
  by (cases l) auto

lemma table_ok_nonzero: "table_ok l m pt \<Longrightarrow> pt \<noteq> 0"
  by (cases l) auto

lemma table_ok_kid:
  assumes "table_ok (Suc l) m pt" "i < 512" "child m pt i = Some c"
  shows "table_ok l m c" "pt \<notin> tpages l m c" "entry m pt i AND (PTE_R OR PTE_W OR PTE_X) = 0"
    "j < 512 \<Longrightarrow> j \<noteq> i \<Longrightarrow> tpages l m c \<inter> kid_pages l m pt j = {}"
  using assms by (auto split: option.splits)

lemma table_ok_kids_disjoint:
  assumes "table_ok (Suc l) m pt" "i < 512" "j < 512" "i \<noteq> j"
  shows "kid_pages l m pt i \<inter> kid_pages l m pt j = {}"
proof (cases "child m pt i")
  case None
  then show ?thesis by (simp add: kid_pages_def)
next
  case (Some c)
  then show ?thesis using table_ok_kid(4) [OF assms(1,2) Some assms(3)] assms(4)
    by (simp add: kid_pages_def)
qed

lemma table_okI:
  assumes "page_aligned pt" "pt \<noteq> 0"
    and "\<And>i c. i < 512 \<Longrightarrow> child m pt i = Some c \<Longrightarrow>
      entry m pt i AND (PTE_R OR PTE_W OR PTE_X) = 0 \<and> table_ok l m c \<and> pt \<notin> tpages l m c"
    and "\<And>i j. i < 512 \<Longrightarrow> j < 512 \<Longrightarrow> i \<noteq> j \<Longrightarrow> kid_pages l m pt i \<inter> kid_pages l m pt j = {}"
  shows "table_ok (Suc l) m pt"
proof -
  have "tpages l m c \<inter> kid_pages l m pt j = {}"
    if "i < 512" "child m pt i = Some c" "j < 512" "j \<noteq> i" for i j c
    using assms(4) [of i j] that by (auto simp: kid_pages_def)
  then show ?thesis using assms(1-3) by (auto split: option.splits)
qed

lemma tpages_ok:
  "table_ok l m pt \<Longrightarrow> p \<in> tpages l m pt \<Longrightarrow> page_aligned p \<and> p \<noteq> 0"
proof (induction l arbitrary: pt)
  case 0
  then show ?case by simp
next
  case (Suc l)
  show ?case
  proof (cases "p = pt")
    case True
    then show ?thesis using Suc.prems(1) by simp
  next
    case False
    with Suc.prems(2) obtain i c where "i < 512" "child m pt i = Some c" "p \<in> tpages l m c"
      by (auto split: option.splits)
    then show ?thesis using Suc.IH table_ok_kid(1) [OF Suc.prems(1)] by blast
  qed
qed

lemma kid_subset: "i < 512 \<Longrightarrow> child m pt i = Some c \<Longrightarrow> tpages l m c \<subseteq> tpages (Suc l) m pt"
  by (force split: option.splits)

text \<open>A table depends only on the contents of its own pages.\<close>

lemma tpages_frame:
  assumes "table_ok l m pt" "\<And>x. PGROUNDDOWN x \<in> tpages l m pt \<Longrightarrow> m' x = m x"
  shows "tpages l m' pt = tpages l m pt"
  using assms
proof (induction l arbitrary: pt)
  case 0
  then show ?case by simp
next
  case (Suc l)
  have c: "child m' pt i = child m pt i" if "i < 512" for i
    using Suc.prems that by (intro child_cong) auto
  have "tpages l m' k = tpages l m k" if "i < 512" "child m pt i = Some k" for i k
    using table_ok_kid(1) [OF Suc.prems(1) that] Suc.prems(2) kid_subset [OF that]
    by (intro Suc.IH) blast+
  then show ?case using c by (auto split: option.splits)
qed

lemma table_frame:
  assumes "table_ok l m pt" "\<And>x. PGROUNDDOWN x \<in> tpages l m pt \<Longrightarrow> m' x = m x"
  shows "table_ok l m' pt \<and> slot l m' pt va = slot l m pt va \<and> leaf l m' pt va = leaf l m pt va"
  using assms
proof (induction l arbitrary: pt)
  case 0
  have "load64 m' (pte_addr pt 0 va) = load64 m (pte_addr pt 0 va)"
    using entry_cong [of pt "px 0 va" m' m] 0 by (simp add: entry_def pte_addr_eq)
  then show ?case using 0 by (simp add: leaf_def)
next
  case (Suc l)
  have al: "page_aligned pt" using Suc.prems(1) by simp
  have e: "entry m' pt i = entry m pt i" if "i < 512" for i
    using Suc.prems(2) al that by (intro entry_cong) auto
  then have c: "child m' pt i = child m pt i" if "i < 512" for i using that by (simp add: child_def)
  have sub: "table_ok l m k" "\<And>x. PGROUNDDOWN x \<in> tpages l m k \<Longrightarrow> m' x = m x"
    if "i < 512" "child m pt i = Some k" for i k
    using table_ok_kid(1) [OF Suc.prems(1) that] Suc.prems(2) kid_subset [OF that] by blast+
  have tp: "tpages l m' k = tpages l m k" if "i < 512" "child m pt i = Some k" for i k
    using sub [OF that] by (rule tpages_frame)
  then have kp: "kid_pages l m' pt i = kid_pages l m pt i" if "i < 512" for i
    using that c by (auto simp: kid_pages_def split: option.splits)
  have "table_ok (Suc l) m' pt"
  proof (rule table_okI)
    show "page_aligned pt" "pt \<noteq> 0" using Suc.prems(1) by auto
    show "entry m' pt i AND (PTE_R OR PTE_W OR PTE_X) = 0 \<and> table_ok l m' k \<and> pt \<notin> tpages l m' k"
      if "i < 512" "child m' pt i = Some k" for i k
    proof -
      have k: "child m pt i = Some k" using that c by simp
      then show ?thesis
        using table_ok_kid(2,3) [OF Suc.prems(1) that(1) k] Suc.IH [OF sub [OF that(1) k]]
          tp [OF that(1) k] e [OF that(1)] by simp
    qed
    show "kid_pages l m' pt i \<inter> kid_pages l m' pt j = {}" if "i < 512" "j < 512" "i \<noteq> j" for i j
      using table_ok_kids_disjoint [OF Suc.prems(1) that] kp that by simp
  qed
  moreover have "slot (Suc l) m' pt va = slot (Suc l) m pt va \<and>
      leaf (Suc l) m' pt va = leaf (Suc l) m pt va"
  proof (cases "child m pt (px (Suc l) va)")
    case None
    then show ?thesis using c by simp
  next
    case (Some k)
    then show ?thesis using Suc.IH [OF sub [OF _ Some]] c by simp
  qed
  ultimately show ?case by blast
qed

lemmas table_ok_frame = table_frame [THEN conjunct1]
lemmas slot_frame = table_frame [THEN conjunct2, THEN conjunct1]
lemmas leaf_frame = table_frame [THEN conjunct2, THEN conjunct2]

section \<open>Walking\<close>

lemma walk_levels_slot:
  "walk_levels l pt va False s = Ok (case slot l (mem s) pt va of None \<Rightarrow> 0 | Some a \<Rightarrow> a) s"
  by (induction l arbitrary: pt) (auto simp: Let_def pte_addr_eq child_def entry_def)

lemma slot_page:
  assumes "table_ok l m pt" "slot l m pt va = Some a"
  shows "PGROUNDDOWN a \<in> tpages l m pt \<and> in_page_slot a \<and> a \<noteq> 0"
  using assms
proof (induction l arbitrary: pt)
  case 0
  then have "page_aligned pt" "a = pt + 8 * of_nat (px 0 va)" "pt \<noteq> 0" by (auto simp: pte_addr_eq)
  moreover from this have "unat a = unat pt + 8 * px 0 va" by (simp add: entry_addr)
  moreover have "0 < unat pt" using \<open>pt \<noteq> 0\<close> by (simp add: unat_gt_0)
  ultimately show ?case using entry_page [of pt "px 0 va"] by (auto simp flip: unat_gt_0)
next
  case (Suc l)
  then obtain c where c: "child m pt (px (Suc l) va) = Some c" "slot l m c va = Some a"
    by (auto split: option.splits)
  then have "PGROUNDDOWN a \<in> tpages l m c \<and> in_page_slot a \<and> a \<noteq> 0"
    using table_ok_kid(1) [OF Suc.prems(1) _ c(1)] by (intro Suc.IH) auto
  then show ?case using kid_subset [OF _ c(1)] by (metis px_lt subsetD)
qed

text \<open>Two addresses with the same entry have the same indices.\<close>

lemma slot_inj:
  assumes "table_ok l m pt" "slot l m pt va = Some a" "slot l m pt vb = Some a" "k \<le> l"
  shows "px k va = px k vb"
  using assms
proof (induction l arbitrary: pt)
  case 0
  then have "unat (pt + 8 * of_nat (px 0 va)) = unat (pt + 8 * of_nat (px 0 vb))"
    by (simp add: pte_addr_eq)
  then have "unat pt + 8 * px 0 va = unat pt + 8 * px 0 vb"
    using 0 by (simp only: entry_addr table_ok.simps px_lt)
  then show ?case using 0 by simp
next
  case (Suc l)
  from Suc.prems obtain c d where
    c: "child m pt (px (Suc l) va) = Some c" "slot l m c va = Some a" and
    d: "child m pt (px (Suc l) vb) = Some d" "slot l m d vb = Some a"
    by (auto split: option.splits)
  have "PGROUNDDOWN a \<in> tpages l m c" "PGROUNDDOWN a \<in> tpages l m d"
    using slot_page c d table_ok_kid(1) [OF Suc.prems(1)] by (metis px_lt)+
  then have eq: "px (Suc l) va = px (Suc l) vb"
    using table_ok_kids_disjoint [OF Suc.prems(1), of "px (Suc l) va" "px (Suc l) vb"] c(1) d(1)
    by (auto simp: kid_pages_def)
  then have "c = d" using c(1) d(1) by simp
  show ?case
  proof (cases "k = Suc l")
    case True
    then show ?thesis using eq by simp
  next
    case False
    have "table_ok l m c" by (rule table_ok_kid(1) [OF Suc.prems(1) px_lt c(1)])
    moreover have "slot l m c vb = Some a" using d(2) \<open>c = d\<close> by simp
    moreover have "k \<le> l" using False Suc.prems(4) by simp
    ultimately show ?thesis by (rule Suc.IH [OF _ c(2)])
  qed
qed

section \<open>Changing one subtree\<close>

text \<open>Memory changes only in the subtree below entry \<open>i\<close> and in pages \<open>N\<close> that the table does not
  use; the subtree stays a tree and grows at most by pages of \<open>N\<close>.\<close>

lemma subtree_update:
  assumes ok: "table_ok (Suc l) m pt" and i: "i < 512" "child m pt i = Some c"
    and out: "\<forall>x. PGROUNDDOWN x \<notin> tpages l m c \<union> N \<longrightarrow> m' x = m x"
    and fresh: "N \<inter> tpages (Suc l) m pt = {}"
    and sub: "table_ok l m' c" "tpages l m' c \<subseteq> tpages l m c \<union> N"
  shows "table_ok (Suc l) m' pt"
    "tpages (Suc l) m' pt = (tpages (Suc l) m pt - tpages l m c) \<union> tpages l m' c"
    "\<And>j. j < 512 \<Longrightarrow> child m' pt j = child m pt j"
    "\<And>j k va. j < 512 \<Longrightarrow> j \<noteq> i \<Longrightarrow> child m pt j = Some k \<Longrightarrow>
      slot l m' k va = slot l m k va \<and> leaf l m' k va = leaf l m k va"
proof -
  have al: "page_aligned pt" using ok by simp
  have ptc: "pt \<notin> tpages l m c" using table_ok_kid(2) [OF ok i] .
  have ptN: "pt \<notin> N" using fresh by auto
  have e: "entry m' pt j = entry m pt j" if "j < 512" for j
    using that ptc ptN out by (intro entry_cong [OF al]) auto
  show ch: "child m' pt j = child m pt j" if "j < 512" for j using e that by (simp add: child_def)
  have other: "m' x = m x" if "j < 512" "j \<noteq> i" "child m pt j = Some k" "PGROUNDDOWN x \<in> tpages l m k"
    for j k x
  proof -
    have "tpages l m c \<inter> tpages l m k = {}"
      using table_ok_kids_disjoint [OF ok i(1) that(1)] i that by (auto simp: kid_pages_def)
    moreover have "tpages l m k \<subseteq> tpages (Suc l) m pt" using kid_subset that by blast
    ultimately show ?thesis using that(4) fresh out by blast
  qed
  have kok: "table_ok l m k" if "j < 512" "child m pt j = Some k" for j k
    using table_ok_kid(1) [OF ok that] .
  show keep: "slot l m' k va = slot l m k va \<and> leaf l m' k va = leaf l m k va"
    if "j < 512" "j \<noteq> i" "child m pt j = Some k" for j k va
    using table_frame [OF kok [OF that(1,3)], of m' va] other [OF that] by blast
  have tp: "tpages l m' k = tpages l m k" "table_ok l m' k"
    if "j < 512" "j \<noteq> i" "child m pt j = Some k" for j k
    using tpages_frame [OF kok [OF that(1,3)], of m'] table_ok_frame [OF kok [OF that(1,3)], of m']
      other [OF that] by blast+
  have kp: "kid_pages l m' pt j = (if j = i then tpages l m' c else kid_pages l m pt j)" if "j < 512" for j
    using that ch tp i by (auto simp: kid_pages_def split: option.splits)
  have dis: "kid_pages l m pt j \<inter> tpages l m c = {}" if "j < 512" "j \<noteq> i" for j
    using table_ok_kids_disjoint [OF ok that(1) i(1) that(2)] i(2) by (simp add: kid_pages_def)
  have inN: "kid_pages l m pt j \<inter> N = {}" if "j < 512" for j
    using fresh that unfolding tpages_Suc by blast
  have dis': "kid_pages l m pt j \<inter> tpages l m' c = {}" if "j < 512" "j \<noteq> i" for j
    using dis [OF that] inN [OF that(1)] sub(2) by blast
  show "table_ok (Suc l) m' pt"
  proof (rule table_okI)
    show "page_aligned pt" "pt \<noteq> 0" using ok by auto
    show "entry m' pt j AND (PTE_R OR PTE_W OR PTE_X) = 0 \<and> table_ok l m' k \<and> pt \<notin> tpages l m' k"
      if "j < 512" "child m' pt j = Some k" for j k
    proof -
      have k: "child m pt j = Some k" using that ch by simp
      show ?thesis
      proof (cases "j = i")
        case True
        then show ?thesis using k i sub ptc ptN e that(1) table_ok_kid(3) [OF ok that(1) k] by auto
      next
        case False
        then show ?thesis
          using k tp [OF that(1) False k] table_ok_kid(2,3) [OF ok that(1) k] e that(1) by simp
      qed
    qed
    show "kid_pages l m' pt j \<inter> kid_pages l m' pt k = {}" if "j < 512" "k < 512" "j \<noteq> k" for j k
      using table_ok_kids_disjoint [OF ok that] kp [OF that(1)] kp [OF that(2)]
        dis' [OF that(1)] dis' [OF that(2)] that(3) by (cases "j = i"; cases "k = i") auto
  qed
  let ?rest = "\<Union>j \<in> {..<512} - {i}. kid_pages l m pt j"
  have split: "(\<Union>j \<in> {..<512}. f j) = f i \<union> (\<Union>j \<in> {..<512} - {i}. f j)" for f :: "nat \<Rightarrow> uint64 set"
    using i(1) by blast
  have "kid_pages l m pt i = tpages l m c" using i by (simp add: kid_pages_def)
  then have "tpages (Suc l) m pt = insert pt (tpages l m c \<union> ?rest)"
    by (simp only: tpages_Suc split)
  moreover have "tpages (Suc l) m' pt = insert pt (tpages l m' c \<union> ?rest)"
    using kp i(1) by (simp only: tpages_Suc split) simp
  moreover have "?rest \<inter> tpages l m c = {}" using dis by blast
  ultimately show "tpages (Suc l) m' pt = (tpages (Suc l) m pt - tpages l m c) \<union> tpages l m' c"
    using ptc by (simp only:) blast
qed

section \<open>Storing a leaf entry\<close>

definition valid_pte :: "uint64 \<Rightarrow> uint64 option" where
  "valid_pte v = (if v AND PTE_V \<noteq> 0 then Some v else None)"

lemma leaf_valid: "leaf l m pt va = (case slot l m pt va of None \<Rightarrow> None | Some a \<Rightarrow> valid_pte (load64 m a))"
  by (simp add: leaf_def valid_pte_def split: option.splits)

lemma slot_store:
  assumes "table_ok l m pt" "slot l m pt va = Some a" "m' = store64 m a v"
  shows "table_ok l m' pt \<and> tpages l m' pt = tpages l m pt \<and>
    (\<forall>vb. slot l m' pt vb = slot l m pt vb) \<and>
    (\<forall>vb. leaf l m' pt vb =
       (if \<forall>k \<le> l. px k vb = px k va then valid_pte v else leaf l m pt vb))"
  using assms(1,2)
proof (induction l arbitrary: pt)
  case 0
  then have a: "page_aligned pt" "a = pt + 8 * of_nat (px 0 va)" by (auto simp: pte_addr_eq)
  have "load64 m' (pte_addr pt 0 vb) =
      (if px 0 vb = px 0 va then v else load64 m (pte_addr pt 0 vb))" for vb
    using entry_store [OF a(1), of "px 0 va" "px 0 vb" m v] assms(3) a(2)
    by (auto simp: entry_def pte_addr_eq split: if_splits)
  then show ?case using 0 by (simp add: leaf_valid)
next
  case (Suc l)
  let ?i = "px (Suc l) va"
  from Suc.prems obtain c where c: "child m pt ?i = Some c" "slot l m c va = Some a"
    by (auto split: option.splits)
  have okc: "table_ok l m c" by (rule table_ok_kid(1) [OF Suc.prems(1) px_lt c(1)])
  note ih = Suc.IH [OF okc c(2)]
  have out: "\<forall>x. PGROUNDDOWN x \<notin> tpages l m c \<union> {} \<longrightarrow> m' x = m x"
    using slot_page [OF okc c(2)] assms(3) by (auto intro: store64_other_page)
  have sub: "table_ok l m' c" "tpages l m' c \<subseteq> tpages l m c \<union> {}" using ih by auto
  note upd = subtree_update [OF Suc.prems(1) px_lt c(1) out Int_empty_left sub]
  note ok' = upd(1) and tp' = upd(2) and ch' = upd(3) and keep = upd(4)
  have "tpages (Suc l) m' pt = tpages (Suc l) m pt"
    using tp' ih kid_subset [OF px_lt c(1)] by (simp del: tpages.simps) blast
  moreover have "slot (Suc l) m' pt vb = slot (Suc l) m pt vb \<and>
      leaf (Suc l) m' pt vb =
        (if \<forall>k \<le> Suc l. px k vb = px k va then valid_pte v else leaf (Suc l) m pt vb)" for vb
  proof (cases "px (Suc l) vb = ?i")
    case True
    then have "(\<forall>k \<le> Suc l. px k vb = px k va) \<longleftrightarrow> (\<forall>k \<le> l. px k vb = px k va)"
      by (auto simp: le_Suc_eq)
    then show ?thesis using True ih c ch' [of ?i] by auto
  next
    case False
    then have "\<not> (\<forall>k \<le> Suc l. px k vb = px k va)" by blast
    then show ?thesis using ch' [of "px (Suc l) vb"] keep [of "px (Suc l) vb" _ vb] False
      by (auto split: option.splits)
  qed
  ultimately show ?case using ok' by (simp del: slot.simps leaf_Suc tpages.simps table_ok.simps)
qed

section \<open>A fresh table page\<close>

definition zero_page :: "memory \<Rightarrow> uint64 \<Rightarrow> bool" where
  "zero_page m p \<longleftrightarrow> (\<forall>x. PGROUNDDOWN x = p \<longrightarrow> m x = 0)"

lemma load64_zero: "(\<And>i. i < 8 \<Longrightarrow> m (a + of_nat i) = 0) \<Longrightarrow> load64 m a = 0"
proof -
  assume "\<And>i. i < 8 \<Longrightarrow> m (a + of_nat i) = 0"
  then have "load64 m a = load64 (\<lambda>_. 0) a" by (intro load64_cong) auto
  also have "\<dots> = 0" by (simp add: load64_def load_bytes_def upt_rec)
  finally show ?thesis .
qed

lemma entry_zero: "zero_page m p \<Longrightarrow> page_aligned p \<Longrightarrow> i < 512 \<Longrightarrow> entry m p i = 0"
  unfolding entry_def zero_page_def by (rule load64_zero) (simp add: slot_pages entry_page)

lemma child_zero: "zero_page m p \<Longrightarrow> page_aligned p \<Longrightarrow> i < 512 \<Longrightarrow> child m p i = None"
  by (simp add: child_def entry_zero)

lemma zero_table:
  assumes "zero_page m p" "page_aligned p" "p \<noteq> 0"
  shows "table_ok l m p" "tpages l m p = {p}" "leaf l m p va = None"
proof -
  note z = child_zero [OF assms(1,2)]
  show "table_ok l m p" using assms z by (cases l) auto
  show "tpages l m p = {p}" using z by (cases l) auto
  have "entry m p (px 0 va) = 0" using entry_zero assms by simp
  then show "leaf l m p va = None"
    using z by (cases l) (simp_all add: leaf_valid valid_pte_def entry_def pte_addr_eq)
qed

lemma and_flags: "f AND 0x3FF = f \<Longrightarrow> x AND f = PTE_FLAGS x AND f"
  unfolding PTE_FLAGS_def by (metis and.assoc and.commute)

lemma new_child_pte:
  assumes "page_aligned q"
  shows "(PA2PTE q OR PTE_V) AND PTE_V \<noteq> 0" "PTE2PA (PA2PTE q OR PTE_V) = q"
    "(PA2PTE q OR PTE_V) AND (PTE_R OR PTE_W OR PTE_X) = 0"
proof -
  show "(PA2PTE q OR PTE_V) AND PTE_V \<noteq> 0" by (rule PTE_V_set)
  show "PTE2PA (PA2PTE q OR PTE_V) = q"
    using assms by (intro PTE2PA_PA2PTE) (auto simp: PTE_V_def)
  have "(PA2PTE q OR PTE_V) AND (PTE_R OR PTE_W OR PTE_X) =
      PTE_FLAGS (PA2PTE q OR PTE_V) AND (PTE_R OR PTE_W OR PTE_X)"
    by (rule and_flags) (simp add: pte_bits)
  then show "(PA2PTE q OR PTE_V) AND (PTE_R OR PTE_W OR PTE_X) = 0"
    by (simp add: PTE_FLAGS_PA2PTE PTE_V_def) (simp add: pte_bits)
qed

text \<open>Hanging a zeroed page below an invalid entry adds one page and no translation.\<close>

lemma add_child:
  assumes ok: "table_ok (Suc l) m pt" and i: "i < 512" "child m pt i = None"
    and q: "page_aligned q" "q \<noteq> 0" "q \<notin> tpages (Suc l) m pt"
    and m': "m' = store64 (memset m q 0 PGSIZE) (pt + 8 * of_nat i) (PA2PTE q OR PTE_V)"
  shows "table_ok (Suc l) m' pt" "tpages (Suc l) m' pt = insert q (tpages (Suc l) m pt)"
    "child m' pt i = Some q" "zero_page m' q"
    "\<And>va. leaf (Suc l) m' pt va = leaf (Suc l) m pt va"
    "\<And>x. PGROUNDDOWN x \<noteq> pt \<Longrightarrow> PGROUNDDOWN x \<noteq> q \<Longrightarrow> m' x = m x"
    "\<And>va a. slot (Suc l) m pt va = Some a \<Longrightarrow> slot (Suc l) m' pt va = Some a"
proof -
  have al: "page_aligned pt" using ok by simp
  have ne: "q \<noteq> pt" using q(3) by auto
  show out: "m' x = m x" if "PGROUNDDOWN x \<noteq> pt" "PGROUNDDOWN x \<noteq> q" for x
    using that al i q(1) by (simp add: m' store_entry_outside memset_page)
  show z: "zero_page m' q"
    using ne al i q(1) by (auto simp: zero_page_def m' store_entry_outside memset_page)
  have e: "entry m' pt j = (if j = i then PA2PTE q OR PTE_V else entry m pt j)" if "j < 512" for j
  proof -
    have "entry (memset m q 0 PGSIZE) pt j = entry m pt j"
      using that al ne q(1) by (intro entry_cong) (auto simp: memset_page)
    then show ?thesis using entry_store [OF al i(1) that] by (auto simp: m')
  qed
  note pte = new_child_pte [OF q(1)]
  have ch: "child m' pt j = (if j = i then Some q else child m pt j)" if "j < 512" for j
    using e [OF that] pte by (cases "j = i") (simp_all add: child_def)
  then show "child m' pt i = Some q" using i by simp
  have kok: "table_ok l m k" "\<And>x. PGROUNDDOWN x \<in> tpages l m k \<Longrightarrow> m' x = m x"
    if "j < 512" "child m pt j = Some k" for j k
  proof -
    show "table_ok l m k" using table_ok_kid(1) [OF ok that] .
    show "m' x = m x" if "PGROUNDDOWN x \<in> tpages l m k" for x
      using that table_ok_kid(2) [OF ok \<open>j < 512\<close> \<open>child m pt j = Some k\<close>]
        kid_subset [OF \<open>j < 512\<close> \<open>child m pt j = Some k\<close>] q(3) by (intro out) auto
  qed
  have keep: "tpages l m' k = tpages l m k" "table_ok l m' k"
    "leaf l m' k va = leaf l m k va" "slot l m' k va = slot l m k va"
    if "j < 512" "child m pt j = Some k" for j k va
    using tpages_frame [OF kok [OF that]] table_frame [OF kok [OF that]] by blast+
  note zq = zero_table [OF z q(1,2)]
  have kp: "kid_pages l m' pt j = (if j = i then {q} else kid_pages l m pt j)" if "j < 512" for j
    using that ch keep(1) zq by (auto simp: kid_pages_def split: option.splits)
  have qk: "q \<notin> kid_pages l m pt j" if "j < 512" for j
    using q(3) that unfolding tpages_Suc by blast
  show "table_ok (Suc l) m' pt"
  proof (rule table_okI)
    show "page_aligned pt" "pt \<noteq> 0" using ok by auto
    show "entry m' pt j AND (PTE_R OR PTE_W OR PTE_X) = 0 \<and> table_ok l m' k \<and> pt \<notin> tpages l m' k"
      if j: "j < 512" "child m' pt j = Some k" for j k
    proof (cases "j = i")
      case True
      then have "k = q" using ch j by simp
      then show ?thesis using True e [OF j(1)] zq pte ne by simp
    next
      case False
      then have k: "child m pt j = Some k" using ch j by simp
      then show ?thesis using False e [OF j(1)] keep [OF j(1) k] table_ok_kid [OF ok j(1) k] by simp
    qed
    show "kid_pages l m' pt j \<inter> kid_pages l m' pt k = {}" if "j < 512" "k < 512" "j \<noteq> k" for j k
      using table_ok_kids_disjoint [OF ok that] kp [OF that(1)] kp [OF that(2)] that qk
      by (cases "j = i"; cases "k = i") auto
  qed
  have "kid_pages l m pt i = {}" using i by (simp add: kid_pages_def)
  then have "(\<Union>j \<in> {..<512}. kid_pages l m' pt j) = insert q (\<Union>j \<in> {..<512}. kid_pages l m pt j)"
    using kp i(1) by (auto split: if_splits)
  then show "tpages (Suc l) m' pt = insert q (tpages (Suc l) m pt)"
    by (simp only: tpages_Suc insert_commute)
  show "leaf (Suc l) m' pt va = leaf (Suc l) m pt va" for va
    using ch [of "px (Suc l) va"] keep(3) [of "px (Suc l) va"] zq(3) i
    by (auto split: option.splits)
  show "slot (Suc l) m' pt va = Some a" if "slot (Suc l) m pt va = Some a" for va a
    using that ch [of "px (Suc l) va"] keep(4) [of "px (Suc l) va"] i
    by (auto split: option.splits if_splits)
qed

section \<open>A walk that allocates\<close>

text \<open>What a walk with allocation does to the memory and the free list: it takes \<open>k\<close> pages off the
  list and hangs them into the table, every translation stays what it was, nothing outside the table
  and the pages taken changes, and unless memory has run out it returns the entry's address.\<close>

definition grown :: "nat \<Rightarrow> uint64 \<Rightarrow> uint64 list \<Rightarrow> nat \<Rightarrow> 'a kmem_st_scheme \<Rightarrow> 'a kmem_st_scheme \<Rightarrow> bool" where
  "grown l pt fs k s t \<longleftrightarrow>
     k \<le> length fs \<and> free_pages t (drop k fs) \<and> mem_only s t \<and>
     table_ok l (mem t) pt \<and> tpages l (mem t) pt = tpages l (mem s) pt \<union> set (take k fs) \<and>
     (\<forall>va. leaf l (mem t) pt va = leaf l (mem s) pt va) \<and>
     (\<forall>va a. slot l (mem s) pt va = Some a \<longrightarrow> slot l (mem t) pt va = Some a) \<and>
     (\<forall>x. PGROUNDDOWN x \<notin> tpages l (mem s) pt \<union> set (take k fs) \<longrightarrow> mem t x = mem s x)"

lemma grown_refl:
  "table_ok l (mem s) pt \<Longrightarrow> free_pages s fs \<Longrightarrow> grown l pt fs 0 s s"
  by (simp add: grown_def)

lemma grown_subtree:
  assumes ok: "table_ok (Suc l) (mem s) pt" and c: "child (mem s) pt i = Some c" "i < 512"
    and dis: "set fs \<inter> tpages (Suc l) (mem s) pt = {}"
    and g: "grown l c fs k s t"
  shows "grown (Suc l) pt fs k s t" "child (mem t) pt i = Some c"
proof -
  let ?N = "set (take k fs)"
  have out: "\<forall>x. PGROUNDDOWN x \<notin> tpages l (mem s) c \<union> ?N \<longrightarrow> mem t x = mem s x"
    and sub: "table_ok l (mem t) c" "tpages l (mem t) c \<subseteq> tpages l (mem s) c \<union> ?N"
    using g by (auto simp: grown_def)
  have fresh: "?N \<inter> tpages (Suc l) (mem s) pt = {}"
    using dis by (meson disjoint_iff in_set_takeD)
  note upd = subtree_update [OF ok c(2,1) out fresh sub]
  have kidsub: "tpages l (mem s) c \<subseteq> tpages (Suc l) (mem s) pt" using kid_subset c by blast
  show ci: "child (mem t) pt i = Some c" using upd(3) c by simp
  have "tpages (Suc l) (mem t) pt = tpages (Suc l) (mem s) pt \<union> ?N"
    using upd(2) g kidsub by (simp add: grown_def del: tpages.simps) blast
  moreover have "leaf (Suc l) (mem t) pt va = leaf (Suc l) (mem s) pt va" for va
    using upd(3) [of "px (Suc l) va"] upd(4) [of "px (Suc l) va" _ va] g c
    by (cases "px (Suc l) va = i") (auto simp: grown_def split: option.splits)
  moreover have "slot (Suc l) (mem t) pt va = Some a" if "slot (Suc l) (mem s) pt va = Some a" for va a
    using that upd(3) [of "px (Suc l) va"] upd(4) [of "px (Suc l) va" _ va] g c
    by (cases "px (Suc l) va = i") (auto simp: grown_def split: option.splits)
  moreover have "mem t x = mem s x" if "PGROUNDDOWN x \<notin> tpages (Suc l) (mem s) pt \<union> ?N" for x
    using that out kidsub by blast
  ultimately show "grown (Suc l) pt fs k s t"
    using upd(1) g by (simp add: grown_def del: tpages.simps table_ok.simps slot.simps leaf_Suc)
qed

lemma grown_trans:
  assumes "grown l pt fs j s t" "grown l pt (drop j fs) k t u"
  shows "grown l pt fs (j + k) s u"
proof -
  have "take (j + k) fs = take j fs @ take k (drop j fs)" by (rule take_add)
  moreover have "drop (j + k) fs = drop k (drop j fs)" by (simp add: add.commute)
  ultimately show ?thesis using assms
    by (auto simp: grown_def simp del: drop_drop intro: mem_only_trans)
qed

lemma grown_add_child:
  assumes ok: "table_ok (Suc l) (mem s) pt" and i: "i < 512" "child (mem s) pt i = None"
    and fp: "free_pages s (q # fs)" and dis: "set (q # fs) \<inter> tpages (Suc l) (mem s) pt = {}"
    and s1: "kalloc s = Ok q s1"
    and t: "t = s1\<lparr>mem := store64 (memset (mem s1) q 0 PGSIZE) (pt + 8 * of_nat i) (PA2PTE q OR PTE_V)\<rparr>"
  shows "grown (Suc l) pt (q # fs) 1 s t" "child (mem t) pt i = Some q" "zero_page (mem t) q"
    "page_aligned q" "q \<noteq> 0"
proof -
  obtain t1 where t1: "kalloc s = Ok q t1" "free_pages t1 fs"
      "\<forall>x. mem t1 x = (if PGROUNDDOWN x = q then 5 else mem s x)"
    using kalloc_free_pages [OF fp] by blast
  then have s1': "free_pages s1 fs" "\<And>x. mem s1 x = (if PGROUNDDOWN x = q then 5 else mem s x)"
    using s1 by auto
  show q: "page_aligned q" "q \<noteq> 0" using fp by (auto simp: free_pages_def ram_page_def)
  have frame: "\<And>x. PGROUNDDOWN x \<in> tpages (Suc l) (mem s) pt \<Longrightarrow> mem s1 x = mem s x"
    using dis s1'(2) by auto
  have ok1: "table_ok (Suc l) (mem s1) pt" using table_ok_frame [OF ok frame] .
  have tp1: "tpages (Suc l) (mem s1) pt = tpages (Suc l) (mem s) pt" using tpages_frame [OF ok frame] .
  have sl1: "slot (Suc l) (mem s1) pt va = slot (Suc l) (mem s) pt va"
    "leaf (Suc l) (mem s1) pt va = leaf (Suc l) (mem s) pt va" for va
    using table_frame [OF ok frame] by blast+
  have c1: "child (mem s1) pt i = None"
    using i ok frame child_cong [of pt i "mem s1" "mem s"] by (auto simp del: tpages.simps simp: tpages_Suc)
  have qn: "q \<notin> tpages (Suc l) (mem s1) pt" using tp1 dis by auto
  note add = add_child [OF ok1 i(1) c1 q qn refl]
  let ?m = "store64 (memset (mem s1) q 0 PGSIZE) (pt + 8 * of_nat i) (PA2PTE q OR PTE_V)"
  have mt: "mem t = ?m" using t by simp
  show "child (mem t) pt i = Some q" "zero_page (mem t) q" using add(3,4) mt by auto
  have "pt \<notin> set fs" using dis by auto
  moreover have "q \<notin> set fs" using fp by (auto simp: free_pages_def)
  ultimately have "\<And>x. PGROUNDDOWN x \<in> set fs \<Longrightarrow> mem t x = mem s1 x" using add(6) mt by metis
  then have fp': "free_pages t fs" using t by (intro free_pages_frame [OF s1'(1)]) auto
  have mo: "mem_only s t" using touchesD [OF kalloc_frame s1] t by simp
  have "mem t x = mem s x" if "PGROUNDDOWN x \<notin> tpages (Suc l) (mem s) pt \<union> {q}" for x
    using that add(6) [of x] s1'(2) mt by (auto simp: tpages_Suc simp del: tpages.simps)
  then show "grown (Suc l) pt (q # fs) 1 s t"
    unfolding grown_def mt using add fp' mo tp1 sl1 mt
    by (simp del: tpages.simps table_ok.simps slot.simps leaf_Suc)
qed

lemma walk_levels_alloc:
  assumes "table_ok l (mem s) pt" "free_pages s fs" "set fs \<inter> tpages l (mem s) pt = {}"
  shows "\<exists>r t k. walk_levels l pt va True s = Ok r t \<and> grown l pt fs k s t \<and> k \<le> l \<and>
    (if r = 0 then k = length fs \<and> length fs < l \<and> slot l (mem t) pt va = None
     else slot l (mem t) pt va = Some r)"
  using assms
proof (induction l arbitrary: pt s fs)
  case 0
  then have "pte_addr pt 0 va \<noteq> 0" using slot_page [of 0 "mem s" pt va] by simp
  then show ?case using 0 grown_refl [of 0 s pt fs] by auto
next
  case (Suc l)
  let ?i = "px (Suc l) va"
  have step: "walk_levels (Suc l) pt va True s =
      (case child (mem s) pt ?i of Some c \<Rightarrow> walk_levels l c va True s
       | None \<Rightarrow> bindR (kalloc s) (\<lambda>pg s1. if pg = 0 then Ok 0 s1
           else walk_levels l pg va True (s1\<lparr>mem := store64 (memset (mem s1) pg 0 PGSIZE)
             (pt + 8 * of_nat ?i) (PA2PTE pg OR PTE_V)\<rparr>)))"
    unfolding walk_levels.simps Let_def pte_addr_eq by (simp add: child_def entry_def)
  show ?case
  proof (cases "child (mem s) pt ?i")
    case (Some c)
    have "set fs \<inter> tpages l (mem s) c = {}" using Suc.prems(3) kid_subset [OF px_lt Some] by blast
    then obtain r t k where w: "walk_levels l c va True s = Ok r t" "grown l c fs k s t" "k \<le> l"
      "if r = 0 then k = length fs \<and> length fs < l \<and> slot l (mem t) c va = None
       else slot l (mem t) c va = Some r"
      using Suc.IH [OF table_ok_kid(1) [OF Suc.prems(1) px_lt Some] Suc.prems(2)] by blast
    note g = grown_subtree [OF Suc.prems(1) Some px_lt Suc.prems(3) w(2)]
    show ?thesis
      using w g step Some by (intro exI [of _ r] exI [of _ t] exI [of _ k]) (auto split: if_splits)
  next
    case None
    show ?thesis
    proof (cases fs)
      case Nil
      then have "kalloc s = Ok 0 s" using Suc.prems(2) kalloc_None by blast
      then show ?thesis using Nil None step grown_refl [OF Suc.prems(1,2)]
        by (intro exI [of _ 0] exI [of _ s] exI [of _ "0::nat"]) auto
    next
      case (Cons q fs')
      then obtain s1 where s1: "kalloc s = Ok q s1" using kalloc_free_pages Suc.prems(2) by blast
      define t where "t = s1\<lparr>mem := store64 (memset (mem s1) q 0 PGSIZE)
          (pt + 8 * of_nat ?i) (PA2PTE q OR PTE_V)\<rparr>"
      note add = grown_add_child [OF Suc.prems(1) px_lt None Suc.prems(2,3) [unfolded Cons] s1 t_def]
      have g1: "table_ok (Suc l) (mem t) pt" "free_pages t fs'"
        "tpages (Suc l) (mem t) pt = insert q (tpages (Suc l) (mem s) pt)"
        using add(1) by (auto simp: grown_def simp del: tpages.simps table_ok.simps)
      have dis: "set fs' \<inter> tpages (Suc l) (mem t) pt = {}"
        using Suc.prems(2,3) Cons g1(3) by (auto simp: free_pages_def simp del: tpages.simps)
      then have "set fs' \<inter> tpages l (mem t) q = {}" using kid_subset [OF px_lt add(2)] by blast
      then obtain r u k where w: "walk_levels l q va True t = Ok r u" "grown l q fs' k t u" "k \<le> l"
        "if r = 0 then k = length fs' \<and> length fs' < l \<and> slot l (mem u) q va = None
         else slot l (mem u) q va = Some r"
        using Suc.IH [OF table_ok_kid(1) [OF g1(1) px_lt add(2)] g1(2)] by blast
      note g = grown_subtree [OF g1(1) add(2) px_lt dis w(2)]
      have "grown (Suc l) pt fs (1 + k) s u"
        using grown_trans [OF add(1), of k u] g(1) Cons by simp
      then show ?thesis
        using w g(2) step None s1 add(5) Cons
        by (intro exI [of _ r] exI [of _ u] exI [of _ "1 + k"]) (auto simp: t_def split: if_splits)
    qed
  qed
qed

section \<open>Freeing a table\<close>

text \<open>\<open>no_leaf\<close>: nothing is mapped any more.\<close>

primrec no_leaf :: "nat \<Rightarrow> memory \<Rightarrow> uint64 \<Rightarrow> bool" where
  "no_leaf 0 m pt \<longleftrightarrow> (\<forall>i < 512. child m pt i = None)"
| "no_leaf (Suc l) m pt \<longleftrightarrow> (\<forall>i < 512. \<forall>c. child m pt i = Some c \<longrightarrow> no_leaf l m c)"

lemma no_leaf_frame:
  assumes "table_ok l m pt" "\<And>x. PGROUNDDOWN x \<in> tpages l m pt \<Longrightarrow> m' x = m x"
  shows "no_leaf l m' pt = no_leaf l m pt"
  using assms
proof (induction l arbitrary: pt)
  case 0
  have "child m' pt i = child m pt i" if "i < 512" for i using 0 that by (intro child_cong) auto
  then show ?case by simp
next
  case (Suc l)
  have c: "child m' pt i = child m pt i" if "i < 512" for i using Suc.prems that by (intro child_cong) auto
  have "no_leaf l m' k = no_leaf l m k" if "i < 512" "child m pt i = Some k" for i k
    using table_ok_kid(1) [OF Suc.prems(1) that] Suc.prems(2) kid_subset [OF that] by (intro Suc.IH) blast+
  then show ?case using c by auto
qed

text \<open>One turn of the loop: the pages of a child have been given back, and its entry is cleared.\<close>

lemma clear_entry:
  assumes ok: "table_ok (Suc l) m pt" and i: "i < 512" "child m pt i = Some c"
    and out: "\<forall>x. PGROUNDDOWN x \<notin> tpages l m c \<longrightarrow> m1 x = m x" and m': "m' = store64 m1 (pt + 8 * of_nat i) 0"
  shows "\<And>j. j < 512 \<Longrightarrow> child m' pt j = (if j = i then None else child m pt j)"
    "\<And>j. j < 512 \<Longrightarrow> kid_pages l m' pt j = (if j = i then {} else kid_pages l m pt j)"
    "table_ok (Suc l) m' pt" "no_leaf (Suc l) m pt \<Longrightarrow> no_leaf (Suc l) m' pt"
    "\<And>x. PGROUNDDOWN x \<notin> insert pt (tpages l m c) \<Longrightarrow> m' x = m x"
proof -
  note kid = table_ok_kid [OF ok]
  have al: "page_aligned pt" "pt \<noteq> 0" using ok by simp_all
  have e: "entry m' pt j = (if j = i then 0 else entry m pt j)" if "j < 512" for j
  proof -
    have "entry m1 pt j = entry m pt j" using kid(2) [OF i] out that al(1) by (intro entry_cong) auto
    then show ?thesis using entry_store [OF al(1) i(1) that] by (simp add: m')
  qed
  show c: "child m' pt j = (if j = i then None else child m pt j)" if "j < 512" for j using e [OF that] by (simp add: child_def)
  show o: "m' x = m x" if "PGROUNDDOWN x \<notin> insert pt (tpages l m c)" for x
    using store_entry_outside [OF al(1) i(1), of x] out that by (simp add: m')
  have sub: "m' x = m x" if "j < 512" "j \<noteq> i" "child m pt j = Some k" "PGROUNDDOWN x \<in> tpages l m k" for j k x
  proof -
    have "tpages l m c \<inter> tpages l m k = {}" using kid(4) [OF i that(1,2)] that(3) by (simp add: kid_pages_def)
    then have "PGROUNDDOWN x \<notin> insert pt (tpages l m c)" using kid(2) [OF that(1,3)] that(4) by auto
    then show ?thesis by (rule o)
  qed
  have tp: "tpages l m' k = tpages l m k" "table_ok l m' k" "no_leaf l m' k = no_leaf l m k" if "j < 512" "j \<noteq> i" "child m pt j = Some k" for j k
    by (rule tpages_frame table_ok_frame no_leaf_frame, rule kid(1) [OF that(1,3)], rule sub [OF that], assumption)+
  show kp: "kid_pages l m' pt j = (if j = i then {} else kid_pages l m pt j)" if "j < 512" for j
    using c [OF that] tp(1) [OF that] by (auto simp: kid_pages_def split: option.splits)
  show "table_ok (Suc l) m' pt"
  proof (rule table_okI [OF al])
    show "entry m' pt j AND (PTE_R OR PTE_W OR PTE_X) = 0 \<and> table_ok l m' k \<and> pt \<notin> tpages l m' k" if "j < 512" "child m' pt j = Some k" for j k
    proof -
      have j: "j \<noteq> i" "child m pt j = Some k" using c [OF that(1)] that(2) by (auto split: if_splits)
      then show ?thesis using tp(1,2) [OF that(1) j] kid(2,3) [OF that(1) j(2)] e [OF that(1)] by simp
    qed
    show "kid_pages l m' pt j \<inter> kid_pages l m' pt k = {}" if "j < 512" "k < 512" "j \<noteq> k" for j k
      using table_ok_kids_disjoint [OF ok that] kp [OF that(1)] kp [OF that(2)] by auto
  qed
  show "no_leaf (Suc l) m' pt" if "no_leaf (Suc l) m pt"
    using that c tp(3) by auto
qed

definition gives_back :: "uint64 set \<Rightarrow> uint64 list \<Rightarrow> 'a kmem_st_scheme \<Rightarrow> 'a kmem_st_scheme \<Rightarrow> bool" where
  "gives_back P fs s t \<longleftrightarrow> (\<exists>gs. free_pages t gs \<and> set gs = set fs \<union> P) \<and> kend t = kend s"

definition freeable :: "nat \<Rightarrow> uint64 \<Rightarrow> uint64 list \<Rightarrow> 'a kmem_st_scheme \<Rightarrow> bool" where
  "freeable l pt fs s \<longleftrightarrow> table_ok l (mem s) pt \<and> no_leaf l (mem s) pt \<and> (\<forall>p \<in> tpages l (mem s) pt. ram_page s p) \<and>
     free_pages s fs \<and> set fs \<inter> tpages l (mem s) pt = {}"

lemma freeable_clear:
  assumes fr: "freeable (Suc l) pt fs s" and i: "i < 512" and c: "child (mem s) pt i = Some c"
    and s1: "free_pages s1 gs" "set gs = set fs \<union> tpages l (mem s) c" "kend s1 = kend s"
      "\<forall>x. PGROUNDDOWN x \<notin> tpages l (mem s) c \<longrightarrow> mem s1 x = mem s x"
  shows "freeable (Suc l) pt gs (s1\<lparr>mem := store64 (mem s1) (pt + 8 * of_nat i) 0\<rparr>)"
    "tpages (Suc l) (store64 (mem s1) (pt + 8 * of_nat i) 0) pt \<subseteq> tpages (Suc l) (mem s) pt - tpages l (mem s) c"
proof -
  note d = fr [unfolded freeable_def]
  have ok: "table_ok (Suc l) (mem s) pt" using d by blast
  note kid = table_ok_kid [OF ok i c] and ce = clear_entry [OF ok i c s1(4) refl]
  let ?m = "store64 (mem s1) (pt + 8 * of_nat i) 0"
  let ?s = "s1\<lparr>mem := ?m\<rparr>"
  have pt: "pt \<notin> set gs" using kid(2) s1(2) d by auto
  have tp: "tpages (Suc l) ?m pt = insert pt (\<Union>j \<in> {..<512} - {i}. kid_pages l (mem s) pt j)"
    unfolding tpages_Suc using ce(2) i by auto
  show less: "tpages (Suc l) ?m pt \<subseteq> tpages (Suc l) (mem s) pt - tpages l (mem s) c"
  proof -
    have "kid_pages l (mem s) pt j \<inter> tpages l (mem s) c = {}" if "j < 512" "j \<noteq> i" for j using kid(4) [OF that] by blast
    then show ?thesis unfolding tp tpages_Suc [of l "mem s"] using kid(2) by auto
  qed
  have "free_pages ?s gs"
    using pt table_ok_aligned [OF ok] i by (intro free_pages_frame [OF s1(1)]) (auto intro!: store_entry_outside)
  moreover have "ram_page ?s p = ram_page s p" for p using s1(3) by (simp add: ram_page_def)
  moreover have "set gs \<inter> tpages (Suc l) ?m pt = {}" using less s1(2) d by blast
  ultimately show "freeable (Suc l) pt gs ?s"
    using ce(3,4) d less unfolding freeable_def by (auto simp del: tpages.simps table_ok.simps no_leaf.simps)
qed

lemma freewalk_entries_frees:
  assumes rec: "\<And>c (s :: 'a kmem_st_scheme) fs. freeable l c fs s \<Longrightarrow> \<exists>t. rec c s = Ok () t \<and> gives_back (tpages l (mem s) c) fs s t \<and>
      (\<forall>x. PGROUNDDOWN x \<notin> tpages l (mem s) c \<longrightarrow> mem t x = mem s x)"
  shows "freeable (Suc l) pt fs s \<Longrightarrow> distinct is \<Longrightarrow> set is \<subseteq> {..<512} \<Longrightarrow>
    \<exists>t. freewalk_entries rec is pt s = Ok () t \<and> gives_back (\<Union>i \<in> set is. kid_pages l (mem s) pt i) fs s t \<and>
      (\<forall>x. PGROUNDDOWN x \<notin> tpages (Suc l) (mem s) pt \<longrightarrow> mem t x = mem s x)"
proof (induction "is" arbitrary: s fs)
  case Nil
  then show ?case by (auto simp: gives_back_def freeable_def)
next
  case (Cons i "is")
  note d = Cons.prems(1) [unfolded freeable_def]
  have ok: "table_ok (Suc l) (mem s) pt" and i: "i < 512" "i \<notin> set is" "distinct is" "set is \<subseteq> {..<512}" using d Cons.prems(2,3) by auto
  show ?case
  proof (cases "child (mem s) pt i")
    case None
    then have "entry (mem s) pt i AND PTE_V = 0" by (simp add: child_def split: if_splits)
    then have "freewalk_entries rec (i # is) pt s = freewalk_entries rec is pt s" by (simp add: entry_def)
    then show ?thesis using Cons.IH [OF Cons.prems(1) i(3,4)] None by (simp add: kid_pages_def del: tpages.simps)
  next
    case (Some c)
    note kid = table_ok_kid [OF ok i(1) Some] and sub = kid_subset [OF i(1) Some, of l]
    have pte: "entry (mem s) pt i AND PTE_V \<noteq> 0" "PTE2PA (entry (mem s) pt i) = c" using Some by (auto simp: child_def split: if_splits)
    have "freeable l c fs s" using d kid(1) sub i(1) Some unfolding freeable_def by (auto simp del: tpages.simps table_ok.simps)
    then obtain s1 gs where s1: "rec c s = Ok () s1" "free_pages s1 gs" "set gs = set fs \<union> tpages l (mem s) c" "kend s1 = kend s"
      "\<forall>x. PGROUNDDOWN x \<notin> tpages l (mem s) c \<longrightarrow> mem s1 x = mem s x" using rec unfolding gives_back_def by blast
    let ?m = "store64 (mem s1) (pt + 8 * of_nat i) 0"
    let ?s = "s1\<lparr>mem := ?m\<rparr>"
    note ce = clear_entry [OF ok i(1) Some s1(5) refl] and fc = freeable_clear [OF Cons.prems(1) i(1) Some s1(2-5)]
    have step: "freewalk_entries rec (i # is) pt s = freewalk_entries rec is pt ?s"
      using pte kid(3) s1(1) by (simp add: entry_def)
    obtain t hs where t: "freewalk_entries rec is pt ?s = Ok () t" "free_pages t hs"
      "set hs = set gs \<union> (\<Union>j \<in> set is. kid_pages l ?m pt j)" "kend t = kend s1" "\<forall>x. PGROUNDDOWN x \<notin> tpages (Suc l) ?m pt \<longrightarrow> mem t x = ?m x"
      using Cons.IH [OF fc(1) i(3,4)] unfolding gives_back_def by (auto simp del: tpages.simps)
    have "kid_pages l ?m pt j = kid_pages l (mem s) pt j" if "j \<in> set is" for j
    proof -
      have "j < 512" "j \<noteq> i" using that i(2,4) by auto
      then show ?thesis using ce(2) [of j] by simp
    qed
    then have "(\<Union>j \<in> set is. kid_pages l ?m pt j) = (\<Union>j \<in> set is. kid_pages l (mem s) pt j)" by simp
    moreover have "kid_pages l (mem s) pt i = tpages l (mem s) c" using Some by (simp add: kid_pages_def)
    ultimately have "gives_back (\<Union>j \<in> set (i # is). kid_pages l (mem s) pt j) fs s t"
      unfolding gives_back_def using t(2-4) s1(3,4) by (auto simp del: tpages.simps intro!: exI [of _ hs])
    moreover have "mem t x = mem s x" if "PGROUNDDOWN x \<notin> tpages (Suc l) (mem s) pt" for x
    proof -
      have "PGROUNDDOWN x \<notin> insert pt (tpages l (mem s) c)" using that sub tpages_root [of pt "Suc l" "mem s"] by blast
      then have "?m x = mem s x" by (rule ce(5))
      moreover have "PGROUNDDOWN x \<notin> tpages (Suc l) ?m pt" using fc(2) that by blast
      ultimately show ?thesis using t(5) by simp
    qed
    ultimately show ?thesis using step t(1) by auto
  qed
qed

text \<open>Fuel for one more call than there are levels is enough: \<open>freewalk 3\<close> returns on every table of the three levels that \<open>walk\<close> builds, once nothing
  is mapped, and gives back exactly its pages.\<close>

lemma freewalk_frees:
  "freeable l pt fs s \<Longrightarrow> \<exists>t. freewalk (Suc l) pt s = Ok () t \<and> gives_back (tpages l (mem s) pt) fs s t \<and>
    (\<forall>x. PGROUNDDOWN x \<notin> tpages l (mem s) pt \<longrightarrow> mem t x = mem s x)"
proof (induction l arbitrary: pt fs s)
  case 0
  note d = 0 [unfolded freeable_def]
  have "freewalk_entries (freewalk 0) is pt s = Ok () s" if "set is \<subseteq> {..<512}" for "is" :: "nat list"
    using that
  proof (induction "is")
    case (Cons i "is")
    have "child (mem s) pt i = None" using d Cons.prems by simp
    then have "load64 (mem s) (pt + 8 * of_nat i) AND PTE_V = 0" by (simp add: child_def entry_def split: if_splits)
    then show ?case using Cons by simp
  qed simp
  from this [of "[0..<512]"] have e: "freewalk (Suc 0) pt s = kfree pt s" by (simp add: atLeast0LessThan)
  have "ram_page s pt" "free_pages s fs" "pt \<notin> set fs" using d by auto
  from kfree_free_pages [OF this(2,1,3)] obtain t where t: "kfree pt s = Ok () t" "free_pages t (pt # fs)" "kend t = kend s"
    "\<forall>x. PGROUNDDOWN x \<noteq> pt \<longrightarrow> mem t x = mem s x" by blast
  then show ?case unfolding e gives_back_def by (intro exI [of _ t] conjI exI [of _ "pt # fs"]) auto
next
  case (Suc l)
  note d = Suc.prems [unfolded freeable_def]
  have ok: "table_ok (Suc l) (mem s) pt" using d by blast
  obtain t gs where t: "freewalk_entries (freewalk (Suc l)) [0..<512] pt s = Ok () t" "free_pages t gs"
    "set gs = set fs \<union> (\<Union>i \<in> {..<512}. kid_pages l (mem s) pt i)" "kend t = kend s"
    "\<forall>x. PGROUNDDOWN x \<notin> tpages (Suc l) (mem s) pt \<longrightarrow> mem t x = mem s x"
    using freewalk_entries_frees [OF Suc.IH Suc.prems, of "[0..<512]"] unfolding gives_back_def by (auto simp: atLeast0LessThan simp del: tpages.simps freewalk.simps)
  have "pt \<notin> kid_pages l (mem s) pt i" if "i < 512" for i
    using table_ok_kid(2) [OF ok that] by (auto simp: kid_pages_def split: option.splits)
  then have "pt \<notin> set gs" using t(3) d tpages_root [of pt "Suc l" "mem s"] by (auto simp del: tpages.simps)
  moreover have "ram_page t pt" using d t(4) tpages_root [of pt "Suc l" "mem s"] unfolding ram_page_def by metis
  ultimately obtain u where u: "kfree pt t = Ok () u" "free_pages u (pt # gs)" "kend u = kend t" "\<forall>x. PGROUNDDOWN x \<noteq> pt \<longrightarrow> mem u x = mem t x"
    using kfree_free_pages [OF t(2)] by blast
  have "freewalk (Suc (Suc l)) pt s = Ok () u" using t(1) u(1) by simp
  moreover have "gives_back (tpages (Suc l) (mem s) pt) fs s u"
    unfolding gives_back_def tpages_Suc using u(2,3) t(3,4) by (intro conjI exI [of _ "pt # gs"]) auto
  moreover have "mem u x = mem s x" if "PGROUNDDOWN x \<notin> tpages (Suc l) (mem s) pt" for x
    using that t(5) u(4) tpages_root [of pt "Suc l" "mem s"] by metis
  ultimately show ?case by blast
qed

end
