(* ===== verification/VmMaps.thy ===== *)
theory VmMaps
  imports VmTables
begin

text \<open>
  The effect of \<open>walk\<close>, \<open>mappages\<close> and \<open>uvmunmap\<close> on translations. \<open>asp s pt fs\<close> says that \<open>pt\<close>
  is a three-level table in state \<open>s\<close>, that \<open>fs\<close> is the free list, and that no page is in both.
  \<open>evolves\<close> relates two states between which the table took \<open>k\<close> pages off the free list.
\<close>

definition asp :: "'a kmem_st_scheme \<Rightarrow> uint64 \<Rightarrow> uint64 list \<Rightarrow> bool" where
  "asp s pt fs \<longleftrightarrow> table_ok 2 (mem s) pt \<and> free_pages s fs \<and> set fs \<inter> tpages 2 (mem s) pt = {}"

definition evolves ::
  "uint64 \<Rightarrow> uint64 list \<Rightarrow> 'a kmem_st_scheme \<Rightarrow> nat \<Rightarrow> 'a kmem_st_scheme \<Rightarrow> bool" where
  "evolves pt fs s k t \<longleftrightarrow>
     k \<le> length fs \<and> asp t pt (drop k fs) \<and> mem_only s t \<and>
     tpages 2 (mem t) pt = tpages 2 (mem s) pt \<union> set (take k fs) \<and>
     (\<forall>x. PGROUNDDOWN x \<notin> tpages 2 (mem s) pt \<union> set (take k fs) \<longrightarrow> mem t x = mem s x)"

lemma evolves_refl: "asp s pt fs \<Longrightarrow> evolves pt fs s 0 s"
  by (simp add: evolves_def)

lemma evolves_trans:
  assumes "evolves pt fs s j t" "evolves pt (drop j fs) t k u"
  shows "evolves pt fs s (j + k) u"
proof -
  have "take (j + k) fs = take j fs @ take k (drop j fs)" by (rule take_add)
  moreover have "drop (j + k) fs = drop k (drop j fs)" by (simp add: add.commute)
  ultimately show ?thesis using assms
    by (auto simp: evolves_def simp del: drop_drop intro: mem_only_trans)
qed

lemma evolves_asp: "evolves pt fs s k t \<Longrightarrow> asp t pt (drop k fs)"
  by (simp add: evolves_def)

section \<open>Indices and pages\<close>

lemma bit_PGROUNDDOWN: "bit (PGROUNDDOWN a) n \<longleftrightarrow> 12 \<le> n \<and> bit a n"
proof (cases "n < 64")
  case True
  then show ?thesis
    by (auto simp: PGROUNDDOWN_def page_mask and_not_mask bit_simps)
next
  case False
  then show ?thesis using bit_imp_le_length [of a n] bit_imp_le_length [of "PGROUNDDOWN a" n] by auto
qed

lemma PX_PGROUNDDOWN: "PX l (PGROUNDDOWN a) = PX l a"
  by (rule bit_eqI) (auto simp: bit_PX bit_PGROUNDDOWN PXSHIFT_def)

lemma px_PGROUNDDOWN [simp]: "px l (PGROUNDDOWN a) = px l a"
  by (simp add: px_def PX_PGROUNDDOWN)

lemma px_eq_iff:
  assumes "a < MAXVA" "b < MAXVA"
  shows "(\<forall>k \<le> 2. px k a = px k b) \<longleftrightarrow> PGROUNDDOWN a = PGROUNDDOWN b"
proof
  assume eq: "\<forall>k \<le> 2. px k a = px k b"
  show "PGROUNDDOWN a = PGROUNDDOWN b"
  proof (rule PX_determines)
    show "PGROUNDDOWN a < MAXVA" "PGROUNDDOWN b < MAXVA" using assms by (simp_all only: PGROUNDDOWN_below)
    show "page_aligned (PGROUNDDOWN a)" "page_aligned (PGROUNDDOWN b)" by simp_all
    show "PX l (PGROUNDDOWN a) = PX l (PGROUNDDOWN b)" if "l < 3" for l
      using that eq by (simp add: PX_PGROUNDDOWN px_def word_unat_eq_iff)
  qed
next
  assume "PGROUNDDOWN a = PGROUNDDOWN b"
  then have "px k (PGROUNDDOWN a) = px k (PGROUNDDOWN b)" for k by simp
  then show "\<forall>k \<le> 2. px k a = px k b" by simp
qed

lemma slot_PGROUNDDOWN: "slot l m pt (PGROUNDDOWN a) = slot l m pt a"
  by (induction l arbitrary: pt) (auto simp: pte_addr_eq split: option.splits)

lemma lookup_PGROUNDDOWN: "leaf l m pt (PGROUNDDOWN a) = leaf l m pt a"
  by (simp add: leaf_valid slot_PGROUNDDOWN)

section \<open>The entry of an address\<close>

lemma walk_alloc:
  assumes "asp s pt fs" "va < MAXVA"
  shows "\<exists>r t k. walk pt va True s = Ok r t \<and> evolves pt fs s k t \<and> k \<le> 2 \<and>
    (\<forall>vb. lookup (mem t) pt vb = lookup (mem s) pt vb) \<and>
    (if r = 0 then k = length fs \<and> length fs < 2 else slot 2 (mem t) pt va = Some r)"
proof -
  from assms obtain r t k where w: "walk_levels 2 pt va True s = Ok r t" "grown 2 pt fs k s t" "k \<le> 2"
    "if r = 0 then k = length fs \<and> length fs < 2 \<and> slot 2 (mem t) pt va = None
     else slot 2 (mem t) pt va = Some r"
    using walk_levels_alloc [of 2 s pt fs va] by (auto simp: asp_def)
  have dis: "set fs \<inter> tpages 2 (mem s) pt = {}" "distinct fs"
    using assms by (auto simp: asp_def free_pages_def)
  have "set (take k fs) \<inter> set (drop k fs) = {}" using dis(2) by (simp add: set_take_disj_set_drop_if_distinct)
  then have "evolves pt fs s k t"
    using w(2) dis(1) set_drop_subset [of k fs] by (auto simp: evolves_def grown_def asp_def)
  moreover have "walk pt va True s = Ok r t" using w(1) assms(2) by (simp add: walk_def not_le)
  ultimately show ?thesis using w(2-4) by (auto simp: grown_def split: if_splits)
qed

lemma store_entry:
  assumes "asp s pt fs" "slot 2 (mem s) pt va = Some a" "va < MAXVA"
  shows "evolves pt fs s 0 (s\<lparr>mem := store64 (mem s) a v\<rparr>)"
    "\<And>vb. vb < MAXVA \<Longrightarrow> lookup (store64 (mem s) a v) pt vb =
      (if PGROUNDDOWN vb = PGROUNDDOWN va then valid_pte v else lookup (mem s) pt vb)"
proof -
  note st = slot_store [OF _ assms(2) refl, of v]
  have ok: "table_ok 2 (mem s) pt" using assms(1) by (simp add: asp_def)
  note pg = slot_page [OF ok assms(2)]
  have out: "store64 (mem s) a v x = mem s x" if "PGROUNDDOWN x \<notin> tpages 2 (mem s) pt" for x
    using pg that by (intro store64_other_page) auto
  have "PGROUNDDOWN x \<in> set fs \<Longrightarrow> store64 (mem s) a v x = mem s x" for x
    using assms(1) by (intro out) (auto simp: asp_def)
  moreover have "free_pages s fs" using assms(1) by (simp add: asp_def)
  ultimately have "free_pages (s\<lparr>mem := store64 (mem s) a v\<rparr>) fs"
    by (auto elim: free_pages_frame)
  then show "evolves pt fs s 0 (s\<lparr>mem := store64 (mem s) a v\<rparr>)"
    using st [OF ok] assms(1) out unfolding evolves_def asp_def by simp
  show "lookup (store64 (mem s) a v) pt vb =
      (if PGROUNDDOWN vb = PGROUNDDOWN va then valid_pte v else lookup (mem s) pt vb)"
    if "vb < MAXVA" for vb
    unfolding px_eq_iff [OF that assms(3), symmetric] using st [OF ok] by blast
qed

section \<open>mappages\<close>

definition new_pte :: "uint64 \<Rightarrow> uint64 \<Rightarrow> uint64" where
  "new_pte pa perm = PA2PTE pa OR perm OR PTE_V"

lemma valid_new_pte [simp]: "valid_pte (new_pte pa perm) = Some (new_pte pa perm)"
  using PTE_V_set [of "PA2PTE pa OR perm"] by (simp add: valid_pte_def new_pte_def or.assoc)

text \<open>One page: either memory runs out, or exactly this page is mapped.\<close>

lemma map_one:
  assumes "asp s pt fs" "a < MAXVA" "lookup (mem s) pt a = None"
  shows "\<exists>pte s1 k. walk pt a True s = Ok pte s1 \<and> evolves pt fs s k s1 \<and> k \<le> 2 \<and>
    (\<forall>vb. lookup (mem s1) pt vb = lookup (mem s) pt vb) \<and>
    (if pte = 0 then k = length fs \<and> length fs < 2
     else load64 (mem s1) pte AND PTE_V = 0 \<and>
       (let t = s1\<lparr>mem := store64 (mem s1) pte (new_pte pa perm)\<rparr> in
        evolves pt fs s k t \<and>
        (\<forall>vb < MAXVA. lookup (mem t) pt vb =
           (if PGROUNDDOWN vb = PGROUNDDOWN a then Some (new_pte pa perm)
            else lookup (mem s) pt vb))))"
proof -
  obtain pte s1 k where w: "walk pt a True s = Ok pte s1" "evolves pt fs s k s1" "k \<le> 2"
    "\<forall>vb. lookup (mem s1) pt vb = lookup (mem s) pt vb"
    "if pte = 0 then k = length fs \<and> length fs < 2 else slot 2 (mem s1) pt a = Some pte"
    using walk_alloc [OF assms(1,2)] by blast
  show ?thesis
  proof (cases "pte = 0")
    case True
    then show ?thesis using w by auto
  next
    case False
    then have sl: "slot 2 (mem s1) pt a = Some pte" using w(5) by simp
    have "lookup (mem s1) pt a = None" using w(4) assms(3) by simp
    then have inv: "load64 (mem s1) pte AND PTE_V = 0"
      using sl by (simp add: leaf_valid valid_pte_def split: if_splits)
    note st = store_entry [OF evolves_asp [OF w(2)] sl assms(2), where v = "new_pte pa perm"]
    have "evolves pt fs s k (s1\<lparr>mem := store64 (mem s1) pte (new_pte pa perm)\<rparr>)"
      using evolves_trans [OF w(2) st(1)] by simp
    then show ?thesis using False w st(2) inv by (auto simp: Let_def)
  qed
qed

text \<open>\<open>vb\<close> lies in one of the \<open>n\<close> pages from the page boundary \<open>a\<close> on.\<close>

definition in_pages :: "uint64 \<Rightarrow> nat \<Rightarrow> uint64 \<Rightarrow> bool" where
  "in_pages a n vb \<longleftrightarrow> unat a \<le> unat vb \<and> unat vb < unat a + 4096 * n"

lemma in_pages_0 [simp]: "\<not> in_pages a 0 vb"
  by (simp add: in_pages_def)

lemma in_pages_1: "page_aligned a \<Longrightarrow> in_pages a 1 vb \<longleftrightarrow> PGROUNDDOWN vb = a"
  using in_page_iff [of a vb] in_run_iff [OF page_run, of a vb] by (simp add: in_pages_def)

lemma in_pages_Suc:
  assumes "page_aligned a" "unat a + 4096 < 2 ^ 64"
  shows "in_pages a (Suc n) vb \<longleftrightarrow> PGROUNDDOWN vb = a \<or> in_pages (a + 4096) n vb"
proof -
  have "unat (a + 4096) = unat a + 4096" using assms(2) by (simp add: unat_word_ariths)
  then show ?thesis using in_pages_1 [OF assms(1), of vb] by (auto simp: in_pages_def)
qed

lemma page_aligned_add: "page_aligned a \<Longrightarrow> page_aligned (a + 4096)"
proof -
  have "unat (a + 4096) mod 4096 = ((unat a + 4096) mod 2 ^ 64) mod 4096"
    by (simp add: unat_word_ariths)
  also have "\<dots> = (unat a + 4096) mod 4096" by (simp add: mod_mod_cancel)
  finally show "page_aligned a \<Longrightarrow> page_aligned (a + 4096)" by (simp add: page_aligned_def)
qed

lemma mappages_from_step:
  assumes "walk pt a True s = Ok pte s1" "pte \<noteq> 0" "load64 (mem s1) pte AND PTE_V = 0"
  shows "mappages_from pt a last_a pa perm s =
    (let t = s1\<lparr>mem := store64 (mem s1) pte (new_pte pa perm)\<rparr> in
     if a = last_a then Ok 0 t else mappages_from pt (a + 4096) last_a (pa + 4096) perm t)"
  using assms by (subst mappages_from.simps) (simp add: new_pte_def)

lemma mappages_from_spec:
  assumes "asp s pt fs" "page_aligned a" "unat a + 4096 * Suc n \<le> unat MAXVA"
    and "last_a = a + of_nat n * 4096"
    and "\<And>vb. in_pages a (Suc n) vb \<Longrightarrow> lookup (mem s) pt vb = None"
  shows "\<exists>r t k j. mappages_from pt a last_a pa perm s = Ok r t \<and> evolves pt fs s k t \<and>
    k \<le> 2 * Suc n \<and> j \<le> Suc n \<and>
    (\<forall>vb < MAXVA. lookup (mem t) pt vb =
       (if in_pages a j vb then Some (new_pte (pa + (PGROUNDDOWN vb - a)) perm)
        else lookup (mem s) pt vb)) \<and>
    (if r = 0 then j = Suc n else r = - 1 \<and> j \<le> n \<and> k = length fs \<and> length fs < 2 * Suc n)"
  using assms
proof (induction n arbitrary: a pa s fs)
  case 0
  have a: "a < MAXVA" using 0(3) by (simp add: word_less_nat_alt)
  have "in_pages a (Suc 0) a" by (simp add: in_pages_def)
  then have none: "lookup (mem s) pt a = None" using 0(5) by blast
  obtain pte s1 k where w: "walk pt a True s = Ok pte s1" "evolves pt fs s k s1" "k \<le> 2"
    "\<forall>vb. lookup (mem s1) pt vb = lookup (mem s) pt vb"
    "if pte = 0 then k = length fs \<and> length fs < 2
     else load64 (mem s1) pte AND PTE_V = 0 \<and>
       (let t = s1\<lparr>mem := store64 (mem s1) pte (new_pte pa perm)\<rparr> in evolves pt fs s k t \<and>
        (\<forall>vb < MAXVA. lookup (mem t) pt vb =
           (if PGROUNDDOWN vb = PGROUNDDOWN a then Some (new_pte pa perm) else lookup (mem s) pt vb)))"
    using map_one [OF 0(1) a none] by blast
  show ?case
  proof (cases "pte = 0")
    case True
    then have "mappages_from pt a last_a pa perm s = Ok (- 1) s1"
      using w(1) by (subst mappages_from.simps) simp
    then show ?thesis using w True
      by (intro exI [of _ "- 1"] exI [of _ s1] exI [of _ k] exI [of _ "0::nat"]) auto
  next
    case False
    let ?t = "s1\<lparr>mem := store64 (mem s1) pte (new_pte pa perm)\<rparr>"
    have "mappages_from pt a last_a pa perm s = Ok 0 ?t"
      using mappages_from_step [OF w(1) False] w(5) False 0(4) by (simp add: Let_def)
    moreover have "in_pages a (Suc 0) vb \<longleftrightarrow> PGROUNDDOWN vb = PGROUNDDOWN a" for vb
      using in_pages_1 [OF 0(2)] PGROUNDDOWN_aligned [OF 0(2)] by simp
    ultimately show ?thesis using w False PGROUNDDOWN_aligned [OF 0(2)]
      by (intro exI [of _ 0] exI [of _ ?t] exI [of _ k] exI [of _ 1]) (auto simp: Let_def)
  qed
next
  case (Suc n)
  have big: "unat a + 4096 < unat MAXVA" using Suc.prems(3) by simp
  then have a: "a < MAXVA" by (simp add: word_less_nat_alt)
  have lt64: "unat a + 4096 < 2 ^ 64" using big by (simp add: MAXVA_def)
  have ua: "unat (a + 4096) = unat a + 4096" using lt64 by (simp add: unat_word_ariths)
  note ins = in_pages_Suc [OF Suc.prems(2) lt64]
  note al = PGROUNDDOWN_aligned [OF Suc.prems(2)]
  have "in_pages a (Suc (Suc n)) a" by (simp add: in_pages_def)
  then have none: "lookup (mem s) pt a = None" using Suc.prems(5) by blast
  obtain pte s1 k where w: "walk pt a True s = Ok pte s1" "evolves pt fs s k s1" "k \<le> 2"
    "\<forall>vb. lookup (mem s1) pt vb = lookup (mem s) pt vb"
    "if pte = 0 then k = length fs \<and> length fs < 2
     else load64 (mem s1) pte AND PTE_V = 0 \<and>
       (let t = s1\<lparr>mem := store64 (mem s1) pte (new_pte pa perm)\<rparr> in evolves pt fs s k t \<and>
        (\<forall>vb < MAXVA. lookup (mem t) pt vb =
           (if PGROUNDDOWN vb = PGROUNDDOWN a then Some (new_pte pa perm) else lookup (mem s) pt vb)))"
    using map_one [OF Suc.prems(1) a none] by blast
  show ?case
  proof (cases "pte = 0")
    case True
    then have "mappages_from pt a last_a pa perm s = Ok (- 1) s1"
      using w(1) by (subst mappages_from.simps) simp
    then show ?thesis using w True
      by (intro exI [of _ "- 1"] exI [of _ s1] exI [of _ k] exI [of _ "0::nat"]) auto
  next
    case False
    let ?t = "s1\<lparr>mem := store64 (mem s1) pte (new_pte pa perm)\<rparr>"
    have t: "evolves pt fs s k ?t"
      "\<And>vb. vb < MAXVA \<Longrightarrow> lookup (mem ?t) pt vb =
         (if PGROUNDDOWN vb = a then Some (new_pte pa perm) else lookup (mem s) pt vb)"
      using w(5) False al by (auto simp: Let_def)
    have ne: "a \<noteq> last_a"
    proof
      assume "a = last_a"
      then have "of_nat (Suc n * 4096) = (0 :: uint64)" using Suc.prems(4) by simp
      moreover have "Suc n * 4096 < 2 ^ 64" using Suc.prems(3) by (simp add: MAXVA_def)
      ultimately have "Suc n * 4096 = 0" using unat_of_nat_64 [of "Suc n * 4096"] by (metis unat_0)
      then show False by simp
    qed
    have unmapped: "lookup (mem ?t) pt vb = None" if "in_pages (a + 4096) (Suc n) vb" for vb
    proof -
      have "vb < MAXVA" using that Suc.prems(3) ua by (simp add: in_pages_def word_less_nat_alt)
      moreover have "PGROUNDDOWN vb \<noteq> a"
        using that in_pages_1 [OF Suc.prems(2), of vb] ua by (auto simp: in_pages_def)
      ultimately show ?thesis using t(2) Suc.prems(5) that ins by simp
    qed
    obtain r u k' j where u: "mappages_from pt (a + 4096) last_a (pa + 4096) perm ?t = Ok r u"
      "evolves pt (drop k fs) ?t k' u" "k' \<le> 2 * Suc n" "j \<le> Suc n"
      "\<forall>vb < MAXVA. lookup (mem u) pt vb =
        (if in_pages (a + 4096) j vb then Some (new_pte (pa + 4096 + (PGROUNDDOWN vb - (a + 4096))) perm)
         else lookup (mem ?t) pt vb)"
      "if r = 0 then j = Suc n else r = - 1 \<and> j \<le> n \<and> k' = length (drop k fs) \<and>
         length (drop k fs) < 2 * Suc n"
      using Suc.IH [OF evolves_asp [OF t(1)] page_aligned_add [OF Suc.prems(2)], of "pa + 4096"]
        Suc.prems(3,4) ua unmapped by (auto simp: algebra_simps)
    have k: "k \<le> length fs" using t(1) by (simp add: evolves_def)
    have "mappages_from pt a last_a pa perm s = Ok r u"
      using mappages_from_step [OF w(1) False] w(5) False ne u(1) by (simp add: Let_def)
    moreover have "evolves pt fs s (k + k') u" using evolves_trans [OF t(1) u(2)] .
    moreover have "lookup (mem u) pt vb =
        (if in_pages a (Suc j) vb then Some (new_pte (pa + (PGROUNDDOWN vb - a)) perm)
         else lookup (mem s) pt vb)" if "vb < MAXVA" for vb
      using u(5) t(2) that in_pages_Suc [OF Suc.prems(2) lt64, of j vb] by auto
    ultimately show ?thesis using u(3,4,6) w(3) k
      by (intro exI [of _ r] exI [of _ u] exI [of _ "k + k'"] exI [of _ "Suc j"]) (auto split: if_splits)
  qed
qed

section \<open>uvmunmap\<close>

definition freed :: "bool \<Rightarrow> uint64 list \<Rightarrow> uint64 list" where
  "freed do_free vs = (if do_free then rev (map PTE2PA vs) else [])"

text \<open>The entries \<open>vs\<close> may be unmapped: they are leaves, and if their pages are to be freed these
  are allocated pages outside the table, each named once.\<close>

definition releasable ::
  "bool \<Rightarrow> 'a kmem_st_scheme \<Rightarrow> uint64 \<Rightarrow> uint64 list \<Rightarrow> uint64 list \<Rightarrow> bool" where
  "releasable do_free s pt fs vs \<longleftrightarrow>
     (\<forall>v \<in> set vs. PTE_FLAGS v \<noteq> PTE_V) \<and>
     (do_free \<longrightarrow> distinct (map PTE2PA vs) \<and>
        (\<forall>v \<in> set vs. ram_page s (PTE2PA v) \<and> PTE2PA v \<notin> set fs \<union> tpages 2 (mem s) pt))"

lemma walk_lookup:
  assumes "table_ok 2 (mem s) pt" "va < MAXVA" "lookup (mem s) pt va = Some v"
  shows "\<exists>pte. walk pt va False s = Ok pte s \<and> pte \<noteq> 0 \<and> slot 2 (mem s) pt va = Some pte \<and>
    load64 (mem s) pte = v \<and> v AND PTE_V \<noteq> 0"
proof -
  from assms(3) obtain pte where pte: "slot 2 (mem s) pt va = Some pte" "load64 (mem s) pte = v"
      "v AND PTE_V \<noteq> 0"
    by (auto simp: leaf_valid valid_pte_def split: option.splits if_splits)
  moreover have "walk pt va False s = Ok pte s"
    using pte(1) assms(2) by (simp add: walk_def not_le walk_levels_slot)
  ultimately show ?thesis using slot_page [OF assms(1) pte(1)] by blast
qed

lemma free_outside_table:
  assumes "asp s pt fs" "ram_page s p" "p \<notin> set fs \<union> tpages 2 (mem s) pt"
  shows "\<exists>t. kfree p s = Ok () t \<and> asp t pt (p # fs) \<and> mem_only s t \<and>
    tpages 2 (mem t) pt = tpages 2 (mem s) pt \<and>
    (\<forall>va. slot 2 (mem t) pt va = slot 2 (mem s) pt va) \<and>
    (\<forall>va. lookup (mem t) pt va = lookup (mem s) pt va) \<and>
    (\<forall>x. PGROUNDDOWN x \<noteq> p \<longrightarrow> mem t x = mem s x)"
proof -
  have fp: "free_pages s fs" and ok: "table_ok 2 (mem s) pt" and dis: "set fs \<inter> tpages 2 (mem s) pt = {}"
    using assms(1) by (auto simp: asp_def)
  obtain t where t: "kfree p s = Ok () t" "free_pages t (p # fs)"
      "\<forall>x. PGROUNDDOWN x \<noteq> p \<longrightarrow> mem t x = mem s x"
    using kfree_free_pages [OF fp assms(2)] assms(3) by auto
  have same: "\<And>x. PGROUNDDOWN x \<in> tpages 2 (mem s) pt \<Longrightarrow> mem t x = mem s x" using t(3) assms(3) by auto
  have tp: "tpages 2 (mem t) pt = tpages 2 (mem s) pt" by (rule tpages_frame [OF ok same])
  have "asp t pt (p # fs)"
    using table_ok_frame [OF ok same] t(2) tp dis assms(3) by (auto simp: asp_def)
  then show ?thesis
    using t tp slot_frame [OF ok same] leaf_frame [OF ok same] touchesD [OF kfree_frame t(1)] by blast
qed

lemma unmap_one:
  assumes "asp s pt fs" "a < MAXVA" "lookup (mem s) pt a = Some v" "releasable do_free s pt fs [v]"
  shows "\<exists>pte s1. walk pt a False s = Ok pte s \<and> pte \<noteq> 0 \<and> load64 (mem s) pte = v \<and> v AND PTE_V \<noteq> 0 \<and>
    (if do_free then kfree (PTE2PA v) s else Ok () s) = Ok () s1 \<and>
    (let t = s1\<lparr>mem := store64 (mem s1) pte 0\<rparr> in
     asp t pt (freed do_free [v] @ fs) \<and> mem_only s t \<and> tpages 2 (mem t) pt = tpages 2 (mem s) pt \<and>
     (\<forall>vb < MAXVA. lookup (mem t) pt vb =
        (if PGROUNDDOWN vb = PGROUNDDOWN a then None else lookup (mem s) pt vb)) \<and>
     (\<forall>x. PGROUNDDOWN x \<notin> tpages 2 (mem s) pt \<union> set (freed do_free [v]) \<longrightarrow> mem t x = mem s x))"
proof -
  have ok: "table_ok 2 (mem s) pt" using assms(1) by (simp add: asp_def)
  obtain pte where w: "walk pt a False s = Ok pte s" "pte \<noteq> 0" "slot 2 (mem s) pt a = Some pte"
      "load64 (mem s) pte = v" "v AND PTE_V \<noteq> 0"
    using walk_lookup [OF ok assms(2,3)] by blast
  obtain s1 where s1: "(if do_free then kfree (PTE2PA v) s else Ok () s) = Ok () s1"
      "asp s1 pt (freed do_free [v] @ fs)" "mem_only s s1" "tpages 2 (mem s1) pt = tpages 2 (mem s) pt"
      "slot 2 (mem s1) pt a = Some pte"
      "\<forall>va. lookup (mem s1) pt va = lookup (mem s) pt va"
      "\<forall>x. PGROUNDDOWN x \<notin> set (freed do_free [v]) \<longrightarrow> mem s1 x = mem s x"
  proof (cases do_free)
    case True
    then obtain t where "kfree (PTE2PA v) s = Ok () t" "asp t pt (PTE2PA v # fs)" "mem_only s t"
        "tpages 2 (mem t) pt = tpages 2 (mem s) pt"
        "\<forall>va. slot 2 (mem t) pt va = slot 2 (mem s) pt va"
        "\<forall>va. lookup (mem t) pt va = lookup (mem s) pt va"
        "\<forall>x. PGROUNDDOWN x \<noteq> PTE2PA v \<longrightarrow> mem t x = mem s x"
      using free_outside_table [OF assms(1), of "PTE2PA v"] assms(4) by (auto simp: releasable_def)
    then show ?thesis using True w(3) by (intro that [of t]) (auto simp: freed_def)
  next
    case False
    then show ?thesis using assms(1) w(3) by (intro that [of s]) (auto simp: freed_def)
  qed
  note st = store_entry [OF s1(2,5) assms(2), where v = 0]
  let ?t = "s1\<lparr>mem := store64 (mem s1) pte 0\<rparr>"
  have "asp ?t pt (freed do_free [v] @ fs)" "tpages 2 (mem ?t) pt = tpages 2 (mem s) pt" "mem_only s ?t"
    "\<forall>x. PGROUNDDOWN x \<notin> tpages 2 (mem s) pt \<union> set (freed do_free [v]) \<longrightarrow> mem ?t x = mem s x"
    using st(1) s1(3,4,7) by (auto simp: evolves_def)
  moreover have "lookup (mem ?t) pt vb =
      (if PGROUNDDOWN vb = PGROUNDDOWN a then None else lookup (mem s) pt vb)" if "vb < MAXVA" for vb
    using st(2) [OF that] s1(6) by (simp add: valid_pte_def)
  ultimately show ?thesis using w s1(1) unfolding Let_def by blast
qed

lemma releasable_Cons:
  assumes "releasable do_free s pt fs (v # vs)" "mem_only s t"
    "tpages 2 (mem t) pt = tpages 2 (mem s) pt"
  shows "releasable do_free s pt fs [v]" "releasable do_free t pt (freed do_free [v] @ fs) vs"
proof -
  show "releasable do_free s pt fs [v]" using assms(1) by (auto simp: releasable_def)
  have "PTE2PA w \<noteq> PTE2PA v" if "do_free" "w \<in> set vs" for w
  proof -
    have "PTE2PA v \<notin> PTE2PA ` set vs" using assms(1) that(1) by (simp add: releasable_def)
    then show ?thesis using that(2) by (metis imageI)
  qed
  then show "releasable do_free t pt (freed do_free [v] @ fs) vs"
    using assms by (simp add: releasable_def freed_def ram_page_def mem_only_def)
qed

text \<open>\<open>vs\<close> are the entries of the successive pages from \<open>a\<close> on.\<close>

fun mapped :: "memory \<Rightarrow> uint64 \<Rightarrow> uint64 \<Rightarrow> uint64 list \<Rightarrow> bool" where
  "mapped m pt a [] = True"
| "mapped m pt a (v # vs) \<longleftrightarrow> lookup m pt a = Some v \<and> mapped m pt (a + 4096) vs"

lemma mapped_cong:
  assumes "\<And>vb. in_pages a (length vs) vb \<Longrightarrow> lookup m' pt vb = lookup m pt vb"
    and "unat a + 4096 * length vs \<le> unat MAXVA"
  shows "mapped m' pt a vs = mapped m pt a vs"
  using assms
proof (induction vs arbitrary: a)
  case Nil
  then show ?case by simp
next
  case (Cons v vs)
  have "unat (a + 4096) = unat a + 4096"
    using Cons.prems(2) by (simp add: unat_word_ariths MAXVA_def)
  then have "mapped m' pt (a + 4096) vs = mapped m pt (a + 4096) vs"
    using Cons.prems by (intro Cons.IH) (auto simp: in_pages_def)
  moreover have "lookup m' pt a = lookup m pt a" using Cons.prems(1) [of a] by (simp add: in_pages_def)
  ultimately show ?case by simp
qed

lemma uvmunmap_from_spec:
  assumes "asp s pt fs" "page_aligned a" "unat a + 4096 * length vs \<le> unat MAXVA"
    and "mapped (mem s) pt a vs" "releasable do_free s pt fs vs"
    and "end_a = a + of_nat (length vs) * 4096"
  shows "\<exists>t. uvmunmap_from pt a end_a do_free s = Ok () t \<and> asp t pt (freed do_free vs @ fs) \<and>
    mem_only s t \<and> tpages 2 (mem t) pt = tpages 2 (mem s) pt \<and>
    (\<forall>vb < MAXVA. lookup (mem t) pt vb =
       (if in_pages a (length vs) vb then None else lookup (mem s) pt vb)) \<and>
    (\<forall>x. PGROUNDDOWN x \<notin> tpages 2 (mem s) pt \<union> set (freed do_free vs) \<longrightarrow> mem t x = mem s x)"
  using assms
proof (induction vs arbitrary: a s fs)
  case Nil
  then show ?case by (subst uvmunmap_from.simps) (simp add: freed_def)
next
  case (Cons v vs)
  let ?n = "length vs"
  have len: "unat a + 4096 * Suc ?n \<le> unat MAXVA" using Cons.prems(3) by simp
  have lt64: "unat a + 4096 < 2 ^ 64" using len by (simp add: MAXVA_def)
  have ua: "unat (a + 4096) = unat a + 4096" using lt64 by (simp add: unat_word_ariths)
  have a: "a < MAXVA" using len by (simp add: word_less_nat_alt)
  have ue: "unat end_a = unat a + 4096 * Suc ?n"
  proof -
    have "end_a = of_nat (unat a + 4096 * Suc ?n)" using Cons.prems(6) by (simp add: algebra_simps)
    then show ?thesis using len by (simp only:) (intro unat_of_nat_64, simp add: MAXVA_def)
  qed
  note al = PGROUNDDOWN_aligned [OF Cons.prems(2)] and ins = in_pages_Suc [OF Cons.prems(2) lt64]
  note rel = releasable_Cons(1) [OF Cons.prems(5) mem_only_refl refl]
  obtain pte s1 where w: "walk pt a False s = Ok pte s" "pte \<noteq> 0" "load64 (mem s) pte = v"
      "v AND PTE_V \<noteq> 0" "(if do_free then kfree (PTE2PA v) s else Ok () s) = Ok () s1"
    and t: "let t = s1\<lparr>mem := store64 (mem s1) pte 0\<rparr> in
     asp t pt (freed do_free [v] @ fs) \<and> mem_only s t \<and> tpages 2 (mem t) pt = tpages 2 (mem s) pt \<and>
     (\<forall>vb < MAXVA. lookup (mem t) pt vb =
        (if PGROUNDDOWN vb = PGROUNDDOWN a then None else lookup (mem s) pt vb)) \<and>
     (\<forall>x. PGROUNDDOWN x \<notin> tpages 2 (mem s) pt \<union> set (freed do_free [v]) \<longrightarrow> mem t x = mem s x)"
    using unmap_one [OF Cons.prems(1) a _ rel] Cons.prems(4) by auto
  let ?t = "s1\<lparr>mem := store64 (mem s1) pte 0\<rparr>"
  have t1: "asp ?t pt (freed do_free [v] @ fs)" "mem_only s ?t"
      "tpages 2 (mem ?t) pt = tpages 2 (mem s) pt"
      "\<forall>x. PGROUNDDOWN x \<notin> tpages 2 (mem s) pt \<union> set (freed do_free [v]) \<longrightarrow> mem ?t x = mem s x"
    and t2: "\<And>vb. vb < MAXVA \<Longrightarrow> lookup (mem ?t) pt vb =
      (if PGROUNDDOWN vb = a then None else lookup (mem s) pt vb)"
    using t al unfolding Let_def by auto
  have keep: "lookup (mem ?t) pt vb = lookup (mem s) pt vb" if "in_pages (a + 4096) ?n vb" for vb
  proof -
    have "vb < MAXVA" using that len ua by (simp add: in_pages_def word_less_nat_alt)
    moreover have "PGROUNDDOWN vb \<noteq> a"
      using that in_pages_1 [OF Cons.prems(2), of vb] ua by (auto simp: in_pages_def)
    ultimately show ?thesis using t2 by simp
  qed
  have len': "unat (a + 4096) + 4096 * ?n \<le> unat MAXVA" using ua len by simp
  have "mapped (mem ?t) pt (a + 4096) vs"
    using mapped_cong [OF keep len'] Cons.prems(4) by simp
  then obtain u where u: "uvmunmap_from pt (a + 4096) end_a do_free ?t = Ok () u"
      "asp u pt (freed do_free vs @ freed do_free [v] @ fs)" "mem_only ?t u"
      "tpages 2 (mem u) pt = tpages 2 (mem ?t) pt"
      "\<forall>vb < MAXVA. lookup (mem u) pt vb =
        (if in_pages (a + 4096) ?n vb then None else lookup (mem ?t) pt vb)"
      "\<forall>x. PGROUNDDOWN x \<notin> tpages 2 (mem ?t) pt \<union> set (freed do_free vs) \<longrightarrow> mem u x = mem ?t x"
    using Cons.IH [OF t1(1) page_aligned_add [OF Cons.prems(2)] len' _
        releasable_Cons(2) [OF Cons.prems(5) t1(2,3)]] Cons.prems(6)
    by (auto simp: algebra_simps)
  have fl: "PTE_FLAGS v \<noteq> PTE_V" using Cons.prems(5) by (simp add: releasable_def)
  have "a < end_a" using ue by (simp add: word_less_nat_alt)
  then have "uvmunmap_from pt a end_a do_free s = Ok () u"
    using w fl u(1) by (subst uvmunmap_from.simps) simp
  moreover have "freed do_free (v # vs) = freed do_free vs @ freed do_free [v]" by (simp add: freed_def)
  moreover have "lookup (mem u) pt vb =
      (if in_pages a (Suc ?n) vb then None else lookup (mem s) pt vb)" if "vb < MAXVA" for vb
    using u(5) t2 that ins by auto
  ultimately show ?case using u(2-4,6) t1 mem_only_trans [OF t1(2) u(3)] by auto
qed

end
