(* ===== verification/VmSpace.thy ===== *)
theory VmSpace
  imports VmMaps
begin

text \<open>
  User address spaces: growing and shrinking (\<open>uvmalloc\<close>, \<open>uvmdealloc\<close>), with the bookkeeping
  that no page is ever lost or used twice. \<open>uv_inv\<close> describes a loop that has mapped the fresh
  pages \<open>ps\<close>, in order, from the page boundary \<open>b\<close> on: the free list, the pages of the table and
  \<open>ps\<close> partition what the free list and the table had before.
\<close>

section \<open>One page\<close>

lemma page_bounds:
  assumes "page_aligned a" "a < MAXVA"
  shows "unat a + 4096 \<le> unat MAXVA"
proof -
  define k where "k = unat a div 4096"
  have k: "unat a = k * 4096"
    using assms(1) div_mult_mod_eq [of "unat a" 4096] by (simp add: page_aligned_def k_def)
  then have "k < 2 ^ 26" using assms(2) by (simp add: word_less_nat_alt MAXVA_def)
  then show ?thesis using k by (simp add: MAXVA_def)
qed

lemma last_byte_page:
  assumes "page_aligned a" "a < MAXVA"
  shows "PGROUNDDOWN (a + 4096 - 1) = a"
proof -
  have "a + 4096 - 1 = a + of_nat 4095" by simp
  moreover have "PGROUNDDOWN (a + of_nat 4095) = PGROUNDDOWN a"
    using assms(1) by (intro PGROUNDDOWN_add) (simp add: page_aligned_def)
  ultimately show ?thesis using PGROUNDDOWN_aligned [OF assms(1)] by (simp only:)
qed

lemma mappages_page:
  assumes "asp s pt fs" "page_aligned a" "a < MAXVA" "lookup (mem s) pt a = None"
  shows "\<exists>r t k. mappages pt a 4096 pa perm s = Ok r t \<and> evolves pt fs s k t \<and> k \<le> 2 \<and>
    (if r = 0 then \<forall>vb < MAXVA. lookup (mem t) pt vb =
        (if PGROUNDDOWN vb = a then Some (new_pte pa perm) else lookup (mem s) pt vb)
     else r = - 1 \<and> k = length fs \<and> length fs < 2 \<and>
       (\<forall>vb < MAXVA. lookup (mem t) pt vb = lookup (mem s) pt vb))"
proof -
  have none: "lookup (mem s) pt vb = None" if "in_pages a (Suc 0) vb" for vb
    using that in_pages_1 [OF assms(2)] assms(4) lookup_PGROUNDDOWN [of 2 "mem s" pt vb] by simp
  obtain r t k j where m: "mappages_from pt a a pa perm s = Ok r t" "evolves pt fs s k t" "k \<le> 2 * Suc 0"
    "\<forall>vb < MAXVA. lookup (mem t) pt vb =
       (if in_pages a j vb then Some (new_pte (pa + (PGROUNDDOWN vb - a)) perm) else lookup (mem s) pt vb)"
    "if r = 0 then j = Suc 0 else r = - 1 \<and> j \<le> 0 \<and> k = length fs \<and> length fs < 2 * Suc 0"
    using mappages_from_spec [OF assms(1,2), of 0 a pa perm] page_bounds [OF assms(2,3)] none by auto
  have "mappages pt a 4096 pa perm s = mappages_from pt a a pa perm s"
    using last_byte_page [OF assms(2,3)] PGROUNDDOWN_aligned [OF assms(2)] by (simp add: mappages_def)
  then show ?thesis using m in_pages_1 [OF assms(2)]
    by (intro exI [of _ r] exI [of _ t] exI [of _ k]) (auto split: if_splits)
qed

lemma alloc_page:
  assumes "asp s pt (p # fs)"
  shows "\<exists>s1. kalloc s = Ok p s1 \<and> ram_page s p \<and> p \<notin> tpages 2 (mem s) pt \<and> p \<notin> set fs \<and>
    asp s1 pt fs \<and> mem_only s s1 \<and> tpages 2 (mem s1) pt = tpages 2 (mem s) pt \<and>
    (\<forall>va. lookup (mem s1) pt va = lookup (mem s) pt va) \<and>
    (\<forall>x. PGROUNDDOWN x \<noteq> p \<longrightarrow> mem s1 x = mem s x)"
proof -
  have fp: "free_pages s (p # fs)" and ok: "table_ok 2 (mem s) pt"
    and dis: "set (p # fs) \<inter> tpages 2 (mem s) pt = {}" using assms by (auto simp: asp_def)
  obtain s1 where s1: "kalloc s = Ok p s1" "free_pages s1 fs"
      "\<forall>x. mem s1 x = (if PGROUNDDOWN x = p then 5 else mem s x)"
    using kalloc_free_pages [OF fp] by blast
  have same: "\<And>x. PGROUNDDOWN x \<in> tpages 2 (mem s) pt \<Longrightarrow> mem s1 x = mem s x" using s1(3) dis by auto
  have tp: "tpages 2 (mem s1) pt = tpages 2 (mem s) pt" by (rule tpages_frame [OF ok same])
  have "asp s1 pt fs" using table_ok_frame [OF ok same] s1(2) tp dis by (auto simp: asp_def)
  moreover have "ram_page s p" "p \<notin> set fs" "p \<notin> tpages 2 (mem s) pt"
    using fp dis by (auto simp: free_pages_def)
  moreover have "\<forall>va. lookup (mem s1) pt va = lookup (mem s) pt va"
    by (intro allI leaf_frame [OF ok same])
  moreover have "\<forall>x. PGROUNDDOWN x \<noteq> p \<longrightarrow> mem s1 x = mem s x" using s1(3) by simp
  ultimately show ?thesis using s1(1) tp touchesD [OF kalloc_frame s1(1)] by blast
qed

text \<open>Writing to a page outside the table and the free list.\<close>

lemma write_page:
  assumes "asp s pt fs" "p \<notin> tpages 2 (mem s) pt" "p \<notin> set fs"
    and "\<And>x. PGROUNDDOWN x \<noteq> p \<Longrightarrow> m x = mem s x"
  shows "asp (s\<lparr>mem := m\<rparr>) pt fs" "tpages 2 m pt = tpages 2 (mem s) pt"
    "lookup m pt va = lookup (mem s) pt va"
proof -
  have ok: "table_ok 2 (mem s) pt" and fp: "free_pages s fs"
    and dis: "set fs \<inter> tpages 2 (mem s) pt = {}" using assms(1) by (auto simp: asp_def)
  have same: "m x = mem s x" if "PGROUNDDOWN x \<in> tpages 2 (mem s) pt" for x
    using that assms(2) by (intro assms(4)) auto
  show tp: "tpages 2 m pt = tpages 2 (mem s) pt" by (rule tpages_frame [OF ok same])
  show "lookup m pt va = lookup (mem s) pt va" by (rule leaf_frame [OF ok same])
  have "m x = mem s x" if "PGROUNDDOWN x \<in> set fs" for x
    using that assms(3) by (intro assms(4)) auto
  then have "free_pages (s\<lparr>mem := m\<rparr>) fs" using fp by (auto elim: free_pages_frame)
  then show "asp (s\<lparr>mem := m\<rparr>) pt fs" using table_ok_frame [OF ok same] tp dis by (simp add: asp_def)
qed

lemma memset_zero_page: "page_aligned p \<Longrightarrow> zero_page (memset m p 0 PGSIZE) p"
  by (simp add: zero_page_def memset_page)

lemma zero_page_cong: "zero_page m p \<Longrightarrow> (\<And>x. PGROUNDDOWN x = p \<Longrightarrow> m' x = m x) \<Longrightarrow> zero_page m' p"
  by (simp add: zero_page_def)

section \<open>A loop that maps fresh pages\<close>

text \<open>The page that follows the \<open>ps\<close> already mapped gets permissions \<open>perm i\<close> and contents with
  property \<open>good i\<close>, \<open>i\<close> counting from 0. \<open>page_local good\<close>: the property looks at one page only.\<close>

definition page_index :: "uint64 \<Rightarrow> uint64 \<Rightarrow> nat" where
  "page_index b vb = (unat vb - unat b) div 4096"

definition page_local :: "(nat \<Rightarrow> memory \<Rightarrow> uint64 \<Rightarrow> bool) \<Rightarrow> bool" where
  "page_local good \<longleftrightarrow>
     (\<forall>i m m' p. good i m p \<longrightarrow> (\<forall>x. PGROUNDDOWN x = p \<longrightarrow> m' x = m x) \<longrightarrow> good i m' p)"

definition pages_owned ::
  "(nat \<Rightarrow> memory \<Rightarrow> uint64 \<Rightarrow> bool) \<Rightarrow> uint64 list \<Rightarrow> 'a kmem_st_scheme \<Rightarrow> uint64 \<Rightarrow>
     uint64 list \<Rightarrow> bool" where
  "pages_owned good ps s pt fs \<longleftrightarrow> distinct ps \<and>
     (\<forall>i < length ps. ram_page s (ps ! i) \<and> good i (mem s) (ps ! i) \<and>
        ps ! i \<notin> set fs \<union> tpages 2 (mem s) pt)"

definition uv_inv ::
  "'a kmem_st_scheme \<Rightarrow> uint64 list \<Rightarrow> uint64 \<Rightarrow> uint64 \<Rightarrow> (nat \<Rightarrow> uint64) \<Rightarrow>
     (nat \<Rightarrow> memory \<Rightarrow> uint64 \<Rightarrow> bool) \<Rightarrow> uint64 list \<Rightarrow> 'a kmem_st_scheme \<Rightarrow> uint64 list \<Rightarrow> bool" where
  "uv_inv s0 fs0 pt b perm good ps s fs \<longleftrightarrow>
     asp s pt fs \<and> mem_only s0 s \<and> pages_owned good ps s pt fs \<and>
     tpages 2 (mem s) pt \<union> set fs \<union> set ps = tpages 2 (mem s0) pt \<union> set fs0 \<and>
     (\<forall>vb < MAXVA. lookup (mem s) pt vb =
        (if in_pages b (length ps) vb
         then Some (new_pte (ps ! page_index b vb) (perm (page_index b vb)))
         else lookup (mem s0) pt vb)) \<and>
     (\<forall>x. PGROUNDDOWN x \<notin> tpages 2 (mem s0) pt \<union> set fs0 \<longrightarrow> mem s x = mem s0 x)"

lemma uv_inv_start: "asp s pt fs \<Longrightarrow> uv_inv s fs pt b perm good [] s fs"
  by (simp add: uv_inv_def pages_owned_def)

lemma uv_invD:
  assumes "uv_inv s0 fs0 pt b perm good ps s fs"
  shows "asp s pt fs" "mem_only s0 s" "pages_owned good ps s pt fs"
    "tpages 2 (mem s) pt \<union> set fs \<union> set ps = tpages 2 (mem s0) pt \<union> set fs0"
    "\<And>vb. vb < MAXVA \<Longrightarrow> lookup (mem s) pt vb =
      (if in_pages b (length ps) vb
       then Some (new_pte (ps ! page_index b vb) (perm (page_index b vb)))
       else lookup (mem s0) pt vb)"
    "\<And>x. PGROUNDDOWN x \<notin> tpages 2 (mem s0) pt \<union> set fs0 \<Longrightarrow> mem s x = mem s0 x"
  using assms by (auto simp: uv_inv_def)

lemma pages_owned_nth:
  assumes "pages_owned good ps s pt fs" "q \<in> set ps"
  shows "ram_page s q" "q \<notin> set fs" "q \<notin> tpages 2 (mem s) pt" "page_aligned q"
  using assms by (auto simp: pages_owned_def in_set_conv_nth ram_page_def)

lemma pages_owned_frame:
  assumes "pages_owned good ps s pt fs" "page_local good" "kend t = kend s"
    and "\<And>x. PGROUNDDOWN x \<in> set ps \<Longrightarrow> mem t x = mem s x"
    and "set ps \<inter> (set gs \<union> tpages 2 (mem t) pt) = {}"
  shows "pages_owned good ps t pt gs"
  unfolding pages_owned_def
proof (intro conjI allI impI)
  show "distinct ps" using assms(1) by (simp add: pages_owned_def)
  fix i assume i: "i < length ps"
  show "ram_page t (ps ! i)" using assms(1,3) i by (simp add: pages_owned_def ram_page_def)
  have "good i (mem s) (ps ! i)" using assms(1) i by (simp add: pages_owned_def)
  then show "good i (mem t) (ps ! i)"
    using assms(2,4) i unfolding page_local_def by (metis nth_mem)
  show "ps ! i \<notin> set gs \<union> tpages 2 (mem t) pt" using assms(5) i nth_mem by blast
qed

lemma pages_owned_snoc:
  assumes "pages_owned good ps s pt fs" "ram_page s p" "good (length ps) (mem s) p"
    and "p \<notin> set fs \<union> tpages 2 (mem s) pt" "p \<notin> set ps"
  shows "pages_owned good (ps @ [p]) s pt fs"
  using assms by (auto simp: pages_owned_def nth_append less_Suc_eq)

lemma page_addr:
  fixes b :: uint64
  assumes "unat b + 4096 * n \<le> 2 ^ 62"
  shows "unat (b + of_nat n * 4096) = unat b + 4096 * n"
proof -
  have "b + of_nat n * 4096 = of_nat (unat b + 4096 * n)" by (simp add: algebra_simps)
  moreover have "unat (of_nat (unat b + 4096 * n) :: uint64) = unat b + 4096 * n"
    using assms by (intro unat_of_nat_64) simp
  ultimately show ?thesis by (simp only:)
qed

lemma page_addr_aligned:
  "page_aligned b \<Longrightarrow> unat b + 4096 * n \<le> 2 ^ 62 \<Longrightarrow> page_aligned (b + of_nat n * 4096)"
  using page_addr [of b n] by (simp add: page_aligned_def mod_simps)

lemma in_pages_next:
  assumes "page_aligned b" "unat b + 4096 * n \<le> 2 ^ 62"
  shows "in_pages b (Suc n) vb \<longleftrightarrow> in_pages b n vb \<or> PGROUNDDOWN vb = b + of_nat n * 4096"
  using in_pages_1 [OF page_addr_aligned [OF assms], of vb] page_addr [OF assms(2)]
  by (auto simp: in_pages_def)

lemma page_index_bound: "in_pages b n vb \<Longrightarrow> page_index b vb < n"
  by (auto simp: in_pages_def page_index_def)

lemma page_index_next:
  assumes "page_aligned b" "unat b + 4096 * n \<le> 2 ^ 62" "PGROUNDDOWN vb = b + of_nat n * 4096"
  shows "page_index b vb = n"
proof -
  let ?a = "b + of_nat n * 4096"
  have "in_pages ?a 1 vb" using in_pages_1 [OF page_addr_aligned [OF assms(1,2)]] assms(3) by simp
  then have "unat b + 4096 * n \<le> unat vb" "unat vb < unat b + 4096 * n + 4096"
    using page_addr [OF assms(2)] by (auto simp: in_pages_def)
  then have "4096 * n \<le> unat vb - unat b" "unat vb - unat b < 4096 * Suc n" by auto
  then show ?thesis unfolding page_index_def by (intro div_nat_eqI) auto
qed

section \<open>One turn of the loop\<close>

text \<open>A page \<open>p\<close> is taken off the free list and filled; \<open>m\<close> is the memory afterwards.\<close>

lemma uv_take_page:
  assumes inv: "uv_inv s0 fs0 pt b perm good ps s (p # fs)" and loc: "page_local good"
    and k: "kalloc s = Ok p s1"
    and m: "\<And>x. PGROUNDDOWN x \<noteq> p \<Longrightarrow> m x = mem s1 x"
    and ev: "evolves pt fs (s1\<lparr>mem := m\<rparr>) j t"
  shows "ram_page t p" "p \<notin> set (drop j fs) \<union> tpages 2 (mem t) pt" "p \<notin> set ps" "mem_only s0 t"
    "\<And>x. PGROUNDDOWN x = p \<Longrightarrow> mem t x = m x"
    "pages_owned good ps t pt (drop j fs)"
    "tpages 2 (mem t) pt \<union> set (drop j fs) \<union> insert p (set ps) = tpages 2 (mem s0) pt \<union> set fs0"
    "\<And>x. PGROUNDDOWN x \<notin> tpages 2 (mem s0) pt \<union> set fs0 \<Longrightarrow> mem t x = mem s0 x"
proof -
  note inv = uv_invD [OF inv]
  from k obtain s1: "ram_page s p" "p \<notin> tpages 2 (mem s) pt" "p \<notin> set fs" "mem_only s s1"
      "asp s1 pt fs" "tpages 2 (mem s1) pt = tpages 2 (mem s) pt"
      "\<forall>x. PGROUNDDOWN x \<noteq> p \<longrightarrow> mem s1 x = mem s x"
    using alloc_page [OF inv(1)] by auto
  have pn: "p \<notin> tpages 2 (mem s1) pt" using s1(2,6) by simp
  have tp: "tpages 2 m pt = tpages 2 (mem s) pt" using write_page(2) [OF s1(5) pn s1(3) m] s1(6) by simp
  have m2: "m x = mem s x" if "PGROUNDDOWN x \<noteq> p" for x using m [OF that] s1(7) that by simp
  have ev': "mem_only s1 t" "tpages 2 (mem t) pt = tpages 2 (mem s) pt \<union> set (take j fs)"
      "\<And>x. PGROUNDDOWN x \<notin> tpages 2 (mem s) pt \<union> set (take j fs) \<Longrightarrow> mem t x = m x"
    using ev tp by (auto simp: evolves_def)
  have fsk: "set (take j fs) \<union> set (drop j fs) = set fs" by (metis append_take_drop_id set_append)
  have ps: "q \<notin> tpages 2 (mem s) pt" "q \<notin> set fs" "q \<noteq> p" if "q \<in> set ps" for q
    using pages_owned_nth [OF inv(3) that] by auto
  show pps: "p \<notin> set ps" using ps(3) by blast
  show "ram_page t p" using s1(1,4) ev'(1) by (simp add: ram_page_def mem_only_def)
  show "p \<notin> set (drop j fs) \<union> tpages 2 (mem t) pt" using s1(2,3) ev'(2) fsk by blast
  show "mem_only s0 t" using inv(2) s1(4) ev'(1) by (simp add: mem_only_def)
  show "mem t x = m x" if "PGROUNDDOWN x = p" for x
    using that s1(2,3) fsk by (intro ev'(3)) auto
  have keep: "mem t x = mem s x" if "PGROUNDDOWN x \<in> set ps" for x
  proof -
    have "mem t x = m x" using ps [OF that] fsk by (intro ev'(3)) auto
    then show ?thesis using m2 ps(3) [OF that] by simp
  qed
  have "set ps \<inter> (set (drop j fs) \<union> tpages 2 (mem t) pt) = {}" using ps ev'(2) fsk by blast
  then show "pages_owned good ps t pt (drop j fs)"
    using s1(4) ev'(1) keep by (intro pages_owned_frame [OF inv(3) loc]) (auto simp: mem_only_def)
  show "tpages 2 (mem t) pt \<union> set (drop j fs) \<union> insert p (set ps) = tpages 2 (mem s0) pt \<union> set fs0"
    using inv(4) ev'(2) fsk by auto
  show "mem t x = mem s0 x" if "PGROUNDDOWN x \<notin> tpages 2 (mem s0) pt \<union> set fs0" for x
  proof -
    have "PGROUNDDOWN x \<notin> tpages 2 (mem s) pt \<union> set fs" "PGROUNDDOWN x \<noteq> p" using that inv(4) by auto
    then show ?thesis using ev'(3) [of x] m2 [of x] inv(6) [OF that] fsk by auto
  qed
qed

text \<open>Giving the page back when it could not be mapped.\<close>

lemma uv_give_back:
  assumes "asp t pt gs" "ram_page t p" "p \<notin> set gs \<union> tpages 2 (mem t) pt" "p \<notin> set ps" "mem_only s0 t"
    and owned: "pages_owned good ps t pt gs" and loc: "page_local good"
    and part: "tpages 2 (mem t) pt \<union> set gs \<union> insert p (set ps) = tpages 2 (mem s0) pt \<union> set fs0"
    and lk: "\<And>vb. vb < MAXVA \<Longrightarrow> lookup (mem t) pt vb =
      (if in_pages b (length ps) vb
       then Some (new_pte (ps ! page_index b vb) (perm (page_index b vb)))
       else lookup (mem s0) pt vb)"
    and out: "\<And>x. PGROUNDDOWN x \<notin> tpages 2 (mem s0) pt \<union> set fs0 \<Longrightarrow> mem t x = mem s0 x"
  shows "\<exists>u. kfree p t = Ok () u \<and> uv_inv s0 fs0 pt b perm good ps u (p # gs)"
proof -
  obtain u where u: "kfree p t = Ok () u" "asp u pt (p # gs)" "mem_only t u"
      "tpages 2 (mem u) pt = tpages 2 (mem t) pt"
      "\<forall>va. lookup (mem u) pt va = lookup (mem t) pt va"
      "\<forall>x. PGROUNDDOWN x \<noteq> p \<longrightarrow> mem u x = mem t x"
    using free_outside_table [OF assms(1-3)] by blast
  have "pages_owned good ps u pt (p # gs)"
  proof (rule pages_owned_frame [OF owned loc])
    show "kend u = kend t" using u(3) by (simp add: mem_only_def)
    show "mem u x = mem t x" if "PGROUNDDOWN x \<in> set ps" for x using that u(6) assms(4) by auto
    show "set ps \<inter> (set (p # gs) \<union> tpages 2 (mem u) pt) = {}"
      using pages_owned_nth(2,3) [OF owned] assms(4) u(4) by auto
  qed
  moreover have "mem u x = mem s0 x" if "PGROUNDDOWN x \<notin> tpages 2 (mem s0) pt \<union> set fs0" for x
    using out [OF that] u(6) part that by auto
  moreover have "mem_only s0 u" using assms(5) u(3) by (rule mem_only_trans)
  ultimately have "uv_inv s0 fs0 pt b perm good ps u (p # gs)"
    unfolding uv_inv_def using u lk part by auto
  then show ?thesis using u(1) by blast
qed

lemma uv_step:
  assumes inv: "uv_inv s0 fs0 pt b perm good ps s (p # fs)" and loc: "page_local good"
    and b: "page_aligned b" and len: "unat b + 4096 * Suc (length ps) \<le> unat MAXVA"
    and none: "lookup (mem s0) pt (b + of_nat (length ps) * 4096) = None"
    and k: "kalloc s = Ok p s1" and m: "\<And>x. PGROUNDDOWN x \<noteq> p \<Longrightarrow> m x = mem s1 x"
    and good: "good (length ps) m p"
  shows "\<exists>r t j. mappages pt (b + of_nat (length ps) * 4096) 4096 p (perm (length ps)) (s1\<lparr>mem := m\<rparr>) =
      Ok r t \<and> j \<le> 2 \<and>
    (if r = 0 then uv_inv s0 fs0 pt b perm good (ps @ [p]) t (drop j fs)
     else r < 0 \<and> length fs < 2 \<and>
       (\<exists>u. kfree p t = Ok () u \<and> uv_inv s0 fs0 pt b perm good ps u (p # drop j fs)))"
proof -
  let ?n = "length ps"
  let ?a = "b + of_nat ?n * 4096"
  have bound: "unat b + 4096 * ?n \<le> 2 ^ 62" using len by (simp add: MAXVA_def)
  note ua = page_addr [OF bound] and al = page_addr_aligned [OF b bound]
  have a: "?a < MAXVA" using len ua by (simp add: word_less_nat_alt)
  note lk = uv_invD(5) [OF inv]
  from k obtain s1: "p \<notin> tpages 2 (mem s1) pt" "p \<notin> set fs" "asp s1 pt fs"
      "\<forall>va. lookup (mem s1) pt va = lookup (mem s) pt va"
    using alloc_page [OF uv_invD(1) [OF inv]] by auto
  note wp = write_page [OF s1(3,1,2) m]
  have same: "lookup m pt va = lookup (mem s) pt va" for va using wp(3) s1(4) by simp
  have noneS: "lookup (mem (s1\<lparr>mem := m\<rparr>)) pt ?a = None"
    using same lk [OF a] none ua by (simp add: in_pages_def)
  obtain r t j where mp: "mappages pt ?a 4096 p (perm ?n) (s1\<lparr>mem := m\<rparr>) = Ok r t"
    "evolves pt fs (s1\<lparr>mem := m\<rparr>) j t" "j \<le> 2"
    "if r = 0 then \<forall>vb < MAXVA. lookup (mem t) pt vb =
        (if PGROUNDDOWN vb = ?a then Some (new_pte p (perm ?n)) else lookup (mem (s1\<lparr>mem := m\<rparr>)) pt vb)
     else r = - 1 \<and> j = length fs \<and> length fs < 2 \<and>
       (\<forall>vb < MAXVA. lookup (mem t) pt vb = lookup (mem (s1\<lparr>mem := m\<rparr>)) pt vb)"
    using mappages_page [OF wp(1) al a noneS] by blast
  note tk = uv_take_page [OF inv loc k m mp(2)]
  note asp = evolves_asp [OF mp(2)]
  show ?thesis
  proof (cases "r = 0")
    case True
    have "lookup (mem t) pt vb = (if in_pages b (Suc ?n) vb
        then Some (new_pte ((ps @ [p]) ! page_index b vb) (perm (page_index b vb)))
        else lookup (mem s0) pt vb)"
      if "vb < MAXVA" for vb
      using mp(4) True that same lk [OF that] in_pages_next [OF b bound, of vb]
        page_index_next [OF b bound, of vb] page_index_bound [of b ?n vb] by (auto simp: nth_append)
    moreover have "good ?n (mem t) p" using good loc tk(5) unfolding page_local_def by blast
    ultimately have "uv_inv s0 fs0 pt b perm good (ps @ [p]) t (drop j fs)"
      unfolding uv_inv_def using asp tk pages_owned_snoc [OF tk(6,1) _ tk(2,3)] by auto
    then show ?thesis using mp(1,3) True by auto
  next
    case False
    then have f: "r = - 1" "length fs < 2" "\<And>vb. vb < MAXVA \<Longrightarrow> lookup (mem t) pt vb = lookup (mem s) pt vb"
      using mp(4) same by auto
    have "\<exists>u. kfree p t = Ok () u \<and> uv_inv s0 fs0 pt b perm good ps u (p # drop j fs)"
      using f(3) lk by (intro uv_give_back [OF asp tk(1-4,6) loc tk(7) _ tk(8)]) auto
    then show ?thesis using mp(1,3) f by auto
  qed
qed

section \<open>Undoing and the whole loop\<close>

lemma int_page_count:
  fixes w :: uint64
  assumes "unat w < 2 ^ 31"
  shows "scast (ucast w :: uint32) = w"
proof -
  have "w = take_bit 31 w"
    using assms by (simp add: word_unat_eq_iff unsigned_take_bit_eq take_bit_nat_eq_self)
  then have hi: "\<not> bit w n" if "31 \<le> n" for n using that by (metis bit_take_bit_iff not_le)
  show ?thesis
    by (rule bit_eqI) (auto simp: bit_simps min_def hi)
qed

lemma PGROUNDUP_aligned:
  assumes "page_aligned a" "unat a < 2 ^ 62"
  shows "PGROUNDUP a = a"
proof -
  have k: "unat a = unat a div 4096 * 4096"
    using assms(1) div_mult_mod_eq [of "unat a" 4096] by (simp add: page_aligned_def)
  have "unat (PGROUNDUP a) = (unat a + 4095) div 4096 * 4096"
    using assms(2) by (intro unat_PGROUNDUP) simp
  also have "(unat a + 4095) div 4096 = unat a div 4096" by (subst k) simp
  finally show ?thesis using k by (simp add: word_unat_eq_iff)
qed

lemma mapped_nth:
  "mapped m pt a vs \<longleftrightarrow> (\<forall>i < length vs. lookup m pt (a + of_nat i * 4096) = Some (vs ! i))"
proof (induction vs arbitrary: a)
  case Nil
  then show ?case by simp
next
  case (Cons v vs)
  have "(\<forall>i < length vs. lookup m pt (a + 4096 + of_nat i * 4096) = Some (vs ! i)) \<longleftrightarrow>
      (\<forall>i < length vs. lookup m pt (a + of_nat (Suc i) * 4096) = Some ((v # vs) ! Suc i))"
    by (simp add: algebra_simps)
  then show ?case using Cons.IH [of "a + 4096"] by (simp only: mapped.simps All_less_Suc2 length_Cons) simp
qed

definition leaf_perm :: "uint64 \<Rightarrow> bool" where
  "leaf_perm perm \<longleftrightarrow> perm < 1024 \<and> perm OR PTE_V < 1024 \<and> perm OR PTE_V \<noteq> PTE_V"

lemma new_pte_leaf:
  assumes "leaf_perm perm" "page_aligned p"
  shows "PTE2PA (new_pte p perm) = p" "PTE_FLAGS (new_pte p perm) \<noteq> PTE_V"
    "PTE_FLAGS (new_pte p perm) = perm OR PTE_V"
  using assms PTE2PA_PA2PTE [of p "perm OR PTE_V"] PTE_FLAGS_PA2PTE [of "perm OR PTE_V" p]
  by (simp_all add: leaf_perm_def new_pte_def or.assoc)

definition entries :: "(nat \<Rightarrow> uint64) \<Rightarrow> uint64 list \<Rightarrow> uint64 list" where
  "entries perm ps = map (\<lambda>i. new_pte (ps ! i) (perm i)) [0..<length ps]"

lemma length_entries [simp]: "length (entries perm ps) = length ps"
  by (simp add: entries_def)

lemma PTE2PA_entries:
  assumes "\<And>i. i < length ps \<Longrightarrow> leaf_perm (perm i)" "\<And>p. p \<in> set ps \<Longrightarrow> page_aligned p"
  shows "map PTE2PA (entries perm ps) = ps"
    "\<And>v. v \<in> set (entries perm ps) \<Longrightarrow> PTE_FLAGS v \<noteq> PTE_V"
proof -
  show "map PTE2PA (entries perm ps) = ps"
    using assms new_pte_leaf(1) by (intro nth_equalityI) (auto simp: entries_def)
  show "PTE_FLAGS v \<noteq> PTE_V" if "v \<in> set (entries perm ps)" for v
    using that assms new_pte_leaf(2) by (auto simp: entries_def)
qed

lemma uv_mapped:
  assumes "uv_inv s0 fs0 pt b perm good ps s fs" "page_aligned b"
    and "unat b + 4096 * length ps \<le> unat MAXVA"
  shows "mapped (mem s) pt b (entries perm ps)"
  unfolding mapped_nth
proof (intro allI impI)
  fix i assume "i < length (entries perm ps)"
  then have i: "i < length ps" by simp
  have bound: "unat b + 4096 * i \<le> 2 ^ 62" using assms(3) i by (simp add: MAXVA_def)
  note ua = page_addr [OF bound]
  have "in_pages b (length ps) (b + of_nat i * 4096)" using i ua by (simp add: in_pages_def)
  moreover have "page_index b (b + of_nat i * 4096) = i" using ua by (simp add: page_index_def)
  moreover have "b + of_nat i * 4096 < MAXVA" using ua i assms(3) by (simp add: word_less_nat_alt)
  ultimately show "lookup (mem s) pt (b + of_nat i * 4096) = Some (entries perm ps ! i)"
    using uv_invD(5) [OF assms(1)] i by (simp add: entries_def)
qed

lemma uv_unmap:
  assumes inv: "uv_inv s0 fs0 pt b perm good ps s fs" and b: "page_aligned b"
    and len: "unat b + 4096 * length ps \<le> unat MAXVA"
    and perm: "\<And>i. i < length ps \<Longrightarrow> leaf_perm (perm i)"
    and none: "\<And>vb. in_pages b (length ps) vb \<Longrightarrow> lookup (mem s0) pt vb = None"
  shows "\<exists>t. uvmunmap pt b (of_nat (length ps)) True s = Ok () t \<and>
    uv_inv s0 fs0 pt b perm good [] t (rev ps @ fs)"
proof -
  let ?vs = "entries perm ps" and ?a = "b + of_nat (length ps) * 4096"
  note inv' = uv_invD [OF inv]
  note pn = pages_owned_nth [OF inv'(3)]
  have vs: "map PTE2PA ?vs = ps" "\<And>v. v \<in> set ?vs \<Longrightarrow> PTE_FLAGS v \<noteq> PTE_V"
    using PTE2PA_entries [OF perm pn(4)] by auto
  have "PTE2PA v \<in> set ps" if "v \<in> set ?vs" for v using vs(1) that by (metis imageI list.set_map)
  then have rel: "releasable True s pt fs ?vs"
    using vs pn inv'(3) by (auto simp: releasable_def pages_owned_def)
  have fr: "freed True ?vs = rev ps" using vs(1) by (simp add: freed_def)
  obtain t where t: "uvmunmap_from pt b ?a True s = Ok () t" "asp t pt (rev ps @ fs)"
      "mem_only s t" "tpages 2 (mem t) pt = tpages 2 (mem s) pt"
      "\<forall>vb < MAXVA. lookup (mem t) pt vb =
        (if in_pages b (length ps) vb then None else lookup (mem s) pt vb)"
      "\<forall>x. PGROUNDDOWN x \<notin> tpages 2 (mem s) pt \<union> set (rev ps) \<longrightarrow> mem t x = mem s x"
    using uvmunmap_from_spec [OF inv'(1) b _ uv_mapped [OF inv b len] rel, of ?a] len fr by auto
  have "uv_inv s0 fs0 pt b perm good [] t (rev ps @ fs)"
    unfolding uv_inv_def
  proof (intro conjI)
    show "asp t pt (rev ps @ fs)" "mem_only s0 t" using t(2,3) inv'(2) by (auto intro: mem_only_trans)
    show "pages_owned good [] t pt (rev ps @ fs)" by (simp add: pages_owned_def)
    show "tpages 2 (mem t) pt \<union> set (rev ps @ fs) \<union> set [] = tpages 2 (mem s0) pt \<union> set fs0"
      using t(4) inv'(4) by auto
    show "\<forall>vb < MAXVA. lookup (mem t) pt vb = (if in_pages b (length []) vb
        then Some (new_pte ([] ! page_index b vb) (perm (page_index b vb))) else lookup (mem s0) pt vb)"
      using t(5) none inv'(5) by simp
    show "\<forall>x. PGROUNDDOWN x \<notin> tpages 2 (mem s0) pt \<union> set fs0 \<longrightarrow> mem t x = mem s0 x"
      using t(6) inv'(4,6) by auto
  qed
  moreover have "uvmunmap pt b (of_nat (length ps)) True s = Ok () t"
    using t(1) b by (simp add: uvmunmap_def page_aligned_mod)
  ultimately show ?thesis by blast
qed

lemma uvmdealloc_uvmunmap:
  assumes "page_aligned b" "unat b + 4096 * n \<le> unat MAXVA" "0 < n"
  shows "uvmdealloc pt (b + of_nat n * 4096) b s =
    bindR (uvmunmap pt b (of_nat n) True s) (\<lambda>_ s. Ok b s)"
proof -
  let ?a = "b + of_nat n * 4096"
  have bound: "unat b + 4096 * n \<le> 2 ^ 62" using assms(2) by (simp add: MAXVA_def)
  note ua = page_addr [OF bound]
  have "?a - b = of_nat (4096 * n)" by simp
  then have "unat (?a - b) = 4096 * n" using bound by (simp only:) (intro unat_of_nat_64, simp)
  then have cnt: "(?a - b) div 4096 = of_nat n"
    by (simp add: word_unat_eq_iff unat_div)
      (use bound in \<open>simp add: take_bit_nat_eq_self unat_of_nat\<close>)
  have "unat (of_nat n :: uint64) < 2 ^ 31" using assms(2) by (simp add: MAXVA_def)
  then have sc: "scast (ucast (of_nat n :: uint64) :: uint32) = (of_nat n :: uint64)"
    by (rule int_page_count)
  have up: "PGROUNDUP b = b" "PGROUNDUP ?a = ?a"
    using assms(1) page_addr_aligned [OF assms(1) bound] ua assms(2)
    by (auto intro!: PGROUNDUP_aligned simp: MAXVA_def)
  have lt: "b < ?a" using ua assms(3) by (simp add: word_less_nat_alt)
  then have nle: "\<not> ?a \<le> b" by (simp only: not_le)
  show ?thesis using lt nle up cnt sc by (simp add: uvmdealloc_def Let_def)
qed

lemma uv_undo:
  assumes inv: "uv_inv s0 fs0 pt b perm good ps s fs" and b: "page_aligned b"
    and len: "unat b + 4096 * length ps \<le> unat MAXVA"
    and perm: "\<And>i. i < length ps \<Longrightarrow> leaf_perm (perm i)"
    and none: "\<And>vb. in_pages b (length ps) vb \<Longrightarrow> lookup (mem s0) pt vb = None"
  shows "\<exists>r t. uvmdealloc pt (b + of_nat (length ps) * 4096) b s = Ok r t \<and>
    uv_inv s0 fs0 pt b perm good [] t (rev ps @ fs)"
proof (cases "ps = []")
  case True
  then show ?thesis using inv by (simp add: uvmdealloc_def)
next
  case False
  then have "0 < length ps" by simp
  then show ?thesis
    using uvmdealloc_uvmunmap [OF b len, of pt s] uv_unmap [OF inv b len perm none] by auto
qed

definition pages_needed :: "uint64 \<Rightarrow> uint64 \<Rightarrow> nat" where
  "pages_needed a newsz = (unat newsz - unat a + 4095) div 4096"

lemma pages_needed_0: "\<not> a < newsz \<Longrightarrow> pages_needed a newsz = 0"
  by (simp add: pages_needed_def not_less word_le_nat_alt)

lemma pages_needed_Suc:
  assumes "a < newsz" "unat a + 4096 < 2 ^ 64"
  shows "pages_needed a newsz = Suc (pages_needed (a + 4096) newsz)"
proof -
  have ua: "unat (a + 4096) = unat a + 4096" using assms(2) by (simp add: unat_word_ariths)
  have lt: "unat a < unat newsz" using assms(1) by (simp add: word_less_nat_alt)
  show ?thesis
  proof (cases "unat newsz \<le> unat a + 4096")
    case True
    then have "(unat newsz - unat a + 4095) div 4096 = 1" using lt by (intro div_nat_eqI) auto
    then show ?thesis using True ua by (simp add: pages_needed_def)
  next
    case False
    define d where "d = unat newsz - (unat a + 4096)"
    have "unat newsz - unat a + 4095 = (d + 4095) + 4096" using False by (simp add: d_def)
    then have "(unat newsz - unat a + 4095) div 4096 = Suc ((d + 4095) div 4096)" by simp
    then show ?thesis by (simp only: pages_needed_def ua d_def)
  qed
qed

lemma page_local_zero: "page_local (\<lambda>i m p. zero_page m p)"
  by (simp add: page_local_def zero_page_def)

lemma uvmalloc_from_spec:
  fixes s0 :: "'a kmem_st_scheme" and xperm :: uint64
  defines "perm \<equiv> \<lambda>i :: nat. PTE_R OR PTE_U OR xperm" and "zero \<equiv> \<lambda>(i :: nat) m p. zero_page m p"
  assumes "uv_inv s0 fs0 pt b perm zero ps s fs" and b: "page_aligned b"
    and leaf: "leaf_perm (PTE_R OR PTE_U OR xperm)"
    and "n = pages_needed (b + of_nat (length ps) * 4096) newsz"
    and "unat b + 4096 * (length ps + n) \<le> unat MAXVA"
    and "\<And>vb. in_pages b (length ps + n) vb \<Longrightarrow> lookup (mem s0) pt vb = None"
  shows "\<exists>r t qs fs'. uvmalloc_from pt b (b + of_nat (length ps) * 4096) newsz xperm s = Ok r t \<and>
    uv_inv s0 fs0 pt b perm zero qs t fs' \<and>
    (r = newsz \<and> length qs = length ps + n \<or> r = 0 \<and> qs = [] \<and> length fs < 3 * n)"
  using assms(3,6-8)
proof (induction n arbitrary: ps s fs)
  case 0
  then have "\<not> b + of_nat (length ps) * 4096 < newsz"
    using pages_needed_Suc [of "b + of_nat (length ps) * 4096" newsz]
      page_addr [of b "length ps"] by (auto simp: MAXVA_def)
  then have "uvmalloc_from pt b (b + of_nat (length ps) * 4096) newsz xperm s = Ok newsz s"
    by (subst uvmalloc_from.simps) simp
  then show ?case using 0 by auto
next
  case (Suc n)
  let ?l = "length ps"
  let ?a = "b + of_nat ?l * 4096"
  have lt: "?a < newsz" using Suc.prems(2) pages_needed_0 by (metis nat.distinct(1))
  have bl: "unat b + 4096 * ?l \<le> 2 ^ 62" using Suc.prems(3) by (simp add: MAXVA_def)
  note ua = page_addr [OF bl]
  have l1: "unat b + 4096 * Suc ?l \<le> unat MAXVA" and l0: "unat b + 4096 * ?l \<le> unat MAXVA"
    using Suc.prems(3) by auto
  have lp: "leaf_perm (perm i)" for i using leaf by (simp add: perm_def)
  have none_a: "lookup (mem s0) pt ?a = None" using ua by (intro Suc.prems(4)) (simp add: in_pages_def)
  have none_l: "lookup (mem s0) pt vb = None" if "in_pages b ?l vb" for vb
    using that by (intro Suc.prems(4)) (auto simp: in_pages_def)
  show ?case
  proof (cases fs)
    case Nil
    then have k: "kalloc s = Ok 0 s"
      using uv_invD(1) [OF Suc.prems(1)] by (intro kalloc_None) (simp add: asp_def)
    obtain r t where d: "uvmdealloc pt ?a b s = Ok r t" "uv_inv s0 fs0 pt b perm zero [] t (rev ps @ fs)"
      using uv_undo [OF Suc.prems(1) b l0 lp none_l] by blast
    have "uvmalloc_from pt b ?a newsz xperm s = Ok 0 t"
      using lt k d(1) by (subst uvmalloc_from.simps) simp
    then show ?thesis using d(2) Nil
      by (intro exI [of _ 0] exI [of _ t] exI [of _ "[]"] exI [of _ "rev ps @ fs"]) auto
  next
    case (Cons p fs')
    note inv = Suc.prems(1) [unfolded Cons]
    obtain s1 where k: "kalloc s = Ok p s1" "ram_page s p" using alloc_page [OF uv_invD(1) [OF inv]] by blast
    let ?m = "memset (mem s1) p 0 PGSIZE"
    have pal: "page_aligned p" and p0: "p \<noteq> 0" using k(2) by (auto simp: ram_page_def)
    have fill: "zero ?l ?m p" "\<And>x. PGROUNDDOWN x \<noteq> p \<Longrightarrow> ?m x = mem s1 x"
      using memset_zero_page [OF pal] pal by (simp_all add: zero_def memset_page)
    obtain r t j where st: "mappages pt ?a 4096 p (perm ?l) (s1\<lparr>mem := ?m\<rparr>) = Ok r t" "j \<le> 2"
      "if r = 0 then uv_inv s0 fs0 pt b perm zero (ps @ [p]) t (drop j fs')
       else r < 0 \<and> length fs' < 2 \<and>
         (\<exists>u. kfree p t = Ok () u \<and> uv_inv s0 fs0 pt b perm zero ps u (p # drop j fs'))"
      using uv_step [OF inv page_local_zero [folded zero_def] b l1 none_a k(1) fill(2,1)] by blast
    show ?thesis
    proof (cases "r = 0")
      case True
      have next_a: "b + of_nat (length (ps @ [p])) * 4096 = ?a + 4096" by (simp add: algebra_simps)
      have n: "n = pages_needed (?a + 4096) newsz"
        using pages_needed_Suc [OF lt] ua l1 Suc.prems(2) by (simp add: MAXVA_def)
      have inv1: "uv_inv s0 fs0 pt b perm zero (ps @ [p]) t (drop j fs')" using st(3) True by simp
      have bd: "unat b + 4096 * (length (ps @ [p]) + n) \<le> unat MAXVA" using Suc.prems(3) by simp
      have none1: "lookup (mem s0) pt vb = None" if "in_pages b (length (ps @ [p]) + n) vb" for vb
        using that by (intro Suc.prems(4)) simp
      obtain r' u qs gs where u: "uvmalloc_from pt b (?a + 4096) newsz xperm t = Ok r' u"
          "uv_inv s0 fs0 pt b perm zero qs u gs"
          "r' = newsz \<and> length qs = length (ps @ [p]) + n \<or> r' = 0 \<and> qs = [] \<and> length (drop j fs') < 3 * n"
        using Suc.IH [OF inv1, unfolded next_a, OF n bd] none1 by blast
      have "uvmalloc_from pt b ?a newsz xperm s = Ok r' u"
        using lt k(1) p0 st(1) True u(1) by (subst uvmalloc_from.simps) (simp add: perm_def)
      then show ?thesis using u(2,3) st(2) Cons
        by (intro exI [of _ r'] exI [of _ u] exI [of _ qs] exI [of _ gs]) auto
    next
      case False
      then obtain u where u: "kfree p t = Ok () u" "uv_inv s0 fs0 pt b perm zero ps u (p # drop j fs')"
          "length fs' < 2" using st(3) by auto
      obtain r' v where d: "uvmdealloc pt ?a b u = Ok r' v"
          "uv_inv s0 fs0 pt b perm zero [] v (rev ps @ p # drop j fs')"
        using uv_undo [OF u(2) b l0 lp none_l] by blast
      have "uvmalloc_from pt b ?a newsz xperm s = Ok 0 v"
        using lt k(1) p0 st(1) False u(1) d(1) by (subst uvmalloc_from.simps) (simp add: perm_def)
      then show ?thesis using d(2) u(3) Cons
        by (intro exI [of _ 0] exI [of _ v] exI [of _ "[]"] exI [of _ "rev ps @ p # drop j fs'"]) auto
    qed
  qed
qed

lemma pages_needed_bound:
  assumes "page_aligned b" "unat newsz \<le> unat MAXVA" "b \<le> MAXVA"
  shows "unat b + 4096 * pages_needed b newsz \<le> unat MAXVA"
proof (cases "unat newsz \<le> unat b")
  case True
  then show ?thesis using assms(3) by (simp add: pages_needed_def word_le_nat_alt)
next
  case False
  define k where "k = unat b div 4096"
  have k: "unat b = 4096 * k"
    using assms(1) mult_div_mod_eq [of 4096 "unat b"] by (simp add: page_aligned_def k_def)
  have "unat newsz - unat b + 4095 < 4096 * (2 ^ 26 - k) + 4096"
    using assms(2) False k by (simp add: MAXVA_def)
  then have "pages_needed b newsz \<le> 2 ^ 26 - k"
    by (simp add: pages_needed_def less_Suc_eq_le [symmetric] div_less_iff_less_mult)
  then have "4096 * pages_needed b newsz \<le> 4096 * (2 ^ 26 - k)" by simp
  moreover have "k \<le> 2 ^ 26" using assms(3) k by (simp add: word_le_nat_alt MAXVA_def)
  ultimately show ?thesis using k by (simp add: MAXVA_def)
qed

section \<open>Concrete address spaces\<close>

text \<open>A state with an empty root table and a given list of free pages, for the witnesses.\<close>

lemma fresh_asp:
  assumes "distinct (root # ps)"
    and "\<forall>p \<in> set (root # ps). page_aligned p \<and> 0x80021000 \<le> p \<and> p < PHYSTOP"
  shows "\<exists>s :: kmem_st. kend s = 0x80021000 \<and> asp s root ps \<and> (\<forall>va. lookup (mem s) root va = None) \<and>
    tpages 2 (mem s) root = {root}"
proof -
  have nz: "p \<noteq> 0" if "p \<in> set (root # ps)" for p using assms(2) that by force
  have "\<exists>s :: kmem_st. kend s = 0x80021000 \<and> free_pages s ps \<and> zero_page (mem s) root"
    using assms nz
  proof (induction ps)
    case Nil
    show ?case
      by (intro exI [of _ "\<lparr>mem = \<lambda>_. 0, kend = 0x80021000, freelist = 0\<rparr>"])
        (simp add: free_pages_def zero_page_def)
  next
    case (Cons p ps)
    obtain s :: kmem_st where s: "kend s = 0x80021000" "free_pages s ps" "zero_page (mem s) root"
      using Cons.IH Cons.prems by auto
    have "ram_page s p" using Cons.prems(2,3) s(1) by (simp add: ram_page_def)
    then obtain t :: kmem_st where t: "free_pages t (p # ps)" "kend t = kend s"
        "\<forall>x. PGROUNDDOWN x \<noteq> p \<longrightarrow> mem t x = mem s x"
      using kfree_free_pages [OF s(2), of p] Cons.prems(1) by auto
    have "zero_page (mem t) root" using s(3) t(3) Cons.prems(1) by (auto simp: zero_page_def)
    then show ?case using t s(1) by auto
  qed
  then obtain s :: kmem_st where s: "kend s = 0x80021000" "free_pages s ps" "zero_page (mem s) root" by blast
  have r: "page_aligned root" "root \<noteq> 0" using assms(2) nz by auto
  note z = zero_table [OF s(3) r]
  have "asp s root ps" using s(2) z(1,2) assms(1) by (simp add: asp_def)
  then show ?thesis using s(1) z(2,3) by blast
qed

section \<open>Properties\<close>

text \<open>C7: \<open>mappages\<close> maps exactly the pages that the byte range touches. On an address space whose
  pages in the range are unmapped it never panics; when it answers 0, every page of the range
  translates to the corresponding page from \<open>pa\<close> on with the given permissions, and every other
  translation is unchanged; when it answers -1, memory has run out (fewer than two free pages per page
  to map) and a prefix is mapped. Page-table pages come off the free list and nothing else changes.\<close>

theorem mappages_maps_exactly:
  assumes "asp s pt fs" "0 < nbytes" "unat va + unat nbytes \<le> unat MAXVA"
    and n: "n = (unat va + unat nbytes - 1) div 4096 - unat va div 4096"
    and "\<And>vb. in_pages (PGROUNDDOWN va) (Suc n) vb \<Longrightarrow> lookup (mem s) pt vb = None"
  shows "\<exists>r t k j. mappages pt va nbytes pa perm s = Ok r t \<and> evolves pt fs s k t \<and> j \<le> Suc n \<and>
    (\<forall>vb < MAXVA. lookup (mem t) pt vb =
       (if in_pages (PGROUNDDOWN va) j vb
        then Some (new_pte (pa + (PGROUNDDOWN vb - PGROUNDDOWN va)) perm)
        else lookup (mem s) pt vb)) \<and>
    (if r = 0 then j = Suc n else r = - 1 \<and> j \<le> n \<and> k = length fs \<and> length fs < 2 * Suc n)"
proof -
  have pos: "0 < unat nbytes" using assms(2) by (simp add: unat_gt_0)
  have "va + nbytes - 1 = of_nat (unat va + unat nbytes - 1)" using pos by simp
  moreover have "unat (of_nat (unat va + unat nbytes - 1) :: uint64) = unat va + unat nbytes - 1"
    using assms(3) by (intro unat_of_nat_64) (simp add: MAXVA_def)
  ultimately have e: "unat (va + nbytes - 1) = unat va + unat nbytes - 1" by (simp only:)
  define q where "q = unat va div 4096"
  have le: "q \<le> (unat va + unat nbytes - 1) div 4096" unfolding q_def using pos by (intro div_le_mono) simp
  then have qn: "(unat va + unat nbytes - 1) div 4096 = q + n" using n by (simp add: q_def)
  have lim: "unat va + unat nbytes - 1 < 2 ^ 26 * 4096" using assms(3) pos by (simp add: MAXVA_def)
  then have q26: "q + n < 2 ^ 26" unfolding qn [symmetric] by (simp add: div_less_iff_less_mult)
  have a: "unat (PGROUNDDOWN va) = 4096 * q" by (simp add: unat_PGROUNDDOWN q_def)
  have fit: "unat (PGROUNDDOWN va) + 4096 * Suc n \<le> unat MAXVA" using a q26 by (simp add: MAXVA_def)
  have "unat (PGROUNDDOWN (va + nbytes - 1)) = unat (PGROUNDDOWN va + of_nat n * 4096)"
    using page_addr [of "PGROUNDDOWN va" n] a q26 unfolding unat_PGROUNDDOWN e qn by simp
  then have last: "PGROUNDDOWN (va + nbytes - 1) = PGROUNDDOWN va + of_nat n * 4096"
    by (simp only: word_unat_eq_iff)
  have "mappages pt va nbytes pa perm s =
      mappages_from pt (PGROUNDDOWN va) (PGROUNDDOWN va + of_nat n * 4096) pa perm s"
    using pos last by (auto simp: mappages_def)
  moreover note mappages_from_spec [OF assms(1) page_aligned_PGROUNDDOWN fit refl assms(5), of pa perm]
  ultimately show ?thesis by (simp only:) blast
qed

theorem mappages_maps_exactly_witness:
  "\<exists>(s :: kmem_st) r t k j. asp s 0x87fff000 [0x87ffe000, 0x87ffd000, 0x87ffc000, 0x87ffb000] \<and>
     mappages 0x87fff000 0x1000 0x2000 0x87000000 (PTE_R OR PTE_W) s = Ok r t \<and>
     evolves 0x87fff000 [0x87ffe000, 0x87ffd000, 0x87ffc000, 0x87ffb000] s k t \<and> r = 0 \<and>
     lookup (mem t) 0x87fff000 0x1000 = Some (new_pte 0x87000000 (PTE_R OR PTE_W))"
proof -
  let ?fs = "[0x87ffe000, 0x87ffd000, 0x87ffc000, 0x87ffb000] :: uint64 list"
  obtain s :: kmem_st where s: "asp s 0x87fff000 ?fs" "\<forall>va. lookup (mem s) 0x87fff000 va = None"
    using fresh_asp [of "0x87fff000" ?fs] by (auto simp: page_aligned_mod PHYSTOP_eq)
  have a: "PGROUNDDOWN 0x1000 = 0x1000" by (simp add: PGROUNDDOWN_aligned page_aligned_mod)
  obtain r t k j where m: "mappages 0x87fff000 0x1000 0x2000 0x87000000 (PTE_R OR PTE_W) s = Ok r t"
    "evolves 0x87fff000 ?fs s k t"
    "\<forall>vb < MAXVA. lookup (mem t) 0x87fff000 vb = (if in_pages (PGROUNDDOWN 0x1000) j vb
        then Some (new_pte (0x87000000 + (PGROUNDDOWN vb - PGROUNDDOWN 0x1000)) (PTE_R OR PTE_W))
        else lookup (mem s) 0x87fff000 vb)"
    "if r = 0 then j = Suc 1 else r = - 1 \<and> j \<le> 1 \<and> k = length ?fs \<and> length ?fs < 2 * Suc 1"
    using mappages_maps_exactly [OF s(1), of "0x2000" "0x1000" 1 "0x87000000" "PTE_R OR PTE_W"] s(2)
    by (auto simp: MAXVA_def)
  then have "r = 0" "j = 2" by (auto split: if_splits)
  moreover have "lookup (mem t) 0x87fff000 0x1000 = Some (new_pte 0x87000000 (PTE_R OR PTE_W))"
    using m(3) \<open>j = 2\<close> a by (simp add: in_pages_def MAXVA_def)
  ultimately show ?thesis using s(1) m(1,2) by blast
qed

text \<open>C6: growing a process. \<open>uvmalloc\<close> either answers the new size, having mapped exactly the pages
  between the old and the new size to pages taken off the free list, pairwise different and zeroed,
  or it answers 0 and every translation is what it was before (pages taken for tables stay in the table). In both cases the pages of the table,
  the free pages and the new user pages are a partition of the pages the table and the free list had
  before (nothing is leaked, nothing is handed out twice), and memory outside those pages is
  untouched. It cannot fail when three free pages are available per page to map.\<close>

theorem uvmalloc_all_or_nothing:
  assumes "asp s pt fs" "oldsz \<le> newsz" "newsz \<le> MAXVA" "leaf_perm (PTE_R OR PTE_U OR xperm)"
    and "b = PGROUNDUP oldsz" "n = pages_needed b newsz"
    and "\<And>vb. in_pages b n vb \<Longrightarrow> lookup (mem s) pt vb = None"
  shows "\<exists>r t ps fs'. uvmalloc pt oldsz newsz xperm s = Ok r t \<and>
    uv_inv s fs pt b (\<lambda>_. PTE_R OR PTE_U OR xperm) (\<lambda>_ m p. zero_page m p) ps t fs' \<and>
    (r = newsz \<and> length ps = n \<or> r = 0 \<and> ps = [] \<and> length fs < 3 * n)"
proof -
  have sz: "unat oldsz \<le> unat MAXVA" "unat newsz \<le> unat MAXVA"
    using assms(2,3) by (auto simp: word_le_nat_alt)
  have b: "page_aligned b" using assms(5) by (simp add: page_aligned_PGROUNDUP)
  have "unat b = (unat oldsz + 4095) div 4096 * 4096"
    using sz(1) assms(5) by (simp add: unat_PGROUNDUP MAXVA_def)
  moreover have "(unat oldsz + 4095) div 4096 < Suc (2 ^ 26)"
    using sz(1) by (intro less_mult_imp_div_less) (simp add: MAXVA_def)
  ultimately have "b \<le> MAXVA" by (simp add: word_le_nat_alt MAXVA_def)
  then have fit: "unat b + 4096 * n \<le> unat MAXVA"
    using pages_needed_bound [OF b sz(2)] assms(6) by simp
  have "uvmalloc pt oldsz newsz xperm s = uvmalloc_from pt b b newsz xperm s"
    using leD [OF assms(2)] assms(5) by (simp add: uvmalloc_def)
  then show ?thesis
    using uvmalloc_from_spec [OF uv_inv_start [OF assms(1)] b assms(4), of n newsz] fit assms(6,7) by simp
qed

theorem uvmalloc_all_or_nothing_witness:
  "\<exists>(s :: kmem_st) t ps fs'. uvmalloc 0x87fff000 0 8192 PTE_W s = Ok 8192 t \<and> length ps = 2 \<and>
     uv_inv s [0x87ffe000, 0x87ffd000, 0x87ffc000, 0x87ffb000, 0x87ffa000, 0x87ff9000] 0x87fff000 0
       (\<lambda>_. PTE_R OR PTE_U OR PTE_W) (\<lambda>_ m p. zero_page m p) ps t fs'"
proof -
  let ?fs = "[0x87ffe000, 0x87ffd000, 0x87ffc000, 0x87ffb000, 0x87ffa000, 0x87ff9000] :: uint64 list"
  obtain s :: kmem_st where s: "asp s 0x87fff000 ?fs" "\<forall>va. lookup (mem s) 0x87fff000 va = None"
    using fresh_asp [of "0x87fff000" ?fs] by (auto simp: page_aligned_mod PHYSTOP_eq)
  have b: "PGROUNDUP 0 = 0" by (simp add: PGROUNDUP_aligned)
  have "\<exists>r t ps fs'. uvmalloc 0x87fff000 0 8192 PTE_W s = Ok r t \<and>
    uv_inv s ?fs 0x87fff000 0 (\<lambda>_. PTE_R OR PTE_U OR PTE_W) (\<lambda>_ m p. zero_page m p) ps t fs' \<and>
    (r = 8192 \<and> length ps = 2 \<or> r = 0 \<and> ps = [] \<and> length ?fs < 3 * 2)"
    using s(2) by (intro uvmalloc_all_or_nothing [OF s(1)])
      (auto simp: MAXVA_def leaf_perm_def pte_bits b pages_needed_def)
  then show ?thesis by auto
qed

end
