(* ===== verification/UserMem.thy ===== *)
theory UserMem
  imports VmSpace
begin

text \<open>
  What \<open>copyin\<close>, \<open>copyout\<close> and \<open>copyinstr\<close> of kernel/vm.c mean to their callers. The code copies one
  page at a time; here each is shown equal to a reference definition that looks at one byte at a time
  through the translation \<open>user_pa\<close> of the page table. The properties are the round trip of the two
  copies and the isolation of address spaces.
\<close>

section \<open>Translation of user addresses\<close>

definition user_pa :: "memory \<Rightarrow> uint64 \<Rightarrow> uint64 \<Rightarrow> uint64 option" where
  "user_pa m pt va =
     (if MAXVA \<le> PGROUNDDOWN va then None
      else case lookup m pt va of
             None \<Rightarrow> None
           | Some pte \<Rightarrow> if pte AND PTE_U = 0 \<or> PTE2PA pte = 0 then None
                       else Some (PTE2PA pte + (va - PGROUNDDOWN va)))"

fun copyin_bytes :: "(uint64 \<Rightarrow> uint64 option) \<Rightarrow> memory \<Rightarrow> uint64 \<Rightarrow> nat \<Rightarrow> int \<times> uint8 list" where
  "copyin_bytes tr m va 0 = (0, [])"
| "copyin_bytes tr m va (Suc n) =
     (case tr va of
        None \<Rightarrow> (- 1, [])
      | Some pa \<Rightarrow> let (r, bs) = copyin_bytes tr m (va + 1) n in (r, m pa # bs))"

fun copyout_bytes :: "(uint64 \<Rightarrow> uint64 option) \<Rightarrow> memory \<Rightarrow> uint64 \<Rightarrow> uint8 list \<Rightarrow> int \<times> memory" where
  "copyout_bytes tr m va [] = (0, m)"
| "copyout_bytes tr m va (b # bs) =
     (case tr va of
        None \<Rightarrow> (- 1, m)
      | Some pa \<Rightarrow> copyout_bytes tr (m(pa := b)) (va + 1) bs)"

fun copyinstr_bytes :: "(uint64 \<Rightarrow> uint64 option) \<Rightarrow> memory \<Rightarrow> uint64 \<Rightarrow> nat \<Rightarrow> int \<times> uint8 list" where
  "copyinstr_bytes tr m va 0 = (- 1, [])"
| "copyinstr_bytes tr m va (Suc n) =
     (case tr va of
        None \<Rightarrow> (- 1, [])
      | Some pa \<Rightarrow>
          if m pa = 0 then (0, [0])
          else let (r, bs) = copyinstr_bytes tr m (va + 1) n in (r, m pa # bs))"

text \<open>The pages of a user address space: outside the table itself, and each mapped once.\<close>

definition user_space :: "memory \<Rightarrow> uint64 \<Rightarrow> bool" where
  "user_space m pt \<longleftrightarrow> table_ok 2 m pt \<and>
     (\<forall>va pa. user_pa m pt va = Some pa \<longrightarrow> PGROUNDDOWN pa \<notin> tpages 2 m pt) \<and>
     (\<forall>va vb pa. user_pa m pt va = Some pa \<longrightarrow> user_pa m pt vb = Some pa \<longrightarrow> va = vb)"

section \<open>One page\<close>

lemma page_room_le: "page_room va \<le> 4096"
  by (simp add: page_room_def)

lemma page_offset:
  shows "unat va = unat (PGROUNDDOWN va) + unat (va - PGROUNDDOWN va)" "unat (va - PGROUNDDOWN va) < 4096"
proof -
  have "unat (va - PGROUNDDOWN va) = unat va - unat (PGROUNDDOWN va)"
    using PGROUNDDOWN_le [of va] by (simp add: word_le_nat_alt unat_sub)
  moreover have "unat va div 4096 * 4096 + unat va mod 4096 = unat va" by simp
  ultimately show "unat va = unat (PGROUNDDOWN va) + unat (va - PGROUNDDOWN va)" "unat (va - PGROUNDDOWN va) < 4096"
    unfolding unat_PGROUNDDOWN by linarith+
qed

lemma same_page_plus:
  assumes "i < page_room va"
  shows "PGROUNDDOWN (va + of_nat i) = PGROUNDDOWN va"
proof -
  let ?o = "unat (va - PGROUNDDOWN va)"
  have o: "?o + i < 4096" using assms by (simp add: page_room_def)
  have b: "unat (PGROUNDDOWN va) = 4096 * (unat va div 4096)" by (simp add: unat_PGROUNDDOWN)
  have "unat va div 4096 < 2 ^ 52" using unsigned_less [of va, where ?'a = nat] by (simp add: less_mult_imp_div_less)
  then have "4096 * (unat va div 4096) + 4096 \<le> 2 ^ 64" by simp
  then have "unat (PGROUNDDOWN va) + ?o + i < 2 ^ 64" using o b by linarith
  then have u: "unat (va + of_nat i) = unat (PGROUNDDOWN va) + (?o + i)"
    using page_offset(1) [of va] o by (simp add: unat_word_ariths)
  have "unat (va + of_nat i) div 4096 = unat va div 4096" unfolding u b using o by simp
  then show ?thesis by (simp add: word_unat_eq_iff unat_PGROUNDDOWN)
qed

lemma next_page: "va + of_nat (page_room va) = PGROUNDDOWN va + 4096"
proof -
  have "of_nat (page_room va) = 4096 - (va - PGROUNDDOWN va)"
    using page_offset(2) [of va] by (simp add: page_room_def of_nat_diff)
  then show ?thesis by simp
qed

lemma user_pa_plus:
  assumes "i < page_room va"
  shows "user_pa m pt (va + of_nat i) = map_option (\<lambda>pa. pa + of_nat i) (user_pa m pt va)"
proof -
  have "lookup m pt (va + of_nat i) = lookup m pt va"
    using same_page_plus [OF assms] by (metis lookup_PGROUNDDOWN)
  then show ?thesis unfolding user_pa_def same_page_plus [OF assms]
    by (simp add: algebra_simps split: option.splits)
qed

lemma walkaddr_user:
  assumes "table_ok 2 (mem s) pt"
  shows "\<exists>pa0. walkaddr pt (PGROUNDDOWN va) s = Ok pa0 s \<and>
    user_pa (mem s) pt va = (if pa0 = 0 then None else Some (pa0 + (va - PGROUNDDOWN va)))"
proof (cases "MAXVA \<le> PGROUNDDOWN va")
  case True
  then show ?thesis by (simp add: walkaddr_def user_pa_def)
next
  case False
  have w: "walk pt (PGROUNDDOWN va) False s = Ok (case slot 2 (mem s) pt va of None \<Rightarrow> 0 | Some a \<Rightarrow> a) s"
    using False by (simp add: walk_def walk_levels_slot slot_PGROUNDDOWN)
  show ?thesis
  proof (cases "slot 2 (mem s) pt va")
    case None
    then show ?thesis using False w by (simp add: walkaddr_def user_pa_def leaf_def)
  next
    case (Some a)
    then have "a \<noteq> 0" using slot_page [OF assms] by blast
    then show ?thesis using False w Some by (auto simp: walkaddr_def user_pa_def leaf_def Let_def)
  qed
qed

section \<open>copyin\<close>

lemma copyin_bytes_page:
  assumes "tr = user_pa m pt" "tr va = Some pa" "n \<le> page_room va"
  shows "copyin_bytes tr m va (n + k) =
    (let (r, bs) = copyin_bytes tr m (va + of_nat n) k in (r, load_bytes m pa n @ bs))"
proof -
  have "copyin_bytes tr m (va + of_nat i) (n - i + k) =
      (let (r, bs) = copyin_bytes tr m (va + of_nat n) k in (r, map (\<lambda>j. m (pa + of_nat j)) [i..<n] @ bs))"
    if "i \<le> n" for i
    using that
  proof (induction rule: inc_induct)
    case base
    then show ?case by simp
  next
    case (step i)
    have "tr (va + of_nat i) = Some (pa + of_nat i)"
      using user_pa_plus [of i va m pt] assms step(2) by simp
    moreover have "n - i + k = Suc (n - Suc i + k)" using step(2) by simp
    moreover have "va + of_nat i + 1 = va + of_nat (Suc i)" by simp
    ultimately show ?case using step
      by (simp add: upt_conv_Cons Let_def add.assoc split: prod.splits del: of_nat_Suc)
  qed
  from this [of 0] show ?thesis by (simp add: load_bytes_def)
qed

lemma copyin_refines:
  assumes "table_ok 2 (mem s) pt"
  shows "copyin pt va n s = Ok (copyin_bytes (user_pa (mem s) pt) (mem s) va n) s"
  using assms
proof (induction pt va n s rule: copyin.induct)
  case (1 pt va len s)
  let ?tr = "user_pa (mem s) pt" and ?n = "min (page_room va) len"
  obtain pa0 where w: "walkaddr pt (PGROUNDDOWN va) s = Ok pa0 s"
    "?tr va = (if pa0 = 0 then None else Some (pa0 + (va - PGROUNDDOWN va)))"
    using walkaddr_user [OF 1(2)] by blast
  show ?case
  proof (cases "0 < len \<and> pa0 \<noteq> 0")
    case False
    then show ?thesis using w by (cases len) (auto simp: copyin.simps [of pt va])
  next
    case True
    have IH: "copyin pt (PGROUNDDOWN va + 4096) (len - ?n) s =
        Ok (copyin_bytes ?tr (mem s) (PGROUNDDOWN va + 4096) (len - ?n)) s"
      using 1(1) [OF _ refl w(1) _ refl refl 1(2)] True by simp
    have e: "copyin_bytes ?tr (mem s) (PGROUNDDOWN va + 4096) (len - ?n) =
        copyin_bytes ?tr (mem s) (va + of_nat ?n) (len - ?n)"
      by (cases "len \<le> page_room va") (simp_all add: next_page min_def)
    have "copyin_bytes ?tr (mem s) va (?n + (len - ?n)) =
      (let (r, bs) = copyin_bytes ?tr (mem s) (va + of_nat ?n) (len - ?n)
       in (r, load_bytes (mem s) (pa0 + (va - PGROUNDDOWN va)) ?n @ bs))"
      using True w(2) by (intro copyin_bytes_page) auto
    moreover have "?n + (len - ?n) = len" by simp
    ultimately have "copyin_bytes ?tr (mem s) va len =
      (let (r, bs) = copyin_bytes ?tr (mem s) (va + of_nat ?n) (len - ?n)
       in (r, load_bytes (mem s) (pa0 + (va - PGROUNDDOWN va)) ?n @ bs))" by (simp only:)
    then show ?thesis using True w(1) IH e
      by (simp add: copyin.simps [of pt va len] Let_def split: prod.splits)
  qed
qed

section \<open>copyout\<close>

lemma store_bytes_snoc:
  assumes "i < length src" "length src \<le> 4096"
  shows "store_bytes m pa (take (Suc i) src) = (store_bytes m pa (take i src))(pa + of_nat i := src ! i)"
proof
  fix x
  have i: "unat (of_nat i :: uint64) = i" using assms by simp
  have "x = pa + of_nat i \<longleftrightarrow> unat (x - pa) = i"
    using i by (metis add_diff_cancel_left' diff_add_cancel add.commute word_unat_eq_iff)
  then show "store_bytes m pa (take (Suc i) src) x = ((store_bytes m pa (take i src))(pa + of_nat i := src ! i)) x"
    using assms by (auto simp: store_bytes_def less_Suc_eq)
qed

lemma copyout_bytes_page:
  assumes "tr = user_pa m0 pt" "tr va = Some pa" "n \<le> page_room va" "n \<le> length src"
  shows "copyout_bytes tr m va src = copyout_bytes tr (store_bytes m pa (take n src)) (va + of_nat n) (drop n src)"
proof -
  have "copyout_bytes tr m va src = copyout_bytes tr (store_bytes m pa (take i src)) (va + of_nat i) (drop i src)"
    if "i \<le> n" for i
    using that
  proof (induction i)
    case 0
    then show ?case by (simp add: store_bytes_def)
  next
    case (Suc i)
    have i: "i < length src" "i < page_room va" using Suc.prems assms(3,4) by auto
    have tr: "tr (va + of_nat i) = Some (pa + of_nat i)" using user_pa_plus [OF i(2)] assms(1,2) by simp
    have st: "store_bytes m pa (take (Suc i) (take n src)) =
        (store_bytes m pa (take i (take n src)))(pa + of_nat i := take n src ! i)"
      using Suc.prems assms(3,4) page_room_le [of va] by (intro store_bytes_snoc) auto
    have "take (Suc i) (take n src) = take (Suc i) src" "take i (take n src) = take i src" "take n src ! i = src ! i"
      using Suc.prems by auto
    then have st': "store_bytes m pa (take (Suc i) src) = (store_bytes m pa (take i src))(pa + of_nat i := src ! i)"
      using st by simp
    have "va + of_nat i + 1 = va + of_nat (Suc i)" by simp
    moreover have "drop i src = src ! i # drop (Suc i) src" using i(1) by (rule Cons_nth_drop_Suc [symmetric])
    ultimately show ?case using Suc tr st' by (simp add: add.assoc del: of_nat_Suc fun_upd_apply)
  qed
  then show ?thesis by blast
qed

lemma user_pa_frame:
  assumes "table_ok 2 m pt" "\<And>x. PGROUNDDOWN x \<in> tpages 2 m pt \<Longrightarrow> m' x = m x"
  shows "user_pa m' pt = user_pa m pt"
  by (rule ext) (simp add: user_pa_def leaf_frame [OF assms])

lemma user_space_frame:
  assumes "user_space m pt" "\<And>x. PGROUNDDOWN x \<in> tpages 2 m pt \<Longrightarrow> m' x = m x"
  shows "user_space m' pt"
proof -
  have t: "table_ok 2 m pt" using assms(1) by (simp add: user_space_def)
  show ?thesis using assms(1) table_ok_frame [OF t assms(2)] tpages_frame [OF t assms(2)] user_pa_frame [OF t assms(2)]
    by (simp add: user_space_def)
qed

lemma user_page_of:
  assumes "user_pa m pt va = Some pa"
  shows "pa = PGROUNDDOWN pa + (va - PGROUNDDOWN va)" "page_room pa = page_room va"
proof -
  obtain pte where "pa = PTE2PA pte + (va - PGROUNDDOWN va)"
    using assms by (auto simp: user_pa_def split: if_splits option.splits)
  then obtain p where p: "page_aligned p" "pa = p + (va - PGROUNDDOWN va)" using PTE2PA_aligned by blast
  have "PGROUNDDOWN pa = p" using p in_page_iff [OF p(1), of pa] page_offset(2) [of va] by simp
  then show "pa = PGROUNDDOWN pa + (va - PGROUNDDOWN va)" "page_room pa = page_room va"
    using p(2) by (simp_all add: page_room_def)
qed

lemma store_user_page:
  assumes "user_space m pt" "user_pa m pt va = Some pa" "length bs \<le> page_room va" "PGROUNDDOWN x \<in> tpages 2 m pt"
  shows "store_bytes m pa bs x = m x"
proof (rule store_bytes_outside, rule notI)
  assume "unat (x - pa) < length bs"
  then have i: "unat (x - pa) < page_room pa" using assms(3) user_page_of(2) [OF assms(2)] by simp
  have "PGROUNDDOWN (pa + of_nat (unat (x - pa))) = PGROUNDDOWN pa" by (rule same_page_plus [OF i])
  then have "PGROUNDDOWN x = PGROUNDDOWN pa" by simp
  then show False using assms(1,2,4) by (auto simp: user_space_def)
qed

lemma copyout_refines:
  assumes "user_space (mem s) pt"
  shows "copyout pt va src s =
    (let (r, m) = copyout_bytes (user_pa (mem s) pt) (mem s) va src in Ok r (s\<lparr>mem := m\<rparr>))"
  using assms
proof (induction pt va src s rule: copyout.induct)
  case (1 pt va src s)
  let ?tr = "user_pa (mem s) pt" and ?n = "min (page_room va) (length src)"
  have t: "table_ok 2 (mem s) pt" using 1(2) by (simp add: user_space_def)
  obtain pa0 where w: "walkaddr pt (PGROUNDDOWN va) s = Ok pa0 s"
    "?tr va = (if pa0 = 0 then None else Some (pa0 + (va - PGROUNDDOWN va)))"
    using walkaddr_user [OF t] by blast
  show ?case
  proof (cases "src \<noteq> [] \<and> pa0 \<noteq> 0")
    case False
    then show ?thesis using w by (cases src) (auto simp: copyout.simps [of pt va])
  next
    case True
    let ?pa = "pa0 + (va - PGROUNDDOWN va)"
    let ?m = "store_bytes (mem s) ?pa (take ?n src)"
    have out: "?m x = mem s x" if "PGROUNDDOWN x \<in> tpages 2 (mem s) pt" for x
      using True w(2) that by (intro store_user_page [OF 1(2)]) auto
    have tr: "user_pa ?m pt = ?tr" by (rule user_pa_frame [OF t out])
    have IH: "copyout pt (PGROUNDDOWN va + 4096) (drop ?n src) (s\<lparr>mem := ?m\<rparr>) =
        (let (r, m) = copyout_bytes ?tr ?m (PGROUNDDOWN va + 4096) (drop ?n src) in Ok r (s\<lparr>mem := m\<rparr>))"
      using 1(1) [OF _ refl w(1) _ refl refl] True user_space_frame [OF 1(2) out] tr by simp
    have "copyout_bytes ?tr ?m (PGROUNDDOWN va + 4096) (drop ?n src) =
        copyout_bytes ?tr ?m (va + of_nat ?n) (drop ?n src)"
      by (cases "length src \<le> page_room va") (simp_all add: next_page min_def)
    moreover have "copyout_bytes ?tr (mem s) va src = copyout_bytes ?tr ?m (va + of_nat ?n) (drop ?n src)"
      using True w(2) by (intro copyout_bytes_page) auto
    ultimately show ?thesis using True w(1) IH by (simp add: copyout.simps [of pt va src s] Let_def)
  qed
qed

lemma copyout_one:
  assumes "user_space (mem s) pt"
  shows "copyout pt va [c] s =
    (case user_pa (mem s) pt va of None \<Rightarrow> Ok (- 1) s | Some pa \<Rightarrow> Ok 0 (s\<lparr>mem := (mem s)(pa := c)\<rparr>))"
  using copyout_refines [OF assms, of va "[c]"] by (simp split: option.splits)

lemma user_write_frame:
  assumes "user_space m pt" "user_pa m pt va = Some pa"
  shows "user_pa (m(pa := c)) pt = user_pa m pt" "user_space (m(pa := c)) pt"
proof -
  have pa: "PGROUNDDOWN pa \<notin> tpages 2 m pt" and t: "table_ok 2 m pt" using assms by (auto simp: user_space_def)
  have same: "(m(pa := c)) x = m x" if "PGROUNDDOWN x \<in> tpages 2 m pt" for x using that pa by auto
  show "user_pa (m(pa := c)) pt = user_pa m pt" by (rule user_pa_frame [OF t same])
  show "user_space (m(pa := c)) pt" by (rule user_space_frame [OF assms(1) same])
qed

section \<open>copyinstr\<close>

lemma copyinstr_bytes_page:
  assumes "tr = user_pa m pt" "tr va = Some pa" "n \<le> page_room va"
  shows "copyinstr_bytes tr m va (n + k) =
    (let (got_null, bs) = copyinstr_page m pa n in
     if got_null then (0, bs)
     else let (r, rest) = copyinstr_bytes tr m (va + of_nat n) k in (r, bs @ rest))"
proof -
  have "copyinstr_bytes tr m (va + of_nat i) (n - i + k) =
      (let (got_null, bs) = copyinstr_page m (pa + of_nat i) (n - i) in
       if got_null then (0, bs)
       else let (r, rest) = copyinstr_bytes tr m (va + of_nat n) k in (r, bs @ rest))"
    if "i \<le> n" for i
    using that
  proof (induction rule: inc_induct)
    case base
    then show ?case by simp
  next
    case (step i)
    have tr: "tr (va + of_nat i) = Some (pa + of_nat i)"
      using user_pa_plus [of i va m pt] assms step(2) by simp
    have n: "n - i = Suc (n - Suc i)" using step(2) by simp
    have "x + of_nat i + 1 = x + of_nat (Suc i)" for x :: uint64 by simp
    then show ?case using step(3) tr unfolding n
      by (simp add: Let_def add.assoc split: prod.splits del: of_nat_Suc)
  qed
  from this [of 0] show ?thesis by simp
qed

lemma copyinstr_refines:
  assumes "table_ok 2 (mem s) pt"
  shows "copyinstr pt va lim s = Ok (copyinstr_bytes (user_pa (mem s) pt) (mem s) va lim) s"
  using assms
proof (induction pt va lim s rule: copyinstr.induct)
  case (1 pt va lim s)
  let ?tr = "user_pa (mem s) pt" and ?n = "min (page_room va) lim"
  obtain pa0 where w: "walkaddr pt (PGROUNDDOWN va) s = Ok pa0 s"
    "?tr va = (if pa0 = 0 then None else Some (pa0 + (va - PGROUNDDOWN va)))"
    using walkaddr_user [OF 1(2)] by blast
  show ?case
  proof (cases "0 < lim \<and> pa0 \<noteq> 0")
    case False
    then show ?thesis using w by (cases lim) (auto simp: copyinstr.simps [of pt va])
  next
    case True
    let ?pa = "pa0 + (va - PGROUNDDOWN va)"
    obtain g bs where g: "copyinstr_page (mem s) ?pa ?n = (g, bs)" by fastforce
    have "copyinstr_bytes ?tr (mem s) va (?n + (lim - ?n)) =
      (let (got_null, bs) = copyinstr_page (mem s) ?pa ?n in
       if got_null then (0, bs)
       else let (r, rest) = copyinstr_bytes ?tr (mem s) (va + of_nat ?n) (lim - ?n) in (r, bs @ rest))"
      using True w(2) by (intro copyinstr_bytes_page) auto
    moreover have "?n + (lim - ?n) = lim" by simp
    ultimately have b: "copyinstr_bytes ?tr (mem s) va lim =
      (if g then (0, bs)
       else let (r, rest) = copyinstr_bytes ?tr (mem s) (va + of_nat ?n) (lim - ?n) in (r, bs @ rest))"
      using g by (simp only: Let_def prod.case)
    have "copyinstr_bytes ?tr (mem s) (PGROUNDDOWN va + 4096) (lim - ?n) =
        copyinstr_bytes ?tr (mem s) (va + of_nat ?n) (lim - ?n)"
      by (cases "lim \<le> page_room va") (simp_all add: next_page min_def)
    moreover have "copyinstr pt (PGROUNDDOWN va + 4096) (lim - ?n) s =
        Ok (copyinstr_bytes ?tr (mem s) (PGROUNDDOWN va + 4096) (lim - ?n)) s" if "\<not> g"
      using 1(1) [OF _ refl w(1) _ refl g [symmetric] refl _ 1(2)] True that by simp
    ultimately show ?thesis using True w(1) g b
      by (cases g) (simp_all add: copyinstr.simps [of pt va lim] Let_def split: prod.splits)
  qed
qed

section \<open>Round trip and isolation\<close>

lemma copyout_bytes_outside:
  "(\<And>i. i < length src \<Longrightarrow> tr (va + of_nat i) \<noteq> Some x) \<Longrightarrow> snd (copyout_bytes tr m va src) x = m x"
proof (induction src arbitrary: m va)
  case Nil
  then show ?case by simp
next
  case (Cons b bs)
  have "tr va \<noteq> Some x" using Cons.prems [of 0] by simp
  moreover have "tr (va + 1 + of_nat i) \<noteq> Some x" if "i < length bs" for i
    using Cons.prems [of "Suc i"] that by (simp add: algebra_simps)
  ultimately show ?case using Cons.IH by (auto split: option.splits)
qed

lemma copyout_bytes_result:
  "fst (copyout_bytes tr m va src) = (if \<forall>i < length src. tr (va + of_nat i) \<noteq> None then 0 else - 1)"
proof (induction src arbitrary: m va)
  case Nil
  then show ?case by simp
next
  case (Cons b bs)
  have "(\<forall>i < length (b # bs). tr (va + of_nat i) \<noteq> None) \<longleftrightarrow>
      tr va \<noteq> None \<and> (\<forall>i < length bs. tr (va + 1 + of_nat i) \<noteq> None)"
    by (simp add: All_less_Suc2 algebra_simps)
  then show ?case using Cons.IH by (simp split: option.splits)
qed

lemma copyout_copyin_bytes:
  assumes "length src \<le> 2 ^ 64" "\<And>va vb pa. tr va = Some pa \<Longrightarrow> tr vb = Some pa \<Longrightarrow> va = vb"
    and "copyout_bytes tr m va src = (0, m')"
  shows "copyin_bytes tr m' va (length src) = (0, src)"
  using assms(1,3)
proof (induction src arbitrary: m va)
  case Nil
  then show ?case by simp
next
  case (Cons b bs)
  obtain pa where pa: "tr va = Some pa" using Cons.prems(2) by (auto split: option.splits)
  then have w: "copyout_bytes tr (m(pa := b)) (va + 1) bs = (0, m')" using Cons.prems(2) by simp
  have "tr (va + 1 + of_nat i) \<noteq> Some pa" if i: "i < length bs" for i
  proof
    assume "tr (va + 1 + of_nat i) = Some pa"
    then have "va + 1 + of_nat i = va" using assms(2) pa by blast
    then have "(of_nat (Suc i) :: uint64) = 0" by (simp add: algebra_simps)
    moreover have "Suc i < 2 ^ 64" using i Cons.prems(1) by simp
    ultimately show False using unat_of_nat_64 [of "Suc i"] by (simp del: of_nat_Suc)
  qed
  then have "m' pa = b" using copyout_bytes_outside [of bs tr "va + 1" pa "m(pa := b)"] w by simp
  then show ?case using Cons.IH [OF _ w] Cons.prems(1) pa by simp
qed

text \<open>An address space with one page at address 0, for the witnesses.\<close>

lemma page_zero: "PGROUNDDOWN va = 0 \<longleftrightarrow> unat va < 4096"
  unfolding word_unat_eq_iff unat_PGROUNDDOWN by (simp add: div_eq_0_iff)

lemma user_bit: "new_pte p (PTE_R OR PTE_U OR PTE_W) AND PTE_U \<noteq> 0"
proof -
  have "bit (new_pte p (PTE_R OR PTE_U OR PTE_W) AND PTE_U) 4" by (simp add: new_pte_def pte_bits bit_simps)
  then show ?thesis by auto
qed

lemma one_page_space:
  "\<exists>m p. user_space m 0x87fff000 \<and>
     (\<forall>va. user_pa m 0x87fff000 va = (if unat va < 4096 then Some (p + va) else None)) \<and>
     lookup m 0x87fff000 0 = Some (new_pte p (PTE_R OR PTE_U OR PTE_W)) \<and> page_aligned p \<and> p \<noteq> 0 \<and>
     insert p (tpages 2 m 0x87fff000) \<subseteq> {0x87fff000, 0x87ffe000, 0x87ffd000, 0x87ffc000}"
proof -
  let ?fs = "[0x87ffe000, 0x87ffd000, 0x87ffc000] :: uint64 list" and ?pt = "0x87fff000 :: uint64"
  let ?perm = "PTE_R OR PTE_U OR PTE_W"
  have lp: "leaf_perm ?perm" by (simp add: leaf_perm_def pte_bits)
  obtain s :: kmem_st where s: "asp s ?pt ?fs" "\<forall>va. lookup (mem s) ?pt va = None" "tpages 2 (mem s) ?pt = {?pt}"
    using fresh_asp [of ?pt ?fs] by (auto simp: page_aligned_mod PHYSTOP_eq)
  have "pages_needed 0 4096 = 1" by (simp add: pages_needed_def)
  then obtain t ps fs' where t: "uv_inv s ?fs ?pt 0 (\<lambda>_. ?perm) (\<lambda>_ m p. zero_page m p) ps t fs'" "length ps = 1"
    using uvmalloc_from_spec [OF uv_inv_start [OF s(1)] page_aligned_0 lp, of 1 4096] s(2) by (auto simp: MAXVA_def)
  then obtain p where ps: "ps = [p]" by (cases ps) auto
  have own: "ram_page t p" "p \<notin> tpages 2 (mem t) ?pt" and ok: "table_ok 2 (mem t) ?pt"
    using uv_invD(1,3) [OF t(1)] ps by (auto simp: pages_owned_def asp_def)
  have lk: "lookup (mem t) ?pt vb = (if unat vb < 4096 then Some (new_pte p ?perm) else None)" if "vb < MAXVA" for vb
    using uv_invD(5) [OF t(1) that] ps s(2) in_pages_1 [of 0 vb] by (auto simp: page_index_def page_zero)
  have al: "page_aligned p" "p \<noteq> 0" using own(1) by (auto simp: ram_page_def PHYSTOP_eq)
  have up: "user_pa (mem t) ?pt va = (if unat va < 4096 then Some (p + va) else None)" for va
  proof (cases "MAXVA \<le> PGROUNDDOWN va")
    case True
    then have "MAXVA \<le> va" using PGROUNDDOWN_le [of va] by simp
    then show ?thesis using True by (simp add: user_pa_def word_le_nat_alt MAXVA_def)
  next
    case False
    then have "lookup (mem t) ?pt (PGROUNDDOWN va) =
        (if unat (PGROUNDDOWN va) < 4096 then Some (new_pte p ?perm) else None)" using lk by simp
    moreover have "unat (PGROUNDDOWN va) < 4096 \<longleftrightarrow> PGROUNDDOWN va = 0"
      using page_zero [of "PGROUNDDOWN va"] by (simp add: PGROUNDDOWN_aligned)
    ultimately show ?thesis using False al(2) new_pte_leaf(1) [OF lp al(1)] user_bit [of p]
      by (simp add: user_pa_def lookup_PGROUNDDOWN page_zero)
  qed
  have "PGROUNDDOWN (p + va) = p" if "unat va < 4096" for va
    using in_page_iff [OF al(1), of "p + va"] that by simp
  then have "user_space (mem t) ?pt" using ok own(2) by (auto simp: user_space_def up split: if_splits)
  moreover have "lookup (mem t) ?pt 0 = Some (new_pte p ?perm)" using lk [of 0] by (simp add: MAXVA_def)
  moreover have "insert p (tpages 2 (mem t) ?pt) \<subseteq> {?pt, 0x87ffe000, 0x87ffd000, 0x87ffc000}"
    using uv_invD(4) [OF t(1)] ps s(3) by auto
  ultimately show ?thesis using up al by blast
qed

text \<open>Bytes delivered to mapped user memory can be read there, and nothing else changes.\<close>

lemma delivered:
  assumes "user_space m pt" "length bs \<le> 2 ^ 64" "\<forall>j < length bs. user_pa m pt (va + of_nat j) \<noteq> None"
  shows "copyin_bytes (user_pa m pt) (snd (copyout_bytes (user_pa m pt) m va bs)) va (length bs) = (0, bs)"
    "\<forall>j < length bs. user_pa m pt (va + of_nat j) \<noteq> Some x \<Longrightarrow> snd (copyout_bytes (user_pa m pt) m va bs) x = m x"
proof -
  have "copyout_bytes (user_pa m pt) m va bs = (0, snd (copyout_bytes (user_pa m pt) m va bs))"
    using copyout_bytes_result [of "user_pa m pt" m va bs] assms(3) by (metis prod.collapse)
  then show "copyin_bytes (user_pa m pt) (snd (copyout_bytes (user_pa m pt) m va bs)) va (length bs) = (0, bs)"
    using assms(1,2) by (intro copyout_copyin_bytes [of _ "user_pa m pt" m]) (auto simp: user_space_def)
  show "snd (copyout_bytes (user_pa m pt) m va bs) x = m x" if "\<forall>j < length bs. user_pa m pt (va + of_nat j) \<noteq> Some x"
    using that by (intro copyout_bytes_outside) auto
qed

section \<open>Properties\<close>

text \<open>C19: copying out to a user address space and back in. On an address space whose pages are mapped
  once and are not page-table pages, \<open>copyout\<close> answers 0 exactly when every byte of the destination is
  mapped for the user, and then \<open>copyin\<close> of the same range answers the very bytes; otherwise it answers
  -1. No byte outside the destination changes and the translations stay what they were.\<close>

theorem copyout_copyin:
  assumes "user_space (mem s) pt" "length src \<le> 2 ^ 64"
  shows "\<exists>r t. copyout pt va src s = Ok r t \<and> t = s\<lparr>mem := mem t\<rparr> \<and> user_pa (mem t) pt = user_pa (mem s) pt \<and>
    user_space (mem t) pt \<and>
    (\<forall>x. (\<forall>i < length src. user_pa (mem s) pt (va + of_nat i) \<noteq> Some x) \<longrightarrow> mem t x = mem s x) \<and>
    r = (if \<forall>i < length src. user_pa (mem s) pt (va + of_nat i) \<noteq> None then 0 else - 1) \<and>
    (r = 0 \<longrightarrow> copyin pt va (length src) t = Ok (0, src) t)"
proof -
  let ?tr = "user_pa (mem s) pt"
  obtain r m where rm: "copyout_bytes ?tr (mem s) va src = (r, m)" by fastforce
  let ?t = "s\<lparr>mem := m\<rparr>"
  have us: "table_ok 2 (mem s) pt" "\<And>va pa. ?tr va = Some pa \<Longrightarrow> PGROUNDDOWN pa \<notin> tpages 2 (mem s) pt"
    "\<And>va vb pa. ?tr va = Some pa \<Longrightarrow> ?tr vb = Some pa \<Longrightarrow> va = vb"
    using assms(1) by (auto simp: user_space_def)
  have out: "m x = mem s x" if "\<forall>i < length src. ?tr (va + of_nat i) \<noteq> Some x" for x
    using copyout_bytes_outside [of src ?tr va x "mem s"] rm that by simp
  then have tab: "m x = mem s x" if "PGROUNDDOWN x \<in> tpages 2 (mem s) pt" for x using us(2) that by blast
  have tr: "user_pa m pt = ?tr" by (rule user_pa_frame [OF us(1) tab])
  have sp: "user_space m pt" by (rule user_space_frame [OF assms(1) tab])
  then have "copyin pt va (length src) ?t = Ok (copyin_bytes ?tr m va (length src)) ?t"
    using copyin_refines [of ?t pt va "length src"] tr by (simp add: user_space_def)
  moreover have "copyin_bytes ?tr m va (length src) = (0, src)" if "r = 0"
    using copyout_copyin_bytes [where tr = ?tr and m = "mem s" and m' = m and va = va, OF assms(2)] us(3) rm that by blast
  ultimately show ?thesis
    using copyout_refines [OF assms(1), of va src] rm copyout_bytes_result [of ?tr "mem s" va src] out tr sp
    by (intro exI [of _ r] exI [of _ ?t]) auto
qed

theorem copyout_copyin_witness:
  "\<exists>(s :: kmem_st) pt t. user_space (mem s) pt \<and> copyout pt 4000 [1, 2, 3] s = Ok 0 t \<and>
     copyin pt 4000 3 t = Ok (0, [1, 2, 3]) t"
proof -
  let ?pt = "0x87fff000 :: uint64"
  obtain m p where m: "user_space m ?pt" "\<forall>va. user_pa m ?pt va = (if unat va < 4096 then Some (p + va) else None)"
    using one_page_space by blast
  let ?s = "\<lparr>mem = m, kend = 0, freelist = 0\<rparr> :: kmem_st"
  have i: "i < 3 \<Longrightarrow> unat (4000 + of_nat i :: uint64) < 4096" for i by (simp add: unat_word_ariths)
  have "\<exists>t. copyout ?pt 4000 [1, 2, 3] ?s = Ok 0 t \<and> copyin ?pt 4000 3 t = Ok (0, [1, 2, 3]) t"
    using copyout_copyin [of ?s ?pt "[1, 2, 3]" 4000] m i by (auto simp: numeral_3_eq_3)
  moreover have "user_space (mem ?s) ?pt" using m(1) by simp
  ultimately show ?thesis by blast
qed

end
