(* ===== verification/VmFork.thy ===== *)
theory VmFork
  imports UserMem
begin

text \<open>
  \<open>uvmcopy\<close> of kernel/vm.c, the copy of the parent's memory in \<open>fork\<close>. Its loop is an instance of the
  loop of VmSpace that maps fresh pages: page \<open>i\<close> gets the permissions of the parent's entry and the
  contents of the parent's page.
\<close>

text \<open>The parent: a table apart from the child's table and from the free pages, whose first \<open>length vs\<close>
  entries are \<open>vs\<close>.\<close>

definition parent_ok :: "memory \<Rightarrow> uint64 \<Rightarrow> uint64 list \<Rightarrow> uint64 set \<Rightarrow> bool" where
  "parent_ok m old vs ps \<longleftrightarrow> table_ok 2 m old \<and> tpages 2 m old \<inter> ps = {} \<and>
     (\<forall>i < length vs. lookup m old (of_nat i * 4096) = Some (vs ! i) \<and> leaf_perm (PTE_FLAGS (vs ! i)) \<and>
        PTE2PA (vs ! i) \<notin> ps \<and> PTE2PA (vs ! i) \<noteq> 0)"

definition copy_of :: "memory \<Rightarrow> uint64 list \<Rightarrow> nat \<Rightarrow> memory \<Rightarrow> uint64 \<Rightarrow> bool" where
  "copy_of m0 vs i m p \<longleftrightarrow> (\<forall>x. PGROUNDDOWN x = p \<longrightarrow> m x = m0 (PTE2PA (vs ! i) + (x - p)))"

lemma page_local_copy: "page_local (copy_of m0 vs)"
  by (simp add: page_local_def copy_of_def)

lemma page_end: "page_aligned p \<Longrightarrow> unat p + 4096 \<le> 2 ^ 64"
  using page_run by simp

lemma memmove_copy_of:
  assumes "page_aligned p" "\<And>x. PGROUNDDOWN x = PTE2PA (vs ! i) \<Longrightarrow> m x = m0 x"
  shows "copy_of m0 vs i (memmove m p (PTE2PA (vs ! i)) PGSIZE) p"
    "\<And>x. PGROUNDDOWN x \<noteq> p \<Longrightarrow> memmove m p (PTE2PA (vs ! i)) PGSIZE x = m x"
proof -
  let ?q = "PTE2PA (vs ! i)"
  have mv: "memmove m p ?q PGSIZE x = (if unat (x - p) < 4096 then m (?q + (x - p)) else m x)" for x
    using page_end [OF assms(1)] page_end [OF PTE2PA_aligned] by (simp add: memmove_apply PGSIZE_def)
  show "copy_of m0 vs i (memmove m p ?q PGSIZE) p" unfolding copy_of_def
  proof (intro allI impI)
    fix x assume "PGROUNDDOWN x = p"
    then have o: "unat (x - p) < 4096" using in_page_iff [OF assms(1)] by simp
    then have "PGROUNDDOWN (?q + (x - p)) = ?q" using in_page_iff [OF PTE2PA_aligned [of "vs ! i"], of "?q + (x - p)"] by simp
    then show "memmove m p ?q PGSIZE x = m0 (?q + (x - p))" using mv o assms(2) by simp
  qed
  show "memmove m p ?q PGSIZE x = m x" if "PGROUNDDOWN x \<noteq> p" for x
    using that mv in_page_iff [OF assms(1)] by simp
qed

text \<open>The parent's entry \<open>i\<close> is still there in every state of the loop.\<close>

lemma parent_walk:
  assumes "parent_ok (mem s0) old vs (tpages 2 (mem s0) new \<union> set fs0)" "i < length vs"
    and "\<And>x. PGROUNDDOWN x \<notin> tpages 2 (mem s0) new \<union> set fs0 \<Longrightarrow> mem s x = mem s0 x"
    and "of_nat i * 4096 < MAXVA"
  shows "\<exists>pte. walk old (of_nat i * 4096) False s = Ok pte s \<and> pte \<noteq> 0 \<and> load64 (mem s) pte = vs ! i \<and>
    vs ! i AND PTE_V \<noteq> 0"
proof -
  have t: "table_ok 2 (mem s0) old" and same: "\<And>x. PGROUNDDOWN x \<in> tpages 2 (mem s0) old \<Longrightarrow> mem s x = mem s0 x"
    and l: "lookup (mem s0) old (of_nat i * 4096) = Some (vs ! i)"
    using assms(1-3) by (auto simp: parent_ok_def)
  have "lookup (mem s) old (of_nat i * 4096) = Some (vs ! i)" using leaf_frame [OF t same] l by simp
  then show ?thesis using walk_lookup [OF table_ok_frame [OF t same] assms(4)] by blast
qed

lemma uvmcopy_from_spec:
  fixes s0 :: "'a kmem_st_scheme" and vs :: "uint64 list"
  defines "perm \<equiv> \<lambda>i. PTE_FLAGS (vs ! i)" and "good \<equiv> copy_of (mem s0) vs"
  assumes par: "parent_ok (mem s0) old vs (tpages 2 (mem s0) new \<union> set fs0)"
    and fit: "4096 * length vs \<le> unat MAXVA"
    and none: "\<And>vb. in_pages 0 (length vs) vb \<Longrightarrow> lookup (mem s0) new vb = None"
    and "uv_inv s0 fs0 new 0 perm good ps s fs"
    and "length vs = length ps + n" "n = pages_needed (of_nat (length ps) * 4096) sz"
  shows "\<exists>r t qs fs'. uvmcopy_from old new (of_nat (length ps) * 4096) sz s = Ok r t \<and>
    uv_inv s0 fs0 new 0 perm good qs t fs' \<and>
    (r = 0 \<and> length qs = length vs \<or> r = - 1 \<and> qs = [] \<and> length fs < 3 * n)"
  using assms(6-8)
proof (induction n arbitrary: ps s fs)
  case 0
  then have "\<not> of_nat (length ps) * 4096 < sz"
    using pages_needed_Suc [of "of_nat (length ps) * 4096" sz] page_addr [of 0 "length ps"] fit by (auto simp: MAXVA_def)
  then have "uvmcopy_from old new (of_nat (length ps) * 4096) sz s = Ok 0 s"
    by (subst uvmcopy_from.simps) simp
  then show ?case using 0 by auto
next
  case (Suc n)
  let ?l = "length ps"
  let ?a = "of_nat ?l * 4096 :: uint64"
  have lt: "?a < sz" using Suc.prems(3) pages_needed_0 by (metis nat.distinct(1))
  have ua: "unat ?a = 4096 * ?l" using page_addr [of 0 ?l] Suc.prems(2) fit by (simp add: MAXVA_def)
  have am: "?a < MAXVA" using ua Suc.prems(2) fit by (simp add: word_less_nat_alt)
  have l1: "unat 0 + 4096 * Suc ?l \<le> unat MAXVA" and l0: "unat 0 + 4096 * ?l \<le> unat MAXVA"
    using Suc.prems(2) fit by auto
  have il: "?l < length vs" using Suc.prems(2) by simp
  have lp: "leaf_perm (perm i)" if "i < ?l" for i using that par il by (simp add: parent_ok_def perm_def)
  have none_a: "lookup (mem s0) new (0 + ?a) = None" using ua il by (intro none) (simp add: in_pages_def)
  have none_l: "lookup (mem s0) new vb = None" if "in_pages 0 ?l vb" for vb
    using that il by (intro none) (auto simp: in_pages_def)
  have cnt: "?a div 4096 = of_nat ?l"
    using ua Suc.prems(2) fit by (simp add: word_unat_eq_iff unat_div MAXVA_def)
  obtain pte where w: "walk old ?a False s = Ok pte s" "pte \<noteq> 0" "load64 (mem s) pte = vs ! ?l" "vs ! ?l AND PTE_V \<noteq> 0"
    using parent_walk [OF par il uv_invD(6) [OF Suc.prems(1)] am] by blast
  have undo: "\<exists>t. bindR (uvmunmap new 0 (?a div 4096) True u) (\<lambda>_ s. Ok (- 1) s) = Ok (- 1 :: int) t \<and>
      uv_inv s0 fs0 new 0 perm good [] t (rev ps @ gs)" if "uv_inv s0 fs0 new 0 perm good ps u gs" for u gs
    using uv_unmap [OF that page_aligned_0 l0 lp none_l] cnt by auto
  show ?case
  proof (cases fs)
    case Nil
    then have k: "kalloc s = Ok 0 s"
      using uv_invD(1) [OF Suc.prems(1)] by (intro kalloc_None) (simp add: asp_def)
    obtain t where d: "bindR (uvmunmap new 0 (?a div 4096) True s) (\<lambda>_ s. Ok (- 1) s) = Ok (- 1 :: int) t"
        "uv_inv s0 fs0 new 0 perm good [] t (rev ps @ fs)"
      using undo [OF Suc.prems(1)] by blast
    have "uvmcopy_from old new ?a sz s = Ok (- 1) t"
      using lt w k d(1) by (subst uvmcopy_from.simps) simp
    then show ?thesis using d(2) Nil
      by (intro exI [of _ "- 1"] exI [of _ t] exI [of _ "[]"] exI [of _ "rev ps @ fs"]) auto
  next
    case (Cons p fs')
    note inv = Suc.prems(1) [unfolded Cons]
    obtain s1 where k: "kalloc s = Ok p s1" "ram_page s p" "\<forall>x. PGROUNDDOWN x \<noteq> p \<longrightarrow> mem s1 x = mem s x"
      using alloc_page [OF uv_invD(1) [OF inv]] by blast
    let ?q = "PTE2PA (vs ! ?l)" and ?m = "memmove (mem s1) p (PTE2PA (vs ! ?l)) PGSIZE"
    have pal: "page_aligned p" and p0: "p \<noteq> 0" using k(2) by (auto simp: ram_page_def)
    have pp: "p \<in> tpages 2 (mem s0) new \<union> set fs0" using uv_invD(4) [OF inv] by auto
    have q: "?q \<notin> tpages 2 (mem s0) new \<union> set fs0" using par il by (simp add: parent_ok_def)
    have src: "mem s1 x = mem s0 x" if "PGROUNDDOWN x = ?q" for x
      using that q pp k(3) uv_invD(6) [OF inv, of x] by metis
    have fill: "good ?l ?m p" "\<And>x. PGROUNDDOWN x \<noteq> p \<Longrightarrow> ?m x = mem s1 x"
      using memmove_copy_of [OF pal, of vs ?l "mem s1" "mem s0"] src by (auto simp: good_def)
    obtain r t j where st: "mappages new (0 + ?a) 4096 p (perm ?l) (s1\<lparr>mem := ?m\<rparr>) = Ok r t" "j \<le> 2"
      "if r = 0 then uv_inv s0 fs0 new 0 perm good (ps @ [p]) t (drop j fs')
       else r < 0 \<and> length fs' < 2 \<and>
         (\<exists>u. kfree p t = Ok () u \<and> uv_inv s0 fs0 new 0 perm good ps u (p # drop j fs'))"
      using uv_step [OF inv page_local_copy [of "mem s0" vs, folded good_def] page_aligned_0 l1 none_a k(1) fill(2,1)]
      by blast
    have step: "uvmcopy_from old new ?a sz s =
        (if r \<noteq> 0 then bindR (kfree p t) (\<lambda>_ s. bindR (uvmunmap new 0 (?a div 4096) True s) (\<lambda>_ s. Ok (- 1) s))
         else uvmcopy_from old new (?a + 4096) sz t)"
      using lt w k(1) p0 st(1) by (subst uvmcopy_from.simps) (simp add: perm_def Let_def)
    show ?thesis
    proof (cases "r = 0")
      case True
      have next_a: "of_nat (length (ps @ [p])) * 4096 = ?a + 4096" by (simp add: algebra_simps)
      have n: "n = pages_needed (?a + 4096) sz"
        using pages_needed_Suc [OF lt] ua il fit Suc.prems(3) by (simp add: MAXVA_def)
      have inv1: "uv_inv s0 fs0 new 0 perm good (ps @ [p]) t (drop j fs')" using st(3) True by simp
      have len: "length vs = length (ps @ [p]) + n" using Suc.prems(2) by simp
      obtain r' u qs gs where u: "uvmcopy_from old new (?a + 4096) sz t = Ok r' u" "uv_inv s0 fs0 new 0 perm good qs u gs"
          "r' = 0 \<and> length qs = length vs \<or> r' = - 1 \<and> qs = [] \<and> length (drop j fs') < 3 * n"
        using Suc.IH [OF inv1 len, unfolded next_a, OF n] by blast
      then show ?thesis using step True st(2) Cons
        by (intro exI [of _ r'] exI [of _ u] exI [of _ qs] exI [of _ gs]) auto
    next
      case False
      then obtain u where u: "kfree p t = Ok () u" "uv_inv s0 fs0 new 0 perm good ps u (p # drop j fs')" "length fs' < 2"
        using st(3) by auto
      obtain v where v: "bindR (uvmunmap new 0 (?a div 4096) True u) (\<lambda>_ s. Ok (- 1) s) = Ok (- 1 :: int) v"
          "uv_inv s0 fs0 new 0 perm good [] v (rev ps @ p # drop j fs')"
        using undo [OF u(2)] by blast
      then show ?thesis using step False u(1,3) Cons
        by (intro exI [of _ "- 1"] exI [of _ v] exI [of _ "[]"] exI [of _ "rev ps @ p # drop j fs'"]) auto
    qed
  qed
qed

section \<open>What the child sees\<close>

lemma flags_user: "leaf_perm (PTE_FLAGS v) \<Longrightarrow> page_aligned p \<Longrightarrow> new_pte p (PTE_FLAGS v) AND PTE_U = v AND PTE_U"
proof -
  assume a: "leaf_perm (PTE_FLAGS v)" "page_aligned p"
  have "new_pte p (PTE_FLAGS v) AND PTE_U = (PTE_FLAGS v OR PTE_V) AND PTE_U"
    using and_flags [of PTE_U "new_pte p (PTE_FLAGS v)"] new_pte_leaf(3) [OF a] by (simp add: PTE_U_def)
  also have "\<dots> = PTE_FLAGS v AND PTE_U" by (simp add: bit.conj_disj_distrib2 PTE_U_def PTE_V_def)
  also have "\<dots> = v AND PTE_U" using and_flags [of PTE_U v] by (simp add: PTE_U_def)
  finally show ?thesis .
qed

lemma child_byte:
  assumes par: "parent_ok (mem s) old vs ps0" and fit: "4096 * length vs \<le> unat MAXVA"
    and inv: "uv_inv s fs new 0 (\<lambda>i. PTE_FLAGS (vs ! i)) (copy_of (mem s) vs) ps t fs'"
    and len: "length ps = length vs" and va: "unat va < 4096 * length vs"
  shows "map_option (mem t) (user_pa (mem t) new va) = map_option (mem s) (user_pa (mem s) old va)"
proof -
  let ?i = "unat va div 4096"
  have i: "?i < length vs" using va by (simp add: div_less_iff_less_mult mult.commute)
  have vm: "va < MAXVA" "\<not> MAXVA \<le> PGROUNDDOWN va"
    using va fit PGROUNDDOWN_le [of va] by (auto simp: word_less_nat_alt word_le_nat_alt)
  have "PGROUNDDOWN va = of_nat ?i * 4096"
    using page_addr [of 0 ?i] i fit by (simp add: word_unat_eq_iff unat_PGROUNDDOWN MAXVA_def)
  then have lo: "lookup (mem s) old va = Some (vs ! ?i)" and p: "leaf_perm (PTE_FLAGS (vs ! ?i))" "PTE2PA (vs ! ?i) \<noteq> 0"
    using par i lookup_PGROUNDDOWN [of 2 "mem s" old va] by (auto simp: parent_ok_def)
  have o: "in_pages 0 (length ps) va" "page_index 0 va = ?i" using va len by (auto simp: in_pages_def page_index_def)
  then have ln: "lookup (mem t) new va = Some (new_pte (ps ! ?i) (PTE_FLAGS (vs ! ?i)))"
    using uv_invD(5) [OF inv vm(1)] by simp
  have own: "ram_page t (ps ! ?i)" "copy_of (mem s) vs ?i (mem t) (ps ! ?i)"
    using uv_invD(3) [OF inv] i len by (auto simp: pages_owned_def)
  have q: "page_aligned (ps ! ?i)" "ps ! ?i \<noteq> 0" using own(1) by (auto simp: ram_page_def)
  note new = new_pte_leaf(1) [OF p(1) q(1)] flags_user [OF p(1) q(1)]
  have "PGROUNDDOWN (ps ! ?i + (va - PGROUNDDOWN va)) = ps ! ?i"
    using in_page_iff [OF q(1), of "ps ! ?i + (va - PGROUNDDOWN va)"] page_offset(2) [of va] by simp
  then have "mem t (ps ! ?i + (va - PGROUNDDOWN va)) = mem s (PTE2PA (vs ! ?i) + (va - PGROUNDDOWN va))"
    using own(2) by (simp add: copy_of_def)
  then show ?thesis using lo ln vm(2) p(2) q(2) new by (auto simp: user_pa_def)
qed

section \<open>Properties\<close>

text \<open>C18: copying an address space in \<open>fork\<close>. When the parent's pages are all present, \<open>uvmcopy\<close> does
  not panic; it answers 0 after mapping every page of the parent, with the parent's permissions, to a fresh
  page of its own (the partition of pages into table, free list and child pages is that of \<open>uvmalloc\<close>), and
  then the child sees at every address exactly the bytes that the parent sees; or it answers -1 and has
  given back every user page (pages taken for the child's tables stay in its table), which happens only with fewer than three free pages per page to copy. The
  parent's memory is unchanged.\<close>

theorem uvmcopy_copies:
  assumes "asp s new fs" "parent_ok (mem s) old vs (tpages 2 (mem s) new \<union> set fs)"
    and "sz \<le> MAXVA" "length vs = pages_needed 0 sz"
    and "\<And>vb. in_pages 0 (length vs) vb \<Longrightarrow> lookup (mem s) new vb = None"
  shows "\<exists>r t ps fs'. uvmcopy old new sz s = Ok r t \<and>
    uv_inv s fs new 0 (\<lambda>i. PTE_FLAGS (vs ! i)) (copy_of (mem s) vs) ps t fs' \<and>
    (r = 0 \<and> length ps = length vs \<or> r = - 1 \<and> ps = [] \<and> length fs < 3 * length vs) \<and>
    (r = 0 \<longrightarrow> (\<forall>va. unat va < 4096 * length vs \<longrightarrow>
       map_option (mem t) (user_pa (mem t) new va) = map_option (mem s) (user_pa (mem s) old va)))"
proof -
  have fit: "4096 * length vs \<le> unat MAXVA"
    using pages_needed_bound [of 0 sz] assms(3,4) by (simp add: word_le_nat_alt)
  have "length vs = length ([] :: uint64 list) + length vs" by simp
  moreover have "length vs = pages_needed (of_nat (length ([] :: uint64 list)) * 4096) sz" using assms(4) by simp
  ultimately obtain r t ps fs' where t: "uvmcopy_from old new (of_nat (length ([] :: uint64 list)) * 4096) sz s = Ok r t"
      "uv_inv s fs new 0 (\<lambda>i. PTE_FLAGS (vs ! i)) (copy_of (mem s) vs) ps t fs'"
      "r = 0 \<and> length ps = length vs \<or> r = - 1 \<and> ps = [] \<and> length fs < 3 * length vs"
    using uvmcopy_from_spec [OF assms(2) fit assms(5) uv_inv_start [OF assms(1)]] by metis
  moreover have "map_option (mem t) (user_pa (mem t) new va) = map_option (mem s) (user_pa (mem s) old va)"
    if "r = 0" "unat va < 4096 * length vs" for va
    using child_byte [OF assms(2) fit t(2) _ that(2)] t(3) that(1) by simp
  ultimately show ?thesis by (auto simp: uvmcopy_def)
qed

text \<open>A parent with one page and a child with an empty table and six free pages.\<close>

lemma fork_state:
  "\<exists>(s :: kmem_st) v. asp s 0x86000000 [0x86001000, 0x86002000, 0x86003000, 0x86004000] \<and>
     parent_ok (mem s) 0x87fff000 [v] {0x86000000, 0x86001000, 0x86002000, 0x86003000, 0x86004000} \<and>
     (\<forall>vb. lookup (mem s) 0x86000000 vb = None) \<and> tpages 2 (mem s) 0x86000000 = {0x86000000}"
proof -
  let ?new = "0x86000000 :: uint64" and ?fs = "[0x86001000, 0x86002000, 0x86003000, 0x86004000] :: uint64 list"
  let ?old = "0x87fff000 :: uint64" and ?perm = "PTE_R OR PTE_U OR PTE_W"
  obtain c :: kmem_st where c: "asp c ?new ?fs" "\<forall>va. lookup (mem c) ?new va = None" "tpages 2 (mem c) ?new = {?new}"
    using fresh_asp [of ?new ?fs] by (auto simp: page_aligned_mod PHYSTOP_eq)
  obtain m p where m: "user_space m ?old" "lookup m ?old 0 = Some (new_pte p ?perm)" "page_aligned p" "p \<noteq> 0"
      "insert p (tpages 2 m ?old) \<subseteq> {?old, 0x87ffe000, 0x87ffd000, 0x87ffc000}"
    using one_page_space by blast
  define s where "s = c\<lparr>mem := \<lambda>x. if PGROUNDDOWN x \<in> set (?new # ?fs) then mem c x else m x\<rparr>"
  have sc: "mem s x = mem c x" if "PGROUNDDOWN x \<in> set (?new # ?fs)" for x using that by (simp add: s_def)
  have sm: "mem s x = m x" if "PGROUNDDOWN x \<in> tpages 2 m ?old" for x using that m(5) by (auto simp: s_def)
  have tc: "table_ok 2 (mem c) ?new" and fc: "free_pages c ?fs" using c(1) by (auto simp: asp_def)
  have tn: "\<And>x. PGROUNDDOWN x \<in> tpages 2 (mem c) ?new \<Longrightarrow> mem s x = mem c x" using sc c(3) by simp
  have ts: "tpages 2 (mem s) ?new = {?new}" using tpages_frame [OF tc tn] c(3) by simp
  have "free_pages s ?fs" using sc by (intro free_pages_frame [OF fc]) (auto simp: s_def)
  then have "asp s ?new ?fs" using table_ok_frame [OF tc tn] ts by (simp add: asp_def)
  moreover have lp: "leaf_perm ?perm" "leaf_perm (?perm OR PTE_V)" by (simp_all add: leaf_perm_def pte_bits)
  have "p \<notin> {?new, 0x86001000, 0x86002000, 0x86003000, 0x86004000}" using m(5) by auto
  then have "parent_ok (mem s) ?old [new_pte p ?perm] {?new, 0x86001000, 0x86002000, 0x86003000, 0x86004000}"
    using table_ok_frame [of 2 m ?old "mem s"] tpages_frame [of 2 m ?old "mem s"] leaf_frame [of 2 m ?old "mem s" 0] m sm
      new_pte_leaf [OF lp(1) m(3)] lp(2) by (auto simp: parent_ok_def user_space_def)
  moreover have "\<forall>vb. lookup (mem s) ?new vb = None" using leaf_frame [OF tc tn] c(2) by simp
  ultimately show ?thesis using ts by blast
qed

theorem uvmcopy_copies_witness:
  "\<exists>(s :: kmem_st) t. uvmcopy 0x87fff000 0x86000000 4096 s = Ok 0 t \<and>
     (\<forall>va. unat va < 4096 \<longrightarrow>
       map_option (mem t) (user_pa (mem t) 0x86000000 va) = map_option (mem s) (user_pa (mem s) 0x87fff000 va))"
proof -
  let ?fs = "[0x86001000, 0x86002000, 0x86003000, 0x86004000] :: uint64 list"
  obtain s :: kmem_st and v where s: "asp s 0x86000000 ?fs" "\<forall>vb. lookup (mem s) 0x86000000 vb = None"
      "parent_ok (mem s) 0x87fff000 [v] {0x86000000, 0x86001000, 0x86002000, 0x86003000, 0x86004000}"
      "tpages 2 (mem s) 0x86000000 = {0x86000000}"
    using fork_state by blast
  have pn: "length [v] = pages_needed 0 4096" by (simp add: pages_needed_def)
  have "tpages 2 (mem s) 0x86000000 \<union> set ?fs = {0x86000000, 0x86001000, 0x86002000, 0x86003000, 0x86004000}"
    using s(4) by auto
  then have par: "parent_ok (mem s) 0x87fff000 [v] (tpages 2 (mem s) 0x86000000 \<union> set ?fs)" using s(3) by (simp only:)
  have sz: "(4096 :: uint64) \<le> MAXVA" by (simp add: MAXVA_def)
  have none: "lookup (mem s) 0x86000000 vb = None" for vb using s(2) by blast
  obtain r t and ps :: "uint64 list" where t: "uvmcopy 0x87fff000 0x86000000 4096 s = Ok r t"
      "r = 0 \<and> length ps = length [v] \<or> r = - 1 \<and> ps = [] \<and> length ?fs < 3 * length [v]"
      "r = 0 \<longrightarrow> (\<forall>va. unat va < 4096 * length [v] \<longrightarrow>
        map_option (mem t) (user_pa (mem t) 0x86000000 va) = map_option (mem s) (user_pa (mem s) 0x87fff000 va))"
    using uvmcopy_copies [OF s(1) par sz pn none] by blast
  then have "r = 0" by simp
  then show ?thesis using t(1,3) by (intro exI [of _ s] exI [of _ t]) simp
qed

end
