(* ===== verification/Spinlock.thy ===== *)
theory Spinlock
  imports Prelude
begin

text \<open>
  kernel/spinlock.c. \<open>push_off\<close>, \<open>pop_off\<close> and \<open>holding\<close> are functions on the state of one
  hart (\<open>struct cpu\<close> of kernel/proc.h together with the interrupt-enable bit of its
  \<open>sstatus\<close>) and of one lock. \<open>acquire\<close> and \<open>release\<close> are run by several harts at once, so
  they are also given as the step relation \<open>spin_step\<close>: one rule per atomic action of the C
  code (the atomic swap of \<open>__sync_lock_test_and_set\<close>, the store of \<open>lk->cpu\<close>, the clearing
  store of \<open>__sync_lock_release\<close>), with a program counter per hart. A hart that panics stops.

  Main results: in every reachable state at most one hart owns a lock; a hart that owns a
  lock has interrupts off; the \<open>push_off\<close> depth of a hart is the number of locks it owns plus
  the one it is about to take or has just dropped. If no hart acquires a lock it owns or releases one it does not own
  (\<open>well_nested\<close>), none of the panics of \<open>acquire\<close>, \<open>release\<close> and \<open>pop_off\<close> is reached.
\<close>

section \<open>State\<close>

record cpu =
  c_proc :: "nat option"
  c_noff :: int
  c_intena :: bool
  c_sie :: bool

record spinlock =
  l_locked :: bool
  l_cpu :: "nat option"

section \<open>Interrupt nesting and lock tests\<close>

definition initlock :: "spinlock \<Rightarrow> spinlock" where
  "initlock lk = lk\<lparr>l_locked := False, l_cpu := None\<rparr>"

definition push_off :: "cpu \<Rightarrow> cpu" where
  "push_off c =
     (let old = c_sie c;
          c1 = c\<lparr>c_sie := False\<rparr>;
          c2 = (if c_noff c1 = 0 then c1\<lparr>c_intena := old\<rparr> else c1)
      in c2\<lparr>c_noff := c_noff c2 + 1\<rparr>)"

definition pop_off :: "cpu \<Rightarrow> (unit, cpu) res" where
  "pop_off c =
     (if c_sie c then Panic ''pop_off - interruptible''
      else if c_noff c < 1 then Panic ''pop_off''
      else
        let c1 = c\<lparr>c_noff := c_noff c - 1\<rparr> in
        if c_noff c1 = 0 \<and> c_intena c1 then Ok () (c1\<lparr>c_sie := True\<rparr>) else Ok () c1)"

definition holding :: "nat \<Rightarrow> spinlock \<Rightarrow> bool" where
  "holding hart lk \<longleftrightarrow> l_locked lk \<and> l_cpu lk = Some hart"

section \<open>Harts running acquire and release\<close>

datatype spin_pc =
    Running
  | AcqCheck nat
  | AcqSpin nat
  | AcqRecord nat
  | RelCheck nat
  | RelClear nat
  | RelUnlock nat
  | RelPop nat
  | Panicked

record spin_st =
  harts :: "nat \<Rightarrow> cpu"
  locks :: "nat \<Rightarrow> spinlock"
  pcs :: "nat \<Rightarrow> spin_pc"

definition spin_init :: "spin_st \<Rightarrow> bool" where
  "spin_init s \<longleftrightarrow>
     (\<forall>h. pcs s h = Running \<and> c_noff (harts s h) = 0) \<and>
     (\<forall>l. locks s l = initlock (locks s l))"

inductive spin_step :: "spin_st \<Rightarrow> spin_st \<Rightarrow> bool" where
  interrupts: "pcs s h = Running \<Longrightarrow> c_noff (harts s h) = 0 \<Longrightarrow>
    spin_step s (s\<lparr>harts := (harts s)(h := (harts s h)\<lparr>c_sie := b\<rparr>)\<rparr>)"
| acquire_enter: "pcs s h = Running \<Longrightarrow>
    spin_step s (s\<lparr>harts := (harts s)(h := push_off (harts s h)), pcs := (pcs s)(h := AcqCheck l)\<rparr>)"
| acquire_check: "pcs s h = AcqCheck l \<Longrightarrow>
    spin_step s (s\<lparr>pcs := (pcs s)(h := if holding h (locks s l) then Panicked else AcqSpin l)\<rparr>)"
| acquire_swap: "pcs s h = AcqSpin l \<Longrightarrow>
    spin_step s (s\<lparr>locks := (locks s)(l := (locks s l)\<lparr>l_locked := True\<rparr>),
      pcs := (pcs s)(h := if l_locked (locks s l) then AcqSpin l else AcqRecord l)\<rparr>)"
| acquire_record: "pcs s h = AcqRecord l \<Longrightarrow>
    spin_step s (s\<lparr>locks := (locks s)(l := (locks s l)\<lparr>l_cpu := Some h\<rparr>),
      pcs := (pcs s)(h := Running)\<rparr>)"
| release_enter: "pcs s h = Running \<Longrightarrow> spin_step s (s\<lparr>pcs := (pcs s)(h := RelCheck l)\<rparr>)"
| release_check: "pcs s h = RelCheck l \<Longrightarrow>
    spin_step s (s\<lparr>pcs := (pcs s)(h := if holding h (locks s l) then RelClear l else Panicked)\<rparr>)"
| release_clear: "pcs s h = RelClear l \<Longrightarrow>
    spin_step s (s\<lparr>locks := (locks s)(l := (locks s l)\<lparr>l_cpu := None\<rparr>),
      pcs := (pcs s)(h := RelUnlock l)\<rparr>)"
| release_unlock: "pcs s h = RelUnlock l \<Longrightarrow>
    spin_step s (s\<lparr>locks := (locks s)(l := (locks s l)\<lparr>l_locked := False\<rparr>),
      pcs := (pcs s)(h := RelPop l)\<rparr>)"
| release_pop: "pcs s h = RelPop l \<Longrightarrow> pop_off (harts s h) = Ok () c \<Longrightarrow>
    spin_step s (s\<lparr>harts := (harts s)(h := c), pcs := (pcs s)(h := Running)\<rparr>)"
| release_pop_panic: "pcs s h = RelPop l \<Longrightarrow> pop_off (harts s h) = Panic e \<Longrightarrow>
    spin_step s (s\<lparr>pcs := (pcs s)(h := Panicked)\<rparr>)"

inductive spin_reachable :: "spin_st \<Rightarrow> bool" where
  start: "spin_init s \<Longrightarrow> spin_reachable s"
| step: "spin_reachable s \<Longrightarrow> spin_step s t \<Longrightarrow> spin_reachable t"

text \<open>The discipline of the callers: a hart calls \<open>acquire\<close> for a lock it does not own, and \<open>release\<close> for one it owns.\<close>

definition well_nested :: "spin_st \<Rightarrow> spin_st \<Rightarrow> bool" where
  "well_nested s t \<longleftrightarrow> (\<forall>h l. pcs s h = Running \<longrightarrow>
     (pcs t h = AcqCheck l \<longrightarrow> l_cpu (locks s l) \<noteq> Some h) \<and> (pcs t h = RelCheck l \<longrightarrow> l_cpu (locks s l) = Some h))"

inductive nested_reachable :: "spin_st \<Rightarrow> bool" where
  nested_start: "spin_init s \<Longrightarrow> nested_reachable s"
| nested_step: "nested_reachable s \<Longrightarrow> spin_step s t \<Longrightarrow> well_nested s t \<Longrightarrow> nested_reachable t"

section \<open>The invariant\<close>

text \<open>A hart owns a lock from the successful swap to the clearing store.\<close>

definition owns :: "spin_st \<Rightarrow> nat \<Rightarrow> nat \<Rightarrow> bool" where
  "owns s h l \<longleftrightarrow> pcs s h = AcqRecord l \<or> l_cpu (locks s l) = Some h \<or> pcs s h = RelUnlock l"

definition lock_inv :: "spin_st \<Rightarrow> bool" where
  "lock_inv s \<longleftrightarrow>
     (\<forall>h l. owns s h l \<longrightarrow> l_locked (locks s l)) \<and>
     (\<forall>h h' l. owns s h l \<longrightarrow> owns s h' l \<longrightarrow> h = h') \<and>
     (\<forall>h l. pcs s h = AcqRecord l \<or> pcs s h = RelUnlock l \<longrightarrow> l_cpu (locks s l) = None) \<and>
     (\<forall>h l. pcs s h = RelClear l \<longrightarrow> l_cpu (locks s l) = Some h)"

lemma lock_invD:
  assumes "lock_inv s"
  shows "owns s h l \<Longrightarrow> l_locked (locks s l)"
    and "owns s h l \<Longrightarrow> owns s h' l \<Longrightarrow> h = h'"
    and "pcs s h = AcqRecord l \<Longrightarrow> l_cpu (locks s l) = None"
    and "pcs s h = RelUnlock l \<Longrightarrow> l_cpu (locks s l) = None"
    and "pcs s h = RelClear l \<Longrightarrow> l_cpu (locks s l) = Some h"
  using assms by (auto simp: lock_inv_def)

lemma lock_inv_init: "spin_init s \<Longrightarrow> lock_inv s"
proof -
  assume i: "spin_init s"
  then have "l_cpu (locks s l) = None" for l
    unfolding spin_init_def initlock_def by (metis spinlock.select_convs(2) spinlock.surjective spinlock.update_convs(2))
  with i show ?thesis by (simp add: lock_inv_def owns_def spin_init_def)
qed

text \<open>Steps that touch no lock and neither enter nor leave the two windows where \<open>lk->cpu\<close> is unset.\<close>

fun unrecorded :: "spin_pc \<Rightarrow> nat option" where
  "unrecorded (AcqRecord l) = Some l"
| "unrecorded (RelUnlock l) = Some l"
| "unrecorded _ = None"

lemma unrecorded_Some: "unrecorded pc = Some l \<longleftrightarrow> pc = AcqRecord l \<or> pc = RelUnlock l"
  by (cases pc) auto

lemma owns_iff: "owns s h l \<longleftrightarrow> unrecorded (pcs s h) = Some l \<or> l_cpu (locks s l) = Some h"
  by (auto simp: owns_def unrecorded_Some)

lemma lock_inv_quiet:
  assumes "lock_inv s" "locks t = locks s" "\<And>h. unrecorded (pcs t h) = unrecorded (pcs s h)"
    and "\<And>h l. pcs t h = RelClear l \<Longrightarrow> l_cpu (locks s l) = Some h"
  shows "lock_inv t"
proof -
  have "owns t = owns s" using assms(2,3) by (simp add: owns_iff fun_eq_iff)
  then show ?thesis using assms
    unfolding lock_inv_def unrecorded_Some [symmetric] by simp
qed

lemma lock_inv_step:
  assumes "spin_step s t" "lock_inv s"
  shows "lock_inv t"
  using assms
proof cases
  case (acquire_swap h l)
  show ?thesis
  proof (cases "l_locked (locks s l)")
    case True
    with acquire_swap assms(2) show ?thesis by (auto simp: lock_inv_def owns_def)
  next
    case False
    with assms(2) have no: "\<not> owns s h' l" for h' using lock_invD(1) by blast
    then have "l_cpu (locks s l) = None" by (cases "l_cpu (locks s l)") (auto simp: owns_def)
    with no False acquire_swap assms(2) show ?thesis
      by (auto simp: lock_inv_def owns_def)
  qed
next
  case (acquire_record h l)
  then have "owns s h l" by (simp add: owns_def)
  then have "owns s h' l \<Longrightarrow> h' = h" for h' using assms(2) lock_invD(2) by blast
  moreover have "pcs s h' \<noteq> RelClear l" for h'
    using lock_invD(3,5) [OF assms(2)] acquire_record by fastforce
  ultimately show ?thesis using acquire_record assms(2)
    by (auto simp: lock_inv_def owns_def)
next
  case (release_clear h l)
  then have c: "l_cpu (locks s l) = Some h" using assms(2) lock_invD(5) by blast
  have "owns t h' l' = owns s h' l'" for h' l'
    using release_clear c by (cases "h = h'") (auto simp: owns_def)
  moreover have "l_locked (locks t l') = l_locked (locks s l')" for l'
    using release_clear by simp
  moreover have "pcs t h' = AcqRecord l' \<or> pcs t h' = RelUnlock l' \<Longrightarrow> l_cpu (locks t l') = None" for h' l'
    using release_clear lock_invD(3,4) [OF assms(2), of h' l'] by (cases "h = h'") auto
  moreover have "pcs t h' = RelClear l' \<Longrightarrow> l_cpu (locks t l') = Some h'" for h' l'
    using release_clear c lock_invD(5) [OF assms(2), of h' l'] by (cases "h = h'") auto
  ultimately show ?thesis using lock_invD(1,2) [OF assms(2)]
    unfolding lock_inv_def by metis
next
  case (release_unlock h l)
  then have n: "l_cpu (locks s l) = None" using assms(2) lock_invD(4) by blast
  have "h' = h" if "owns s h' l" for h'
    using that release_unlock lock_invD(2) [OF assms(2), of h' l h] by (simp add: owns_def)
  then have "owns t h' l' \<longleftrightarrow> owns s h' l' \<and> l' \<noteq> l" for h' l'
    using release_unlock n by (cases "h = h'") (auto simp: owns_def)
  moreover have "l' \<noteq> l \<Longrightarrow> l_locked (locks t l') = l_locked (locks s l')" for l'
    using release_unlock by simp
  moreover have "pcs t h' = AcqRecord l' \<or> pcs t h' = RelUnlock l' \<Longrightarrow> l_cpu (locks t l') = None" for h' l'
    using release_unlock lock_invD(3,4) [OF assms(2), of h' l'] by (cases "h = h'") auto
  moreover have "pcs t h' = RelClear l' \<Longrightarrow> l_cpu (locks t l') = Some h'" for h' l'
    using release_unlock lock_invD(5) [OF assms(2), of h' l'] by (cases "h = h'") auto
  ultimately show ?thesis using lock_invD(1,2) [OF assms(2)]
    unfolding lock_inv_def by metis
next
  case (interrupts h b)
  show ?thesis
    by (rule lock_inv_quiet [OF assms(2)])
      (auto simp: interrupts holding_def lock_invD(5) [OF assms(2)] split: if_splits)
next
  case (acquire_enter h l)
  show ?thesis
    by (rule lock_inv_quiet [OF assms(2)])
      (auto simp: acquire_enter holding_def lock_invD(5) [OF assms(2)] split: if_splits)
next
  case (acquire_check h l)
  show ?thesis
    by (rule lock_inv_quiet [OF assms(2)])
      (auto simp: acquire_check holding_def lock_invD(5) [OF assms(2)] split: if_splits)
next
  case (release_enter h l)
  show ?thesis
    by (rule lock_inv_quiet [OF assms(2)])
      (auto simp: release_enter holding_def lock_invD(5) [OF assms(2)] split: if_splits)
next
  case (release_check h l)
  show ?thesis
    by (rule lock_inv_quiet [OF assms(2)])
      (auto simp: release_check holding_def lock_invD(5) [OF assms(2)] split: if_splits)
next
  case (release_pop h l c)
  show ?thesis
    by (rule lock_inv_quiet [OF assms(2)])
      (auto simp: release_pop holding_def lock_invD(5) [OF assms(2)] split: if_splits)
next
  case (release_pop_panic h l e)
  show ?thesis
    by (rule lock_inv_quiet [OF assms(2)])
      (auto simp: release_pop_panic holding_def lock_invD(5) [OF assms(2)] split: if_splits)
qed

lemma lock_inv_reachable: "spin_reachable s \<Longrightarrow> lock_inv s"
proof (induction rule: spin_reachable.induct)
  case (start s)
  then show ?case by (rule lock_inv_init)
next
  case (step s t)
  then show ?case using lock_inv_step by blast
qed

section \<open>Nesting depth and interrupts\<close>

definition held :: "spin_st \<Rightarrow> nat \<Rightarrow> nat set" where
  "held s h = {l. owns s h l}"

fun pending :: "spin_pc \<Rightarrow> int" where
  "pending (AcqCheck l) = 1"
| "pending (AcqSpin l) = 1"
| "pending (RelPop l) = 1"
| "pending _ = 0"

definition depth_ok :: "spin_st \<Rightarrow> nat \<Rightarrow> bool" where
  "depth_ok s h \<longleftrightarrow>
     (pcs s h \<noteq> Panicked \<longrightarrow>
        finite (held s h) \<and> c_noff (harts s h) = int (card (held s h)) + pending (pcs s h)) \<and>
     (0 < c_noff (harts s h) \<longrightarrow> \<not> c_sie (harts s h))"

text \<open>Every step but the successful swap and the unlocking store leaves the owned locks alone.\<close>

lemma held_step:
  assumes "spin_step s t" "lock_inv s"
  shows "held t h' = held s h' \<and>
      (\<forall>l. \<not> (pcs s h' = AcqSpin l \<and> pcs t h' = AcqRecord l) \<and>
           \<not> (pcs s h' = RelUnlock l \<and> pcs t h' = RelPop l)) \<or>
    (\<exists>l. pcs s h' = AcqSpin l \<and> pcs t h' = AcqRecord l \<and> l \<notin> held s h' \<and> held t h' = insert l (held s h') \<and>
       harts t = harts s) \<or>
    (\<exists>l. pcs s h' = RelUnlock l \<and> pcs t h' = RelPop l \<and> l \<in> held s h' \<and> held t h' = held s h' - {l} \<and>
       harts t = harts s)"
  using assms
proof cases
  case (acquire_swap h l)
  show ?thesis
  proof (cases "l_locked (locks s l) \<or> h \<noteq> h'")
    case True
    with acquire_swap show ?thesis by (auto simp: held_def owns_def)
  next
    case False
    with assms(2) have "\<not> owns s h' l" using lock_invD(1) by blast
    with False acquire_swap show ?thesis by (auto simp: held_def owns_def)
  qed
next
  case (acquire_record h l)
  then have "owns s h l" "l_cpu (locks s l) = None"
    using lock_invD(3) [OF assms(2)] by (auto simp: owns_def)
  with acquire_record show ?thesis
    by (cases "h = h'") (auto simp: held_def owns_def)
next
  case (release_clear h l)
  then have c: "l_cpu (locks s l) = Some h" using assms(2) lock_invD(5) by blast
  with release_clear show ?thesis
    by (cases "h = h'") (auto simp: held_def owns_def)
next
  case (release_unlock h l)
  then have "l_cpu (locks s l) = None" using assms(2) lock_invD(4) by blast
  with release_unlock show ?thesis
    by (cases "h = h'") (auto simp: held_def owns_def)
next
  case (interrupts h b)
  have "held t h' = held s h'" by (auto simp: held_def owns_def interrupts)
  then show ?thesis by (simp add: interrupts)
next
  case (acquire_enter h l)
  have "held t h' = held s h'" by (auto simp: held_def owns_def acquire_enter)
  then show ?thesis by (simp add: acquire_enter)
next
  case (acquire_check h l)
  have "held t h' = held s h'" by (auto simp: held_def owns_def acquire_check)
  then show ?thesis by (simp add: acquire_check)
next
  case (release_enter h l)
  have "held t h' = held s h'" by (auto simp: held_def owns_def release_enter)
  then show ?thesis by (simp add: release_enter)
next
  case (release_check h l)
  have "held t h' = held s h'" by (auto simp: held_def owns_def release_check)
  then show ?thesis by (simp add: release_check)
next
  case (release_pop h l c)
  have "held t h' = held s h'" by (auto simp: held_def owns_def release_pop)
  then show ?thesis by (simp add: release_pop)
next
  case (release_pop_panic h l e)
  have "held t h' = held s h'" by (auto simp: held_def owns_def release_pop_panic)
  then show ?thesis by (simp add: release_pop_panic)
qed

lemma depth_ok_init: "spin_init s \<Longrightarrow> depth_ok s h"
proof -
  assume i: "spin_init s"
  then have "l_cpu (locks s l) = None" for l
    unfolding spin_init_def initlock_def
    by (metis spinlock.select_convs(2) spinlock.surjective spinlock.update_convs(2))
  with i show ?thesis by (simp add: depth_ok_def held_def owns_def spin_init_def)
qed

lemma push_pop:
  "0 \<le> c_noff c \<Longrightarrow> (0 < c_noff c \<Longrightarrow> \<not> c_sie c) \<Longrightarrow> \<exists>d. pop_off (push_off c) = Ok () d \<and> c_noff d = c_noff c \<and> c_sie d = c_sie c"
  by (cases "c_noff c = 0") (auto simp: pop_off_def push_off_def Let_def)

lemma pop_off_depth:
  assumes "depth_ok s h" "pcs s h = RelPop l"
  shows "\<exists>c. pop_off (harts s h) = Ok () c \<and> c_noff c = c_noff (harts s h) - 1 \<and>
           (0 < c_noff c \<longrightarrow> \<not> c_sie c)"
  using assms by (auto simp: depth_ok_def pop_off_def Let_def)

lemma depth_ok_step:
  assumes step: "spin_step s t" and inv: "lock_inv s" and ok: "depth_ok s h'"
  shows "depth_ok t h'"
proof -
  from held_step [OF step inv, of h']
  consider (same) "held t h' = held s h'"
        "\<forall>l. \<not> (pcs s h' = AcqSpin l \<and> pcs t h' = AcqRecord l) \<and>
             \<not> (pcs s h' = RelUnlock l \<and> pcs t h' = RelPop l)"
    | (gain) l where "pcs s h' = AcqSpin l" "pcs t h' = AcqRecord l" "l \<notin> held s h'"
        "held t h' = insert l (held s h')" "harts t = harts s"
    | (lose) l where "pcs s h' = RelUnlock l" "pcs t h' = RelPop l" "l \<in> held s h'"
        "held t h' = held s h' - {l}" "harts t = harts s"
    by blast
  then show ?thesis
  proof cases
    case same
    from step show ?thesis
    proof cases
      case (interrupts h b)
      then show ?thesis using ok same
        by (cases "h = h'") (simp_all add: depth_ok_def split: if_splits)
    next
      case (acquire_enter h l)
      then show ?thesis using ok same
        by (cases "h = h'") (simp_all add: depth_ok_def push_off_def Let_def split: if_splits)
    next
      case (acquire_check h l)
      then show ?thesis using ok same
        by (cases "h = h'") (simp_all add: depth_ok_def split: if_splits)
    next
      case (acquire_swap h l)
      then show ?thesis using ok same
        by (cases "h = h'") (simp_all add: depth_ok_def split: if_splits)
    next
      case (acquire_record h l)
      then show ?thesis using ok same
        by (cases "h = h'") (simp_all add: depth_ok_def split: if_splits)
    next
      case (release_enter h l)
      then show ?thesis using ok same
        by (cases "h = h'") (simp_all add: depth_ok_def split: if_splits)
    next
      case (release_check h l)
      then show ?thesis using ok same
        by (cases "h = h'") (simp_all add: depth_ok_def split: if_splits)
    next
      case (release_clear h l)
      then show ?thesis using ok same
        by (cases "h = h'") (simp_all add: depth_ok_def split: if_splits)
    next
      case (release_unlock h l)
      then show ?thesis using ok same
        by (cases "h = h'") (simp_all add: depth_ok_def split: if_splits)
    next
      case (release_pop h l c)
      then show ?thesis using ok same pop_off_depth [OF ok, of l]
        by (cases "h = h'") (auto simp: depth_ok_def)
    next
      case (release_pop_panic h l e)
      then show ?thesis using ok same pop_off_depth [OF ok, of l]
        by (cases "h = h'") (auto simp: depth_ok_def)
    qed
  next
    case gain
    then show ?thesis using ok by (auto simp: depth_ok_def)
  next
    case lose
    moreover from this ok have "0 < card (held s h')" by (auto simp: depth_ok_def card_gt_0_iff)
    ultimately show ?thesis using ok by (simp add: depth_ok_def of_nat_diff Suc_le_eq)
  qed
qed

lemma depth_ok_reachable: "spin_reachable s \<Longrightarrow> depth_ok s h"
proof (induction rule: spin_reachable.induct)
  case (start s)
  then show ?case by (rule depth_ok_init)
next
  case (step s t)
  then show ?case using depth_ok_step [OF step.hyps(2) lock_inv_reachable] by simp
qed

section \<open>Properties\<close>

lemma depth_ok_owner:
  assumes "depth_ok s h" "owns s h l" "pcs s h \<noteq> Panicked"
  shows "0 < c_noff (harts s h)"
proof -
  have "held s h \<noteq> {}" using assms(2) by (auto simp: held_def)
  moreover have "0 \<le> pending (pcs s h)" by (cases "pcs s h") auto
  ultimately show ?thesis using assms(1,3) by (simp add: depth_ok_def card_gt_0_iff add_pos_nonneg)
qed

text \<open>Under the discipline of the callers the checks of \<open>acquire\<close> and \<open>release\<close> succeed.\<close>

lemma nested_is_reachable: "nested_reachable s \<Longrightarrow> spin_reachable s"
  by (induction rule: nested_reachable.induct) (blast intro: spin_reachable.intros)+

definition nest_inv :: "spin_st \<Rightarrow> bool" where
  "nest_inv s \<longleftrightarrow> (\<forall>h l. pcs s h \<noteq> Panicked \<and> (pcs s h = AcqCheck l \<longrightarrow> l_cpu (locks s l) \<noteq> Some h) \<and>
     (pcs s h = RelCheck l \<longrightarrow> l_cpu (locks s l) = Some h))"

lemma nest_invD:
  assumes "nest_inv s"
  shows "pcs s h \<noteq> Panicked" "pcs s h = AcqCheck l \<Longrightarrow> l_cpu (locks s l) \<noteq> Some h" "pcs s h = RelCheck l \<Longrightarrow> l_cpu (locks s l) = Some h"
  using assms unfolding nest_inv_def by blast+

text \<open>A step moves one hart; the owner recorded in a lock changes only at the recording and the clearing store.\<close>

lemma nest_inv_move:
  assumes "nest_inv s" "\<And>h'. h' \<noteq> h \<Longrightarrow> pcs t h' = pcs s h'" "\<And>h' l. h' \<noteq> h \<Longrightarrow> (l_cpu (locks t l) = Some h') = (l_cpu (locks s l) = Some h')"
    "pcs t h \<noteq> Panicked" "\<And>l. pcs t h = AcqCheck l \<Longrightarrow> l_cpu (locks t l) \<noteq> Some h" "\<And>l. pcs t h = RelCheck l \<Longrightarrow> l_cpu (locks t l) = Some h"
  shows "nest_inv t"
  unfolding nest_inv_def
proof (intro allI)
  fix h' l
  show "pcs t h' \<noteq> Panicked \<and> (pcs t h' = AcqCheck l \<longrightarrow> l_cpu (locks t l) \<noteq> Some h') \<and> (pcs t h' = RelCheck l \<longrightarrow> l_cpu (locks t l) = Some h')"
    using assms(2) [of h'] assms(3) [of h' l] assms(4-6) nest_invD(1) [OF assms(1), of h'] nest_invD(2,3) [OF assms(1), of h' l] by (cases "h' = h") auto
qed

lemma nest_inv_step:
  assumes "spin_step s t" "well_nested s t" "nest_inv s" "lock_inv s" "\<And>h. depth_ok s h"
  shows "nest_inv t"
  using assms(1)
proof cases
  case (acquire_enter h l)
  then have "l_cpu (locks s l) \<noteq> Some h" using assms(2) unfolding well_nested_def by (metis fun_upd_same spin_st.select_convs(3) spin_st.surjective spin_st.update_convs(3))
  then show ?thesis using acquire_enter by (intro nest_inv_move [OF assms(3), of h]) auto
next
  case (acquire_check h l)
  then have "\<not> holding h (locks s l)" using nest_invD(2) [OF assms(3)] by (auto simp: holding_def)
  then show ?thesis using acquire_check by (intro nest_inv_move [OF assms(3), of h]) auto
next
  case (acquire_record h l)
  then show ?thesis using lock_invD(3) [OF assms(4), of h l] by (intro nest_inv_move [OF assms(3), of h]) auto
next
  case (release_enter h l)
  then have "l_cpu (locks s l) = Some h" using assms(2) unfolding well_nested_def by (metis fun_upd_same spin_st.select_convs(3) spin_st.surjective spin_st.update_convs(3))
  then show ?thesis using release_enter by (intro nest_inv_move [OF assms(3), of h]) auto
next
  case (release_check h l)
  have c: "l_cpu (locks s l) = Some h" using nest_invD(3) [OF assms(3) release_check(2)] .
  then have "holding h (locks s l)" using lock_invD(1) [OF assms(4), of h l] by (simp add: holding_def owns_def)
  then show ?thesis using release_check by (intro nest_inv_move [OF assms(3), of h]) auto
next
  case (release_clear h l)
  then show ?thesis using lock_invD(5) [OF assms(4), of h l] by (intro nest_inv_move [OF assms(3), of h]) auto
next
  case (release_pop_panic h l e)
  then show ?thesis using pop_off_depth [OF assms(5)] by fastforce
next
  case (interrupts h b)
  then show ?thesis using nest_invD(1) [OF assms(3), of h] nest_invD(2,3) [OF assms(3), of h] by (intro nest_inv_move [OF assms(3), of h]) auto
qed (auto intro!: nest_inv_move [OF assms(3)] split: if_splits)

lemma nest_inv_reachable: "nested_reachable s \<Longrightarrow> nest_inv s"
proof (induction rule: nested_reachable.induct)
  case (nested_start s)
  then show ?case by (auto simp: nest_inv_def spin_init_def)
next
  case (nested_step s t)
  have "spin_reachable s" using nested_is_reachable nested_step.hyps(1) .
  then show ?case using nest_inv_step [OF nested_step.hyps(2,3) nested_step.IH] lock_inv_reachable depth_ok_reachable by blast
qed

text \<open>One hart runs \<open>acquire\<close> on lock 0 up to the successful swap, and then \<open>release\<close> up to the call of \<open>pop_off\<close>.\<close>

lemma nested_move:
  "nested_reachable s \<Longrightarrow> spin_step s t \<Longrightarrow> (\<And>h l. pcs s h = Running \<Longrightarrow> pcs t h \<noteq> AcqCheck l \<and> pcs t h \<noteq> RelCheck l) \<Longrightarrow> nested_reachable t"
  by (rule nested_reachable.nested_step) (auto simp: well_nested_def)

lemma nested_reachable_owner: "\<exists>s. nested_reachable s \<and> pcs s = (\<lambda>_. Running)(0 := AcqRecord 0)"
proof -
  let ?c = "\<lparr>c_proc = None, c_noff = 0, c_intena = False, c_sie = True\<rparr>" and ?l = "\<lparr>l_locked = False, l_cpu = None\<rparr>"
  let ?s0 = "\<lparr>harts = \<lambda>_. ?c, locks = \<lambda>_. ?l, pcs = \<lambda>_. Running\<rparr>"
  let ?s1 = "\<lparr>harts = (\<lambda>_. ?c)(0 := push_off ?c), locks = \<lambda>_. ?l, pcs = (\<lambda>_. Running)(0 := AcqCheck 0)\<rparr>"
  let ?s2 = "\<lparr>harts = (\<lambda>_. ?c)(0 := push_off ?c), locks = \<lambda>_. ?l, pcs = (\<lambda>_. Running)(0 := AcqSpin 0)\<rparr>"
  have 0: "nested_reachable ?s0" by (rule nested_start) (simp add: spin_init_def initlock_def)
  have 1: "nested_reachable ?s1"
    by (rule nested_step [OF 0]) (use acquire_enter [of ?s0 0 0] in \<open>auto simp: well_nested_def\<close>)
  have 2: "nested_reachable ?s2"
    by (rule nested_move [OF 1]) (use acquire_check [of ?s1 0 0] in \<open>auto simp: holding_def\<close>)
  have "nested_reachable (?s2\<lparr>locks := (\<lambda>_. ?l)(0 := ?l\<lparr>l_locked := True\<rparr>), pcs := (\<lambda>_. Running)(0 := AcqRecord 0)\<rparr>)"
    by (rule nested_move [OF 2]) (use acquire_swap [of ?s2 0 0] in auto)
  then show ?thesis by (intro exI conjI) (assumption, simp)
qed

lemma nested_reachable_pop: "\<exists>s. nested_reachable s \<and> pcs s 0 = RelPop 0"
proof -
  obtain s where s: "nested_reachable s" "pcs s = (\<lambda>_. Running)(0 := AcqRecord 0)" using nested_reachable_owner by blast
  have l: "l_locked (locks s 0)"
    using lock_invD(1) [OF lock_inv_reachable [OF nested_is_reachable [OF s(1)]], of 0 0] s(2) by (simp add: owns_def)
  obtain s1 where s1: "nested_reachable s1" "pcs s1 = (\<lambda>_. Running)" "holding 0 (locks s1 0)"
    using nested_move [OF s(1) acquire_record [of s 0 0]] s(2) l by (force simp: holding_def)
  have "nested_reachable (s1\<lparr>pcs := (pcs s1)(0 := RelCheck 0)\<rparr>)"
    by (rule nested_step [OF s1(1) release_enter]) (use s1(2,3) in \<open>auto simp: well_nested_def holding_def\<close>)
  then obtain s2 where s2: "nested_reachable s2" "pcs s2 = (\<lambda>_. Running)(0 := RelCheck 0)" "holding 0 (locks s2 0)" using s1(2,3) by fastforce
  have "nested_reachable (s2\<lparr>pcs := (pcs s2)(0 := if holding 0 (locks s2 0) then RelClear 0 else Panicked)\<rparr>)"
    by (rule nested_move [OF s2(1) release_check]) (use s2(2) in auto)
  then obtain s3 where s3: "nested_reachable s3" "pcs s3 = (\<lambda>_. Running)(0 := RelClear 0)" using s2(2,3) by fastforce
  have "nested_reachable (s3\<lparr>locks := (locks s3)(0 := (locks s3 0)\<lparr>l_cpu := None\<rparr>), pcs := (pcs s3)(0 := RelUnlock 0)\<rparr>)"
    by (rule nested_move [OF s3(1) release_clear]) (use s3(2) in auto)
  then obtain s4 where s4: "nested_reachable s4" "pcs s4 = (\<lambda>_. Running)(0 := RelUnlock 0)" using s3(2) by fastforce
  have "nested_reachable (s4\<lparr>locks := (locks s4)(0 := (locks s4 0)\<lparr>l_locked := False\<rparr>), pcs := (pcs s4)(0 := RelPop 0)\<rparr>)"
    by (rule nested_move [OF s4(1) release_unlock]) (use s4(2) in auto)
  then show ?thesis by (intro exI conjI) (assumption, simp)
qed

lemma spin_reachable_owner: "\<exists>s. spin_reachable s \<and> owns s 0 0 \<and> pcs s 0 = AcqRecord 0"
  using nested_reachable_owner nested_is_reachable by (fastforce simp: owns_def)

text \<open>C10: spinlocks exclude each other and run with interrupts off. In every state that harts can
  reach by running acquire and release in any interleaving, a lock has at most one owner, its
  \<open>locked\<close> word is set while it has one, and the owner, unless it has panicked, runs with interrupts
  disabled.\<close>

theorem spinlock_mutual_exclusion:
  assumes "spin_reachable s" "owns s h l" "pcs s h \<noteq> Panicked"
  shows "(\<forall>h'. owns s h' l \<longrightarrow> h' = h) \<and> l_locked (locks s l) \<and> \<not> c_sie (harts s h)"
proof -
  note inv = lock_inv_reachable [OF assms(1)] and depth = depth_ok_reachable [OF assms(1), of h]
  have "\<not> c_sie (harts s h)" using depth depth_ok_owner [OF depth assms(2,3)] by (simp add: depth_ok_def)
  then show ?thesis using lock_invD(1,2) [OF inv] assms(2) by blast
qed

theorem spinlock_mutual_exclusion_witness:
  "\<exists>s. spin_reachable s \<and> owns s 0 0 \<and> (\<forall>h'. owns s h' 0 \<longrightarrow> h' = 0) \<and> \<not> c_sie (harts s 0)"
proof -
  obtain s where s: "spin_reachable s" "owns s 0 0" "pcs s 0 = AcqRecord 0"
    using spin_reachable_owner by blast
  then show ?thesis using spinlock_mutual_exclusion [OF s(1,2)] by auto
qed

text \<open>C11: if every hart acquires only locks it does not own and releases only locks it owns, no hart ever panics, in any interleaving: the
  \<open>holding\<close> checks of \<open>acquire\<close> and \<open>release\<close> succeed, and \<open>pop_off\<close> at the end of \<open>release\<close> returns, with the nesting depth equal to the number
  of locks still owned and interrupts off while there is one.\<close>

theorem spinlock_never_panics:
  assumes "nested_reachable s"
  shows "pcs s h \<noteq> Panicked \<and> (\<forall>l. pcs s h = AcqCheck l \<longrightarrow> \<not> holding h (locks s l)) \<and> (\<forall>l. pcs s h = RelCheck l \<longrightarrow> holding h (locks s l)) \<and>
    (\<forall>l. pcs s h = RelPop l \<longrightarrow> (\<exists>c. pop_off (harts s h) = Ok () c \<and> c_noff c = int (card (held s h)) \<and> (held s h \<noteq> {} \<longrightarrow> \<not> c_sie c)))"
proof -
  have r: "spin_reachable s" by (rule nested_is_reachable [OF assms])
  note n = nest_invD [OF nest_inv_reachable [OF assms], of h] and inv = lock_inv_reachable [OF r] and depth = depth_ok_reachable [OF r, of h]
  have "\<exists>c. pop_off (harts s h) = Ok () c \<and> c_noff c = int (card (held s h)) \<and> (held s h \<noteq> {} \<longrightarrow> \<not> c_sie c)" if p: "pcs s h = RelPop l" for l
  proof -
    obtain c where c: "pop_off (harts s h) = Ok () c" "c_noff c = c_noff (harts s h) - 1" "0 < c_noff c \<longrightarrow> \<not> c_sie c" using pop_off_depth [OF depth p] by blast
    have "c_noff c = int (card (held s h))" "finite (held s h)" using c(2) depth p by (simp_all add: depth_ok_def)
    then show ?thesis using c by (auto simp: card_gt_0_iff)
  qed
  moreover have "holding h (locks s l)" if "pcs s h = RelCheck l" for l
    using n(3) [OF that] lock_invD(1) [OF inv, of h l] by (simp add: holding_def owns_def)
  ultimately show ?thesis using n(1,2) by (auto simp: holding_def)
qed

theorem spinlock_never_panics_witness:
  "\<exists>s c. nested_reachable s \<and> pcs s 0 = RelPop 0 \<and> pcs s 1 \<noteq> Panicked \<and> pop_off (harts s 0) = Ok () c"
proof -
  obtain s where s: "nested_reachable s" "pcs s 0 = RelPop 0" using nested_reachable_pop by blast
  then show ?thesis using spinlock_never_panics [OF s(1), of 0] spinlock_never_panics [OF s(1), of 1] by blast
qed

end
