(* ===== verification/Proc.thy ===== *)
theory Proc
  imports VmFrame Spinlock
begin

text \<open>
  kernel/proc.c and kernel/proc.h: the process table and the operations on it that need only
  memory and page tables. The table is a list of \<open>proc\<close> records (\<open>struct proc\<close>); a pointer to
  a process is its index, the null pointer \<open>None\<close>. Open files and the current directory are
  indices into the tables of later components. A critical section under \<open>p->lock\<close>,
  \<open>pid_lock\<close> or \<open>wait_lock\<close> is atomic; the locking protocol itself, with the switch to and
  from the scheduler, is the subject of Sched.

  The state extends the one of the page allocator by the table, the pid counter, the harts
  (\<open>cpus\<close>, and \<open>hart\<close>, the value of \<open>cpuid()\<close> for the running code), the clock \<open>ticks\<close> of
  kernel/trap.c and the addresses of \<open>trampoline\<close> and \<open>forkret\<close>, which the linker fixes.
  \<open>fork\<close>, \<open>exit\<close> and \<open>userinit\<close> also need the file layer and are in ProcLife.

  \<open>sleep\<close> gives the hart away. A loop that may sleep takes the list of what the rest of the
  system does during each of its sleeps; when the list is used up the run ends \<open>Asleep\<close>.
\<close>

section \<open>State\<close>

datatype procstate = UNUSED | USED | SLEEPING | RUNNABLE | RUNNING | ZOMBIE

record context_s =
  ctx_ra :: uint64
  ctx_sp :: uint64
  ctx_s :: "uint64 list"

record proc =
  p_state :: procstate
  p_chan :: "chan option"
  p_killed :: bool
  p_xstate :: int
  p_pid :: int
  p_parent :: "nat option"
  p_kstack :: uint64
  p_sz :: uint64
  p_pagetable :: uint64
  p_trapframe :: uint64
  p_context :: context_s
  p_ofile :: "nat option list"
  p_cwd :: "nat option"
  p_name :: "uint8 list"

record proc_st = kmem_st +
  procs :: "proc list"
  nextpid :: int
  initproc :: "nat option"
  cpus :: "cpu list"
  hart :: nat
  ticks :: uint32
  trampoline_pa :: uint64
  forkret_pa :: uint64

definition NPROC :: nat where "NPROC = 64"
definition NOFILE :: nat where "NOFILE = 16"

abbreviation proc_at :: "'a proc_st_scheme \<Rightarrow> nat \<Rightarrow> proc" where
  "proc_at s i \<equiv> procs s ! i"

definition upd_proc :: "nat \<Rightarrow> (proc \<Rightarrow> proc) \<Rightarrow> 'a proc_st_scheme \<Rightarrow> 'a proc_st_scheme" where
  "upd_proc i f s = s\<lparr>procs := upd_nth i f (procs s)\<rparr>"

text \<open>Offsets of \<open>struct trapframe\<close>.\<close>

definition TF_kernel_satp :: uint64 where "TF_kernel_satp = 0"
definition TF_kernel_sp :: uint64 where "TF_kernel_sp = 8"
definition TF_kernel_trap :: uint64 where "TF_kernel_trap = 16"
definition TF_epc :: uint64 where "TF_epc = 24"
definition TF_kernel_hartid :: uint64 where "TF_kernel_hartid = 32"
definition TF_sp :: uint64 where "TF_sp = 48"
definition TF_a0 :: uint64 where "TF_a0 = 112"
definition TF_a1 :: uint64 where "TF_a1 = 120"
definition TF_a7 :: uint64 where "TF_a7 = 168"

definition tf_get :: "uint64 \<Rightarrow> 'a proc_st_scheme \<Rightarrow> nat \<Rightarrow> uint64" where
  "tf_get off s i = load64 (mem s) (p_trapframe (proc_at s i) + off)"

definition tf_set :: "uint64 \<Rightarrow> nat \<Rightarrow> uint64 \<Rightarrow> 'a proc_st_scheme \<Rightarrow> 'a proc_st_scheme" where
  "tf_set off i v s = s\<lparr>mem := store64 (mem s) (p_trapframe (proc_at s i) + off) v\<rparr>"

section \<open>Setting up\<close>

definition procinit :: "'a proc_st_scheme \<Rightarrow> 'a proc_st_scheme" where
  "procinit s = s\<lparr>procs := map (\<lambda>i. (proc_at s i)\<lparr>p_state := UNUSED, p_kstack := KSTACK i\<rparr>)
                              [0..<length (procs s)]\<rparr>"

definition cpuid :: "'a proc_st_scheme \<Rightarrow> nat" where
  "cpuid s = hart s"

definition mycpu :: "'a proc_st_scheme \<Rightarrow> cpu" where
  "mycpu s = cpus s ! cpuid s"

definition myproc :: "'a proc_st_scheme \<Rightarrow> nat option" where
  "myproc s = c_proc (mycpu s)"

section \<open>Allocating and freeing a process\<close>

definition allocpid :: "'a proc_st_scheme \<Rightarrow> int \<times> 'a proc_st_scheme" where
  "allocpid s = (nextpid s, s\<lparr>nextpid := nextpid s + 1\<rparr>)"

definition proc_pagetable :: "nat \<Rightarrow> 'a proc_st_scheme \<Rightarrow> (uint64, 'a proc_st_scheme) res" where
  "proc_pagetable i s =
     bindR (uvmcreate s) (\<lambda>pagetable s.
       if pagetable = 0 then Ok 0 s
       else bindR (mappages pagetable TRAMPOLINE 4096 (trampoline_pa s) (PTE_R OR PTE_X) s) (\<lambda>r s.
         if r < 0 then bindR (uvmfree pagetable 0 s) (\<lambda>_ s. Ok 0 s)
         else bindR (mappages pagetable TRAPFRAME 4096 (p_trapframe (proc_at s i))
                       (PTE_R OR PTE_W) s) (\<lambda>r s.
           if r < 0 then
             bindR (uvmunmap pagetable TRAMPOLINE 1 False s) (\<lambda>_ s.
               bindR (uvmfree pagetable 0 s) (\<lambda>_ s. Ok 0 s))
           else Ok pagetable s)))"

definition proc_freepagetable ::
  "uint64 \<Rightarrow> uint64 \<Rightarrow> 'a proc_st_scheme \<Rightarrow> (unit, 'a proc_st_scheme) res" where
  "proc_freepagetable pagetable sz s =
     bindR (uvmunmap pagetable TRAMPOLINE 1 False s) (\<lambda>_ s.
     bindR (uvmunmap pagetable TRAPFRAME 1 False s) (\<lambda>_ s.
     uvmfree pagetable sz s))"

definition cleared :: "proc \<Rightarrow> proc" where
  "cleared p = p\<lparr>p_trapframe := 0, p_pagetable := 0, p_sz := 0, p_pid := 0, p_parent := None,
     p_name := (p_name p)[0 := 0], p_chan := None, p_killed := False, p_xstate := 0,
     p_state := UNUSED\<rparr>"

definition freeproc :: "nat \<Rightarrow> 'a proc_st_scheme \<Rightarrow> (unit, 'a proc_st_scheme) res" where
  "freeproc i s =
     bindR (if p_trapframe (proc_at s i) \<noteq> 0 then kfree (p_trapframe (proc_at s i)) s else Ok () s)
       (\<lambda>_ s.
     bindR (if p_pagetable (proc_at s i) \<noteq> 0
            then proc_freepagetable (p_pagetable (proc_at s i)) (p_sz (proc_at s i)) s
            else Ok () s) (\<lambda>_ s.
     Ok () (upd_proc i cleared s)))"

definition allocproc :: "'a proc_st_scheme \<Rightarrow> (nat option, 'a proc_st_scheme) res" where
  "allocproc s =
     (case find_slot (\<lambda>p. p_state p = UNUSED) (procs s) of
        None \<Rightarrow> Ok None s
      | Some i \<Rightarrow>
          (let (pid, s) = allocpid s;
               s = upd_proc i (\<lambda>p. p\<lparr>p_pid := pid, p_state := USED\<rparr>) s in
           bindR (kalloc s) (\<lambda>tf s.
             let s = upd_proc i (\<lambda>p. p\<lparr>p_trapframe := tf\<rparr>) s in
             if tf = 0 then bindR (freeproc i s) (\<lambda>_ s. Ok None s)
             else bindR (proc_pagetable i s) (\<lambda>pt s.
               let s = upd_proc i (\<lambda>p. p\<lparr>p_pagetable := pt\<rparr>) s in
               if pt = 0 then bindR (freeproc i s) (\<lambda>_ s. Ok None s)
               else Ok (Some i) (upd_proc i (\<lambda>p. p\<lparr>p_context :=
                 \<lparr>ctx_ra = forkret_pa s, ctx_sp = p_kstack p + 4096, ctx_s = replicate 12 0\<rparr>\<rparr>) s)))))"

text \<open>The argument \<open>n\<close> of \<open>growproc\<close> is sign-extended to 64 bits when it is added to the size.\<close>

definition growproc :: "int \<Rightarrow> nat \<Rightarrow> 'a proc_st_scheme \<Rightarrow> (int, 'a proc_st_scheme) res" where
  "growproc n i s =
     (let sz = p_sz (proc_at s i); pt = p_pagetable (proc_at s i) in
      if n > 0 then
        bindR (uvmalloc pt sz (sz + of_int n) PTE_W s) (\<lambda>sz s.
          if sz = 0 then Ok (- 1) s else Ok 0 (upd_proc i (\<lambda>p. p\<lparr>p_sz := sz\<rparr>) s))
      else if n < 0 then
        bindR (uvmdealloc pt sz (sz + of_int n) s) (\<lambda>sz s.
          Ok 0 (upd_proc i (\<lambda>p. p\<lparr>p_sz := sz\<rparr>) s))
      else Ok 0 (upd_proc i (\<lambda>p. p\<lparr>p_sz := sz\<rparr>) s))"

section \<open>Sleeping, waking and killing\<close>

text \<open>\<open>go_to_sleep\<close> is \<open>sleep\<close> up to the call of \<open>sched\<close>, \<open>woken\<close> what it does afterwards.\<close>

definition go_to_sleep :: "nat \<Rightarrow> chan \<Rightarrow> 'a proc_st_scheme \<Rightarrow> 'a proc_st_scheme" where
  "go_to_sleep i ch s = upd_proc i (\<lambda>p. p\<lparr>p_chan := Some ch, p_state := SLEEPING\<rparr>) s"

definition woken :: "nat \<Rightarrow> 'a proc_st_scheme \<Rightarrow> 'a proc_st_scheme" where
  "woken i s = upd_proc i (\<lambda>p. p\<lparr>p_chan := None\<rparr>) s"

fun wakeup_from :: "nat list \<Rightarrow> chan \<Rightarrow> 'a proc_st_scheme \<Rightarrow> 'a proc_st_scheme" where
  "wakeup_from [] ch s = s"
| "wakeup_from (i # is) ch s =
     wakeup_from is ch
       (if Some i \<noteq> myproc s \<and> p_state (proc_at s i) = SLEEPING \<and> p_chan (proc_at s i) = Some ch
        then upd_proc i (\<lambda>p. p\<lparr>p_state := RUNNABLE\<rparr>) s else s)"

definition wakeup :: "chan \<Rightarrow> 'a proc_st_scheme \<Rightarrow> 'a proc_st_scheme" where
  "wakeup ch s = wakeup_from [0..<length (procs s)] ch s"

definition kill :: "int \<Rightarrow> 'a proc_st_scheme \<Rightarrow> int \<times> 'a proc_st_scheme" where
  "kill pid s =
     (case find_slot (\<lambda>p. p_pid p = pid) (procs s) of
        None \<Rightarrow> (- 1, s)
      | Some i \<Rightarrow> (0, upd_proc i (\<lambda>p.
          p\<lparr>p_killed := True,
            p_state := (if p_state p = SLEEPING then RUNNABLE else p_state p)\<rparr>) s))"

definition setkilled :: "nat \<Rightarrow> 'a proc_st_scheme \<Rightarrow> 'a proc_st_scheme" where
  "setkilled i s = upd_proc i (\<lambda>p. p\<lparr>p_killed := True\<rparr>) s"

definition killed :: "nat \<Rightarrow> 'a proc_st_scheme \<Rightarrow> bool" where
  "killed i s = p_killed (proc_at s i)"

section \<open>Parents and children\<close>

fun reparent_from :: "nat list \<Rightarrow> nat \<Rightarrow> 'a proc_st_scheme \<Rightarrow> 'a proc_st_scheme" where
  "reparent_from [] p s = s"
| "reparent_from (i # is) p s =
     (if p_parent (proc_at s i) = Some p then
        let s = upd_proc i (\<lambda>pp. pp\<lparr>p_parent := initproc s\<rparr>) s in
        reparent_from is p (case initproc s of Some ip \<Rightarrow> wakeup (ChProc ip) s | None \<Rightarrow> s)
      else reparent_from is p s)"

definition reparent :: "nat \<Rightarrow> 'a proc_st_scheme \<Rightarrow> 'a proc_st_scheme" where
  "reparent p s = reparent_from [0..<length (procs s)] p s"

fun wait ::
  "('a proc_st_scheme \<Rightarrow> 'a proc_st_scheme) list \<Rightarrow> nat \<Rightarrow> uint64 \<Rightarrow> 'a proc_st_scheme \<Rightarrow>
     (int, 'a proc_st_scheme) res" where
  "wait env p addr s =
     (case find_slot (\<lambda>pp. p_parent pp = Some p \<and> p_state pp = ZOMBIE) (procs s) of
        Some i \<Rightarrow>
          (let pid = p_pid (proc_at s i) in
           bindR (if addr \<noteq> 0
                  then copyout (p_pagetable (proc_at s p)) addr
                         (bytes_of_word 4 (of_int (p_xstate (proc_at s i)) :: uint32)) s
                  else Ok 0 s) (\<lambda>r s.
             if r < 0 then Ok (- 1) s
             else bindR (freeproc i s) (\<lambda>_ s. Ok pid s)))
      | None \<Rightarrow>
          if (\<forall>pp \<in> set (procs s). p_parent pp \<noteq> Some p) \<or> killed p s then Ok (- 1) s
          else
            let s = go_to_sleep p (ChProc p) s in
            (case env of
               [] \<Rightarrow> Asleep (ChProc p) s
             | e # env \<Rightarrow> wait env p addr (woken p (e s))))"

declare wait.simps [simp del]

section \<open>Copying to and from a user or a kernel address\<close>

text \<open>The destination of \<open>either_copyout\<close> is a user address, an address of physical memory, or a
  C object of the kernel, which receives the bytes themselves; likewise the source of
  \<open>either_copyin\<close>.\<close>

datatype dst = UserDst uint64 | KernDst uint64 | ObjDst

datatype src = UserSrc uint64 | KernSrc uint64 | ObjSrc "uint8 list"

fun dst_plus :: "dst \<Rightarrow> nat \<Rightarrow> dst" where
  "dst_plus (UserDst a) n = UserDst (a + of_nat n)"
| "dst_plus (KernDst a) n = KernDst (a + of_nat n)"
| "dst_plus ObjDst n = ObjDst"

fun src_plus :: "src \<Rightarrow> nat \<Rightarrow> src" where
  "src_plus (UserSrc a) n = UserSrc (a + of_nat n)"
| "src_plus (KernSrc a) n = KernSrc (a + of_nat n)"
| "src_plus (ObjSrc bs) n = ObjSrc (drop n bs)"

definition my_pagetable :: "'a proc_st_scheme \<Rightarrow> uint64" where
  "my_pagetable s = (case myproc s of Some p \<Rightarrow> p_pagetable (proc_at s p) | None \<Rightarrow> 0)"

fun either_copyout :: "dst \<Rightarrow> uint8 list \<Rightarrow> 'a proc_st_scheme \<Rightarrow> (int, 'a proc_st_scheme) res" where
  "either_copyout (UserDst a) bs s = copyout (my_pagetable s) a bs s"
| "either_copyout (KernDst a) bs s = Ok 0 (s\<lparr>mem := store_bytes (mem s) a bs\<rparr>)"
| "either_copyout ObjDst bs s = Ok 0 s"

fun either_copyin ::
  "src \<Rightarrow> nat \<Rightarrow> 'a proc_st_scheme \<Rightarrow> (int \<times> uint8 list, 'a proc_st_scheme) res" where
  "either_copyin (UserSrc a) n s = copyin (my_pagetable s) a n s"
| "either_copyin (KernSrc a) n s = Ok (0, load_bytes (mem s) a n) s"
| "either_copyin (ObjSrc bs) n s = Ok (0, take n bs) s"

section \<open>What wakeup changes\<close>

text \<open>\<open>procs_only s t\<close>: the two states differ at most in the process table.\<close>

definition procs_only :: "'a proc_st_scheme \<Rightarrow> 'a proc_st_scheme \<Rightarrow> bool" where
  "procs_only s t \<longleftrightarrow> t = s\<lparr>procs := procs t\<rparr>"

lemma procs_only_refl [simp]: "procs_only s s"
  by (simp add: procs_only_def)

lemma procs_only_trans [trans]: "procs_only s t \<Longrightarrow> procs_only t u \<Longrightarrow> procs_only s u"
  unfolding procs_only_def by (metis proc_st.update_convs(1) proc_st.surjective)

lemma procs_only_upd [simp]: "procs_only s (upd_proc i f s)"
  by (simp add: procs_only_def upd_proc_def)

lemma myproc_procs [simp]: "myproc (s\<lparr>procs := ps\<rparr>) = myproc s"
  by (simp add: myproc_def mycpu_def cpuid_def)

lemma myproc_upd_proc [simp]: "myproc (upd_proc i f s) = myproc s"
  by (simp add: upd_proc_def)

lemma procs_upd_proc: "procs (upd_proc i f s) = upd_nth i f (procs s)"
  by (simp add: upd_proc_def)

lemma length_procs_upd_proc [simp]: "length (procs (upd_proc i f s)) = length (procs s)"
  by (simp add: procs_upd_proc)

lemma wakeup_from_only: "procs_only s (wakeup_from is ch s)"
proof (induction "is" arbitrary: s)
  case Nil
  then show ?case by simp
next
  case (Cons i "is")
  then show ?case using procs_only_trans [OF procs_only_upd Cons] by simp
qed

lemma wakeup_only: "procs_only s (wakeup ch s)"
  by (simp add: wakeup_def wakeup_from_only)

lemma wakeup_eq: "wakeup ch s = s\<lparr>procs := procs (wakeup ch s)\<rparr>"
  using wakeup_only procs_only_def by metis

definition awoken :: "chan \<Rightarrow> proc \<Rightarrow> proc" where
  "awoken ch p = (if p_state p = SLEEPING \<and> p_chan p = Some ch then p\<lparr>p_state := RUNNABLE\<rparr> else p)"

lemma wakeup_from_nth:
  "distinct is \<Longrightarrow> set is \<subseteq> {..<length (procs s)} \<Longrightarrow>
   proc_at (wakeup_from is ch s) j =
     (if j \<in> set is \<and> Some j \<noteq> myproc s then awoken ch (proc_at s j) else proc_at s j) \<and>
   length (procs (wakeup_from is ch s)) = length (procs s)"
proof (induction "is" arbitrary: s)
  case Nil
  then show ?case by simp
next
  case (Cons i "is")
  let ?t = "if Some i \<noteq> myproc s \<and> p_state (proc_at s i) = SLEEPING \<and> p_chan (proc_at s i) = Some ch
        then upd_proc i (\<lambda>p. p\<lparr>p_state := RUNNABLE\<rparr>) s else s"
  have t: "proc_at ?t j = (if j = i \<and> Some i \<noteq> myproc s then awoken ch (proc_at s j) else proc_at s j)"
    using Cons.prems(2) by (auto simp: procs_upd_proc awoken_def)
  have "myproc ?t = myproc s" "length (procs ?t) = length (procs s)" by auto
  then show ?case using Cons.IH [of ?t] Cons.prems t by auto
qed

lemma wakeup_nth:
  "proc_at (wakeup ch s) j =
     (if j < length (procs s) \<and> Some j \<noteq> myproc s then awoken ch (proc_at s j) else proc_at s j)"
  using wakeup_from_nth [of "[0..<length (procs s)]" s ch j] by (simp add: wakeup_def atLeast0LessThan)

lemma length_procs_wakeup [simp]: "length (procs (wakeup ch s)) = length (procs s)"
  using wakeup_from_nth [of "[0..<length (procs s)]" s ch] by (simp add: wakeup_def atLeast0LessThan)

lemma awoken_fields [simp]:
  "p_pid (awoken ch p) = p_pid p" "p_chan (awoken ch p) = p_chan p" "p_killed (awoken ch p) = p_killed p"
  "p_parent (awoken ch p) = p_parent p" "p_pagetable (awoken ch p) = p_pagetable p"
  "p_trapframe (awoken ch p) = p_trapframe p" "p_sz (awoken ch p) = p_sz p"
  "p_ofile (awoken ch p) = p_ofile p" "p_cwd (awoken ch p) = p_cwd p" "p_xstate (awoken ch p) = p_xstate p"
  by (simp_all add: awoken_def)

lemma myproc_wakeup [simp]: "myproc (wakeup ch s) = myproc s"
  by (subst wakeup_eq) simp

end
