(* ===== verification/Sleeplock.thy ===== *)
theory Sleeplock
  imports Proc
begin

text \<open>
  kernel/sleeplock.c: long-term locks. A sleep lock is a field of some object of the kernel state;
  the functions take the two accessors of that field (\<open>get\<close> reads the lock, \<open>upd\<close> changes it) and
  the wait channel that stands for its address. \<open>acquiresleep\<close> loops while the lock is taken: each
  turn sleeps, and the list \<open>env\<close> says what the rest of the system does meanwhile. With the empty
  list the call ends \<open>Asleep\<close> when the lock is taken.
\<close>

record sleeplock =
  sl_locked :: bool
  sl_pid :: int

definition initsleeplock :: "sleeplock \<Rightarrow> sleeplock" where
  "initsleeplock lk = lk\<lparr>sl_locked := False, sl_pid := 0\<rparr>"

text \<open>\<open>myproc()->pid\<close>; sleep locks are only used by processes.\<close>

definition mypid :: "'a proc_st_scheme \<Rightarrow> int" where
  "mypid s = (case myproc s of Some p \<Rightarrow> p_pid (proc_at s p) | None \<Rightarrow> 0)"

definition sleep_self :: "chan \<Rightarrow> 'a proc_st_scheme \<Rightarrow> 'a proc_st_scheme" where
  "sleep_self ch s = (case myproc s of Some p \<Rightarrow> go_to_sleep p ch s | None \<Rightarrow> s)"

definition woken_self :: "'a proc_st_scheme \<Rightarrow> 'a proc_st_scheme" where
  "woken_self s = (case myproc s of Some p \<Rightarrow> woken p s | None \<Rightarrow> s)"

fun acquiresleep ::
  "('a proc_st_scheme \<Rightarrow> 'a proc_st_scheme) list \<Rightarrow> ('a proc_st_scheme \<Rightarrow> sleeplock) \<Rightarrow>
     ((sleeplock \<Rightarrow> sleeplock) \<Rightarrow> 'a proc_st_scheme \<Rightarrow> 'a proc_st_scheme) \<Rightarrow> chan \<Rightarrow>
     'a proc_st_scheme \<Rightarrow> (unit, 'a proc_st_scheme) res" where
  "acquiresleep env get upd ch s =
     (if sl_locked (get s) then
        let s = sleep_self ch s in
        (case env of [] \<Rightarrow> Asleep ch s | e # env \<Rightarrow> acquiresleep env get upd ch (woken_self (e s)))
      else Ok () (upd (\<lambda>lk. lk\<lparr>sl_locked := True, sl_pid := mypid s\<rparr>) s))"

declare acquiresleep.simps [simp del]

definition releasesleep ::
  "((sleeplock \<Rightarrow> sleeplock) \<Rightarrow> 'a proc_st_scheme \<Rightarrow> 'a proc_st_scheme) \<Rightarrow> chan \<Rightarrow>
     'a proc_st_scheme \<Rightarrow> 'a proc_st_scheme" where
  "releasesleep upd ch s = wakeup ch (upd (\<lambda>lk. lk\<lparr>sl_locked := False, sl_pid := 0\<rparr>) s)"

definition holdingsleep :: "sleeplock \<Rightarrow> 'a proc_st_scheme \<Rightarrow> bool" where
  "holdingsleep lk s \<longleftrightarrow> sl_locked lk \<and> sl_pid lk = mypid s"

lemma acquiresleep_free:
  "\<not> sl_locked (get s) \<Longrightarrow>
   acquiresleep env get upd ch s = Ok () (upd (\<lambda>lk. lk\<lparr>sl_locked := True, sl_pid := mypid s\<rparr>) s)"
  by (simp add: acquiresleep.simps)

section \<open>The contract of a sleep lock\<close>

text \<open>What its users rely on: the two accessors address one lock, and taking it does not disturb
  who the running process is. The lemmas are proved once and hold for buffers and inodes.\<close>

locale sleep_lock =
  fixes get :: "'s proc_st_scheme \<Rightarrow> sleeplock"
    and upd :: "(sleeplock \<Rightarrow> sleeplock) \<Rightarrow> 's proc_st_scheme \<Rightarrow> 's proc_st_scheme"
    and good :: "'s proc_st_scheme \<Rightarrow> bool"
  assumes get_upd: "good s \<Longrightarrow> get (upd f s) = f (get s)"
    and pid_upd: "mypid (upd f s) = mypid s"
    and get_wakeup: "get (wakeup ch s) = get s"
begin

lemma acquire_holds:
  "good s \<Longrightarrow> acquiresleep [] get upd ch s = Ok () t \<Longrightarrow> \<not> sl_locked (get s) \<and> holdingsleep (get t) t"
  by (auto simp: acquiresleep.simps holdingsleep_def get_upd pid_upd Let_def split: if_splits)

lemma acquire_blocks:
  "sl_locked (get s) \<Longrightarrow> acquiresleep [] get upd ch s = Asleep ch (sleep_self ch s)"
  by (simp add: acquiresleep.simps Let_def)

lemma release_frees: "good s \<Longrightarrow> \<not> sl_locked (get (releasesleep upd ch s))"
  by (simp add: releasesleep_def get_upd get_wakeup)

end

end
