(* ===== verification/Bio.thy ===== *)
theory Bio
  imports Sleeplock "HOL-Library.Multiset"
begin

text \<open>
  kernel/bio.c: the buffer cache. A buffer (\<open>struct buf\<close>) is an entry of the list \<open>bufs\<close>; the
  doubly linked list through \<open>bcache.head\<close> is the list \<open>lru\<close> of buffer indices, most recently used
  first, so \<open>head.next\<close> is its first and \<open>head.prev\<close> its last element. \<open>uint\<close> reference counts are
  natural numbers with the wrap-around of the C type written out.

  The disk is a map from block numbers to blocks of \<open>BSIZE\<close> bytes. \<open>disk_rw\<close> is what a completed
  \<open>virtio_disk_rw\<close> does: it moves one block between the buffer and the disk. \<open>dlog\<close> is a ghost
  field, the sequence of block writes the disk has done; crash safety is about its prefixes.
\<close>

section \<open>State\<close>

definition BSIZE :: nat where "BSIZE = 1024"
definition NBUF :: nat where "NBUF = 30"

record buf =
  b_valid :: bool
  b_disk :: bool
  b_dev :: uint32
  b_blockno :: uint32
  b_lock :: sleeplock
  b_refcnt :: nat
  b_data :: "uint8 list"

record bio_st = proc_st +
  disk :: "uint32 \<Rightarrow> uint8 list"
  dlog :: "(uint32 \<times> uint8 list) list"
  bufs :: "buf list"
  lru :: "nat list"

definition uint_inc :: "nat \<Rightarrow> nat" where
  "uint_inc n = (n + 1) mod 2 ^ 32"

definition uint_dec :: "nat \<Rightarrow> nat" where
  "uint_dec n = (if n = 0 then 2 ^ 32 - 1 else n - 1)"

abbreviation buf_at :: "'a bio_st_scheme \<Rightarrow> nat \<Rightarrow> buf" where
  "buf_at s i \<equiv> bufs s ! i"

definition upd_buf :: "nat \<Rightarrow> (buf \<Rightarrow> buf) \<Rightarrow> 'a bio_st_scheme \<Rightarrow> 'a bio_st_scheme" where
  "upd_buf i f s = s\<lparr>bufs := upd_nth i f (bufs s)\<rparr>"

definition buf_lock :: "nat \<Rightarrow> 'a bio_st_scheme \<Rightarrow> sleeplock" where
  "buf_lock i s = b_lock (buf_at s i)"

definition upd_buf_lock :: "nat \<Rightarrow> (sleeplock \<Rightarrow> sleeplock) \<Rightarrow> 'a bio_st_scheme \<Rightarrow> 'a bio_st_scheme" where
  "upd_buf_lock i f s = upd_buf i (\<lambda>b. b\<lparr>b_lock := f (b_lock b)\<rparr>) s"

section \<open>Operations\<close>

text \<open>\<open>binit\<close> inserts each buffer at the front, so the last one ends up first.\<close>

fun binit_from :: "nat list \<Rightarrow> 'a bio_st_scheme \<Rightarrow> 'a bio_st_scheme" where
  "binit_from [] s = s"
| "binit_from (i # is) s =
     binit_from is (upd_buf_lock i initsleeplock (s\<lparr>lru := i # lru s\<rparr>))"

definition binit :: "'a bio_st_scheme \<Rightarrow> 'a bio_st_scheme" where
  "binit s = binit_from [0..<NBUF] (s\<lparr>lru := []\<rparr>)"

definition bget :: "uint32 \<Rightarrow> uint32 \<Rightarrow> 'a bio_st_scheme \<Rightarrow> (nat, 'a bio_st_scheme) res" where
  "bget dev blockno s =
     (case find (\<lambda>i. b_dev (buf_at s i) = dev \<and> b_blockno (buf_at s i) = blockno) (lru s) of
        Some i \<Rightarrow>
          bindR (acquiresleep [] (buf_lock i) (upd_buf_lock i) (ChBufLock i)
                   (upd_buf i (\<lambda>b. b\<lparr>b_refcnt := uint_inc (b_refcnt b)\<rparr>) s)) (\<lambda>_ s. Ok i s)
      | None \<Rightarrow>
          (case find (\<lambda>i. b_refcnt (buf_at s i) = 0) (rev (lru s)) of
             Some i \<Rightarrow>
               bindR (acquiresleep [] (buf_lock i) (upd_buf_lock i) (ChBufLock i)
                        (upd_buf i (\<lambda>b. b\<lparr>b_dev := dev, b_blockno := blockno, b_valid := False,
                                          b_refcnt := 1\<rparr>) s)) (\<lambda>_ s. Ok i s)
           | None \<Rightarrow> Panic ''bget: no buffers''))"

text \<open>A completed disk request: \<open>b->disk\<close> is 1 while the device owns the buffer and 0 again when
  the call returns.\<close>

definition disk_rw :: "nat \<Rightarrow> bool \<Rightarrow> 'a bio_st_scheme \<Rightarrow> 'a bio_st_scheme" where
  "disk_rw i write s =
     (let bn = b_blockno (buf_at s i) in
      if write
      then s\<lparr>disk := (disk s)(bn := b_data (buf_at s i)), dlog := dlog s @ [(bn, b_data (buf_at s i))]\<rparr>
      else upd_buf i (\<lambda>b. b\<lparr>b_data := disk s bn\<rparr>) s)"

definition bread :: "uint32 \<Rightarrow> uint32 \<Rightarrow> 'a bio_st_scheme \<Rightarrow> (nat, 'a bio_st_scheme) res" where
  "bread dev blockno s =
     bindR (bget dev blockno s) (\<lambda>i s.
       if \<not> b_valid (buf_at s i)
       then Ok i (upd_buf i (\<lambda>b. b\<lparr>b_valid := True\<rparr>) (disk_rw i False s))
       else Ok i s)"

definition bwrite :: "nat \<Rightarrow> 'a bio_st_scheme \<Rightarrow> (unit, 'a bio_st_scheme) res" where
  "bwrite i s =
     (if \<not> holdingsleep (buf_lock i s) s then Panic ''bwrite'' else Ok () (disk_rw i True s))"

definition move_to_front :: "nat \<Rightarrow> nat list \<Rightarrow> nat list" where
  "move_to_front i is = i # remove1 i is"

definition brelse :: "nat \<Rightarrow> 'a bio_st_scheme \<Rightarrow> (unit, 'a bio_st_scheme) res" where
  "brelse i s =
     (if \<not> holdingsleep (buf_lock i s) s then Panic ''brelse''
      else
        let s = releasesleep (upd_buf_lock i) (ChBufLock i) s;
            s = upd_buf i (\<lambda>b. b\<lparr>b_refcnt := uint_dec (b_refcnt b)\<rparr>) s in
        Ok () (if b_refcnt (buf_at s i) = 0 then s\<lparr>lru := move_to_front i (lru s)\<rparr> else s))"

definition bpin :: "nat \<Rightarrow> 'a bio_st_scheme \<Rightarrow> 'a bio_st_scheme" where
  "bpin i s = upd_buf i (\<lambda>b. b\<lparr>b_refcnt := uint_inc (b_refcnt b)\<rparr>) s"

definition bunpin :: "nat \<Rightarrow> 'a bio_st_scheme \<Rightarrow> 'a bio_st_scheme" where
  "bunpin i s = upd_buf i (\<lambda>b. b\<lparr>b_refcnt := uint_dec (b_refcnt b)\<rparr>) s"

text \<open>The assignments the callers make to \<open>b->data\<close>.\<close>

definition set_data :: "nat \<Rightarrow> uint8 list \<Rightarrow> 'a bio_st_scheme \<Rightarrow> 'a bio_st_scheme" where
  "set_data i d s = upd_buf i (\<lambda>b. b\<lparr>b_data := d\<rparr>) s"

definition put_at :: "nat \<Rightarrow> uint8 list \<Rightarrow> uint8 list \<Rightarrow> uint8 list" where
  "put_at off bs d = take off d @ bs @ drop (off + length bs) d"

lemma length_put_at [simp]: "off + length bs \<le> length d \<Longrightarrow> length (put_at off bs d) = length d"
  by (simp add: put_at_def)

section \<open>Frame\<close>

lemma myproc_bufs [simp]:
  "myproc (s\<lparr>bufs := x\<rparr>) = myproc s" "myproc (s\<lparr>lru := y\<rparr>) = myproc s"
  "myproc (s\<lparr>disk := d\<rparr>) = myproc s" "myproc (s\<lparr>dlog := w\<rparr>) = myproc s"
  by (simp_all add: myproc_def mycpu_def cpuid_def)

lemma mypid_bufs [simp]:
  "mypid (s\<lparr>bufs := x\<rparr>) = mypid s" "mypid (s\<lparr>lru := y\<rparr>) = mypid s"
  "mypid (s\<lparr>disk := d\<rparr>) = mypid s" "mypid (s\<lparr>dlog := w\<rparr>) = mypid s"
  by (simp_all add: mypid_def split: option.splits)

lemma mypid_wakeup [simp]: "mypid (wakeup ch s) = mypid s"
  by (simp add: mypid_def wakeup_nth split: option.splits)

lemma wakeup_bufs [simp]:
  "bufs (wakeup ch s) = bufs s" "lru (wakeup ch s) = lru s" "disk (wakeup ch s) = disk s"
  "dlog (wakeup ch s) = dlog s"
  by (subst wakeup_eq, simp)+

interpretation buf_sl: sleep_lock "buf_lock i" "upd_buf_lock i" "\<lambda>s. i < length (bufs s)" for i
  by unfold_locales (auto simp: buf_lock_def upd_buf_lock_def upd_buf_def)

section \<open>The cache as a map from blocks to contents\<close>

definition ROOTDEV :: uint32 where "ROOTDEV = 1"

definition is_block :: "buf \<Rightarrow> uint32 \<Rightarrow> bool" where
  "is_block b bn \<longleftrightarrow> b_dev b = ROOTDEV \<and> b_blockno b = bn"

text \<open>\<open>bc_inv\<close>: the list holds every buffer once; no block is cached twice; a locked buffer is
  referenced, a referenced one belongs to the disk; an unreferenced valid buffer agrees with the disk,
  so it can be recycled.\<close>

definition buf_ok :: "(uint32 \<Rightarrow> uint8 list) \<Rightarrow> buf \<Rightarrow> bool" where
  "buf_ok d b \<longleftrightarrow>
     (sl_locked (b_lock b) \<longrightarrow> 0 < b_refcnt b) \<and>
     (0 < b_refcnt b \<longrightarrow> b_dev b = ROOTDEV) \<and>
     (b_valid b \<longrightarrow> b_refcnt b = 0 \<longrightarrow> b_dev b = ROOTDEV \<longrightarrow> b_data b = d (b_blockno b))"

definition bc_inv :: "'a bio_st_scheme \<Rightarrow> bool" where
  "bc_inv s \<longleftrightarrow>
     length (bufs s) = NBUF \<and> distinct (lru s) \<and> set (lru s) = {..<NBUF} \<and>
     (\<forall>i < NBUF. \<forall>j < NBUF. \<forall>bn. is_block (buf_at s i) bn \<longrightarrow> is_block (buf_at s j) bn \<longrightarrow> i = j) \<and>
     (\<forall>i < NBUF. buf_ok (disk s) (buf_at s i))"

definition slot_of :: "'a bio_st_scheme \<Rightarrow> uint32 \<Rightarrow> nat option" where
  "slot_of s bn = find_slot (\<lambda>b. is_block b bn) (bufs s)"

definition bview :: "'a bio_st_scheme \<Rightarrow> uint32 \<Rightarrow> uint8 list" where
  "bview s bn = (case slot_of s bn of
     None \<Rightarrow> disk s bn
   | Some i \<Rightarrow> if b_valid (buf_at s i) then b_data (buf_at s i) else disk s bn)"

definition bref :: "'a bio_st_scheme \<Rightarrow> uint32 \<Rightarrow> nat" where
  "bref s bn = (case slot_of s bn of None \<Rightarrow> 0 | Some i \<Rightarrow> b_refcnt (buf_at s i))"

definition block_locked :: "'a bio_st_scheme \<Rightarrow> uint32 \<Rightarrow> bool" where
  "block_locked s bn = (case slot_of s bn of None \<Rightarrow> False | Some i \<Rightarrow> sl_locked (b_lock (buf_at s i)))"

text \<open>The running process holds buffer \<open>i\<close> for block \<open>bn\<close>.\<close>

definition bhold :: "'a bio_st_scheme \<Rightarrow> uint32 \<Rightarrow> nat \<Rightarrow> bool" where
  "bhold s bn i \<longleftrightarrow> i < NBUF \<and> is_block (buf_at s i) bn \<and> b_valid (buf_at s i) \<and>
     holdingsleep (buf_lock i s) s"

lemma bc_invD:
  assumes "bc_inv s"
  shows "length (bufs s) = NBUF" "distinct (lru s)" "set (lru s) = {..<NBUF}"
    "i < NBUF \<Longrightarrow> j < NBUF \<Longrightarrow> is_block (buf_at s i) bn \<Longrightarrow> is_block (buf_at s j) bn \<Longrightarrow> i = j"
    "i < NBUF \<Longrightarrow> buf_ok (disk s) (buf_at s i)"
  using assms by (auto simp: bc_inv_def)

lemma slot_of_Some:
  assumes "bc_inv s"
  shows "slot_of s bn = Some i \<longleftrightarrow> i < NBUF \<and> is_block (buf_at s i) bn"
proof
  assume "slot_of s bn = Some i"
  then show "i < NBUF \<and> is_block (buf_at s i) bn"
    using bc_invD(1) [OF assms] by (auto simp: slot_of_def)
next
  assume i: "i < NBUF \<and> is_block (buf_at s i) bn"
  then have "\<not> is_block (buf_at s j) bn" if "j < i" for j
    using that bc_invD(4) [OF assms, of i j bn] by auto
  then show "slot_of s bn = Some i"
    unfolding slot_of_def using i bc_invD(1) [OF assms] by (intro find_slot_least) auto
qed

lemma slot_of_None:
  assumes "bc_inv s"
  shows "slot_of s bn = None \<longleftrightarrow> (\<forall>i < NBUF. \<not> is_block (buf_at s i) bn)"
  using slot_of_Some [OF assms] by (metis not_None_eq)

lemma find_SomeD: "find P xs = Some x \<Longrightarrow> P x \<and> x \<in> set xs"
  by (induction xs) (auto split: if_splits)

lemma find_lru:
  assumes "bc_inv s"
  shows "find (\<lambda>i. b_dev (buf_at s i) = ROOTDEV \<and> b_blockno (buf_at s i) = bn) (lru s) = slot_of s bn"
proof (cases "slot_of s bn")
  case None
  then have "\<forall>i \<in> set (lru s). \<not> is_block (buf_at s i) bn"
    using slot_of_None [OF assms, of bn] bc_invD(3) [OF assms] by auto
  then have "find (\<lambda>i. b_dev (buf_at s i) = ROOTDEV \<and> b_blockno (buf_at s i) = bn) (lru s) = None"
    by (auto simp: find_None_iff is_block_def)
  then show ?thesis using None by simp
next
  case (Some i)
  then have i: "i < NBUF" "is_block (buf_at s i) bn" using slot_of_Some [OF assms] by auto
  have "find (\<lambda>i. b_dev (buf_at s i) = ROOTDEV \<and> b_blockno (buf_at s i) = bn) (lru s) \<noteq> None"
    using i bc_invD(3) [OF assms] by (auto simp: find_None_iff is_block_def)
  then obtain j where j: "find (\<lambda>i. b_dev (buf_at s i) = ROOTDEV \<and> b_blockno (buf_at s i) = bn) (lru s) = Some j"
    by blast
  then have "j \<in> set (lru s)" "is_block (buf_at s j) bn"
    using find_SomeD [OF j] by (auto simp: is_block_def)
  then have "j = i" using bc_invD(3,4) [OF assms] i by auto
  then show ?thesis using Some j by simp
qed

text \<open>Replacing the buffer of a block, or recycling an unreferenced one for a block that is not
  cached, leaves every other block alone.\<close>

lemma upd_block:
  assumes inv: "bc_inv s" and i: "i < NBUF"
    and slot: "slot_of s bn = Some i \<or> slot_of s bn = None \<and> b_refcnt (buf_at s i) = 0"
    and b': "is_block b' bn" "buf_ok (disk s) b'"
    and t: "t = s\<lparr>bufs := (bufs s)[i := b']\<rparr>"
  shows "bc_inv t" "slot_of t bn = Some i" "buf_at t i = b'"
    "x \<noteq> bn \<Longrightarrow> bview t x = bview s x \<and> bref t x = bref s x \<and> block_locked t x = block_locked s x"
    "\<And>j. j \<noteq> i \<Longrightarrow> buf_at t j = buf_at s j"
proof -
  have len: "length (bufs s) = NBUF" using bc_invD(1) [OF inv] .
  show ti: "buf_at t i = b'" and tj: "\<And>j. j \<noteq> i \<Longrightarrow> buf_at t j = buf_at s j"
    using i len by (auto simp: t)
  have only: "\<not> is_block (buf_at s j) bn" if "j < NBUF" "j \<noteq> i" for j
    using slot that slot_of_Some [OF inv] slot_of_None [OF inv] bc_invD(4) [OF inv] by blast
  show inv': "bc_inv t"
    unfolding bc_inv_def
  proof (intro conjI allI impI)
    show "length (bufs t) = NBUF" "distinct (lru t)" "set (lru t) = {..<NBUF}"
      using bc_invD(1-3) [OF inv] by (auto simp: t)
    show "buf_ok (disk t) (buf_at t j)" if "j < NBUF" for j
      using bc_invD(5) [OF inv that] b'(2) ti tj by (cases "j = i") (auto simp: t)
    fix j k x assume jk: "j < NBUF" "k < NBUF" "is_block (buf_at t j) x" "is_block (buf_at t k) x"
    show "j = k"
    proof (cases "x = bn")
      case True
      then show ?thesis using jk only tj by metis
    next
      case False
      then have "j \<noteq> i" "k \<noteq> i" using jk ti b'(1) by (auto simp: is_block_def)
      then show ?thesis using jk tj bc_invD(4) [OF inv, of j k x] by simp
    qed
  qed
  show "slot_of t bn = Some i" using slot_of_Some [OF inv'] i ti b'(1) by simp
  show "bview t x = bview s x \<and> bref t x = bref s x \<and> block_locked t x = block_locked s x" if x: "x \<noteq> bn"
  proof -
    have ix: "\<not> is_block b' x" using b'(1) x by (auto simp: is_block_def)
    show ?thesis
    proof (cases "slot_of s x")
      case None
      then have "slot_of t x = None"
        using slot_of_None [OF inv] slot_of_None [OF inv'] ti tj ix by metis
      then show ?thesis using None by (simp add: bview_def bref_def block_locked_def t)
    next
      case (Some j)
      then have j: "j < NBUF" "is_block (buf_at s j) x" using slot_of_Some [OF inv] by auto
      show ?thesis
      proof (cases "j = i")
        case False
        then have "slot_of t x = Some j" using j tj slot_of_Some [OF inv'] by simp
        then show ?thesis using Some False tj by (simp add: bview_def bref_def block_locked_def t)
      next
        case True
        then have "slot_of s bn \<noteq> Some i" using j x slot_of_Some [OF inv] by (auto simp: is_block_def)
        then have r0: "b_refcnt (buf_at s i) = 0" using slot by blast
        have "slot_of t x = None"
          using slot_of_None [OF inv'] tj ti ix True j bc_invD(4) [OF inv] by metis
        moreover have "buf_ok (disk s) (buf_at s i)" using bc_invD(5) [OF inv i] .
        ultimately show ?thesis using Some True r0 j(2)
          by (auto simp: bview_def bref_def block_locked_def t buf_ok_def is_block_def)
      qed
    qed
  qed
qed

section \<open>What the operations do to the contents\<close>

text \<open>\<open>bstep bn\<close> relates two states between which at most block \<open>bn\<close> changed its buffer: all other
  blocks keep contents, references and lock, and the disk is the same.\<close>

definition bstep :: "uint32 \<Rightarrow> 'a bio_st_scheme \<Rightarrow> 'a bio_st_scheme \<Rightarrow> bool" where
  "bstep bn s t \<longleftrightarrow>
     t = s\<lparr>procs := procs t, bufs := bufs t, lru := lru t\<rparr> \<and> mypid t = mypid s \<and>
     (\<forall>x. x \<noteq> bn \<longrightarrow> bview t x = bview s x \<and> bref t x = bref s x \<and>
        block_locked t x = block_locked s x \<and> (\<forall>i. bhold s x i \<longrightarrow> bhold t x i))"

lemma bstep_fields:
  assumes "bstep bn s t"
  shows "disk t = disk s" "dlog t = dlog s" "bio_st.more t = bio_st.more s" "mypid t = mypid s"
proof -
  have t: "t = s\<lparr>procs := procs t, bufs := bufs t, lru := lru t\<rparr>" using assms by (simp add: bstep_def)
  show "disk t = disk s" "dlog t = dlog s" "bio_st.more t = bio_st.more s" by (subst t, simp)+
  show "mypid t = mypid s" using assms by (simp add: bstep_def)
qed

lemma bstep_trans:
  assumes "bstep bn s t" "bstep bn t u"
  shows "bstep bn s u"
proof -
  have t: "t = s\<lparr>procs := procs t, bufs := bufs t, lru := lru t\<rparr>"
    and u: "u = t\<lparr>procs := procs u, bufs := bufs u, lru := lru u\<rparr>" using assms by (simp_all add: bstep_def)
  have "u = s\<lparr>procs := procs u, bufs := bufs u, lru := lru u\<rparr>" by (subst u, subst t) simp
  then show ?thesis using assms by (simp add: bstep_def)
qed

definition my_lock :: "'a bio_st_scheme \<Rightarrow> buf \<Rightarrow> buf" where
  "my_lock s b = b\<lparr>b_lock := (b_lock b)\<lparr>sl_locked := True, sl_pid := mypid s\<rparr>\<rparr>"

lemma upd_buf_eq: "i < length (bufs s) \<Longrightarrow> upd_buf i f s = s\<lparr>bufs := (bufs s)[i := f (buf_at s i)]\<rparr>"
  by (simp add: upd_buf_def upd_nth_def)

lemma upd_block_bstep:
  assumes inv: "bc_inv s" and i: "i < NBUF"
    and slot: "slot_of s bn = Some i \<or> slot_of s bn = None \<and> b_refcnt (buf_at s i) = 0"
    and b': "is_block b' bn" "buf_ok (disk s) b'"
    and t: "t = s\<lparr>bufs := (bufs s)[i := b']\<rparr>"
  shows "bstep bn s t"
proof -
  note upd = upd_block [OF inv i slot b' t]
  have "bhold t x j" if "x \<noteq> bn" "bhold s x j" for x j
  proof -
    have "j \<noteq> i"
    proof
      assume "j = i"
      then have "is_block (buf_at s i) x" "0 < b_refcnt (buf_at s i)"
        using that(2) bc_invD(5) [OF inv i] by (auto simp: bhold_def buf_ok_def holdingsleep_def buf_lock_def)
      then show False using slot slot_of_Some [OF inv] that(1) by (auto simp: is_block_def)
    qed
    then show ?thesis using that(2) upd(5) by (simp add: bhold_def buf_lock_def holdingsleep_def t)
  qed
  moreover have "bview t x = bview s x \<and> bref t x = bref s x \<and> block_locked t x = block_locked s x"
    if "x \<noteq> bn" for x using upd(4) [OF that] .
  ultimately show ?thesis unfolding bstep_def by (simp add: t)
qed

lemma bget_run:
  assumes "bc_inv s" "\<not> sl_locked (b_lock (buf_at s i))" "i < NBUF"
  shows "bindR (acquiresleep [] (buf_lock i) (upd_buf_lock i) (ChBufLock i)
            (upd_buf i f s)) (\<lambda>_ s. Ok i s) =
     (if sl_locked (b_lock (f (buf_at s i))) then Asleep (ChBufLock i) (sleep_self (ChBufLock i) (upd_buf i f s))
      else Ok i (s\<lparr>bufs := (bufs s)[i := my_lock s (f (buf_at s i))]\<rparr>))"
proof -
  have len: "i < length (bufs s)" using bc_invD(1) [OF assms(1)] assms(3) by simp
  let ?s1 = "upd_buf i f s"
  have b1: "buf_at ?s1 i = f (buf_at s i)" and m: "mypid ?s1 = mypid s" and l1: "length (bufs ?s1) = length (bufs s)"
    using len by (simp_all add: upd_buf_eq)
  have "upd_buf_lock i g ?s1 = s\<lparr>bufs := (bufs s)[i := (f (buf_at s i))\<lparr>b_lock := g (b_lock (f (buf_at s i)))\<rparr>]\<rparr>" for g
    using len by (simp add: upd_buf_lock_def upd_buf_eq)
  then show ?thesis using b1 m
    by (simp add: acquiresleep.simps buf_lock_def my_lock_def Let_def)
qed

text \<open>\<open>bread\<close> returns when the block is cached and free, or when some buffer is unreferenced.\<close>

lemma bread_spec:
  assumes inv: "bc_inv s" and free: "\<not> block_locked s bn"
    and room: "slot_of s bn \<noteq> None \<or> (\<exists>i < NBUF. b_refcnt (buf_at s i) = 0)"
    and small: "bref s bn < 2 ^ 32 - 1"
  shows "\<exists>i t. bread ROOTDEV bn s = Ok i t \<and> bc_inv t \<and> bstep bn s t \<and> bhold t bn i \<and>
    b_data (buf_at t i) = bview s bn \<and> bview t bn = bview s bn \<and>
    bref t bn = Suc (bref s bn) \<and> block_locked t bn \<and> t = s\<lparr>bufs := bufs t\<rparr>"
proof -
  obtain i rc where i: "i < NBUF"
    and slot: "slot_of s bn = Some i \<or> slot_of s bn = None \<and> b_refcnt (buf_at s i) = 0"
    and g: "bget ROOTDEV bn s = Ok i (s\<lparr>bufs := (bufs s)[i := my_lock s ((buf_at s i)\<lparr>b_dev := ROOTDEV,
        b_blockno := bn, b_valid := slot_of s bn \<noteq> None \<and> b_valid (buf_at s i), b_refcnt := Suc (bref s bn)\<rparr>)]\<rparr>)"
  proof (cases "slot_of s bn")
    case (Some i)
    then have i: "i < NBUF" "is_block (buf_at s i) bn" using slot_of_Some [OF inv] by auto
    have nl: "\<not> sl_locked (b_lock (buf_at s i))" using free Some by (simp add: block_locked_def)
    have rc: "bref s bn = b_refcnt (buf_at s i)" using Some by (simp add: bref_def)
    have inc: "uint_inc (b_refcnt (buf_at s i)) = Suc (bref s bn)"
      using small rc by (simp add: uint_inc_def)
    have "(buf_at s i)\<lparr>b_refcnt := Suc (bref s bn)\<rparr> = (buf_at s i)\<lparr>b_dev := ROOTDEV,
        b_blockno := bn, b_valid := b_valid (buf_at s i), b_refcnt := Suc (bref s bn)\<rparr>"
      using i(2) by (cases "buf_at s i") (auto simp: is_block_def)
    then show ?thesis
      using that [OF i(1)] Some bget_run [OF inv nl i(1), of "\<lambda>b. b\<lparr>b_refcnt := uint_inc (b_refcnt b)\<rparr>"] nl inc
        find_lru [OF inv, of bn] by (simp add: bget_def)
  next
    case None
    then obtain j where "j < NBUF" "b_refcnt (buf_at s j) = 0" using room by blast
    then have "find (\<lambda>i. b_refcnt (buf_at s i) = 0) (rev (lru s)) \<noteq> None"
      using bc_invD(3) [OF inv] by (auto simp: find_None_iff)
    then obtain i where f: "find (\<lambda>i. b_refcnt (buf_at s i) = 0) (rev (lru s)) = Some i" by blast
    then have "b_refcnt (buf_at s i) = 0" "i \<in> set (rev (lru s))" using find_SomeD by fast+
    then have i: "i < NBUF" "b_refcnt (buf_at s i) = 0" using bc_invD(3) [OF inv] by auto
    then have nl: "\<not> sl_locked (b_lock (buf_at s i))" using bc_invD(5) [OF inv i(1)] by (auto simp: buf_ok_def)
    have "bref s bn = 0" using None by (simp add: bref_def)
    then show ?thesis
      using that [OF i(1)] None i f nl bget_run [OF inv nl i(1), of "\<lambda>b. b\<lparr>b_dev := ROOTDEV,
          b_blockno := bn, b_valid := False, b_refcnt := 1\<rparr>"] find_lru [OF inv, of bn]
      by (simp add: bget_def)
  qed
  define v where "v = (slot_of s bn \<noteq> None \<and> b_valid (buf_at s i))"
  define b' where "b' = my_lock s ((buf_at s i)\<lparr>b_dev := ROOTDEV, b_blockno := bn, b_valid := True,
      b_refcnt := Suc (bref s bn), b_data := bview s bn\<rparr>)"
  define t where "t = s\<lparr>bufs := (bufs s)[i := b']\<rparr>"
  have len: "i < length (bufs s)" using bc_invD(1) [OF inv] i by simp
  have view: "bview s bn = (if v then b_data (buf_at s i) else disk s bn)"
    using slot by (auto simp: bview_def v_def)
  have "bread ROOTDEV bn s = Ok i t"
  proof (cases v)
    case True
    then have "b' = my_lock s ((buf_at s i)\<lparr>b_dev := ROOTDEV, b_blockno := bn, b_valid := True,
        b_refcnt := Suc (bref s bn)\<rparr>)" using view by (cases "buf_at s i") (simp add: b'_def)
    moreover have "(slot_of s bn \<noteq> None \<and> b_valid (buf_at s i)) = True" using True by (simp add: v_def)
    ultimately show ?thesis using g len by (simp only: bread_def bindR.simps) (simp add: t_def my_lock_def)
  next
    case False
    then have nv: "(slot_of s bn \<noteq> None \<and> b_valid (buf_at s i)) = False" by (simp add: v_def)
    have "b' = (my_lock s ((buf_at s i)\<lparr>b_dev := ROOTDEV, b_blockno := bn, b_valid := False,
        b_refcnt := Suc (bref s bn)\<rparr>))\<lparr>b_data := disk s bn, b_valid := True\<rparr>"
      using view False by (simp add: b'_def my_lock_def)
    then show ?thesis using g len
      by (simp only: bread_def bindR.simps nv) (simp add: t_def my_lock_def disk_rw_def upd_buf_eq Let_def)
  qed
  moreover have b'1: "is_block b' bn" "buf_ok (disk s) b'"
    by (simp_all add: b'_def my_lock_def is_block_def buf_ok_def)
  note upd = upd_block [OF inv i slot b'1 t_def] and st = upd_block_bstep [OF inv i slot b'1 t_def]
  moreover have "bhold t bn i"
    using upd(3) i b'1(1) by (simp add: bhold_def buf_lock_def holdingsleep_def)
      (simp add: b'_def my_lock_def t_def)
  moreover have "b_data b' = bview s bn" "b_valid b'" "b_refcnt b' = Suc (bref s bn)" "sl_locked (b_lock b')"
    by (simp_all add: b'_def my_lock_def)
  ultimately show ?thesis
    by (intro exI [of _ i] exI [of _ t]) (simp add: bview_def bref_def block_locked_def, simp add: t_def)
qed

lemma bhold_slot:
  assumes "bc_inv s" "bhold s bn i"
  shows "slot_of s bn = Some i" "i < NBUF" "is_block (buf_at s i) bn" "b_valid (buf_at s i)"
    "bview s bn = b_data (buf_at s i)" "bref s bn = b_refcnt (buf_at s i)" "0 < bref s bn"
    "block_locked s bn"
proof -
  show sl: "slot_of s bn = Some i" using assms slot_of_Some by (auto simp: bhold_def)
  show i: "i < NBUF" and "is_block (buf_at s i) bn" "b_valid (buf_at s i)" using assms(2) by (auto simp: bhold_def)
  then show "bview s bn = b_data (buf_at s i)" using sl by (simp add: bview_def)
  show r: "bref s bn = b_refcnt (buf_at s i)" using sl by (simp add: bref_def)
  have l: "sl_locked (b_lock (buf_at s i))" using assms(2) by (simp add: bhold_def holdingsleep_def buf_lock_def)
  then show "0 < bref s bn" using bc_invD(5) [OF assms(1) i] r by (simp add: buf_ok_def)
  show "block_locked s bn" using l sl by (simp add: block_locked_def)
qed

text \<open>Changing a held buffer without giving up the lock.\<close>

lemma held_update:
  assumes inv: "bc_inv s" and h: "bhold s bn i"
    and f: "is_block (f (buf_at s i)) bn" "b_lock (f (buf_at s i)) = b_lock (buf_at s i)"
      "b_valid (f (buf_at s i))" "0 < b_refcnt (f (buf_at s i))"
  shows "bc_inv (upd_buf i f s)" "bstep bn s (upd_buf i f s)" "bhold (upd_buf i f s) bn i"
    "bview (upd_buf i f s) bn = b_data (f (buf_at s i))"
    "bref (upd_buf i f s) bn = b_refcnt (f (buf_at s i))" "block_locked (upd_buf i f s) bn"
    "buf_at (upd_buf i f s) i = f (buf_at s i)"
proof -
  note hs = bhold_slot [OF inv h]
  let ?b = "f (buf_at s i)"
  have len: "i < length (bufs s)" using bc_invD(1) [OF inv] hs(2) by simp
  note eq = upd_buf_eq [OF len, of f]
  have ok: "buf_ok (disk s) ?b" using f by (simp add: buf_ok_def is_block_def)
  note upd = upd_block [OF inv hs(2) disjI1 [OF hs(1)] f(1) ok eq]
  show "bc_inv (upd_buf i f s)" "buf_at (upd_buf i f s) i = ?b" by (rule upd)+
  show "bstep bn s (upd_buf i f s)" by (rule upd_block_bstep [OF inv hs(2) disjI1 [OF hs(1)] f(1) ok eq])
  show "bhold (upd_buf i f s) bn i"
    using h f upd(3) by (simp add: bhold_def buf_lock_def holdingsleep_def eq)
  show "bview (upd_buf i f s) bn = b_data ?b" "bref (upd_buf i f s) bn = b_refcnt ?b"
    "block_locked (upd_buf i f s) bn"
    using upd(2,3) f h by (auto simp: bview_def bref_def block_locked_def bhold_def holdingsleep_def buf_lock_def)
qed

lemma set_data_spec:
  assumes "bc_inv s" "bhold s bn i"
  shows "bc_inv (set_data i d s)" "bstep bn s (set_data i d s)" "bhold (set_data i d s) bn i"
    "bview (set_data i d s) bn = d" "bref (set_data i d s) bn = bref s bn"
    "b_data (buf_at (set_data i d s) i) = d"
  using held_update [OF assms, of "\<lambda>b. b\<lparr>b_data := d\<rparr>"] bhold_slot [OF assms]
  by (simp_all add: set_data_def is_block_def)

lemma bpin_spec:
  assumes "bc_inv s" "bhold s bn i" "bref s bn < 2 ^ 32 - 1"
  shows "bc_inv (bpin i s)" "bstep bn s (bpin i s)" "bhold (bpin i s) bn i"
    "bview (bpin i s) bn = bview s bn" "bref (bpin i s) bn = Suc (bref s bn)"
proof -
  note hs = bhold_slot [OF assms(1,2)]
  have "uint_inc (b_refcnt (buf_at s i)) = Suc (bref s bn)" using assms(3) hs(6) by (simp add: uint_inc_def)
  then show "bc_inv (bpin i s)" "bstep bn s (bpin i s)" "bhold (bpin i s) bn i"
    "bview (bpin i s) bn = bview s bn" "bref (bpin i s) bn = Suc (bref s bn)"
    using held_update [OF assms(1,2), of "\<lambda>b. b\<lparr>b_refcnt := uint_inc (b_refcnt b)\<rparr>"] hs
    by (simp_all add: bpin_def is_block_def)
qed

lemma bunpin_spec:
  assumes "bc_inv s" "bhold s bn i" "1 < bref s bn"
  shows "bc_inv (bunpin i s)" "bstep bn s (bunpin i s)" "bhold (bunpin i s) bn i"
    "bview (bunpin i s) bn = bview s bn" "bref (bunpin i s) bn = bref s bn - 1"
proof -
  note hs = bhold_slot [OF assms(1,2)]
  have "uint_dec (b_refcnt (buf_at s i)) = bref s bn - 1" using assms(3) hs(6) by (simp add: uint_dec_def)
  then show "bc_inv (bunpin i s)" "bstep bn s (bunpin i s)" "bhold (bunpin i s) bn i"
    "bview (bunpin i s) bn = bview s bn" "bref (bunpin i s) bn = bref s bn - 1"
    using held_update [OF assms(1,2), of "\<lambda>b. b\<lparr>b_refcnt := uint_dec (b_refcnt b)\<rparr>"] hs assms(3)
    by (simp_all add: bunpin_def is_block_def)
qed

lemma bwrite_spec:
  assumes inv: "bc_inv s" and h: "bhold s bn i"
  defines "t \<equiv> s\<lparr>disk := (disk s)(bn := bview s bn), dlog := dlog s @ [(bn, bview s bn)]\<rparr>"
  shows "bwrite i s = Ok () t" "bc_inv t" "\<And>x. bview t x = bview s x" "\<And>x. bref t x = bref s x"
    "\<And>x. block_locked t x = block_locked s x" "\<And>x j. bhold t x j = bhold s x j"
proof -
  note hs = bhold_slot [OF inv h]
  have sl: "slot_of t x = slot_of s x" for x by (simp add: slot_of_def t_def)
  show "bwrite i s = Ok () t"
    using h hs(3,5) by (simp add: bwrite_def bhold_def disk_rw_def t_def is_block_def Let_def)
  have "buf_ok (disk t) (buf_at t j)" if j: "j < NBUF" for j
  proof (cases "j = i")
    case True
    then show ?thesis using bc_invD(5) [OF inv j] hs(6,7) by (simp add: buf_ok_def t_def)
  next
    case False
    then have "\<not> is_block (buf_at s j) bn" using bc_invD(4) [OF inv j hs(2)] hs(3) by blast
    then show ?thesis using bc_invD(5) [OF inv j] by (auto simp: buf_ok_def t_def is_block_def)
  qed
  then show "bc_inv t" using inv by (auto simp: bc_inv_def t_def)
  show "bview t x = bview s x" for x
    using hs(1,4) sl by (auto simp: bview_def t_def split: option.splits)
  show "bref t x = bref s x" "block_locked t x = block_locked s x" for x
    using sl by (auto simp: bref_def block_locked_def t_def split: option.splits)
  show "bhold t x j = bhold s x j" for x j
    by (simp add: bhold_def buf_lock_def holdingsleep_def t_def)
qed

lemma same_bufs:
  assumes "bufs t = bufs s" "disk t = disk s"
  shows "bview t x = bview s x" "bref t x = bref s x" "block_locked t x = block_locked s x"
    "slot_of t x = slot_of s x" "mypid t = mypid s \<Longrightarrow> bhold t x j = bhold s x j"
    "bc_inv s \<Longrightarrow> distinct (lru t) \<Longrightarrow> set (lru t) = set (lru s) \<Longrightarrow> bc_inv t"
proof -
  show sl: "slot_of t x = slot_of s x" for x using assms by (simp add: slot_of_def)
  show "bview t x = bview s x" "bref t x = bref s x" "block_locked t x = block_locked s x"
    using assms sl by (auto simp: bview_def bref_def block_locked_def split: option.splits)
  show "bhold t x j = bhold s x j" if "mypid t = mypid s"
    using assms that by (simp add: bhold_def holdingsleep_def buf_lock_def)
  show "bc_inv t" if "bc_inv s" "distinct (lru t)" "set (lru t) = set (lru s)"
    using assms that unfolding bc_inv_def by simp
qed

lemma move_to_front [simp]:
  "distinct xs \<Longrightarrow> distinct (move_to_front i xs)"
  "distinct xs \<Longrightarrow> i \<in> set xs \<Longrightarrow> set (move_to_front i xs) = set xs"
  by (auto simp: move_to_front_def)

definition unlocked :: "buf \<Rightarrow> buf" where
  "unlocked b = b\<lparr>b_lock := (b_lock b)\<lparr>sl_locked := False, sl_pid := 0\<rparr>, b_refcnt := uint_dec (b_refcnt b)\<rparr>"

lemma brelse_run:
  assumes "bc_inv s" "bhold s bn i"
  shows "\<exists>t. brelse i s = Ok () t \<and> bufs t = (bufs s)[i := unlocked (buf_at s i)] \<and>
     disk t = disk s \<and> mypid t = mypid s \<and> distinct (lru t) \<and> set (lru t) = set (lru s) \<and>
     t = s\<lparr>procs := procs t, bufs := bufs t, lru := lru t\<rparr>"
proof -
  note hs = bhold_slot [OF assms]
  have len: "i < length (bufs s)" using bc_invD(1) [OF assms(1)] hs(2) by simp
  define u where "u = releasesleep (upd_buf_lock i) (ChBufLock i) s"
  define v where "v = upd_buf i (\<lambda>b. b\<lparr>b_refcnt := uint_dec (b_refcnt b)\<rparr>) u"
  define t where "t = (if b_refcnt (buf_at v i) = 0 then v\<lparr>lru := move_to_front i (lru v)\<rparr> else v)"
  have u: "bufs u = (bufs s)[i := (buf_at s i)\<lparr>b_lock := (b_lock (buf_at s i))\<lparr>sl_locked := False, sl_pid := 0\<rparr>\<rparr>]"
    "lru u = lru s" "disk u = disk s" "mypid u = mypid s" "u = s\<lparr>procs := procs u, bufs := bufs u\<rparr>"
    using len unfolding u_def releasesleep_def
    by (simp_all add: upd_buf_lock_def upd_buf_eq) (subst wakeup_eq, simp)
  have v: "v = u\<lparr>bufs := (bufs s)[i := unlocked (buf_at s i)]\<rparr>"
    using len by (simp add: v_def upd_buf_eq u(1) unlocked_def)
  have "brelse i s = Ok () t"
    using assms(2) by (simp add: brelse_def bhold_def Let_def t_def v_def u_def)
  moreover have "bufs t = (bufs s)[i := unlocked (buf_at s i)]" "disk t = disk s" "mypid t = mypid s"
    by (simp_all add: t_def v u(1-4))
  moreover have "distinct (lru t)" "set (lru t) = set (lru s)"
    using bc_invD(2,3) [OF assms(1)] hs(2) by (simp_all add: t_def v u(1-4))
  moreover obtain P B where "u = s\<lparr>procs := P, bufs := B\<rparr>" using u(5) by blast
  then have "t = s\<lparr>procs := procs t, bufs := bufs t, lru := lru t\<rparr>" by (simp add: t_def v)
  ultimately show ?thesis by blast
qed

text \<open>Giving a buffer up is safe when it is clean or still pinned.\<close>

lemma brelse_spec:
  assumes inv: "bc_inv s" and h: "bhold s bn i"
    and clean: "bref s bn = 1 \<Longrightarrow> bview s bn = disk s bn"
  shows "\<exists>t. brelse i s = Ok () t \<and> bc_inv t \<and> bstep bn s t \<and> bview t bn = bview s bn \<and>
    bref t bn = bref s bn - 1 \<and> \<not> block_locked t bn"
proof -
  note hs = bhold_slot [OF inv h]
  obtain t where t: "brelse i s = Ok () t" "bufs t = (bufs s)[i := unlocked (buf_at s i)]"
    "disk t = disk s" "mypid t = mypid s" "distinct (lru t)" "set (lru t) = set (lru s)"
    "t = s\<lparr>procs := procs t, bufs := bufs t, lru := lru t\<rparr>"
    using brelse_run [OF inv h] by blast
  define b' where "b' = unlocked (buf_at s i)"
  define u where "u = s\<lparr>bufs := (bufs s)[i := b']\<rparr>"
  have dec: "b_refcnt b' = bref s bn - 1" using hs(6,7) by (simp add: b'_def unlocked_def uint_dec_def)
  have b': "is_block b' bn" "b_valid b'" "b_data b' = bview s bn" "\<not> sl_locked (b_lock b')"
    using hs(3,4,5) by (simp_all add: b'_def unlocked_def is_block_def)
  have ok: "buf_ok (disk s) b'"
    using b' dec clean hs(7) by (auto simp: buf_ok_def is_block_def)
  note upd = upd_block [OF inv hs(2) disjI1 [OF hs(1)] b'(1) ok u_def]
  have st: "bstep bn s u" by (rule upd_block_bstep [OF inv hs(2) disjI1 [OF hs(1)] b'(1) ok u_def])
  have same: "bufs t = bufs u" "disk t = disk u" "lru u = lru s" "mypid u = mypid s"
    by (simp_all add: t(2-4) u_def b'_def)
  note tu = same_bufs [OF same(1,2)]
  have "bc_inv t" using tu(6) [OF upd(1) t(5)] t(6) same(3) by simp
  moreover have "bstep bn s t" using st tu(1-5) t(4,7) same(4) by (auto simp: bstep_def)
  moreover have "bview t bn = bview s bn" "bref t bn = bref s bn - 1" "\<not> block_locked t bn"
    using tu(1-3) upd(2,3) b' dec by (simp_all add: bview_def bref_def block_locked_def)
  ultimately show ?thesis using t(1) by blast
qed

section \<open>Boot\<close>

lemma binit_from_spec:
  "\<forall>i \<in> set is. i < length (bufs s) \<Longrightarrow> distinct is \<Longrightarrow>
   binit_from is s = s\<lparr>bufs := map (\<lambda>j. if j \<in> set is
       then (buf_at s j)\<lparr>b_lock := initsleeplock (b_lock (buf_at s j))\<rparr> else buf_at s j) [0..<length (bufs s)],
     lru := rev is @ lru s\<rparr>"
proof (induction "is" arbitrary: s)
  case Nil
  then show ?case by (simp add: map_nth)
next
  case (Cons i "is")
  let ?s = "upd_buf_lock i initsleeplock (s\<lparr>lru := i # lru s\<rparr>)"
  have i: "i < length (bufs s)" using Cons.prems by simp
  then have s: "?s = s\<lparr>lru := i # lru s, bufs := (bufs s)[i := (buf_at s i)\<lparr>b_lock := initsleeplock (b_lock (buf_at s i))\<rparr>]\<rparr>"
    by (simp add: upd_buf_lock_def upd_buf_eq)
  have "binit_from (i # is) s = binit_from is ?s" by simp
  also have "\<dots> = ?s\<lparr>bufs := map (\<lambda>j. if j \<in> set is
       then (buf_at ?s j)\<lparr>b_lock := initsleeplock (b_lock (buf_at ?s j))\<rparr> else buf_at ?s j) [0..<length (bufs ?s)],
     lru := rev is @ lru ?s\<rparr>"
    by (rule Cons.IH) (use Cons.prems s in auto)
  also have "\<dots> = s\<lparr>bufs := map (\<lambda>j. if j \<in> set (i # is)
       then (buf_at s j)\<lparr>b_lock := initsleeplock (b_lock (buf_at s j))\<rparr> else buf_at s j) [0..<length (bufs s)],
     lru := rev (i # is) @ lru s\<rparr>"
    using i Cons.prems(2) unfolding s by (auto simp: nth_list_update intro!: nth_equalityI)
  finally show ?case .
qed

text \<open>The buffers are in the zero-initialised part of the kernel: device 0, reference count 0.\<close>

lemma binit_inv:
  assumes "length (bufs s) = NBUF" "\<forall>b \<in> set (bufs s). b_dev b = 0 \<and> b_refcnt b = 0"
  shows "bc_inv (binit s)" "bview (binit s) = disk s" "bref (binit s) bn = 0" "\<not> block_locked (binit s) bn"
    "binit s = s\<lparr>bufs := bufs (binit s), lru := rev [0..<NBUF]\<rparr>"
proof -
  show eq: "binit s = s\<lparr>bufs := bufs (binit s), lru := rev [0..<NBUF]\<rparr>"
    unfolding binit_def by (subst (1 2) binit_from_spec) (auto simp: assms(1))
  have b: "buf_at (binit s) i = (buf_at s i)\<lparr>b_lock := initsleeplock (b_lock (buf_at s i))\<rparr>" if "i < NBUF" for i
    unfolding binit_def using that by (subst binit_from_spec) (auto simp: assms(1))
  have len: "length (bufs (binit s)) = NBUF"
    unfolding binit_def by (subst binit_from_spec) (auto simp: assms(1))
  have z: "b_dev (buf_at s i) = 0" "b_refcnt (buf_at s i) = 0" if "i < NBUF" for i
    using assms that by simp_all
  have l: "lru (binit s) = rev [0..<NBUF]" by (subst eq) simp
  show inv: "bc_inv (binit s)"
    unfolding bc_inv_def using len l b z by (auto simp: is_block_def buf_ok_def initsleeplock_def ROOTDEV_def)
  have none: "slot_of (binit s) x = None" for x
    using slot_of_None [OF inv] b z by (auto simp: is_block_def ROOTDEV_def)
  have "disk (binit s) = disk s" by (subst eq) simp
  then show "bview (binit s) = disk s" "bref (binit s) bn = 0" "\<not> block_locked (binit s) bn"
    using none by (auto simp: bview_def bref_def block_locked_def)
qed

text \<open>While fewer blocks than buffers are in use, some buffer can be recycled.\<close>

lemma free_buf:
  assumes inv: "bc_inv s" and B: "finite B" "card B < NBUF" "\<And>bn. 0 < bref s bn \<Longrightarrow> bn \<in> B"
  shows "\<exists>i < NBUF. b_refcnt (buf_at s i) = 0"
proof (rule ccontr)
  assume "\<not> ?thesis"
  then have used: "0 < b_refcnt (buf_at s i)" if "i < NBUF" for i using that by auto
  then have blk: "is_block (buf_at s i) (b_blockno (buf_at s i))" if "i < NBUF" for i
    using that bc_invD(5) [OF inv that] by (auto simp: is_block_def buf_ok_def)
  have "inj_on (\<lambda>i. b_blockno (buf_at s i)) {..<NBUF}"
    using bc_invD(4) [OF inv] blk by (fastforce simp: inj_on_def)
  moreover have "(\<lambda>i. b_blockno (buf_at s i)) ` {..<NBUF} \<subseteq> B"
  proof
    fix x assume "x \<in> (\<lambda>i. b_blockno (buf_at s i)) ` {..<NBUF}"
    then obtain i where i: "i < NBUF" "x = b_blockno (buf_at s i)" by auto
    then have "slot_of s x = Some i" using slot_of_Some [OF inv] blk by simp
    then show "x \<in> B" using B(3) [of x] used [OF i(1)] by (simp add: bref_def)
  qed
  ultimately have "card {..<NBUF} \<le> card B" using card_inj_on_le B(1) by blast
  then show False using B(2) by simp
qed

text \<open>A machine just after reset, for concrete runs.\<close>

definition zero_proc :: proc where
  "zero_proc = \<lparr>p_state = UNUSED, p_chan = None, p_killed = False, p_xstate = 0, p_pid = 0, p_parent = None,
     p_kstack = 0, p_sz = 0, p_pagetable = 0, p_trapframe = 0,
     p_context = \<lparr>ctx_ra = 0, ctx_sp = 0, ctx_s = []\<rparr>, p_ofile = replicate NOFILE None, p_cwd = None,
     p_name = replicate 16 0\<rparr>"

definition zero_buf :: buf where
  "zero_buf = \<lparr>b_valid = False, b_disk = False, b_dev = 0, b_blockno = 0,
     b_lock = \<lparr>sl_locked = False, sl_pid = 0\<rparr>, b_refcnt = 0, b_data = replicate BSIZE 0\<rparr>"

definition reset_bio :: "(uint32 \<Rightarrow> uint8 list) \<Rightarrow> bio_st" where
  "reset_bio d = \<lparr>mem = (\<lambda>_. 0), kend = 0x80021000, freelist = 0,
     procs = replicate NPROC zero_proc, nextpid = 1, initproc = None,
     cpus = [\<lparr>c_proc = Some 0, c_noff = 0, c_intena = False, c_sie = False\<rparr>], hart = 0, ticks = 0,
     trampoline_pa = 0x80007000, forkret_pa = 0x80001000,
     disk = d, dlog = [], bufs = replicate NBUF zero_buf, lru = []\<rparr>"

lemma reset_bio:
  "bc_inv (binit (reset_bio d))" "bview (binit (reset_bio d)) = d" "bref (binit (reset_bio d)) bn = 0"
  "\<not> block_locked (binit (reset_bio d)) bn" "disk (binit (reset_bio d)) = d"
proof -
  have r: "length (bufs (reset_bio d)) = NBUF" "\<forall>b \<in> set (bufs (reset_bio d)). b_dev b = 0 \<and> b_refcnt b = 0"
    by (simp_all add: reset_bio_def zero_buf_def)
  note b = binit_inv [OF r]
  show "bc_inv (binit (reset_bio d))" "bview (binit (reset_bio d)) = d" "bref (binit (reset_bio d)) bn = 0"
    "\<not> block_locked (binit (reset_bio d)) bn" using b by (simp_all add: reset_bio_def)
  show "disk (binit (reset_bio d)) = d" by (subst b(5)) (simp add: reset_bio_def)
qed

section \<open>Properties\<close>

text \<open>C4: \<open>bread\<close> returns the buffer of the block, locked by the caller, with the current contents of
  the block (those in the cache, or those on the disk when the block is not cached). All other blocks keep
  contents, references and locks: only an unreferenced buffer is recycled, and never one whose contents
  the disk does not have. When every buffer is in use and the block is not cached it panics; when another
  process holds the block it sleeps.\<close>

theorem bread_returns_contents:
  assumes "bc_inv s" "bref s bn < 2 ^ 32 - 1"
  shows "if block_locked s bn then \<exists>i t. bread ROOTDEV bn s = Asleep (ChBufLock i) t
    else if slot_of s bn = None \<and> (\<forall>i < NBUF. b_refcnt (buf_at s i) \<noteq> 0)
    then bread ROOTDEV bn s = Panic ''bget: no buffers''
    else \<exists>i t. bread ROOTDEV bn s = Ok i t \<and> bc_inv t \<and> bhold t bn i \<and>
      b_data (buf_at t i) = bview s bn \<and> bref t bn = Suc (bref s bn) \<and> disk t = disk s \<and> bview t = bview s \<and>
      (\<forall>x. x \<noteq> bn \<longrightarrow> bref t x = bref s x \<and> block_locked t x = block_locked s x)"
proof -
  consider (locked) "block_locked s bn"
    | (full) "\<not> block_locked s bn" "slot_of s bn = None" "\<forall>i < NBUF. b_refcnt (buf_at s i) \<noteq> 0"
    | (room) "\<not> block_locked s bn" "slot_of s bn \<noteq> None \<or> (\<exists>i < NBUF. b_refcnt (buf_at s i) = 0)"
    by metis
  then show ?thesis
  proof cases
    case locked
    then obtain i where i: "slot_of s bn = Some i" "sl_locked (b_lock (buf_at s i))"
      by (auto simp: block_locked_def split: option.splits)
    have "i < length (bufs s)" using i(1) slot_of_Some [OF assms(1)] bc_invD(1) [OF assms(1)] by auto
    then have "\<exists>t. bread ROOTDEV bn s = Asleep (ChBufLock i) t"
      using i find_lru [OF assms(1), of bn]
      by (simp add: bread_def bget_def acquiresleep.simps buf_lock_def upd_buf_eq Let_def)
    then show ?thesis using locked by auto
  next
    case full
    have "find (\<lambda>i. b_refcnt (buf_at s i) = 0) (rev (lru s)) = None"
      using full(3) bc_invD(3) [OF assms(1)] by (auto simp: find_None_iff)
    then have "bread ROOTDEV bn s = Panic ''bget: no buffers''"
      using full(2) find_lru [OF assms(1), of bn] by (simp add: bread_def bget_def)
    then show ?thesis using full by simp
  next
    case room
    obtain i t where t: "bread ROOTDEV bn s = Ok i t" "bc_inv t" "bstep bn s t" "bhold t bn i"
      "b_data (buf_at t i) = bview s bn" "bview t bn = bview s bn" "bref t bn = Suc (bref s bn)"
      using bread_spec [OF assms(1) room assms(2)] by blast
    have "bview t x = bview s x" for x using t(3,6) by (cases "x = bn") (auto simp: bstep_def)
    then have "bview t = bview s" by blast
    moreover have "\<forall>x. x \<noteq> bn \<longrightarrow> bref t x = bref s x \<and> block_locked t x = block_locked s x"
      using t(3) by (simp add: bstep_def)
    ultimately show ?thesis using t room bstep_fields(1) [OF t(3)] by auto
  qed
qed

theorem bread_returns_contents_witness:
  "\<exists>i t. bread ROOTDEV 45 (binit (reset_bio (\<lambda>bn. replicate BSIZE 7))) = Ok i t \<and>
     b_data (buf_at t i) = replicate BSIZE 7"
proof -
  let ?s = "binit (reset_bio (\<lambda>bn. replicate BSIZE 7))"
  have r: "bref ?s 45 < 2 ^ 32 - 1" "\<not> block_locked ?s 45" "bview ?s 45 = replicate BSIZE 7"
    by (simp_all add: reset_bio)
  have "\<exists>i < NBUF. b_refcnt (buf_at ?s i) = 0"
    by (rule free_buf [of _ "{}"]) (simp_all add: reset_bio NBUF_def)
  then have "\<not> (slot_of ?s 45 = None \<and> (\<forall>i < NBUF. b_refcnt (buf_at ?s i) \<noteq> 0))" by blast
  with bread_returns_contents [OF reset_bio(1) r(1)] show ?thesis using r(2,3)
    by (simp only: if_False) blast
qed

text \<open>C5: what a process writes through the cache is what everybody reads afterwards: after \<open>bread\<close>,
  filling the buffer with \<open>d\<close>, \<open>bwrite\<close> and \<open>brelse\<close>, all of which return, the disk holds \<open>d\<close> in that
  block and nothing else changed on it, the block is unlocked with its old reference count, and the next
  \<open>bread\<close> of it returns a buffer with \<open>d\<close>.\<close>

theorem write_then_read:
  assumes "bc_inv s" "\<not> block_locked s bn" "bref s bn < 2 ^ 32 - 1"
    and "slot_of s bn \<noteq> None \<or> (\<exists>i < NBUF. b_refcnt (buf_at s i) = 0)"
  shows "\<exists>t. bindR (bread ROOTDEV bn s) (\<lambda>i s. bindR (bwrite i (set_data i d s)) (\<lambda>_ s. brelse i s)) = Ok () t \<and>
    bc_inv t \<and> disk t = (disk s)(bn := d) \<and> bview t = (bview s)(bn := d) \<and> bref t = bref s \<and>
    \<not> block_locked t bn \<and>
    (\<exists>j u. bread ROOTDEV bn t = Ok j u \<and> bhold u bn j \<and> b_data (buf_at u j) = d)"
proof -
  obtain i s1 where s1: "bread ROOTDEV bn s = Ok i s1" "bc_inv s1" "bstep bn s s1" "bhold s1 bn i"
    "bref s1 bn = Suc (bref s bn)" using bread_spec [OF assms(1,2,4,3)] by blast
  define s2 where "s2 = set_data i d s1"
  note d2 = set_data_spec [OF s1(2,4), of d, folded s2_def]
  define s3 where "s3 = s2\<lparr>disk := (disk s2)(bn := bview s2 bn), dlog := dlog s2 @ [(bn, bview s2 bn)]\<rparr>"
  note w3 = bwrite_spec [OF d2(1,3), folded s3_def]
  have h3: "bhold s3 bn i" using w3(6) d2(3) by simp
  have c3: "bview s3 bn = disk s3 bn" using w3(3) d2(4) by (simp add: s3_def)
  obtain t where t: "brelse i s3 = Ok () t" "bc_inv t" "bstep bn s3 t" "bview t bn = bview s3 bn"
    "bref t bn = bref s3 bn - 1" "\<not> block_locked t bn" using brelse_spec [OF w3(2) h3 c3] by blast
  have dt: "disk t = (disk s)(bn := d)"
    using bstep_fields(1) [OF t(3)] bstep_fields(1) [OF d2(2)] bstep_fields(1) [OF s1(3)] d2(4)
    by (simp add: s3_def)
  have vt: "bview t x = ((bview s)(bn := d)) x" for x
    using t(3,4) w3(3) d2(2,4) s1(3) by (cases "x = bn") (simp_all add: bstep_def)
  have rt: "bref t x = bref s x" for x
    using t(3,5) w3(4) d2(2,5) s1(3,5) by (cases "x = bn") (simp_all add: bstep_def)
  have "slot_of t bn \<noteq> None"
  proof -
    have "slot_of s3 bn = Some i" using bhold_slot(1) [OF w3(2) h3] .
    then show ?thesis using brelse_run [OF w3(2) h3] t(1) bhold_slot(3) [OF w3(2) h3]
        bhold_slot(2) [OF w3(2) h3] bc_invD(1) [OF w3(2)] slot_of_Some [OF t(2), of bn i]
      by (auto simp: unlocked_def is_block_def)
  qed
  then obtain j u where "bread ROOTDEV bn t = Ok j u" "bhold u bn j" "b_data (buf_at u j) = bview t bn"
    using bread_spec [OF t(2,6)] rt assms(3) by metis
  moreover have "bview t = (bview s)(bn := d)" "bref t = bref s" using vt rt by blast+
  ultimately show ?thesis using s1(1) w3(1) t(1,2,6) dt by (simp add: s2_def)
qed

theorem write_then_read_witness:
  "\<exists>t j u. bindR (bread ROOTDEV 45 (binit (reset_bio (\<lambda>bn. replicate BSIZE 0))))
      (\<lambda>i s. bindR (bwrite i (set_data i (replicate BSIZE 9) s)) (\<lambda>_ s. brelse i s)) = Ok () t \<and>
    disk t 45 = replicate BSIZE 9 \<and> bread ROOTDEV 45 t = Ok j u \<and> b_data (buf_at u j) = replicate BSIZE 9"
proof -
  let ?s = "binit (reset_bio (\<lambda>bn. replicate BSIZE 0))"
  have "\<exists>i < NBUF. b_refcnt (buf_at ?s i) = 0"
    by (rule free_buf [of _ "{}"]) (simp_all add: reset_bio NBUF_def)
  then show ?thesis
    using write_then_read [of ?s 45 "replicate BSIZE 9", OF reset_bio(1,4)] by (fastforce simp: reset_bio(3))
qed

end
