(* ===== verification/BlockCache.thy ===== *)
theory BlockCache
  imports Bio
begin

text \<open>
  The contract of the buffer cache for its clients (the log and the file system). \<open>cache_view\<close> is
  the abstract cache: for every block its current contents, how often it is referenced and whether it is
  locked; what the disk holds and the sequence of writes that got it there. \<open>babs\<close> abstracts the state of
  kernel/bio.c to it. The locale \<open>block_cache\<close> states each operation as an update of that view and proves
  what the log needs from it once, copying a block through the cache; the interpretation \<open>bcache\<close> shows
  that bio.c meets the contract.
\<close>

record cache_view =
  cv_data :: "uint32 \<Rightarrow> uint8 list"
  cv_ref :: "uint32 \<Rightarrow> nat"
  cv_lock :: "uint32 \<Rightarrow> bool"
  cv_disk :: "uint32 \<Rightarrow> uint8 list"
  cv_writes :: "(uint32 \<times> uint8 list) list"

definition babs :: "'a bio_st_scheme \<Rightarrow> cache_view" where
  "babs s = \<lparr>cv_data = bview s, cv_ref = bref s, cv_lock = block_locked s, cv_disk = disk s, cv_writes = dlog s\<rparr>"

text \<open>The parts of the state that the cache does not touch.\<close>

definition bframe :: "'a bio_st_scheme \<Rightarrow> 'a bio_st_scheme \<Rightarrow> bool" where
  "bframe s t \<longleftrightarrow> mypid t = mypid s \<and>
     (\<exists>ps bs l d w. t = s\<lparr>procs := ps, bufs := bs, lru := l, disk := d, dlog := w\<rparr>)"

text \<open>Room for the blocks of \<open>B\<close> beside those in use.\<close>

definition room_for :: "cache_view \<Rightarrow> uint32 set \<Rightarrow> bool" where
  "room_for v B \<longleftrightarrow> finite {x. 0 < cv_ref v x} \<and> card ({x. 0 < cv_ref v x} \<union> B) \<le> NBUF \<and>
     (\<forall>x \<in> B. cv_ref v x < 2 ^ 32 - 1)"

section \<open>The interface\<close>

locale block_cache =
  fixes rd :: "uint32 \<Rightarrow> 's \<Rightarrow> (nat, 's) res"
    and wr :: "nat \<Rightarrow> 's \<Rightarrow> (unit, 's) res"
    and rel :: "nat \<Rightarrow> 's \<Rightarrow> (unit, 's) res"
    and unpin :: "nat \<Rightarrow> 's \<Rightarrow> 's"
    and setd :: "nat \<Rightarrow> uint8 list \<Rightarrow> 's \<Rightarrow> 's"
    and contents :: "'s \<Rightarrow> nat \<Rightarrow> uint8 list"
    and inv :: "'s \<Rightarrow> bool"
    and hold :: "'s \<Rightarrow> uint32 \<Rightarrow> nat \<Rightarrow> bool"
    and view :: "'s \<Rightarrow> cache_view"
    and same :: "'s \<Rightarrow> 's \<Rightarrow> bool"
  assumes same_trans: "same s t \<Longrightarrow> same t u \<Longrightarrow> same s u"
    and hold_contents: "inv s \<Longrightarrow> hold s a i \<Longrightarrow> contents s i = cv_data (view s) a"
    and hold_ref: "inv s \<Longrightarrow> hold s a i \<Longrightarrow> 0 < cv_ref (view s) a"
    and rd_ok: "inv s \<Longrightarrow> \<not> cv_lock (view s) a \<Longrightarrow> room_for (view s) {a} \<Longrightarrow>
      \<exists>i t. rd a s = Ok i t \<and> inv t \<and> same s t \<and> hold t a i \<and>
        (\<forall>x j. x \<noteq> a \<longrightarrow> hold s x j \<longrightarrow> hold t x j) \<and>
        view t = (view s)\<lparr>cv_ref := (cv_ref (view s))(a := Suc (cv_ref (view s) a)),
                       cv_lock := (cv_lock (view s))(a := True)\<rparr>"
    and setd_ok: "inv s \<Longrightarrow> hold s a i \<Longrightarrow>
      inv (setd i d s) \<and> same s (setd i d s) \<and> (\<forall>x j. hold s x j \<longrightarrow> hold (setd i d s) x j) \<and>
      view (setd i d s) = (view s)\<lparr>cv_data := (cv_data (view s))(a := d)\<rparr>"
    and wr_ok: "inv s \<Longrightarrow> hold s a i \<Longrightarrow>
      \<exists>t. wr i s = Ok () t \<and> inv t \<and> same s t \<and> (\<forall>x j. hold s x j \<longrightarrow> hold t x j) \<and>
        view t = (view s)\<lparr>cv_disk := (cv_disk (view s))(a := cv_data (view s) a),
                       cv_writes := cv_writes (view s) @ [(a, cv_data (view s) a)]\<rparr>"
    and unpin_ok: "inv s \<Longrightarrow> hold s a i \<Longrightarrow> 1 < cv_ref (view s) a \<Longrightarrow>
      inv (unpin i s) \<and> same s (unpin i s) \<and> (\<forall>x j. hold s x j \<longrightarrow> hold (unpin i s) x j) \<and>
      view (unpin i s) = (view s)\<lparr>cv_ref := (cv_ref (view s))(a := cv_ref (view s) a - 1)\<rparr>"
    and rel_ok: "inv s \<Longrightarrow> hold s a i \<Longrightarrow>
      (cv_ref (view s) a = 1 \<Longrightarrow> cv_data (view s) a = cv_disk (view s) a) \<Longrightarrow>
      \<exists>t. rel i s = Ok () t \<and> inv t \<and> same s t \<and> (\<forall>x j. x \<noteq> a \<longrightarrow> hold s x j \<longrightarrow> hold t x j) \<and>
        view t = (view s)\<lparr>cv_ref := (cv_ref (view s))(a := cv_ref (view s) a - 1),
                       cv_lock := (cv_lock (view s))(a := False)\<rparr>"
begin

text \<open>Copying the held block \<open>a\<close> into the held block \<open>b\<close>, writing it, and releasing both.\<close>

lemma copy_held:
  assumes "inv s" "hold s a i" "hold s b j" "a \<noteq> b"
    and clean: "cv_ref (view s) a = 1 \<Longrightarrow> cv_data (view s) a = cv_disk (view s) a"
    and pin: "p \<Longrightarrow> 1 < cv_ref (view s) b"
  defines "d \<equiv> cv_data (view s) a"
  shows "\<exists>t. bindR (wr j (setd j (contents s i) s)) (\<lambda>_ s. bindR (rel i (if p then unpin j s else s)) (\<lambda>_ s. rel j s))
        = Ok () t \<and> inv t \<and> same s t \<and>
    view t = (view s)\<lparr>cv_data := (cv_data (view s))(b := d), cv_disk := (cv_disk (view s))(b := d),
      cv_writes := cv_writes (view s) @ [(b, d)],
      cv_ref := (cv_ref (view s))(a := cv_ref (view s) a - 1, b := cv_ref (view s) b - (if p then 2 else 1)),
      cv_lock := (cv_lock (view s))(a := False, b := False)\<rparr>"
proof -
  have d: "contents s i = d" using hold_contents assms by simp
  define s1 where "s1 = setd j d s"
  have s1: "inv s1" "same s s1" "\<forall>x j. hold s x j \<longrightarrow> hold s1 x j"
    "view s1 = (view s)\<lparr>cv_data := (cv_data (view s))(b := d)\<rparr>"
    using setd_ok [OF assms(1,3)] unfolding s1_def by blast+
  obtain s2 where s2: "wr j s1 = Ok () s2" "inv s2" "same s1 s2" "\<forall>x j. hold s1 x j \<longrightarrow> hold s2 x j"
    "view s2 = (view s1)\<lparr>cv_disk := (cv_disk (view s1))(b := cv_data (view s1) b),
                       cv_writes := cv_writes (view s1) @ [(b, cv_data (view s1) b)]\<rparr>"
    using wr_ok [OF s1(1)] s1(3) assms(3) by blast
  define s3 where "s3 = (if p then unpin j s2 else s2)"
  have h2: "hold s2 b j" "hold s2 a i" using s1(3) s2(4) assms(2,3) by blast+
  have s3: "inv s3 \<and> same s s3 \<and> hold s3 b j \<and> hold s3 a i \<and>
    view s3 = (view s2)\<lparr>cv_ref := (cv_ref (view s))(b := cv_ref (view s) b - (if p then 1 else 0))\<rparr>"
  proof (cases p)
    case True
    then have r: "1 < cv_ref (view s2) b" using pin s1(4) s2(5) by simp
    show ?thesis using unpin_ok [OF s2(2) h2(1) r] h2 True s1(4) s2(5) same_trans [OF same_trans [OF s1(2) s2(3)]]
      by (auto simp: s3_def)
  next
    case False
    then show ?thesis using s2 h2 s1(4) same_trans [OF s1(2) s2(3)] by (simp add: s3_def)
  qed
  have "cv_ref (view s3) a = 1 \<Longrightarrow> cv_data (view s3) a = cv_disk (view s3) a"
    using clean s3 s2(5) s1(4) assms(4) by simp
  then obtain s4 where s4: "rel i s3 = Ok () s4" "inv s4" "same s3 s4" "\<forall>x j. x \<noteq> a \<longrightarrow> hold s3 x j \<longrightarrow> hold s4 x j"
    "view s4 = (view s3)\<lparr>cv_ref := (cv_ref (view s3))(a := cv_ref (view s3) a - 1),
                       cv_lock := (cv_lock (view s3))(a := False)\<rparr>"
    using rel_ok [of s3 a i] s3 by blast
  have "cv_data (view s4) b = cv_disk (view s4) b" using s4(5) s3 s2(5) s1(4) by simp
  then obtain t where t: "rel j s4 = Ok () t" "inv t" "same s4 t"
    "view t = (view s4)\<lparr>cv_ref := (cv_ref (view s4))(b := cv_ref (view s4) b - 1),
                       cv_lock := (cv_lock (view s4))(b := False)\<rparr>"
    using rel_ok [OF s4(2), of b j] s4(4) s3 assms(4) by metis
  have "bindR (wr j (setd j (contents s i) s)) (\<lambda>_ s. bindR (rel i (if p then unpin j s else s)) (\<lambda>_ s. rel j s)) = Ok () t"
    using d s2(1) s4(1) t(1) by (simp add: s1_def s3_def)
  moreover have "same s t" using s3 s4(3) t(3) same_trans by metis
  moreover have "view t = (view s)\<lparr>cv_data := (cv_data (view s))(b := d), cv_disk := (cv_disk (view s))(b := d),
      cv_writes := cv_writes (view s) @ [(b, d)],
      cv_ref := (cv_ref (view s))(a := cv_ref (view s) a - 1, b := cv_ref (view s) b - (if p then 2 else 1)),
      cv_lock := (cv_lock (view s))(a := False, b := False)\<rparr>"
    unfolding t(4) s4(5) using s3 s2(5) s1(4) assms(4) by (simp add: fun_upd_twist numeral_2_eq_2)
  ultimately show ?thesis using t(2) by blast
qed

text \<open>Two different blocks can be held at the same time.\<close>

lemma read_two:
  assumes "inv s" "\<not> cv_lock (view s) a" "\<not> cv_lock (view s) b" "a \<noteq> b" "room_for (view s) {a, b}"
  shows "\<exists>i j s1 t. rd a s = Ok i s1 \<and> rd b s1 = Ok j t \<and> inv t \<and> same s s1 \<and> same s t \<and> hold t a i \<and> hold t b j \<and>
    view t = (view s)\<lparr>cv_ref := (cv_ref (view s))(a := Suc (cv_ref (view s) a), b := Suc (cv_ref (view s) b)),
      cv_lock := (cv_lock (view s))(a := True, b := True)\<rparr>"
proof -
  let ?U = "{x. 0 < cv_ref (view s) x}"
  have fin: "finite (?U \<union> {a, b})" and c: "card (?U \<union> {a, b}) \<le> NBUF" and small: "cv_ref (view s) a < 2 ^ 32 - 1" "cv_ref (view s) b < 2 ^ 32 - 1"
    using assms(5) unfolding room_for_def by auto
  have "card (?U \<union> {a}) \<le> card (?U \<union> {a, b})" by (rule card_mono [OF fin]) auto
  then have "room_for (view s) {a}" using fin c small by (simp add: room_for_def)
  from rd_ok [OF assms(1,2) this] obtain i s1 where s1: "rd a s = Ok i s1" "inv s1" "same s s1" "hold s1 a i"
    "view s1 = (view s)\<lparr>cv_ref := (cv_ref (view s))(a := Suc (cv_ref (view s) a)),
                       cv_lock := (cv_lock (view s))(a := True)\<rparr>" by blast
  have U1: "{x. 0 < cv_ref (view s1) x} = ?U \<union> {a}" using s1(5) by auto
  have "room_for (view s1) {b}" using U1 fin c small s1(5) assms(4) by (simp add: room_for_def insert_commute)
  moreover have "\<not> cv_lock (view s1) b" using s1(5) assms(3,4) by simp
  ultimately obtain j t where t: "rd b s1 = Ok j t" "inv t" "same s1 t" "hold t b j" "hold t a i"
    "view t = (view s1)\<lparr>cv_ref := (cv_ref (view s1))(b := Suc (cv_ref (view s1) b)),
                     cv_lock := (cv_lock (view s1))(b := True)\<rparr>"
    using rd_ok [OF s1(2), of b] s1(4) assms(4) by metis
  show ?thesis
    by (intro exI [of _ i] exI [of _ j] exI [of _ s1] exI [of _ t])
      (use s1 t assms(4) same_trans [OF s1(3) t(3)] in simp)
qed

end

section \<open>bio.c meets the contract\<close>

lemma bframe_trans: "bframe s t \<Longrightarrow> bframe t u \<Longrightarrow> bframe s u"
  unfolding bframe_def by (elim conjE exE, intro conjI exI) simp_all

lemma bframe_bstep: "bstep bn s t \<Longrightarrow> bframe s t"
proof -
  assume st: "bstep bn s t"
  then have t: "t = s\<lparr>procs := procs t, bufs := bufs t, lru := lru t\<rparr>" by (simp add: bstep_def)
  have "t = s\<lparr>procs := procs t, bufs := bufs t, lru := lru t, disk := disk s, dlog := dlog s\<rparr>"
    by (subst t) simp
  then show ?thesis using st unfolding bframe_def bstep_def by blast
qed

lemma babs_sel [simp]:
  "cv_data (babs s) = bview s" "cv_ref (babs s) = bref s" "cv_lock (babs s) = block_locked s"
  "cv_disk (babs s) = disk s" "cv_writes (babs s) = dlog s"
  by (simp_all add: babs_def)

lemma bstep_hold: "bstep a s t \<Longrightarrow> x \<noteq> a \<Longrightarrow> bhold s x j \<Longrightarrow> bhold t x j"
  by (simp add: bstep_def)

lemma bstep_babs:
  assumes "bstep a s t"
  shows "babs t = (babs s)\<lparr>cv_data := (bview s)(a := bview t a), cv_ref := (bref s)(a := bref t a),
    cv_lock := (block_locked s)(a := block_locked t a)\<rparr>"
proof -
  have "bview t x = ((bview s)(a := bview t a)) x" "bref t x = ((bref s)(a := bref t a)) x"
    "block_locked t x = ((block_locked s)(a := block_locked t a)) x" for x
    using assms by (auto simp: bstep_def)
  then have "bview t = (bview s)(a := bview t a)" "bref t = (bref s)(a := bref t a)"
    "block_locked t = (block_locked s)(a := block_locked t a)" by blast+
  then show ?thesis using bstep_fields [OF assms] by (simp add: babs_def)
qed

lemma bread_babs:
  assumes inv: "bc_inv s" and free: "\<not> cv_lock (babs s) a" and room: "room_for (babs s) {a}"
  shows "\<exists>i t. bread ROOTDEV a s = Ok i t \<and> bc_inv t \<and> bframe s t \<and> bhold t a i \<and>
        (\<forall>x j. x \<noteq> a \<longrightarrow> bhold s x j \<longrightarrow> bhold t x j) \<and>
        babs t = (babs s)\<lparr>cv_ref := (cv_ref (babs s))(a := Suc (cv_ref (babs s) a)),
                       cv_lock := (cv_lock (babs s))(a := True)\<rparr>"
proof -
  let ?U = "{x. 0 < bref s x}"
  have U: "finite ?U" "card (insert a ?U) \<le> NBUF" "bref s a < 2 ^ 32 - 1" using room by (auto simp: room_for_def)
  have "slot_of s a \<noteq> None \<or> (\<exists>i < NBUF. b_refcnt (buf_at s i) = 0)"
  proof (cases "0 < bref s a")
    case True
    then show ?thesis by (auto simp: bref_def split: option.splits)
  next
    case False
    then have "card (insert a ?U) = Suc (card ?U)" using U(1) by simp
    then show ?thesis using free_buf [OF inv U(1)] U(2) by simp
  qed
  from bread_spec [OF inv _ this U(3)] free obtain i t where t: "bread ROOTDEV a s = Ok i t" "bc_inv t" "bstep a s t"
    "bhold t a i" "bview t a = bview s a" "bref t a = Suc (bref s a)" "block_locked t a" by auto
  then show ?thesis
    using bstep_babs [OF t(3)] bframe_bstep [OF t(3)] bstep_hold [OF t(3)] t(5-7)
    by (intro exI [of _ i] exI [of _ t]) (simp add: babs_def)
qed

lemma held_keep:
  assumes "bc_inv s" "bhold s a i" "bstep a s v" "bhold v a i"
  shows "\<forall>x j. bhold s x j \<longrightarrow> bhold v x j"
  using bstep_hold [OF assms(3)] bhold_slot(1) [OF assms(1)] assms(2,4) by (metis option.inject)

lemma set_data_babs:
  assumes "bc_inv s" "bhold s a i"
  shows "bc_inv (set_data i d s) \<and> bframe s (set_data i d s) \<and> (\<forall>x j. bhold s x j \<longrightarrow> bhold (set_data i d s) x j) \<and>
    babs (set_data i d s) = (babs s)\<lparr>cv_data := (cv_data (babs s))(a := d)\<rparr>"
proof -
  note d = set_data_spec [OF assms, of d]
  have "block_locked (set_data i d s) a" using bhold_slot(8) [OF d(1,3)] .
  then have "babs (set_data i d s) = (babs s)\<lparr>cv_data := (cv_data (babs s))(a := d)\<rparr>"
    using bstep_babs [OF d(2)] d(4,5) bhold_slot(8) [OF assms] by (simp add: babs_def fun_upd_idem)
  then show ?thesis using d held_keep [OF assms d(2,3)] bframe_bstep by blast
qed

lemma bwrite_babs:
  assumes "bc_inv s" "bhold s a i"
  shows "\<exists>t. bwrite i s = Ok () t \<and> bc_inv t \<and> bframe s t \<and> (\<forall>x j. bhold s x j \<longrightarrow> bhold t x j) \<and>
    babs t = (babs s)\<lparr>cv_disk := (cv_disk (babs s))(a := cv_data (babs s) a),
                   cv_writes := cv_writes (babs s) @ [(a, cv_data (babs s) a)]\<rparr>"
proof -
  define t where "t = s\<lparr>disk := (disk s)(a := bview s a), dlog := dlog s @ [(a, bview s a)]\<rparr>"
  note w = bwrite_spec [OF assms, folded t_def]
  have "t = s\<lparr>procs := procs s, bufs := bufs s, lru := lru s, disk := disk t, dlog := dlog t\<rparr>" by (simp add: t_def)
  then have "bframe s t" unfolding bframe_def by (metis mypid_bufs(3,4) t_def)
  moreover have "bview t = bview s" "bref t = bref s" "block_locked t = block_locked s" using w(3-5) by blast+
  then have "babs t = (babs s)\<lparr>cv_disk := (disk s)(a := bview s a), cv_writes := dlog s @ [(a, bview s a)]\<rparr>"
    by (simp add: babs_def) (simp add: t_def)
  ultimately show ?thesis using w(1,2,6) by auto
qed

lemma bunpin_babs:
  assumes "bc_inv s" "bhold s a i" "1 < cv_ref (babs s) a"
  shows "bc_inv (bunpin i s) \<and> bframe s (bunpin i s) \<and> (\<forall>x j. bhold s x j \<longrightarrow> bhold (bunpin i s) x j) \<and>
    babs (bunpin i s) = (babs s)\<lparr>cv_ref := (cv_ref (babs s))(a := cv_ref (babs s) a - 1)\<rparr>"
proof -
  note d = bunpin_spec [OF assms(1,2) assms(3) [unfolded babs_sel]]
  have "block_locked (bunpin i s) a" using bhold_slot(8) [OF d(1,3)] .
  then have "babs (bunpin i s) = (babs s)\<lparr>cv_ref := (cv_ref (babs s))(a := cv_ref (babs s) a - 1)\<rparr>"
    using bstep_babs [OF d(2)] d(4,5) bhold_slot(8) [OF assms(1,2)] by (simp add: babs_def fun_upd_idem)
  then show ?thesis using d held_keep [OF assms(1,2) d(2,3)] bframe_bstep by blast
qed

lemma bpin_babs:
  assumes "bc_inv s" "bhold s a i" "cv_ref (babs s) a < 2 ^ 32 - 1"
  shows "bc_inv (bpin i s) \<and> bframe s (bpin i s) \<and> (\<forall>x j. bhold s x j \<longrightarrow> bhold (bpin i s) x j) \<and>
    babs (bpin i s) = (babs s)\<lparr>cv_ref := (cv_ref (babs s))(a := Suc (cv_ref (babs s) a))\<rparr>"
proof -
  note d = bpin_spec [OF assms(1,2) assms(3) [unfolded babs_sel]]
  have "block_locked (bpin i s) a" using bhold_slot(8) [OF d(1,3)] .
  then have "babs (bpin i s) = (babs s)\<lparr>cv_ref := (cv_ref (babs s))(a := Suc (cv_ref (babs s) a))\<rparr>"
    using bstep_babs [OF d(2)] d(4,5) bhold_slot(8) [OF assms(1,2)] by (simp add: babs_def fun_upd_idem)
  then show ?thesis using d held_keep [OF assms(1,2) d(2,3)] bframe_bstep by blast
qed

lemma brelse_babs:
  assumes "bc_inv s" "bhold s a i" "cv_ref (babs s) a = 1 \<Longrightarrow> cv_data (babs s) a = cv_disk (babs s) a"
  shows "\<exists>t. brelse i s = Ok () t \<and> bc_inv t \<and> bframe s t \<and> (\<forall>x j. x \<noteq> a \<longrightarrow> bhold s x j \<longrightarrow> bhold t x j) \<and>
    babs t = (babs s)\<lparr>cv_ref := (cv_ref (babs s))(a := cv_ref (babs s) a - 1),
                   cv_lock := (cv_lock (babs s))(a := False)\<rparr>"
proof -
  obtain t where t: "brelse i s = Ok () t" "bc_inv t" "bstep a s t" "bview t a = bview s a"
    "bref t a = bref s a - 1" "\<not> block_locked t a"
    using brelse_spec [OF assms(1,2) assms(3) [unfolded babs_sel]] by blast
  have "babs t = (babs s)\<lparr>cv_ref := (cv_ref (babs s))(a := cv_ref (babs s) a - 1),
                   cv_lock := (cv_lock (babs s))(a := False)\<rparr>"
    using bstep_babs [OF t(3)] t(4-6) by (simp add: babs_def)
  then show ?thesis using t(1,2) bframe_bstep [OF t(3)] bstep_hold [OF t(3)] by blast
qed

lemma bhold_babs:
  assumes "bc_inv s" "bhold s a i"
  shows "b_data (buf_at s i) = cv_data (babs s) a" "0 < cv_ref (babs s) a"
  using bhold_slot [OF assms] by simp_all

interpretation bcache: block_cache "bread ROOTDEV" bwrite brelse bunpin set_data "\<lambda>s i. b_data (buf_at s i)"
  bc_inv bhold babs bframe
  by unfold_locales
    (fact bframe_trans bhold_babs bread_babs set_data_babs bwrite_babs bunpin_babs brelse_babs)+

end
