(* ===== verification/Log.thy ===== *)
theory Log
  imports BlockCache
begin

text \<open>
  kernel/log.c: the write-ahead log that makes file-system calls atomic across crashes. The on-disk
  header block holds the number of logged blocks and their home block numbers, the log blocks follow it.
  \<open>begin_op\<close> and \<open>end_op\<close> bracket a call, \<open>log_write\<close> replaces \<open>bwrite\<close> inside one, and the last
  \<open>end_op\<close> commits. \<open>initlog\<close> recovers after a crash.

  \<open>lh_n\<close> and the other counters are C \<open>int\<close>s; block numbers are kept as the \<open>uint\<close> the cache takes.
  A count beyond \<open>LOGSIZE\<close> would make the C code index outside \<open>log.lh.block\<close>; the model ends in an
  \<open>undefined\<close> panic there. The commit runs as one piece, as \<open>log.committing\<close> keeps other calls out.

  The main result is about \<open>dlog\<close>, the sequence of disk writes of a commit: stop after any number of
  them, boot with a cold cache, and recovery leaves every home block with its old contents, or every
  one with its new contents.
\<close>

section \<open>Model\<close>

definition LOGSIZE :: nat where "LOGSIZE = 30"
definition MAXOPBLOCKS :: nat where "MAXOPBLOCKS = 10"

record logheader =
  lh_n :: int
  lh_block :: "uint32 list"

record log =
  log_start :: uint32
  log_size :: int
  log_outstanding :: int
  log_committing :: bool
  log_dev :: uint32
  log_lh :: logheader

record log_st = bio_st +
  log :: log

record superblock =
  sb_magic :: uint32
  sb_size :: uint32
  sb_nblocks :: uint32
  sb_ninodes :: uint32
  sb_nlog :: uint32
  sb_logstart :: uint32
  sb_inodestart :: uint32
  sb_bmapstart :: uint32

text \<open>The 32-bit field at an offset of a block.\<close>

definition get32 :: "nat \<Rightarrow> uint8 list \<Rightarrow> uint32" where
  "get32 off d = word_of_bytes (take 4 (drop off d))"

definition set_lh :: "logheader \<Rightarrow> 'a log_st_scheme \<Rightarrow> 'a log_st_scheme" where
  "set_lh lh s = s\<lparr>log := (log s)\<lparr>log_lh := lh\<rparr>\<rparr>"

definition lh :: "'a log_st_scheme \<Rightarrow> logheader" where
  "lh s = log_lh (log s)"

definition log_block :: "'a log_st_scheme \<Rightarrow> nat \<Rightarrow> uint32" where
  "log_block s tail = log_start (log s) + of_nat tail + 1"

fun install_from :: "nat list \<Rightarrow> bool \<Rightarrow> 'a log_st_scheme \<Rightarrow> (unit, 'a log_st_scheme) res" where
  "install_from [] recovering s = Ok () s"
| "install_from (tail # ts) recovering s =
     (if length (lh_block (lh s)) \<le> tail then Panic ''undefined: log.lh.block''
      else
        bindR (bread (log_dev (log s)) (log_block s tail) s) (\<lambda>lbuf s.
        bindR (bread (log_dev (log s)) (lh_block (lh s) ! tail) s) (\<lambda>dbuf s.
        bindR (bwrite dbuf (set_data dbuf (b_data (buf_at s lbuf)) s)) (\<lambda>_ s.
        bindR (brelse lbuf (if \<not> recovering then bunpin dbuf s else s)) (\<lambda>_ s.
        bindR (brelse dbuf s) (\<lambda>_ s. install_from ts recovering s))))))"

definition install_trans :: "bool \<Rightarrow> 'a log_st_scheme \<Rightarrow> (unit, 'a log_st_scheme) res" where
  "install_trans recovering s = install_from [0..<nat (lh_n (lh s))] recovering s"

definition read_head :: "'a log_st_scheme \<Rightarrow> (unit, 'a log_st_scheme) res" where
  "read_head s =
     bindR (bread (log_dev (log s)) (log_start (log s)) s) (\<lambda>b s.
       let d = b_data (buf_at s b); n = sint (get32 0 d) in
       if int LOGSIZE < n then Panic ''undefined: log.lh.block''
       else
         let blocks = map (\<lambda>i. get32 (4 + 4 * i) d) [0..<nat n] in
         brelse b (set_lh \<lparr>lh_n = n, lh_block = blocks @ drop (nat n) (lh_block (lh s))\<rparr> s))"

definition head_bytes :: "logheader \<Rightarrow> uint8 list" where
  "head_bytes h = bytes_of_word 4 (of_int (lh_n h) :: uint32) @
     concat (map (bytes_of_word 4) (take (nat (lh_n h)) (lh_block h)))"

definition write_head :: "'a log_st_scheme \<Rightarrow> (unit, 'a log_st_scheme) res" where
  "write_head s =
     bindR (bread (log_dev (log s)) (log_start (log s)) s) (\<lambda>b s.
     bindR (bwrite b (set_data b (put_at 0 (head_bytes (lh s)) (b_data (buf_at s b))) s)) (\<lambda>_ s.
       brelse b s))"

definition recover_from_log :: "'a log_st_scheme \<Rightarrow> (unit, 'a log_st_scheme) res" where
  "recover_from_log s =
     bindR (read_head s) (\<lambda>_ s.
     bindR (install_trans True s) (\<lambda>_ s.
       write_head (set_lh ((lh s)\<lparr>lh_n := 0\<rparr>) s)))"

definition initlog :: "uint32 \<Rightarrow> superblock \<Rightarrow> 'a log_st_scheme \<Rightarrow> (unit, 'a log_st_scheme) res" where
  "initlog dev sb s =
     (if BSIZE \<le> 4 + 4 * LOGSIZE then Panic ''initlog: too big logheader''
      else recover_from_log (s\<lparr>log := (log s)\<lparr>log_start := sb_logstart sb, log_size := sint (sb_nlog sb),
                                           log_dev := dev\<rparr>\<rparr>))"

fun begin_op ::
  "('a log_st_scheme \<Rightarrow> 'a log_st_scheme) list \<Rightarrow> 'a log_st_scheme \<Rightarrow> (unit, 'a log_st_scheme) res" where
  "begin_op env s =
     (if log_committing (log s) \<or>
         int LOGSIZE < lh_n (lh s) + (log_outstanding (log s) + 1) * int MAXOPBLOCKS then
        let s = sleep_self ChLog s in
        (case env of [] \<Rightarrow> Asleep ChLog s | e # env \<Rightarrow> begin_op env (woken_self (e s)))
      else Ok () (s\<lparr>log := (log s)\<lparr>log_outstanding := log_outstanding (log s) + 1\<rparr>\<rparr>))"

declare begin_op.simps [simp del]

fun write_log_from :: "nat list \<Rightarrow> 'a log_st_scheme \<Rightarrow> (unit, 'a log_st_scheme) res" where
  "write_log_from [] s = Ok () s"
| "write_log_from (tail # ts) s =
     (if length (lh_block (lh s)) \<le> tail then Panic ''undefined: log.lh.block''
      else
        bindR (bread (log_dev (log s)) (log_block s tail) s) (\<lambda>to s.
        bindR (bread (log_dev (log s)) (lh_block (lh s) ! tail) s) (\<lambda>from s.
        bindR (bwrite to (set_data to (b_data (buf_at s from)) s)) (\<lambda>_ s.
        bindR (brelse from s) (\<lambda>_ s.
        bindR (brelse to s) (\<lambda>_ s. write_log_from ts s))))))"

definition write_log :: "'a log_st_scheme \<Rightarrow> (unit, 'a log_st_scheme) res" where
  "write_log s = write_log_from [0..<nat (lh_n (lh s))] s"

definition commit :: "'a log_st_scheme \<Rightarrow> (unit, 'a log_st_scheme) res" where
  "commit s =
     (if 0 < lh_n (lh s) then
        bindR (write_log s) (\<lambda>_ s.
        bindR (write_head s) (\<lambda>_ s.
        bindR (install_trans False s) (\<lambda>_ s.
          write_head (set_lh ((lh s)\<lparr>lh_n := 0\<rparr>) s))))
      else Ok () s)"

definition end_op :: "'a log_st_scheme \<Rightarrow> (unit, 'a log_st_scheme) res" where
  "end_op s =
     (let s = s\<lparr>log := (log s)\<lparr>log_outstanding := log_outstanding (log s) - 1\<rparr>\<rparr> in
      if log_committing (log s) then Panic ''log.committing''
      else if log_outstanding (log s) = 0 then
        bindR (commit (s\<lparr>log := (log s)\<lparr>log_committing := True\<rparr>\<rparr>)) (\<lambda>_ s.
          Ok () (wakeup ChLog (s\<lparr>log := (log s)\<lparr>log_committing := False\<rparr>\<rparr>)))
      else Ok () (wakeup ChLog s))"

definition log_write :: "nat \<Rightarrow> 'a log_st_scheme \<Rightarrow> (unit, 'a log_st_scheme) res" where
  "log_write b s =
     (let n = lh_n (lh s); bn = b_blockno (buf_at s b) in
      if int LOGSIZE \<le> n \<or> log_size (log s) - 1 \<le> n then Panic ''too big a transaction''
      else if log_outstanding (log s) < 1 then Panic ''log_write outside of trans''
      else
        (case find_slot (\<lambda>x. x = bn) (take (nat n) (lh_block (lh s))) of
           Some i \<Rightarrow> Ok () (set_lh ((lh s)\<lparr>lh_block := (lh_block (lh s))[i := bn]\<rparr>) s)
         | None \<Rightarrow>
             Ok () (bpin b (set_lh ((lh s)\<lparr>lh_n := n + 1, lh_block := (lh_block (lh s))[nat n := bn]\<rparr>) s))))"

end
