(* ===== verification/LogCrash.thy ===== *)
theory LogCrash
  imports Log
begin

text \<open>
  Crash safety of kernel/log.c. The runs of \<open>write_log\<close>, \<open>write_head\<close>, \<open>install_trans\<close> and
  \<open>recover_from_log\<close> are computed on the abstract cache of BlockCache: each loop is a sequence of block
  copies (\<open>av_copy\<close>), and a sequence of copies whose sources and targets are disjoint is one simultaneous
  update (\<open>copies_eq\<close>). From the resulting sequence of disk writes of a commit follow the disk images a
  crash can leave, and what recovery makes of each.
\<close>

section \<open>Sequences of block writes and block copies\<close>

definition apply_writes :: "(uint32 \<Rightarrow> uint8 list) \<Rightarrow> (uint32 \<times> uint8 list) list \<Rightarrow> uint32 \<Rightarrow> uint8 list" where
  "apply_writes d w = foldl (\<lambda>d (bn, x). d(bn := x)) d w"

lemma apply_writes_simps [simp]:
  "apply_writes d [] = d" "apply_writes d ((bn, x) # w) = apply_writes (d(bn := x)) w"
  by (simp_all add: apply_writes_def)

lemma apply_writes_append [simp]: "apply_writes d (w @ w') = apply_writes (apply_writes d w) w'"
  by (simp add: apply_writes_def)

lemma apply_writes_other: "bn \<notin> fst ` set w \<Longrightarrow> apply_writes d w bn = d bn"
  by (induction w arbitrary: d) auto

lemma apply_writes_map:
  assumes "distinct (map f is)" "i \<in> set is"
  shows "apply_writes d (map (\<lambda>i. (f i, g i)) is) (f i) = g i"
  using assms
proof (induction "is" arbitrary: d)
  case Nil
  then show ?case by simp
next
  case (Cons j "is")
  show ?case
  proof (cases "i \<in> set is")
    case True
    then show ?thesis using Cons by simp
  next
    case False
    then have "i = j" "f j \<notin> fst ` set (map (\<lambda>i. (f i, g i)) is)" using Cons.prems by auto
    then show ?thesis by (simp add: apply_writes_other)
  qed
qed

definition av_copy :: "bool \<Rightarrow> uint32 \<Rightarrow> uint32 \<Rightarrow> cache_view \<Rightarrow> cache_view" where
  "av_copy p a b v = v\<lparr>cv_data := (cv_data v)(b := cv_data v a), cv_disk := (cv_disk v)(b := cv_data v a),
     cv_writes := cv_writes v @ [(b, cv_data v a)], cv_ref := (cv_ref v)(b := cv_ref v b - (if p then 1 else 0))\<rparr>"

definition av_copies :: "bool \<Rightarrow> (nat \<Rightarrow> uint32) \<Rightarrow> (nat \<Rightarrow> uint32) \<Rightarrow> nat list \<Rightarrow> cache_view \<Rightarrow> cache_view" where
  "av_copies p src dst ts v = fold (\<lambda>i. av_copy p (src i) (dst i)) ts v"

text \<open>What the copies need: nobody holds the blocks, there is room for both, sources and targets are
  disjoint, and a target is pinned once if the copy unpins it.\<close>

definition copies_ok :: "bool \<Rightarrow> (nat \<Rightarrow> uint32) \<Rightarrow> (nat \<Rightarrow> uint32) \<Rightarrow> nat list \<Rightarrow> cache_view \<Rightarrow> bool" where
  "copies_ok p src dst ts v \<longleftrightarrow>
     (\<forall>i \<in> set ts. \<not> cv_lock v (src i) \<and> \<not> cv_lock v (dst i) \<and> room_for v {src i, dst i} \<and>
        (p \<longrightarrow> 0 < cv_ref v (dst i))) \<and>
     (\<forall>i \<in> set ts. \<forall>j \<in> set ts. src i \<noteq> dst j) \<and> (p \<longrightarrow> distinct (map dst ts))"

lemma room_for_mono:
  assumes "room_for v B" "finite B" "\<forall>x. cv_ref w x \<le> cv_ref v x"
  shows "room_for w B"
proof -
  have sub: "{x. 0 < cv_ref w x} \<subseteq> {x. 0 < cv_ref v x}" using assms(3) by (auto intro: less_le_trans)
  then have "finite {x. 0 < cv_ref w x}" using assms(1) finite_subset unfolding room_for_def by blast
  moreover have "card ({x. 0 < cv_ref w x} \<union> B) \<le> card ({x. 0 < cv_ref v x} \<union> B)"
    using assms(1,2) sub unfolding room_for_def by (intro card_mono) auto
  moreover have "\<forall>x \<in> B. cv_ref w x < 2 ^ 32 - 1"
    using assms(1,3) le_less_trans unfolding room_for_def by blast
  ultimately show ?thesis using assms(1) unfolding room_for_def by linarith
qed

lemma copies_ok_Cons:
  assumes "copies_ok p src dst (i # ts) v"
  shows "copies_ok p src dst ts (av_copy p (src i) (dst i) v)"
proof -
  let ?w = "av_copy p (src i) (dst i) v"
  have le: "\<forall>x. cv_ref ?w x \<le> cv_ref v x" by (simp add: av_copy_def)
  have "room_for ?w {src j, dst j}" if "j \<in> set ts" for j
    using room_for_mono [OF _ _ le] assms that by (simp add: copies_ok_def)
  moreover have "0 < cv_ref ?w (dst j)" if "j \<in> set ts" p for j
  proof -
    have "dst i \<notin> dst ` set ts" "0 < cv_ref v (dst j)" using assms that by (simp_all add: copies_ok_def)
    then have "dst j \<noteq> dst i" "0 < cv_ref v (dst j)" using that(1) by (metis imageI)+
    then show ?thesis by (simp add: av_copy_def)
  qed
  moreover have "cv_lock ?w = cv_lock v" by (simp add: av_copy_def)
  ultimately show ?thesis using assms by (simp add: copies_ok_def)
qed

definition pins_dropped :: "bool \<Rightarrow> (nat \<Rightarrow> uint32) \<Rightarrow> nat list \<Rightarrow> (uint32 \<Rightarrow> nat) \<Rightarrow> uint32 \<Rightarrow> nat" where
  "pins_dropped p dst ts r = (\<lambda>x. r x - (if p \<and> x \<in> dst ` set ts then 1 else 0))"

text \<open>Copies with disjoint sources and targets amount to one simultaneous update.\<close>

lemma copies_eq:
  assumes "\<forall>i \<in> set ts. \<forall>j \<in> set ts. src i \<noteq> dst j" "p \<Longrightarrow> distinct (map dst ts)"
  shows "av_copies p src dst ts v =
    (let w = map (\<lambda>i. (dst i, cv_data v (src i))) ts in
     v\<lparr>cv_data := apply_writes (cv_data v) w, cv_disk := apply_writes (cv_disk v) w, cv_writes := cv_writes v @ w,
       cv_ref := pins_dropped p dst ts (cv_ref v)\<rparr>)"
  using assms
proof (induction ts arbitrary: v)
  case Nil
  then show ?case by (simp add: av_copies_def pins_dropped_def)
next
  case (Cons i ts)
  let ?v = "av_copy p (src i) (dst i) v"
  have "\<forall>j \<in> set ts. cv_data ?v (src j) = cv_data v (src j)" using Cons.prems(1) by (auto simp: av_copy_def)
  then have w: "map (\<lambda>j. (dst j, cv_data ?v (src j))) ts = map (\<lambda>j. (dst j, cv_data v (src j))) ts" by simp
  have "pins_dropped p dst ts (cv_ref ?v) x = pins_dropped p dst (i # ts) (cv_ref v) x" for x
    using Cons.prems(2) by (cases p) (auto simp: pins_dropped_def av_copy_def)
  then have r: "pins_dropped p dst ts (cv_ref ?v) = pins_dropped p dst (i # ts) (cv_ref v)" by blast
  have "av_copies p src dst (i # ts) v = av_copies p src dst ts ?v" by (simp add: av_copies_def)
  also have "\<dots> = (let w = map (\<lambda>j. (dst j, cv_data v (src j))) ts in
     ?v\<lparr>cv_data := apply_writes (cv_data ?v) w, cv_disk := apply_writes (cv_disk ?v) w, cv_writes := cv_writes ?v @ w,
       cv_ref := pins_dropped p dst (i # ts) (cv_ref v)\<rparr>)"
    using Cons.IH [of ?v] Cons.prems w r by simp
  finally show ?case by (simp add: Let_def) (simp add: av_copy_def)
qed

section \<open>The loops of the log as sequences of copies\<close>

text \<open>Everything the cache does leaves the log record alone.\<close>

lemma bframe_log: "bframe s t \<Longrightarrow> log t = log s"
  by (auto simp: bframe_def)

lemma bframe_lh [simp]: "bframe s t \<Longrightarrow> lh t = lh s" "bframe s t \<Longrightarrow> log_block t = log_block s"
  by (simp_all add: lh_def log_block_def bframe_log fun_eq_iff)

lemma bframe_refl [simp]: "bframe s s"
  unfolding bframe_def
  by (rule conjI [OF refl], rule exI [of _ "procs s"], rule exI [of _ "bufs s"], rule exI [of _ "lru s"],
      rule exI [of _ "disk s"], rule exI [of _ "dlog s"]) simp

lemma unreferenced_clean:
  assumes "bc_inv s" "bref s a = 0"
  shows "bview s a = disk s a"
proof (cases "slot_of s a")
  case None
  then show ?thesis by (simp add: bview_def)
next
  case (Some i)
  then have i: "i < NBUF" "is_block (buf_at s i) a" using slot_of_Some [OF assms(1)] by auto
  then show ?thesis using Some assms(2) bc_invD(5) [OF assms(1) i(1)]
    by (auto simp: bview_def bref_def buf_ok_def is_block_def)
qed

text \<open>One turn of the two loops, which fetch the buffers in different orders.\<close>

lemma copy_view:
  assumes "\<not> cv_lock v a" "\<not> cv_lock v b" "a \<noteq> b"
    and "u = v\<lparr>cv_ref := (cv_ref v)(a := Suc (cv_ref v a), b := Suc (cv_ref v b)), cv_lock := (cv_lock v)(a := True, b := True)\<rparr>"
    and "w = u\<lparr>cv_data := (cv_data u)(b := cv_data u a), cv_disk := (cv_disk u)(b := cv_data u a),
      cv_writes := cv_writes u @ [(b, cv_data u a)],
      cv_ref := (cv_ref u)(a := cv_ref u a - 1, b := cv_ref u b - (if p then 2 else 1)),
      cv_lock := (cv_lock u)(a := False, b := False)\<rparr>"
  shows "w = av_copy p a b v"
proof -
  have "(cv_lock v)(a := False, b := False) = cv_lock v" using assms(1,2) by (simp add: fun_eq_iff)
  then show ?thesis using assms(3) unfolding assms(4,5) av_copy_def by (cases p) (simp_all add: fun_upd_twist)
qed

lemma copy_back:
  assumes inv: "bc_inv s" and u: "bc_inv u" "bhold u a i" "bhold u b j"
    and vu: "babs u = (babs s)\<lparr>cv_ref := (bref s)(a := Suc (bref s a), b := Suc (bref s b)),
      cv_lock := (block_locked s)(a := True, b := True)\<rparr>"
    and ab: "a \<noteq> b" and p: "p \<Longrightarrow> 0 < bref s b" and free: "\<not> block_locked s a" "\<not> block_locked s b"
  shows "\<exists>t. (\<forall>k. bindR (bwrite j (set_data j (b_data (buf_at u i)) u)) (\<lambda>_ s.
        bindR (brelse i (if p then bunpin j s else s)) (\<lambda>_ s. bindR (brelse j s) k)) = (k () t :: (unit, 'a bio_st_scheme) res)) \<and>
      bc_inv t \<and> bframe u t \<and> babs t = av_copy p a b (babs s)"
proof -
  have "cv_data (babs u) a = cv_disk (babs u) a" if "cv_ref (babs u) a = 1"
    using unreferenced_clean [OF inv, of a] that ab by (simp add: vu)
  moreover have "1 < cv_ref (babs u) b" if p using p that by (simp add: vu)
  ultimately obtain t where t: "bindR (bwrite j (set_data j (b_data (buf_at u i)) u)) (\<lambda>_ s.
        bindR (brelse i (if p then bunpin j s else s)) (\<lambda>_ s. brelse j s)) = Ok () t" "bc_inv t" "bframe u t"
    "babs t = (babs u)\<lparr>cv_data := (cv_data (babs u))(b := cv_data (babs u) a),
      cv_disk := (cv_disk (babs u))(b := cv_data (babs u) a),
      cv_writes := cv_writes (babs u) @ [(b, cv_data (babs u) a)],
      cv_ref := (cv_ref (babs u))(a := cv_ref (babs u) a - 1, b := cv_ref (babs u) b - (if p then 2 else 1)),
      cv_lock := (cv_lock (babs u))(a := False, b := False)\<rparr>"
    using bcache.copy_held [OF u ab, of p] by blast
  have "bindR (bwrite j (set_data j (b_data (buf_at u i)) u)) (\<lambda>_ s.
        bindR (brelse i (if p then bunpin j s else s)) (\<lambda>_ s. bindR (brelse j s) k)) = k () t" for k :: "unit \<Rightarrow> 'a bio_st_scheme \<Rightarrow> (unit, 'a bio_st_scheme) res"
    using arg_cong [where f = "\<lambda>r. bindR r k", OF t(1)] by simp
  moreover have "babs t = av_copy p a b (babs s)"
    by (rule copy_view [OF _ _ ab _ t(4)]) (simp_all add: free vu)
  ultimately show ?thesis using t(2,3) by blast
qed

lemma copies_turn:
  assumes "bc_inv s" "copies_ok p src dst (i # ts) (babs s)"
  shows "\<not> cv_lock (babs s) (src i)" "\<not> cv_lock (babs s) (dst i)" "src i \<noteq> dst i" "dst i \<noteq> src i"
    "room_for (babs s) {src i, dst i}" "room_for (babs s) {dst i, src i}" "p \<Longrightarrow> 0 < bref s (dst i)"
  using assms(2) by (auto simp: copies_ok_def insert_commute)

lemma av_copies_Cons [simp]:
  "av_copies p src dst (i # ts) v = av_copies p src dst ts (av_copy p (src i) (dst i) v)"
  by (simp add: av_copies_def)

lemma install_from_spec:
  assumes "bc_inv s" "log_dev (log s) = ROOTDEV" "\<forall>i \<in> set ts. i < length (lh_block (lh s))"
    and "copies_ok (\<not> recovering) (log_block s) (\<lambda>i. lh_block (lh s) ! i) ts (babs s)"
  shows "\<exists>t. install_from ts recovering s = Ok () t \<and> bc_inv t \<and> bframe s t \<and>
    babs t = av_copies (\<not> recovering) (log_block s) (\<lambda>i. lh_block (lh s) ! i) ts (babs s)"
  using assms
proof (induction ts arbitrary: s)
  case Nil
  then show ?case by (simp add: av_copies_def)
next
  case (Cons i ts)
  let ?p = "\<not> recovering" and ?a = "log_block s i" and ?b = "lh_block (lh s) ! i"
  note ct = copies_turn [OF Cons.prems(1,4)]
  obtain l d s1 s2 where rd: "bread ROOTDEV ?a s = Ok l s1" "bread ROOTDEV ?b s1 = Ok d s2" "bc_inv s2" "bframe s s1"
    "bframe s s2" "bhold s2 ?a l" "bhold s2 ?b d"
    "babs s2 = (babs s)\<lparr>cv_ref := (bref s)(?a := Suc (bref s ?a), ?b := Suc (bref s ?b)),
      cv_lock := (block_locked s)(?a := True, ?b := True)\<rparr>"
    using bcache.read_two [OF Cons.prems(1) ct(1,2,3,5)] by auto
  obtain t where t: "\<And>k :: unit \<Rightarrow> 'a log_st_scheme \<Rightarrow> (unit, 'a log_st_scheme) res. bindR (bwrite d (set_data d (b_data (buf_at s2 l)) s2)) (\<lambda>_ s.
        bindR (brelse l (if ?p then bunpin d s else s)) (\<lambda>_ s. bindR (brelse d s) k)) = k () t"
      "bc_inv t" "bframe s2 t" "babs t = av_copy ?p ?a ?b (babs s)"
    using copy_back [OF Cons.prems(1) rd(3,6,7,8) ct(3), of ?p] ct(1,2,7) by auto
  have fr: "bframe s t" using bframe_trans [OF rd(5) t(3)] .
  have "log t = log s" "log s1 = log s" using bframe_log fr rd(4) by blast+
  then have eq: "install_from (i # ts) recovering s = install_from ts recovering t"
    using rd(1,2) t(1) Cons.prems(2,3) by (simp add: lh_def)
  have "\<exists>u. install_from ts recovering t = Ok () u \<and> bc_inv u \<and> bframe t u \<and>
    babs u = av_copies ?p (log_block t) (\<lambda>i. lh_block (lh t) ! i) ts (babs t)"
    using Cons.prems(2,3) copies_ok_Cons [OF Cons.prems(4)] t(4) fr \<open>log t = log s\<close>
    by (intro Cons.IH t(2)) simp_all
  then show ?case using eq bframe_trans [OF fr] t(4) fr by (auto simp del: install_from.simps)
qed

lemma write_log_from_spec:
  assumes "bc_inv s" "log_dev (log s) = ROOTDEV" "\<forall>i \<in> set ts. i < length (lh_block (lh s))"
    and "copies_ok False (\<lambda>i. lh_block (lh s) ! i) (log_block s) ts (babs s)"
  shows "\<exists>t. write_log_from ts s = Ok () t \<and> bc_inv t \<and> bframe s t \<and>
    babs t = av_copies False (\<lambda>i. lh_block (lh s) ! i) (log_block s) ts (babs s)"
  using assms
proof (induction ts arbitrary: s)
  case Nil
  then show ?case by (simp add: av_copies_def)
next
  case (Cons i ts)
  let ?a = "lh_block (lh s) ! i" and ?b = "log_block s i"
  note ct = copies_turn [OF Cons.prems(1,4)]
  obtain l d s1 s2 where rd: "bread ROOTDEV ?b s = Ok d s1" "bread ROOTDEV ?a s1 = Ok l s2" "bc_inv s2" "bframe s s1"
    "bframe s s2" "bhold s2 ?a l" "bhold s2 ?b d"
    "babs s2 = (babs s)\<lparr>cv_ref := (bref s)(?b := Suc (bref s ?b), ?a := Suc (bref s ?a)),
      cv_lock := (block_locked s)(?b := True, ?a := True)\<rparr>"
    using bcache.read_two [OF Cons.prems(1) ct(2,1,4,6)] by auto
  have v2: "babs s2 = (babs s)\<lparr>cv_ref := (bref s)(?a := Suc (bref s ?a), ?b := Suc (bref s ?b)),
      cv_lock := (block_locked s)(?a := True, ?b := True)\<rparr>"
    unfolding rd(8) using ct(3) by (simp add: fun_upd_twist)
  obtain t where t: "\<And>k :: unit \<Rightarrow> 'a log_st_scheme \<Rightarrow> (unit, 'a log_st_scheme) res. bindR (bwrite d (set_data d (b_data (buf_at s2 l)) s2)) (\<lambda>_ s.
        bindR (brelse l (if False then bunpin d s else s)) (\<lambda>_ s. bindR (brelse d s) k)) = k () t"
      "bc_inv t" "bframe s2 t" "babs t = av_copy False ?a ?b (babs s)"
    using copy_back [OF Cons.prems(1) rd(3,6,7) v2 ct(3), of False] ct(1,2) by auto
  have fr: "bframe s t" using bframe_trans [OF rd(5) t(3)] .
  have "log t = log s" "log s1 = log s" using bframe_log fr rd(4) by blast+
  then have eq: "write_log_from (i # ts) s = write_log_from ts t"
    using rd(1,2) t(1) Cons.prems(2,3) by (simp add: lh_def)
  have "\<exists>u. write_log_from ts t = Ok () u \<and> bc_inv u \<and> bframe t u \<and>
    babs u = av_copies False (\<lambda>i. lh_block (lh t) ! i) (log_block t) ts (babs t)"
    using Cons.prems(2,3) copies_ok_Cons [OF Cons.prems(4)] t(4) fr \<open>log t = log s\<close>
    by (intro Cons.IH t(2)) simp_all
  then show ?case using eq bframe_trans [OF fr] t(4) fr by (auto simp del: write_log_from.simps)
qed

section \<open>The header block\<close>

lemma take_drop_concat:
  assumes "\<forall>x. length (f x) = k" "i < length xs"
  shows "take k (drop (k * i) (concat (map f xs) @ r)) = f (xs ! i)"
  using assms(2)
proof (induction xs arbitrary: i)
  case Nil
  then show ?case by simp
next
  case (Cons x xs)
  then show ?case using assms(1) by (cases i) simp_all
qed

lemma head_get:
  assumes "0 \<le> lh_n h" "nat (lh_n h) \<le> length (lh_block h)"
  shows "get32 0 (put_at 0 (head_bytes h) d) = of_int (lh_n h)"
    "i < nat (lh_n h) \<Longrightarrow> get32 (4 + 4 * i) (put_at 0 (head_bytes h) d) = lh_block h ! i"
proof -
  have w: "word_of_bytes (bytes_of_word 4 w) = w" for w :: uint32 by (rule word_of_bytes_of_word) simp
  show "get32 0 (put_at 0 (head_bytes h) d) = of_int (lh_n h)"
    by (simp add: get32_def put_at_def head_bytes_def w)
  assume i: "i < nat (lh_n h)"
  then have "i < length (take (nat (lh_n h)) (lh_block h))" using assms by simp
  then have c: "take 4 (drop (4 * i) (concat (map (bytes_of_word 4) (take (nat (lh_n h)) (lh_block h))) @ r))
      = bytes_of_word 4 (lh_block h ! i)" for r
    using take_drop_concat [of "bytes_of_word 4" 4 i "take (nat (lh_n h)) (lh_block h)" r] i by simp
  have dr: "drop (4 + k) (bytes_of_word 4 u @ ys) = drop k ys" for k ys and u :: uint32 by simp
  show "get32 (4 + 4 * i) (put_at 0 (head_bytes h) d) = lh_block h ! i"
    by (simp only: get32_def put_at_def head_bytes_def append_assoc take_0 append_Nil dr c w)
qed

lemma sint_small: "0 \<le> n \<Longrightarrow> n < 2 ^ 31 \<Longrightarrow> sint (of_int n :: uint32) = n"
  by (simp add: signed_of_int signed_take_bit_int_eq_self)

text \<open>Writing a block that nobody holds.\<close>

definition av_put :: "uint32 \<Rightarrow> uint8 list \<Rightarrow> cache_view \<Rightarrow> cache_view" where
  "av_put a d v = v\<lparr>cv_data := (cv_data v)(a := d), cv_disk := (cv_disk v)(a := d), cv_writes := cv_writes v @ [(a, d)]\<rparr>"

lemma write_head_spec:
  assumes "bc_inv s" "log_dev (log s) = ROOTDEV" "\<not> block_locked s (log_start (log s))"
    and "room_for (babs s) {log_start (log s)}"
  shows "\<exists>t. write_head s = Ok () t \<and> bc_inv t \<and> bframe s t \<and>
    babs t = av_put (log_start (log s)) (put_at 0 (head_bytes (lh s)) (bview s (log_start (log s)))) (babs s)"
proof -
  let ?a = "log_start (log s)"
  obtain i s1 where s1: "bread ROOTDEV ?a s = Ok i s1" "bc_inv s1" "bframe s s1" "bhold s1 ?a i"
    "babs s1 = (babs s)\<lparr>cv_ref := (cv_ref (babs s))(?a := Suc (cv_ref (babs s) ?a)), cv_lock := (cv_lock (babs s))(?a := True)\<rparr>"
    using bread_babs [OF assms(1) _ assms(4)] assms(3) by auto
  define d where "d = put_at 0 (head_bytes (lh s)) (bview s ?a)"
  have d: "put_at 0 (head_bytes (lh s1)) (b_data (buf_at s1 i)) = d"
    using bhold_babs(1) [OF s1(2,4)] arg_cong [OF s1(5), of cv_data] s1(3) by (simp add: d_def)
  define s2 where "s2 = set_data i d s1"
  have s2: "bc_inv s2" "bframe s1 s2" "bhold s2 ?a i" "babs s2 = (babs s1)\<lparr>cv_data := (cv_data (babs s1))(?a := d)\<rparr>"
    using set_data_babs [OF s1(2,4), of d] s1(4) unfolding s2_def by blast+
  obtain s3 where s3: "bwrite i s2 = Ok () s3" "bc_inv s3" "bframe s2 s3" "bhold s3 ?a i"
    "babs s3 = (babs s2)\<lparr>cv_disk := (cv_disk (babs s2))(?a := cv_data (babs s2) ?a),
                   cv_writes := cv_writes (babs s2) @ [(?a, cv_data (babs s2) ?a)]\<rparr>"
    using bwrite_babs [OF s2(1,3)] s2(3) by blast
  have "cv_data (babs s3) ?a = cv_disk (babs s3) ?a" unfolding s3(5) s2(4) by simp
  then obtain t where t: "brelse i s3 = Ok () t" "bc_inv t" "bframe s3 t"
    "babs t = (babs s3)\<lparr>cv_ref := (cv_ref (babs s3))(?a := cv_ref (babs s3) ?a - 1), cv_lock := (cv_lock (babs s3))(?a := False)\<rparr>"
    using brelse_babs [OF s3(2,4)] by blast
  have "write_head s = Ok () t"
    using assms(2) s1(1) d s3(1) t(1) by (simp add: write_head_def s2_def)
  moreover have "bframe s t" using bframe_trans s1(3) s2(2) s3(3) t(3) by metis
  moreover have "babs t = av_put ?a d (babs s)"
    unfolding t(4) s3(5) s2(4) s1(5) using assms(3) by (simp add: av_put_def fun_upd_idem)
  ultimately show ?thesis using t(2) unfolding d_def by blast
qed

section \<open>Recovery\<close>

definition cold :: "cache_view \<Rightarrow> bool" where
  "cold v \<longleftrightarrow> cv_data v = cv_disk v \<and> (\<forall>x. cv_ref v x = 0 \<and> \<not> cv_lock v x)"

lemma cold_room:
  assumes "\<forall>x. cv_ref v x = 0" "finite B" "card B \<le> NBUF"
  shows "room_for v B"
  using assms by (simp add: room_for_def)

text \<open>The home block numbers in a header block.\<close>

definition hdr_n :: "uint8 list \<Rightarrow> int" where
  "hdr_n d = sint (get32 0 d)"

definition hdr_block :: "uint8 list \<Rightarrow> nat \<Rightarrow> uint32" where
  "hdr_block d i = get32 (4 + 4 * i) d"

lemma babs_log [simp]: "babs (s\<lparr>log := x\<rparr>) = babs s" "bc_inv (s\<lparr>log := x\<rparr>) = bc_inv s" "bhold (s\<lparr>log := x\<rparr>) = bhold s"
proof -
  have f: "bufs (s\<lparr>log := x\<rparr>) = bufs s" "disk (s\<lparr>log := x\<rparr>) = disk s" by simp_all
  show "babs (s\<lparr>log := x\<rparr>) = babs s"
    unfolding babs_def using same_bufs [OF f] by (auto simp: fun_eq_iff)
  show "bc_inv (s\<lparr>log := x\<rparr>) = bc_inv s" by (simp add: bc_inv_def)
  have "mypid (s\<lparr>log := x\<rparr>) = mypid s" by (simp add: mypid_def myproc_def mycpu_def cpuid_def split: option.split)
  then show "bhold (s\<lparr>log := x\<rparr>) = bhold s" using same_bufs(5) [OF f] by (auto simp: fun_eq_iff)
qed

lemma babs_set_lh [simp]: "babs (set_lh x s) = babs s" "bc_inv (set_lh x s) = bc_inv s" "bhold (set_lh x s) = bhold s"
  "lh (set_lh x s) = x" "log_start (log (set_lh x s)) = log_start (log s)" "log_dev (log (set_lh x s)) = log_dev (log s)"
  "log_size (log (set_lh x s)) = log_size (log s)" "log_block (set_lh x s) = log_block s"
  by (simp_all add: set_lh_def lh_def log_block_def fun_eq_iff)

lemma read_head_spec:
  assumes inv: "bc_inv s" and dev: "log_dev (log s) = ROOTDEV" and c: "cold (babs s)"
    and n: "hdr_n (disk s (log_start (log s))) = int k" "k \<le> LOGSIZE" "length (lh_block (lh s)) = LOGSIZE"
  shows "\<exists>t. read_head s = Ok () t \<and> bc_inv t \<and> babs t = babs s \<and> lh_n (lh t) = int k \<and>
    length (lh_block (lh t)) = LOGSIZE \<and> (\<forall>i < k. lh_block (lh t) ! i = hdr_block (disk s (log_start (log s))) i) \<and>
    log t = (log s)\<lparr>log_lh := lh t\<rparr>"
proof -
  let ?a = "log_start (log s)"
  have room: "room_for (babs s) {?a}" using c by (intro cold_room) (simp_all add: cold_def NBUF_def)
  have free: "\<not> cv_lock (babs s) ?a" and eq: "bview s = disk s" and r0: "bref s = (\<lambda>_. 0)"
    using c by (simp_all add: cold_def fun_eq_iff)
  obtain i s1 where s1: "bread ROOTDEV ?a s = Ok i s1" "bc_inv s1" "bframe s s1" "bhold s1 ?a i"
    "babs s1 = (babs s)\<lparr>cv_ref := (cv_ref (babs s))(?a := Suc (cv_ref (babs s) ?a)), cv_lock := (cv_lock (babs s))(?a := True)\<rparr>"
    using bread_babs [OF inv free room] by blast
  define d where "d = disk s ?a"
  have d: "b_data (buf_at s1 i) = d"
    using bhold_babs(1) [OF s1(2,4)] arg_cong [OF s1(5), of cv_data] eq by (simp add: d_def)
  define h where "h = \<lparr>lh_n = int k, lh_block = map (\<lambda>i. get32 (4 + 4 * i) d) [0..<k] @ drop k (lh_block (lh s1))\<rparr>"
  have "cv_data (babs (set_lh h s1)) ?a = cv_disk (babs (set_lh h s1)) ?a" using eq by (simp add: s1(5))
  then obtain t where t: "brelse i (set_lh h s1) = Ok () t" "bc_inv t" "bframe (set_lh h s1) t"
    "babs t = (babs s1)\<lparr>cv_ref := (cv_ref (babs s1))(?a := cv_ref (babs s1) ?a - 1), cv_lock := (cv_lock (babs s1))(?a := False)\<rparr>"
    using brelse_babs [of "set_lh h s1" ?a i] s1(2,4) by auto
  have "read_head s = Ok () t"
    using dev s1(1) d t(1) n(1,2) by (simp add: read_head_def hdr_n_def d_def h_def)
  moreover have "babs t = babs s" using free unfolding t(4) s1(5) by (simp add: fun_upd_idem)
  moreover have "lh t = h" "log t = (log s)\<lparr>log_lh := h\<rparr>" using bframe_log [OF t(3)] bframe_log [OF s1(3)] by (simp_all add: lh_def set_lh_def)
  ultimately show ?thesis using t(2) n(2,3) s1(3)
    by (intro exI [of _ t]) (simp add: h_def hdr_block_def d_def nth_append)
qed

lemma av_put_sel [simp]:
  "cv_data (av_put a d v) = (cv_data v)(a := d)" "cv_disk (av_put a d v) = (cv_disk v)(a := d)"
  "cv_writes (av_put a d v) = cv_writes v @ [(a, d)]" "cv_ref (av_put a d v) = cv_ref v" "cv_lock (av_put a d v) = cv_lock v"
  by (simp_all add: av_put_def)

text \<open>\<open>recover_from_log\<close> on a cold cache installs the blocks the header names and clears the header.\<close>

lemma recover_spec:
  assumes inv: "bc_inv s" and dev: "log_dev (log s) = ROOTDEV" and c: "cold (babs s)"
    and n: "hdr_n (disk s (log_start (log s))) = int k" "k \<le> LOGSIZE" "length (lh_block (lh s)) = LOGSIZE"
    and home: "\<forall>i < k. \<forall>j < k. log_block s i \<noteq> hdr_block (disk s (log_start (log s))) j"
  defines "w \<equiv> map (\<lambda>i. (hdr_block (disk s (log_start (log s))) i, disk s (log_block s i))) [0..<k]"
  shows "\<exists>t d. recover_from_log s = Ok () t \<and> bc_inv t \<and> cold (babs t) \<and> lh_n (lh t) = 0 \<and>
    length (lh_block (lh t)) = LOGSIZE \<and> log t = (log s)\<lparr>log_lh := lh t\<rparr> \<and>
    disk t = (apply_writes (disk s) w)(log_start (log s) := put_at 0 (bytes_of_word 4 (0 :: uint32)) d)"
proof -
  let ?a = "log_start (log s)" and ?h = "\<lambda>i. hdr_block (disk s (log_start (log s))) i"
  obtain s1 where s1: "read_head s = Ok () s1" "bc_inv s1" "babs s1 = babs s" "lh_n (lh s1) = int k"
    "length (lh_block (lh s1)) = LOGSIZE" "\<forall>i < k. lh_block (lh s1) ! i = ?h i" "log s1 = (log s)\<lparr>log_lh := lh s1\<rparr>"
    using read_head_spec [OF inv dev c n] by blast
  have lb: "log_block s1 = log_block s" "log_dev (log s1) = ROOTDEV" "log_start (log s1) = ?a"
    using s1(7) dev by (simp_all add: log_block_def fun_eq_iff)
  have c': "\<forall>x. cv_ref (babs s1) x = 0" "\<forall>x. \<not> cv_lock (babs s1) x" "cv_data (babs s1) = disk s" "cv_disk (babs s1) = disk s"
    using c unfolding s1(3) by (simp_all add: cold_def)
  have ok: "copies_ok False (log_block s) (\<lambda>i. lh_block (lh s1) ! i) [0..<k] (babs s1)"
    unfolding copies_ok_def using home s1(6) c'(2)
    by (auto intro!: cold_room c'(1) [rule_format, unfolded babs_sel] simp: NBUF_def card_insert_if)
  obtain s2 where s2: "install_from [0..<k] True s1 = Ok () s2" "bc_inv s2" "bframe s1 s2"
    "babs s2 = av_copies False (log_block s) (\<lambda>i. lh_block (lh s1) ! i) [0..<k] (babs s1)"
    using install_from_spec [of s1 "[0..<k]" True] s1(2,5) n(2) ok lb by auto
  have w: "map (\<lambda>i. (lh_block (lh s1) ! i, disk s (log_block s i))) [0..<k] = w"
    using s1(6) by (simp add: w_def)
  have v2: "babs s2 = (babs s1)\<lparr>cv_data := apply_writes (disk s) w, cv_disk := apply_writes (disk s) w,
      cv_writes := cv_writes (babs s1) @ w, cv_ref := (\<lambda>_. 0)\<rparr>"
    unfolding s2(4) using ok c'(1)
    by (subst copies_eq) (simp_all add: copies_ok_def c'(3,4) [unfolded babs_sel] w Let_def pins_dropped_def)
  define s3 where "s3 = set_lh ((lh s2)\<lparr>lh_n := 0\<rparr>) s2"
  have l3: "log_start (log s3) = ?a" "log_dev (log s3) = ROOTDEV" "bc_inv s3" "babs s3 = babs s2"
    using bframe_log [OF s2(3)] lb s2(2) by (simp_all add: s3_def)
  have v3: "babs s3 = (babs s1)\<lparr>cv_data := apply_writes (disk s) w, cv_disk := apply_writes (disk s) w,
      cv_writes := cv_writes (babs s1) @ w, cv_ref := (\<lambda>_. 0)\<rparr>" using l3(4) v2 by (simp only:)
  have "\<not> block_locked s3 ?a" using arg_cong [OF v3, of cv_lock] c'(2) by simp
  moreover have "room_for (babs s3) {?a}" unfolding v3 by (rule cold_room) (simp_all add: NBUF_def)
  ultimately obtain t where t: "write_head s3 = Ok () t" "bc_inv t" "bframe s3 t"
    "babs t = av_put ?a (put_at 0 (head_bytes (lh s3)) (bview s3 ?a)) (babs s3)"
    using write_head_spec [OF l3(3,2)] l3(1) by auto
  have "recover_from_log s = Ok () t"
    using s1(1,4) s2(1) t(1) by (simp add: recover_from_log_def install_trans_def s3_def)
  moreover have "head_bytes (lh s3) = bytes_of_word 4 (0 :: uint32)" by (simp add: s3_def head_bytes_def)
  then have "disk t = (apply_writes (disk s) w)(?a := put_at 0 (bytes_of_word 4 (0 :: uint32)) (bview s3 ?a))"
    using arg_cong [OF t(4), of cv_disk] arg_cong [OF v3, of cv_disk] by simp
  moreover have "cold (babs t)" unfolding cold_def t(4) v3 using c'(1,2) by simp
  moreover have lt: "log t = (log s1)\<lparr>log_lh := (lh s1)\<lparr>lh_n := 0\<rparr>\<rparr>"
    using bframe_log [OF t(3)] bframe_log [OF s2(3)] by (simp add: s3_def lh_def set_lh_def)
  then have "lh t = (lh s1)\<lparr>lh_n := 0\<rparr>" by (simp add: lh_def)
  moreover from this lt have "log t = (log s)\<lparr>log_lh := lh t\<rparr>"
    by (simp only:) (subst s1(7), simp)
  ultimately show ?thesis using t(2) s1(5) by auto
qed

section \<open>Commit\<close>

definition in_log :: "'a log_st_scheme \<Rightarrow> uint32 \<Rightarrow> bool" where
  "in_log s bn \<longleftrightarrow> (\<exists>i < nat (log_size (log s)). bn = log_start (log s) + of_nat i)"

definition logged :: "'a log_st_scheme \<Rightarrow> uint32 list" where
  "logged s = take (nat (lh_n (lh s))) (lh_block (lh s))"

text \<open>The state in which the last \<open>end_op\<close> commits: the logged blocks are different, lie outside the log
  and are pinned; nobody holds them or a block of the log; some buffer is free; every other block agrees
  with the disk.\<close>

definition commit_ready :: "'a log_st_scheme \<Rightarrow> bool" where
  "commit_ready s \<longleftrightarrow>
     bc_inv s \<and> log_dev (log s) = ROOTDEV \<and> length (lh_block (lh s)) = LOGSIZE \<and>
     0 \<le> lh_n (lh s) \<and> lh_n (lh s) \<le> int LOGSIZE \<and> lh_n (lh s) < log_size (log s) \<and> log_size (log s) < 2 ^ 31 \<and>
     distinct (logged s) \<and> (\<forall>bn \<in> set (logged s). \<not> in_log s bn \<and> 0 < bref s bn) \<and>
     (\<forall>bn. bn \<in> set (logged s) \<or> in_log s bn \<longrightarrow> \<not> block_locked s bn \<and> bref s bn < 2 ^ 32 - 1) \<and>
     card {bn. 0 < bref s bn} < NBUF \<and>
     (\<forall>bn. bn \<notin> set (logged s) \<longrightarrow> bview s bn = disk s bn)"

definition new_head :: "'a log_st_scheme \<Rightarrow> uint8 list" where
  "new_head s = put_at 0 (head_bytes (lh s)) (bview s (log_start (log s)))"

definition end_head :: "'a log_st_scheme \<Rightarrow> uint8 list" where
  "end_head s = put_at 0 (bytes_of_word 4 (0 :: uint32)) (new_head s)"

definition log_writes :: "'a log_st_scheme \<Rightarrow> (uint32 \<times> uint8 list) list" where
  "log_writes s = map (\<lambda>i. (log_block s i, bview s (lh_block (lh s) ! i))) [0..<nat (lh_n (lh s))]"

definition home_writes :: "'a log_st_scheme \<Rightarrow> (uint32 \<times> uint8 list) list" where
  "home_writes s = map (\<lambda>i. (lh_block (lh s) ! i, bview s (lh_block (lh s) ! i))) [0..<nat (lh_n (lh s))]"

definition commit_writes :: "'a log_st_scheme \<Rightarrow> (uint32 \<times> uint8 list) list" where
  "commit_writes s = log_writes s @ [(log_start (log s), new_head s)] @ home_writes s @ [(log_start (log s), end_head s)]"

lemma of_nat_inj32: "i < 2 ^ 32 \<Longrightarrow> j < 2 ^ 32 \<Longrightarrow> (of_nat i :: uint32) = of_nat j \<longleftrightarrow> i = j"
  by (simp add: word_of_nat_eq_iff take_bit_nat_eq_self)

lemma finite_refs: "bc_inv s \<Longrightarrow> finite {bn. 0 < bref s bn}"
proof -
  assume inv: "bc_inv s"
  have "{bn. 0 < bref s bn} \<subseteq> (\<lambda>i. b_blockno (buf_at s i)) ` {..<NBUF}"
    using slot_of_Some [OF inv] by (fastforce simp: bref_def is_block_def split: option.splits)
  then show ?thesis by (rule finite_subset) simp
qed

lemma commit_geometry:
  assumes "commit_ready s"
  defines "n \<equiv> nat (lh_n (lh s))"
  shows "n \<le> LOGSIZE" "n < nat (log_size (log s))" "i < n \<Longrightarrow> in_log s (log_block s i)" "in_log s (log_start (log s))"
    "i < n \<Longrightarrow> log_block s i \<noteq> log_start (log s)" "i < n \<Longrightarrow> j < n \<Longrightarrow> log_block s i = log_block s j \<Longrightarrow> i = j"
    "i < n \<Longrightarrow> lh_block (lh s) ! i \<in> set (logged s)" "i < n \<Longrightarrow> \<not> in_log s (lh_block (lh s) ! i)"
    "i < n \<Longrightarrow> j < n \<Longrightarrow> lh_block (lh s) ! i = lh_block (lh s) ! j \<Longrightarrow> i = j"
proof -
  have n: "n \<le> LOGSIZE" "n < nat (log_size (log s))" "log_size (log s) < 2 ^ 31" "length (lh_block (lh s)) = LOGSIZE"
    using assms(1) by (auto simp: commit_ready_def n_def)
  then show "n \<le> LOGSIZE" "n < nat (log_size (log s))" by simp_all
  have lb: "log_block s i = log_start (log s) + of_nat (Suc i)" for i by (simp add: log_block_def)
  have small: "Suc i < 2 ^ 32" if "i < n" for i using that n(1) by (simp add: LOGSIZE_def)
  show "in_log s (log_block s i)" if "i < n"
    unfolding in_log_def lb using that n(2) by (intro exI [of _ "Suc i"]) simp
  show "in_log s (log_start (log s))" unfolding in_log_def using n(2) by (intro exI [of _ 0]) simp
  show "log_block s i \<noteq> log_start (log s)" if "i < n"
    using of_nat_inj32 [of "Suc i" 0] small [OF that] unfolding lb by simp
  show "i = j" if "i < n" "j < n" "log_block s i = log_block s j"
    using of_nat_inj32 [of "Suc i" "Suc j"] small that unfolding lb by simp
  have lg: "logged s ! i = lh_block (lh s) ! i" "i < length (logged s)" if "i < n" for i
    using that n by (simp_all add: logged_def n_def)
  then show "lh_block (lh s) ! i \<in> set (logged s)" if "i < n" using that nth_mem by metis
  then show "\<not> in_log s (lh_block (lh s) ! i)" if "i < n" using that assms(1) by (simp add: commit_ready_def)
  show "i = j" if "i < n" "j < n" "lh_block (lh s) ! i = lh_block (lh s) ! j"
    using lg that assms(1) nth_eq_iff_index_eq [of "logged s" i j] by (simp add: commit_ready_def)
qed

lemma set_logged:
  assumes "commit_ready s"
  shows "set (logged s) = (\<lambda>i. lh_block (lh s) ! i) ` {..<nat (lh_n (lh s))}"
proof -
  have "nat (lh_n (lh s)) \<le> length (lh_block (lh s))"
    using commit_geometry(1) [OF assms] assms by (simp add: commit_ready_def)
  then show ?thesis by (simp add: logged_def nth_image lessThan_atLeast0)
qed

lemma commit_room:
  assumes "commit_ready s" "in_log s a" "b \<in> set (logged s) \<or> b = a"
  shows "room_for (babs s) {a, b}" "room_for (babs s) {b, a}"
proof -
  let ?U = "{bn. 0 < bref s bn}"
  have r: "bc_inv s" "card ?U < NBUF" "\<forall>bn \<in> set (logged s). 0 < bref s bn"
    and small: "bref s a < 2 ^ 32 - 1" "bref s b < 2 ^ 32 - 1"
    using assms unfolding commit_ready_def by blast+
  have fin: "finite ?U" by (rule finite_refs [OF r(1)])
  have "?U \<union> {a, b} \<subseteq> insert a ?U" using assms(3) r(3) by auto
  then have "card (?U \<union> {a, b}) \<le> card (insert a ?U)" using fin by (intro card_mono) auto
  also have "\<dots> \<le> Suc (card ?U)" by (rule card_insert_le_m1) simp_all
  finally have "card (?U \<union> {a, b}) \<le> NBUF" using r(2) by simp
  then show "room_for (babs s) {a, b}" "room_for (babs s) {b, a}"
    using fin small by (simp_all add: room_for_def insert_commute)
qed

lemma fst_writes:
  "fst ` set (log_writes s) = log_block s ` {..<nat (lh_n (lh s))}"
  "fst ` set (home_writes s) = (\<lambda>i. lh_block (lh s) ! i) ` {..<nat (lh_n (lh s))}"
  by (simp_all add: log_writes_def home_writes_def image_image lessThan_atLeast0)

lemma head_untouched:
  assumes "commit_ready s"
  shows "log_start (log s) \<notin> fst ` set (log_writes s)" "log_start (log s) \<notin> fst ` set (home_writes s)"
  unfolding fst_writes using commit_geometry(4,5,8) [OF assms] by (metis imageE lessThan_iff)+

definition with_writes :: "(uint32 \<times> uint8 list) list \<Rightarrow> cache_view \<Rightarrow> cache_view" where
  "with_writes w v = v\<lparr>cv_data := apply_writes (cv_data v) w, cv_disk := apply_writes (cv_disk v) w, cv_writes := cv_writes v @ w\<rparr>"

lemma with_writes_append: "with_writes w' (with_writes w v) = with_writes (w @ w') v"
  by (simp add: with_writes_def)

lemma av_put_writes: "av_put a d v = with_writes [(a, d)] v"
  by (simp add: with_writes_def av_put_def)

lemma with_writes_sel [simp]:
  "cv_data (with_writes w v) = apply_writes (cv_data v) w" "cv_ref (with_writes w v) = cv_ref v"
  "cv_lock (with_writes w v) = cv_lock v" "cv_disk (with_writes w v) = apply_writes (cv_disk v) w"
  "cv_writes (with_writes w v) = cv_writes v @ w"
  by (simp_all add: with_writes_def)

lemma room_for_cong: "cv_ref v = cv_ref w \<Longrightarrow> room_for v B = room_for w B"
  by (simp add: room_for_def)

text \<open>The first half of a commit: the log blocks and the header.\<close>

lemma commit_log:
  assumes ready: "commit_ready s"
  shows "\<exists>t. bindR (write_log s) (\<lambda>_ s. write_head s) = Ok () t \<and> bc_inv t \<and> bframe s t \<and>
    babs t = with_writes (log_writes s @ [(log_start (log s), new_head s)]) (babs s)"
proof -
  let ?n = "nat (lh_n (lh s))" and ?H = "\<lambda>i. lh_block (lh s) ! i"
  note g = commit_geometry [OF ready]
  have rd: "bc_inv s" "log_dev (log s) = ROOTDEV" "length (lh_block (lh s)) = LOGSIZE"
    "\<And>bn. bn \<in> set (logged s) \<or> in_log s bn \<Longrightarrow> \<not> block_locked s bn"
    using ready unfolding commit_ready_def by blast+
  have ne: "?H i \<noteq> log_block s j" if "i < ?n" "j < ?n" for i j
    using g(3) [OF that(2)] g(8) [OF that(1)] by auto
  have ok: "copies_ok False ?H (log_block s) [0..<?n] (babs s)"
    unfolding copies_ok_def using ne rd(4) g(3,7) commit_room(2) [OF ready g(3)] by simp
  obtain s1 where s1: "write_log s = Ok () s1" "bc_inv s1" "bframe s s1"
    "babs s1 = av_copies False ?H (log_block s) [0..<?n] (babs s)"
    using write_log_from_spec [OF rd(1,2) _ ok] g(1) rd(3) by (auto simp: write_log_def)
  have v1: "babs s1 = with_writes (log_writes s) (babs s)"
    unfolding s1(4) using ok
    by (subst copies_eq) (simp_all add: copies_ok_def Let_def with_writes_def log_writes_def pins_dropped_def)
  have l1: "log s1 = log s" "lh s1 = lh s" using bframe_log [OF s1(3)] by (simp_all add: lh_def)
  have "\<not> block_locked s1 (log_start (log s))" using rd(4) g(4) arg_cong [OF v1, of cv_lock] by simp
  moreover have "room_for (babs s1) {log_start (log s)}"
    using commit_room(1) [OF ready g(4), of "log_start (log s)"] room_for_cong [of "babs s1" "babs s"] v1 by simp
  ultimately obtain t where t: "write_head s1 = Ok () t" "bc_inv t" "bframe s1 t"
    "babs t = av_put (log_start (log s)) (put_at 0 (head_bytes (lh s)) (bview s1 (log_start (log s)))) (babs s1)"
    using write_head_spec [OF s1(2)] rd(2) l1 by auto
  have "bview s1 (log_start (log s)) = bview s (log_start (log s))"
    using arg_cong [OF v1, of cv_data] apply_writes_other [OF head_untouched(1) [OF ready]] by simp
  then have "babs t = with_writes (log_writes s @ [(log_start (log s), new_head s)]) (babs s)"
    unfolding t(4) v1 av_put_writes with_writes_append by (simp add: new_head_def)
  then show ?thesis using s1(1) t(1,2) bframe_trans [OF s1(3) t(3)] by auto
qed

lemma log_data:
  assumes "commit_ready s" "i < nat (lh_n (lh s))"
  shows "apply_writes d (log_writes s @ [(log_start (log s), h)]) (log_block s i) = bview s (lh_block (lh s) ! i)"
proof -
  note g = commit_geometry [OF assms(1)]
  have "distinct (map (log_block s) [0..<nat (lh_n (lh s))])"
    using g(6) by (auto simp: distinct_map inj_on_def)
  from apply_writes_map [OF this] have "apply_writes d (log_writes s) (log_block s i) = bview s (lh_block (lh s) ! i)"
    using assms(2) by (simp add: log_writes_def)
  then show ?thesis using g(5) [OF assms(2)] by simp
qed

lemma commit_spec:
  assumes ready: "commit_ready s" and n: "0 < lh_n (lh s)"
  shows "\<exists>t. commit s = Ok () t \<and> bc_inv t \<and> log t = (log s)\<lparr>log_lh := (lh s)\<lparr>lh_n := 0\<rparr>\<rparr> \<and>
    babs t = (with_writes (commit_writes s) (babs s))\<lparr>cv_ref := \<lambda>x. bref s x - (if x \<in> set (logged s) then 1 else 0)\<rparr>"
proof -
  let ?n = "nat (lh_n (lh s))" and ?H = "\<lambda>i. lh_block (lh s) ! i" and ?a = "log_start (log s)"
  note g = commit_geometry [OF ready]
  have rd: "log_dev (log s) = ROOTDEV" "length (lh_block (lh s)) = LOGSIZE"
    "\<And>bn. bn \<in> set (logged s) \<or> in_log s bn \<Longrightarrow> \<not> block_locked s bn" "\<And>bn. bn \<in> set (logged s) \<Longrightarrow> 0 < bref s bn"
    using ready unfolding commit_ready_def by blast+
  define w where "w = log_writes s @ [(?a, new_head s)]"
  obtain s2 where s2: "bindR (write_log s) (\<lambda>_ s. write_head s) = Ok () s2" "bc_inv s2" "bframe s s2"
    "babs s2 = with_writes w (babs s)" using commit_log [OF ready] by (auto simp: w_def)
  have l2: "log s2 = log s" "lh s2 = lh s" "log_block s2 = log_block s" using bframe_log [OF s2(3)] s2(3) by (simp_all add: lh_def)
  have room: "room_for (babs s2) B = room_for (babs s) B" for B by (rule room_for_cong) (simp add: s2(4) del: babs_sel)
  have ok: "copies_ok True (log_block s) ?H [0..<?n] (babs s2)"
    unfolding copies_ok_def room
    using g rd(3,4) commit_room(1) [OF ready] arg_cong [OF s2(4), of cv_lock] arg_cong [OF s2(4), of cv_ref]
    by (fastforce simp: distinct_map inj_on_def)
  obtain s3 where s3: "install_trans False s2 = Ok () s3" "bc_inv s3" "bframe s2 s3"
    "babs s3 = av_copies True (log_block s) ?H [0..<?n] (babs s2)"
    using install_from_spec [OF s2(2), of "[0..<?n]" False] g(1) rd(1,2) ok l2 by (auto simp: install_trans_def)
  have hw: "map (\<lambda>i. (?H i, cv_data (babs s2) (log_block s i))) [0..<?n] = home_writes s"
    unfolding home_writes_def s2(4) using log_data [OF ready] by (simp add: w_def)
  have pins: "pins_dropped True ?H [0..<?n] (bref s) = (\<lambda>x. bref s x - (if x \<in> set (logged s) then 1 else 0))"
    unfolding set_logged [OF ready] pins_dropped_def by (simp add: lessThan_atLeast0)
  have v3: "babs s3 = (with_writes (w @ home_writes s) (babs s))\<lparr>cv_ref := \<lambda>x. bref s x - (if x \<in> set (logged s) then 1 else 0)\<rparr>"
    unfolding s3(4) using ok hw arg_cong [OF s2(4), of cv_ref] pins
    by (subst copies_eq) (simp_all add: copies_ok_def Let_def s2(4) del: babs_sel, simp add: with_writes_def)
  define s4 where "s4 = set_lh ((lh s3)\<lparr>lh_n := 0\<rparr>) s3"
  have l4: "log s3 = log s" "log_start (log s4) = ?a" "log_dev (log s4) = ROOTDEV" "bc_inv s4" "babs s4 = babs s3"
    using bframe_log [OF s3(3)] l2 rd(1) s3(2) by (simp_all add: s4_def)
  have "\<not> block_locked s4 ?a" using rd(3) g(4) arg_cong [OF v3, of cv_lock] arg_cong [OF l4(5), of cv_lock] by simp
  moreover have "room_for (babs s4) {?a}"
    using room_for_mono [OF commit_room(1) [OF ready g(4), of ?a], of "babs s4"] unfolding l4(5) v3 by simp
  ultimately obtain t where t: "write_head s4 = Ok () t" "bc_inv t" "bframe s4 t"
    "babs t = av_put ?a (put_at 0 (head_bytes (lh s4)) (bview s4 ?a)) (babs s4)"
    using write_head_spec [OF l4(4,3)] l4(2) by auto
  have "bview s4 ?a = new_head s"
    using arg_cong [OF v3, of cv_data] arg_cong [OF l4(5), of cv_data] apply_writes_other [OF head_untouched(2) [OF ready]]
    by (simp add: w_def)
  then have "babs t = (with_writes (commit_writes s) (babs s))\<lparr>cv_ref := \<lambda>x. bref s x - (if x \<in> set (logged s) then 1 else 0)\<rparr>"
    unfolding t(4) l4(5) v3 av_put_writes by (simp add: with_writes_def commit_writes_def w_def end_head_def s4_def head_bytes_def)
  moreover have "commit s = Ok () t"
    using n s2(1) s3(1) t(1) by (auto simp: commit_def s4_def bindR_Ok_iff)
  moreover have "log t = (log s)\<lparr>log_lh := (lh s)\<lparr>lh_n := 0\<rparr>\<rparr>"
    using bframe_log [OF t(3)] l4(1) by (simp add: s4_def set_lh_def lh_def)
  ultimately show ?thesis using t(2) by blast
qed

section \<open>A crash at any point\<close>

lemma home_new:
  assumes "commit_ready s"
  shows "apply_writes d (home_writes s) bn = (if bn \<in> set (logged s) then bview s bn else d bn)"
proof (cases "bn \<in> set (logged s)")
  case True
  then obtain i where i: "i < nat (lh_n (lh s))" "bn = lh_block (lh s) ! i" using set_logged [OF assms] by auto
  have "distinct (map (\<lambda>i. lh_block (lh s) ! i) [0..<nat (lh_n (lh s))])"
    using commit_geometry(9) [OF assms] by (auto simp: distinct_map inj_on_def)
  from apply_writes_map [OF this] show ?thesis using i True by (simp add: home_writes_def)
next
  case False
  then show ?thesis using set_logged [OF assms] by (simp add: apply_writes_other fst_writes)
qed

lemma log_writes_outside:
  assumes "commit_ready s" "\<not> in_log s bn"
  shows "bn \<noteq> log_start (log s)" "apply_writes d (take k (log_writes s)) bn = d bn"
proof -
  show "bn \<noteq> log_start (log s)" using commit_geometry(4) [OF assms(1)] assms(2) by auto
  have "bn \<notin> fst ` set (log_writes s)" unfolding fst_writes using commit_geometry(3) [OF assms(1)] assms(2) by auto
  then have "bn \<notin> fst ` set (take k (log_writes s))" using set_take_subset [of k "log_writes s"] by blast
  then show "apply_writes d (take k (log_writes s)) bn = d bn" by (rule apply_writes_other)
qed

definition disk_image :: "'a log_st_scheme \<Rightarrow> nat \<Rightarrow> uint32 \<Rightarrow> uint8 list" where
  "disk_image s k = apply_writes (disk s) (take k (commit_writes s))"

lemma get32_put0: "get32 0 (put_at 0 (bytes_of_word 4 w) d) = w"
  by (simp add: get32_def put_at_def word_of_bytes_of_word)

lemma hdr_n_clear: "hdr_n (put_at 0 (bytes_of_word 4 (0 :: uint32)) d) = 0"
  by (simp add: hdr_n_def get32_put0)

lemma new_head_get:
  assumes "commit_ready s"
  shows "hdr_n (new_head s) = lh_n (lh s)" "i < nat (lh_n (lh s)) \<Longrightarrow> hdr_block (new_head s) i = lh_block (lh s) ! i"
proof -
  have n: "0 \<le> lh_n (lh s)" "lh_n (lh s) < 2 ^ 31" "nat (lh_n (lh s)) \<le> length (lh_block (lh s))"
    using assms by (auto simp: commit_ready_def LOGSIZE_def)
  show "hdr_n (new_head s) = lh_n (lh s)"
    using head_get(1) [OF n(1,3)] sint_small [OF n(1,2)] by (simp add: hdr_n_def new_head_def)
  show "i < nat (lh_n (lh s)) \<Longrightarrow> hdr_block (new_head s) i = lh_block (lh s) ! i"
    using head_get(2) [OF n(1,3)] by (simp add: hdr_block_def new_head_def)
qed

lemma length_writes [simp]:
  "length (log_writes s) = nat (lh_n (lh s))" "length (home_writes s) = nat (lh_n (lh s))"
  "length (commit_writes s) = 2 * nat (lh_n (lh s)) + 2"
  by (simp_all add: log_writes_def home_writes_def commit_writes_def)

text \<open>The three kinds of disk image: the header still old, the header naming the logged blocks, the
  header cleared again.\<close>

lemma image_before:
  assumes "commit_ready s" "k \<le> nat (lh_n (lh s))"
  shows "disk_image s k (log_start (log s)) = disk s (log_start (log s))"
    "\<not> in_log s bn \<Longrightarrow> disk_image s k bn = disk s bn"
proof -
  have im: "disk_image s k = apply_writes (disk s) (take k (log_writes s))"
    using assms(2) by (simp add: disk_image_def commit_writes_def)
  have "log_start (log s) \<notin> fst ` set (take k (log_writes s))"
    using head_untouched(1) [OF assms(1)] set_take_subset [of k "log_writes s"] by blast
  then show "disk_image s k (log_start (log s)) = disk s (log_start (log s))" by (simp add: im apply_writes_other)
  show "\<not> in_log s bn \<Longrightarrow> disk_image s k bn = disk s bn" using log_writes_outside [OF assms(1)] by (simp add: im)
qed

lemma image_committed:
  assumes ready: "commit_ready s" and k: "nat (lh_n (lh s)) < k" "k \<le> 2 * nat (lh_n (lh s)) + 1"
  shows "disk_image s k (log_start (log s)) = new_head s"
    "i < nat (lh_n (lh s)) \<Longrightarrow> disk_image s k (log_block s i) = bview s (lh_block (lh s) ! i)"
    "\<not> in_log s bn \<Longrightarrow> apply_writes (disk_image s k) (home_writes s) bn = bview s bn"
proof -
  let ?n = "nat (lh_n (lh s))" and ?a = "log_start (log s)"
  define w where "w = take (k - ?n - 1) (home_writes s)"
  have im: "disk_image s k = apply_writes (apply_writes (disk s) (log_writes s @ [(?a, new_head s)])) w"
    using k by (simp add: disk_image_def commit_writes_def w_def take_Cons')
  have sub: "fst ` set w \<subseteq> fst ` set (home_writes s)" unfolding w_def using set_take_subset by fast
  then have "?a \<notin> fst ` set w" using head_untouched(2) [OF ready] by blast
  then show "disk_image s k ?a = new_head s" by (simp add: im apply_writes_other)
  show "disk_image s k (log_block s i) = bview s (lh_block (lh s) ! i)" if i: "i < ?n"
  proof -
    have "log_block s i \<notin> fst ` set (home_writes s)"
      unfolding fst_writes using commit_geometry(3) [OF ready i] commit_geometry(8) [OF ready] by auto
    then have "log_block s i \<notin> fst ` set w" using sub by blast
    then show ?thesis unfolding im apply_writes_other using log_data [OF ready i] apply_writes_other by metis
  qed
  show "apply_writes (disk_image s k) (home_writes s) bn = bview s bn" if out: "\<not> in_log s bn"
  proof (cases "bn \<in> set (logged s)")
    case False
    then have "bn \<notin> fst ` set w" using sub unfolding fst_writes set_logged [OF ready] by blast
    then have "disk_image s k bn = disk s bn"
      using log_writes_outside(1) [OF ready out] log_writes_outside(2) [OF ready out, where k = ?n] by (simp add: im apply_writes_other)
    moreover have "bview s bn = disk s bn" using False ready unfolding commit_ready_def by blast
    ultimately show ?thesis using False by (simp add: home_new [OF ready])
  qed (simp add: home_new [OF ready])
qed

lemma image_done:
  assumes ready: "commit_ready s"
  shows "disk_image s (2 * nat (lh_n (lh s)) + 2) (log_start (log s)) = end_head s"
    "\<not> in_log s bn \<Longrightarrow> disk_image s (2 * nat (lh_n (lh s)) + 2) bn = bview s bn"
proof -
  let ?n = "nat (lh_n (lh s))" and ?a = "log_start (log s)"
  have im: "disk_image s (2 * ?n + 2) = (apply_writes (disk_image s (Suc ?n)) (home_writes s))(?a := end_head s)"
    by (simp add: disk_image_def commit_writes_def)
  show "disk_image s (2 * ?n + 2) ?a = end_head s" by (simp only: im fun_upd_same)
  show "disk_image s (2 * ?n + 2) bn = bview s bn" if "\<not> in_log s bn"
    unfolding im using image_committed(3) [OF ready, of "Suc ?n"] log_writes_outside(1) [OF ready that] that by simp
qed

text \<open>What recovery makes of an image.\<close>

lemma boot_recovers:
  assumes r: "length (bufs r) = NBUF" "\<forall>b \<in> set (bufs r). b_dev b = 0 \<and> b_refcnt b = 0"
      "length (lh_block (lh r)) = LOGSIZE" "sb_logstart sb = a"
    and hdr: "hdr_n (disk r a) = int k" "k \<le> LOGSIZE"
    and home: "\<forall>i < k. \<forall>j < k. a + of_nat i + 1 \<noteq> hdr_block (disk r a) j"
  shows "\<exists>u. initlog ROOTDEV sb (binit r) = Ok () u \<and> bc_inv u \<and> bview u = disk u \<and> hdr_n (disk u a) = 0 \<and>
    lh_n (lh u) = 0 \<and> (\<forall>bn. bn \<noteq> a \<longrightarrow>
      disk u bn = apply_writes (disk r) (map (\<lambda>i. (hdr_block (disk r a) i, disk r (a + of_nat i + 1))) [0..<k]) bn)"
proof -
  note b = binit_inv [OF r(1,2)]
  define s where "s = (binit r)\<lparr>log := (log (binit r))\<lparr>log_start := sb_logstart sb, log_size := sint (sb_nlog sb),
    log_dev := ROOTDEV\<rparr>\<rparr>"
  have br: "disk (binit r) = disk r" "log (binit r) = log r" by (subst b(5), simp)+
  have s: "bc_inv s" "babs s = babs (binit r)" "disk s = disk r" "log_start (log s) = a" "log_dev (log s) = ROOTDEV"
    "lh s = lh r" "log_block s i = a + of_nat i + 1" for i
    using b(1) br r(4) by (simp_all add: s_def lh_def log_block_def)
  have c: "cold (babs s)" unfolding s(2) cold_def using b(2-4) br(1) by simp
  obtain u d where u: "recover_from_log s = Ok () u" "bc_inv u" "cold (babs u)" "lh_n (lh u) = 0"
    "disk u = (apply_writes (disk r) (map (\<lambda>i. (hdr_block (disk r a) i, disk r (a + of_nat i + 1))) [0..<k]))
       (a := put_at 0 (bytes_of_word 4 (0 :: uint32)) d)"
    using recover_spec [OF s(1,5) c, of k] hdr home r(3) by (auto simp: s(3,4,6,7))
  have "initlog ROOTDEV sb (binit r) = Ok () u"
    using u(1) by (simp add: initlog_def s_def BSIZE_def LOGSIZE_def)
  then show ?thesis using u(2-5) hdr_n_clear by (auto simp: cold_def)
qed

end
