(* ===== verification/LogTrans.thy ===== *)
theory LogTrans
  imports LogCrash
begin

text \<open>
  Transactions of kernel/log.c: what one logged write does to a state that is ready to commit, and the
  properties of the log.
\<close>

section \<open>Writing a block in a transaction\<close>

text \<open>The pattern every file-system update follows.\<close>

definition update_block :: "uint32 \<Rightarrow> uint8 list \<Rightarrow> 'a log_st_scheme \<Rightarrow> (unit, 'a log_st_scheme) res" where
  "update_block bn d s =
     bindR (bread ROOTDEV bn s) (\<lambda>i s. bindR (log_write i (set_data i d s)) (\<lambda>_ s. brelse i s))"

lemma bframe_fields: "bframe s t \<Longrightarrow> log_st.more t = log_st.more s" "bframe s t \<Longrightarrow> log t = log s"
  by (auto simp: bframe_def)

text \<open>What the log and the cache together leave alone.\<close>

definition lframe :: "'a log_st_scheme \<Rightarrow> 'a log_st_scheme \<Rightarrow> bool" where
  "lframe s t \<longleftrightarrow> mypid t = mypid s \<and>
     (\<exists>ps bs l d w g. t = s\<lparr>procs := ps, bufs := bs, lru := l, disk := d, dlog := w, log := g\<rparr>)"

lemma lframe_fields:
  assumes "lframe s t"
  shows "log_st.more t = log_st.more s" "mem t = mem s" "mypid t = mypid s" "hart t = hart s" "cpus t = cpus s"
  using assms by (auto simp: lframe_def)

lemma lframe_trans: "lframe s t \<Longrightarrow> lframe t u \<Longrightarrow> lframe s u"
  unfolding lframe_def by (elim conjE exE, intro conjI, simp)
    (rule exI, rule exI, rule exI, rule exI, rule exI, rule exI, simp)

lemma bframe_lframe: "bframe s t \<Longrightarrow> lframe s t"
  unfolding bframe_def lframe_def
  by (elim conjE exE, intro conjI, simp)
    (rule exI, rule exI, rule exI, rule exI, rule exI, rule exI [of _ "log s"], simp)

lemma lframe_log: "lframe s (s\<lparr>log := l\<rparr>)"
proof -
  have "mypid (s\<lparr>log := l\<rparr>) = mypid s"
    by (simp add: mypid_def myproc_def mycpu_def cpuid_def split: option.splits)
  moreover have "s\<lparr>log := l\<rparr> = s\<lparr>procs := procs s, bufs := bufs s, lru := lru s, disk := disk s, dlog := dlog s, log := l\<rparr>"
    by simp
  ultimately show ?thesis unfolding lframe_def by blast
qed

lemma lframe_refl [simp]: "lframe s s"
  using lframe_log [of s "log s"] by simp

text \<open>\<open>log_write\<close> on a held buffer: a block that is already logged is absorbed, a new one is pinned and
  appended.\<close>

lemma log_write_spec:
  assumes inv: "bc_inv s" and h: "bhold s bn i" and out: "1 \<le> log_outstanding (log s)"
    and n: "0 \<le> lh_n (lh s)" "lh_n (lh s) < int LOGSIZE" "lh_n (lh s) < log_size (log s) - 1"
    and len: "length (lh_block (lh s)) = LOGSIZE" and small: "bref s bn < 2 ^ 32 - 1"
  shows "\<exists>t. log_write i s = Ok () t \<and> bc_inv t \<and> bhold t bn i \<and> log t = (log s)\<lparr>log_lh := lh t\<rparr> \<and>
    length (lh_block (lh t)) = LOGSIZE \<and> 0 \<le> lh_n (lh t) \<and> lframe s t \<and>
    (if bn \<in> set (logged s) then lh t = lh s \<and> babs t = babs s
     else lh_n (lh t) = lh_n (lh s) + 1 \<and> logged t = logged s @ [bn] \<and>
       babs t = (babs s)\<lparr>cv_ref := (bref s)(bn := Suc (bref s bn))\<rparr>)"
proof (cases "bn \<in> set (logged s)")
  case True
  have b: "b_blockno (buf_at s i) = bn" using bhold_slot(3) [OF inv h] by (simp add: is_block_def)
  obtain j where j: "find_slot (\<lambda>x. x = bn) (logged s) = Some j" using find_slot_ex [of "logged s" "\<lambda>x. x = bn"] True by auto
  then have "j < length (logged s)" "logged s ! j = bn" using find_slot_SomeD [OF j] by auto
  then have "(lh_block (lh s))[j := bn] = lh_block (lh s)" by (metis length_take list_update_id logged_def min_less_iff_conj nth_take)
  then have "log_write i s = Ok () (set_lh (lh s) s)"
    using n out j b by (simp add: log_write_def logged_def Let_def)
  moreover have "set_lh (lh s) s = s" by (simp add: set_lh_def lh_def)
  ultimately show ?thesis using True inv h len n(1) lframe_refl [of s] by (intro exI [of _ s]) (simp add: lh_def)
next
  case False
  have b: "b_blockno (buf_at s i) = bn" using bhold_slot(3) [OF inv h] by (simp add: is_block_def)
  define hd where "hd = (lh s)\<lparr>lh_n := lh_n (lh s) + 1, lh_block := (lh_block (lh s))[nat (lh_n (lh s)) := bn]\<rparr>"
  define t where "t = bpin i (set_lh hd s)"
  have none: "find_slot (\<lambda>x. x = bn) (logged s) = None" using False by (auto simp: find_slot_None)
  then have "log_write i s = Ok () t"
    using n out b by (simp add: log_write_def logged_def Let_def t_def hd_def)
  moreover have p: "bc_inv t \<and> bframe (set_lh hd s) t \<and> (\<forall>x j. bhold (set_lh hd s) x j \<longrightarrow> bhold t x j) \<and>
    babs t = (babs (set_lh hd s))\<lparr>cv_ref := (cv_ref (babs (set_lh hd s)))(bn := Suc (cv_ref (babs (set_lh hd s)) bn))\<rparr>"
    unfolding t_def using inv h small by (intro bpin_babs) simp_all
  moreover have lt: "lh t = hd" "log t = (log s)\<lparr>log_lh := hd\<rparr>"
    using p bframe_fields(2) [of "set_lh hd s" t] by (simp_all add: lh_def set_lh_def)
  moreover have "logged t = logged s @ [bn]"
  proof -
    have sn: "nat (lh_n (lh s) + 1) = Suc (nat (lh_n (lh s)))" using n(1) by simp
    show ?thesis unfolding logged_def lt(1) hd_def using n len by (simp add: sn take_Suc_conv_app_nth)
  qed
  moreover have "lframe s t" using lframe_trans [OF lframe_log bframe_lframe] p unfolding set_lh_def by blast
  ultimately show ?thesis using False h len n(1) by (intro exI [of _ t]) (simp add: hd_def)
qed

lemma update_block_spec:
  assumes ready: "commit_ready s" and bn: "\<not> in_log s bn" "\<not> block_locked s bn" "bref s bn < 2 ^ 32 - 2"
    and out: "1 \<le> log_outstanding (log s)"
    and n: "lh_n (lh s) < int LOGSIZE" "lh_n (lh s) < log_size (log s) - 1"
    and room: "card (insert bn {x. 0 < bref s x}) < NBUF"
  shows "\<exists>t. update_block bn d s = Ok () t \<and> commit_ready t \<and> disk t = disk s \<and> dlog t = dlog s \<and>
    bview t = (bview s)(bn := d) \<and> set (logged t) = insert bn (set (logged s)) \<and> log t = (log s)\<lparr>log_lh := lh t\<rparr> \<and>
    block_locked t = block_locked s \<and> lframe s t \<and>
    bref t = (bref s)(bn := bref s bn + (if bn \<in> set (logged s) then 0 else 1))"
proof -
  let ?U = "{x. 0 < bref s x}"
  have rd: "bc_inv s" "0 \<le> lh_n (lh s)" "length (lh_block (lh s)) = LOGSIZE" "\<forall>x \<in> set (logged s). 0 < bref s x"
    using ready unfolding commit_ready_def by blast+
  have fin: "finite ?U" by (rule finite_refs [OF rd(1)])
  have "room_for (babs s) {bn}" using fin room bn(3) by (simp add: room_for_def)
  then obtain i s1 where s1: "bread ROOTDEV bn s = Ok i s1" "bc_inv s1" "bframe s s1" "bhold s1 bn i"
    "babs s1 = (babs s)\<lparr>cv_ref := (bref s)(bn := Suc (bref s bn)), cv_lock := (block_locked s)(bn := True)\<rparr>"
    using bread_babs [OF rd(1), of bn] bn(2) by auto
  define s2 where "s2 = set_data i d s1"
  have s2: "bc_inv s2" "bframe s1 s2" "bhold s2 bn i" "babs s2 = (babs s1)\<lparr>cv_data := (cv_data (babs s1))(bn := d)\<rparr>"
    using set_data_babs [OF s1(2,4), of d] s1(4) unfolding s2_def by blast+
  have l2: "log s2 = log s" "lh s2 = lh s" "logged s2 = logged s"
    using bframe_fields(2) [OF s1(3)] bframe_fields(2) [OF s2(2)] by (simp_all add: lh_def logged_def)
  have v2: "babs s2 = (babs s)\<lparr>cv_data := (bview s)(bn := d), cv_ref := (bref s)(bn := Suc (bref s bn)),
      cv_lock := (block_locked s)(bn := True)\<rparr>" unfolding s2(4) s1(5) by simp
  have r2: "bref s2 = (bref s)(bn := Suc (bref s bn))" using arg_cong [OF v2, of cv_ref] by simp
  obtain s3 where s3: "log_write i s2 = Ok () s3" "bc_inv s3" "bhold s3 bn i" "log s3 = (log s)\<lparr>log_lh := lh s3\<rparr>"
    "length (lh_block (lh s3)) = LOGSIZE" "0 \<le> lh_n (lh s3)" "lframe s2 s3"
    "if bn \<in> set (logged s) then lh s3 = lh s \<and> babs s3 = babs s2
     else lh_n (lh s3) = lh_n (lh s) + 1 \<and> logged s3 = logged s @ [bn] \<and>
       babs s3 = (babs s2)\<lparr>cv_ref := (bref s2)(bn := Suc (bref s2 bn))\<rparr>"
    using log_write_spec [OF s2(1,3)] out rd(2,3) n bn(3) l2 r2 by auto
  define new where "new = (if bn \<in> set (logged s) then 0 else 1 :: nat)"
  have v3: "babs s3 = (babs s2)\<lparr>cv_ref := (bref s)(bn := Suc (bref s bn) + new)\<rparr>"
    using s3(8) r2 v2 by (auto simp: new_def split: if_splits)
  have "cv_ref (babs s3) bn \<noteq> 1"
    using rd(4) unfolding v3 by (auto simp: new_def)
  then obtain t where t: "brelse i s3 = Ok () t" "bc_inv t" "bframe s3 t"
    "babs t = (babs s3)\<lparr>cv_ref := (cv_ref (babs s3))(bn := cv_ref (babs s3) bn - 1), cv_lock := (cv_lock (babs s3))(bn := False)\<rparr>"
    using brelse_babs [OF s3(2,3)] by blast
  have vt: "babs t = (babs s)\<lparr>cv_data := (bview s)(bn := d), cv_ref := (bref s)(bn := bref s bn + new)\<rparr>"
    unfolding t(4) v3 v2 using bn(2) by (simp add: fun_upd_idem)
  have lt0: "lh t = lh s3" "logged t = logged s3"
    using bframe_fields(2) [OF t(3)] by (simp_all add: lh_def logged_def)
  have lt3: "log t = (log s)\<lparr>log_lh := lh t\<rparr>"
    using bframe_fields(2) [OF t(3)] s3(4) lt0(1) by metis
  note lt = lt0 lt3
  have lgd: "set (logged t) = insert bn (set (logged s))" "distinct (logged t)"
    "lh_n (lh t) = lh_n (lh s) + int new"
    using s3(8) ready unfolding lt(1,2) by (auto simp: new_def logged_def commit_ready_def split: if_splits)
  have view: "disk t = disk s" "dlog t = dlog s" "bview t = (bview s)(bn := d)" "block_locked t = block_locked s"
    "bref t = (bref s)(bn := bref s bn + new)"
    using arg_cong [OF vt, of cv_disk] arg_cong [OF vt, of cv_writes] arg_cong [OF vt, of cv_data]
      arg_cong [OF vt, of cv_lock] arg_cong [OF vt, of cv_ref] by simp_all
  have "{x. 0 < bref t x} \<subseteq> insert bn ?U" unfolding view(5) by auto
  then have "card {x. 0 < bref t x} \<le> card (insert bn ?U)" using fin by (intro card_mono) auto
  then have card: "card {x. 0 < bref t x} < NBUF" using room by simp
  have in_log: "in_log t = in_log s" using lt(3) by (simp add: in_log_def fun_eq_iff)
  have pinned: "0 < bref t x" if "x \<in> set (logged t)" for x
    using that rd(4) unfolding lgd(1) view(5) by (auto simp: new_def)
  have fields: "log_dev (log t) = log_dev (log s)" "log_size (log t) = log_size (log s)" using lt(3) by simp_all
  have "bref t x < 2 ^ 32 - 1 \<and> \<not> block_locked t x" if "x \<in> set (logged t) \<or> in_log t x" for x
    using that ready bn(2,3) unfolding lgd(1) in_log view(4,5) commit_ready_def by (auto simp: new_def)
  moreover have "bview t x = disk t x" if "x \<notin> set (logged t)" for x
    using that ready unfolding lgd(1) view(1,3) commit_ready_def by auto
  moreover have "\<not> in_log t x" if "x \<in> set (logged t)" for x
    using that ready bn(1) unfolding lgd(1) in_log commit_ready_def by auto
  moreover have "0 \<le> lh_n (lh t)" "lh_n (lh t) \<le> int LOGSIZE" "lh_n (lh t) < log_size (log t)" "log_size (log t) < 2 ^ 31"
    "log_dev (log t) = ROOTDEV" "length (lh_block (lh t)) = LOGSIZE"
    using ready n s3(5,6) lgd(3) unfolding fields lt(1) commit_ready_def by (auto simp: new_def)
  ultimately have "commit_ready t"
    unfolding commit_ready_def using t(2) lgd(2) card pinned by blast
  moreover have "update_block bn d s = Ok () t"
    using s1(1) s3(1) t(1) by (simp add: update_block_def s2_def)
  moreover have "lframe s t"
    using bframe_lframe [OF s1(3)] bframe_lframe [OF s2(2)] s3(7) bframe_lframe [OF t(3)] lframe_trans by metis
  ultimately show ?thesis using view lgd(1) lt(3) unfolding new_def by blast
qed

text \<open>\<open>end_op\<close> of the last outstanding call.\<close>

lemma commit_ready_log:
  assumes "commit_ready s" "log_start l = log_start (log s)" "log_size l = log_size (log s)" "log_dev l = log_dev (log s)"
    "log_lh l = log_lh (log s)"
  shows "commit_ready (s\<lparr>log := l\<rparr>)" "commit_writes (s\<lparr>log := l\<rparr>) = commit_writes s"
    "logged (s\<lparr>log := l\<rparr>) = logged s" "in_log (s\<lparr>log := l\<rparr>) = in_log s" "lh (s\<lparr>log := l\<rparr>) = lh s"
proof -
  let ?t = "s\<lparr>log := l\<rparr>"
  show lh: "lh ?t = lh s" and lg: "logged ?t = logged s" and il: "in_log ?t = in_log s"
    using assms(2-5) by (simp_all add: lh_def logged_def in_log_def fun_eq_iff)
  have v: "bview ?t = bview s" "bref ?t = bref s" "block_locked ?t = block_locked s"
    using babs_log(1) [where s = s and x = l] by (simp_all add: babs_def)
  show "commit_ready ?t" using assms(1) unfolding commit_ready_def lg il lh v using assms(2-5) by simp
  have "log_block ?t = log_block s" using assms(2) by (simp add: log_block_def fun_eq_iff)
  then show "commit_writes ?t = commit_writes s"
    unfolding commit_writes_def log_writes_def home_writes_def new_head_def end_head_def lh v using assms(2) by simp
qed

lemma commit_writes_outside:
  assumes "commit_ready s" "\<not> in_log s bn"
  shows "apply_writes d (commit_writes s) bn = (if bn \<in> set (logged s) then bview s bn else d bn)"
  using log_writes_outside(1) [OF assms] log_writes_outside(2) [OF assms, of _ "length (log_writes s)"]
  by (simp add: commit_writes_def home_new [OF assms(1)])

lemma commit_durable:
  assumes ready: "commit_ready s"
  shows "\<exists>t. commit s = Ok () t \<and> bc_inv t \<and> log t = (log s)\<lparr>log_lh := (lh s)\<lparr>lh_n := 0\<rparr>\<rparr> \<and>
    (\<forall>bn. \<not> in_log s bn \<longrightarrow> disk t bn = bview s bn \<and> bview t bn = bview s bn) \<and>
    bref t = (\<lambda>x. bref s x - (if x \<in> set (logged s) then 1 else 0))"
proof (cases "0 < lh_n (lh s)")
  case True
  obtain t where t: "commit s = Ok () t" "bc_inv t" "log t = (log s)\<lparr>log_lh := (lh s)\<lparr>lh_n := 0\<rparr>\<rparr>"
    "babs t = (with_writes (commit_writes s) (babs s))\<lparr>cv_ref := \<lambda>x. bref s x - (if x \<in> set (logged s) then 1 else 0)\<rparr>"
    using commit_spec [OF ready True] by blast
  have v: "cv_disk (babs t) = apply_writes (disk s) (commit_writes s)" "cv_data (babs t) = apply_writes (bview s) (commit_writes s)"
    "cv_ref (babs t) = (\<lambda>x. bref s x - (if x \<in> set (logged s) then 1 else 0))" unfolding t(4) by simp_all
  have "bn \<notin> set (logged s) \<Longrightarrow> disk s bn = bview s bn" for bn using ready unfolding commit_ready_def by simp
  then show ?thesis using t(1-3) v commit_writes_outside [OF ready] by auto
next
  case False
  then have n: "lh_n (lh s) = 0" using ready unfolding commit_ready_def by simp
  then have "logged s = []" "(lh s)\<lparr>lh_n := 0\<rparr> = lh s" by (simp_all add: logged_def)
  moreover from this have "\<forall>bn. bview s bn = disk s bn" using ready unfolding commit_ready_def by simp
  ultimately show ?thesis using ready n by (intro exI [of _ s]) (simp add: commit_def commit_ready_def, simp add: lh_def)
qed

text \<open>A machine with an empty log of 30 blocks from block 2 on, as mkfs lays it out, and one call running.\<close>

definition reset_log :: "(uint32 \<Rightarrow> uint8 list) \<Rightarrow> log_st" where
  "reset_log d = bio_st.extend (reset_bio d) (log_st.fields \<lparr>log_start = 2, log_size = 30, log_outstanding = 1,
     log_committing = False, log_dev = ROOTDEV, log_lh = \<lparr>lh_n = 0, lh_block = replicate LOGSIZE 0\<rparr>\<rparr>)"

text \<open>The superblock that mkfs writes for a disk of \<open>FSSIZE\<close> = 2000 blocks.\<close>

definition small_sb :: superblock where
  "small_sb = \<lparr>sb_magic = 0x10203040, sb_size = 2000, sb_nblocks = 1954, sb_ninodes = 200, sb_nlog = 30,
     sb_logstart = 2, sb_inodestart = 32, sb_bmapstart = 45\<rparr>"

lemma reset_log_fields [simp]:
  "bufs (reset_log d) = replicate NBUF zero_buf" "disk (reset_log d) = d" "lh (reset_log d) = \<lparr>lh_n = 0, lh_block = replicate LOGSIZE 0\<rparr>"
  "log_start (log (reset_log d)) = 2" "log_size (log (reset_log d)) = 30" "log_dev (log (reset_log d)) = ROOTDEV"
  "log_outstanding (log (reset_log d)) = 1" "log_committing (log (reset_log d)) = False" "dlog (reset_log d) = []"
  by (simp_all add: reset_log_def bio_st.extend_def log_st.fields_def reset_bio_def lh_def)

lemma reset_log_ready:
  "commit_ready (binit (reset_log d))" "bview (binit (reset_log d)) = d" "bref (binit (reset_log d)) = (\<lambda>_. 0)"
  "block_locked (binit (reset_log d)) = (\<lambda>_. False)" "disk (binit (reset_log d)) = d" "log (binit (reset_log d)) = log (reset_log d)"
  "dlog (binit (reset_log d)) = []"
proof -
  have r: "length (bufs (reset_log d)) = NBUF" "\<forall>b \<in> set (bufs (reset_log d)). b_dev b = 0 \<and> b_refcnt b = 0"
    by (simp_all add: zero_buf_def)
  note b = binit_inv [OF r]
  show v: "bview (binit (reset_log d)) = d" "bref (binit (reset_log d)) = (\<lambda>_. 0)"
    "block_locked (binit (reset_log d)) = (\<lambda>_. False)" using b(2-4) by (auto simp: fun_eq_iff)
  show l: "disk (binit (reset_log d)) = d" "log (binit (reset_log d)) = log (reset_log d)"
    "dlog (binit (reset_log d)) = []" by (subst b(5), simp)+
  have "lh (binit (reset_log d)) = lh (reset_log d)" using l(2) by (simp add: lh_def)
  then show "commit_ready (binit (reset_log d))"
    unfolding commit_ready_def logged_def using b(1) v l by (simp add: LOGSIZE_def NBUF_def)
qed

lemma reset_log_outside: "\<not> in_log (binit (reset_log d)) 45"
proof
  assume "in_log (binit (reset_log d)) 45"
  then obtain i :: nat where i: "i < 30" "(45 :: uint32) = 2 + of_nat i" by (auto simp: in_log_def reset_log_ready(6))
  then have "(of_nat 43 :: uint32) = of_nat i" by (simp add: algebra_simps)
  then have "43 = i" using of_nat_inj32 [of 43 i] i(1) by simp
  then show False using i(1) by simp
qed

text \<open>One logged write to block 45 of that machine.\<close>

lemma reset_log_update:
  "\<exists>t. update_block 45 (replicate BSIZE 7) (binit (reset_log d)) = Ok () t \<and> commit_ready t \<and> disk t = d \<and> dlog t = [] \<and>
    bview t = d(45 := replicate BSIZE 7) \<and> set (logged t) = {45} \<and> log_start (log t) = 2 \<and> lh_n (lh t) = 1 \<and>
    log_outstanding (log t) = 1 \<and> \<not> log_committing (log t) \<and> log_size (log t) = 30 \<and> block_locked t = (\<lambda>_. False)"
proof -
  let ?s = "binit (reset_log d)"
  have lh: "lh ?s = lh (reset_log d)" using reset_log_ready(6) by (simp add: lh_def)
  note nl = reset_log_outside [of d]
  obtain t where t: "update_block 45 (replicate BSIZE 7) ?s = Ok () t" "commit_ready t" "disk t = d" "dlog t = dlog ?s"
    "bview t = d(45 := replicate BSIZE 7)" "set (logged t) = insert 45 (set (logged ?s))" "log t = (log ?s)\<lparr>log_lh := lh t\<rparr>"
    "block_locked t = (\<lambda>_. False)"
    using update_block_spec [OF reset_log_ready(1) nl, where d = "replicate BSIZE 7"]
    by (auto simp: reset_log_ready lh NBUF_def LOGSIZE_def)
  have "logged ?s = []" by (simp add: logged_def lh)
  then have s45: "set (logged t) = {45}" using t(6) by simp
  have "length (logged t) = 1" using s45 t(2) distinct_card [of "logged t"] unfolding commit_ready_def by simp
  moreover have "length (logged t) = nat (lh_n (lh t))" using t(2) unfolding commit_ready_def by (auto simp: logged_def)
  ultimately have "lh_n (lh t) = 1" by simp
  moreover have "dlog ?s = []" by (rule reset_log_ready(7))
  ultimately show ?thesis using t s45 reset_log_ready(6) by simp
qed

section \<open>Properties\<close>

text \<open>C1: crash safety of the log. A commit returns, and its disk writes are the log blocks, the header,
  the home blocks and the cleared header, in this order. Suppose the machine stops after any number \<open>k\<close>
  of these writes and boots again with an empty cache (\<open>binit\<close>) and the same log area. Then \<open>initlog\<close>
  returns, and the blocks outside the log all have their contents from before the transaction when the
  header had not been written (\<open>k \<le> n\<close>), and all have those of the transaction otherwise; the log is
  empty again.\<close>

theorem commit_crash_safe:
  fixes s :: "'a log_st_scheme" and r :: "'b log_st_scheme"
  assumes ready: "commit_ready s" and n: "0 < lh_n (lh s)" and old: "hdr_n (disk s (log_start (log s))) = 0"
    and k: "k \<le> length (commit_writes s)"
    and boot: "length (bufs r) = NBUF" "\<forall>b \<in> set (bufs r). b_dev b = 0 \<and> b_refcnt b = 0"
      "length (lh_block (lh r)) = LOGSIZE" "disk r = apply_writes (disk s) (take k (commit_writes s))"
      "sb_logstart sb = log_start (log s)"
  shows "(\<exists>t. commit s = Ok () t \<and> dlog t = dlog s @ commit_writes s) \<and>
    (\<exists>u. initlog ROOTDEV sb (binit r) = Ok () u \<and> bview u = disk u \<and> hdr_n (disk u (log_start (log s))) = 0 \<and>
      (\<forall>bn. \<not> in_log s bn \<longrightarrow> disk u bn = (if k \<le> nat (lh_n (lh s)) then disk s bn else bview s bn)))"
proof
  let ?n = "nat (lh_n (lh s))" and ?a = "log_start (log s)"
  obtain t where t: "commit s = Ok () t"
    "babs t = (with_writes (commit_writes s) (babs s))\<lparr>cv_ref := \<lambda>x. bref s x - (if x \<in> set (logged s) then 1 else 0)\<rparr>"
    using commit_spec [OF ready n] by blast
  have "cv_writes (babs t) = dlog s @ commit_writes s" unfolding t(2) by simp
  then show "\<exists>t. commit s = Ok () t \<and> dlog t = dlog s @ commit_writes s" using t(1) by auto
  have im: "disk r = disk_image s k" using boot(4) by (simp add: disk_image_def)
  note go = boot_recovers [OF boot(1-3,5)]
  note a_in = log_writes_outside(1) [OF ready]
  have "k \<le> ?n \<or> ?n < k \<and> k \<le> 2 * ?n + 1 \<or> k = 2 * ?n + 2" using k by simp linarith
  then consider (before) "k \<le> ?n" | (committed) "?n < k" "k \<le> 2 * ?n + 1" | (finished) "k = 2 * ?n + 2" by blast
  then show "\<exists>u. initlog ROOTDEV sb (binit r) = Ok () u \<and> bview u = disk u \<and> hdr_n (disk u ?a) = 0 \<and>
      (\<forall>bn. \<not> in_log s bn \<longrightarrow> disk u bn = (if k \<le> ?n then disk s bn else bview s bn))"
  proof cases
    case before
    note i = image_before [OF ready before]
    show ?thesis using go [of 0] i old before a_in by (auto simp: im)
  next
    case committed
    note i = image_committed [OF ready committed] and h = new_head_get [OF ready]
    have lb: "log_block s i = ?a + of_nat i + 1" for i by (simp add: log_block_def)
    have "?n \<le> LOGSIZE" "int ?n = lh_n (lh s)" using commit_geometry(1) [OF ready] n by simp_all
    moreover have "\<forall>i < ?n. \<forall>j < ?n. ?a + of_nat i + 1 \<noteq> hdr_block (disk r ?a) j"
      using commit_geometry(3,8) [OF ready] h(2) i(1) unfolding im lb [symmetric] by metis
    moreover have "map (\<lambda>i. (hdr_block (disk r ?a) i, disk r (?a + of_nat i + 1))) [0..<?n] = home_writes s"
      unfolding im i(1) lb [symmetric] home_writes_def using h(2) i(2) by simp
    ultimately obtain u where "initlog ROOTDEV sb (binit r) = Ok () u" "bview u = disk u" "hdr_n (disk u ?a) = 0"
      "\<forall>bn. bn \<noteq> ?a \<longrightarrow> disk u bn = apply_writes (disk_image s k) (home_writes s) bn"
      using go [of ?n] h(1) i(1) im by auto
    then show ?thesis using i(3) committed(1) a_in by auto
  next
    case finished
    note i = image_done [OF ready, folded finished]
    have "hdr_n (disk r ?a) = int 0" unfolding im i(1) end_head_def using hdr_n_clear by simp
    then show ?thesis using go [of 0] i finished a_in by (auto simp: im)
  qed
qed

theorem commit_crash_safe_witness:
  "\<exists>(s :: log_st) t. commit_ready s \<and> commit s = Ok () t \<and> (\<exists>u. initlog ROOTDEV small_sb
      (binit (reset_log (apply_writes (\<lambda>_. replicate BSIZE 0) (take 2 (commit_writes s))))) = Ok () u \<and>
      disk u 45 = replicate BSIZE 7)"
proof -
  let ?d = "\<lambda>_ :: uint32. replicate BSIZE (0 :: uint8)"
  obtain s :: log_st where s: "commit_ready s" "disk s = ?d" "bview s = ?d(45 := replicate BSIZE 7)" "set (logged s) = {45}"
    "log_start (log s) = 2" "lh_n (lh s) = 1" using reset_log_update [of ?d] by blast
  have h0: "hdr_n (replicate BSIZE 0) = 0"
    by (simp add: hdr_n_def get32_def BSIZE_def numeral_eq_Suc)
  have "\<not> in_log s 45" using s(1,4) unfolding commit_ready_def by simp
  moreover have "length (commit_writes s) = 4" using s(6) by simp
  ultimately show ?thesis
    using commit_crash_safe [OF s(1), of 2 "reset_log (apply_writes ?d (take 2 (commit_writes s)))"
        small_sb] s h0
    by (auto simp: zero_buf_def small_sb_def)
qed

text \<open>C3: one file-system update (\<open>bread\<close>, change the data, \<open>log_write\<close>, \<open>brelse\<close>) inside a
  transaction returns. Afterwards the cache shows the new contents and the disk is untouched; the block is
  in the log exactly once, also when it was there before (absorption); and the state is again one the last
  \<open>end_op\<close> can commit.\<close>

theorem logged_update:
  assumes "commit_ready s" "\<not> in_log s bn" "\<not> block_locked s bn" "bref s bn < 2 ^ 32 - 2"
    and "1 \<le> log_outstanding (log s)" "lh_n (lh s) < int LOGSIZE" "lh_n (lh s) < log_size (log s) - 1"
    and "card (insert bn {x. 0 < bref s x}) < NBUF"
  shows "\<exists>t. bindR (bread ROOTDEV bn s) (\<lambda>i s. bindR (log_write i (set_data i d s)) (\<lambda>_ s. brelse i s)) = Ok () t \<and>
    commit_ready t \<and> disk t = disk s \<and> dlog t = dlog s \<and> bview t = (bview s)(bn := d) \<and>
    distinct (logged t) \<and> set (logged t) = insert bn (set (logged s))"
proof -
  obtain t where t: "update_block bn d s = Ok () t" "commit_ready t" "disk t = disk s" "dlog t = dlog s"
    "bview t = (bview s)(bn := d)" "set (logged t) = insert bn (set (logged s))"
    using update_block_spec [OF assms, of d] by blast
  moreover have "distinct (logged t)" using t(2) unfolding commit_ready_def by blast
  ultimately show ?thesis unfolding update_block_def by blast
qed

theorem logged_update_witness:
  "\<exists>t. bindR (bread ROOTDEV 45 (binit (reset_log (\<lambda>_. replicate BSIZE 0))))
      (\<lambda>i s. bindR (log_write i (set_data i (replicate BSIZE 8) s)) (\<lambda>_ s. brelse i s)) = Ok () t \<and>
    disk t 45 = replicate BSIZE 0 \<and> bview t 45 = replicate BSIZE 8 \<and> set (logged t) = {45}"
proof -
  let ?s = "binit (reset_log (\<lambda>_. replicate BSIZE 0))"
  have lh: "lh (binit (reset_log d)) = lh (reset_log d)" for d using reset_log_ready(6) by (simp add: lh_def)
  then have "logged ?s = []" by (simp add: logged_def)
  then show ?thesis
    using logged_update [OF reset_log_ready(1) reset_log_outside, of "\<lambda>_. replicate BSIZE 0" "replicate BSIZE 8"] lh
    by (auto simp: reset_log_ready NBUF_def LOGSIZE_def)
qed

text \<open>C2: the \<open>end_op\<close> of the last outstanding call makes the transaction durable: it returns, every
  block outside the log then has its current contents on the disk, the log is empty, no commit is running,
  and the pins that \<open>log_write\<close> took are given back. With other calls outstanding it only counts down.\<close>

theorem end_op_durable:
  assumes "commit_ready s" "\<not> log_committing (log s)"
  shows "\<exists>t. end_op s = Ok () t \<and>
    (if log_outstanding (log s) = 1
     then (\<forall>bn. \<not> in_log s bn \<longrightarrow> disk t bn = bview s bn \<and> bview t bn = bview s bn) \<and>
       lh_n (lh t) = 0 \<and> \<not> log_committing (log t) \<and> log_outstanding (log t) = 0 \<and>
       bref t = (\<lambda>x. bref s x - (if x \<in> set (logged s) then 1 else 0))
     else disk t = disk s \<and> bview t = bview s \<and> log t = (log s)\<lparr>log_outstanding := log_outstanding (log s) - 1\<rparr>)"
proof (cases "log_outstanding (log s) = 1")
  case True
  define l where "l = (log s)\<lparr>log_outstanding := 0, log_committing := True\<rparr>"
  note r = commit_ready_log [OF assms(1), of l]
  obtain t where t: "commit (s\<lparr>log := l\<rparr>) = Ok () t" "log t = l\<lparr>log_lh := (lh s)\<lparr>lh_n := 0\<rparr>\<rparr>"
    "\<forall>bn. \<not> in_log s bn \<longrightarrow> disk t bn = bview s bn \<and> bview t bn = bview s bn"
    "bref t = (\<lambda>x. bref s x - (if x \<in> set (logged s) then 1 else 0))"
    using commit_durable [OF r(1)] r babs_log(1) [where s = s and x = l] by (auto simp: l_def babs_def)
  define u where "u = wakeup ChLog (t\<lparr>log := (log t)\<lparr>log_committing := False\<rparr>\<rparr>)"
  have "end_op s = Ok () u"
    using True assms(2) t(1) by (simp add: end_op_def Let_def u_def l_def)
  moreover have b: "bufs u = bufs t" "disk u = disk t" by (simp_all add: u_def)
  moreover have "log u = (log t)\<lparr>log_committing := False\<rparr>" unfolding u_def by (subst wakeup_eq) simp
  ultimately show ?thesis using True t(2-4) same_bufs(1,2) [OF b] by (auto simp: lh_def l_def fun_eq_iff)
next
  case False
  define t where "t = wakeup ChLog (s\<lparr>log := (log s)\<lparr>log_outstanding := log_outstanding (log s) - 1\<rparr>\<rparr>)"
  have "end_op s = Ok () t" using False assms(2) by (simp add: end_op_def Let_def t_def)
  moreover have b: "bufs t = bufs s" "disk t = disk s" by (simp_all add: t_def)
  moreover have "log t = (log s)\<lparr>log_outstanding := log_outstanding (log s) - 1\<rparr>" unfolding t_def by (subst wakeup_eq) simp
  ultimately show ?thesis using False same_bufs(1) [OF b] by (auto simp: fun_eq_iff)
qed

theorem end_op_durable_witness:
  "\<exists>(s :: log_st) t. end_op s = Ok () t \<and> disk s 45 = replicate BSIZE 0 \<and> disk t 45 = replicate BSIZE 7 \<and> lh_n (lh t) = 0"
proof -
  let ?d = "\<lambda>_ :: uint32. replicate BSIZE (0 :: uint8)"
  obtain s :: log_st where s: "commit_ready s" "disk s = ?d" "bview s = ?d(45 := replicate BSIZE 7)" "set (logged s) = {45}"
    "log_outstanding (log s) = 1" "\<not> log_committing (log s)" using reset_log_update [of ?d] by blast
  have "\<not> in_log s 45" using s(1,4) unfolding commit_ready_def by simp
  then show ?thesis using end_op_durable [OF s(1,6)] s(2,3,5) by fastforce
qed

end
