(* ===== verification/Fs.thy ===== *)
theory Fs
  imports LogTrans
begin

text \<open>
  kernel/fs.c, first part, with kernel/fs.h, kernel/stat.h and the inode of kernel/file.h: the super
  block, the block allocator on the on-disk bitmap, the inode table and the contents of a file. Directories
  and path names are in Dir.

  On-disk structures are bytes of a block; the codecs \<open>enc_dinode\<close>, \<open>enc_dirent\<close> and
  \<open>enc_superblock\<close> give their C layout. A pointer to an in-memory inode is its index in \<open>itable\<close>. C's
  \<open>short\<close> is a 16-bit word read as signed where it is compared. The messages that \<open>balloc\<close> and
  \<open>ialloc\<close> print when the disk is full are not part of the state.

  \<open>readi\<close> also returns the bytes it handed to \<open>either_copyout\<close>; for a C object of the kernel
  (\<open>ObjDst\<close>) these are its new contents. In the loops of \<open>readi\<close> and \<open>writei\<close> the offsets are natural
  numbers: the overflow check at the start has excluded a wrap-around.
\<close>

section \<open>On-disk structures\<close>

type_synonym short = uint16

definition NDIRECT :: nat where "NDIRECT = 12"
definition NINDIRECT :: nat where "NINDIRECT = BSIZE div 4"
definition MAXFILE :: nat where "MAXFILE = NDIRECT + NINDIRECT"
definition FSMAGIC :: uint32 where "FSMAGIC = 0x10203040"
definition BPB :: nat where "BPB = BSIZE * 8"
definition IPB :: nat where "IPB = BSIZE div 64"
definition ROOTINO :: uint32 where "ROOTINO = 1"
definition T_DIR :: short where "T_DIR = 1"
definition T_FILE :: short where "T_FILE = 2"
definition T_DEVICE :: short where "T_DEVICE = 3"

record dinode =
  d_type :: short
  d_major :: short
  d_minor :: short
  d_nlink :: short
  d_size :: uint32
  d_addrs :: "uint32 list"

definition get16 :: "nat \<Rightarrow> uint8 list \<Rightarrow> uint16" where
  "get16 off d = word_of_bytes (take 2 (drop off d))"

definition enc_dinode :: "dinode \<Rightarrow> uint8 list" where
  "enc_dinode d = bytes_of_word 2 (d_type d) @ bytes_of_word 2 (d_major d) @ bytes_of_word 2 (d_minor d) @
     bytes_of_word 2 (d_nlink d) @ bytes_of_word 4 (d_size d) @ concat (map (bytes_of_word 4) (d_addrs d))"

definition dec_dinode :: "uint8 list \<Rightarrow> dinode" where
  "dec_dinode b = \<lparr>d_type = get16 0 b, d_major = get16 2 b, d_minor = get16 4 b, d_nlink = get16 6 b,
     d_size = get32 8 b, d_addrs = map (\<lambda>i. get32 (12 + 4 * i) b) [0..<13]\<rparr>"

definition enc_superblock :: "superblock \<Rightarrow> uint8 list" where
  "enc_superblock x = concat (map (bytes_of_word 4) [sb_magic x, sb_size x, sb_nblocks x, sb_ninodes x, sb_nlog x,
     sb_logstart x, sb_inodestart x, sb_bmapstart x])"

definition dec_superblock :: "uint8 list \<Rightarrow> superblock" where
  "dec_superblock b = \<lparr>sb_magic = get32 0 b, sb_size = get32 4 b, sb_nblocks = get32 8 b, sb_ninodes = get32 12 b,
     sb_nlog = get32 16 b, sb_logstart = get32 20 b, sb_inodestart = get32 24 b, sb_bmapstart = get32 28 b\<rparr>"

section \<open>State\<close>

definition NINODE :: nat where "NINODE = 50"

record inode =
  i_dev :: uint32
  i_inum :: uint32
  i_ref :: int
  i_lock :: sleeplock
  i_valid :: bool
  i_type :: short
  i_major :: short
  i_minor :: short
  i_nlink :: short
  i_size :: uint32
  i_addrs :: "uint32 list"

record fs_st = log_st +
  sb :: superblock
  itable :: "inode list"

abbreviation inode_at :: "'a fs_st_scheme \<Rightarrow> nat \<Rightarrow> inode" where
  "inode_at s ip \<equiv> itable s ! ip"

definition upd_inode :: "nat \<Rightarrow> (inode \<Rightarrow> inode) \<Rightarrow> 'a fs_st_scheme \<Rightarrow> 'a fs_st_scheme" where
  "upd_inode ip f s = s\<lparr>itable := upd_nth ip f (itable s)\<rparr>"

definition inode_lock :: "nat \<Rightarrow> 'a fs_st_scheme \<Rightarrow> sleeplock" where
  "inode_lock ip s = i_lock (inode_at s ip)"

definition upd_inode_lock :: "nat \<Rightarrow> (sleeplock \<Rightarrow> sleeplock) \<Rightarrow> 'a fs_st_scheme \<Rightarrow> 'a fs_st_scheme" where
  "upd_inode_lock ip f s = upd_inode ip (\<lambda>i. i\<lparr>i_lock := f (i_lock i)\<rparr>) s"

definition IBLOCK :: "uint32 \<Rightarrow> 'a fs_st_scheme \<Rightarrow> uint32" where
  "IBLOCK i s = of_nat (unat i div IPB) + sb_inodestart (sb s)"

definition BBLOCK :: "nat \<Rightarrow> 'a fs_st_scheme \<Rightarrow> uint32" where
  "BBLOCK b s = of_nat (b div BPB) + sb_bmapstart (sb s)"

text \<open>The data of a buffer, and the assignment to part of it.\<close>

abbreviation data_of :: "'a bio_st_scheme \<Rightarrow> nat \<Rightarrow> uint8 list" where
  "data_of s i \<equiv> b_data (buf_at s i)"

section \<open>Super block\<close>

definition readsb :: "uint32 \<Rightarrow> 'a fs_st_scheme \<Rightarrow> (superblock, 'a fs_st_scheme) res" where
  "readsb dev s =
     bindR (bread dev 1 s) (\<lambda>bp s.
       let x = dec_superblock (take 32 (data_of s bp)) in
       bindR (brelse bp s) (\<lambda>_ s. Ok x s))"

definition fsinit :: "uint32 \<Rightarrow> 'a fs_st_scheme \<Rightarrow> (unit, 'a fs_st_scheme) res" where
  "fsinit dev s =
     bindR (readsb dev s) (\<lambda>x s.
       let s = s\<lparr>sb := x\<rparr> in
       if sb_magic x \<noteq> FSMAGIC then Panic ''invalid file system'' else initlog dev x s)"

section \<open>Blocks\<close>

definition bzero :: "uint32 \<Rightarrow> uint32 \<Rightarrow> 'a fs_st_scheme \<Rightarrow> (unit, 'a fs_st_scheme) res" where
  "bzero dev bno s =
     bindR (bread dev bno s) (\<lambda>bp s.
     bindR (log_write bp (set_data bp (replicate BSIZE 0) s)) (\<lambda>_ s.
       brelse bp s))"

text \<open>Bit \<open>bi\<close> of a bitmap block: \<open>bp->data[bi/8] & (1 << bi%8)\<close>.\<close>

definition bit_mask :: "nat \<Rightarrow> uint8" where
  "bit_mask bi = push_bit (bi mod 8) 1"

definition bit_free :: "uint8 list \<Rightarrow> nat \<Rightarrow> bool" where
  "bit_free d bi \<longleftrightarrow> d ! (bi div 8) AND bit_mask bi = 0"

definition mark_bit :: "nat \<Rightarrow> uint8 list \<Rightarrow> uint8 list" where
  "mark_bit bi d = d[bi div 8 := d ! (bi div 8) OR bit_mask bi]"

definition unmark_bit :: "nat \<Rightarrow> uint8 list \<Rightarrow> uint8 list" where
  "unmark_bit bi d = d[bi div 8 := d ! (bi div 8) AND NOT (bit_mask bi)]"

fun balloc_from :: "nat list \<Rightarrow> uint32 \<Rightarrow> 'a fs_st_scheme \<Rightarrow> (uint32, 'a fs_st_scheme) res" where
  "balloc_from [] dev s = Ok 0 s"
| "balloc_from (b # bs) dev s =
     bindR (bread dev (BBLOCK b s) s) (\<lambda>bp s.
       case find (\<lambda>bi. bit_free (data_of s bp) bi) [0..<min BPB (unat (sb_size (sb s)) - b)] of
         Some bi \<Rightarrow>
           bindR (log_write bp (set_data bp (mark_bit bi (data_of s bp)) s)) (\<lambda>_ s.
           bindR (brelse bp s) (\<lambda>_ s.
           bindR (bzero dev (of_nat (b + bi)) s) (\<lambda>_ s. Ok (of_nat (b + bi)) s)))
       | None \<Rightarrow> bindR (brelse bp s) (\<lambda>_ s. balloc_from bs dev s))"

definition balloc :: "uint32 \<Rightarrow> 'a fs_st_scheme \<Rightarrow> (uint32, 'a fs_st_scheme) res" where
  "balloc dev s =
     balloc_from (map (\<lambda>k. k * BPB) [0..<(unat (sb_size (sb s)) + BPB - 1) div BPB]) dev s"

definition bfree :: "uint32 \<Rightarrow> uint32 \<Rightarrow> 'a fs_st_scheme \<Rightarrow> (unit, 'a fs_st_scheme) res" where
  "bfree dev b s =
     bindR (bread dev (BBLOCK (unat b) s) s) (\<lambda>bp s.
       let bi = unat b mod BPB in
       if bit_free (data_of s bp) bi then Panic ''freeing free block''
       else bindR (log_write bp (set_data bp (unmark_bit bi (data_of s bp)) s)) (\<lambda>_ s.
         brelse bp s))"

section \<open>Inodes\<close>

definition iinit :: "'a fs_st_scheme \<Rightarrow> 'a fs_st_scheme" where
  "iinit s = s\<lparr>itable := map (\<lambda>i. i\<lparr>i_lock := initsleeplock (i_lock i)\<rparr>) (itable s)\<rparr>"

text \<open>The bytes of inode \<open>inum\<close> within its block.\<close>

definition dinode_off :: "uint32 \<Rightarrow> nat" where
  "dinode_off inum = 64 * (unat inum mod IPB)"

definition dinode_at :: "uint8 list \<Rightarrow> uint32 \<Rightarrow> dinode" where
  "dinode_at d inum = dec_dinode (take 64 (drop (dinode_off inum) d))"

definition iget :: "uint32 \<Rightarrow> uint32 \<Rightarrow> 'a fs_st_scheme \<Rightarrow> (nat, 'a fs_st_scheme) res" where
  "iget dev inum s =
     (case find_slot (\<lambda>i. 0 < i_ref i \<and> i_dev i = dev \<and> i_inum i = inum) (itable s) of
        Some ip \<Rightarrow> Ok ip (upd_inode ip (\<lambda>i. i\<lparr>i_ref := i_ref i + 1\<rparr>) s)
      | None \<Rightarrow>
          (case find_slot (\<lambda>i. i_ref i = 0) (itable s) of
             None \<Rightarrow> Panic ''iget: no inodes''
           | Some ip \<Rightarrow>
               Ok ip (upd_inode ip (\<lambda>i. i\<lparr>i_dev := dev, i_inum := inum, i_ref := 1, i_valid := False\<rparr>) s)))"

fun ialloc_from :: "nat list \<Rightarrow> uint32 \<Rightarrow> short \<Rightarrow> 'a fs_st_scheme \<Rightarrow> (nat option, 'a fs_st_scheme) res" where
  "ialloc_from [] dev type s = Ok None s"
| "ialloc_from (inum # is) dev type s =
     bindR (bread dev (IBLOCK (of_nat inum) s) s) (\<lambda>bp s.
       if d_type (dinode_at (data_of s bp) (of_nat inum)) = 0 then
         let d = \<lparr>d_type = type, d_major = 0, d_minor = 0, d_nlink = 0, d_size = 0, d_addrs = replicate 13 0\<rparr> in
         bindR (log_write bp (set_data bp (put_at (dinode_off (of_nat inum)) (enc_dinode d) (data_of s bp)) s)) (\<lambda>_ s.
         bindR (brelse bp s) (\<lambda>_ s.
         bindR (iget dev (of_nat inum) s) (\<lambda>ip s. Ok (Some ip) s)))
       else bindR (brelse bp s) (\<lambda>_ s. ialloc_from is dev type s))"

definition ialloc :: "uint32 \<Rightarrow> short \<Rightarrow> 'a fs_st_scheme \<Rightarrow> (nat option, 'a fs_st_scheme) res" where
  "ialloc dev type s = ialloc_from [1..<unat (sb_ninodes (sb s))] dev type s"

definition dinode_of :: "inode \<Rightarrow> dinode" where
  "dinode_of i = \<lparr>d_type = i_type i, d_major = i_major i, d_minor = i_minor i, d_nlink = i_nlink i,
     d_size = i_size i, d_addrs = i_addrs i\<rparr>"

definition iupdate :: "nat \<Rightarrow> 'a fs_st_scheme \<Rightarrow> (unit, 'a fs_st_scheme) res" where
  "iupdate ip s =
     bindR (bread (i_dev (inode_at s ip)) (IBLOCK (i_inum (inode_at s ip)) s) s) (\<lambda>bp s.
     bindR (log_write bp (set_data bp (put_at (dinode_off (i_inum (inode_at s ip)))
              (enc_dinode (dinode_of (inode_at s ip))) (data_of s bp)) s)) (\<lambda>_ s.
       brelse bp s))"

definition idup :: "nat \<Rightarrow> 'a fs_st_scheme \<Rightarrow> 'a fs_st_scheme" where
  "idup ip s = upd_inode ip (\<lambda>i. i\<lparr>i_ref := i_ref i + 1\<rparr>) s"

definition load_dinode :: "dinode \<Rightarrow> inode \<Rightarrow> inode" where
  "load_dinode d i = i\<lparr>i_type := d_type d, i_major := d_major d, i_minor := d_minor d, i_nlink := d_nlink d,
     i_size := d_size d, i_addrs := d_addrs d\<rparr>"

definition ilock :: "nat \<Rightarrow> 'a fs_st_scheme \<Rightarrow> (unit, 'a fs_st_scheme) res" where
  "ilock ip s =
     (if i_ref (inode_at s ip) < 1 then Panic ''ilock''
      else
        bindR (acquiresleep [] (inode_lock ip) (upd_inode_lock ip) (ChInodeLock ip) s) (\<lambda>_ s.
          if \<not> i_valid (inode_at s ip) then
            bindR (bread (i_dev (inode_at s ip)) (IBLOCK (i_inum (inode_at s ip)) s) s) (\<lambda>bp s.
              let d = dinode_at (data_of s bp) (i_inum (inode_at s ip)) in
              bindR (brelse bp (upd_inode ip (load_dinode d) s)) (\<lambda>_ s.
                let s = upd_inode ip (\<lambda>i. i\<lparr>i_valid := True\<rparr>) s in
                if i_type (inode_at s ip) = 0 then Panic ''ilock: no type'' else Ok () s))
          else Ok () s))"

definition iunlock :: "nat \<Rightarrow> 'a fs_st_scheme \<Rightarrow> (unit, 'a fs_st_scheme) res" where
  "iunlock ip s =
     (if \<not> holdingsleep (inode_lock ip s) s \<or> i_ref (inode_at s ip) < 1 then Panic ''iunlock''
      else Ok () (releasesleep (upd_inode_lock ip) (ChInodeLock ip) s))"

section \<open>The blocks of a file\<close>

definition set_addr :: "nat \<Rightarrow> nat \<Rightarrow> uint32 \<Rightarrow> 'a fs_st_scheme \<Rightarrow> 'a fs_st_scheme" where
  "set_addr ip k a s = upd_inode ip (\<lambda>i. i\<lparr>i_addrs := (i_addrs i)[k := a]\<rparr>) s"

definition bmap :: "nat \<Rightarrow> nat \<Rightarrow> 'a fs_st_scheme \<Rightarrow> (uint32, 'a fs_st_scheme) res" where
  "bmap ip bn s =
     (if bn < NDIRECT then
        let addr = i_addrs (inode_at s ip) ! bn in
        if addr = 0 then
          bindR (balloc (i_dev (inode_at s ip)) s) (\<lambda>addr s.
            if addr = 0 then Ok 0 s else Ok addr (set_addr ip bn addr s))
        else Ok addr s
      else if bn - NDIRECT < NINDIRECT then
        let bn = bn - NDIRECT; addr = i_addrs (inode_at s ip) ! NDIRECT in
        bindR (if addr = 0 then
                 bindR (balloc (i_dev (inode_at s ip)) s) (\<lambda>addr s.
                   if addr = 0 then Ok 0 s else Ok addr (set_addr ip NDIRECT addr s))
               else Ok addr s) (\<lambda>addr s.
          if addr = 0 then Ok 0 s
          else
            bindR (bread (i_dev (inode_at s ip)) addr s) (\<lambda>bp s.
              let addr = get32 (4 * bn) (data_of s bp) in
              bindR (if addr = 0 then
                       bindR (balloc (i_dev (inode_at s ip)) s) (\<lambda>addr s.
                         if addr \<noteq> 0 then
                           bindR (log_write bp (set_data bp (put_at (4 * bn) (bytes_of_word 4 addr) (data_of s bp)) s))
                             (\<lambda>_ s. Ok addr s)
                         else Ok 0 s)
                     else Ok addr s) (\<lambda>addr s.
                bindR (brelse bp s) (\<lambda>_ s. Ok addr s))))
      else Panic ''bmap: out of range'')"

fun trunc_direct :: "nat list \<Rightarrow> nat \<Rightarrow> 'a fs_st_scheme \<Rightarrow> (unit, 'a fs_st_scheme) res" where
  "trunc_direct [] ip s = Ok () s"
| "trunc_direct (k # ks) ip s =
     (if i_addrs (inode_at s ip) ! k \<noteq> 0 then
        bindR (bfree (i_dev (inode_at s ip)) (i_addrs (inode_at s ip) ! k) s) (\<lambda>_ s.
          trunc_direct ks ip (set_addr ip k 0 s))
      else trunc_direct ks ip s)"

fun trunc_indirect :: "nat list \<Rightarrow> nat \<Rightarrow> nat \<Rightarrow> 'a fs_st_scheme \<Rightarrow> (unit, 'a fs_st_scheme) res" where
  "trunc_indirect [] bp ip s = Ok () s"
| "trunc_indirect (j # js) bp ip s =
     (if get32 (4 * j) (data_of s bp) \<noteq> 0 then
        bindR (bfree (i_dev (inode_at s ip)) (get32 (4 * j) (data_of s bp)) s) (\<lambda>_ s. trunc_indirect js bp ip s)
      else trunc_indirect js bp ip s)"

definition itrunc :: "nat \<Rightarrow> 'a fs_st_scheme \<Rightarrow> (unit, 'a fs_st_scheme) res" where
  "itrunc ip s =
     bindR (trunc_direct [0..<NDIRECT] ip s) (\<lambda>_ s.
     bindR (if i_addrs (inode_at s ip) ! NDIRECT \<noteq> 0 then
              bindR (bread (i_dev (inode_at s ip)) (i_addrs (inode_at s ip) ! NDIRECT) s) (\<lambda>bp s.
              bindR (trunc_indirect [0..<NINDIRECT] bp ip s) (\<lambda>_ s.
              bindR (brelse bp s) (\<lambda>_ s.
              bindR (bfree (i_dev (inode_at s ip)) (i_addrs (inode_at s ip) ! NDIRECT) s) (\<lambda>_ s.
                Ok () (set_addr ip NDIRECT 0 s)))))
            else Ok () s) (\<lambda>_ s.
       iupdate ip (upd_inode ip (\<lambda>i. i\<lparr>i_size := 0\<rparr>) s)))"

definition iput :: "nat \<Rightarrow> 'a fs_st_scheme \<Rightarrow> (unit, 'a fs_st_scheme) res" where
  "iput ip s =
     bindR (if i_ref (inode_at s ip) = 1 \<and> i_valid (inode_at s ip) \<and> i_nlink (inode_at s ip) = 0 then
              bindR (acquiresleep [] (inode_lock ip) (upd_inode_lock ip) (ChInodeLock ip) s) (\<lambda>_ s.
              bindR (itrunc ip s) (\<lambda>_ s.
              bindR (iupdate ip (upd_inode ip (\<lambda>i. i\<lparr>i_type := 0\<rparr>) s)) (\<lambda>_ s.
                let s = upd_inode ip (\<lambda>i. i\<lparr>i_valid := False\<rparr>) s in
                Ok () (releasesleep (upd_inode_lock ip) (ChInodeLock ip) s))))
            else Ok () s) (\<lambda>_ s.
       Ok () (upd_inode ip (\<lambda>i. i\<lparr>i_ref := i_ref i - 1\<rparr>) s))"

definition iunlockput :: "nat \<Rightarrow> 'a fs_st_scheme \<Rightarrow> (unit, 'a fs_st_scheme) res" where
  "iunlockput ip s = bindR (iunlock ip s) (\<lambda>_ s. iput ip s)"

record stat =
  st_dev :: uint32
  st_ino :: uint32
  st_type :: short
  st_nlink :: short
  st_size :: uint64

definition stati :: "nat \<Rightarrow> 'a fs_st_scheme \<Rightarrow> stat" where
  "stati ip s = (let i = inode_at s ip in
     \<lparr>st_dev = i_dev i, st_ino = i_inum i, st_type = i_type i, st_nlink = i_nlink i, st_size = ucast (i_size i)\<rparr>)"

section \<open>Reading and writing\<close>

text \<open>The part of a block that a transfer of \<open>n\<close> bytes at offset \<open>off\<close> covers.\<close>

definition chunk :: "nat \<Rightarrow> nat \<Rightarrow> nat" where
  "chunk off n = min n (BSIZE - off mod BSIZE)"

lemma chunk_pos: "0 < n \<Longrightarrow> 0 < chunk off n"
  by (simp add: chunk_def BSIZE_def)

function readi_loop ::
  "nat \<Rightarrow> dst \<Rightarrow> nat \<Rightarrow> nat \<Rightarrow> nat \<Rightarrow> uint8 list \<Rightarrow> 'a fs_st_scheme \<Rightarrow> (int \<times> uint8 list, 'a fs_st_scheme) res" where
  "readi_loop ip dst off n tot acc s =
     (if tot < n then
        bindR (bmap ip (off div BSIZE) s) (\<lambda>addr s.
          if addr = 0 then Ok (int tot, acc) s
          else
            bindR (bread (i_dev (inode_at s ip)) addr s) (\<lambda>bp s.
              let m = chunk off (n - tot); bs = take m (drop (off mod BSIZE) (data_of s bp)) in
              bindR (either_copyout dst bs s) (\<lambda>r s.
                if r = - 1 then bindR (brelse bp s) (\<lambda>_ s. Ok (- 1, acc) s)
                else bindR (brelse bp s) (\<lambda>_ s.
                  readi_loop ip (dst_plus dst m) (off + m) n (tot + m) (acc @ bs) s))))
      else Ok (int tot, acc) s)"
  by pat_completeness auto
termination
  by (relation "measure (\<lambda>(ip, dst, off, n, tot, acc, s). n - tot)")
    (auto simp: chunk_def BSIZE_def intro!: diff_less_mono2)

declare readi_loop.simps [simp del]

definition readi :: "nat \<Rightarrow> dst \<Rightarrow> uint32 \<Rightarrow> uint32 \<Rightarrow> 'a fs_st_scheme \<Rightarrow> (int \<times> uint8 list, 'a fs_st_scheme) res" where
  "readi ip dst off n s =
     (let size = i_size (inode_at s ip) in
      if size < off \<or> off + n < off then Ok (0, []) s
      else
        let n = (if size < off + n then size - off else n) in
        readi_loop ip dst (unat off) (unat n) 0 [] s)"

text \<open>The loop of \<open>writei\<close> returns the bytes written and the offset it reached. A failing
  \<open>either_copyin\<close> has already overwritten part of the buffer.\<close>

function writei_loop ::
  "nat \<Rightarrow> src \<Rightarrow> nat \<Rightarrow> nat \<Rightarrow> nat \<Rightarrow> 'a fs_st_scheme \<Rightarrow> (nat \<times> nat, 'a fs_st_scheme) res" where
  "writei_loop ip src off n tot s =
     (if tot < n then
        bindR (bmap ip (off div BSIZE) s) (\<lambda>addr s.
          if addr = 0 then Ok (tot, off) s
          else
            bindR (bread (i_dev (inode_at s ip)) addr s) (\<lambda>bp s.
              let m = chunk off (n - tot) in
              bindR (either_copyin src m s) (\<lambda>(r, bs) s.
                let s = set_data bp (put_at (off mod BSIZE) bs (data_of s bp)) s in
                if r = - 1 then bindR (brelse bp s) (\<lambda>_ s. Ok (tot, off) s)
                else bindR (log_write bp s) (\<lambda>_ s.
                  bindR (brelse bp s) (\<lambda>_ s.
                    writei_loop ip (src_plus src m) (off + m) n (tot + m) s)))))
      else Ok (tot, off) s)"
  by pat_completeness auto
termination
  by (relation "measure (\<lambda>(ip, src, off, n, tot, s). n - tot)")
    (auto simp: chunk_def BSIZE_def intro!: diff_less_mono2)

declare writei_loop.simps [simp del]

definition writei :: "nat \<Rightarrow> src \<Rightarrow> uint32 \<Rightarrow> uint32 \<Rightarrow> 'a fs_st_scheme \<Rightarrow> (int, 'a fs_st_scheme) res" where
  "writei ip src off n s =
     (if i_size (inode_at s ip) < off \<or> off + n < off then Ok (- 1) s
      else if of_nat (MAXFILE * BSIZE) < off + n then Ok (- 1) s
      else
        bindR (writei_loop ip src (unat off) (unat n) 0 s) (\<lambda>(tot, off) s.
          let s = (if unat (i_size (inode_at s ip)) < off
                   then upd_inode ip (\<lambda>i. i\<lparr>i_size := of_nat off\<rparr>) s else s) in
          bindR (iupdate ip s) (\<lambda>_ s. Ok (int tot) s)))"

end
