(* ===== verification/Dir.thy ===== *)
theory Dir
  imports Fs KString
begin

text \<open>
  kernel/fs.c, second part: directories and path names. A directory is a file of 16-byte entries
  (\<open>struct dirent\<close>). Path names and names are the bytes of a C string before its terminating NUL; a name
  of fewer than \<open>DIRSIZ\<close> bytes ends with a NUL in the array, as \<open>skipelem\<close> leaves it.
\<close>

definition DIRSIZ :: nat where "DIRSIZ = 14"

record dirent =
  de_inum :: uint16
  de_name :: "uint8 list"

definition enc_dirent :: "dirent \<Rightarrow> uint8 list" where
  "enc_dirent de = bytes_of_word 2 (de_inum de) @ de_name de"

definition dec_dirent :: "uint8 list \<Rightarrow> dirent" where
  "dec_dirent b = \<lparr>de_inum = get16 0 b, de_name = take DIRSIZ (drop 2 b)\<rparr>"

definition namecmp :: "uint8 list \<Rightarrow> uint8 list \<Rightarrow> int" where
  "namecmp s t = strncmp (arr s) (arr t) DIRSIZ"

text \<open>The offsets of the entries of a directory of \<open>size\<close> bytes.\<close>

definition dir_offs :: "uint32 \<Rightarrow> nat list" where
  "dir_offs sz = map (\<lambda>k. 16 * k) [0..<(unat sz + 15) div 16]"

fun dirlookup_from ::
  "nat list \<Rightarrow> nat \<Rightarrow> uint8 list \<Rightarrow> 'a fs_st_scheme \<Rightarrow> ((nat \<times> uint32) option, 'a fs_st_scheme) res" where
  "dirlookup_from [] dp name s = Ok None s"
| "dirlookup_from (off # offs) dp name s =
     bindR (readi dp ObjDst (of_nat off) 16 s) (\<lambda>(r, bs) s.
       let de = dec_dirent bs in
       if r \<noteq> 16 then Panic ''dirlookup read''
       else if de_inum de = 0 then dirlookup_from offs dp name s
       else if namecmp name (de_name de) = 0 then
         bindR (iget (i_dev (inode_at s dp)) (ucast (de_inum de)) s) (\<lambda>ip s. Ok (Some (ip, of_nat off)) s)
       else dirlookup_from offs dp name s)"

definition dirlookup ::
  "nat \<Rightarrow> uint8 list \<Rightarrow> 'a fs_st_scheme \<Rightarrow> ((nat \<times> uint32) option, 'a fs_st_scheme) res" where
  "dirlookup dp name s =
     (if i_type (inode_at s dp) \<noteq> T_DIR then Panic ''dirlookup not DIR''
      else dirlookup_from (dir_offs (i_size (inode_at s dp))) dp name s)"

text \<open>The loop of \<open>dirlink\<close> that looks for an empty entry; it stops at the first one, or at the first
  offset that is not below the size.\<close>

fun empty_slot_from :: "nat list \<Rightarrow> nat \<Rightarrow> nat \<Rightarrow> 'a fs_st_scheme \<Rightarrow> (nat, 'a fs_st_scheme) res" where
  "empty_slot_from [] beyond dp s = Ok beyond s"
| "empty_slot_from (off # offs) beyond dp s =
     bindR (readi dp ObjDst (of_nat off) 16 s) (\<lambda>(r, bs) s.
       if r \<noteq> 16 then Panic ''dirlink read''
       else if de_inum (dec_dirent bs) = 0 then Ok off s
       else empty_slot_from offs (off + 16) dp s)"

definition dirlink :: "nat \<Rightarrow> uint8 list \<Rightarrow> uint32 \<Rightarrow> 'a fs_st_scheme \<Rightarrow> (int, 'a fs_st_scheme) res" where
  "dirlink dp name inum s =
     bindR (dirlookup dp name s) (\<lambda>found s.
       case found of
         Some (ip, _) \<Rightarrow> bindR (iput ip s) (\<lambda>_ s. Ok (- 1) s)
       | None \<Rightarrow>
           bindR (empty_slot_from (dir_offs (i_size (inode_at s dp))) 0 dp s) (\<lambda>off s.
             let de = \<lparr>de_inum = ucast inum, de_name = strncpy (arr name) DIRSIZ\<rparr> in
             bindR (writei dp (ObjSrc (enc_dirent de)) (of_nat off) 16 s) (\<lambda>r s.
               if r \<noteq> 16 then Ok (- 1) s else Ok 0 s)))"

section \<open>Paths\<close>

definition slash :: uint8 where "slash = 47"

fun skipelem :: "uint8 list \<Rightarrow> (uint8 list \<times> uint8 list) option" where
  "skipelem path =
     (let s = dropWhile (\<lambda>c. c = slash) path in
      if s = [] then None
      else
        let elem = takeWhile (\<lambda>c. c \<noteq> slash) s;
            name = (if DIRSIZ \<le> length elem then take DIRSIZ elem else elem @ [0]);
            path = dropWhile (\<lambda>c. c = slash) (dropWhile (\<lambda>c. c \<noteq> slash) s) in
        Some (name, path))"

declare skipelem.simps [simp del]

lemma length_dropWhile_strict: "xs \<noteq> [] \<Longrightarrow> P (hd xs) \<Longrightarrow> length (dropWhile P xs) < length xs"
  by (cases xs) (simp_all add: less_Suc_eq_le length_dropWhile_le)

lemma skipelem_shorter:
  assumes "skipelem path = Some (name, rest)"
  shows "length rest < length path"
proof -
  let ?s = "dropWhile (\<lambda>c. c = slash) path"
  have s: "?s \<noteq> []" and r: "rest = dropWhile (\<lambda>c. c = slash) (dropWhile (\<lambda>c. c \<noteq> slash) ?s)"
    using assms by (auto simp: skipelem.simps Let_def split: if_splits)
  have "hd ?s \<noteq> slash" using hd_dropWhile [OF s] by simp
  then have "length (dropWhile (\<lambda>c. c \<noteq> slash) ?s) < length ?s" using s by (intro length_dropWhile_strict) auto
  then show ?thesis unfolding r by (meson length_dropWhile_le le_less_trans less_le_trans)
qed

text \<open>The loop of \<open>namex\<close>: the inode reached and the last element taken off the path, if any.\<close>

function namex_loop ::
  "bool \<Rightarrow> uint8 list \<Rightarrow> uint8 list \<Rightarrow> nat \<Rightarrow> 'a fs_st_scheme \<Rightarrow> (nat option \<times> uint8 list, 'a fs_st_scheme) res" where
  "namex_loop nameiparent path name ip s =
     (case skipelem path of
        None \<Rightarrow> (if nameiparent then bindR (iput ip s) (\<lambda>_ s. Ok (None, name) s) else Ok (Some ip, name) s)
      | Some (name, path) \<Rightarrow>
          bindR (ilock ip s) (\<lambda>_ s.
            if i_type (inode_at s ip) \<noteq> T_DIR then bindR (iunlockput ip s) (\<lambda>_ s. Ok (None, name) s)
            else if nameiparent \<and> path = [] then bindR (iunlock ip s) (\<lambda>_ s. Ok (Some ip, name) s)
            else bindR (dirlookup ip name s) (\<lambda>found s.
              case found of
                None \<Rightarrow> bindR (iunlockput ip s) (\<lambda>_ s. Ok (None, name) s)
              | Some (next, _) \<Rightarrow>
                  bindR (iunlockput ip s) (\<lambda>_ s. namex_loop nameiparent path name next s))))"
  by pat_completeness auto
termination
  by (relation "measure (\<lambda>(nameiparent, path, name, ip, s). length path)") (auto simp: skipelem_shorter)

declare namex_loop.simps [simp del]

definition namex :: "uint8 list \<Rightarrow> bool \<Rightarrow> 'a fs_st_scheme \<Rightarrow> (nat option \<times> uint8 list, 'a fs_st_scheme) res" where
  "namex path nameiparent s =
     (if path \<noteq> [] \<and> hd path = slash
      then bindR (iget ROOTDEV ROOTINO s) (\<lambda>ip s. namex_loop nameiparent path [] ip s)
      else
        (case myproc s of
           None \<Rightarrow> Panic ''undefined: myproc()''
         | Some p \<Rightarrow>
             (case p_cwd (proc_at s p) of
                None \<Rightarrow> Panic ''undefined: cwd''
              | Some ip \<Rightarrow> namex_loop nameiparent path [] ip (idup ip s))))"

definition namei :: "uint8 list \<Rightarrow> 'a fs_st_scheme \<Rightarrow> (nat option, 'a fs_st_scheme) res" where
  "namei path s = bindR (namex path False s) (\<lambda>(ip, _) s. Ok ip s)"

definition nameiparent :: "uint8 list \<Rightarrow> 'a fs_st_scheme \<Rightarrow> (nat option \<times> uint8 list, 'a fs_st_scheme) res" where
  "nameiparent path s = namex path True s"

end
