(* ===== verification/FsTrans.thy ===== *)
theory FsTrans
  imports Dir
begin

text \<open>
  File-system updates inside a transaction of the log. \<open>tx s\<close> is a state between the block operations of
  one system call: no block is locked, exactly the logged blocks are pinned, and the last \<open>end_op\<close> could
  commit; \<open>tx_room s\<close> is the number of further blocks that fit in the log and the cache. The rule
  \<open>tx_block\<close> says what \<open>bread\<close> and the two ways to end with the block (release, or change, log and
  release) do; the operations of kernel/fs.c are proved with it. \<open>begin_op_overcommits\<close> shows that the calls that
  \<open>begin_op\<close> admits together may not fit. The codecs of the on-disk structures
  are interpretations of the locale of Bytes.
\<close>

section \<open>Transactions\<close>

definition tx :: "'a log_st_scheme \<Rightarrow> bool" where
  "tx s \<longleftrightarrow> commit_ready s \<and> 1 \<le> log_outstanding (log s) \<and> (\<forall>x. \<not> block_locked s x) \<and>
     (\<forall>x. bref s x = (if x \<in> set (logged s) then 1 else 0))"

definition tx_room :: "'a log_st_scheme \<Rightarrow> int" where
  "tx_room s = min (int NBUF - 1) (log_size (log s) - 1) - lh_n (lh s)"

text \<open>The state after a step of the transaction: the file-system state outside the blocks is the same.\<close>

definition tx_next :: "'a log_st_scheme \<Rightarrow> int \<Rightarrow> 'a log_st_scheme \<Rightarrow> bool" where
  "tx_next s k t \<longleftrightarrow> tx t \<and> lframe s t \<and> tx_room s - k \<le> tx_room t \<and> log_start (log t) = log_start (log s) \<and>
     log_size (log t) = log_size (log s) \<and> log_outstanding (log t) = log_outstanding (log s) \<and>
     log_committing (log t) = log_committing (log s)"

lemma tx_next_refl: "tx s \<Longrightarrow> tx_next s 0 s"
  by (simp add: tx_next_def)

lemma tx_next_trans: "tx_next s j t \<Longrightarrow> tx_next t k u \<Longrightarrow> tx_next s (j + k) u"
  by (auto simp: tx_next_def intro: lframe_trans)

lemma tx_nextD:
  assumes "tx_next s k t"
  shows "tx t" "lframe s t" "in_log t = in_log s" "log_st.more t = log_st.more s" "tx_room s - k \<le> tx_room t"
  using assms lframe_fields [of s t] by (auto simp: tx_next_def in_log_def fun_eq_iff)

lemma lh_n_logged: "commit_ready s \<Longrightarrow> int (card (set (logged s))) = lh_n (lh s)"
  by (auto simp: commit_ready_def logged_def distinct_card)

lemma tx_refs: "tx s \<Longrightarrow> {x. 0 < bref s x} = set (logged s)"
  by (auto simp: tx_def)

lemma tx_update:
  assumes s: "tx s" and room: "1 \<le> tx_room s" and bn: "\<not> in_log s bn"
  shows "\<exists>t. update_block bn d s = Ok () t \<and> tx_next s 1 t \<and> bview t = (bview s)(bn := d) \<and>
    (bn \<in> set (logged s) \<longrightarrow> tx_next s 0 t) \<and> set (logged t) = insert bn (set (logged s))"
proof -
  have ready: "commit_ready s" and out: "1 \<le> log_outstanding (log s)" and un: "\<not> block_locked s bn"
    and ref: "bref s bn < 2 ^ 32 - 2" using s by (auto simp: tx_def)
  note n = lh_n_logged [OF ready]
  have lim: "lh_n (lh s) < int LOGSIZE" "lh_n (lh s) < log_size (log s) - 1" "lh_n (lh s) + 1 < int NBUF"
    using room by (auto simp: tx_room_def NBUF_def LOGSIZE_def)
  have "card (insert bn (set (logged s))) \<le> Suc (card (set (logged s)))" by (simp add: card_insert_if)
  then have card: "card (insert bn {x. 0 < bref s x}) < NBUF" unfolding tx_refs [OF s] using n lim(3) by linarith
  obtain t where t: "update_block bn d s = Ok () t" "commit_ready t" "bview t = (bview s)(bn := d)"
    "set (logged t) = insert bn (set (logged s))" "log t = (log s)\<lparr>log_lh := lh t\<rparr>" "block_locked t = block_locked s"
    "lframe s t" "bref t = (bref s)(bn := bref s bn + (if bn \<in> set (logged s) then 0 else 1))"
    using update_block_spec [OF ready bn un ref out lim(1,2) card] by blast
  have nt: "lh_n (lh t) = lh_n (lh s) + (if bn \<in> set (logged s) then 0 else 1)"
    using lh_n_logged [OF t(2)] n t(4) by (auto simp: insert_absorb)
  have f: "log_start (log t) = log_start (log s)" "log_size (log t) = log_size (log s)"
    "log_outstanding (log t) = log_outstanding (log s)" "log_committing (log t) = log_committing (log s)"
    by (subst t(5), simp)+
  have "tx t" using s t(2,4,6,8) f by (auto simp: tx_def)
  then show ?thesis using t(1,3,4,7) f nt by (auto simp: tx_next_def tx_room_def)
qed

lemma tx_cong:
  assumes "tx s" "bc_inv t" "babs t = babs s" "log t = log s"
  shows "tx t" "bview t = bview s"
proof -
  have v: "bview t = bview s" "bref t = bref s" "block_locked t = block_locked s" "disk t = disk s"
    using arg_cong [OF assms(3), of cv_data] arg_cong [OF assms(3), of cv_ref] arg_cong [OF assms(3), of cv_lock]
      arg_cong [OF assms(3), of cv_disk] by simp_all
  then show "bview t = bview s" by simp
  have l: "lh t = lh s" "logged t = logged s" "in_log t = in_log s"
    using assms(4) by (simp_all add: lh_def logged_def in_log_def fun_eq_iff)
  show "tx t" using assms(1,2) unfolding tx_def commit_ready_def v l assms(4) by blast
qed

lemma tx_block:
  assumes s: "tx s"
  shows "\<exists>i s1. bread ROOTDEV bn s = Ok i s1 \<and> data_of s1 i = bview s bn \<and> lframe s s1 \<and>
    (\<exists>t. brelse i s1 = Ok () t \<and> tx_next s 0 t \<and> bview t = bview s) \<and>
    (\<forall>d. 1 \<le> tx_room s \<longrightarrow> \<not> in_log s bn \<longrightarrow>
      (\<exists>s2 t. log_write i (set_data i d s1) = Ok () s2 \<and> brelse i s2 = Ok () t \<and> tx_next s 1 t \<and>
        (bn \<in> set (logged s) \<longrightarrow> tx_next s 0 t) \<and> bview t = (bview s)(bn := d) \<and>
        set (logged t) = insert bn (set (logged s))))"
proof -
  have ready: "commit_ready s" using s by (simp add: tx_def)
  then have inv: "bc_inv s" by (simp add: commit_ready_def)
  have un: "\<not> block_locked s bn" "block_locked s = (\<lambda>_. False)" and ref: "bref s bn < 2 ^ 32 - 1" using s by (auto simp: tx_def)
  have "card {x. 0 < bref s x} < NBUF" using ready unfolding commit_ready_def by blast
  then have "card (set (logged s)) < NBUF" by (simp only: tx_refs [OF s])
  then have "room_for (babs s) {bn}" using ref tx_refs [OF s] by (simp add: room_for_def card_insert_if)
  then obtain i s1 where s1: "bread ROOTDEV bn s = Ok i s1" "bc_inv s1" "bframe s s1" "bhold s1 bn i"
    "babs s1 = (babs s)\<lparr>cv_ref := (bref s)(bn := Suc (bref s bn)), cv_lock := (block_locked s)(bn := True)\<rparr>"
    using bread_babs [OF inv, of bn] un(1) by auto
  have d: "data_of s1 i = bview s bn"
    using bhold_slot(5) [OF s1(2,4)] arg_cong [OF s1(5), of cv_data] by simp
  have clean: "bview s bn = disk s bn" if "bref s bn = 0"
  proof -
    have "bn \<notin> set (logged s)" using that s by (auto simp: tx_def)
    then show ?thesis using ready unfolding commit_ready_def by blast
  qed
  have v1: "cv_ref (babs s1) = (bref s)(bn := Suc (bref s bn))" "cv_data (babs s1) = bview s" "cv_disk (babs s1) = disk s"
    unfolding s1(5) by simp_all
  have "cv_data (babs s1) bn = cv_disk (babs s1) bn" if "cv_ref (babs s1) bn = 1" using that clean unfolding v1 by simp
  then obtain t where t: "brelse i s1 = Ok () t" "bc_inv t" "bframe s1 t"
    "babs t = (babs s1)\<lparr>cv_ref := (cv_ref (babs s1))(bn := cv_ref (babs s1) bn - 1), cv_lock := (cv_lock (babs s1))(bn := False)\<rparr>"
    using brelse_babs [OF s1(2,4)] by blast
  have bt: "babs t = babs s" unfolding t(4) s1(5) using un(2) by (simp add: fun_upd_idem)
  have lt: "log t = log s" using bframe_fields(2) [OF s1(3)] bframe_fields(2) [OF t(3)] by simp
  then have "tx_next s 0 t" using tx_cong(1) [OF s t(2) bt lt] lframe_trans [OF bframe_lframe [OF s1(3)] bframe_lframe [OF t(3)]]
    by (simp add: tx_next_def tx_room_def lh_def)
  moreover have "\<exists>s2 t. log_write i (set_data i d s1) = Ok () s2 \<and> brelse i s2 = Ok () t \<and> tx_next s 1 t \<and>
      (bn \<in> set (logged s) \<longrightarrow> tx_next s 0 t) \<and> bview t = (bview s)(bn := d) \<and> set (logged t) = insert bn (set (logged s))"
    if "1 \<le> tx_room s" "\<not> in_log s bn" for d
    using tx_update [OF s that, of d] s1(1) by (auto simp: update_block_def bindR_Ok_iff)
  ultimately show ?thesis using s1(1) d bframe_lframe [OF s1(3)] t(1) tx_cong(2) [OF s t(2) bt lt]
    by (intro exI [of _ i] exI [of _ s1]) blast
qed

lemma tx_blockE:
  assumes "tx s"
  obtains i s1 where "bread ROOTDEV bn s = Ok i s1" "data_of s1 i = bview s bn" "lframe s s1"
    "\<exists>t. brelse i s1 = Ok () t \<and> tx_next s 0 t \<and> bview t = bview s"
    "\<And>d. 1 \<le> tx_room s \<Longrightarrow> \<not> in_log s bn \<Longrightarrow> \<exists>s2 t. log_write i (set_data i d s1) = Ok () s2 \<and> brelse i s2 = Ok () t \<and>
      tx_next s 1 t \<and> bview t = (bview s)(bn := d)"
proof -
  obtain i s1 where r: "bread ROOTDEV bn s = Ok i s1" "data_of s1 i = bview s bn" "lframe s s1"
    "\<exists>t. brelse i s1 = Ok () t \<and> tx_next s 0 t \<and> bview t = bview s"
    "\<forall>d. 1 \<le> tx_room s \<longrightarrow> \<not> in_log s bn \<longrightarrow>
      (\<exists>s2 t. log_write i (set_data i d s1) = Ok () s2 \<and> brelse i s2 = Ok () t \<and> tx_next s 1 t \<and>
        (bn \<in> set (logged s) \<longrightarrow> tx_next s 0 t) \<and> bview t = (bview s)(bn := d) \<and>
        set (logged t) = insert bn (set (logged s)))"
    using tx_block [OF assms, of bn] by blast
  show thesis
  proof (rule that [OF r(1-4)])
    fix d assume "1 \<le> tx_room s" "\<not> in_log s bn"
    then show "\<exists>s2 t. log_write i (set_data i d s1) = Ok () s2 \<and> brelse i s2 = Ok () t \<and> tx_next s 1 t \<and>
        bview t = (bview s)(bn := d)" using r(5) by blast
  qed
qed

section \<open>The calls that are admitted together\<close>

text \<open>The updates of the running calls, in the order in which they are made.\<close>

fun update_blocks :: "(uint32 \<times> uint8 list) list \<Rightarrow> 'a log_st_scheme \<Rightarrow> (unit, 'a log_st_scheme) res" where
  "update_blocks [] s = Ok () s"
| "update_blocks ((bn, d) # ups) s = bindR (update_block bn d s) (\<lambda>_ s. update_blocks ups s)"

lemma tx_updates:
  assumes "tx s" "int (length ups) \<le> tx_room s" "\<forall>u \<in> set ups. \<not> in_log s (fst u)"
  shows "\<exists>t. update_blocks ups s = Ok () t \<and> tx t \<and> log_size (log t) = log_size (log s) \<and> set (logged t) = fst ` set ups \<union> set (logged s)"
  using assms
proof (induction ups arbitrary: s)
  case (Cons u ups)
  obtain bn d where u: "u = (bn, d)" by (cases u)
  obtain s1 where s1: "update_block bn d s = Ok () s1" "tx_next s 1 s1" "set (logged s1) = insert bn (set (logged s))"
    using tx_update [OF Cons.prems(1), of bn d] Cons.prems(2,3) u by auto
  note n = tx_nextD [OF s1(2)]
  have "int (length ups) \<le> tx_room s1" "\<forall>u \<in> set ups. \<not> in_log s1 (fst u)" using n(3,5) Cons.prems(2,3) by auto
  then obtain t where t: "update_blocks ups s1 = Ok () t" "tx t" "log_size (log t) = log_size (log s1)" "set (logged t) = fst ` set ups \<union> set (logged s1)"
    using Cons.IH [OF n(1)] by blast
  have "log_size (log s1) = log_size (log s)" using s1(2) by (simp add: tx_next_def)
  then show ?case using s1(1,3) t u by (intro exI [of _ t]) auto
qed simp

lemma update_block_full:
  assumes "tx s" "log_size (log s) - 1 \<le> lh_n (lh s)"
  shows "update_block bn d s = Panic ''too big a transaction''"
proof -
  have ready: "commit_ready s" using assms(1) by (simp add: tx_def)
  then have inv: "bc_inv s" by (simp add: commit_ready_def)
  have un: "\<not> block_locked s bn" and ref: "bref s bn < 2 ^ 32 - 1" using assms(1) by (auto simp: tx_def)
  have "card {x. 0 < bref s x} < NBUF" using ready unfolding commit_ready_def by blast
  then have "card (set (logged s)) < NBUF" by (simp only: tx_refs [OF assms(1)])
  then have "room_for (babs s) {bn}" using ref tx_refs [OF assms(1)] by (simp add: room_for_def card_insert_if)
  then obtain i s1 where s1: "bread ROOTDEV bn s = Ok i s1" "bframe s s1" using bread_babs [OF inv, of bn] un by auto
  have "log (set_data i d s1) = log s" using bframe_fields(2) [OF s1(2)] by (simp add: set_data_def upd_buf_def)
  then have "log_write i (set_data i d s1) = Panic ''too big a transaction''" using assms(2) by (simp add: log_write_def lh_def Let_def)
  then show ?thesis using s1(1) by (simp add: update_block_def)
qed

lemma begin_op_admits:
  assumes "\<not> log_committing (log s)" "lh_n (lh s) + (log_outstanding (log s) + 1) * int MAXOPBLOCKS \<le> int LOGSIZE"
  shows "begin_op [] s = Ok () (s\<lparr>log := (log s)\<lparr>log_outstanding := log_outstanding (log s) + 1\<rparr>\<rparr>)"
  using assms by (simp add: begin_op.simps)

definition begin_three :: "'a log_st_scheme \<Rightarrow> (unit, 'a log_st_scheme) res" where
  "begin_three s = bindR (begin_op [] s) (\<lambda>_ s. bindR (begin_op [] s) (\<lambda>_ s. begin_op [] s))"

lemma begin_three_tx:
  assumes "commit_ready s" "\<forall>x. \<not> block_locked s x \<and> bref s x = 0" "lh_n (lh s) = 0" "log_outstanding (log s) = 0" "\<not> log_committing (log s)"
  shows "\<exists>t. begin_three s = Ok () t \<and> tx t \<and> log_outstanding (log t) = 3 \<and> log_size (log t) = log_size (log s) \<and> in_log t = in_log s \<and> logged t = []"
proof -
  let ?t = "s\<lparr>log := (log s)\<lparr>log_outstanding := 3\<rparr>\<rparr>"
  have "begin_three s = Ok () ?t"
    using assms(3-5) by (simp add: begin_three_def begin_op_admits lh_def MAXOPBLOCKS_def LOGSIZE_def)
  moreover note c = commit_ready_log [OF assms(1), of "(log s)\<lparr>log_outstanding := 3\<rparr>"]
  have b: "block_locked ?t = block_locked s" "bref ?t = bref s"
    using arg_cong [OF babs_log(1) [where s = s and x = "(log s)\<lparr>log_outstanding := 3\<rparr>"], of cv_lock] arg_cong [OF babs_log(1) [where s = s and x = "(log s)\<lparr>log_outstanding := 3\<rparr>"], of cv_ref]
    by (simp_all add: babs_def)
  have "logged s = []" using assms(3) by (simp add: logged_def)
  then have "tx ?t" unfolding tx_def b using c(1,3) assms(2) by simp
  ultimately show ?thesis using c(3,4) \<open>logged s = []\<close> by (intro exI [of _ ?t]) simp
qed

text \<open>A machine after boot with the first call running, for the witnesses.\<close>

lemma fresh_tx:
  fixes s :: "'a log_st_scheme"
  assumes "bufs s = replicate NBUF zero_buf" "log s = log (reset_log d)"
  shows "tx (binit s)" "bview (binit s) = disk s" "tx_room (binit s) = 29" "log (binit s) = log (reset_log d)"
    "in_log (binit s) b \<longleftrightarrow> 2 \<le> unat b \<and> unat b < 32" "binit s = s\<lparr>bufs := bufs (binit s), lru := rev [0..<NBUF]\<rparr>"
proof -
  have r: "length (bufs s) = NBUF" "\<forall>b \<in> set (bufs s). b_dev b = 0 \<and> b_refcnt b = 0"
    using assms(1) by (simp_all add: zero_buf_def)
  note b = binit_inv [OF r]
  show eq: "binit s = s\<lparr>bufs := bufs (binit s), lru := rev [0..<NBUF]\<rparr>" by (rule b(5))
  show v: "bview (binit s) = disk s" by (rule b(2))
  show l: "log (binit s) = log (reset_log d)" using arg_cong [OF eq, of log] assms(2) by simp
  have dk: "disk (binit s) = disk s" using arg_cong [OF eq, of disk] by simp
  have lh: "lh (binit s) = lh (reset_log d)" using l by (simp add: lh_def)
  then have lg: "logged (binit s) = []" by (simp add: logged_def)
  have z: "bref (binit s) = (\<lambda>_. 0)" "block_locked (binit s) = (\<lambda>_. False)" using b(3,4) by (auto simp: fun_eq_iff)
  show "tx (binit s)" unfolding tx_def commit_ready_def lg lh z l v dk using b(1) by (simp add: LOGSIZE_def NBUF_def)
  show "tx_room (binit s) = 29" by (simp add: tx_room_def l lh NBUF_def)
  show "in_log (binit s) b \<longleftrightarrow> 2 \<le> unat b \<and> unat b < 32"
  proof
    assume "in_log (binit s) b"
    then obtain i :: nat where i: "i < 30" "b = 2 + of_nat i" by (auto simp: in_log_def l)
    then have "unat b = 2 + i" by (simp add: unat_word_ariths unat_of_nat)
    then show "2 \<le> unat b \<and> unat b < 32" using i(1) by simp
  next
    assume "2 \<le> unat b \<and> unat b < 32"
    then have "b = 2 + of_nat (unat b - 2)" "unat b - 2 < 30" by (auto simp: of_nat_diff)
    then show "in_log (binit s) b" by (auto simp: in_log_def l)
  qed
qed

definition small_fs :: "(uint32 \<Rightarrow> uint8 list) \<Rightarrow> inode list \<Rightarrow> fs_st" where
  "small_fs d itab = binit (log_st.extend (reset_log d) (fs_st.fields small_sb itab))"

lemma small_fs:
  shows "tx (small_fs d itab)" "bview (small_fs d itab) = d" "tx_room (small_fs d itab) = 29" "sb (small_fs d itab) = small_sb"
    "itable (small_fs d itab) = itab" "in_log (small_fs d itab) b \<longleftrightarrow> 2 \<le> unat b \<and> unat b < 32"
    "log (small_fs d itab) = log (reset_log d)" "mypid (small_fs d itab) = 0"
proof -
  let ?s = "log_st.extend (reset_log d) (fs_st.fields small_sb itab)"
  have "bufs ?s = replicate NBUF zero_buf" "log ?s = log (reset_log d)" "disk ?s = d"
    by (simp_all add: log_st.extend_def reset_log_def reset_bio_def bio_st.extend_def log_st.fields_def)
  note f = fresh_tx [OF this(1,2)] and d = this(3)
  show "tx (small_fs d itab)" "bview (small_fs d itab) = d" "tx_room (small_fs d itab) = 29"
    "in_log (small_fs d itab) b \<longleftrightarrow> 2 \<le> unat b \<and> unat b < 32" "log (small_fs d itab) = log (reset_log d)"
    using f(1-5) d by (simp_all add: small_fs_def)
  show "sb (small_fs d itab) = small_sb" "itable (small_fs d itab) = itab"
    unfolding small_fs_def by (subst f(6), simp add: log_st.extend_def fs_st.fields_def)+
  show "mypid (small_fs d itab) = 0"
    unfolding small_fs_def by (subst f(6)) (simp add: mypid_def myproc_def mycpu_def cpuid_def log_st.extend_def reset_log_def reset_bio_def
        bio_st.extend_def log_st.fields_def zero_proc_def NPROC_def)
qed

text \<open>C12: the space check of \<open>begin_op\<close> counts \<open>LOGSIZE\<close> data blocks, but a log of 30 blocks, which
  mkfs makes, holds 29 beside its header. From every state with an empty log and no call running, three calls of \<open>begin_op\<close> are admitted, each for
  \<open>MAXOPBLOCKS\<close> blocks; once the three calls together have written any 29 different blocks, the last of the 30 writes they were promised panics
  in \<open>log_write\<close>, whatever block it is for.\<close>

theorem begin_op_overcommits:
  assumes "commit_ready s" "\<forall>x. \<not> block_locked s x \<and> bref s x = 0" "lh_n (lh s) = 0" "log_outstanding (log s) = 0" "\<not> log_committing (log s)"
    and "log_size (log s) = 30" "length ups = 3 * MAXOPBLOCKS - 1" "distinct (map fst ups)" "\<forall>u \<in> set ups. \<not> in_log s (fst u)"
  shows "\<exists>t u. begin_three s = Ok () t \<and> log_outstanding (log t) = 3 \<and> update_blocks ups t = Ok () u \<and>
    update_block bn d u = Panic ''too big a transaction''"
proof -
  obtain t where t: "begin_three s = Ok () t" "tx t" "log_outstanding (log t) = 3" "log_size (log t) = 30" "in_log t = in_log s" "logged t = []"
    using begin_three_tx [OF assms(1-5)] assms(6) by auto
  have ct: "commit_ready t" using t(2) by (simp add: tx_def)
  have len: "length ups = 29" using assms(7) by (simp add: MAXOPBLOCKS_def)
  have "tx_room t = 29" using lh_n_logged [OF ct] t(4,6) by (simp add: tx_room_def NBUF_def)
  then obtain u where u: "update_blocks ups t = Ok () u" "tx u" "log_size (log u) = 30" "set (logged u) = fst ` set ups"
    using tx_updates [OF t(2), of ups] assms(9) len t(4-6) by auto
  have cu: "commit_ready u" using u(2) by (simp add: tx_def)
  have "card (set (logged u)) = 29" using distinct_card [OF assms(8)] u(4) len by simp
  then have "lh_n (lh u) = 29" using lh_n_logged [OF cu] by simp
  then have "update_block bn d u = Panic ''too big a transaction''" using update_block_full [OF u(2)] u(3) by simp
  then show ?thesis using t(1,3) u(1) by blast
qed

definition idle_example :: log_st where
  "idle_example = (binit (reset_log (\<lambda>_. [])))\<lparr>log := (log (reset_log (\<lambda>_. [])))\<lparr>log_outstanding := 0\<rparr>\<rparr>"

definition updates_example :: "(uint32 \<times> uint8 list) list" where
  "updates_example = map (\<lambda>i. (of_nat (100 + i), [])) [0..<29]"

lemma idle_example:
  "commit_ready idle_example" "\<forall>x. \<not> block_locked idle_example x \<and> bref idle_example x = 0" "lh_n (lh idle_example) = 0"
  "log_outstanding (log idle_example) = 0" "\<not> log_committing (log idle_example)" "log_size (log idle_example) = 30"
  "in_log idle_example b \<longleftrightarrow> 2 \<le> unat b \<and> unat b < 32"
proof -
  let ?s = "binit (reset_log (\<lambda>_. [])) :: log_st" and ?l = "(log (reset_log (\<lambda>_. []) :: log_st))\<lparr>log_outstanding := 0\<rparr>"
  have "bufs (reset_log (\<lambda>_. []) :: log_st) = replicate NBUF zero_buf"
    by (simp add: reset_log_def reset_bio_def bio_st.extend_def log_st.fields_def)
  note f = fresh_tx [OF this refl]
  have c: "commit_ready ?s" "lh ?s = lh (reset_log (\<lambda>_. []))" using f(1,4) by (simp_all add: tx_def lh_def)
  note r = commit_ready_log [OF c(1), of ?l, unfolded f(4), simplified]
  have b: "block_locked idle_example = block_locked ?s" "bref idle_example = bref ?s"
    using arg_cong [OF babs_log(1) [where s = ?s and x = ?l], of cv_lock] arg_cong [OF babs_log(1) [where s = ?s and x = ?l], of cv_ref] by (simp_all add: babs_def idle_example_def)
  have "logged ?s = []" using c(2) by (simp add: logged_def)
  then show "\<forall>x. \<not> block_locked idle_example x \<and> bref idle_example x = 0" unfolding b using f(1) by (simp add: tx_def)
  show "commit_ready idle_example" "in_log idle_example b \<longleftrightarrow> 2 \<le> unat b \<and> unat b < 32" using r(1,4) f(5) by (simp_all add: idle_example_def)
  show "lh_n (lh idle_example) = 0" "log_outstanding (log idle_example) = 0" "\<not> log_committing (log idle_example)" "log_size (log idle_example) = 30"
    by (simp_all add: idle_example_def lh_def) (simp_all add: reset_log_def bio_st.extend_def log_st.fields_def)
qed

theorem begin_op_overcommits_witness:
  "\<exists>t u. begin_three idle_example = Ok () t \<and> update_blocks updates_example t = Ok () u \<and> update_block 129 [] u = Panic ''too big a transaction''"
proof -
  have m: "map fst updates_example = map (\<lambda>i. of_nat (100 + i)) [0..<29]" by (simp add: updates_example_def)
  have n: "unat (of_nat (100 + i) :: uint32) = 100 + i" if "i < 29" for i :: nat using that by (simp add: unat_word_ariths unat_of_nat)
  have "inj_on (\<lambda>i. of_nat (100 + i) :: uint32) (set [0..<29])" by (rule inj_onI) (metis n add_left_cancel atLeastLessThan_iff set_upt)
  then have "distinct (map fst updates_example)" unfolding m by (simp add: distinct_map)
  moreover have "\<forall>u \<in> set updates_example. \<not> in_log idle_example (fst u)"
    using n by (auto simp: updates_example_def idle_example(7) simp del: of_nat_add)
  moreover have "length updates_example = 3 * MAXOPBLOCKS - 1" by (simp add: updates_example_def MAXOPBLOCKS_def)
  ultimately show ?thesis using begin_op_overcommits [OF idle_example(1-6), of updates_example 129 "[]"] by blast
qed

section \<open>Codecs\<close>

lemma get16_bytes: "get16 0 (bytes_of_word 2 w @ b) = w"
  by (simp add: get16_def word_of_bytes_of_word)

lemma get32_bytes: "get32 0 (bytes_of_word 4 w @ b) = w"
  by (simp add: get32_def word_of_bytes_of_word)

lemma get16_skip: "get16 off b = get16 0 (drop off b)"
  by (simp add: get16_def)

lemma get32_skip: "get32 off b = get32 0 (drop off b)"
  by (simp add: get32_def)

lemma get32_nth:
  assumes "i < length ws"
  shows "get32 (4 * i) (concat (map (bytes_of_word 4) ws) @ b) = ws ! i"
  using assms
proof (induction ws arbitrary: i)
  case Nil
  then show ?case by simp
next
  case (Cons w ws)
  then show ?case
    by (cases i) (simp_all add: get32_bytes, simp add: get32_skip [of "4 + _"] get32_skip [of "4 * _"])
qed

lemma length_words [simp]: "length (concat (map (bytes_of_word 4) ws)) = 4 * length (ws :: uint32 list)"
  by (induction ws) simp_all

interpretation dinode: codec enc_dinode dec_dinode "\<lambda>d. length (d_addrs d) = 13" 64
proof
  fix d :: dinode assume len: "length (d_addrs d) = 13"
  show "length (enc_dinode d) = 64" using len by (simp add: enc_dinode_def)
  let ?a = "concat (map (bytes_of_word 4) (d_addrs d))"
  have "get32 (12 + 4 * i) (enc_dinode d) = d_addrs d ! i" if "i < 13" for i
  proof -
    have "drop (12 + 4 * i) (enc_dinode d) = drop (4 * i) ?a" by (simp add: enc_dinode_def)
    then show ?thesis using get32_nth [of i "d_addrs d" "[]"] that len by (simp add: get32_def)
  qed
  then have "map (\<lambda>i. get32 (12 + 4 * i) (enc_dinode d)) [0..<13] = d_addrs d"
    using len by (intro nth_equalityI) simp_all
  then show "dec_dinode (enc_dinode d) = d"
    by (simp add: dec_dinode_def) (simp add: enc_dinode_def get16_def get32_def word_of_bytes_of_word)
qed

interpretation superblock: codec enc_superblock dec_superblock "\<lambda>_. True" 32
  by unfold_locales (simp_all add: enc_superblock_def dec_superblock_def get32_def word_of_bytes_of_word)

interpretation dirent: codec enc_dirent dec_dirent "\<lambda>de. length (de_name de) = DIRSIZ" 16
  by unfold_locales (simp_all add: enc_dirent_def dec_dirent_def get16_def word_of_bytes_of_word DIRSIZ_def)

end
