(* ===== verification/FsBlocks.thy ===== *)
theory FsBlocks
  imports FsTrans
begin

text \<open>
  The block allocator of kernel/fs.c: \<open>balloc\<close> and \<open>bfree\<close> on the bitmap. The abstract state is the set
  of used blocks, \<open>block_used\<close>; \<open>bitmap_ok\<close> is what mkfs establishes: the bitmap blocks are whole
  blocks outside the log, and block 0, the log and the bitmap itself are marked as used.
\<close>

section \<open>Bits of a bitmap block\<close>

lemma bit_free_iff: "bit_free d bi \<longleftrightarrow> \<not> bit (d ! (bi div 8)) (bi mod 8)"
proof -
  have "d ! (bi div 8) AND bit_mask bi = 0 \<longleftrightarrow> \<not> bit (d ! (bi div 8)) (bi mod 8)"
  proof
    assume "d ! (bi div 8) AND bit_mask bi = 0"
    then have "\<not> bit (d ! (bi div 8) AND bit_mask bi) (bi mod 8)" by simp
    then show "\<not> bit (d ! (bi div 8)) (bi mod 8)" by (simp add: bit_mask_def bit_simps)
  qed (auto intro!: bit_eqI simp: bit_mask_def bit_simps)
  then show ?thesis by (simp add: bit_free_def)
qed

lemma bit_index: "bi div 8 = bj div 8 \<Longrightarrow> bi mod 8 = bj mod 8 \<longleftrightarrow> bi = (bj :: nat)"
  by (metis div_mult_mod_eq)

lemma bit_free_mark:
  assumes "bi div 8 < length d"
  shows "bit_free (mark_bit bi d) bj \<longleftrightarrow> bit_free d bj \<and> bj \<noteq> bi"
  using assms bit_index [of bi bj]
  by (cases "bi div 8 = bj div 8") (auto simp: bit_free_iff mark_bit_def bit_mask_def bit_simps)

lemma bit_free_unmark:
  assumes "bi div 8 < length d"
  shows "bit_free (unmark_bit bi d) bj \<longleftrightarrow> bit_free d bj \<or> bj = bi"
  using assms bit_index [of bi bj]
  by (cases "bi div 8 = bj div 8") (auto simp: bit_free_iff unmark_bit_def bit_mask_def bit_simps)

lemma length_mark_bit [simp]: "length (mark_bit bi d) = length d" "length (unmark_bit bi d) = length d"
  by (simp_all add: mark_bit_def unmark_bit_def)

section \<open>The set of used blocks\<close>

abbreviation fs_size :: "'a fs_st_scheme \<Rightarrow> nat" where
  "fs_size s \<equiv> unat (sb_size (sb s))"

definition block_used :: "'a fs_st_scheme \<Rightarrow> nat \<Rightarrow> bool" where
  "block_used s b \<longleftrightarrow> \<not> bit_free (bview s (BBLOCK b s)) (b mod BPB)"

definition bitmap_ok :: "'a fs_st_scheme \<Rightarrow> bool" where
  "bitmap_ok s \<longleftrightarrow> 0 < fs_size s \<and> block_used s 0 \<and>
     (\<forall>b < fs_size s. length (bview s (BBLOCK b s)) = BSIZE \<and> \<not> in_log s (BBLOCK b s) \<and>
        unat (BBLOCK b s) < fs_size s \<and> block_used s (unat (BBLOCK b s))) \<and>
     (\<forall>b. in_log s b \<longrightarrow> unat b < fs_size s \<and> block_used s (unat b))"

lemma lframe_fs:
  fixes s :: "'a fs_st_scheme"
  assumes "lframe s t"
  shows "sb t = sb s" "itable t = itable s" "BBLOCK b t = BBLOCK b s" "IBLOCK i t = IBLOCK i s"
proof -
  show f: "sb t = sb s" "itable t = itable s" using assms by (auto simp: lframe_def)
  show "BBLOCK b t = BBLOCK b s" "IBLOCK i t = IBLOCK i s" using f(1) by (simp_all add: BBLOCK_def IBLOCK_def)
qed

lemma BBLOCK_inj:
  assumes "BBLOCK a s = BBLOCK b s" "a < 2 ^ 32" "b < 2 ^ 32"
  shows "a div BPB = b div BPB"
proof -
  have le: "a div BPB < 2 ^ 32" "b div BPB < 2 ^ 32" using assms(2,3) div_le_dividend le_less_trans by blast+
  have "(of_nat (a div BPB) :: uint32) = of_nat (b div BPB)" using assms(1) by (simp add: BBLOCK_def)
  then show ?thesis using le of_nat_inj32 by blast
qed

lemma unat_below_size:
  assumes "n < fs_size s"
  shows "unat (of_nat n :: uint32) = n"
  using assms unsigned_less [of "sb_size (sb s)", where ?'a = nat] by (simp add: unat_of_nat take_bit_nat_eq_self)

lemma BBLOCK_base: "b mod BPB = 0 \<Longrightarrow> bi < BPB \<Longrightarrow> BBLOCK (b + bi) s = BBLOCK b s \<and> (b + bi) mod BPB = bi"
  by (auto simp: BBLOCK_def)

lemma bzero_update: "bzero ROOTDEV bno s = update_block bno (replicate BSIZE 0) s"
  by (simp add: bzero_def update_block_def)

text \<open>How marking a block and changing one that is not part of the bitmap change the set.\<close>

lemma used_after_mark:
  fixes s t :: "'a fs_st_scheme"
  assumes ok: "bitmap_ok s" and a: "unat a < fs_size s" "\<not> block_used s (unat a)" and fr: "lframe s t"
    and bv: "bview t = (bview s)(BBLOCK (unat a) s := mark_bit (unat a mod BPB) (bview s (BBLOCK (unat a) s)), a := z)"
    and b: "b < fs_size s"
  shows "block_used t b \<longleftrightarrow> block_used s b \<or> b = unat a" "length (bview t (BBLOCK b t)) = BSIZE"
proof -
  note f = lframe_fs [OF fr]
  have ne: "BBLOCK b s \<noteq> a" "length (bview s (BBLOCK b s)) = BSIZE" using ok a b by (auto simp: bitmap_ok_def)
  have sz: "fs_size s < 2 ^ 32" using unsigned_less [of "sb_size (sb s)", where ?'a = nat] by simp
  have mb: "unat a mod BPB div 8 < BSIZE" by (simp add: BPB_def BSIZE_def less_mult_imp_div_less)
  show "length (bview t (BBLOCK b t)) = BSIZE" using ne ok a(1) by (auto simp: f bv bitmap_ok_def)
  show "block_used t b \<longleftrightarrow> block_used s b \<or> b = unat a"
  proof (cases "BBLOCK b s = BBLOCK (unat a) s")
    case True
    then have "b div BPB = unat a div BPB" using BBLOCK_inj [OF True] b a(1) sz by simp
    then have "b mod BPB = unat a mod BPB \<longleftrightarrow> b = unat a" by (metis div_mult_mod_eq)
    then show ?thesis using ne True mb
      by (auto simp: block_used_def f bv bit_free_mark fun_upd_def)
  next
    case False
    then show ?thesis using ne by (auto simp: block_used_def f bv)
  qed
qed

section \<open>Allocation\<close>

text \<open>The first free bit of the bitmap block that describes the blocks from \<open>b\<close> on.\<close>

lemma scan_bits:
  assumes "b mod BPB = 0" "d = bview s (BBLOCK b s)"
  shows "find (bit_free d) [0..<min BPB (fs_size s - b)] = Some bi \<Longrightarrow>
      bi < BPB \<and> b + bi < fs_size s \<and> \<not> block_used s (b + bi)"
    "find (bit_free d) [0..<min BPB (fs_size s - b)] = None \<Longrightarrow> bi < BPB \<Longrightarrow> b + bi < fs_size s \<Longrightarrow> block_used s (b + bi)"
  using assms BBLOCK_base [of b bi s] by (auto simp: block_used_def find_Some_iff find_None_iff)

lemma balloc_from_spec:
  fixes s :: "'a fs_st_scheme"
  assumes "tx s" "2 \<le> tx_room s" "bitmap_ok s" "\<forall>b \<in> set bs. b mod BPB = 0 \<and> b < fs_size s"
  shows "\<exists>a t. balloc_from bs ROOTDEV s = Ok a t \<and>
    (a = 0 \<and> tx_next s 0 t \<and> bview t = bview s \<and> (\<forall>b \<in> set bs. \<forall>bi < BPB. b + bi < fs_size s \<longrightarrow> block_used s (b + bi)) \<or>
     tx_next s 2 t \<and> unat a < fs_size s \<and> \<not> block_used s (unat a) \<and>
     bview t = (bview s)(BBLOCK (unat a) s := mark_bit (unat a mod BPB) (bview s (BBLOCK (unat a) s)), a := replicate BSIZE 0))"
  using assms
proof (induction bs arbitrary: s)
  case Nil
  then show ?case using tx_next_refl by auto
next
  case (Cons b bs)
  let ?bn = "BBLOCK b s"
  have b: "b mod BPB = 0" "b < fs_size s" using Cons.prems(4) by auto
  have nl: "\<not> in_log s ?bn" using Cons.prems(3) b(2) by (simp add: bitmap_ok_def)
  obtain i s1 where r: "bread ROOTDEV ?bn s = Ok i s1" "data_of s1 i = bview s ?bn" "lframe s s1"
    "\<exists>t. brelse i s1 = Ok () t \<and> tx_next s 0 t \<and> bview t = bview s"
    "\<And>d. 1 \<le> tx_room s \<Longrightarrow> \<not> in_log s ?bn \<Longrightarrow> \<exists>s2 t. log_write i (set_data i d s1) = Ok () s2 \<and> brelse i s2 = Ok () t \<and>
      tx_next s 1 t \<and> bview t = (bview s)(?bn := d)"
    using tx_blockE [OF Cons.prems(1), of ?bn] by metis
  note f1 = lframe_fs [OF r(3)]
  show ?case
  proof (cases "find (bit_free (bview s ?bn)) [0..<min BPB (fs_size s - b)]")
    case None
    obtain t where t: "brelse i s1 = Ok () t" "tx_next s 0 t" "bview t = bview s" using r(4) by blast
    note ft = lframe_fs [OF tx_nextD(2) [OF t(2)]]
    have bt: "balloc_from (b # bs) ROOTDEV s = balloc_from bs ROOTDEV t" using r(1,2) f1 t(1) None by simp
    have used: "block_used t = block_used s" using ft t(3) by (simp add: block_used_def fun_eq_iff)
    have okt: "bitmap_ok t" using Cons.prems(3) ft t(3) used tx_nextD(3) [OF t(2)] by (simp add: bitmap_ok_def)
    have "\<exists>a u. balloc_from bs ROOTDEV t = Ok a u \<and>
      (a = 0 \<and> tx_next t 0 u \<and> bview u = bview t \<and> (\<forall>b \<in> set bs. \<forall>bi < BPB. b + bi < fs_size t \<longrightarrow> block_used t (b + bi)) \<or>
       tx_next t 2 u \<and> unat a < fs_size t \<and> \<not> block_used t (unat a) \<and>
       bview u = (bview t)(BBLOCK (unat a) t := mark_bit (unat a mod BPB) (bview t (BBLOCK (unat a) t)), a := replicate BSIZE 0))"
      using Cons.prems(2,4) tx_nextD(1,5) [OF t(2)] okt ft by (intro Cons.IH) auto
    moreover have "tx_next s k u" if "tx_next t k u" for k u using tx_next_trans [OF t(2) that] by simp
    ultimately show ?thesis unfolding bt ft used t(3)
      using scan_bits(2) [OF b(1) refl None] by (elim exE conjE disjE) (auto simp del: balloc_from.simps)
  next
    case (Some bi)
    let ?a = "b + bi"
    have a: "bi < BPB" "?a < fs_size s" "\<not> block_used s ?a" using scan_bits(1) [OF b(1) refl Some] by auto
    have ua: "unat (of_nat ?a :: uint32) = ?a" using a(2) by (rule unat_below_size)
    obtain s2 t where t: "log_write i (set_data i (mark_bit bi (bview s ?bn)) s1) = Ok () s2" "brelse i s2 = Ok () t"
      "tx_next s 1 t" "bview t = (bview s)(?bn := mark_bit bi (bview s ?bn))" using r(5) nl Cons.prems(2) by fastforce
    have "\<not> in_log s (of_nat ?a)" using Cons.prems(3) a(3) ua by (auto simp: bitmap_ok_def)
    then have "\<not> in_log t (of_nat ?a)" "1 \<le> tx_room t" using tx_nextD(3,5) [OF t(3)] Cons.prems(2) by auto
    then obtain u where u: "bzero ROOTDEV (of_nat ?a) t = Ok () u" "tx_next t 1 u" "bview u = (bview t)(of_nat ?a := replicate BSIZE 0)"
      using tx_update [OF tx_nextD(1) [OF t(3)], of "of_nat ?a" "replicate BSIZE 0"] by (auto simp: bzero_update)
    have e: "balloc_from (b # bs) ROOTDEV s = Ok (of_nat ?a) u" using r(1,2) f1 t(1,2) u(1) Some by simp
    define a where "a = (of_nat ?a :: uint32)"
    note ua' = ua [folded a_def]
    have "bview u = (bview s)(BBLOCK (unat a) s := mark_bit (unat a mod BPB) (bview s (BBLOCK (unat a) s)), a := replicate BSIZE 0)"
      unfolding u(3) [folded a_def] t(4) ua' using BBLOCK_base [OF b(1) a(1), of s] by simp
    moreover have "tx_next s 2 u" using tx_next_trans [OF t(3) u(2)] by simp
    ultimately show ?thesis using e [folded a_def] a(2,3) [folded ua'] by blast
  qed
qed

text \<open>A disk of 2000 blocks whose first 48 blocks are in use.\<close>

definition small_bitmap :: "uint32 \<Rightarrow> uint8 list" where
  "small_bitmap b = (if b = 45 then replicate 6 255 @ replicate (BSIZE - 6) 0 else replicate BSIZE 0)"

lemma small_bitmap_used: "b < 2000 \<Longrightarrow> block_used (small_fs small_bitmap itab) b \<longleftrightarrow> b < 48"
proof -
  assume b: "b < 2000"
  then have "b div BPB = 0" "b mod BPB = b" by (simp_all add: BPB_def BSIZE_def)
  then have e: "block_used (small_fs small_bitmap itab) b \<longleftrightarrow> bit ((replicate 6 255 @ replicate (BSIZE - 6) 0 :: uint8 list) ! (b div 8)) (b mod 8)"
    by (simp add: block_used_def BBLOCK_def small_fs small_sb_def small_bitmap_def bit_free_iff)
  have m: "(255 :: uint8) = mask 8" by (simp add: mask_eq_exp_minus_1)
  have "b div 8 < 6 \<longleftrightarrow> b < 48" by (simp add: div_less_iff_less_mult)
  moreover have "b div 8 < BSIZE" using b by (simp add: div_less_iff_less_mult BSIZE_def)
  ultimately have "(replicate 6 255 @ replicate (BSIZE - 6) 0 :: uint8 list) ! (b div 8) = (if b < 48 then mask 8 else 0)"
    using m by (auto simp: nth_append)
  then show ?thesis unfolding e by (simp add: bit_mask_iff)
qed

lemma small_bitmap_ok: "bitmap_ok (small_fs small_bitmap itab)"
proof -
  have "BBLOCK b (small_fs small_bitmap itab) = 45" if "b < 2000" for b
    using that by (simp add: BBLOCK_def small_fs small_sb_def BPB_def BSIZE_def)
  then show ?thesis using small_bitmap_used
    by (auto simp: bitmap_ok_def small_fs small_sb_def) (simp_all add: small_bitmap_def BSIZE_def)
qed

section \<open>Properties\<close>

text \<open>C16: allocating a block. Inside a transaction with room for two blocks, \<open>balloc\<close> returns. It answers 0
  exactly when every block is in use, and then changes nothing; otherwise it answers a block that was
  free, marks it and no other as used, fills it with zeros, and leaves every other block outside the
  bitmap as it was. The bitmap stays well formed and both changes are in the log.\<close>

theorem balloc_allocates:
  fixes s :: "'a fs_st_scheme"
  assumes "tx s" "2 \<le> tx_room s" "bitmap_ok s"
  shows "\<exists>a t. balloc ROOTDEV s = Ok a t \<and> tx_next s 2 t \<and> bitmap_ok t \<and>
    (if a = 0 then bview t = bview s \<and> (\<forall>b < fs_size s. block_used s b)
     else unat a < fs_size s \<and> \<not> block_used s (unat a) \<and>
       (\<forall>b < fs_size s. block_used t b \<longleftrightarrow> block_used s b \<or> b = unat a) \<and> bview t a = replicate BSIZE 0 \<and>
       (\<forall>x. x \<noteq> a \<longrightarrow> x \<noteq> BBLOCK (unat a) s \<longrightarrow> bview t x = bview s x))"
proof -
  let ?bs = "map (\<lambda>k. k * BPB) [0..<(fs_size s + BPB - 1) div BPB]"
  have p: "0 < BPB" by (simp add: BPB_def BSIZE_def)
  have "k * BPB < fs_size s" if "k < (fs_size s + BPB - 1) div BPB" for k
  proof -
    have "Suc k * BPB \<le> fs_size s + BPB - 1" using that p by (metis Suc_leI less_eq_div_iff_mult_less_eq)
    then show ?thesis using p by simp
  qed
  then have bs: "\<forall>b \<in> set ?bs. b mod BPB = 0 \<and> b < fs_size s" by auto
  obtain a t where t: "balloc ROOTDEV s = Ok a t"
    "a = 0 \<and> tx_next s 0 t \<and> bview t = bview s \<and> (\<forall>b \<in> set ?bs. \<forall>bi < BPB. b + bi < fs_size s \<longrightarrow> block_used s (b + bi)) \<or>
     tx_next s 2 t \<and> unat a < fs_size s \<and> \<not> block_used s (unat a) \<and>
     bview t = (bview s)(BBLOCK (unat a) s := mark_bit (unat a mod BPB) (bview s (BBLOCK (unat a) s)), a := replicate BSIZE 0)"
    using balloc_from_spec [OF assms bs] unfolding balloc_def by blast
  have u0: "block_used s 0" using assms(3) by (simp add: bitmap_ok_def)
  from t(2) show ?thesis
  proof (elim disjE conjE)
    assume z: "a = 0" "tx_next s 0 t" "bview t = bview s"
      "\<forall>b \<in> set ?bs. \<forall>bi < BPB. b + bi < fs_size s \<longrightarrow> block_used s (b + bi)"
    note f = lframe_fs [OF tx_nextD(2) [OF z(2)]]
    have used: "block_used t = block_used s" using f z(3) by (simp add: block_used_def fun_eq_iff)
    have "block_used s b" if "b < fs_size s" for b
    proof -
      have "(b + BPB) div BPB \<le> (fs_size s + BPB - 1) div BPB" using that by (intro div_le_mono) simp
      then have "b div BPB < (fs_size s + BPB - 1) div BPB" using p by (simp add: div_add_self2)
      then have "b div BPB * BPB \<in> set ?bs" by auto
      then show ?thesis using z(4) mod_less_divisor [OF p, of b] that div_mult_mod_eq [of b BPB] by metis
    qed
    moreover have "bitmap_ok t" using assms(3) f z(3) used tx_nextD(3) [OF z(2)] by (simp add: bitmap_ok_def)
    moreover have "tx_next s 2 t" using z(2) by (simp add: tx_next_def)
    ultimately show ?thesis using t(1) z(1,3) by auto
  next
    assume z: "tx_next s 2 t" "unat a < fs_size s" "\<not> block_used s (unat a)"
      "bview t = (bview s)(BBLOCK (unat a) s := mark_bit (unat a mod BPB) (bview s (BBLOCK (unat a) s)), a := replicate BSIZE 0)"
    note fr = tx_nextD(2) [OF z(1)]
    note f = lframe_fs [OF fr] and um = used_after_mark [OF assms(3) z(2,3) fr z(4)]
    have "bitmap_ok t" using assms(3) f um tx_nextD(3) [OF z(1)] by (auto simp: bitmap_ok_def)
    moreover have "a \<noteq> 0" using z(3) u0 by auto
    ultimately show ?thesis using t(1) z um(1) by (intro exI [of _ a] exI [of _ t]) auto
  qed
qed

theorem balloc_allocates_witness:
  "\<exists>a t. balloc ROOTDEV (small_fs small_bitmap []) = Ok a t \<and> a \<noteq> 0 \<and> 48 \<le> unat a \<and> block_used t (unat a)"
proof -
  let ?s = "small_fs small_bitmap []"
  have sz: "fs_size ?s = 2000" by (simp add: small_fs small_sb_def)
  have "\<exists>b < fs_size ?s. \<not> block_used ?s b" using small_bitmap_used [of 100] by (intro exI [of _ 100]) (simp add: sz)
  then show ?thesis
    using balloc_allocates [OF small_fs(1) _ small_bitmap_ok, of "[]"] small_bitmap_used [of _ "[]"] sz
    by (fastforce simp: small_fs(3) split: if_splits)
qed

text \<open>C17: freeing a block. \<open>bfree\<close> panics on a block that is not in use and otherwise marks exactly that block
  as free; no block outside the bitmap changes.\<close>

theorem bfree_frees:
  fixes s :: "'a fs_st_scheme"
  assumes "tx s" "1 \<le> tx_room s" "bitmap_ok s" "unat b < fs_size s"
  shows "if block_used s (unat b)
    then \<exists>t. bfree ROOTDEV b s = Ok () t \<and> tx_next s 1 t \<and>
      (\<forall>c < fs_size s. block_used t c \<longleftrightarrow> block_used s c \<and> c \<noteq> unat b) \<and>
      (\<forall>x. x \<noteq> BBLOCK (unat b) s \<longrightarrow> bview t x = bview s x)
    else bfree ROOTDEV b s = Panic ''freeing free block''"
proof -
  let ?bn = "BBLOCK (unat b) s" and ?bi = "unat b mod BPB"
  have nl: "\<not> in_log s ?bn" and len: "length (bview s ?bn) = BSIZE" using assms(3,4) by (auto simp: bitmap_ok_def)
  have sz: "fs_size s < 2 ^ 32" using unsigned_less [of "sb_size (sb s)", where ?'a = nat] by simp
  obtain i s1 where r: "bread ROOTDEV ?bn s = Ok i s1" "data_of s1 i = bview s ?bn"
    "\<And>d. 1 \<le> tx_room s \<Longrightarrow> \<not> in_log s ?bn \<Longrightarrow> \<exists>s2 t. log_write i (set_data i d s1) = Ok () s2 \<and> brelse i s2 = Ok () t \<and>
      tx_next s 1 t \<and> bview t = (bview s)(?bn := d)"
    using tx_blockE [OF assms(1), of ?bn] by metis
  obtain s2 t where t: "log_write i (set_data i (unmark_bit ?bi (bview s ?bn)) s1) = Ok () s2" "brelse i s2 = Ok () t"
    "tx_next s 1 t" "bview t = (bview s)(?bn := unmark_bit ?bi (bview s ?bn))"
    using r(3) [OF assms(2) nl] by blast
  note f = lframe_fs [OF tx_nextD(2) [OF t(3)]]
  have mb: "?bi div 8 < BSIZE" by (simp add: BPB_def BSIZE_def less_mult_imp_div_less)
  have "block_used t c \<longleftrightarrow> block_used s c \<and> c \<noteq> unat b" if "c < fs_size s" for c
  proof (cases "BBLOCK c s = ?bn")
    case True
    then have "c div BPB = unat b div BPB" using BBLOCK_inj [OF True] that assms(4) sz by simp
    then have "c mod BPB = ?bi \<longleftrightarrow> c = unat b" by (metis div_mult_mod_eq)
    then show ?thesis using True mb len by (simp add: block_used_def f t(4) bit_free_unmark)
  next
    case False
    then show ?thesis by (auto simp: block_used_def f t(4))
  qed
  then show ?thesis using r(1,2) t by (auto simp: bfree_def block_used_def Let_def)
qed

theorem bfree_frees_witness:
  "\<exists>t. bfree ROOTDEV 47 (small_fs small_bitmap []) = Ok () t \<and> \<not> block_used t 47 \<and> block_used t 45"
proof -
  let ?s = "small_fs small_bitmap []"
  have sz: "fs_size ?s = 2000" by (simp add: small_fs small_sb_def)
  have "unat (47 :: uint32) < fs_size ?s" "block_used ?s (unat (47 :: uint32))" using small_bitmap_used [of 47] sz by simp_all
  then show ?thesis using bfree_frees [OF small_fs(1) _ small_bitmap_ok, of "[]" 47] small_bitmap_used [of 45 "[]"] sz
    by (auto simp: small_fs(3))
qed

end
