(* ===== verification/FsFiles.thy ===== *)
theory FsFiles
  imports FsBlocks
begin

text \<open>
  The contents of a file: \<open>readi\<close> and \<open>writei\<close> of kernel/fs.c on the direct blocks of an inode, as
  operations on the concatenation of its blocks, and the round trip of an inode through its block
  (\<open>iupdate\<close>, \<open>ilock\<close>). \<open>file_ok s ip N\<close>: the first \<open>N\<close> direct blocks of the inode are allocated,
  different, whole and outside the log.
\<close>

section \<open>Overwriting part of a byte string\<close>

lemma put_at_put_at:
  assumes "off + length a + length b \<le> length d"
  shows "put_at (off + length a) b (put_at off a d) = put_at off (a @ b) d"
  using assms by (simp add: put_at_def add_ac)

lemma take_drop_put_at:
  assumes "off + length bs \<le> length d"
  shows "take (length bs) (drop off (put_at off bs d)) = bs"
  using assms by (simp add: put_at_def)

lemma slice_outside:
  assumes "off + length bs \<le> length d" "j + n \<le> off \<or> off + length bs \<le> j"
  shows "take n (drop j (put_at off bs d)) = take n (drop j d)"
  using assms(2)
proof
  assume "j + n \<le> off"
  then have "take n (drop j (take off d @ y)) = take n (drop j d)" for y
    using assms(1) by (simp add: take_drop min_def)
  then show ?thesis by (simp only: put_at_def)
next
  assume "off + length bs \<le> j"
  then show ?thesis using assms(1) by (simp add: put_at_def)
qed

lemma concat_blocks:
  assumes "\<forall>x \<in> set xs. length x = b" "k < length xs"
  shows "length (concat xs) = length xs * b" "take (k * b) (concat xs) = concat (take k xs)"
    "drop (k * b) (concat xs) = concat (drop k xs)" "drop (k * b) (concat xs) = xs ! k @ concat (drop (Suc k) xs)"
proof -
  have len: "length (concat ys) = length ys * b" if "\<forall>x \<in> set ys. length x = b" for ys :: "'a list list"
    using that by (induction ys) auto
  show "length (concat xs) = length xs * b" using len assms(1) by blast
  have split: "concat xs = concat (take k xs) @ concat (drop k xs)" by (metis append_take_drop_id concat_append)
  have "length (concat (take k xs)) = k * b" using len [of "take k xs"] assms by (auto dest: in_set_takeD)
  then show t: "take (k * b) (concat xs) = concat (take k xs)" "drop (k * b) (concat xs) = concat (drop k xs)"
    unfolding split by simp_all
  show "drop (k * b) (concat xs) = xs ! k @ concat (drop (Suc k) xs)"
    using t(2) assms(2) by (simp flip: Cons_nth_drop_Suc)
qed

lemma slice_block:
  assumes "\<forall>x \<in> set xs. length x = b" "k < length xs" "off + m \<le> b"
  shows "take m (drop (k * b + off) (concat xs)) = take m (drop off (xs ! k))"
proof -
  have "drop (k * b + off) (concat xs) = drop off (drop (k * b) (concat xs))" by (simp add: add.commute)
  then show ?thesis using concat_blocks(4) [OF assms(1,2)] assms by simp
qed

lemma put_at_block:
  assumes "\<forall>x \<in> set xs. length x = b" "k < length xs" "off + length bs \<le> b"
  shows "concat (xs[k := put_at off bs (xs ! k)]) = put_at (k * b + off) bs (concat xs)"
proof -
  note c = concat_blocks [OF assms(1,2)]
  have l: "length (xs ! k) = b" using assms(1,2) by simp
  have "concat (xs[k := put_at off bs (xs ! k)]) = concat (take k xs) @ put_at off bs (xs ! k) @ concat (drop (Suc k) xs)"
    using assms(2) by (simp add: upd_conv_take_nth_drop)
  moreover have "take (k * b + off) (concat xs) = concat (take k xs) @ take off (xs ! k)"
    using c(2,4) l assms(3) by (simp add: take_add)
  moreover have "drop (k * b + off + length bs) (concat xs) = drop (off + length bs) (drop (k * b) (concat xs))"
    by (simp add: add_ac)
  ultimately show ?thesis using c(4) l assms(3) by (simp add: put_at_def)
qed

section \<open>The direct blocks of a file\<close>

abbreviation addr_of :: "'a fs_st_scheme \<Rightarrow> nat \<Rightarrow> nat \<Rightarrow> uint32" where
  "addr_of s ip k \<equiv> i_addrs (inode_at s ip) ! k"

definition file_ok :: "'a fs_st_scheme \<Rightarrow> nat \<Rightarrow> nat \<Rightarrow> bool" where
  "file_ok s ip N \<longleftrightarrow> N \<le> NDIRECT \<and> i_dev (inode_at s ip) = ROOTDEV \<and> length (i_addrs (inode_at s ip)) = 13 \<and>
     (\<forall>k < N. addr_of s ip k \<noteq> 0 \<and> \<not> in_log s (addr_of s ip k) \<and> length (bview s (addr_of s ip k)) = BSIZE) \<and>
     (\<forall>k < N. \<forall>j < N. addr_of s ip k = addr_of s ip j \<longrightarrow> k = j)"

definition file_blocks :: "'a fs_st_scheme \<Rightarrow> nat \<Rightarrow> nat \<Rightarrow> uint8 list list" where
  "file_blocks s ip N = map (\<lambda>k. bview s (addr_of s ip k)) [0..<N]"

definition file_data :: "'a fs_st_scheme \<Rightarrow> nat \<Rightarrow> nat \<Rightarrow> uint8 list" where
  "file_data s ip N = concat (file_blocks s ip N)"

lemma file_blocks_length:
  "file_ok s ip N \<Longrightarrow> \<forall>x \<in> set (file_blocks s ip N). length x = BSIZE" "length (file_blocks s ip N) = N"
  by (auto simp: file_ok_def file_blocks_def)

lemma file_blocks_nth: "k < N \<Longrightarrow> file_blocks s ip N ! k = bview s (addr_of s ip k)"
  by (simp add: file_blocks_def)

lemma length_file_data: "file_ok s ip N \<Longrightarrow> length (file_data s ip N) = N * BSIZE"
  using concat_blocks(1) [OF file_blocks_length(1), of s ip N 0] file_blocks_length(2) [of s ip N]
  by (cases "N = 0") (simp_all add: file_data_def file_blocks_def)

lemma bmap_direct: "file_ok s ip N \<Longrightarrow> k < N \<Longrightarrow> bmap ip k s = Ok (addr_of s ip k) s"
  by (auto simp: bmap_def file_ok_def)

lemma file_same:
  fixes s t :: "'a fs_st_scheme"
  assumes "tx_next s j t" "bview t = bview s"
  shows "file_ok t ip N = file_ok s ip N" "file_data t ip N = file_data s ip N"
  using lframe_fs(2) [OF tx_nextD(2) [OF assms(1)]] tx_nextD(3) [OF assms(1)] assms(2)
  by (simp_all add: file_ok_def file_data_def file_blocks_def)

section \<open>Reading\<close>

text \<open>One turn of the loops of \<open>readi\<close> and \<open>writei\<close>: the transfer stays within a block.\<close>

lemma chunk_in_block:
  assumes "off + r \<le> N * BSIZE" "0 < r"
  shows "off div BSIZE < N" "off mod BSIZE + chunk off r \<le> BSIZE" "chunk off r \<le> r" "0 < chunk off r"
    "off = off div BSIZE * BSIZE + off mod BSIZE"
proof -
  have "off < N * BSIZE" using assms by simp
  then show "off div BSIZE < N" by (simp add: less_mult_imp_div_less)
  have "off mod BSIZE < BSIZE" by (simp add: BSIZE_def)
  then show "off mod BSIZE + chunk off r \<le> BSIZE" "chunk off r \<le> r" by (auto simp: chunk_def)
  show "0 < chunk off r" using assms(2) by (rule chunk_pos)
qed simp

lemma readi_loop_spec:
  fixes s :: "'a fs_st_scheme"
  assumes "tx s" "file_ok s ip N" "tot \<le> n" "off + (n - tot) \<le> N * BSIZE"
  shows "\<exists>t. readi_loop ip ObjDst off n tot acc s = Ok (int n, acc @ take (n - tot) (drop off (file_data s ip N))) t \<and>
    tx_next s 0 t \<and> bview t = bview s"
  using assms
proof (induction "n - tot" arbitrary: off tot acc s rule: less_induct)
  case less
  show ?case
  proof (cases "tot < n")
    case False
    then show ?thesis using less.prems(3) tx_next_refl [OF less.prems(1)]
      by (intro exI [of _ s]) (simp add: readi_loop.simps [of _ _ _ n n])
  next
    case True
    let ?k = "off div BSIZE" and ?r = "n - tot"
    let ?m = "chunk off ?r" and ?d = "file_data s ip N"
    note c = chunk_in_block [OF less.prems(4)]
    have pos: "0 < ?r" using True by simp
    have k: "?k < N" using c(1) pos by simp
    have bm: "bmap ip ?k s = Ok (addr_of s ip ?k) s" by (rule bmap_direct [OF less.prems(2) k])
    have a: "addr_of s ip ?k \<noteq> 0" "i_dev (inode_at s ip) = ROOTDEV" using less.prems(2) k by (auto simp: file_ok_def)
    obtain i s1 where r: "bread ROOTDEV (addr_of s ip ?k) s = Ok i s1" "data_of s1 i = bview s (addr_of s ip ?k)"
      "\<exists>t. brelse i s1 = Ok () t \<and> tx_next s 0 t \<and> bview t = bview s"
      using tx_blockE [OF less.prems(1), of "addr_of s ip ?k"] by metis
    obtain t where t: "brelse i s1 = Ok () t" "tx_next s 0 t" "bview t = bview s" using r(3) by blast
    note ft = file_same [OF t(2,3), of ip N]
    let ?bs = "take ?m (drop (off mod BSIZE) (bview s (addr_of s ip ?k)))"
    have step: "readi_loop ip ObjDst off n tot acc s = readi_loop ip ObjDst (off + ?m) n (tot + ?m) (acc @ ?bs) t"
      using True bm a r(1,2) t(1) by (simp add: readi_loop.simps [of _ _ _ _ tot] Let_def)
    have bs: "?bs = take ?m (drop off ?d)"
      using slice_block [OF file_blocks_length(1) [OF less.prems(2)], of ?k "off mod BSIZE" ?m] k c(2) pos
      by (simp add: file_data_def file_blocks_nth file_blocks_length)
    have dec: "n - (tot + ?m) < n - tot" "tot + ?m \<le> n" "off + ?m + (n - (tot + ?m)) \<le> N * BSIZE"
      using c(3,4) pos less.prems(4) by auto
    obtain u where u: "readi_loop ip ObjDst (off + ?m) n (tot + ?m) (acc @ ?bs) t =
        Ok (int n, (acc @ ?bs) @ take (n - (tot + ?m)) (drop (off + ?m) (file_data t ip N))) u"
      "tx_next t 0 u" "bview u = bview t"
      using less.hyps [OF dec(1) tx_nextD(1) [OF t(2)] _ dec(2,3)] ft(1) less.prems(2) by blast
    have "take ?r (drop off ?d) = ?bs @ take (n - (tot + ?m)) (drop (off + ?m) ?d)"
      using take_add [of ?m "n - (tot + ?m)" "drop off ?d"] c(3) pos bs by (simp add: add.commute)
    then show ?thesis using step u t(3) ft(2) tx_next_trans [OF t(2) u(2)] by (intro exI [of _ u]) simp
  qed
qed

section \<open>Writing\<close>

text \<open>The bytes that a source in the kernel supplies.\<close>

fun kernel_src :: "src \<Rightarrow> memory \<Rightarrow> nat \<Rightarrow> uint8 list option" where
  "kernel_src (UserSrc a) m n = None"
| "kernel_src (KernSrc a) m n = Some (load_bytes m a n)"
| "kernel_src (ObjSrc bs) m n = (if length bs = n then Some bs else None)"

lemma kernel_src_copyin:
  assumes "kernel_src src (mem s) n = Some bs" "k \<le> n"
  shows "either_copyin src k s = Ok (0, take k bs) s" "kernel_src (src_plus src k) (mem s) (n - k) = Some (drop k bs)"
    "length bs = n"
proof -
  have "take k (load_bytes (mem s) a n) = load_bytes (mem s) a k" for a
    using assms(2) by (simp add: load_bytes_def take_map)
  moreover have "load_bytes (mem s) (a + of_nat k) (n - k) = drop k (load_bytes (mem s) a n)" for a
    by (rule nth_equalityI) (simp_all add: add.assoc)
  ultimately show "either_copyin src k s = Ok (0, take k bs) s" "kernel_src (src_plus src k) (mem s) (n - k) = Some (drop k bs)"
    "length bs = n" using assms by (cases src; auto split: if_splits)+
qed

text \<open>The number of blocks that \<open>r\<close> bytes from \<open>off\<close> on touch.\<close>

definition span :: "nat \<Rightarrow> nat \<Rightarrow> nat" where
  "span off r = (if r = 0 then 0 else (off mod BSIZE + r + BSIZE - 1) div BSIZE)"

lemma span_step:
  assumes "0 < r"
  shows "span off r = Suc (span (off + chunk off r) (r - chunk off r))"
proof (cases "r \<le> BSIZE - off mod BSIZE")
  case True
  have lt: "off mod BSIZE < BSIZE" by (simp add: BSIZE_def)
  have "chunk off r = r" using True by (simp add: chunk_def)
  moreover have "(off mod BSIZE + r + BSIZE - 1) div BSIZE = 1" using True lt assms by (intro div_nat_eqI) auto
  ultimately show ?thesis using assms by (simp add: span_def)
next
  case False
  have lt: "off mod BSIZE < BSIZE" by (simp add: BSIZE_def)
  let ?m = "BSIZE - off mod BSIZE"
  have c: "chunk off r = ?m" "?m < r" using False by (auto simp: chunk_def)
  have "off + ?m = Suc (off div BSIZE) * BSIZE" using lt div_mult_mod_eq [of off BSIZE] by (simp only: mult_Suc)
  then have "(off + ?m) mod BSIZE = 0" by (simp only: mod_mult_self2_is_0)
  then have "span (off + ?m) (r - ?m) = (r - ?m + BSIZE - 1) div BSIZE" using c(2) by (simp add: span_def)
  moreover have e: "off mod BSIZE + r + BSIZE - 1 = (r - ?m + BSIZE - 1) + BSIZE" using c(2) lt by simp
  have "span off r = ((r - ?m + BSIZE - 1) + BSIZE) div BSIZE" unfolding span_def e using assms by simp
  moreover have "((r - ?m + BSIZE - 1) + BSIZE) div BSIZE = Suc ((r - ?m + BSIZE - 1) div BSIZE)"
    using lt by (subst div_add_self2) auto
  ultimately show ?thesis using c by simp
qed

text \<open>One block of a file is overwritten.\<close>

lemma file_write_block:
  fixes s t :: "'a fs_st_scheme"
  assumes ok: "file_ok s ip N" and k: "k < N" and nx: "tx_next s j t" and o: "off + length bs \<le> BSIZE"
    and bv: "bview t = (bview s)(addr_of s ip k := put_at off bs (bview s (addr_of s ip k)))"
  shows "file_ok t ip N" "file_data t ip N = put_at (k * BSIZE + off) bs (file_data s ip N)"
proof -
  note f = lframe_fs(2) [OF tx_nextD(2) [OF nx]] and il = tx_nextD(3) [OF nx]
  show "file_ok t ip N" using ok o by (auto simp: file_ok_def f il bv)
  have "file_blocks t ip N = (file_blocks s ip N)[k := put_at off bs (file_blocks s ip N ! k)]"
  proof (rule nth_equalityI)
    fix j assume "j < length (file_blocks t ip N)"
    then have "j < N" by (simp add: file_blocks_length)
    then show "file_blocks t ip N ! j = (file_blocks s ip N)[k := put_at off bs (file_blocks s ip N ! k)] ! j"
      using ok k by (auto simp: file_blocks_nth file_blocks_length f bv nth_list_update file_ok_def)
  qed (simp add: file_blocks_length)
  then show "file_data t ip N = put_at (k * BSIZE + off) bs (file_data s ip N)"
    using put_at_block [OF file_blocks_length(1) [OF ok], of k off bs] k o by (simp add: file_data_def file_blocks_length)
qed

lemma writei_loop_spec:
  fixes s :: "'a fs_st_scheme"
  assumes "tx s" "file_ok s ip N" "tot \<le> n" "off + (n - tot) \<le> N * BSIZE"
    and "kernel_src src (mem s) (n - tot) = Some bs" "int (span off (n - tot)) \<le> tx_room s"
  shows "\<exists>t. writei_loop ip src off n tot s = Ok (n, off + (n - tot)) t \<and> tx_next s (int (span off (n - tot))) t \<and>
    file_ok t ip N \<and> file_data t ip N = put_at off bs (file_data s ip N) \<and>
    (\<forall>x. (\<forall>k < N. x \<noteq> addr_of s ip k) \<longrightarrow> bview t x = bview s x)"
  using assms
proof (induction "n - tot" arbitrary: off tot src bs s rule: less_induct)
  case less
  show ?case
  proof (cases "tot < n")
    case False
    then have "bs = []" using less.prems(3) kernel_src_copyin(3) [OF less.prems(5), of 0] by simp
    moreover have "span off 0 = 0" by (simp add: span_def)
    ultimately show ?thesis using False less.prems(2,3) tx_next_refl [OF less.prems(1)]
      by (intro exI [of _ s]) (simp add: writei_loop.simps [of _ _ _ n n] put_at_def)
  next
    case True
    let ?k = "off div BSIZE" and ?o = "off mod BSIZE" and ?r = "n - tot"
    let ?m = "chunk off ?r" and ?a = "addr_of s ip (off div BSIZE)"
    note c = chunk_in_block [OF less.prems(4)]
    have pos: "0 < ?r" using True by simp
    have k: "?k < N" and mr: "?m \<le> ?r" using c(1,3) pos by auto
    note src = kernel_src_copyin [OF less.prems(5) mr]
    have sp: "span off ?r = Suc (span (off + ?m) (n - (tot + ?m)))"
      using span_step [OF pos, of off] by (simp add: diff_diff_eq)
    have a: "bmap ip ?k s = Ok ?a s" "?a \<noteq> 0" "i_dev (inode_at s ip) = ROOTDEV" "\<not> in_log s ?a"
      using less.prems(2) k bmap_direct [OF less.prems(2) k] by (auto simp: file_ok_def)
    have room: "1 \<le> tx_room s" using less.prems(6) sp by simp
    obtain i s1 where r: "bread ROOTDEV ?a s = Ok i s1" "data_of s1 i = bview s ?a" "lframe s s1"
      "\<And>d. 1 \<le> tx_room s \<Longrightarrow> \<not> in_log s ?a \<Longrightarrow> \<exists>s2 t. log_write i (set_data i d s1) = Ok () s2 \<and> brelse i s2 = Ok () t \<and>
        tx_next s 1 t \<and> bview t = (bview s)(?a := d)"
      using tx_blockE [OF less.prems(1), of ?a] by metis
    let ?d = "put_at ?o (take ?m bs) (bview s ?a)"
    obtain s2 t where t: "log_write i (set_data i ?d s1) = Ok () s2" "brelse i s2 = Ok () t" "tx_next s 1 t"
      "bview t = (bview s)(?a := ?d)" using r(4) [OF room a(4)] by blast
    have "either_copyin src ?m s1 = Ok (0, take ?m bs) s1"
      using kernel_src_copyin(1) [of src s1 ?r bs ?m] less.prems(5) mr lframe_fields(2) [OF r(3)] by simp
    then have step: "writei_loop ip src off n tot s = writei_loop ip (src_plus src ?m) (off + ?m) n (tot + ?m) t"
      using True a(1-3) r(1,2) t(1,2) by (simp add: writei_loop.simps [of _ _ _ _ tot] Let_def)
    have lb: "?o + length (take ?m bs) \<le> BSIZE" using c(2) pos src(3) by simp
    note fw = file_write_block [OF less.prems(2) k t(3) lb t(4)]
    have f: "inode_at t ip = inode_at s ip" using lframe_fs(2) [OF tx_nextD(2) [OF t(3)]] by simp
    have dec: "n - (tot + ?m) < n - tot" "tot + ?m \<le> n" "off + ?m + (n - (tot + ?m)) \<le> N * BSIZE"
      using c(3,4) [OF pos] True less.prems(4) by linarith+
    have dec': "kernel_src (src_plus src ?m) (mem t) (n - (tot + ?m)) = Some (drop ?m bs)"
      "int (span (off + ?m) (n - (tot + ?m))) \<le> tx_room t"
      using less.prems(6) src(2) sp lframe_fields(2) [OF tx_nextD(2) [OF t(3)]] tx_nextD(5) [OF t(3)]
      by (simp_all add: diff_diff_eq)
    obtain u where u: "writei_loop ip (src_plus src ?m) (off + ?m) n (tot + ?m) t = Ok (n, off + ?m + (n - (tot + ?m))) u"
      "tx_next t (int (span (off + ?m) (n - (tot + ?m)))) u" "file_ok u ip N"
      "file_data u ip N = put_at (off + ?m) (drop ?m bs) (file_data t ip N)"
      "\<forall>x. (\<forall>k < N. x \<noteq> addr_of t ip k) \<longrightarrow> bview u x = bview t x"
      using less.hyps [OF dec(1) tx_nextD(1) [OF t(3)] fw(1) dec(2,3) dec'] by blast
    have "file_data u ip N = put_at off (take ?m bs @ drop ?m bs) (file_data s ip N)"
      using put_at_put_at [of off "take ?m bs" "drop ?m bs" "file_data s ip N"] u(4) fw(2) src(3) mr less.prems(4)
        length_file_data [OF less.prems(2)] by simp
    moreover have "tx_next s (int (span off ?r)) u" using tx_next_trans [OF t(3) u(2)] sp by simp
    moreover have "off + ?m + (n - (tot + ?m)) = off + ?r" using mr by simp
    moreover have "bview u x = bview s x" if "\<forall>k < N. x \<noteq> addr_of s ip k" for x
      using u(5) f that k t(4) by auto
    ultimately show ?thesis using step u(1,3) by (intro exI [of _ u]) simp
  qed
qed

section \<open>Inodes on disk\<close>

lemma itable_upd [simp]:
  fixes s :: "'a fs_st_scheme"
  shows "bview (s\<lparr>itable := x\<rparr>) = bview s" "in_log (s\<lparr>itable := x\<rparr>) = in_log s" "tx (s\<lparr>itable := x\<rparr>) = tx s"
    "tx_room (s\<lparr>itable := x\<rparr>) = tx_room s" "IBLOCK i (s\<lparr>itable := x\<rparr>) = IBLOCK i s"
proof -
  let ?t = "s\<lparr>itable := x\<rparr>"
  have f: "bufs ?t = bufs s" "disk ?t = disk s" and l: "lh ?t = lh s" by (simp_all add: lh_def)
  have v: "bview ?t = bview s" "bref ?t = bref s" "block_locked ?t = block_locked s" using same_bufs [OF f] by (auto simp: fun_eq_iff)
  then show "bview ?t = bview s" by simp
  show il: "in_log ?t = in_log s" by (simp add: in_log_def fun_eq_iff)
  have lg: "logged ?t = logged s" by (simp add: logged_def l)
  show "tx ?t = tx s" by (simp add: tx_def commit_ready_def v il lg l bc_inv_def)
  show "tx_room ?t = tx_room s" by (simp add: tx_room_def l)
  show "IBLOCK i ?t = IBLOCK i s" by (simp add: IBLOCK_def)
qed

definition disk_inode :: "'a fs_st_scheme \<Rightarrow> uint32 \<Rightarrow> dinode" where
  "disk_inode s inum = dinode_at (bview s (IBLOCK inum s)) inum"

text \<open>The inode is on the root device and its block is a whole block outside the log.\<close>

definition inode_ok :: "'a fs_st_scheme \<Rightarrow> nat \<Rightarrow> bool" where
  "inode_ok s ip \<longleftrightarrow> i_dev (inode_at s ip) = ROOTDEV \<and> length (i_addrs (inode_at s ip)) = 13 \<and>
     \<not> in_log s (IBLOCK (i_inum (inode_at s ip)) s) \<and> length (bview s (IBLOCK (i_inum (inode_at s ip)) s)) = BSIZE"

lemma dinode_off_bound: "dinode_off i + 64 \<le> BSIZE"
proof -
  have "unat i mod IPB < 16" by (simp add: IPB_def BSIZE_def)
  then show ?thesis by (simp add: dinode_off_def BSIZE_def)
qed

lemma dinode_at_put:
  assumes "length d = BSIZE" "length (d_addrs x) = 13"
  shows "dinode_at (put_at (dinode_off i) (enc_dinode x) d) i = x"
    "unat j mod IPB \<noteq> unat i mod IPB \<Longrightarrow> dinode_at (put_at (dinode_off i) (enc_dinode x) d) j = dinode_at d j"
proof -
  have len: "length (enc_dinode x) = 64" using dinode.length_enc assms(2) by blast
  have "take 64 (drop (dinode_off i) (put_at (dinode_off i) (enc_dinode x) d)) = enc_dinode x"
    using take_drop_put_at [of "dinode_off i" "enc_dinode x" d] len assms(1) dinode_off_bound [of i] by simp
  then show "dinode_at (put_at (dinode_off i) (enc_dinode x) d) i = x"
    using dinode.dec_enc assms(2) by (simp add: dinode_at_def)
  show "dinode_at (put_at (dinode_off i) (enc_dinode x) d) j = dinode_at d j" if "unat j mod IPB \<noteq> unat i mod IPB"
  proof -
    have "dinode_off j + 64 \<le> dinode_off i \<or> dinode_off i + 64 \<le> dinode_off j" using that by (auto simp: dinode_off_def)
    then have "take 64 (drop (dinode_off j) (put_at (dinode_off i) (enc_dinode x) d)) = take 64 (drop (dinode_off j) d)"
      using len assms(1) dinode_off_bound [of i] slice_outside [of "dinode_off i" "enc_dinode x" d "dinode_off j" 64] by auto
    then show ?thesis by (simp add: dinode_at_def)
  qed
qed

lemma IBLOCK_inj:
  assumes "IBLOCK i s = IBLOCK j s"
  shows "unat i div IPB = unat j div IPB"
proof -
  have "unat x div IPB < 2 ^ 32" for x :: uint32
    using unsigned_less [of x, where ?'a = nat] by (intro le_less_trans [OF div_le_dividend]) simp
  then show ?thesis using assms of_nat_inj32 by (simp add: IBLOCK_def)
qed

lemma iupdate_spec:
  fixes s :: "'a fs_st_scheme"
  assumes "tx s" "1 \<le> tx_room s" "inode_ok s ip"
  defines "inum \<equiv> i_inum (inode_at s ip)"
  shows "\<exists>t. iupdate ip s = Ok () t \<and> tx_next s 1 t \<and> disk_inode t inum = dinode_of (inode_at s ip) \<and>
    (\<forall>j. j \<noteq> inum \<longrightarrow> disk_inode t j = disk_inode s j) \<and> (\<forall>x. x \<noteq> IBLOCK inum s \<longrightarrow> bview t x = bview s x) \<and>
    length (bview t (IBLOCK inum s)) = BSIZE"
proof -
  let ?b = "IBLOCK inum s" and ?x = "dinode_of (inode_at s ip)"
  have ok: "i_dev (inode_at s ip) = ROOTDEV" "length (d_addrs ?x) = 13" "\<not> in_log s ?b" "length (bview s ?b) = BSIZE"
    using assms(3) by (auto simp: inode_ok_def inum_def dinode_of_def)
  obtain i s1 where r: "bread ROOTDEV ?b s = Ok i s1" "data_of s1 i = bview s ?b" "lframe s s1"
    "\<And>d. 1 \<le> tx_room s \<Longrightarrow> \<not> in_log s ?b \<Longrightarrow> \<exists>s2 t. log_write i (set_data i d s1) = Ok () s2 \<and> brelse i s2 = Ok () t \<and>
      tx_next s 1 t \<and> bview t = (bview s)(?b := d)"
    using tx_blockE [OF assms(1), of ?b] by metis
  let ?d = "put_at (dinode_off inum) (enc_dinode ?x) (bview s ?b)"
  obtain s2 t where t: "log_write i (set_data i ?d s1) = Ok () s2" "brelse i s2 = Ok () t" "tx_next s 1 t"
    "bview t = (bview s)(?b := ?d)" using r(4) [OF assms(2) ok(3)] by blast
  note f = lframe_fs [OF tx_nextD(2) [OF t(3)]] and put = dinode_at_put [OF ok(4,2)]
  have "iupdate ip s = Ok () t"
    using ok(1) r(1,2) lframe_fs(2) [OF r(3)] t(1,2) by (simp add: iupdate_def inum_def)
  moreover have "disk_inode t inum = ?x" using put(1) by (simp add: disk_inode_def f t(4))
  moreover have "disk_inode t j = disk_inode s j" if "j \<noteq> inum" for j
  proof (cases "IBLOCK j s = ?b")
    case True
    have "unat j mod IPB \<noteq> unat inum mod IPB"
      using IBLOCK_inj [OF True] that by (metis div_mult_mod_eq word_unat_eq_iff)
    then show ?thesis using put(2) True by (simp add: disk_inode_def f t(4))
  next
    case False
    then show ?thesis by (simp add: disk_inode_def f t(4))
  qed
  moreover have "length (bview t ?b) = BSIZE"
    using ok(2,4) dinode.length_enc [of ?x] dinode_off_bound [of inum] by (simp add: t(4))
  ultimately show ?thesis using t(3,4) by (intro exI [of _ t]) simp
qed

lemma upd_inode_simps [simp]:
  fixes s :: "'a fs_st_scheme"
  shows "bview (upd_inode ip f s) = bview s" "in_log (upd_inode ip f s) = in_log s" "tx (upd_inode ip f s) = tx s"
    "tx_room (upd_inode ip f s) = tx_room s" "IBLOCK i (upd_inode ip f s) = IBLOCK i s" "sb (upd_inode ip f s) = sb s"
    "mem (upd_inode ip f s) = mem s" "length (itable (upd_inode ip f s)) = length (itable s)"
  by (simp_all add: upd_inode_def)

lemma inode_at_upd: "jp < length (itable s) \<Longrightarrow> inode_at (upd_inode ip f s) jp = (if ip = jp then f (inode_at s jp) else inode_at s jp)"
  by (simp add: upd_inode_def nth_upd_nth)

text \<open>A write from the kernel inside the allocated direct blocks: the loop, the size, the inode.\<close>

lemma writei_spec:
  fixes s :: "'a fs_st_scheme"
  assumes tx: "tx s" and ok: "file_ok s ip N" "inode_ok s ip" "ip < length (itable s)"
    and rng: "off \<le> i_size (inode_at s ip)" "unat off + unat n \<le> N * BSIZE"
    and src: "kernel_src src (mem s) (unat n) = Some bs" and room: "int (span (unat off) (unat n)) + 1 \<le> tx_room s"
    and ib: "\<forall>k < N. addr_of s ip k \<noteq> IBLOCK (i_inum (inode_at s ip)) s"
  defines "inum \<equiv> i_inum (inode_at s ip)"
  shows "\<exists>t. writei ip src off n s = Ok (int (unat n)) t \<and> tx t \<and> file_ok t ip N \<and>
    file_data t ip N = put_at (unat off) bs (file_data s ip N) \<and>
    inode_at t ip = (inode_at s ip)\<lparr>i_size := of_nat (max (unat (i_size (inode_at s ip))) (unat off + unat n))\<rparr> \<and>
    disk_inode t inum = dinode_of (inode_at t ip) \<and>
    (\<forall>j. j \<noteq> inum \<longrightarrow> (\<forall>k < N. addr_of s ip k \<noteq> IBLOCK j s) \<longrightarrow> disk_inode t j = disk_inode s j) \<and>
    (\<forall>x. x \<noteq> IBLOCK inum s \<longrightarrow> (\<forall>k < N. x \<noteq> addr_of s ip k) \<longrightarrow> bview t x = bview s x)"
proof -
  let ?o = "unat off" and ?n = "unat n" and ?f = "\<lambda>i. i\<lparr>i_size := of_nat (unat off + unat n)\<rparr>"
  have "N * BSIZE \<le> NDIRECT * BSIZE" using ok(1) by (auto simp: file_ok_def)
  then have lim: "?o + ?n \<le> 12288" using rng(2) by (simp add: NDIRECT_def BSIZE_def)
  then have on: "unat (off + n) = ?o + ?n" by (simp add: unat_word_ariths)
  obtain s1 where s1: "writei_loop ip src ?o ?n 0 s = Ok (?n, ?o + ?n) s1" "tx_next s (int (span ?o ?n)) s1"
    "file_ok s1 ip N" "file_data s1 ip N = put_at ?o bs (file_data s ip N)"
    "\<forall>x. (\<forall>k < N. x \<noteq> addr_of s ip k) \<longrightarrow> bview s1 x = bview s x"
    using writei_loop_spec [OF tx ok(1), of 0 ?n ?o src bs] rng(2) src room by auto
  note f1 = lframe_fs [OF tx_nextD(2) [OF s1(2)]]
  define s2 where "s2 = (if unat (i_size (inode_at s ip)) < ?o + ?n then upd_inode ip ?f s1 else s1)"
  have v2: "bview s2 = bview s1" "in_log s2 = in_log s1" "tx s2" "tx_room s2 = tx_room s1" "IBLOCK i s2 = IBLOCK i s" for i
    using tx_nextD(1) [OF s1(2)] f1 by (simp_all add: s2_def)
  have i2: "inode_at s2 ip = (inode_at s ip)\<lparr>i_size := of_nat (max (unat (i_size (inode_at s ip))) (?o + ?n))\<rparr>"
    using ok(3) f1 inode_at_upd [of ip s1 ip ?f] by (auto simp: s2_def max_def)
  have "\<forall>k < N. IBLOCK inum s \<noteq> addr_of s ip k" using ib unfolding inum_def by metis
  then have ib2: "bview s2 (IBLOCK inum s) = bview s (IBLOCK inum s)" using s1(5) v2(1) by simp
  have n2: "i_inum (inode_at s2 ip) = inum" by (simp add: i2 inum_def)
  have "inode_ok s2 ip" using ok(2) ib2 tx_nextD(3) [OF s1(2)]
    unfolding inode_ok_def n2 v2 by (simp add: i2 inum_def)
  moreover have "1 \<le> tx_room s2" using room tx_nextD(5) [OF s1(2)] v2(4) by simp
  ultimately obtain t where t: "iupdate ip s2 = Ok () t" "tx_next s2 1 t" "disk_inode t inum = dinode_of (inode_at s2 ip)"
    "\<forall>j. j \<noteq> inum \<longrightarrow> disk_inode t j = disk_inode s2 j" "\<forall>x. x \<noteq> IBLOCK inum s \<longrightarrow> bview t x = bview s2 x"
    using iupdate_spec [OF v2(3)] n2 v2(5) by metis
  have it: "inode_at t ip = inode_at s2 ip" using lframe_fs [OF tx_nextD(2) [OF t(2)]] by simp
  have blk: "bview t (addr_of s ip k) = bview s1 (addr_of s ip k)" if "k < N" for k using t(5) ib that v2(1) by (auto simp: inum_def)
  have fd: "file_data t ip N = file_data s1 ip N"
    using blk unfolding file_data_def file_blocks_def by (intro arg_cong [of _ _ concat] map_cong) (simp_all add: it i2 f1)
  have fo: "file_ok t ip N" using s1(3) blk tx_nextD(3) [OF t(2)] v2(2) f1 by (auto simp: file_ok_def it i2)
  have "disk_inode t j = disk_inode s j" if j: "j \<noteq> inum" "\<forall>k < N. addr_of s ip k \<noteq> IBLOCK j s" for j
  proof -
    have "\<forall>k < N. IBLOCK j s \<noteq> addr_of s ip k" using j(2) by metis
    then show ?thesis using t(4) j(1) v2(1,5) s1(5) by (simp add: disk_inode_def)
  qed
  moreover have "writei ip src off n s = Ok (int ?n) t"
  proof -
    have "\<not> (i_size (inode_at s ip) < off \<or> off + n < off)" "\<not> of_nat (MAXFILE * BSIZE) < off + n"
      using rng(1) on lim by (auto simp: word_less_nat_alt word_le_nat_alt MAXFILE_def NDIRECT_def NINDIRECT_def BSIZE_def)
    moreover have "(if unat (i_size (inode_at s1 ip)) < ?o + ?n then upd_inode ip ?f s1 else s1) = s2"
      using f1 by (simp add: s2_def)
    ultimately show ?thesis using s1(1) t(1) unfolding writei_def by (simp add: Let_def)
  qed
  ultimately show ?thesis using tx_nextD(1) [OF t(2)] fd fo s1(4,5) t(3,5) it i2 v2(1) by (intro exI [of _ t]) auto
qed

text \<open>Loading an inode: the block is read and released, only the table entry changes.\<close>

lemma myproc_itable [simp]: "myproc (s\<lparr>itable := x\<rparr>) = myproc s" "mypid (s\<lparr>itable := x\<rparr>) = mypid s"
  by (simp_all add: mypid_def myproc_def mycpu_def cpuid_def split: option.splits)

lemma wakeup_from_itable: "wakeup_from is ch (s\<lparr>itable := x\<rparr>) = (wakeup_from is ch s)\<lparr>itable := x\<rparr>"
proof (induction "is" arbitrary: s)
  case (Cons i "is")
  have "upd_proc i f (s\<lparr>itable := x\<rparr>) = (upd_proc i f s)\<lparr>itable := x\<rparr>" for f by (simp add: upd_proc_def)
  then show ?case using Cons by simp
qed simp

lemma wakeup_itable [simp]: "wakeup ch (s\<lparr>itable := x\<rparr>) = (wakeup ch s)\<lparr>itable := x\<rparr>" "itable (wakeup ch s) = itable s"
  by (simp add: wakeup_def wakeup_from_itable) (subst wakeup_eq, simp)

interpretation inode_sl: sleep_lock "inode_lock ip" "upd_inode_lock ip" "\<lambda>s. ip < length (itable s)" for ip
  by unfold_locales (auto simp: inode_lock_def upd_inode_lock_def upd_inode_def nth_upd_nth)

lemma brelse_itable:
  assumes "brelse i s = Ok () t"
  shows "brelse i (s\<lparr>itable := x\<rparr>) = Ok () (t\<lparr>itable := x\<rparr>)"
proof -
  have "upd_buf i f (s\<lparr>itable := x\<rparr>) = (upd_buf i f s)\<lparr>itable := x\<rparr>" for f and s :: "'a fs_st_scheme" by (simp add: upd_buf_def)
  then show ?thesis using assms
    by (auto simp: brelse_def releasesleep_def holdingsleep_def buf_lock_def upd_buf_lock_def Let_def split: if_splits)
qed

lemma ilock_loads:
  fixes s :: "'a fs_st_scheme"
  assumes "tx s" "ip < length (itable s)" "0 < i_ref (inode_at s ip)" "\<not> i_valid (inode_at s ip)"
    "\<not> sl_locked (i_lock (inode_at s ip))" "i_dev (inode_at s ip) = ROOTDEV" "d_type (disk_inode s (i_inum (inode_at s ip))) \<noteq> 0"
  shows "\<exists>u. ilock ip s = Ok () u \<and> tx u \<and> inode_at u ip = (load_dinode (disk_inode s (i_inum (inode_at s ip))) (inode_at s ip))
    \<lparr>i_valid := True, i_lock := \<lparr>sl_locked = True, sl_pid = mypid s\<rparr>\<rparr> \<and> (\<forall>jp. jp \<noteq> ip \<longrightarrow> inode_at u jp = inode_at s jp)"
proof -
  let ?lk = "\<lambda>lk. lk\<lparr>sl_locked := True, sl_pid := mypid s\<rparr>"
  let ?s1 = "upd_inode_lock ip ?lk s" and ?inum = "i_inum (inode_at s ip)" 
  have aq: "acquiresleep [] (inode_lock ip) (upd_inode_lock ip) (ChInodeLock ip) s = Ok () ?s1"
    using assms(5) by (intro acquiresleep_free) (simp add: inode_lock_def)
  have s1: "tx ?s1" "bview ?s1 = bview s" "IBLOCK ?inum ?s1 = IBLOCK ?inum s" "length (itable ?s1) = length (itable s)"
    "inode_at ?s1 jp = (if jp = ip then (inode_at s ip)\<lparr>i_lock := ?lk (i_lock (inode_at s ip))\<rparr> else inode_at s jp)" for jp
    using assms(1,2) by (auto simp: upd_inode_lock_def upd_inode_def nth_upd_nth)
  obtain i s2 t where r: "bread ROOTDEV (IBLOCK ?inum s) ?s1 = Ok i s2" "data_of s2 i = bview ?s1 (IBLOCK ?inum s)" "lframe ?s1 s2"
    "brelse i s2 = Ok () t" "tx_next ?s1 0 t"
    using tx_blockE [OF s1(1), of "IBLOCK ?inum s"] by metis
  note f = lframe_fs [OF r(3)] and ft = lframe_fs [OF tx_nextD(2) [OF r(5)]]
  let ?d = "disk_inode s ?inum"
  let ?it = "itable (upd_inode ip (load_dinode ?d) s2)"
  have b: "brelse i (upd_inode ip (load_dinode ?d) s2) = Ok () (t\<lparr>itable := ?it\<rparr>)"
    using brelse_itable [OF r(4)] by (simp add: upd_inode_def)
  have d: "dinode_at (data_of s2 i) ?inum = ?d" using r(2) s1(2) by (simp add: disk_inode_def)
  let ?u = "upd_inode ip (\<lambda>i. i\<lparr>i_valid := True\<rparr>) (t\<lparr>itable := ?it\<rparr>)"
  have iu: "inode_at ?u jp = (if jp = ip then (load_dinode ?d (inode_at s ip))\<lparr>i_valid := True, i_lock := ?lk (i_lock (inode_at s ip))\<rparr>
    else inode_at s jp)" for jp
    using assms(2) f ft s1(4,5) by (auto simp: upd_inode_def nth_upd_nth load_dinode_def)
  have "ilock ip s = Ok () ?u"
    using aq r(1,2) s1(3,5) assms(3,4,6,7) d b iu [of ip] f by (simp add: ilock_def Let_def load_dinode_def)
  moreover have "tx ?u" using tx_nextD(1) [OF r(5)] by simp
  ultimately show ?thesis using iu by (intro exI [of _ ?u]) simp
qed

lemma iunlock_ok:
  fixes t :: "'a fs_st_scheme"
  assumes "tx t" "holdingsleep (inode_lock ip t) t" "0 < i_ref (inode_at t ip)" "ip < length (itable t)"
  shows "\<exists>v. iunlock ip t = Ok () v \<and> tx v \<and> bview v = bview t \<and> mypid v = mypid t \<and> sb v = sb t \<and> length (itable v) = length (itable t) \<and>
    inode_at v ip = (inode_at t ip)\<lparr>i_lock := \<lparr>sl_locked = False, sl_pid = 0\<rparr>\<rparr>"
proof -
  let ?w = "wakeup (ChInodeLock ip) t" and ?f = "\<lambda>lk. lk\<lparr>sl_locked := False, sl_pid := 0\<rparr>"
  let ?v = "?w\<lparr>itable := itable (upd_inode_lock ip ?f t)\<rparr>"
  have l: "log ?w = log t" "sb ?w = sb t" by (subst wakeup_eq, simp)+
  have e: "bufs ?w = bufs t" "disk ?w = disk t" "dlog ?w = dlog t" "lru ?w = lru t" by simp_all
  have inv: "bc_inv t" using assms(1) by (simp add: tx_def commit_ready_def)
  then have "bc_inv ?w" using same_bufs(6) [OF e(1,2)] e(4) by (simp add: bc_inv_def)
  moreover have "bview ?w = bview t" "bref ?w = bref t" "block_locked ?w = block_locked t" using same_bufs(1-3) [OF e(1,2)] by auto
  then have "babs ?w = babs t" using e by (simp add: babs_def)
  ultimately have w: "tx ?w" "bview ?w = bview t" "sb ?w = sb t" using tx_cong [OF assms(1) _ _ l(1)] l(2) by blast+
  have "iunlock ip t = Ok () ?v"
    using assms(2,3) by (simp add: iunlock_def releasesleep_def upd_inode_lock_def upd_inode_def)
  moreover have "inode_at ?v ip = (inode_at t ip)\<lparr>i_lock := \<lparr>sl_locked = False, sl_pid = 0\<rparr>\<rparr>" "length (itable ?v) = length (itable t)"
    using assms(4) by (simp_all add: upd_inode_lock_def upd_inode_def nth_upd_nth)
  ultimately show ?thesis using w by (intro exI [of _ ?v]) simp
qed

section \<open>Properties\<close>

text \<open>C14: writing to a file and reading it back. A \<open>writei\<close> of \<open>n\<close> bytes from the kernel at an offset inside the
  file, within its allocated direct blocks, in a transaction with room for the blocks it touches and the
  inode, returns \<open>n\<close>. The contents of the file are then the old contents with the bytes in place; the size is
  the larger of the old size and the end of the write; the inode on disk agrees with the one in memory
  and no other inode on disk changes; no block but those of the file and of the inode changes; and \<open>readi\<close> of
  the same range returns exactly the bytes.\<close>

theorem writei_readi:
  fixes s :: "'a fs_st_scheme"
  assumes "tx s" "file_ok s ip N" "inode_ok s ip" "ip < length (itable s)"
    and "off \<le> i_size (inode_at s ip)" "unat off + unat n \<le> N * BSIZE"
    and "kernel_src src (mem s) (unat n) = Some bs" "int (span (unat off) (unat n)) + 1 \<le> tx_room s"
    and "\<forall>k < N. addr_of s ip k \<noteq> IBLOCK (i_inum (inode_at s ip)) s"
  defines "inum \<equiv> i_inum (inode_at s ip)"
  shows "\<exists>t. writei ip src off n s = Ok (int (unat n)) t \<and> tx t \<and>
    file_data t ip N = put_at (unat off) bs (file_data s ip N) \<and>
    unat (i_size (inode_at t ip)) = max (unat (i_size (inode_at s ip))) (unat off + unat n) \<and>
    disk_inode t inum = dinode_of (inode_at t ip) \<and>
    (\<forall>j. j \<noteq> inum \<longrightarrow> (\<forall>k < N. addr_of s ip k \<noteq> IBLOCK j s) \<longrightarrow> disk_inode t j = disk_inode s j) \<and>
    (\<forall>x. x \<noteq> IBLOCK inum s \<longrightarrow> (\<forall>k < N. x \<noteq> addr_of s ip k) \<longrightarrow> bview t x = bview s x) \<and>
    (\<exists>u. readi ip ObjDst off n t = Ok (int (unat n), bs) u)"
proof -
  let ?o = "unat off" and ?n = "unat n"
  obtain t where t: "writei ip src off n s = Ok (int ?n) t" "tx t" "file_ok t ip N"
    "file_data t ip N = put_at ?o bs (file_data s ip N)"
    "inode_at t ip = (inode_at s ip)\<lparr>i_size := of_nat (max (unat (i_size (inode_at s ip))) (?o + ?n))\<rparr>"
    "disk_inode t inum = dinode_of (inode_at t ip)"
    "\<forall>j. j \<noteq> inum \<longrightarrow> (\<forall>k < N. addr_of s ip k \<noteq> IBLOCK j s) \<longrightarrow> disk_inode t j = disk_inode s j"
    "\<forall>x. x \<noteq> IBLOCK inum s \<longrightarrow> (\<forall>k < N. x \<noteq> addr_of s ip k) \<longrightarrow> bview t x = bview s x"
    using writei_spec [OF assms(1-9)] unfolding inum_def by blast
  have "N * BSIZE \<le> NDIRECT * BSIZE" using assms(2) by (auto simp: file_ok_def)
  then have lim: "?o + ?n \<le> 12288" using assms(6) by (simp add: NDIRECT_def BSIZE_def)
  then have on: "unat (off + n) = ?o + ?n" by (simp add: unat_word_ariths)
  have sz: "unat (i_size (inode_at t ip)) = max (unat (i_size (inode_at s ip))) (?o + ?n)"
    using lim unsigned_less [of "i_size (inode_at s ip)", where ?'a = nat] by (simp add: t(5) unat_of_nat take_bit_nat_eq_self)
  obtain u where "readi_loop ip ObjDst ?o ?n 0 [] t = Ok (int ?n, take ?n (drop ?o (file_data t ip N))) u"
    using readi_loop_spec [OF t(2,3), of 0 ?n ?o "[]"] assms(6) by auto
  moreover have "take ?n (drop ?o (file_data t ip N)) = bs"
    using take_drop_put_at [of ?o bs "file_data s ip N"] t(4) kernel_src_copyin(3) [OF assms(7), of 0]
      length_file_data [OF assms(2)] assms(6) by simp
  moreover have "\<not> (i_size (inode_at t ip) < off \<or> off + n < off)" "\<not> i_size (inode_at t ip) < off + n"
    using sz on by (auto simp: word_less_nat_alt)
  ultimately have "readi ip ObjDst off n t = Ok (int ?n, bs) u" by (simp add: readi_def)
  then show ?thesis using t sz by blast
qed

text \<open>A file of two blocks, 48 and 49, with inode 17 in block 33 of a disk of zeros; its lock is held.\<close>

definition two_block_inode :: inode where
  "two_block_inode = \<lparr>i_dev = ROOTDEV, i_inum = 17, i_ref = 1, i_lock = \<lparr>sl_locked = True, sl_pid = 0\<rparr>, i_valid = True,
     i_type = 2, i_major = 0, i_minor = 0, i_nlink = 1, i_size = 1500, i_addrs = [48, 49] @ replicate 11 0\<rparr>"

abbreviation two_block_fs :: fs_st where
  "two_block_fs \<equiv> small_fs (\<lambda>_. replicate BSIZE 0) [two_block_inode]"

lemma all_less_2: "(\<forall>k < 2. P k) \<longleftrightarrow> P 0 \<and> P (Suc 0)"
  by (auto simp: less_2_cases_iff)

lemma two_block_fs:
  "IBLOCK 17 two_block_fs = 33"
  "file_ok two_block_fs 0 2" "inode_ok two_block_fs 0" "\<forall>k < 2. addr_of two_block_fs 0 k \<noteq> IBLOCK 17 two_block_fs"
proof -
  show ib: "IBLOCK 17 two_block_fs = 33" by (simp add: IBLOCK_def small_fs small_sb_def IPB_def BSIZE_def)
  show "file_ok two_block_fs 0 2" unfolding file_ok_def all_less_2
    by (simp add: small_fs two_block_inode_def NDIRECT_def)
  show "inode_ok two_block_fs 0" using ib by (simp add: inode_ok_def small_fs two_block_inode_def)
  show "\<forall>k < 2. addr_of two_block_fs 0 k \<noteq> IBLOCK 17 two_block_fs"
    unfolding ib all_less_2 by (simp add: small_fs two_block_inode_def)
qed

theorem writei_readi_witness:
  "\<exists>t u. writei 0 (ObjSrc [7, 8, 9]) 1023 3 two_block_fs = Ok 3 t \<and> readi 0 ObjDst 1023 3 t = Ok (3, [7, 8, 9]) u \<and>
    unat (i_size (inode_at t 0)) = 1500"
proof -
  have "span 1023 3 = 2" by (simp add: span_def BSIZE_def)
  then show ?thesis
    using writei_readi [OF small_fs(1) two_block_fs(2,3), of 1023 3 "ObjSrc [7, 8, 9]" "[7, 8, 9]"] two_block_fs(4)
    by (auto simp: small_fs two_block_inode_def BSIZE_def)
qed

text \<open>C15: an inode survives leaving memory. A process that holds the sleep lock of the inode calls \<open>iupdate\<close>, which writes the inode of the
  table entry to its place on disk, and then releases the lock with \<open>iunlock\<close>; when the entry has since lost its contents (\<open>i_valid\<close> cleared, the other fields
  arbitrary), \<open>ilock\<close> takes the lock again and the entry is exactly what it was, read back from disk. No other
  inode on disk and no other block changes.\<close>

theorem iupdate_ilock:
  fixes s :: "'a fs_st_scheme"
  assumes "tx s" "1 \<le> tx_room s" "inode_ok s ip" "ip < length (itable s)" "0 < i_ref (inode_at s ip)"
    "holdingsleep (inode_lock ip s) s" "i_type (inode_at s ip) \<noteq> 0"
  defines "inum \<equiv> i_inum (inode_at s ip)"
  shows "\<exists>t v. iupdate ip s = Ok () t \<and> (\<forall>j. j \<noteq> inum \<longrightarrow> disk_inode t j = disk_inode s j) \<and>
    (\<forall>x. x \<noteq> IBLOCK inum s \<longrightarrow> bview t x = bview s x) \<and> iunlock ip t = Ok () v \<and>
    (\<exists>u. ilock ip (upd_inode ip (\<lambda>i. load_dinode g (i\<lparr>i_valid := False\<rparr>)) v) = Ok () u \<and>
      inode_at u ip = (inode_at s ip)\<lparr>i_valid := True\<rparr>)"
proof -
  obtain t where t: "iupdate ip s = Ok () t" "tx_next s 1 t" "disk_inode t inum = dinode_of (inode_at s ip)"
    "\<forall>j. j \<noteq> inum \<longrightarrow> disk_inode t j = disk_inode s j" "\<forall>x. x \<noteq> IBLOCK inum s \<longrightarrow> bview t x = bview s x"
    using iupdate_spec [OF assms(1-3)] unfolding inum_def by blast
  note f = lframe_fs [OF tx_nextD(2) [OF t(2)]]
  have lk: "i_lock (inode_at s ip) = \<lparr>sl_locked = True, sl_pid = mypid s\<rparr>" using assms(6) by (simp add: holdingsleep_def inode_lock_def)
  have pid: "mypid t = mypid s" using lframe_fields(3) [OF tx_nextD(2) [OF t(2)]] .
  have "holdingsleep (inode_lock ip t) t" "0 < i_ref (inode_at t ip)" "ip < length (itable t)"
    using lk pid f assms(4,5) by (simp_all add: holdingsleep_def inode_lock_def)
  then obtain v where v: "iunlock ip t = Ok () v" "tx v" "bview v = bview t" "mypid v = mypid t" "sb v = sb t" "length (itable v) = length (itable t)"
    "inode_at v ip = (inode_at t ip)\<lparr>i_lock := \<lparr>sl_locked = False, sl_pid = 0\<rparr>\<rparr>"
    using iunlock_ok [OF tx_nextD(1) [OF t(2)]] by blast
  let ?v = "upd_inode ip (\<lambda>i. load_dinode g (i\<lparr>i_valid := False\<rparr>)) v"
  have lt: "ip < length (itable ?v)" using assms(4) f v(6) by simp
  have i: "inode_at ?v ip = load_dinode g ((inode_at s ip)\<lparr>i_lock := \<lparr>sl_locked = False, sl_pid = 0\<rparr>, i_valid := False\<rparr>)"
    using inode_at_upd [of ip v ip] lt f v(7) by simp
  have d: "disk_inode ?v inum = dinode_of (inode_at s ip)" using t(3) v(3,5) by (simp add: disk_inode_def IBLOCK_def upd_inode_def)
  have "i_dev (inode_at s ip) = ROOTDEV" using assms(3) by (simp add: inode_ok_def)
  then obtain u where u: "ilock ip ?v = Ok () u"
    "inode_at u ip = (load_dinode (disk_inode ?v inum) (inode_at ?v ip))\<lparr>i_valid := True, i_lock := \<lparr>sl_locked = True, sl_pid = mypid ?v\<rparr>\<rparr>"
    using ilock_loads [of ?v ip] v(2) lt i assms(5,7) d by (auto simp: load_dinode_def inum_def dinode_of_def)
  have "mypid ?v = mypid s" using v(4) pid by (simp add: upd_inode_def)
  then have "inode_at u ip = (inode_at s ip)\<lparr>i_valid := True\<rparr>" using u(2) i d lk by (simp add: load_dinode_def dinode_of_def)
  then show ?thesis using t v(1) u(1) by blast
qed

theorem iupdate_ilock_witness:
  "\<exists>t v u. iupdate 0 two_block_fs = Ok () t \<and> iunlock 0 t = Ok () v \<and>
    ilock 0 (upd_inode 0 (\<lambda>i. load_dinode (dec_dinode (replicate 64 0)) (i\<lparr>i_valid := False\<rparr>)) v) = Ok () u \<and>
    i_size (inode_at u 0) = 1500 \<and> i_addrs (inode_at u 0) = [48, 49] @ replicate 11 0"
proof -
  have "holdingsleep (inode_lock 0 two_block_fs) two_block_fs"
    by (simp add: holdingsleep_def inode_lock_def small_fs(5,8)) (simp add: two_block_inode_def)
  then show ?thesis
    using iupdate_ilock [OF small_fs(1) _ two_block_fs(3), of "dec_dinode (replicate 64 0)"] by (fastforce simp: small_fs two_block_inode_def)
qed

end
