(* ===== verification/Ring.thy ===== *)
theory Ring
  imports Prelude
begin

text \<open>
  Ring buffers indexed by free-running counters. The pipe, the console input and the transmit queue
  of the UART all keep bytes in an array of \<open>sz\<close> entries with a read and a write counter that are never
  reduced; entry \<open>k\<close> of the queue is at index \<open>(r + k) mod sz\<close>. The counters are machine words and wrap
  around, which is harmless because the size of the ring divides the number of words. The locale proves
  once that such a ring is a queue of at most \<open>sz\<close> elements.
\<close>

definition ring_contents :: "nat \<Rightarrow> 'a list \<Rightarrow> 'w::len word \<Rightarrow> 'w word \<Rightarrow> 'a list" where
  "ring_contents sz d r w = map (\<lambda>k. d ! (unat (r + of_nat k) mod sz)) [0..<unat (w - r)]"

locale ring =
  fixes sz :: nat and counter :: "'w::len word itself"
  assumes sz_pos: "0 < sz" and sz_dvd: "sz dvd 2 ^ LENGTH('w)" and sz_less: "sz < 2 ^ LENGTH('w)"
begin

lemma unat_mod: "unat (a + b :: 'w word) mod sz = (unat a + unat b) mod sz"
  using sz_dvd by (simp add: unat_word_ariths mod_mod_cancel)

lemma length_contents [simp]: "length (ring_contents sz d r (w :: 'w word)) = unat (w - r)"
  by (simp add: ring_contents_def)

lemma contents_empty [simp]: "ring_contents sz d r (r :: 'w word) = []"
  by (simp add: ring_contents_def)

text \<open>Taking the oldest element.\<close>

lemma contents_pop:
  assumes "r \<noteq> (w :: 'w word)"
  shows "ring_contents sz d r w = d ! (unat r mod sz) # ring_contents sz d (r + 1) w"
proof -
  have pos: "unat (w - r) \<noteq> 0" using assms by (simp add: unat_eq_zero)
  have "unat (w - (r + 1)) = unat (w - r) - 1"
  proof -
    have "w - r \<noteq> 0" using assms by simp
    then show ?thesis using unat_minus_one [of "w - r"] by (simp add: diff_diff_eq)
  qed
  then have n: "unat (w - r) = Suc (unat (w - (r + 1)))" using pos by simp
  show ?thesis unfolding ring_contents_def n
    by (simp add: upt_conv_Cons map_Suc_upt [symmetric] algebra_simps del: upt_Suc)
qed

text \<open>Adding an element when the ring is not full.\<close>

lemma contents_push:
  assumes room: "unat (w - r :: 'w word) < sz" and len: "length d = sz"
  shows "ring_contents sz (d[unat w mod sz := x]) r (w + 1) = ring_contents sz d r w @ [x]"
proof -
  let ?n = "unat (w - r)"
  have small: "Suc ?n < 2 ^ LENGTH('w)" using room sz_less by simp
  then have "unat ((w - r) + 1) = Suc ?n" by (simp add: unat_word_ariths)
  then have n1: "unat (w + 1 - r) = Suc ?n" by (simp add: algebra_simps)
  have idx: "unat (r + of_nat k) mod sz = (unat r + k) mod sz" if "k \<le> ?n" for k
    using that small unat_mod [of r "of_nat k"] by (simp add: unat_of_nat take_bit_nat_eq_self)
  have w: "unat w mod sz = (unat r + ?n) mod sz" using idx [of ?n] by simp
  have old: "(d[unat w mod sz := x]) ! (unat (r + of_nat k) mod sz) = d ! (unat (r + of_nat k) mod sz)" if k: "k < ?n" for k
  proof -
    have "unat (r + of_nat k) mod sz \<noteq> unat w mod sz"
    proof
      assume "unat (r + of_nat k) mod sz = unat w mod sz"
      then have "(unat r + ?n) mod sz = (unat r + k) mod sz" using idx [of k] w k by simp
      then have "sz dvd (unat r + ?n) - (unat r + k)" using k by (subst (asm) mod_eq_dvd_iff_nat) simp_all
      then have "sz dvd ?n - k" by simp
      then show False using k room by (auto dest: dvd_imp_le)
    qed
    then show ?thesis by simp
  qed
  have "unat w mod sz < length d" using len sz_pos by simp
  then have "(d[unat w mod sz := x]) ! (unat (r + of_nat ?n) mod sz) = x" by simp
  then show ?thesis unfolding ring_contents_def n1 using old by simp
qed

text \<open>Taking back the newest element, and the elements up to an earlier write counter.\<close>

lemma contents_unpush:
  assumes "w \<noteq> (r :: 'w word)"
  shows "ring_contents sz d r (w - 1) = butlast (ring_contents sz d r w)"
    "last (ring_contents sz d r w) = d ! (unat (w - 1) mod sz)"
proof -
  have nz: "w - r \<noteq> 0" using assms by simp
  have "unat (w - 1 - r) = unat (w - r) - 1" using unat_minus_one [OF nz] by (simp add: algebra_simps)
  moreover have "unat (w - r) \<noteq> 0" using assms by (simp add: unat_eq_zero)
  ultimately have n: "unat (w - r) = Suc (unat (w - 1 - r))" by simp
  then show "ring_contents sz d r (w - 1) = butlast (ring_contents sz d r w)" by (simp add: ring_contents_def)
  have "r + of_nat (unat (w - 1 - r)) = w - 1" by simp
  then show "last (ring_contents sz d r w) = d ! (unat (w - 1) mod sz)" using n by (simp add: ring_contents_def)
qed

lemma contents_take:
  "unat (w - r) \<le> unat (e - r :: 'w word) \<Longrightarrow> ring_contents sz d r w = take (unat (w - r)) (ring_contents sz d r e)"
  by (simp add: ring_contents_def take_map)

end

end
