(* ===== verification/Pipe.thy ===== *)
theory Pipe
  imports Dir Ring UserMem
begin

text \<open>
  kernel/pipe.c: pipes. A pipe occupies a page of memory; the state maps the address of the page to the
  \<open>struct pipe\<close> in it. The two wait channels are the addresses of its counters. \<open>pipewrite\<close> and
  \<open>piperead\<close> sleep while the pipe is full or empty and take the list of what the rest of the system does
  during each sleep. \<open>pipealloc\<close> needs the file table and is in File.
\<close>

definition PIPESIZE :: nat where "PIPESIZE = 512"

record pipe =
  pi_data :: "uint8 list"
  pi_nread :: uint32
  pi_nwrite :: uint32
  pi_readopen :: bool
  pi_writeopen :: bool

record pipe_st = fs_st +
  pipes :: "uint64 \<Rightarrow> pipe"

definition upd_pipe :: "uint64 \<Rightarrow> (pipe \<Rightarrow> pipe) \<Rightarrow> 'a pipe_st_scheme \<Rightarrow> 'a pipe_st_scheme" where
  "upd_pipe pi f s = s\<lparr>pipes := (pipes s)(pi := f (pipes s pi))\<rparr>"

definition pipeclose :: "uint64 \<Rightarrow> bool \<Rightarrow> 'a pipe_st_scheme \<Rightarrow> (unit, 'a pipe_st_scheme) res" where
  "pipeclose pi writable s =
     (let s = (if writable
               then wakeup (ChPipeRead pi) (upd_pipe pi (\<lambda>p. p\<lparr>pi_writeopen := False\<rparr>) s)
               else wakeup (ChPipeWrite pi) (upd_pipe pi (\<lambda>p. p\<lparr>pi_readopen := False\<rparr>) s)) in
      if \<not> pi_readopen (pipes s pi) \<and> \<not> pi_writeopen (pipes s pi) then kfree pi s else Ok () s)"

text \<open>\<open>pi->data[pi->nwrite++ % PIPESIZE] = ch\<close> and \<open>ch = pi->data[pi->nread++ % PIPESIZE]\<close>.\<close>

definition pipe_put :: "uint8 \<Rightarrow> pipe \<Rightarrow> pipe" where
  "pipe_put ch p = p\<lparr>pi_data := (pi_data p)[unat (pi_nwrite p) mod PIPESIZE := ch], pi_nwrite := pi_nwrite p + 1\<rparr>"

definition pipe_get :: "pipe \<Rightarrow> uint8 \<times> pipe" where
  "pipe_get p = (pi_data p ! (unat (pi_nread p) mod PIPESIZE), p\<lparr>pi_nread := pi_nread p + 1\<rparr>)"

function pipewrite_loop ::
  "('a pipe_st_scheme \<Rightarrow> 'a pipe_st_scheme) list \<Rightarrow> nat \<Rightarrow> uint64 \<Rightarrow> uint64 \<Rightarrow> int \<Rightarrow> int \<Rightarrow> 'a pipe_st_scheme \<Rightarrow>
     (int, 'a pipe_st_scheme) res" where
  "pipewrite_loop env pr pi addr n i s =
     (if i < n then
        if \<not> pi_readopen (pipes s pi) \<or> killed pr s then Ok (- 1) s
        else if pi_nwrite (pipes s pi) = pi_nread (pipes s pi) + of_nat PIPESIZE then
          let s = go_to_sleep pr (ChPipeWrite pi) (wakeup (ChPipeRead pi) s) in
          (case env of [] \<Rightarrow> Asleep (ChPipeWrite pi) s | e # env \<Rightarrow> pipewrite_loop env pr pi addr n i (woken pr (e s)))
        else
          bindR (copyin (p_pagetable (proc_at s pr)) (addr + of_int i) 1 s) (\<lambda>(r, bs) s.
            if r = - 1 then Ok i (wakeup (ChPipeRead pi) s)
            else pipewrite_loop env pr pi addr n (i + 1) (upd_pipe pi (pipe_put (hd bs)) s))
      else Ok i (wakeup (ChPipeRead pi) s))"
  by pat_completeness auto
termination
  by (relation "measure (\<lambda>(env, pr, pi, addr, n, i, s). nat (n - i) + length env)") auto

declare pipewrite_loop.simps [simp del]

definition pipewrite ::
  "('a pipe_st_scheme \<Rightarrow> 'a pipe_st_scheme) list \<Rightarrow> uint64 \<Rightarrow> uint64 \<Rightarrow> int \<Rightarrow> 'a pipe_st_scheme \<Rightarrow>
     (int, 'a pipe_st_scheme) res" where
  "pipewrite env pi addr n s =
     (case myproc s of
        None \<Rightarrow> Panic ''undefined: myproc()''
      | Some pr \<Rightarrow> pipewrite_loop env pr pi addr n 0 s)"

fun piperead_wait ::
  "('a pipe_st_scheme \<Rightarrow> 'a pipe_st_scheme) list \<Rightarrow> nat \<Rightarrow> uint64 \<Rightarrow> 'a pipe_st_scheme \<Rightarrow> (int, 'a pipe_st_scheme) res" where
  "piperead_wait env pr pi s =
     (if pi_nread (pipes s pi) = pi_nwrite (pipes s pi) \<and> pi_writeopen (pipes s pi) then
        if killed pr s then Ok (- 1) s
        else
          let s = go_to_sleep pr (ChPipeRead pi) s in
          (case env of [] \<Rightarrow> Asleep (ChPipeRead pi) s | e # env \<Rightarrow> piperead_wait env pr pi (woken pr (e s)))
      else Ok 0 s)"

declare piperead_wait.simps [simp del]

function piperead_loop ::
  "nat \<Rightarrow> uint64 \<Rightarrow> uint64 \<Rightarrow> int \<Rightarrow> int \<Rightarrow> 'a pipe_st_scheme \<Rightarrow> (int, 'a pipe_st_scheme) res" where
  "piperead_loop pr pi addr n i s =
     (if i < n \<and> pi_nread (pipes s pi) \<noteq> pi_nwrite (pipes s pi) then
        let (ch, p) = pipe_get (pipes s pi) in
        bindR (copyout (p_pagetable (proc_at s pr)) (addr + of_int i) [ch] (upd_pipe pi (\<lambda>_. p) s)) (\<lambda>r s.
          if r = - 1 then Ok i s else piperead_loop pr pi addr n (i + 1) s)
      else Ok i s)"
  by pat_completeness auto
termination
  by (relation "measure (\<lambda>(pr, pi, addr, n, i, s). nat (n - i))") auto

declare piperead_loop.simps [simp del]

definition piperead ::
  "('a pipe_st_scheme \<Rightarrow> 'a pipe_st_scheme) list \<Rightarrow> uint64 \<Rightarrow> uint64 \<Rightarrow> int \<Rightarrow> 'a pipe_st_scheme \<Rightarrow>
     (int, 'a pipe_st_scheme) res" where
  "piperead env pi addr n s =
     (case myproc s of
        None \<Rightarrow> Panic ''undefined: myproc()''
      | Some pr \<Rightarrow>
          bindR (piperead_wait env pr pi s) (\<lambda>r s.
            if r = - 1 then Ok (- 1) s
            else bindR (piperead_loop pr pi addr n 0 s) (\<lambda>i s. Ok i (wakeup (ChPipeWrite pi) s))))"

section \<open>A pipe is a queue\<close>

definition pipe_bytes :: "pipe \<Rightarrow> uint8 list" where
  "pipe_bytes p = ring_contents PIPESIZE (pi_data p) (pi_nread p) (pi_nwrite p)"

definition pipe_ok :: "pipe \<Rightarrow> bool" where
  "pipe_ok p \<longleftrightarrow> length (pi_data p) = PIPESIZE \<and> unat (pi_nwrite p - pi_nread p) \<le> PIPESIZE"

interpretation pring: ring PIPESIZE "TYPE(uint32)"
  by unfold_locales (simp_all add: PIPESIZE_def)

lemma length_pipe_bytes: "length (pipe_bytes p) = unat (pi_nwrite p - pi_nread p)"
  by (simp add: pipe_bytes_def)

lemma pipe_empty_iff: "pi_nread p = pi_nwrite p \<longleftrightarrow> pipe_bytes p = []"
  using length_pipe_bytes [of p] by (auto simp: unat_eq_zero)

lemma pipe_full_iff: "pi_nwrite p = pi_nread p + of_nat PIPESIZE \<longleftrightarrow> length (pipe_bytes p) = PIPESIZE"
proof -
  have "pi_nwrite p = pi_nread p + of_nat PIPESIZE \<longleftrightarrow> pi_nwrite p - pi_nread p = of_nat PIPESIZE"
    by (auto simp: algebra_simps)
  also have "\<dots> \<longleftrightarrow> unat (pi_nwrite p - pi_nread p) = PIPESIZE" by (simp add: word_unat_eq_iff PIPESIZE_def)
  finally show ?thesis by (simp add: length_pipe_bytes)
qed

lemma pipe_put_bytes:
  assumes "pipe_ok p" "length (pipe_bytes p) \<noteq> PIPESIZE"
  shows "pipe_bytes (pipe_put c p) = pipe_bytes p @ [c]" "pipe_ok (pipe_put c p)"
proof -
  have room: "unat (pi_nwrite p - pi_nread p) < PIPESIZE" using assms by (simp add: pipe_ok_def length_pipe_bytes)
  then show b: "pipe_bytes (pipe_put c p) = pipe_bytes p @ [c]"
    using assms(1) pring.contents_push [of "pi_nwrite p" "pi_nread p" "pi_data p" c]
    by (simp add: pipe_bytes_def pipe_put_def pipe_ok_def)
  have "length (pipe_bytes (pipe_put c p)) \<le> PIPESIZE" using b room by (simp add: length_pipe_bytes)
  then show "pipe_ok (pipe_put c p)" using assms(1) by (simp add: pipe_ok_def length_pipe_bytes) (simp add: pipe_put_def)
qed

lemma pipe_get_bytes:
  assumes "pipe_ok p" "pipe_bytes p = c # cs"
  shows "fst (pipe_get p) = c" "pipe_bytes (snd (pipe_get p)) = cs" "pipe_ok (snd (pipe_get p))"
proof -
  have "pi_nread p \<noteq> pi_nwrite p" using assms(2) by (simp add: pipe_empty_iff)
  then have e: "pipe_bytes p = pi_data p ! (unat (pi_nread p) mod PIPESIZE) # pipe_bytes (snd (pipe_get p))"
    using pring.contents_pop [of "pi_nread p" "pi_nwrite p" "pi_data p"] by (simp add: pipe_bytes_def pipe_get_def)
  then show c: "fst (pipe_get p) = c" "pipe_bytes (snd (pipe_get p)) = cs" using assms(2) by (auto simp: pipe_get_def)
  have "length (pipe_bytes (snd (pipe_get p))) \<le> PIPESIZE"
    using e assms(1) length_pipe_bytes [of p] by (simp add: pipe_ok_def)
  then show "pipe_ok (snd (pipe_get p))" using assms(1) unfolding length_pipe_bytes by (simp add: pipe_ok_def) (simp add: pipe_get_def)
qed

lemma upd_pipe_simps [simp]:
  "mem (upd_pipe pi f s) = mem s" "procs (upd_pipe pi f s) = procs s" "myproc (upd_pipe pi f s) = myproc s"
  "killed pr (upd_pipe pi f s) = killed pr s" "pipes (upd_pipe pi f s) pi = f (pipes s pi)"
  "upd_pipe pi g (upd_pipe pi f s) = upd_pipe pi (\<lambda>p. g (f p)) s"
  by (simp_all add: upd_pipe_def myproc_def mycpu_def cpuid_def killed_def)

lemma copyin_one:
  assumes "table_ok 2 (mem s) pt"
  shows "copyin pt va 1 s = (case user_pa (mem s) pt va of None \<Rightarrow> Ok (- 1, []) s | Some pa \<Rightarrow> Ok (0, [mem s pa]) s)"
  using copyin_refines [OF assms, of va 1] by (simp add: numeral_1_eq_Suc_0 split: option.splits)

lemma upd_pipe_id [simp]: "upd_pipe pi (\<lambda>_. pipes s pi) s = s"
  by (simp add: upd_pipe_def)

section \<open>Writing\<close>

text \<open>\<open>bs\<close> are the bytes of the source up to the first address that is not mapped. The writer is put to
  sleep when the pipe is full before they are all in it.\<close>

lemma pipewrite_loop_spec:
  assumes "pipe_ok (pipes s pi)" "table_ok 2 (mem s) (p_pagetable (proc_at s pr))"
    and "pi_readopen (pipes s pi)" "\<not> killed pr s" "i \<le> n"
    and "copyin_bytes (user_pa (mem s) (p_pagetable (proc_at s pr))) (mem s) (addr + of_int i) (nat (n - i)) = (e, bs)"
    and "room = PIPESIZE - length (pipe_bytes (pipes s pi))"
  shows "\<exists>p. pipe_ok p \<and> pi_readopen p = pi_readopen (pipes s pi) \<and> pi_writeopen p = pi_writeopen (pipes s pi) \<and>
    (if room < nat (n - i) \<and> room \<le> length bs
     then pipe_bytes p = pipe_bytes (pipes s pi) @ take room bs \<and> pipewrite_loop [] pr pi addr n i s =
       Asleep (ChPipeWrite pi) (go_to_sleep pr (ChPipeWrite pi) (wakeup (ChPipeRead pi) (upd_pipe pi (\<lambda>_. p) s)))
     else pipe_bytes p = pipe_bytes (pipes s pi) @ bs \<and> pipewrite_loop [] pr pi addr n i s =
       Ok (i + int (length bs)) (wakeup (ChPipeRead pi) (upd_pipe pi (\<lambda>_. p) s)))"
  using assms
proof (induction "nat (n - i)" arbitrary: i s bs room)
  case 0
  then have "i = n" "bs = []" by auto
  then show ?case using 0 by (intro exI [of _ "pipes s pi"]) (auto simp: pipewrite_loop.simps)
next
  case (Suc k)
  let ?p = "pipes s pi" and ?pt = "p_pagetable (proc_at s pr)" and ?va = "addr + of_int i"
  let ?tr = "user_pa (mem s) ?pt"
  have lt: "i < n" and k: "k = nat (n - (i + 1))" "nat (n - i) = Suc k" using Suc.hyps(2) by auto
  have le: "length (pipe_bytes ?p) \<le> PIPESIZE" using Suc.prems(1) by (simp add: pipe_ok_def length_pipe_bytes)
  show ?case
  proof (cases "length (pipe_bytes ?p) = PIPESIZE")
    case True
    then have "pipewrite_loop [] pr pi addr n i s =
        Asleep (ChPipeWrite pi) (go_to_sleep pr (ChPipeWrite pi) (wakeup (ChPipeRead pi) s))"
      using lt Suc.prems(3,4) by (simp add: pipewrite_loop.simps [of _ _ _ _ _ i] pipe_full_iff Let_def)
    then show ?thesis using True Suc.prems(1,7) k(2) by (intro exI [of _ ?p]) auto
  next
    case False
    have loop: "pipewrite_loop [] pr pi addr n i s = bindR (copyin ?pt ?va 1 s) (\<lambda>(r, bs) s.
        if r = - 1 then Ok i (wakeup (ChPipeRead pi) s)
        else pipewrite_loop [] pr pi addr n (i + 1) (upd_pipe pi (pipe_put (hd bs)) s))"
      using lt False Suc.prems(3,4) by (simp add: pipewrite_loop.simps [of _ _ _ _ _ i] pipe_full_iff)
    show ?thesis
    proof (cases "?tr ?va")
      case None
      then have "bs = []" using Suc.prems(6) k(2) by simp
      moreover have "pipewrite_loop [] pr pi addr n i s = Ok i (wakeup (ChPipeRead pi) s)"
        using loop copyin_one [OF Suc.prems(2)] None by simp
      ultimately show ?thesis using False le Suc.prems(1,7) by (intro exI [of _ ?p]) auto
    next
      case (Some pa)
      let ?c = "mem s pa" and ?s = "upd_pipe pi (pipe_put (mem s pa)) s"
      have next_va: "?va + 1 = addr + of_int (i + 1)" by simp
      obtain bs' where bs: "bs = ?c # bs'" "copyin_bytes ?tr (mem s) (addr + of_int (i + 1)) k = (e, bs')"
        using Suc.prems(6) k(2) Some by (auto simp: algebra_simps split: prod.splits)
      note put = pipe_put_bytes [OF Suc.prems(1) False, of ?c]
      have "\<exists>p. pipe_ok p \<and> pi_readopen p = pi_readopen (pipes ?s pi) \<and> pi_writeopen p = pi_writeopen (pipes ?s pi) \<and>
        (if room - 1 < nat (n - (i + 1)) \<and> room - 1 \<le> length bs'
         then pipe_bytes p = pipe_bytes (pipes ?s pi) @ take (room - 1) bs' \<and> pipewrite_loop [] pr pi addr n (i + 1) ?s =
           Asleep (ChPipeWrite pi) (go_to_sleep pr (ChPipeWrite pi) (wakeup (ChPipeRead pi) (upd_pipe pi (\<lambda>_. p) ?s)))
         else pipe_bytes p = pipe_bytes (pipes ?s pi) @ bs' \<and> pipewrite_loop [] pr pi addr n (i + 1) ?s =
           Ok (i + 1 + int (length bs')) (wakeup (ChPipeRead pi) (upd_pipe pi (\<lambda>_. p) ?s)))"
        using Suc.prems lt put bs(2) k(1) by (intro Suc.hyps(1)) (auto simp: pipe_put_def)
      then obtain p where p: "pipe_ok p" "pi_readopen p = pi_readopen ?p" "pi_writeopen p = pi_writeopen ?p"
        "if room - 1 < k \<and> room - 1 \<le> length bs'
         then pipe_bytes p = pipe_bytes ?p @ ?c # take (room - 1) bs' \<and> pipewrite_loop [] pr pi addr n (i + 1) ?s =
           Asleep (ChPipeWrite pi) (go_to_sleep pr (ChPipeWrite pi) (wakeup (ChPipeRead pi) (upd_pipe pi (\<lambda>_. p) s)))
         else pipe_bytes p = pipe_bytes ?p @ ?c # bs' \<and> pipewrite_loop [] pr pi addr n (i + 1) ?s =
           Ok (i + 1 + int (length bs')) (wakeup (ChPipeRead pi) (upd_pipe pi (\<lambda>_. p) s))"
        using put(1) k(1) by (auto simp: pipe_put_def)
      have same: "pipewrite_loop [] pr pi addr n i s = pipewrite_loop [] pr pi addr n (i + 1) ?s"
        using loop copyin_one [OF Suc.prems(2)] Some by simp
      have r: "0 < room" using False le Suc.prems(7) by simp
      then have "room - 1 < k \<longleftrightarrow> room < nat (n - i)" "room - 1 \<le> length bs' \<longleftrightarrow> room \<le> length bs"
          "take room bs = ?c # take (room - 1) bs'"
        using k(2) bs(1) by (auto simp: take_Cons')
      then show ?thesis using p bs(1) same by (intro exI [of _ p]) (auto split: if_splits)
    qed
  qed
qed

section \<open>Reading\<close>

lemma upd_pipe_mem [simp]: "(upd_pipe pi f s)\<lparr>mem := m\<rparr> = upd_pipe pi f (s\<lparr>mem := m\<rparr>)"
  by (simp add: upd_pipe_def)

lemma piperead_loop_spec:
  assumes "pipe_ok (pipes s pi)" "user_space (mem s) (p_pagetable (proc_at s pr))" "i \<le> n"
    and "k = min (nat (n - i)) (length (pipe_bytes (pipes s pi)))"
    and "\<And>j. j < k \<Longrightarrow> user_pa (mem s) (p_pagetable (proc_at s pr)) (addr + of_int i + of_nat j) \<noteq> None"
  shows "\<exists>p. pipe_ok p \<and> pi_readopen p = pi_readopen (pipes s pi) \<and> pi_writeopen p = pi_writeopen (pipes s pi) \<and>
    pipe_bytes p = drop k (pipe_bytes (pipes s pi)) \<and>
    piperead_loop pr pi addr n i s = Ok (i + int k) (upd_pipe pi (\<lambda>_. p) (s\<lparr>mem :=
      snd (copyout_bytes (user_pa (mem s) (p_pagetable (proc_at s pr))) (mem s) (addr + of_int i)
        (take k (pipe_bytes (pipes s pi))))\<rparr>))"
  using assms
proof (induction k arbitrary: i s)
  case 0
  then have "piperead_loop pr pi addr n i s = Ok i s"
    by (auto simp: piperead_loop.simps [of _ _ _ _ i] pipe_empty_iff min_def split: if_splits)
  then show ?case using 0 by (intro exI [of _ "pipes s pi"]) simp
next
  case (Suc k)
  let ?p = "pipes s pi" and ?pt = "p_pagetable (proc_at s pr)" and ?va = "addr + of_int i"
  let ?tr = "user_pa (mem s) ?pt"
  have lt: "i < n" "pipe_bytes ?p \<noteq> []" using Suc.prems(4) by (auto simp: min_def split: if_splits)
  then obtain c cs where q: "pipe_bytes ?p = c # cs" by (cases "pipe_bytes ?p") auto
  note get = pipe_get_bytes [OF Suc.prems(1) q]
  obtain pa where pa: "?tr ?va = Some pa" using Suc.prems(5) [of 0] by auto
  define m where "m = (mem s)(pa := c)"
  note wr = user_write_frame [OF Suc.prems(2) pa, of c, folded m_def]
  let ?s = "upd_pipe pi (\<lambda>_. snd (pipe_get ?p)) (s\<lparr>mem := m\<rparr>)"
  have step: "piperead_loop pr pi addr n i s = piperead_loop pr pi addr n (i + 1) ?s"
    using lt get(1) pa Suc.prems(2) copyout_one [of "upd_pipe pi (\<lambda>_. snd (pipe_get ?p)) s" ?pt ?va c]
    by (simp add: piperead_loop.simps [of _ _ _ _ i] pipe_empty_iff split_beta m_def)
  have dst: "user_pa (mem ?s) ?pt (addr + of_int (i + 1) + of_nat j) \<noteq> None" if "j < k" for j
    using Suc.prems(5) [of "Suc j"] that wr(1) by (simp add: algebra_simps)
  have "\<exists>p. pipe_ok p \<and> pi_readopen p = pi_readopen (pipes ?s pi) \<and> pi_writeopen p = pi_writeopen (pipes ?s pi) \<and>
    pipe_bytes p = drop k (pipe_bytes (pipes ?s pi)) \<and>
    piperead_loop pr pi addr n (i + 1) ?s = Ok (i + 1 + int k) (upd_pipe pi (\<lambda>_. p) (?s\<lparr>mem :=
      snd (copyout_bytes (user_pa (mem ?s) (p_pagetable (proc_at ?s pr))) (mem ?s) (addr + of_int (i + 1))
        (take k (pipe_bytes (pipes ?s pi))))\<rparr>))"
    using get wr lt Suc.prems(4) q dst by (intro Suc.IH) (auto simp: min_def split: if_splits)
  then obtain p where p: "pipe_ok p" "pi_readopen p = pi_readopen ?p" "pi_writeopen p = pi_writeopen ?p"
    "pipe_bytes p = drop k cs"
    "piperead_loop pr pi addr n (i + 1) ?s = Ok (i + 1 + int k) (upd_pipe pi (\<lambda>_. p) (s\<lparr>mem :=
      snd (copyout_bytes ?tr m (addr + of_int (i + 1)) (take k cs))\<rparr>))"
    using get wr(1) by (auto simp: pipe_get_def)
  have "copyout_bytes ?tr (mem s) ?va (take (Suc k) (pipe_bytes ?p)) =
      copyout_bytes ?tr m (addr + of_int (i + 1)) (take k cs)"
    using q pa by (simp add: algebra_simps m_def)
  then show ?case using p step q by (intro exI [of _ p]) simp
qed

section \<open>Properties\<close>

text \<open>C20: writing to a pipe. A write of \<open>n\<close> > 0 bytes fails with -1 when the read end is closed or the
  process is killed, leaving the state alone. Otherwise the bytes of the source, up to the first address
  that is not mapped, are appended to the queue in order, and their number is returned; when the queue
  fills up first, exactly the bytes that fit are appended and the writer sleeps with the queue full.
  Nothing but the pipe and the processes woken changes.\<close>

theorem pipewrite_appends:
  assumes "pipe_ok (pipes s pi)" "myproc s = Some pr" "table_ok 2 (mem s) (p_pagetable (proc_at s pr))" "0 \<le> n"
    and "copyin_bytes (user_pa (mem s) (p_pagetable (proc_at s pr))) (mem s) addr (nat n) = (e, bs)"
    and "room = PIPESIZE - length (pipe_bytes (pipes s pi))"
  shows "if 0 < n \<and> (\<not> pi_readopen (pipes s pi) \<or> killed pr s) then pipewrite [] pi addr n s = Ok (- 1) s
    else \<exists>p. pipe_ok p \<and> pi_readopen p = pi_readopen (pipes s pi) \<and> pi_writeopen p = pi_writeopen (pipes s pi) \<and>
      (if room < nat n \<and> room \<le> length bs
       then pipe_bytes p = pipe_bytes (pipes s pi) @ take room bs \<and> pipewrite [] pi addr n s =
         Asleep (ChPipeWrite pi) (go_to_sleep pr (ChPipeWrite pi) (wakeup (ChPipeRead pi) (upd_pipe pi (\<lambda>_. p) s)))
       else pipe_bytes p = pipe_bytes (pipes s pi) @ bs \<and> pipewrite [] pi addr n s =
         Ok (int (length bs)) (wakeup (ChPipeRead pi) (upd_pipe pi (\<lambda>_. p) s)))"
proof (cases "0 < n \<and> (\<not> pi_readopen (pipes s pi) \<or> killed pr s)")
  case True
  then show ?thesis using assms(2) by (simp add: pipewrite_def pipewrite_loop.simps [of _ _ _ _ _ 0])
next
  case False
  show ?thesis
  proof (cases "n = 0")
    case True
    then have "bs = []" "pipewrite [] pi addr n s = Ok 0 (wakeup (ChPipeRead pi) s)"
      using assms(2,5) by (auto simp: pipewrite_def pipewrite_loop.simps [of _ _ _ _ _ 0])
    then show ?thesis using assms(1) True by (auto intro!: exI [of _ "pipes s pi"])
  next
    case nz: False
    have open_end: "pi_readopen (pipes s pi)" "\<not> killed pr s" using False nz assms(4) by auto
    have w: "pipewrite [] pi addr n s = pipewrite_loop [] pr pi addr n 0 s" using assms(2) by (simp add: pipewrite_def)
    have c: "copyin_bytes (user_pa (mem s) (p_pagetable (proc_at s pr))) (mem s) (addr + of_int 0) (nat (n - 0)) = (e, bs)"
      using assms(5) by simp
    show ?thesis using pipewrite_loop_spec [OF assms(1,3) open_end assms(4) c assms(6)]
      by (simp only: False if_False w diff_0_right add_0)
  qed
qed

text \<open>A state with one process, its page at address 0, and one pipe.\<close>

lemma pipe_state:
  "\<exists>s :: pipe_st. myproc s = Some 0 \<and> \<not> killed 0 s \<and> user_space (mem s) (p_pagetable (proc_at s 0)) \<and>
     (\<forall>va. user_pa (mem s) (p_pagetable (proc_at s 0)) va \<noteq> None \<longleftrightarrow> unat va < 4096) \<and> pipes s 0x1000 = p"
proof -
  obtain m q where m: "user_space m 0x87fff000"
      "\<forall>va. user_pa m 0x87fff000 va = (if unat va < 4096 then Some (q + va) else None)"
    using one_page_space by blast
  let ?s = "(undefined :: pipe_st)\<lparr>mem := m, procs := [undefined\<lparr>p_pagetable := 0x87fff000, p_killed := False\<rparr>],
    hart := 0, cpus := [undefined\<lparr>c_proc := Some 0\<rparr>], pipes := \<lambda>_. p\<rparr>"
  show ?thesis using m
    by (intro exI [of _ ?s]) (simp add: myproc_def mycpu_def cpuid_def killed_def)
qed

theorem pipewrite_appends_witness:
  "\<exists>(s :: pipe_st) p bs. length bs = 3 \<and> pipe_bytes p = bs \<and>
     pipewrite [] 0x1000 8 3 s = Ok 3 (wakeup (ChPipeRead 0x1000) (upd_pipe 0x1000 (\<lambda>_. p) s))"
proof -
  let ?p = "\<lparr>pi_data = replicate 512 0, pi_nread = 0, pi_nwrite = 0, pi_readopen = True, pi_writeopen = True\<rparr>"
  obtain s :: pipe_st where s: "myproc s = Some 0" "\<not> killed 0 s" "user_space (mem s) (p_pagetable (proc_at s 0))"
      "\<forall>va. user_pa (mem s) (p_pagetable (proc_at s 0)) va \<noteq> None \<longleftrightarrow> unat va < 4096" "pipes s 0x1000 = ?p"
    using pipe_state by blast
  let ?tr = "user_pa (mem s) (p_pagetable (proc_at s 0))"
  have "?tr 8 \<noteq> None" "?tr 9 \<noteq> None" "?tr 10 \<noteq> None" using s(4) by simp_all
  then obtain a b c where "?tr 8 = Some a" "?tr 9 = Some b" "?tr 10 = Some c" by auto
  then have bs: "copyin_bytes ?tr (mem s) 8 (nat 3) = (0, [mem s a, mem s b, mem s c])" by (simp add: numeral_3_eq_3)
  have pb: "pipe_bytes ?p = []" by (simp add: pipe_bytes_def)
  have "pipe_ok (pipes s 0x1000)" "table_ok 2 (mem s) (p_pagetable (proc_at s 0))"
    using s(3,5) by (simp_all add: pipe_ok_def PIPESIZE_def user_space_def)
  then obtain p where "pipe_bytes p = [mem s a, mem s b, mem s c]"
      "pipewrite [] 0x1000 8 3 s = Ok 3 (wakeup (ChPipeRead 0x1000) (upd_pipe 0x1000 (\<lambda>_. p) s))"
    using pipewrite_appends [of s "0x1000" 0 3 8, OF _ s(1) _ _ bs] s(2,5) pb by (auto simp: PIPESIZE_def)
  then show ?thesis by (intro exI [of _ s] exI [of _ p]) simp
qed

text \<open>C21: reading from a pipe. When the pipe has bytes or its write end is closed, a read of \<open>n\<close> bytes into
  mapped memory returns the smaller of \<open>n\<close> and the number of bytes in the queue; these oldest bytes, in
  order, are in the reader's memory afterwards and gone from the queue, and no other byte of memory
  changes.\<close>

theorem piperead_takes:
  assumes "pipe_ok (pipes s pi)" "myproc s = Some pr" "user_space (mem s) (p_pagetable (proc_at s pr))" "0 \<le> n"
    and "pipe_bytes (pipes s pi) \<noteq> [] \<or> \<not> pi_writeopen (pipes s pi)"
    and "k = min (nat n) (length (pipe_bytes (pipes s pi)))"
    and "\<forall>j < k. user_pa (mem s) (p_pagetable (proc_at s pr)) (addr + of_nat j) \<noteq> None"
  shows "\<exists>p m. piperead [] pi addr n s = Ok (int k) (wakeup (ChPipeWrite pi) (upd_pipe pi (\<lambda>_. p) (s\<lparr>mem := m\<rparr>))) \<and>
    pipe_ok p \<and> pi_readopen p = pi_readopen (pipes s pi) \<and> pi_writeopen p = pi_writeopen (pipes s pi) \<and>
    pipe_bytes p = drop k (pipe_bytes (pipes s pi)) \<and>
    copyin_bytes (user_pa (mem s) (p_pagetable (proc_at s pr))) m addr k = (0, take k (pipe_bytes (pipes s pi))) \<and>
    (\<forall>x. (\<forall>j < k. user_pa (mem s) (p_pagetable (proc_at s pr)) (addr + of_nat j) \<noteq> Some x) \<longrightarrow> m x = mem s x)"
proof -
  let ?q = "pipe_bytes (pipes s pi)" and ?tr = "user_pa (mem s) (p_pagetable (proc_at s pr))"
  have k: "length (take k ?q) = k" using assms(6) by simp
  have le: "k \<le> PIPESIZE" using assms(1,6) by (simp add: pipe_ok_def length_pipe_bytes min_le_iff_disj)
  obtain m where m: "copyout_bytes ?tr (mem s) addr (take k ?q) = (0, m)"
    using copyout_bytes_result [of ?tr "mem s" addr "take k ?q"] assms(7) k
    by (cases "copyout_bytes ?tr (mem s) addr (take k ?q)") auto
  obtain p where p: "pipe_ok p" "pi_readopen p = pi_readopen (pipes s pi)" "pi_writeopen p = pi_writeopen (pipes s pi)"
      "pipe_bytes p = drop k ?q" "piperead_loop pr pi addr n 0 s = Ok (int k) (upd_pipe pi (\<lambda>_. p) (s\<lparr>mem := m\<rparr>))"
    using piperead_loop_spec [OF assms(1,3,4), of k addr] assms(6,7) m by auto
  have "copyin_bytes ?tr m addr (length (take k ?q)) = (0, take k ?q)"
    using le k assms(3) m by (intro copyout_copyin_bytes [of _ ?tr "mem s"]) (auto simp: user_space_def PIPESIZE_def)
  moreover have "m x = mem s x" if "\<forall>j < k. ?tr (addr + of_nat j) \<noteq> Some x" for x
    using copyout_bytes_outside [of "take k ?q" ?tr addr x "mem s"] that m k by simp
  moreover have "piperead [] pi addr n s = Ok (int k) (wakeup (ChPipeWrite pi) (upd_pipe pi (\<lambda>_. p) (s\<lparr>mem := m\<rparr>)))"
    using assms(2,5) p(5) by (auto simp: piperead_def piperead_wait.simps [of "[]"] pipe_empty_iff)
  ultimately show ?thesis using p(1-4) k by (intro exI [of _ p] exI [of _ m]) auto
qed

theorem piperead_takes_witness:
  "\<exists>(s :: pipe_st) t m. piperead [] 0x1000 8 5 s = Ok 2 t \<and>
     copyin_bytes (user_pa (mem s) (p_pagetable (proc_at s 0))) m 8 2 = (0, [7, 9])"
proof -
  let ?p = "\<lparr>pi_data = 9 # replicate 510 0 @ [7], pi_nread = 511, pi_nwrite = 513, pi_readopen = True, pi_writeopen = True\<rparr>"
  obtain s :: pipe_st where s: "myproc s = Some 0" "user_space (mem s) (p_pagetable (proc_at s 0))"
      "\<forall>va. user_pa (mem s) (p_pagetable (proc_at s 0)) va \<noteq> None \<longleftrightarrow> unat va < 4096" "pipes s 0x1000 = ?p"
    using pipe_state by blast
  have pb: "pipe_bytes ?p = [7, 9]" by (simp add: pipe_bytes_def ring_contents_def PIPESIZE_def upt_rec nth_append)
  have pok: "pipe_ok (pipes s 0x1000)" using s(4) by (simp add: pipe_ok_def PIPESIZE_def)
  have k: "2 = min (nat 5) (length (pipe_bytes (pipes s 0x1000)))" using s(4) pb by simp
  have dst: "\<forall>j < 2. user_pa (mem s) (p_pagetable (proc_at s 0)) (8 + of_nat j) \<noteq> None"
    using s(3) by (auto simp: less_2_cases_iff)
  have "pipe_bytes (pipes s 0x1000) \<noteq> [] \<or> \<not> pi_writeopen (pipes s 0x1000)" using s(4) pb by simp
  then show ?thesis using piperead_takes [OF pok s(1,2) _ _ k dst] s(4) pb by (auto simp: numeral_2_eq_2)
qed

text \<open>C22: reading into unmapped memory loses a byte. When the destination is not mapped, \<open>piperead\<close>
  returns 0, which callers take for the end of the file, and the oldest byte is gone from the pipe.\<close>

theorem piperead_loses_byte:
  assumes "pipe_ok (pipes s pi)" "pipe_bytes (pipes s pi) = c # cs" "myproc s = Some pr" "0 < n"
    and "user_space (mem s) (p_pagetable (proc_at s pr))" "user_pa (mem s) (p_pagetable (proc_at s pr)) addr = None"
  shows "\<exists>p. pipe_bytes p = cs \<and> piperead [] pi addr n s = Ok 0 (wakeup (ChPipeWrite pi) (upd_pipe pi (\<lambda>_. p) s))"
proof -
  let ?p = "snd (pipe_get (pipes s pi))"
  have "copyout (p_pagetable (proc_at s pr)) addr [c] (upd_pipe pi (\<lambda>_. ?p) s) = Ok (- 1) (upd_pipe pi (\<lambda>_. ?p) s)"
    using copyout_one [of "upd_pipe pi (\<lambda>_. ?p) s"] assms(5,6) by simp
  then have "piperead_loop pr pi addr n 0 s = Ok 0 (upd_pipe pi (\<lambda>_. ?p) s)"
    using assms(2,4) pipe_get_bytes(1) [OF assms(1,2)]
    by (simp add: piperead_loop.simps [of _ _ _ _ 0] pipe_empty_iff split_beta)
  then show ?thesis using assms(2,3) pipe_get_bytes(2) [OF assms(1,2)]
    by (intro exI [of _ ?p]) (simp add: piperead_def piperead_wait.simps [of "[]"] pipe_empty_iff)
qed

theorem piperead_loses_byte_witness:
  "\<exists>(s :: pipe_st) p. pipe_bytes (pipes s 0x1000) = [7] \<and> pipe_bytes p = [] \<and>
     piperead [] 0x1000 0x2000 1 s = Ok 0 (wakeup (ChPipeWrite 0x1000) (upd_pipe 0x1000 (\<lambda>_. p) s))"
proof -
  let ?p = "\<lparr>pi_data = 7 # replicate 511 0, pi_nread = 0, pi_nwrite = 1, pi_readopen = True, pi_writeopen = True\<rparr>"
  obtain s :: pipe_st where s: "myproc s = Some 0" "user_space (mem s) (p_pagetable (proc_at s 0))"
      "\<forall>va. user_pa (mem s) (p_pagetable (proc_at s 0)) va \<noteq> None \<longleftrightarrow> unat va < 4096" "pipes s 0x1000 = ?p"
    using pipe_state by blast
  have pb: "pipe_bytes (pipes s 0x1000) = [7]" using s(4) by (simp add: pipe_bytes_def ring_contents_def)
  have pok: "pipe_ok (pipes s 0x1000)" using s(4) by (simp add: pipe_ok_def PIPESIZE_def)
  have "\<not> unat (0x2000 :: uint64) < 4096" by simp
  then have "user_pa (mem s) (p_pagetable (proc_at s 0)) 0x2000 = None" using s(3) by blast
  then have "\<exists>p. pipe_bytes p = [] \<and>
      piperead [] 0x1000 0x2000 1 s = Ok 0 (wakeup (ChPipeWrite 0x1000) (upd_pipe 0x1000 (\<lambda>_. p) s))"
    by (intro piperead_loses_byte [OF pok pb s(1) _ s(2)]) auto
  then show ?thesis using pb by blast
qed

end
