(* ===== verification/File.thy ===== *)
theory File
  imports Pipe
begin

text \<open>
  kernel/file.c and \<open>pipealloc\<close> of kernel/pipe.c: the table of open files. A pointer to a
  \<open>struct file\<close> is its index in \<open>ftable\<close>. The device switch \<open>devsw\<close>, a table of function pointers that
  the drivers fill in, is an argument of \<open>fileread\<close> and \<open>filewrite\<close>; Console supplies the console's
  functions. \<open>filestat\<close> copies a \<open>struct stat\<close> with its padding, whose bytes are whatever the stack held
  (\<open>slack\<close>).
\<close>

section \<open>State\<close>

definition NFILE :: nat where "NFILE = 100"
definition NDEV :: nat where "NDEV = 10"

datatype fdtype = FD_NONE | FD_PIPE | FD_INODE | FD_DEVICE

record file_s =
  f_type :: fdtype
  f_ref :: int
  f_readable :: bool
  f_writable :: bool
  f_pipe :: uint64
  f_ip :: nat
  f_off :: uint32
  f_major :: short

record file_st = pipe_st +
  ftable :: "file_s list"

record 's devfuns =
  dev_read :: "(bool \<Rightarrow> uint64 \<Rightarrow> int \<Rightarrow> 's \<Rightarrow> (int, 's) res) option"
  dev_write :: "(bool \<Rightarrow> uint64 \<Rightarrow> int \<Rightarrow> 's \<Rightarrow> (int, 's) res) option"

abbreviation file_at :: "'a file_st_scheme \<Rightarrow> nat \<Rightarrow> file_s" where
  "file_at s f \<equiv> ftable s ! f"

definition upd_file :: "nat \<Rightarrow> (file_s \<Rightarrow> file_s) \<Rightarrow> 'a file_st_scheme \<Rightarrow> 'a file_st_scheme" where
  "upd_file f g s = s\<lparr>ftable := upd_nth f g (ftable s)\<rparr>"

section \<open>Operations\<close>

definition filealloc :: "'a file_st_scheme \<Rightarrow> nat option \<times> 'a file_st_scheme" where
  "filealloc s =
     (case find_slot (\<lambda>f. f_ref f = 0) (ftable s) of
        None \<Rightarrow> (None, s)
      | Some f \<Rightarrow> (Some f, upd_file f (\<lambda>x. x\<lparr>f_ref := 1\<rparr>) s))"

definition filedup :: "nat \<Rightarrow> 'a file_st_scheme \<Rightarrow> (nat, 'a file_st_scheme) res" where
  "filedup f s =
     (if f_ref (file_at s f) < 1 then Panic ''filedup''
      else Ok f (upd_file f (\<lambda>x. x\<lparr>f_ref := f_ref x + 1\<rparr>) s))"

definition fileclose :: "nat \<Rightarrow> 'a file_st_scheme \<Rightarrow> (unit, 'a file_st_scheme) res" where
  "fileclose f s =
     (if f_ref (file_at s f) < 1 then Panic ''fileclose''
      else
        let s = upd_file f (\<lambda>x. x\<lparr>f_ref := f_ref x - 1\<rparr>) s in
        if 0 < f_ref (file_at s f) then Ok () s
        else
          let ff = file_at s f;
              s = upd_file f (\<lambda>x. x\<lparr>f_ref := 0, f_type := FD_NONE\<rparr>) s in
          if f_type ff = FD_PIPE then pipeclose (f_pipe ff) (f_writable ff) s
          else if f_type ff = FD_INODE \<or> f_type ff = FD_DEVICE then
            bindR (begin_op [] s) (\<lambda>_ s.
            bindR (iput (f_ip ff) s) (\<lambda>_ s. end_op s))
          else Ok () s)"

text \<open>\<open>struct stat\<close>: four bytes of padding before the 64-bit size.\<close>

definition enc_stat :: "uint8 list \<Rightarrow> stat \<Rightarrow> uint8 list" where
  "enc_stat slack st = bytes_of_word 4 (st_dev st) @ bytes_of_word 4 (st_ino st) @ bytes_of_word 2 (st_type st) @
     bytes_of_word 2 (st_nlink st) @ slack @ bytes_of_word 8 (st_size st)"

definition filestat :: "uint8 list \<Rightarrow> nat \<Rightarrow> uint64 \<Rightarrow> 'a file_st_scheme \<Rightarrow> (int, 'a file_st_scheme) res" where
  "filestat slack f addr s =
     (if f_type (file_at s f) = FD_INODE \<or> f_type (file_at s f) = FD_DEVICE then
        bindR (ilock (f_ip (file_at s f)) s) (\<lambda>_ s.
          let st = stati (f_ip (file_at s f)) s in
          bindR (iunlock (f_ip (file_at s f)) s) (\<lambda>_ s.
          bindR (copyout (my_pagetable s) addr (enc_stat slack st) s) (\<lambda>r s.
            if r < 0 then Ok (- 1) s else Ok 0 s)))
      else Ok (- 1) s)"

definition fileread ::
  "(nat \<Rightarrow> 'a file_st_scheme devfuns) \<Rightarrow> ('a file_st_scheme \<Rightarrow> 'a file_st_scheme) list \<Rightarrow> nat \<Rightarrow> uint64 \<Rightarrow> int \<Rightarrow>
     'a file_st_scheme \<Rightarrow> (int, 'a file_st_scheme) res" where
  "fileread devsw env f addr n s =
     (let ff = file_at s f in
      if \<not> f_readable ff then Ok (- 1) s
      else if f_type ff = FD_PIPE then piperead env (f_pipe ff) addr n s
      else if f_type ff = FD_DEVICE then
        (if sint (f_major ff) < 0 \<or> int NDEV \<le> sint (f_major ff) then Ok (- 1) s
         else (case dev_read (devsw (nat (sint (f_major ff)))) of
                 None \<Rightarrow> Ok (- 1) s
               | Some rd \<Rightarrow> rd True addr n s))
      else if f_type ff = FD_INODE then
        bindR (ilock (f_ip ff) s) (\<lambda>_ s.
        bindR (readi (f_ip ff) (UserDst addr) (f_off (file_at s f)) (of_int n) s) (\<lambda>(r, _) s.
          let s = (if 0 < r then upd_file f (\<lambda>x. x\<lparr>f_off := f_off x + of_int r\<rparr>) s else s) in
          bindR (iunlock (f_ip ff) s) (\<lambda>_ s. Ok r s)))
      else Panic ''fileread'')"

text \<open>The largest piece that \<open>filewrite\<close> writes in one transaction.\<close>

definition write_max :: int where
  "write_max = int (((MAXOPBLOCKS - 1 - 1 - 2) div 2) * BSIZE)"

lemma write_max_pos: "0 < write_max"
  by (simp add: write_max_def MAXOPBLOCKS_def BSIZE_def)

function filewrite_loop :: "nat \<Rightarrow> nat \<Rightarrow> uint64 \<Rightarrow> int \<Rightarrow> int \<Rightarrow> 'a file_st_scheme \<Rightarrow> (int, 'a file_st_scheme) res" where
  "filewrite_loop f ip addr n i s =
     (if i < n then
        let n1 = (if write_max < n - i then write_max else n - i) in
        bindR (begin_op [] s) (\<lambda>_ s.
        bindR (ilock ip s) (\<lambda>_ s.
        bindR (writei ip (UserSrc (addr + of_int i)) (f_off (file_at s f)) (of_int n1) s) (\<lambda>r s.
          let s = (if 0 < r then upd_file f (\<lambda>x. x\<lparr>f_off := f_off x + of_int r\<rparr>) s else s) in
          bindR (iunlock ip s) (\<lambda>_ s.
          bindR (end_op s) (\<lambda>_ s.
            if r \<noteq> n1 then Ok i s else filewrite_loop f ip addr n (i + r) s)))))
      else Ok i s)"
  by pat_completeness auto
termination
  by (relation "measure (\<lambda>(f, ip, addr, n, i, s). nat (n - i))") (use write_max_pos in \<open>auto split: if_splits\<close>)

declare filewrite_loop.simps [simp del]

definition filewrite ::
  "(nat \<Rightarrow> 'a file_st_scheme devfuns) \<Rightarrow> ('a file_st_scheme \<Rightarrow> 'a file_st_scheme) list \<Rightarrow> nat \<Rightarrow> uint64 \<Rightarrow> int \<Rightarrow>
     'a file_st_scheme \<Rightarrow> (int, 'a file_st_scheme) res" where
  "filewrite devsw env f addr n s =
     (let ff = file_at s f in
      if \<not> f_writable ff then Ok (- 1) s
      else if f_type ff = FD_PIPE then pipewrite env (f_pipe ff) addr n s
      else if f_type ff = FD_DEVICE then
        (if sint (f_major ff) < 0 \<or> int NDEV \<le> sint (f_major ff) then Ok (- 1) s
         else (case dev_write (devsw (nat (sint (f_major ff)))) of
                 None \<Rightarrow> Ok (- 1) s
               | Some w \<Rightarrow> w True addr n s))
      else if f_type ff = FD_INODE then
        bindR (filewrite_loop f (f_ip ff) addr n 0 s) (\<lambda>i s. Ok (if i = n then n else - 1) s)
      else Panic ''filewrite'')"

section \<open>Creating a pipe\<close>

definition new_pipe :: "pipe \<Rightarrow> pipe" where
  "new_pipe p = p\<lparr>pi_readopen := True, pi_writeopen := True, pi_nwrite := 0, pi_nread := 0\<rparr>"

text \<open>The label \<open>bad\<close>: close whatever was allocated.\<close>

definition pipe_bad :: "nat option \<Rightarrow> nat option \<Rightarrow> 'a file_st_scheme \<Rightarrow> ((nat \<times> nat) option, 'a file_st_scheme) res" where
  "pipe_bad f0 f1 s =
     bindR (case f0 of Some f \<Rightarrow> fileclose f s | None \<Rightarrow> Ok () s) (\<lambda>_ s.
     bindR (case f1 of Some f \<Rightarrow> fileclose f s | None \<Rightarrow> Ok () s) (\<lambda>_ s. Ok None s))"

definition pipealloc :: "'a file_st_scheme \<Rightarrow> ((nat \<times> nat) option, 'a file_st_scheme) res" where
  "pipealloc s =
     (case filealloc s of
        (None, s) \<Rightarrow> pipe_bad None None s
      | (Some f0, s) \<Rightarrow>
          (case filealloc s of
             (None, s) \<Rightarrow> pipe_bad (Some f0) None s
           | (Some f1, s) \<Rightarrow>
               bindR (kalloc s) (\<lambda>pi s.
                 if pi = 0 then pipe_bad (Some f0) (Some f1) s
                 else
                   let s = upd_pipe pi new_pipe s;
                       s = upd_file f0 (\<lambda>x. x\<lparr>f_type := FD_PIPE, f_readable := True, f_writable := False, f_pipe := pi\<rparr>) s;
                       s = upd_file f1 (\<lambda>x. x\<lparr>f_type := FD_PIPE, f_readable := False, f_writable := True, f_pipe := pi\<rparr>) s
                   in Ok (Some (f0, f1)) s)))"

end
