(* ===== verification/ProcLife.thy ===== *)
theory ProcLife
  imports File
begin

text \<open>
  The life cycle of a process (kernel/proc.c): \<open>userinit\<close>, \<open>fork\<close> and \<open>exit\<close>, which need the file
  layer. \<open>exit\<close> ends in the call of \<open>sched\<close> and does not come back: its outcome is \<open>Gone\<close>. A null
  pointer that the C code would follow without a check is an \<open>undefined\<close> panic.
\<close>

section \<open>Fields of the process record\<close>

definition overwrite :: "uint8 list \<Rightarrow> uint8 list \<Rightarrow> uint8 list" where
  "overwrite ws xs = ws @ drop (length ws) xs"

definition set_ofile :: "nat \<Rightarrow> nat \<Rightarrow> nat option \<Rightarrow> 'a proc_st_scheme \<Rightarrow> 'a proc_st_scheme" where
  "set_ofile p fd f s = upd_proc p (\<lambda>x. x\<lparr>p_ofile := (p_ofile x)[fd := f]\<rparr>) s"

definition set_name :: "nat \<Rightarrow> uint8 list \<Rightarrow> 'a proc_st_scheme \<Rightarrow> 'a proc_st_scheme" where
  "set_name p nm s = upd_proc p (\<lambda>x. x\<lparr>p_name := overwrite (safestrcpy (arr nm) 16) (p_name x)\<rparr>) s"

section \<open>The first process\<close>

definition initcode :: "uint8 list" where
  "initcode = [
     0x17, 0x05, 0x00, 0x00, 0x13, 0x05, 0x45, 0x02,
     0x97, 0x05, 0x00, 0x00, 0x93, 0x85, 0x35, 0x02,
     0x93, 0x08, 0x70, 0x00, 0x73, 0x00, 0x00, 0x00,
     0x93, 0x08, 0x20, 0x00, 0x73, 0x00, 0x00, 0x00,
     0xef, 0xf0, 0x9f, 0xff, 0x2f, 0x69, 0x6e, 0x69,
     0x74, 0x00, 0x00, 0x24, 0x00, 0x00, 0x00, 0x00,
     0x00, 0x00, 0x00, 0x00]"

definition initcode_name :: "uint8 list" where
  "initcode_name = [0x69, 0x6e, 0x69, 0x74, 0x63, 0x6f, 0x64, 0x65]"

definition userinit :: "'a fs_st_scheme \<Rightarrow> (unit, 'a fs_st_scheme) res" where
  "userinit s =
     bindR (allocproc s) (\<lambda>p s.
       let s = s\<lparr>initproc := p\<rparr> in
       (case p of
          None \<Rightarrow> Panic ''undefined: allocproc''
        | Some p \<Rightarrow>
            bindR (uvmfirst (p_pagetable (proc_at s p)) initcode s) (\<lambda>_ s.
              let s = upd_proc p (\<lambda>x. x\<lparr>p_sz := 4096\<rparr>) s;
                  s = tf_set TF_epc p 0 s;
                  s = tf_set TF_sp p 4096 s;
                  s = set_name p initcode_name s in
              bindR (namei [slash] s) (\<lambda>cwd s.
                Ok () (upd_proc p (\<lambda>x. x\<lparr>p_cwd := cwd, p_state := RUNNABLE\<rparr>) s)))))"

section \<open>fork\<close>

definition TF_SIZE :: nat where "TF_SIZE = 288"

fun dup_files :: "nat list \<Rightarrow> nat \<Rightarrow> nat \<Rightarrow> 'a file_st_scheme \<Rightarrow> (unit, 'a file_st_scheme) res" where
  "dup_files [] p np s = Ok () s"
| "dup_files (i # is) p np s =
     (case p_ofile (proc_at s p) ! i of
        None \<Rightarrow> dup_files is p np s
      | Some f \<Rightarrow> bindR (filedup f s) (\<lambda>f s. dup_files is p np (set_ofile np i (Some f) s)))"

definition fork :: "'a file_st_scheme \<Rightarrow> (int, 'a file_st_scheme) res" where
  "fork s =
     (case myproc s of
        None \<Rightarrow> Panic ''undefined: myproc()''
      | Some p \<Rightarrow>
          bindR (allocproc s) (\<lambda>np s.
            case np of
              None \<Rightarrow> Ok (- 1) s
            | Some np \<Rightarrow>
                bindR (uvmcopy (p_pagetable (proc_at s p)) (p_pagetable (proc_at s np)) (p_sz (proc_at s p)) s) (\<lambda>r s.
                  if r < 0 then bindR (freeproc np s) (\<lambda>_ s. Ok (- 1) s)
                  else
                    let s = upd_proc np (\<lambda>x. x\<lparr>p_sz := p_sz (proc_at s p)\<rparr>) s;
                        s = s\<lparr>mem := store_bytes (mem s) (p_trapframe (proc_at s np))
                                       (load_bytes (mem s) (p_trapframe (proc_at s p)) TF_SIZE)\<rparr>;
                        s = tf_set TF_a0 np 0 s in
                    bindR (dup_files [0..<NOFILE] p np s) (\<lambda>_ s.
                      case p_cwd (proc_at s p) of
                        None \<Rightarrow> Panic ''undefined: cwd''
                      | Some cwd \<Rightarrow>
                          let s = idup cwd s;
                              s = upd_proc np (\<lambda>x. x\<lparr>p_cwd := Some cwd\<rparr>) s;
                              s = set_name np (p_name (proc_at s p)) s;
                              pid = p_pid (proc_at s np);
                              s = upd_proc np (\<lambda>x. x\<lparr>p_parent := Some p\<rparr>) s;
                              s = upd_proc np (\<lambda>x. x\<lparr>p_state := RUNNABLE\<rparr>) s in
                          Ok pid s))))"

section \<open>exit\<close>

fun close_files :: "nat list \<Rightarrow> nat \<Rightarrow> 'a file_st_scheme \<Rightarrow> (unit, 'a file_st_scheme) res" where
  "close_files [] p s = Ok () s"
| "close_files (fd # fds) p s =
     (case p_ofile (proc_at s p) ! fd of
        None \<Rightarrow> close_files fds p s
      | Some f \<Rightarrow> bindR (fileclose f s) (\<lambda>_ s. close_files fds p (set_ofile p fd None s)))"

definition exit_proc :: "int \<Rightarrow> nat \<Rightarrow> 'a proc_st_scheme \<Rightarrow> 'a proc_st_scheme" where
  "exit_proc status p s =
     (let s = reparent p s;
          s = (case p_parent (proc_at s p) of Some pp \<Rightarrow> wakeup (ChProc pp) s | None \<Rightarrow> s) in
      upd_proc p (\<lambda>x. x\<lparr>p_xstate := status, p_state := ZOMBIE\<rparr>) s)"

definition exit :: "int \<Rightarrow> 'a file_st_scheme \<Rightarrow> ('b, 'a file_st_scheme) res" where
  "exit status s =
     (case myproc s of
        None \<Rightarrow> Panic ''undefined: myproc()''
      | Some p \<Rightarrow>
          if initproc s = Some p then Panic ''init exiting''
          else
            bindR (close_files [0..<NOFILE] p s) (\<lambda>_ s.
              case p_cwd (proc_at s p) of
                None \<Rightarrow> Panic ''undefined: cwd''
              | Some cwd \<Rightarrow>
                  bindR (begin_op [] s) (\<lambda>_ s.
                  bindR (iput cwd s) (\<lambda>_ s.
                  bindR (end_op s) (\<lambda>_ s.
                    Gone (exit_proc status p (upd_proc p (\<lambda>x. x\<lparr>p_cwd := None\<rparr>) s)))))))"

end
