(* ===== verification/Args.thy ===== *)
theory Args
  imports ProcLife
begin

text \<open>
  kernel/syscall.c, first part: fetching the arguments of a system call from the registers that the trap
  saved (\<open>argraw\<close>, \<open>argint\<close>, \<open>argaddr\<close>, \<open>argstr\<close>) and from user memory (\<open>fetchaddr\<close>,
  \<open>fetchstr\<close>). A fetched string comes back as its length and its bytes before the NUL. \<open>p\<close> is the
  running process.
\<close>

definition fetchaddr :: "nat \<Rightarrow> uint64 \<Rightarrow> 'a proc_st_scheme \<Rightarrow> (uint64 option, 'a proc_st_scheme) res" where
  "fetchaddr p addr s =
     (let sz = p_sz (proc_at s p) in
      if sz \<le> addr \<or> sz < addr + 8 then Ok None s
      else bindR (copyin (p_pagetable (proc_at s p)) addr 8 s) (\<lambda>(r, bs) s.
        if r \<noteq> 0 then Ok None s else Ok (Some (word_of_bytes bs)) s))"

definition fetchstr :: "nat \<Rightarrow> uint64 \<Rightarrow> nat \<Rightarrow> 'a proc_st_scheme \<Rightarrow> (int \<times> uint8 list, 'a proc_st_scheme) res" where
  "fetchstr p addr lim s =
     bindR (copyinstr (p_pagetable (proc_at s p)) addr lim s) (\<lambda>(r, bs) s.
       if r < 0 then Ok (- 1, []) s
       else
         let str = takeWhile (\<lambda>c. c \<noteq> 0) bs in Ok (int (length str), str) s)"

definition argraw :: "nat \<Rightarrow> nat \<Rightarrow> 'a proc_st_scheme \<Rightarrow> (uint64, 'a proc_st_scheme) res" where
  "argraw p n s =
     (if n \<le> 5 then Ok (tf_get (TF_a0 + of_nat (8 * n)) s p) s else Panic ''argraw'')"

text \<open>\<open>argint\<close> cuts the register to 32 bits.\<close>

definition argint :: "nat \<Rightarrow> nat \<Rightarrow> 'a proc_st_scheme \<Rightarrow> (int, 'a proc_st_scheme) res" where
  "argint p n s = bindR (argraw p n s) (\<lambda>v s. Ok (sint (ucast v :: uint32)) s)"

definition argaddr :: "nat \<Rightarrow> nat \<Rightarrow> 'a proc_st_scheme \<Rightarrow> (uint64, 'a proc_st_scheme) res" where
  "argaddr p n s = argraw p n s"

definition argstr :: "nat \<Rightarrow> nat \<Rightarrow> nat \<Rightarrow> 'a proc_st_scheme \<Rightarrow> (int \<times> uint8 list, 'a proc_st_scheme) res" where
  "argstr p n lim s = bindR (argaddr p n s) (\<lambda>addr s. fetchstr p addr lim s)"

end
