(* ===== verification/Exec.thy ===== *)
theory Exec
  imports Args
begin

text \<open>
  kernel/exec.c and kernel/elf.h: replacing the image of the running process by a program from the file
  system. \<open>argv\<close> is the list of argument strings (the C array ends at the first null pointer). In
  \<open>loadseg\<close> the loop counter is a natural number; as a \<open>uint\<close> it could wrap only for a segment of
  4 GB, whose pages cannot all be mapped.
\<close>

section \<open>ELF\<close>

definition ELF_MAGIC :: uint32 where "ELF_MAGIC = 0x464C457F"
definition ELF_PROG_LOAD :: uint32 where "ELF_PROG_LOAD = 1"

definition get64 :: "nat \<Rightarrow> uint8 list \<Rightarrow> uint64" where
  "get64 off d = word_of_bytes (take 8 (drop off d))"

record elfhdr =
  eh_magic :: uint32
  eh_entry :: uint64
  eh_phoff :: uint64
  eh_phnum :: uint16

text \<open>The fields of the 64-byte header that \<open>exec\<close> uses.\<close>

definition dec_elfhdr :: "uint8 list \<Rightarrow> elfhdr" where
  "dec_elfhdr b = \<lparr>eh_magic = get32 0 b, eh_entry = get64 24 b, eh_phoff = get64 32 b, eh_phnum = get16 56 b\<rparr>"

record proghdr =
  ph_type :: uint32
  ph_flags :: uint32
  ph_off :: uint64
  ph_vaddr :: uint64
  ph_filesz :: uint64
  ph_memsz :: uint64

definition dec_proghdr :: "uint8 list \<Rightarrow> proghdr" where
  "dec_proghdr b = \<lparr>ph_type = get32 0 b, ph_flags = get32 4 b, ph_off = get64 8 b, ph_vaddr = get64 16 b,
     ph_filesz = get64 32 b, ph_memsz = get64 40 b\<rparr>"

section \<open>Loading segments\<close>

definition flags2perm :: "uint32 \<Rightarrow> uint64" where
  "flags2perm flags =
     (let perm = (if flags AND 1 \<noteq> 0 then PTE_X else 0) in
      if flags AND 2 \<noteq> 0 then perm OR PTE_W else perm)"

fun loadseg_from :: "nat list \<Rightarrow> uint64 \<Rightarrow> uint64 \<Rightarrow> nat \<Rightarrow> uint32 \<Rightarrow> nat \<Rightarrow> 'a fs_st_scheme \<Rightarrow> (int, 'a fs_st_scheme) res" where
  "loadseg_from [] pagetable va ip offset sz s = Ok 0 s"
| "loadseg_from (i # is) pagetable va ip offset sz s =
     bindR (walkaddr pagetable (va + of_nat i) s) (\<lambda>pa s.
       if pa = 0 then Panic ''loadseg: address should exist''
       else
         let n = (if sz - i < PGSIZE then sz - i else PGSIZE) in
         bindR (readi ip (KernDst pa) (offset + of_nat i) (of_nat n) s) (\<lambda>(r, _) s.
           if r \<noteq> int n then Ok (- 1) s else loadseg_from is pagetable va ip offset sz s))"

definition loadseg :: "uint64 \<Rightarrow> uint64 \<Rightarrow> nat \<Rightarrow> uint32 \<Rightarrow> uint32 \<Rightarrow> 'a fs_st_scheme \<Rightarrow> (int, 'a fs_st_scheme) res" where
  "loadseg pagetable va ip offset sz s =
     loadseg_from (map (\<lambda>k. k * PGSIZE) [0..<(unat sz + PGSIZE - 1) div PGSIZE]) pagetable va ip offset (unat sz) s"

text \<open>The loop over the program headers. The result is the new size, or \<open>Inl\<close> the size to give back
  when something is wrong.\<close>

fun load_program ::
  "nat list \<Rightarrow> uint32 \<Rightarrow> uint64 \<Rightarrow> nat \<Rightarrow> uint64 \<Rightarrow> 'a fs_st_scheme \<Rightarrow> (uint64 + uint64, 'a fs_st_scheme) res" where
  "load_program [] phoff pagetable ip sz s = Ok (Inr sz) s"
| "load_program (i # is) phoff pagetable ip sz s =
     bindR (readi ip ObjDst (phoff + of_nat (56 * i)) 56 s) (\<lambda>(r, bs) s.
       let ph = dec_proghdr bs in
       if r \<noteq> 56 then Ok (Inl sz) s
       else if ph_type ph \<noteq> ELF_PROG_LOAD then load_program is phoff pagetable ip sz s
       else if ph_memsz ph < ph_filesz ph then Ok (Inl sz) s
       else if ph_vaddr ph + ph_memsz ph < ph_vaddr ph then Ok (Inl sz) s
       else if ph_vaddr ph mod 4096 \<noteq> 0 then Ok (Inl sz) s
       else
         bindR (uvmalloc pagetable sz (ph_vaddr ph + ph_memsz ph) (flags2perm (ph_flags ph)) s) (\<lambda>sz1 s.
           if sz1 = 0 then Ok (Inl sz) s
           else
             bindR (loadseg pagetable (ph_vaddr ph) ip (ucast (ph_off ph)) (ucast (ph_filesz ph)) s) (\<lambda>r s.
               if r < 0 then Ok (Inl sz1) s else load_program is phoff pagetable ip sz1 s)))"

section \<open>The user stack\<close>

definition MAXARG :: nat where "MAXARG = 32"

definition align16 :: "uint64 \<Rightarrow> uint64" where
  "align16 sp = sp - sp mod 16"

text \<open>Push the argument strings; the result is the stack pointer and the addresses of the strings, or
  None.\<close>

fun push_args ::
  "uint8 list list \<Rightarrow> uint64 \<Rightarrow> uint64 \<Rightarrow> uint64 \<Rightarrow> uint64 list \<Rightarrow> 'a fs_st_scheme \<Rightarrow>
     ((uint64 \<times> uint64 list) option, 'a fs_st_scheme) res" where
  "push_args [] pagetable stackbase sp ustack s = Ok (Some (sp, ustack)) s"
| "push_args (a # as) pagetable stackbase sp ustack s =
     (if MAXARG \<le> length ustack then Ok None s
      else
        let sp = align16 (sp - of_nat (length a + 1)) in
        if sp < stackbase then Ok None s
        else
          bindR (copyout pagetable sp (a @ [0]) s) (\<lambda>r s.
            if r < 0 then Ok None s else push_args as pagetable stackbase sp (ustack @ [sp]) s))"

definition push_argv ::
  "uint8 list list \<Rightarrow> uint64 \<Rightarrow> uint64 \<Rightarrow> uint64 \<Rightarrow> 'a fs_st_scheme \<Rightarrow> (uint64 option, 'a fs_st_scheme) res" where
  "push_argv argv pagetable stackbase sp s =
     bindR (push_args argv pagetable stackbase sp [] s) (\<lambda>r s.
       case r of
         None \<Rightarrow> Ok None s
       | Some (sp, ustack) \<Rightarrow>
           let sp = align16 (sp - of_nat ((length ustack + 1) * 8)) in
           if sp < stackbase then Ok None s
           else bindR (copyout pagetable sp (concat (map (bytes_of_word 8) (ustack @ [0]))) s) (\<lambda>r s.
             if r < 0 then Ok None s else Ok (Some sp) s))"

section \<open>exec\<close>

text \<open>The part of the path after the last slash.\<close>

definition last_elem :: "uint8 list \<Rightarrow> uint8 list" where
  "last_elem path = rev (takeWhile (\<lambda>c. c \<noteq> slash) (rev path))"

text \<open>The label \<open>bad\<close>.\<close>

definition exec_bad :: "uint64 \<Rightarrow> uint64 \<Rightarrow> nat option \<Rightarrow> 'a fs_st_scheme \<Rightarrow> (int, 'a fs_st_scheme) res" where
  "exec_bad pagetable sz ip s =
     bindR (if pagetable \<noteq> 0 then proc_freepagetable pagetable sz s else Ok () s) (\<lambda>_ s.
       case ip of
         None \<Rightarrow> Ok (- 1) s
       | Some ip \<Rightarrow> bindR (iunlockput ip s) (\<lambda>_ s. bindR (end_op s) (\<lambda>_ s. Ok (- 1) s)))"

text \<open>Switching the process to the new image.\<close>

definition exec_commit ::
  "nat \<Rightarrow> uint8 list \<Rightarrow> uint64 \<Rightarrow> uint64 \<Rightarrow> uint64 \<Rightarrow> uint64 \<Rightarrow> uint64 \<Rightarrow> 'a fs_st_scheme \<Rightarrow> (unit, 'a fs_st_scheme) res" where
  "exec_commit p path pagetable sz sp entry_pc oldsz s =
     (let s = tf_set TF_a1 p sp s;
          s = set_name p (last_elem path) s;
          oldpagetable = p_pagetable (proc_at s p);
          s = upd_proc p (\<lambda>x. x\<lparr>p_pagetable := pagetable, p_sz := sz\<rparr>) s;
          s = tf_set TF_epc p entry_pc s;
          s = tf_set TF_sp p sp s in
      proc_freepagetable oldpagetable oldsz s)"

definition exec_stack ::
  "nat \<Rightarrow> uint8 list \<Rightarrow> uint8 list list \<Rightarrow> uint64 \<Rightarrow> uint64 \<Rightarrow> uint64 \<Rightarrow> 'a fs_st_scheme \<Rightarrow> (int, 'a fs_st_scheme) res" where
  "exec_stack p path argv pagetable sz entry_pc s =
     (let oldsz = p_sz (proc_at s p); sz = PGROUNDUP sz in
      bindR (uvmalloc pagetable sz (sz + 2 * 4096) PTE_W s) (\<lambda>sz1 s.
        if sz1 = 0 then exec_bad pagetable sz None s
        else
          bindR (uvmclear pagetable (sz1 - 2 * 4096) s) (\<lambda>_ s.
          bindR (push_argv argv pagetable (sz1 - 4096) sz1 s) (\<lambda>r s.
            case r of
              None \<Rightarrow> exec_bad pagetable sz1 None s
            | Some sp \<Rightarrow>
                bindR (exec_commit p path pagetable sz1 sp entry_pc oldsz s) (\<lambda>_ s. Ok (int (length argv)) s)))))"

definition exec :: "uint8 list \<Rightarrow> uint8 list list \<Rightarrow> 'a fs_st_scheme \<Rightarrow> (int, 'a fs_st_scheme) res" where
  "exec path argv s =
     (case myproc s of
        None \<Rightarrow> Panic ''undefined: myproc()''
      | Some p \<Rightarrow>
          bindR (begin_op [] s) (\<lambda>_ s.
          bindR (namei path s) (\<lambda>ip s.
            case ip of
              None \<Rightarrow> bindR (end_op s) (\<lambda>_ s. Ok (- 1) s)
            | Some ip \<Rightarrow>
                bindR (ilock ip s) (\<lambda>_ s.
                bindR (readi ip ObjDst 0 64 s) (\<lambda>(r, bs) s.
                  let elf = dec_elfhdr bs in
                  if r \<noteq> 64 then exec_bad 0 0 (Some ip) s
                  else if eh_magic elf \<noteq> ELF_MAGIC then exec_bad 0 0 (Some ip) s
                  else
                    bindR (proc_pagetable p s) (\<lambda>pagetable s.
                      if pagetable = 0 then exec_bad 0 0 (Some ip) s
                      else
                        bindR (load_program [0..<unat (eh_phnum elf)] (ucast (eh_phoff elf)) pagetable ip 0 s) (\<lambda>r s.
                          case r of
                            Inl sz \<Rightarrow> exec_bad pagetable sz (Some ip) s
                          | Inr sz \<Rightarrow>
                              bindR (iunlockput ip s) (\<lambda>_ s.
                              bindR (end_op s) (\<lambda>_ s.
                                exec_stack p path argv pagetable sz (eh_entry elf) s)))))))))"

end
