(* ===== verification/Sysfile.thy ===== *)
theory Sysfile
  imports Exec
begin

text \<open>
  kernel/sysfile.c and kernel/fcntl.h: the system calls on files. Each takes the running process \<open>p\<close>
  (what \<open>myproc()\<close> returns) and ends with the value for register a0. The \<open>goto bad\<close> blocks of the C code
  are definitions of their own.
\<close>

section \<open>Descriptors\<close>

definition MAXPATH :: nat where "MAXPATH = 128"
definition O_RDONLY :: int where "O_RDONLY = 0"
definition O_WRONLY :: int where "O_WRONLY = 1"
definition O_RDWR :: int where "O_RDWR = 2"
definition O_CREATE :: int where "O_CREATE = 0x200"
definition O_TRUNC :: int where "O_TRUNC = 0x400"

definition argfd :: "nat \<Rightarrow> nat \<Rightarrow> 'a file_st_scheme \<Rightarrow> ((nat \<times> nat) option, 'a file_st_scheme) res" where
  "argfd p n s =
     bindR (argint p n s) (\<lambda>fd s.
       if fd < 0 \<or> int NOFILE \<le> fd then Ok None s
       else
         (case p_ofile (proc_at s p) ! nat fd of
            None \<Rightarrow> Ok None s
          | Some f \<Rightarrow> Ok (Some (nat fd, f)) s))"

definition fdalloc :: "nat \<Rightarrow> nat \<Rightarrow> 'a proc_st_scheme \<Rightarrow> nat option \<times> 'a proc_st_scheme" where
  "fdalloc p f s =
     (case find_slot (\<lambda>x. x = None) (p_ofile (proc_at s p)) of
        None \<Rightarrow> (None, s)
      | Some fd \<Rightarrow> (Some fd, set_ofile p fd (Some f) s))"

abbreviation minus1 :: uint64 where "minus1 \<equiv> - 1"

definition sys_dup :: "nat \<Rightarrow> 'a file_st_scheme \<Rightarrow> (uint64, 'a file_st_scheme) res" where
  "sys_dup p s =
     bindR (argfd p 0 s) (\<lambda>r s.
       case r of
         None \<Rightarrow> Ok minus1 s
       | Some (_, f) \<Rightarrow>
           (case fdalloc p f s of
              (None, s) \<Rightarrow> Ok minus1 s
            | (Some fd, s) \<Rightarrow> bindR (filedup f s) (\<lambda>_ s. Ok (of_nat fd) s)))"

definition sys_read ::
  "(nat \<Rightarrow> 'a file_st_scheme devfuns) \<Rightarrow> ('a file_st_scheme \<Rightarrow> 'a file_st_scheme) list \<Rightarrow> nat \<Rightarrow>
     'a file_st_scheme \<Rightarrow> (uint64, 'a file_st_scheme) res" where
  "sys_read devsw env p s =
     bindR (argaddr p 1 s) (\<lambda>a s.
     bindR (argint p 2 s) (\<lambda>n s.
     bindR (argfd p 0 s) (\<lambda>r s.
       case r of
         None \<Rightarrow> Ok minus1 s
       | Some (_, f) \<Rightarrow> bindR (fileread devsw env f a n s) (\<lambda>r s. Ok (of_int r) s))))"

definition sys_write ::
  "(nat \<Rightarrow> 'a file_st_scheme devfuns) \<Rightarrow> ('a file_st_scheme \<Rightarrow> 'a file_st_scheme) list \<Rightarrow> nat \<Rightarrow>
     'a file_st_scheme \<Rightarrow> (uint64, 'a file_st_scheme) res" where
  "sys_write devsw env p s =
     bindR (argaddr p 1 s) (\<lambda>a s.
     bindR (argint p 2 s) (\<lambda>n s.
     bindR (argfd p 0 s) (\<lambda>r s.
       case r of
         None \<Rightarrow> Ok minus1 s
       | Some (_, f) \<Rightarrow> bindR (filewrite devsw env f a n s) (\<lambda>r s. Ok (of_int r) s))))"

definition sys_close :: "nat \<Rightarrow> 'a file_st_scheme \<Rightarrow> (uint64, 'a file_st_scheme) res" where
  "sys_close p s =
     bindR (argfd p 0 s) (\<lambda>r s.
       case r of
         None \<Rightarrow> Ok minus1 s
       | Some (fd, f) \<Rightarrow> bindR (fileclose f (set_ofile p fd None s)) (\<lambda>_ s. Ok 0 s))"

definition sys_fstat :: "uint8 list \<Rightarrow> nat \<Rightarrow> 'a file_st_scheme \<Rightarrow> (uint64, 'a file_st_scheme) res" where
  "sys_fstat slack p s =
     bindR (argaddr p 1 s) (\<lambda>st s.
     bindR (argfd p 0 s) (\<lambda>r s.
       case r of
         None \<Rightarrow> Ok minus1 s
       | Some (_, f) \<Rightarrow> bindR (filestat slack f st s) (\<lambda>r s. Ok (of_int r) s)))"

section \<open>Links\<close>

definition set_nlink :: "nat \<Rightarrow> (short \<Rightarrow> short) \<Rightarrow> 'a fs_st_scheme \<Rightarrow> 'a fs_st_scheme" where
  "set_nlink ip f s = upd_inode ip (\<lambda>i. i\<lparr>i_nlink := f (i_nlink i)\<rparr>) s"

text \<open>End the transaction and return \<open>-1\<close>.\<close>

definition fail_op :: "'a fs_st_scheme \<Rightarrow> (uint64, 'a fs_st_scheme) res" where
  "fail_op s = bindR (end_op s) (\<lambda>_ s. Ok minus1 s)"

definition link_bad :: "nat \<Rightarrow> 'a fs_st_scheme \<Rightarrow> (uint64, 'a fs_st_scheme) res" where
  "link_bad ip s =
     bindR (ilock ip s) (\<lambda>_ s.
     bindR (iupdate ip (set_nlink ip (\<lambda>n. n - 1) s)) (\<lambda>_ s.
     bindR (iunlockput ip s) (\<lambda>_ s. fail_op s)))"

definition link_new :: "nat \<Rightarrow> uint8 list \<Rightarrow> 'a fs_st_scheme \<Rightarrow> (uint64, 'a fs_st_scheme) res" where
  "link_new ip new s =
     bindR (nameiparent new s) (\<lambda>(dp, name) s.
       case dp of
         None \<Rightarrow> link_bad ip s
       | Some dp \<Rightarrow>
           bindR (ilock dp s) (\<lambda>_ s.
           bindR (if i_dev (inode_at s dp) \<noteq> i_dev (inode_at s ip) then Ok (- 1) s
                  else dirlink dp name (i_inum (inode_at s ip)) s) (\<lambda>r s.
             if r < 0 then bindR (iunlockput dp s) (\<lambda>_ s. link_bad ip s)
             else
               bindR (iunlockput dp s) (\<lambda>_ s.
               bindR (iput ip s) (\<lambda>_ s.
               bindR (end_op s) (\<lambda>_ s. Ok 0 s))))))"

definition sys_link :: "nat \<Rightarrow> 'a fs_st_scheme \<Rightarrow> (uint64, 'a fs_st_scheme) res" where
  "sys_link p s =
     bindR (argstr p 0 MAXPATH s) (\<lambda>(r, old) s.
       if r < 0 then Ok minus1 s
       else bindR (argstr p 1 MAXPATH s) (\<lambda>(r, new) s.
         if r < 0 then Ok minus1 s
         else
           bindR (begin_op [] s) (\<lambda>_ s.
           bindR (namei old s) (\<lambda>ip s.
             case ip of
               None \<Rightarrow> fail_op s
             | Some ip \<Rightarrow>
                 bindR (ilock ip s) (\<lambda>_ s.
                   if i_type (inode_at s ip) = T_DIR then bindR (iunlockput ip s) (\<lambda>_ s. fail_op s)
                   else
                     bindR (iupdate ip (set_nlink ip (\<lambda>n. n + 1) s)) (\<lambda>_ s.
                     bindR (iunlock ip s) (\<lambda>_ s. link_new ip new s)))))))"

fun isdirempty_from :: "nat list \<Rightarrow> nat \<Rightarrow> 'a fs_st_scheme \<Rightarrow> (bool, 'a fs_st_scheme) res" where
  "isdirempty_from [] dp s = Ok True s"
| "isdirempty_from (off # offs) dp s =
     bindR (readi dp ObjDst (of_nat off) 16 s) (\<lambda>(r, bs) s.
       if r \<noteq> 16 then Panic ''isdirempty: readi''
       else if de_inum (dec_dirent bs) \<noteq> 0 then Ok False s
       else isdirempty_from offs dp s)"

definition isdirempty :: "nat \<Rightarrow> 'a fs_st_scheme \<Rightarrow> (bool, 'a fs_st_scheme) res" where
  "isdirempty dp s = isdirempty_from (drop 2 (dir_offs (i_size (inode_at s dp)))) dp s"

definition dot :: "uint8 list" where "dot = [46]"
definition dotdot :: "uint8 list" where "dotdot = [46, 46]"

definition unlink_bad :: "nat \<Rightarrow> 'a fs_st_scheme \<Rightarrow> (uint64, 'a fs_st_scheme) res" where
  "unlink_bad dp s = bindR (iunlockput dp s) (\<lambda>_ s. fail_op s)"

text \<open>Removing the entry at \<open>off\<close> of \<open>dp\<close>, which names the locked inode \<open>ip\<close>.\<close>

definition unlink_entry :: "nat \<Rightarrow> nat \<Rightarrow> uint32 \<Rightarrow> 'a fs_st_scheme \<Rightarrow> (uint64, 'a fs_st_scheme) res" where
  "unlink_entry dp ip off s =
     bindR (writei dp (ObjSrc (replicate 16 0)) off 16 s) (\<lambda>r s.
       if r \<noteq> 16 then Panic ''unlink: writei''
       else
         bindR (if i_type (inode_at s ip) = T_DIR then iupdate dp (set_nlink dp (\<lambda>n. n - 1) s) else Ok () s) (\<lambda>_ s.
         bindR (iunlockput dp s) (\<lambda>_ s.
         bindR (iupdate ip (set_nlink ip (\<lambda>n. n - 1) s)) (\<lambda>_ s.
         bindR (iunlockput ip s) (\<lambda>_ s.
         bindR (end_op s) (\<lambda>_ s. Ok 0 s))))))"

definition sys_unlink :: "nat \<Rightarrow> 'a fs_st_scheme \<Rightarrow> (uint64, 'a fs_st_scheme) res" where
  "sys_unlink p s =
     bindR (argstr p 0 MAXPATH s) (\<lambda>(r, path) s.
       if r < 0 then Ok minus1 s
       else
         bindR (begin_op [] s) (\<lambda>_ s.
         bindR (nameiparent path s) (\<lambda>(dp, name) s.
           case dp of
             None \<Rightarrow> fail_op s
           | Some dp \<Rightarrow>
               bindR (ilock dp s) (\<lambda>_ s.
                 if namecmp name dot = 0 \<or> namecmp name dotdot = 0 then unlink_bad dp s
                 else bindR (dirlookup dp name s) (\<lambda>found s.
                   case found of
                     None \<Rightarrow> unlink_bad dp s
                   | Some (ip, off) \<Rightarrow>
                       bindR (ilock ip s) (\<lambda>_ s.
                         if sint (i_nlink (inode_at s ip)) < 1 then Panic ''unlink: nlink < 1''
                         else bindR (if i_type (inode_at s ip) = T_DIR then isdirempty ip s else Ok True s) (\<lambda>e s.
                           if \<not> e then bindR (iunlockput ip s) (\<lambda>_ s. unlink_bad dp s)
                           else unlink_entry dp ip off s)))))))"

section \<open>Creating files\<close>

definition create_fail :: "nat \<Rightarrow> nat \<Rightarrow> 'a fs_st_scheme \<Rightarrow> (nat option, 'a fs_st_scheme) res" where
  "create_fail dp ip s =
     bindR (iupdate ip (set_nlink ip (\<lambda>_. 0) s)) (\<lambda>_ s.
     bindR (iunlockput ip s) (\<lambda>_ s.
     bindR (iunlockput dp s) (\<lambda>_ s. Ok None s)))"

text \<open>The entries of the new inode and of its parent; negative when one cannot be made.\<close>

definition create_links :: "nat \<Rightarrow> nat \<Rightarrow> uint8 list \<Rightarrow> short \<Rightarrow> 'a fs_st_scheme \<Rightarrow> (int, 'a fs_st_scheme) res" where
  "create_links dp ip name type s =
     bindR (if type = T_DIR then
              bindR (dirlink ip dot (i_inum (inode_at s ip)) s) (\<lambda>r s.
                if r < 0 then Ok r s else dirlink ip dotdot (i_inum (inode_at s dp)) s)
            else Ok 0 s) (\<lambda>r s.
       if r < 0 then Ok r s else dirlink dp name (i_inum (inode_at s ip)) s)"

definition create :: "uint8 list \<Rightarrow> short \<Rightarrow> short \<Rightarrow> short \<Rightarrow> 'a fs_st_scheme \<Rightarrow> (nat option, 'a fs_st_scheme) res" where
  "create path type major minor s =
     bindR (nameiparent path s) (\<lambda>(dp, name) s.
       case dp of
         None \<Rightarrow> Ok None s
       | Some dp \<Rightarrow>
           bindR (ilock dp s) (\<lambda>_ s.
           bindR (dirlookup dp name s) (\<lambda>found s.
             case found of
               Some (ip, _) \<Rightarrow>
                 bindR (iunlockput dp s) (\<lambda>_ s.
                 bindR (ilock ip s) (\<lambda>_ s.
                   if type = T_FILE \<and> (i_type (inode_at s ip) = T_FILE \<or> i_type (inode_at s ip) = T_DEVICE)
                   then Ok (Some ip) s
                   else bindR (iunlockput ip s) (\<lambda>_ s. Ok None s)))
             | None \<Rightarrow>
                 bindR (ialloc (i_dev (inode_at s dp)) type s) (\<lambda>ip s.
                   case ip of
                     None \<Rightarrow> bindR (iunlockput dp s) (\<lambda>_ s. Ok None s)
                   | Some ip \<Rightarrow>
                       bindR (ilock ip s) (\<lambda>_ s.
                       bindR (iupdate ip (upd_inode ip (\<lambda>i. i\<lparr>i_major := major, i_minor := minor, i_nlink := 1\<rparr>) s)) (\<lambda>_ s.
                       bindR (create_links dp ip name type s) (\<lambda>r s.
                         if r < 0 then create_fail dp ip s
                         else
                           bindR (if type = T_DIR then iupdate dp (set_nlink dp (\<lambda>n. n + 1) s) else Ok () s) (\<lambda>_ s.
                           bindR (iunlockput dp s) (\<lambda>_ s. Ok (Some ip) s)))))))))"

definition open_fail :: "nat \<Rightarrow> 'a fs_st_scheme \<Rightarrow> (uint64, 'a fs_st_scheme) res" where
  "open_fail ip s = bindR (iunlockput ip s) (\<lambda>_ s. fail_op s)"

definition open_mode :: "int \<Rightarrow> nat \<Rightarrow> inode \<Rightarrow> file_s \<Rightarrow> file_s" where
  "open_mode omode ip i f =
     (let f = (if i_type i = T_DEVICE then f\<lparr>f_type := FD_DEVICE, f_major := i_major i\<rparr>
               else f\<lparr>f_type := FD_INODE, f_off := 0\<rparr>) in
      f\<lparr>f_ip := ip, f_readable := (omode AND O_WRONLY = 0),
        f_writable := (omode AND O_WRONLY \<noteq> 0 \<or> omode AND O_RDWR \<noteq> 0)\<rparr>)"

text \<open>From the locked inode to the descriptor.\<close>

definition open_inode :: "nat \<Rightarrow> int \<Rightarrow> nat \<Rightarrow> 'a file_st_scheme \<Rightarrow> (uint64, 'a file_st_scheme) res" where
  "open_inode p omode ip s =
     (let i = inode_at s ip in
      if i_type i = T_DEVICE \<and> (sint (i_major i) < 0 \<or> int NDEV \<le> sint (i_major i)) then open_fail ip s
      else
        (case filealloc s of
           (None, s) \<Rightarrow> open_fail ip s
         | (Some f, s) \<Rightarrow>
             (case fdalloc p f s of
                (None, s) \<Rightarrow> bindR (fileclose f s) (\<lambda>_ s. open_fail ip s)
              | (Some fd, s) \<Rightarrow>
                  let s = upd_file f (open_mode omode ip (inode_at s ip)) s in
                  bindR (if omode AND O_TRUNC \<noteq> 0 \<and> i_type (inode_at s ip) = T_FILE then itrunc ip s else Ok () s) (\<lambda>_ s.
                  bindR (iunlock ip s) (\<lambda>_ s.
                  bindR (end_op s) (\<lambda>_ s. Ok (of_nat fd) s))))))"

definition sys_open :: "nat \<Rightarrow> 'a file_st_scheme \<Rightarrow> (uint64, 'a file_st_scheme) res" where
  "sys_open p s =
     bindR (argint p 1 s) (\<lambda>omode s.
     bindR (argstr p 0 MAXPATH s) (\<lambda>(r, path) s.
       if r < 0 then Ok minus1 s
       else
         bindR (begin_op [] s) (\<lambda>_ s.
           if omode AND O_CREATE \<noteq> 0 then
             bindR (create path T_FILE 0 0 s) (\<lambda>ip s.
               case ip of None \<Rightarrow> fail_op s | Some ip \<Rightarrow> open_inode p omode ip s)
           else
             bindR (namei path s) (\<lambda>ip s.
               case ip of
                 None \<Rightarrow> fail_op s
               | Some ip \<Rightarrow>
                   bindR (ilock ip s) (\<lambda>_ s.
                     if i_type (inode_at s ip) = T_DIR \<and> omode \<noteq> O_RDONLY then open_fail ip s
                     else open_inode p omode ip s)))))"

definition sys_mkdir :: "nat \<Rightarrow> 'a fs_st_scheme \<Rightarrow> (uint64, 'a fs_st_scheme) res" where
  "sys_mkdir p s =
     bindR (begin_op [] s) (\<lambda>_ s.
     bindR (argstr p 0 MAXPATH s) (\<lambda>(r, path) s.
       if r < 0 then fail_op s
       else bindR (create path T_DIR 0 0 s) (\<lambda>ip s.
         case ip of
           None \<Rightarrow> fail_op s
         | Some ip \<Rightarrow> bindR (iunlockput ip s) (\<lambda>_ s. bindR (end_op s) (\<lambda>_ s. Ok 0 s)))))"

definition sys_mknod :: "nat \<Rightarrow> 'a fs_st_scheme \<Rightarrow> (uint64, 'a fs_st_scheme) res" where
  "sys_mknod p s =
     bindR (begin_op [] s) (\<lambda>_ s.
     bindR (argint p 1 s) (\<lambda>major s.
     bindR (argint p 2 s) (\<lambda>minor s.
     bindR (argstr p 0 MAXPATH s) (\<lambda>(r, path) s.
       if r < 0 then fail_op s
       else bindR (create path T_DEVICE (of_int major) (of_int minor) s) (\<lambda>ip s.
         case ip of
           None \<Rightarrow> fail_op s
         | Some ip \<Rightarrow> bindR (iunlockput ip s) (\<lambda>_ s. bindR (end_op s) (\<lambda>_ s. Ok 0 s)))))))"

definition sys_chdir :: "nat \<Rightarrow> 'a fs_st_scheme \<Rightarrow> (uint64, 'a fs_st_scheme) res" where
  "sys_chdir p s =
     bindR (begin_op [] s) (\<lambda>_ s.
     bindR (argstr p 0 MAXPATH s) (\<lambda>(r, path) s.
       if r < 0 then fail_op s
       else bindR (namei path s) (\<lambda>ip s.
         case ip of
           None \<Rightarrow> fail_op s
         | Some ip \<Rightarrow>
             bindR (ilock ip s) (\<lambda>_ s.
               if i_type (inode_at s ip) \<noteq> T_DIR then bindR (iunlockput ip s) (\<lambda>_ s. fail_op s)
               else
                 bindR (iunlock ip s) (\<lambda>_ s.
                   case p_cwd (proc_at s p) of
                     None \<Rightarrow> Panic ''undefined: cwd''
                   | Some cwd \<Rightarrow>
                       bindR (iput cwd s) (\<lambda>_ s.
                       bindR (end_op s) (\<lambda>_ s.
                         Ok 0 (upd_proc p (\<lambda>x. x\<lparr>p_cwd := Some ip\<rparr>) s))))))))"

section \<open>exec and pipe\<close>

text \<open>The loop of \<open>sys_exec\<close>: the kernel pages allocated so far with the strings in them, and whether
  the end of the array was reached.\<close>

fun fetch_argv ::
  "nat list \<Rightarrow> nat \<Rightarrow> uint64 \<Rightarrow> (uint64 \<times> uint8 list) list \<Rightarrow> 'a fs_st_scheme \<Rightarrow>
     (bool \<times> (uint64 \<times> uint8 list) list, 'a fs_st_scheme) res" where
  "fetch_argv [] p uargv acc s = Ok (False, acc) s"
| "fetch_argv (i # is) p uargv acc s =
     bindR (fetchaddr p (uargv + of_nat (8 * i)) s) (\<lambda>uarg s.
       case uarg of
         None \<Rightarrow> Ok (False, acc) s
       | Some uarg \<Rightarrow>
           if uarg = 0 then Ok (True, acc) s
           else
             bindR (kalloc s) (\<lambda>page s.
               if page = 0 then Ok (False, acc) s
               else bindR (fetchstr p uarg PGSIZE s) (\<lambda>(r, str) s.
                 if r < 0 then Ok (False, acc @ [(page, [])]) s
                 else fetch_argv is p uargv (acc @ [(page, str)]) (s\<lparr>mem := store_bytes (mem s) page (str @ [0])\<rparr>))))"

fun free_argv :: "(uint64 \<times> uint8 list) list \<Rightarrow> 'a fs_st_scheme \<Rightarrow> (unit, 'a fs_st_scheme) res" where
  "free_argv [] s = Ok () s"
| "free_argv ((page, _) # as) s = bindR (kfree page s) (\<lambda>_ s. free_argv as s)"

definition sys_exec :: "nat \<Rightarrow> 'a fs_st_scheme \<Rightarrow> (uint64, 'a fs_st_scheme) res" where
  "sys_exec p s =
     bindR (argaddr p 1 s) (\<lambda>uargv s.
     bindR (argstr p 0 MAXPATH s) (\<lambda>(r, path) s.
       if r < 0 then Ok minus1 s
       else bindR (fetch_argv [0..<MAXARG] p uargv [] s) (\<lambda>(ok, argv) s.
         if \<not> ok then bindR (free_argv argv s) (\<lambda>_ s. Ok minus1 s)
         else bindR (exec path (map snd argv) s) (\<lambda>ret s.
           bindR (free_argv argv s) (\<lambda>_ s. Ok (of_int ret) s)))))"

definition pipe_fail :: "nat \<Rightarrow> nat \<Rightarrow> 'a file_st_scheme \<Rightarrow> (uint64, 'a file_st_scheme) res" where
  "pipe_fail rf wr s =
     bindR (fileclose rf s) (\<lambda>_ s. bindR (fileclose wr s) (\<lambda>_ s. Ok minus1 s))"

definition sys_pipe :: "nat \<Rightarrow> 'a file_st_scheme \<Rightarrow> (uint64, 'a file_st_scheme) res" where
  "sys_pipe p s =
     bindR (argaddr p 0 s) (\<lambda>fdarray s.
     bindR (pipealloc s) (\<lambda>r s.
       case r of
         None \<Rightarrow> Ok minus1 s
       | Some (rf, wr) \<Rightarrow>
           (case fdalloc p rf s of
              (None, s) \<Rightarrow> pipe_fail rf wr s
            | (Some fd0, s) \<Rightarrow>
                (case fdalloc p wr s of
                   (None, s) \<Rightarrow> pipe_fail rf wr (set_ofile p fd0 None s)
                 | (Some fd1, s) \<Rightarrow>
                     bindR (copyout (p_pagetable (proc_at s p)) fdarray (bytes_of_word 4 (of_nat fd0 :: uint32)) s) (\<lambda>r s.
                     bindR (if r < 0 then Ok r s
                            else copyout (p_pagetable (proc_at s p)) (fdarray + 4) (bytes_of_word 4 (of_nat fd1 :: uint32)) s) (\<lambda>r s.
                       if r < 0 then pipe_fail rf wr (set_ofile p fd1 None (set_ofile p fd0 None s))
                       else Ok 0 s))))))"

end
