(* ===== verification/Syscall.thy ===== *)
theory Syscall
  imports Sysfile
begin

text \<open>
  kernel/sysproc.c, and the dispatch of kernel/syscall.c with kernel/syscall.h. \<open>syscall\<close> stores the
  result of the call in the saved register a0. Calls that may sleep take the list of what the rest of the
  system does during each sleep; \<open>devsw\<close> and \<open>slack\<close> are as in File. The message for an unknown call
  number is not part of the state.
\<close>

section \<open>Process system calls\<close>

definition sys_exit :: "nat \<Rightarrow> 'a file_st_scheme \<Rightarrow> (uint64, 'a file_st_scheme) res" where
  "sys_exit p s = bindR (argint p 0 s) (\<lambda>n s. exit n s)"

definition sys_getpid :: "nat \<Rightarrow> 'a proc_st_scheme \<Rightarrow> (uint64, 'a proc_st_scheme) res" where
  "sys_getpid p s = Ok (of_int (p_pid (proc_at s p))) s"

definition sys_fork :: "nat \<Rightarrow> 'a file_st_scheme \<Rightarrow> (uint64, 'a file_st_scheme) res" where
  "sys_fork p s = bindR (fork s) (\<lambda>r s. Ok (of_int r) s)"

definition sys_wait ::
  "('a proc_st_scheme \<Rightarrow> 'a proc_st_scheme) list \<Rightarrow> nat \<Rightarrow> 'a proc_st_scheme \<Rightarrow> (uint64, 'a proc_st_scheme) res" where
  "sys_wait env p s =
     bindR (argaddr p 0 s) (\<lambda>a s. bindR (wait env p a s) (\<lambda>r s. Ok (of_int r) s))"

definition sys_sbrk :: "nat \<Rightarrow> 'a proc_st_scheme \<Rightarrow> (uint64, 'a proc_st_scheme) res" where
  "sys_sbrk p s =
     bindR (argint p 0 s) (\<lambda>n s.
       let addr = p_sz (proc_at s p) in
       bindR (growproc n p s) (\<lambda>r s. if r < 0 then Ok minus1 s else Ok addr s))"

fun sleep_ticks ::
  "('a proc_st_scheme \<Rightarrow> 'a proc_st_scheme) list \<Rightarrow> nat \<Rightarrow> uint32 \<Rightarrow> int \<Rightarrow> 'a proc_st_scheme \<Rightarrow>
     (uint64, 'a proc_st_scheme) res" where
  "sleep_ticks env p ticks0 n s =
     (if ticks s - ticks0 < of_int n then
        if killed p s then Ok minus1 s
        else
          let s = go_to_sleep p ChTicks s in
          (case env of [] \<Rightarrow> Asleep ChTicks s | e # env \<Rightarrow> sleep_ticks env p ticks0 n (woken p (e s)))
      else Ok 0 s)"

declare sleep_ticks.simps [simp del]

definition sys_sleep ::
  "('a proc_st_scheme \<Rightarrow> 'a proc_st_scheme) list \<Rightarrow> nat \<Rightarrow> 'a proc_st_scheme \<Rightarrow> (uint64, 'a proc_st_scheme) res" where
  "sys_sleep env p s = bindR (argint p 0 s) (\<lambda>n s. sleep_ticks env p (ticks s) n s)"

definition sys_kill :: "nat \<Rightarrow> 'a proc_st_scheme \<Rightarrow> (uint64, 'a proc_st_scheme) res" where
  "sys_kill p s = bindR (argint p 0 s) (\<lambda>pid s. case kill pid s of (r, s) \<Rightarrow> Ok (of_int r) s)"

definition sys_uptime :: "nat \<Rightarrow> 'a proc_st_scheme \<Rightarrow> (uint64, 'a proc_st_scheme) res" where
  "sys_uptime p s = Ok (ucast (ticks s)) s"

section \<open>Dispatch\<close>

type_synonym 's env = "('s \<Rightarrow> 's) list"

definition syscalls ::
  "(nat \<Rightarrow> 'a file_st_scheme devfuns) \<Rightarrow> uint8 list \<Rightarrow> 'a file_st_scheme env \<Rightarrow>
     (nat \<Rightarrow> 'a file_st_scheme \<Rightarrow> (uint64, 'a file_st_scheme) res) option list" where
  "syscalls devsw slack env =
     [None, Some sys_fork, Some sys_exit, Some (sys_wait env), Some sys_pipe, Some (sys_read devsw env), Some sys_kill,
      Some sys_exec, Some (sys_fstat slack), Some sys_chdir, Some sys_dup, Some sys_getpid, Some sys_sbrk,
      Some (sys_sleep env), Some sys_uptime, Some sys_open, Some (sys_write devsw env), Some sys_mknod,
      Some sys_unlink, Some sys_link, Some sys_mkdir, Some sys_close]"

definition syscall ::
  "(nat \<Rightarrow> 'a file_st_scheme devfuns) \<Rightarrow> uint8 list \<Rightarrow> 'a file_st_scheme env \<Rightarrow> nat \<Rightarrow> 'a file_st_scheme \<Rightarrow>
     (unit, 'a file_st_scheme) res" where
  "syscall devsw slack env p s =
     (let num = sint (ucast (tf_get TF_a7 s p) :: uint32); calls = syscalls devsw slack env in
      if 0 < num \<and> num < int (length calls) then
        (case calls ! nat num of
           Some f \<Rightarrow> bindR (f p s) (\<lambda>v s. Ok () (tf_set TF_a0 p v s))
         | None \<Rightarrow> Ok () (tf_set TF_a0 p minus1 s))
      else Ok () (tf_set TF_a0 p minus1 s))"

end
