(* ===== verification/Ulib.thy ===== *)
theory Ulib
  imports KString
begin

text \<open>
  user/ulib.c, the C library of the user programs. A C string is the list of the bytes from the
  pointer on; \<open>chr s\<close> is the byte the pointer points to, and the terminating NUL is the end of the list (a
  zero inside the list also ends the string, as in C). \<open>char\<close> is unsigned on RISC-V. Copying
  functions return the bytes they store. The block functions work on the byte-addressed memory.
  C's \<open>int\<close> is HOL's \<open>int\<close>: a result outside its 32 bits is undefined in C.

  Main results: \<open>strcmp_eq_0\<close> and \<open>strchr_first\<close> (what the string functions compute) and
  \<open>umemmove_correct\<close> (overlapping regions).
\<close>

type_synonym cstr = "uint8 list"

fun chr :: "cstr \<Rightarrow> uint8" where
  "chr [] = 0"
| "chr (c # s) = c"

lemma chr_shorter [termination_simp]:
  "chr s \<noteq> 0 \<Longrightarrow> length s - Suc 0 < length s" "chr s \<noteq> 0 \<Longrightarrow> length s - Suc (Suc 0) < length s"
  by (cases s; auto)+

section \<open>Strings\<close>

fun strcpy :: "cstr \<Rightarrow> uint8 list" where
  "strcpy t = (if chr t = 0 then [0] else chr t # strcpy (tl t))"

fun strcmp :: "cstr \<Rightarrow> cstr \<Rightarrow> int" where
  "strcmp p q =
     (if chr p \<noteq> 0 \<and> chr p = chr q then strcmp (tl p) (tl q) else uint (chr p) - uint (chr q))"

fun ustrlen_from :: "nat \<Rightarrow> cstr \<Rightarrow> nat" where
  "ustrlen_from n s = (if chr s = 0 then n else ustrlen_from (Suc n) (tl s))"

definition ustrlen :: "cstr \<Rightarrow> nat" where
  "ustrlen s = ustrlen_from 0 s"

text \<open>\<open>strchr\<close> returns the string from the found byte on.\<close>

fun strchr :: "cstr \<Rightarrow> uint8 \<Rightarrow> cstr option" where
  "strchr s c = (if chr s = 0 then None else if chr s = c then Some s else strchr (tl s) c)"

declare strcpy.simps [simp del] strcmp.simps [simp del] ustrlen_from.simps [simp del] strchr.simps [simp del]

text \<open>\<open>gets\<close> takes bytes from standard input, here the list of bytes that are left; it returns the
  bytes stored in \<open>buf\<close> and what is left of the input.\<close>

function gets_loop :: "int \<Rightarrow> int \<Rightarrow> uint8 list \<Rightarrow> uint8 list \<times> uint8 list" where
  "gets_loop max_n i inp =
     (if i + 1 < max_n then
        (case inp of
           [] \<Rightarrow> ([], inp)
         | c # inp \<Rightarrow>
             if c = 10 \<or> c = 13 then ([c], inp)
             else (let (bs, rest) = gets_loop max_n (i + 1) inp in (c # bs, rest)))
      else ([], inp))"
  by pat_completeness auto
termination
  by (relation "measure (\<lambda>(max_n, i, inp). length inp)") auto

declare gets_loop.simps [simp del]

definition gets :: "int \<Rightarrow> uint8 list \<Rightarrow> uint8 list \<times> uint8 list" where
  "gets max_n inp = (let (bs, rest) = gets_loop max_n 0 inp in (bs @ [0], rest))"

section \<open>Numbers\<close>

definition is_digit :: "uint8 \<Rightarrow> bool" where
  "is_digit c \<longleftrightarrow> 48 \<le> c \<and> c \<le> 57"

lemma digit_shorter [termination_simp]: "is_digit (chr s) \<Longrightarrow> length s - Suc 0 < length s"
  by (cases s) (auto simp: is_digit_def)

fun atoi_loop :: "int \<Rightarrow> cstr \<Rightarrow> int" where
  "atoi_loop n s =
     (if is_digit (chr s) then atoi_loop (n * 10 + uint (chr s) - 48) (tl s) else n)"

declare atoi_loop.simps [simp del]

definition atoi :: "cstr \<Rightarrow> int" where
  "atoi s =
     (let (s, sign) = (if chr s = 45 then (tl s, - 1) else (s, 1)) in sign * atoi_loop 0 s)"

section \<open>Blocks of memory\<close>

function umemset_from :: "memory \<Rightarrow> uint64 \<Rightarrow> uint8 \<Rightarrow> nat \<Rightarrow> nat \<Rightarrow> memory" where
  "umemset_from m dst c i n =
     (if i < n then umemset_from (m(dst + of_nat i := c)) dst c (Suc i) n else m)"
  by pat_completeness auto
termination
  by (relation "measure (\<lambda>(m, dst, c, i, n). n - i)") auto

declare umemset_from.simps [simp del]

definition umemset :: "memory \<Rightarrow> uint64 \<Rightarrow> uint8 \<Rightarrow> nat \<Rightarrow> memory" where
  "umemset m dst c n = umemset_from m dst c 0 n"

fun umemmove_up :: "memory \<Rightarrow> uint64 \<Rightarrow> uint64 \<Rightarrow> nat \<Rightarrow> memory" where
  "umemmove_up m dst src 0 = m"
| "umemmove_up m dst src (Suc n) = umemmove_up (m(dst := m src)) (dst + 1) (src + 1) n"

fun umemmove_down :: "memory \<Rightarrow> uint64 \<Rightarrow> uint64 \<Rightarrow> nat \<Rightarrow> memory" where
  "umemmove_down m dst src 0 = m"
| "umemmove_down m dst src (Suc n) = umemmove_down (m(dst - 1 := m (src - 1))) (dst - 1) (src - 1) n"

definition umemmove :: "memory \<Rightarrow> uint64 \<Rightarrow> uint64 \<Rightarrow> nat \<Rightarrow> memory" where
  "umemmove m vdst vsrc n =
     (if vsrc > vdst then umemmove_up m vdst vsrc n
      else umemmove_down m (vdst + of_nat n) (vsrc + of_nat n) n)"

fun umemcmp :: "memory \<Rightarrow> uint64 \<Rightarrow> uint64 \<Rightarrow> nat \<Rightarrow> int" where
  "umemcmp m s1 s2 0 = 0"
| "umemcmp m s1 s2 (Suc n) =
     (if m s1 \<noteq> m s2 then uint (m s1) - uint (m s2) else umemcmp m (s1 + 1) (s2 + 1) n)"

definition umemcpy :: "memory \<Rightarrow> uint64 \<Rightarrow> uint64 \<Rightarrow> nat \<Rightarrow> memory" where
  "umemcpy m dst src n = umemmove m dst src n"

section \<open>What the string functions compute\<close>

text \<open>The string as a value: the bytes before the first NUL.\<close>

definition cbytes :: "cstr \<Rightarrow> uint8 list" where
  "cbytes s = takeWhile (\<lambda>c. c \<noteq> 0) s"

lemma cbytes_step:
  "chr s = 0 \<Longrightarrow> cbytes s = []" "chr s \<noteq> 0 \<Longrightarrow> cbytes s = chr s # cbytes (tl s)"
  by (cases s; simp add: cbytes_def)+

lemma chr_nonempty: "chr s \<noteq> 0 \<Longrightarrow> s = chr s # tl s"
  by (cases s) auto

lemma strcpy_eq: "strcpy t = cbytes t @ [0]"
proof (induction t rule: strcpy.induct)
  case (1 t)
  then show ?case by (cases "chr t = 0") (simp_all add: strcpy.simps [of t] cbytes_step)
qed

lemma ustrlen_from_eq: "ustrlen_from n s = n + length (cbytes s)"
proof (induction n s rule: ustrlen_from.induct)
  case (1 n s)
  then show ?case by (cases "chr s = 0") (simp_all add: ustrlen_from.simps [of n s] cbytes_step)
qed

lemma ustrlen_eq: "ustrlen s = length (cbytes s)"
  by (simp add: ustrlen_def ustrlen_from_eq)

lemma strcmp_eq_0: "strcmp p q = 0 \<longleftrightarrow> cbytes p = cbytes q"
proof (induction p q rule: strcmp.induct)
  case (1 p q)
  show ?case
  proof (cases "chr p \<noteq> 0 \<and> chr p = chr q")
    case True
    then show ?thesis using 1 by (simp add: strcmp.simps [of p q] cbytes_step)
  next
    case False
    then show ?thesis
      by (cases "chr p = 0"; cases "chr q = 0") (auto simp: strcmp.simps [of p q] cbytes_step word_uint_eq_iff)
  qed
qed

text \<open>\<open>strchr\<close> splits a string at the first occurrence of a byte.\<close>

lemma strchr_first:
  assumes "c \<noteq> 0"
  shows "strchr s c = (if c \<in> set (cbytes s) then Some (drop (length (takeWhile (\<lambda>x. x \<noteq> c) s)) s) else None)"
proof (induction s)
  case Nil
  then show ?case by (simp add: strchr.simps cbytes_def)
next
  case (Cons x s)
  then show ?case using assms by (auto simp: strchr.simps [of "x # s"] cbytes_def)
qed

section \<open>Moving memory\<close>

text \<open>The library of the user programs decides between the two directions in another way than the
  kernel; both move the same bytes.\<close>

lemma umemmove_loops: "umemmove_up m d s n = memmove_forward m d s n" "umemmove_down m d s n = memmove_backward m d s n"
  by (induction n arbitrary: m d s) auto

lemma umemmove_correct:
  assumes "unat src + n \<le> 2 ^ 64" "unat dst + n \<le> 2 ^ 64"
  shows "umemmove m dst src n = memmove m dst src n"
proof
  fix x
  have S: "unat (src + of_nat k) = unat src + k" if "k < n" for k
    using that assms(1) by (simp add: unat_word_ariths)
  have D: "unat (dst + of_nat k) = unat dst + k" if "k < n" for k
    using that assms(2) by (simp add: unat_word_ariths)
  have "umemmove m dst src n x = (if unat (x - dst) < n then m (src + (x - dst)) else m x)"
  proof (cases "dst < src")
    case True
    have "dst + of_nat i \<noteq> src + of_nat j" if "i < j" "j < n" for i j
      using that True S [of j] D [of i] by (auto simp: word_less_nat_alt dest!: arg_cong [of _ _ unat])
    then show ?thesis using True assms memmove_forward_apply [of n dst src m x] by (simp add: umemmove_def umemmove_loops)
  next
    case False
    have "dst + of_nat j \<noteq> src + of_nat i" if "i < j" "j < n" for i j
      using that False D [of j] S [of i] by (auto simp: word_less_nat_alt dest!: arg_cong [of _ _ unat])
    then show ?thesis using False assms memmove_backward_apply [of n dst src m x] by (simp add: umemmove_def umemmove_loops)
  qed
  then show "umemmove m dst src n x = memmove m dst src n x" by (simp add: memmove_apply [OF assms])
qed

end
