(* ===== verification/Grep.thy ===== *)
theory Grep
  imports Ulib
begin

text \<open>
  user/grep.c: the regular-expression matcher and the loop that reads a file through a buffer of
  1024 bytes and prints the lines that match. Strings are as in Ulib. The loop of \<open>matchstar\<close> and
  of \<open>match\<close> are recursive calls. \<open>grep\<close> takes the contents of the file and a function \<open>rd\<close> that
  says how many of the requested bytes a call of \<open>read\<close> delivers, so that its lemmas hold for every
  way the reads may be cut short; it returns the list of its writes to standard output.

  Main results: \<open>match_language\<close> (the matcher decides the language of the pattern) and
  \<open>grep_prints_matches\<close> (the output is the list of the matching lines, however the reads are cut).
\<close>

section \<open>The matcher\<close>

lemma chr_pos: "chr s \<noteq> 0 \<Longrightarrow> 0 < length s" "chr s \<noteq> 0 \<Longrightarrow> Suc (2 * (length s - Suc (Suc 0))) < 2 * length s"
  by (cases s; auto)+

function (sequential) matchhere :: "cstr \<Rightarrow> cstr \<Rightarrow> bool"
  and matchstar :: "uint8 \<Rightarrow> cstr \<Rightarrow> cstr \<Rightarrow> bool" where
  "matchhere re str =
     (if chr re = 0 then True
      else if chr (tl re) = 42 then matchstar (chr re) (tl (tl re)) str
      else if chr re = 36 \<and> chr (tl re) = 0 then chr str = 0
      else if chr str \<noteq> 0 \<and> (chr re = 46 \<or> chr re = chr str) then matchhere (tl re) (tl str)
      else False)"
| "matchstar c re str =
     (if matchhere re str then True
      else if chr str \<noteq> 0 \<and> (chr str = c \<or> c = 46) then matchstar c re (tl str)
      else False)"
  by pat_completeness auto
termination
  by (relation "measures [\<lambda>x. case x of Inl (re, str) \<Rightarrow> 2 * length re | Inr (c, re, str) \<Rightarrow> 2 * length re + 1,
      \<lambda>x. case x of Inl (re, str) \<Rightarrow> length str | Inr (c, re, str) \<Rightarrow> length str]")
    (auto dest: chr_pos)

fun match_any :: "cstr \<Rightarrow> cstr \<Rightarrow> bool" where
  "match_any re str =
     (if matchhere re str then True else if chr str \<noteq> 0 then match_any re (tl str) else False)"

declare matchhere.simps [simp del] matchstar.simps [simp del] match_any.simps [simp del]

definition match :: "cstr \<Rightarrow> cstr \<Rightarrow> bool" where
  "match re str = (if chr re = 94 then matchhere (tl re) str else match_any re str)"

section \<open>The loop over the file\<close>

text \<open>The inner loop of \<open>grep\<close>: it takes the complete lines off the buffer and leaves the rest.\<close>

lemma strchr_suffix: "strchr s c = Some q \<Longrightarrow> q \<noteq> [] \<and> length q \<le> length s"
proof (induction s)
  case (Cons x s)
  then show ?case by (auto simp: strchr.simps [of "x # s"] split: if_splits)
qed (simp add: strchr.simps)

function grep_lines :: "cstr \<Rightarrow> cstr \<Rightarrow> cstr list \<times> cstr" where
  "grep_lines pattern p =
     (case strchr p 10 of
        None \<Rightarrow> ([], p)
      | Some q \<Rightarrow>
          let line = take (length p - length q) p; (out, rest) = grep_lines pattern (tl q) in
          ((if match pattern line then (line @ [10]) # out else out), rest))"
  by pat_completeness auto
termination
proof (relation "measure (\<lambda>(pattern, p). length p)")
  show "((pattern, tl q), pattern, p) \<in> measure (\<lambda>(pattern, p). length p)"
    if "strchr p 10 = Some q" for pattern p q x
    using strchr_suffix [OF that] by (cases q) auto
qed simp

declare grep_lines.simps [simp del]

definition GREP_BUF :: nat where "GREP_BUF = 1024"

function grep_loop :: "(nat \<Rightarrow> uint8 list \<Rightarrow> nat) \<Rightarrow> cstr \<Rightarrow> uint8 list \<Rightarrow> uint8 list \<Rightarrow> cstr list" where
  "grep_loop rd pattern buf inp =
     (let room = GREP_BUF - length buf - 1; n = min (rd room inp) (min room (length inp)) in
      if n > 0 then
        let (out, rest) = grep_lines pattern (buf @ take n inp) in
        out @ grep_loop rd pattern rest (drop n inp)
      else [])"
  by pat_completeness auto
termination
  by (relation "measure (\<lambda>(rd, pattern, buf, inp). length inp)") auto

declare grep_loop.simps [simp del]

definition grep :: "(nat \<Rightarrow> uint8 list \<Rightarrow> nat) \<Rightarrow> cstr \<Rightarrow> uint8 list \<Rightarrow> cstr list" where
  "grep rd pattern inp = grep_loop rd pattern [] inp"

section \<open>The language of a pattern\<close>

text \<open>A pattern is a list of atoms: a byte (\<open>.\<close> fits every byte), a starred byte, and \<open>$\<close> at the end.
  \<open>lang\<close> is the set of the strings that begin with a match.\<close>

datatype atom = One uint8 | Many uint8 | At_end

fun atoms :: "cstr \<Rightarrow> atom list" where
  "atoms [] = []"
| "atoms [c] = (if c = 36 then [At_end] else [One c])"
| "atoms (c # d # re) = (if d = 42 then Many c # atoms re else One c # atoms (d # re))"

definition fits :: "uint8 \<Rightarrow> uint8 \<Rightarrow> bool" where
  "fits c x \<longleftrightarrow> c = 46 \<or> c = x"

fun lang :: "atom list \<Rightarrow> uint8 list set" where
  "lang [] = UNIV"
| "lang (One c # as) = {x # w | x w. fits c x \<and> w \<in> lang as}"
| "lang (Many c # as) = {u @ w | u w. (\<forall>x \<in> set u. fits c x) \<and> w \<in> lang as}"
| "lang (At_end # as) = {[]}"

lemma lang_Many_step:
  "str \<in> lang (Many c # as) \<longleftrightarrow> str \<in> lang as \<or> (\<exists>x w. str = x # w \<and> fits c x \<and> w \<in> lang (Many c # as))"
proof
  assume "str \<in> lang (Many c # as)"
  then obtain u w where u: "str = u @ w" "\<forall>x \<in> set u. fits c x" "w \<in> lang as" by auto
  then show "str \<in> lang as \<or> (\<exists>x w. str = x # w \<and> fits c x \<and> w \<in> lang (Many c # as))"
    by (cases u) auto
next
  assume "str \<in> lang as \<or> (\<exists>x w. str = x # w \<and> fits c x \<and> w \<in> lang (Many c # as))"
  then show "str \<in> lang (Many c # as)"
  proof
    assume "str \<in> lang as"
    then show ?thesis by (auto intro: exI [of _ "[]"])
  next
    assume "\<exists>x w. str = x # w \<and> fits c x \<and> w \<in> lang (Many c # as)"
    then obtain x u w where "str = (x # u) @ w" "\<forall>y \<in> set (x # u). fits c y" "w \<in> lang as" by auto
    then show ?thesis unfolding lang.simps mem_Collect_eq by blast
  qed
qed

lemma matchhere_lang:
  "0 \<notin> set re \<Longrightarrow> 0 \<notin> set str \<Longrightarrow> matchhere re str \<longleftrightarrow> str \<in> lang (atoms re)"
  "0 \<notin> set re' \<Longrightarrow> 0 \<notin> set str' \<Longrightarrow> matchstar c re' str' \<longleftrightarrow> str' \<in> lang (Many c # atoms re')"
proof (induction re str and c re' str' rule: matchhere_matchstar.induct)
  case (1 re str)
  show ?case
  proof (cases re rule: atoms.cases)
    case 1
    then show ?thesis by (simp add: matchhere.simps)
  next
    case (2 c)
    then show ?thesis using "1.prems" by (cases str) (auto simp: matchhere.simps fits_def)
  next
    case (3 c d r)
    then have "c \<noteq> 0" "d \<noteq> 0" using "1.prems" by auto
    then show ?thesis using "1.IH" "1.prems" 3
      by (cases str) (auto simp: matchhere.simps [of "c # d # r"] fits_def simp del: lang.simps(3))
  qed
next
  case (2 c re str)
  then show ?case by (cases str; subst lang_Many_step) (auto simp: matchstar.simps [of c re] fits_def simp del: lang.simps(3))
qed

lemma match_any_iff: "0 \<notin> set str \<Longrightarrow> match_any re str \<longleftrightarrow> (\<exists>u v. str = u @ v \<and> matchhere re v)"
proof (induction str)
  case Nil
  then show ?case by (simp add: match_any.simps)
next
  case (Cons x str)
  then show ?case by (auto simp: match_any.simps [of re "x # str"] Cons_eq_append_conv)
qed

section \<open>Complete lines\<close>

text \<open>The lines of a file that end in a newline, without it, and what follows the last newline.\<close>

function lines :: "uint8 list \<Rightarrow> uint8 list list" where
  "lines xs = (if 10 \<in> set xs then takeWhile (\<lambda>c. c \<noteq> 10) xs # lines (tl (dropWhile (\<lambda>c. c \<noteq> 10) xs)) else [])"
  by pat_completeness auto
termination
proof (relation "measure length")
  fix xs :: "uint8 list" assume "10 \<in> set xs"
  then have "dropWhile (\<lambda>c. c \<noteq> 10) xs \<noteq> []" by auto
  then have "length (tl (dropWhile (\<lambda>c. c \<noteq> 10) xs)) < length (dropWhile (\<lambda>c. c \<noteq> 10) xs)" by (cases "dropWhile (\<lambda>c. c \<noteq> 10) xs") auto
  then show "(tl (dropWhile (\<lambda>c. c \<noteq> 10) xs), xs) \<in> measure length"
    using length_dropWhile_le [of "\<lambda>c. c \<noteq> 10" xs] by simp
qed simp

declare lines.simps [simp del]

lemma lines_no_newline: "10 \<notin> set xs \<Longrightarrow> lines xs = []"
  by (simp add: lines.simps)

lemma lines_first: "10 \<notin> set l \<Longrightarrow> lines (l @ 10 # xs) = l # lines xs"
  by (simp add: lines.simps [of "l @ 10 # xs"] takeWhile_append dropWhile_append)

lemma strchr_newline:
  assumes "0 \<notin> set p"
  shows "10 \<notin> set p \<Longrightarrow> strchr p 10 = None" "10 \<notin> set l \<Longrightarrow> p = l @ 10 # r \<Longrightarrow> strchr p 10 = Some (10 # r)"
proof -
  have "cbytes p = p" using assms by (auto simp: cbytes_def takeWhile_eq_all_conv)
  then show "10 \<notin> set p \<Longrightarrow> strchr p 10 = None" "10 \<notin> set l \<Longrightarrow> p = l @ 10 # r \<Longrightarrow> strchr p 10 = Some (10 # r)"
    by (simp_all add: strchr_first takeWhile_append)
qed

definition matching :: "cstr \<Rightarrow> uint8 list list \<Rightarrow> uint8 list list" where
  "matching pattern ls = map (\<lambda>l. l @ [10]) (filter (match pattern) ls)"

lemma grep_lines_spec:
  assumes "0 \<notin> set p"
  shows "\<exists>rest. grep_lines pattern p = (matching pattern (lines p), rest) \<and> 10 \<notin> set rest \<and> length rest \<le> length p \<and>
    0 \<notin> set rest \<and> (\<forall>xs. lines (p @ xs) = lines p @ lines (rest @ xs))"
  using assms
proof (induction "length p" arbitrary: p rule: less_induct)
  case less
  show ?case
  proof (cases "10 \<in> set p")
    case False
    then show ?thesis using less.prems strchr_newline(1) [of p]
      by (simp add: grep_lines.simps [of _ p] lines_no_newline matching_def)
  next
    case True
    then obtain l r where p: "p = l @ 10 # r" "10 \<notin> set l" by (meson split_list_first)
    obtain rest where r: "grep_lines pattern r = (matching pattern (lines r), rest)" "10 \<notin> set rest" "length rest \<le> length r"
      "0 \<notin> set rest" "\<forall>xs. lines (r @ xs) = lines r @ lines (rest @ xs)"
      using less.hyps [of r] p less.prems by auto
    have "strchr p 10 = Some (10 # r)" using strchr_newline(2) [OF less.prems p(2,1)] .
    then have "grep_lines pattern p = (matching pattern (lines p), rest)"
      using r(1) p by (simp add: grep_lines.simps [of pattern "l @ 10 # r"] lines_first matching_def)
    then show ?thesis using r p by (simp add: lines_first)
  qed
qed

text \<open>The outer loop: the buffer holds the unfinished line, and every complete line fits into it.\<close>

lemma grep_loop_spec:
  assumes "\<And>k i. 0 < k \<Longrightarrow> i \<noteq> [] \<Longrightarrow> 0 < rd k i"
    and "0 \<notin> set inp" "0 \<notin> set buf" "10 \<notin> set buf" "length buf < GREP_BUF" "\<forall>l \<in> set (lines (buf @ inp)). length l < GREP_BUF - 1"
  shows "grep_loop rd pattern buf inp = matching pattern (lines (buf @ inp))"
  using assms(2-)
proof (induction "length inp" arbitrary: buf inp rule: less_induct)
  case less
  let ?room = "GREP_BUF - length buf - 1"
  define n where "n = min (rd ?room inp) (min ?room (length inp))"
  have step: "grep_loop rd pattern buf inp = (if n > 0 then (case grep_lines pattern (buf @ take n inp) of (out, rest) \<Rightarrow>
      out @ grep_loop rd pattern rest (drop n inp)) else [])"
    by (subst grep_loop.simps) (simp only: Let_def n_def)
  show ?case
  proof (cases "n = 0")
    case True
    have "lines (buf @ inp) = []"
    proof (cases "inp = []")
      case False
      then have "length inp \<noteq> 0" by simp
      moreover have "0 < rd ?room inp" if "0 < ?room" using assms(1) [OF that False] .
      ultimately have "?room = 0" using True unfolding n_def by (metis min_def neq0_conv)
      then have b: "length buf = GREP_BUF - 1" using less.prems(4) by simp
      have "10 \<notin> set inp"
      proof
        assume "10 \<in> set inp"
        then obtain l r where "inp = l @ 10 # r" "10 \<notin> set l" by (meson split_list_first)
        then have "buf @ l \<in> set (lines (buf @ inp))" using lines_first [of "buf @ l" r] less.prems(3) by simp
        then show False using less.prems(5) b by fastforce
      qed
      then show ?thesis using less.prems(3) by (simp add: lines_no_newline)
    qed (use less.prems(3) in \<open>simp add: lines_no_newline\<close>)
    then show ?thesis using True by (simp add: step matching_def)
  next
    case False
    let ?p = "buf @ take n inp" and ?i = "drop n inp"
    have z: "0 \<notin> set ?p" "0 \<notin> set ?i" using less.prems by (auto dest: in_set_takeD in_set_dropD)
    obtain rest where r: "grep_lines pattern ?p = (matching pattern (lines ?p), rest)" "10 \<notin> set rest" "length rest \<le> length ?p"
      "0 \<notin> set rest" "\<forall>xs. lines (?p @ xs) = lines ?p @ lines (rest @ xs)"
      using grep_lines_spec [OF z(1)] by blast
    have sp: "lines (buf @ inp) = lines ?p @ lines (rest @ ?i)" using r(5) [rule_format, of ?i] by simp
    have "length ?i < length inp" "length rest < GREP_BUF" using False r(3) less.prems(4) by (auto simp: n_def)
    moreover have "\<forall>l \<in> set (lines (rest @ ?i)). length l < GREP_BUF - 1" using less.prems(5) sp by simp
    ultimately have "grep_loop rd pattern rest ?i = matching pattern (lines (rest @ ?i))"
      using less.hyps [of ?i rest] z(2) r(2,4) by blast
    then show ?thesis using False r(1) sp
      by (simp add: step matching_def)
  qed
qed

text \<open>A line that does not fit the buffer ends the loop: the next \<open>read\<close> asks for no bytes, and the rest of the
  file is not searched.\<close>

lemma grep_stops_at_long_line:
  assumes "GREP_BUF - 1 \<le> length inp" "10 \<notin> set (take (GREP_BUF - 1) inp)"
  shows "grep (\<lambda>k i. k) pattern inp = []"
proof -
  let ?b = "take (GREP_BUF - 1) inp"
  have "10 \<notin> set (cbytes ?b)" using assms(2) by (auto simp: cbytes_def dest: set_takeWhileD)
  then have "grep_lines pattern ?b = ([], ?b)" by (subst grep_lines.simps) (simp add: strchr_first)
  moreover have "grep_loop (\<lambda>k i. k) pattern ?b xs = []" for xs
    using assms(1) by (subst grep_loop.simps) (simp add: Let_def GREP_BUF_def)
  ultimately show ?thesis using assms(1) unfolding grep_def by (subst grep_loop.simps) (simp add: Let_def GREP_BUF_def)
qed

section \<open>Properties\<close>

text \<open>C30: the matcher of grep decides the language of the pattern. For a pattern that starts with
  \<open>^\<close> the text has to begin with a match of the rest; otherwise a match may begin anywhere in the
  text, the end included.\<close>

theorem match_language:
  assumes "0 \<notin> set re" "0 \<notin> set str"
  shows "match re str \<longleftrightarrow>
    (if chr re = 94 then str \<in> lang (atoms (tl re)) else \<exists>u v. str = u @ v \<and> v \<in> lang (atoms re))"
proof (cases "chr re = 94")
  case True
  then have "0 \<notin> set (tl re)" using assms(1) by (cases re) auto
  then show ?thesis using True matchhere_lang(1) [of "tl re" str] assms(2) by (simp add: match_def)
next
  case False
  have "matchhere re v \<longleftrightarrow> v \<in> lang (atoms re)" if "str = u @ v" for u v
    using assms that by (intro matchhere_lang(1)) auto
  then have "(\<exists>u v. str = u @ v \<and> matchhere re v) \<longleftrightarrow> (\<exists>u v. str = u @ v \<and> v \<in> lang (atoms re))" by blast
  then show ?thesis using False assms(2) by (simp add: match_def match_any_iff)
qed

theorem match_language_witness:
  "match [97, 42, 98, 36] [120, 97, 97, 98] \<longleftrightarrow> (\<exists>u v. [120, 97, 97, 98] = u @ v \<and> v \<in> lang [Many 97, One 98, At_end])"
  using match_language [of "[97, 42, 98, 36]" "[120, 97, 97, 98]"] by simp

text \<open>C31: grep prints exactly the matching lines. For a file without NUL bytes whose lines fit the
  buffer, and however the reads are cut short as long as each makes progress, the writes of grep
  are the complete lines of the file that match the pattern, in order, each with its newline.\<close>

theorem grep_prints_matches:
  assumes "\<And>k i. 0 < k \<Longrightarrow> i \<noteq> [] \<Longrightarrow> 0 < rd k i" "0 \<notin> set inp" "\<forall>l \<in> set (lines inp). length l < GREP_BUF - 1"
  shows "grep rd pattern inp = map (\<lambda>l. l @ [10]) (filter (match pattern) (lines inp))"
  using grep_loop_spec [of rd inp "[]" pattern] assms by (simp add: grep_def GREP_BUF_def matching_def)

theorem grep_prints_matches_witness:
  "grep (\<lambda>k i. 2) [98] [97, 98, 10, 97, 10, 98] = [[97, 98, 10]]"
proof -
  have l: "lines [97, 98, 10, 97, 10, 98] = [[97, 98], [97]]" by code_simp
  have "filter (match [98]) [[97, 98], [97]] = [[97, 98]]" by code_simp
  then show ?thesis using grep_prints_matches [of "\<lambda>k i. 2" "[97, 98, 10, 97, 10, 98]" "[98]"] l by (simp add: GREP_BUF_def)
qed

end
