(* ===== verification/Uart.thy ===== *)
theory Uart
  imports File
begin

text \<open>
  kernel/uart.c: the driver of the serial port. The registers of the device are behaviour of the hardware:
  \<open>uart_writes\<close> lists the writes to its registers in order, \<open>tx_idle\<close> what the next reads of the line status
  register find in its \<open>LSR_TX_IDLE\<close> bit (an exhausted list reads as busy), \<open>rx\<close> the bytes waiting
  in the receive register. \<open>uartputc\<close> sleeps while the transmit queue is full; it takes the list of what the rest of
  the system does during each sleep and returns what is left of it. \<open>Diverge\<close> is a busy loop that is
  never left: after a panic, or when the device never becomes idle.

  Main result: \<open>uart_fifo\<close>, the stream of bytes sent and queued behaves as one queue.
\<close>

section \<open>State\<close>

definition THR :: nat where "THR = 0"
definition IER :: nat where "IER = 1"
definition IER_RX_ENABLE :: uint8 where "IER_RX_ENABLE = 1"
definition IER_TX_ENABLE :: uint8 where "IER_TX_ENABLE = 2"
definition FCR :: nat where "FCR = 2"
definition FCR_FIFO_ENABLE :: uint8 where "FCR_FIFO_ENABLE = 1"
definition FCR_FIFO_CLEAR :: uint8 where "FCR_FIFO_CLEAR = 6"
definition LCR :: nat where "LCR = 3"
definition LCR_EIGHT_BITS :: uint8 where "LCR_EIGHT_BITS = 3"
definition LCR_BAUD_LATCH :: uint8 where "LCR_BAUD_LATCH = 128"

definition UART_TX_BUF_SIZE :: nat where "UART_TX_BUF_SIZE = 32"

record uart_st = file_st +
  uart_tx_buf :: "uint8 list"
  uart_tx_w :: uint64
  uart_tx_r :: uint64
  panicked :: bool
  uart_writes :: "(nat \<times> uint8) list"
  tx_idle :: "bool list"
  rx :: "uint8 list"

definition WriteReg :: "nat \<Rightarrow> uint8 \<Rightarrow> 'a uart_st_scheme \<Rightarrow> 'a uart_st_scheme" where
  "WriteReg reg v s = s\<lparr>uart_writes := uart_writes s @ [(reg, v)]\<rparr>"

section \<open>Operations\<close>

definition uartinit :: "'a uart_st_scheme \<Rightarrow> 'a uart_st_scheme" where
  "uartinit s =
     (let s = WriteReg IER 0 s;
          s = WriteReg LCR LCR_BAUD_LATCH s;
          s = WriteReg 0 3 s;
          s = WriteReg 1 0 s;
          s = WriteReg LCR LCR_EIGHT_BITS s;
          s = WriteReg FCR (FCR_FIFO_ENABLE OR FCR_FIFO_CLEAR) s in
      WriteReg IER (IER_TX_ENABLE OR IER_RX_ENABLE) s)"

text \<open>\<open>uartstart\<close> consumes one answer of the status register per turn.\<close>

fun uartstart_from :: "bool list \<Rightarrow> 'a uart_st_scheme \<Rightarrow> 'a uart_st_scheme" where
  "uartstart_from idle s =
     (if uart_tx_w s = uart_tx_r s then s\<lparr>tx_idle := idle\<rparr>
      else
        (case idle of
           [] \<Rightarrow> s\<lparr>tx_idle := []\<rparr>
         | False # idle \<Rightarrow> s\<lparr>tx_idle := idle\<rparr>
         | True # idle \<Rightarrow>
             let c = uart_tx_buf s ! (unat (uart_tx_r s) mod UART_TX_BUF_SIZE);
                 s = wakeup ChUartTx (s\<lparr>uart_tx_r := uart_tx_r s + 1\<rparr>) in
             uartstart_from idle (WriteReg THR c s)))"

declare uartstart_from.simps [simp del]

definition uartstart :: "'a uart_st_scheme \<Rightarrow> 'a uart_st_scheme" where
  "uartstart s = uartstart_from (tx_idle s) s"

fun uartputc_wait ::
  "('a uart_st_scheme \<Rightarrow> 'a uart_st_scheme) list \<Rightarrow> 'a uart_st_scheme \<Rightarrow>
     (('a uart_st_scheme \<Rightarrow> 'a uart_st_scheme) list, 'a uart_st_scheme) res" where
  "uartputc_wait env s =
     (if uart_tx_w s = uart_tx_r s + of_nat UART_TX_BUF_SIZE then
        let s = sleep_self ChUartTx s in
        (case env of [] \<Rightarrow> Asleep ChUartTx s | e # env \<Rightarrow> uartputc_wait env (woken_self (e s)))
      else Ok env s)"

declare uartputc_wait.simps [simp del]

definition uart_put :: "uint8 \<Rightarrow> 'a uart_st_scheme \<Rightarrow> 'a uart_st_scheme" where
  "uart_put c s =
     s\<lparr>uart_tx_buf := (uart_tx_buf s)[unat (uart_tx_w s) mod UART_TX_BUF_SIZE := c], uart_tx_w := uart_tx_w s + 1\<rparr>"

definition uartputc ::
  "('a uart_st_scheme \<Rightarrow> 'a uart_st_scheme) list \<Rightarrow> uint8 \<Rightarrow> 'a uart_st_scheme \<Rightarrow>
     (('a uart_st_scheme \<Rightarrow> 'a uart_st_scheme) list, 'a uart_st_scheme) res" where
  "uartputc env c s =
     (if panicked s then Diverge
      else bindR (uartputc_wait env s) (\<lambda>env s. Ok env (uartstart (uart_put c s))))"

definition uartputc_sync :: "uint8 \<Rightarrow> 'a uart_st_scheme \<Rightarrow> (unit, 'a uart_st_scheme) res" where
  "uartputc_sync c s =
     (if panicked s then Diverge
      else
        (case dropWhile Not (tx_idle s) of
           [] \<Rightarrow> Diverge
         | _ # idle \<Rightarrow> Ok () (WriteReg THR c (s\<lparr>tx_idle := idle\<rparr>))))"

definition uartgetc :: "'a uart_st_scheme \<Rightarrow> int \<times> 'a uart_st_scheme" where
  "uartgetc s = (case rx s of c # cs \<Rightarrow> (uint c, s\<lparr>rx := cs\<rparr>) | [] \<Rightarrow> (- 1, s))"

section \<open>The stream of output bytes\<close>

interpretation uring: ring UART_TX_BUF_SIZE "TYPE(uint64)"
  by unfold_locales (simp_all add: UART_TX_BUF_SIZE_def)

definition uart_queue :: "'a uart_st_scheme \<Rightarrow> uint8 list" where
  "uart_queue s = ring_contents UART_TX_BUF_SIZE (uart_tx_buf s) (uart_tx_r s) (uart_tx_w s)"

definition uart_sent :: "'a uart_st_scheme \<Rightarrow> uint8 list" where
  "uart_sent s = map snd (filter (\<lambda>(reg, v). reg = THR) (uart_writes s))"

definition uart_stream :: "'a uart_st_scheme \<Rightarrow> uint8 list" where
  "uart_stream s = uart_sent s @ uart_queue s"

definition uart_ok :: "'a uart_st_scheme \<Rightarrow> bool" where
  "uart_ok s \<longleftrightarrow> length (uart_tx_buf s) = UART_TX_BUF_SIZE \<and> length (uart_queue s) \<le> UART_TX_BUF_SIZE"

lemma wakeup_uart [simp]:
  "uart_tx_buf (wakeup ch s) = uart_tx_buf s" "uart_tx_w (wakeup ch s) = uart_tx_w s" "uart_tx_r (wakeup ch s) = uart_tx_r s"
  "uart_writes (wakeup ch s) = uart_writes s" "panicked (wakeup ch s) = panicked s" "rx (wakeup ch s) = rx s"
  "tx_idle (wakeup ch s) = tx_idle s"
  by (subst wakeup_eq, simp)+

lemma length_uart_queue: "length (uart_queue s) = unat (uart_tx_w s - uart_tx_r s)"
  by (simp add: uart_queue_def)

lemma uart_queue_empty: "uart_tx_w s = uart_tx_r s \<longleftrightarrow> uart_queue s = []"
  using length_uart_queue [of s] by (metis diff_self eq_iff_diff_eq_0 length_0_conv unat_0 unat_eq_0)

lemma uart_queue_full: "uart_tx_w s = uart_tx_r s + of_nat UART_TX_BUF_SIZE \<longleftrightarrow> length (uart_queue s) = UART_TX_BUF_SIZE"
proof -
  have "uart_tx_w s = uart_tx_r s + of_nat UART_TX_BUF_SIZE \<longleftrightarrow> uart_tx_w s - uart_tx_r s = of_nat UART_TX_BUF_SIZE"
    by (simp add: diff_eq_eq add.commute)
  also have "\<dots> \<longleftrightarrow> unat (uart_tx_w s - uart_tx_r s) = UART_TX_BUF_SIZE"
    by (simp add: word_unat_eq_iff UART_TX_BUF_SIZE_def)
  finally show ?thesis by (simp add: length_uart_queue)
qed

text \<open>One turn of \<open>uartstart\<close> moves the oldest byte of the queue to the device.\<close>

lemma uart_send:
  assumes "uart_ok s" "uart_tx_w s \<noteq> uart_tx_r s"
    and t: "t = WriteReg THR (uart_tx_buf s ! (unat (uart_tx_r s) mod UART_TX_BUF_SIZE)) (wakeup ChUartTx (s\<lparr>uart_tx_r := uart_tx_r s + 1\<rparr>))"
  shows "uart_ok t" "uart_stream t = uart_stream s" "length (uart_queue s) = Suc (length (uart_queue t))"
proof -
  have q: "uart_queue s = uart_tx_buf s ! (unat (uart_tx_r s) mod UART_TX_BUF_SIZE) # uart_queue t"
    using uring.contents_pop [of "uart_tx_r s" "uart_tx_w s" "uart_tx_buf s"] assms(2)
    by (simp add: uart_queue_def t WriteReg_def)
  then show "uart_ok t" "uart_stream t = uart_stream s" "length (uart_queue s) = Suc (length (uart_queue t))"
    using assms(1) by (simp_all add: uart_ok_def uart_stream_def uart_sent_def t WriteReg_def)
qed

lemma uartstart_from_stream:
  "uart_ok s \<Longrightarrow> uart_ok (uartstart_from idle s) \<and> uart_stream (uartstart_from idle s) = uart_stream s \<and>
    (length (uart_queue s) \<le> length (takeWhile id idle) \<longrightarrow> uart_queue (uartstart_from idle s) = [])"
proof (induction idle arbitrary: s)
  case Nil
  then show ?case by (auto simp: uartstart_from.simps [of "[]"] uart_queue_def uart_stream_def uart_sent_def uart_ok_def ring_contents_def)
next
  case (Cons b idle)
  let ?t = "WriteReg THR (uart_tx_buf s ! (unat (uart_tx_r s) mod UART_TX_BUF_SIZE)) (wakeup ChUartTx (s\<lparr>uart_tx_r := uart_tx_r s + 1\<rparr>))"
  consider "uart_tx_w s = uart_tx_r s" | "uart_tx_w s \<noteq> uart_tx_r s" "b" | "uart_tx_w s \<noteq> uart_tx_r s" "\<not> b" by blast
  then show ?case
  proof cases
    case 1
    then show ?thesis using Cons.prems
      by (simp add: uartstart_from.simps [of "b # idle"] uart_queue_def uart_stream_def uart_sent_def uart_ok_def)
  next
    case 2
    note t = uart_send [OF Cons.prems 2(1) refl]
    have "uartstart_from (b # idle) s = uartstart_from idle ?t" using 2 by (subst uartstart_from.simps) (simp add: Let_def)
    then show ?thesis using Cons.IH [OF t(1)] t(2,3) 2(2) by simp
  next
    case 3
    have "uartstart_from (b # idle) s = s\<lparr>tx_idle := idle\<rparr>" using 3 by (subst uartstart_from.simps) simp
    moreover have "uart_queue s \<noteq> []" using 3(1) uart_queue_empty by blast
    ultimately show ?thesis using Cons.prems 3(2)
      by (simp add: uart_queue_def uart_stream_def uart_sent_def uart_ok_def ring_contents_def)
  qed
qed

lemma uart_put_stream:
  assumes "uart_ok s" "length (uart_queue s) < UART_TX_BUF_SIZE"
  shows "uart_ok (uart_put c s)" "uart_stream (uart_put c s) = uart_stream s @ [c]"
proof -
  have "uart_queue (uart_put c s) = uart_queue s @ [c]"
    using uring.contents_push [of "uart_tx_w s" "uart_tx_r s" "uart_tx_buf s" c] assms
    by (simp add: uart_queue_def uart_put_def uart_ok_def)
  then show "uart_ok (uart_put c s)" "uart_stream (uart_put c s) = uart_stream s @ [c]"
    using assms by (simp_all add: uart_ok_def uart_stream_def uart_sent_def uart_put_def)
qed

section \<open>Properties\<close>

text \<open>C29: the transmit queue is a first-in first-out channel to the device. The bytes already written to the
  transmit register followed by the bytes in the ring form one stream: \<open>uartputc\<close> appends its byte to the stream, or
  sleeps when 32 bytes are queued; \<open>uartstart\<close>, also when called from the interrupt handler, never changes the stream, and it
  empties the queue when the device stays idle long enough. The ring never overflows.\<close>

theorem uart_fifo:
  assumes "uart_ok s" "\<not> panicked s"
  shows "(if length (uart_queue s) = UART_TX_BUF_SIZE then uartputc [] c s = Asleep ChUartTx (sleep_self ChUartTx s)
      else \<exists>t. uartputc [] c s = Ok [] t \<and> uart_ok t \<and> uart_stream t = uart_stream s @ [c]) \<and>
    uart_ok (uartstart s) \<and> uart_stream (uartstart s) = uart_stream s \<and>
    (length (uart_queue s) \<le> length (takeWhile id (tx_idle s)) \<longrightarrow> uart_sent (uartstart s) = uart_stream s)"
proof (intro conjI)
  show "if length (uart_queue s) = UART_TX_BUF_SIZE then uartputc [] c s = Asleep ChUartTx (sleep_self ChUartTx s)
      else \<exists>t. uartputc [] c s = Ok [] t \<and> uart_ok t \<and> uart_stream t = uart_stream s @ [c]"
  proof (cases "length (uart_queue s) = UART_TX_BUF_SIZE")
    case True
    then show ?thesis using assms(2) uart_queue_full [of s] by (simp add: uartputc_def uartputc_wait.simps [of "[]"])
  next
    case False
    then have "length (uart_queue s) < UART_TX_BUF_SIZE" using assms(1) by (simp add: uart_ok_def)
    note put = uart_put_stream [OF assms(1) this, of c]
    have "uartputc [] c s = Ok [] (uartstart (uart_put c s))"
      using False assms(2) uart_queue_full [of s] by (simp add: uartputc_def uartputc_wait.simps [of "[]"])
    then show ?thesis using False uartstart_from_stream [OF put(1)] put(2) by (simp add: uartstart_def)
  qed
  note st = uartstart_from_stream [OF assms(1), of "tx_idle s"]
  show "uart_ok (uartstart s)" "uart_stream (uartstart s) = uart_stream s"
    "length (uart_queue s) \<le> length (takeWhile id (tx_idle s)) \<longrightarrow> uart_sent (uartstart s) = uart_stream s"
    using st by (auto simp: uartstart_def uart_stream_def)
qed

theorem uart_fifo_witness:
  "\<exists>(s :: uart_st) t. uart_stream s = [] \<and> uartputc [] 65 s = Ok [] t \<and> uart_stream t = [65]"
proof -
  let ?s = "(undefined :: uart_st)\<lparr>uart_tx_buf := replicate 32 0, uart_tx_w := 0, uart_tx_r := 0, panicked := False,
    uart_writes := [], tx_idle := []\<rparr>"
  have s: "uart_stream ?s = []" "uart_queue ?s = []" "uart_ok ?s"
    by (simp_all add: uart_stream_def uart_queue_def uart_sent_def uart_ok_def UART_TX_BUF_SIZE_def ring_contents_def)
  then show ?thesis using uart_fifo [of ?s 65] by (auto simp: UART_TX_BUF_SIZE_def)
qed

end
