(* ===== verification/Printf.thy ===== *)
theory Printf
  imports Ulib
begin

text \<open>
  Formatted output: user/printf.c and kernel/printf.c. The functions return the bytes they hand to
  \<open>putc\<close> or \<open>consputc\<close>, in order. Arguments are the 64-bit slots that \<open>va_arg\<close> reads: an \<open>int\<close> is the low
  half of a slot, \<open>str a\<close> is the string at address \<open>a\<close>. Reading past the last argument is undefined
  in C and \<open>None\<close> here. \<open>buf\<close> of \<open>printint\<close> is a list; \<open>printint_fits\<close> shows that it never outgrows the
  16 bytes of the source. The bases that occur are 10 and 16.

  Main results: \<open>atoi_printint\<close> (a printed number reads back), \<open>printint_fits\<close>, and
  \<open>vprintf_prints\<close>: the output is the one that the format describes, where a number is described by the value of its
  digits (\<open>numeral_of\<close>) and not by the loops that produce them.
\<close>

section \<open>Numbers\<close>

definition udigits :: "uint8 list" where
  "udigits = [48, 49, 50, 51, 52, 53, 54, 55, 56, 57, 65, 66, 67, 68, 69, 70]"

definition kdigits :: "uint8 list" where
  "kdigits = [48, 49, 50, 51, 52, 53, 54, 55, 56, 57, 97, 98, 99, 100, 101, 102]"

text \<open>The do-while loop of \<open>printint\<close>. The test \<open>x' < x\<close> is true for the bases that occur (\<open>digit_loop_digs\<close>).\<close>

function digit_loop :: "uint8 list \<Rightarrow> nat \<Rightarrow> uint32 \<Rightarrow> uint8 list \<Rightarrow> uint8 list" where
  "digit_loop ds base x buf =
     (let buf = buf @ [ds ! (unat x mod base)]; x' = x div of_nat base in
      if x' \<noteq> 0 \<and> x' < x then digit_loop ds base x' buf else buf)"
  by pat_completeness auto
termination
  by (relation "measure (\<lambda>(ds, base, x, buf). unat x)") (auto simp: word_less_nat_alt)

declare digit_loop.simps [simp del]

definition printint :: "uint32 \<Rightarrow> nat \<Rightarrow> bool \<Rightarrow> uint8 list" where
  "printint xx base is_signed =
     (let neg = (is_signed \<and> sint xx < 0);
          x = (if neg then - xx else xx);
          buf = digit_loop udigits base x [];
          buf = (if neg then buf @ [45] else buf) in
      rev buf)"

fun ptr_loop :: "uint8 list \<Rightarrow> nat \<Rightarrow> uint64 \<Rightarrow> uint8 list" where
  "ptr_loop ds 0 x = []"
| "ptr_loop ds (Suc n) x = ds ! unat (drop_bit 60 x) # ptr_loop ds n (push_bit 4 x)"

definition printptr :: "uint64 \<Rightarrow> uint8 list" where
  "printptr x = [48, 120] @ ptr_loop udigits 16 x"

section \<open>Formats of the user library\<close>

definition emit :: "uint8 list \<Rightarrow> uint8 list option \<Rightarrow> uint8 list option" where
  "emit bs r = map_option (\<lambda>out. bs @ out) r"

definition null_str :: cstr where
  "null_str = [40, 110, 117, 108, 108, 41]"

text \<open>One turn of the loop of \<open>vprintf\<close> per recursive call; \<open>st\<close> says that the last byte was a \<open>%\<close>.\<close>

fun vprintf_loop :: "(uint64 \<Rightarrow> cstr) \<Rightarrow> bool \<Rightarrow> cstr \<Rightarrow> uint64 list \<Rightarrow> uint8 list option" where
  "vprintf_loop str st fmt ap =
     (if chr fmt = 0 then Some []
      else
        let c = chr fmt; fmt' = tl fmt in
        if \<not> st then
          (if c = 37 then vprintf_loop str True fmt' ap else emit [c] (vprintf_loop str False fmt' ap))
        else if c = 100 then
          (case ap of [] \<Rightarrow> None | a # ap \<Rightarrow> emit (printint (ucast a) 10 True) (vprintf_loop str False fmt' ap))
        else if c = 108 then
          (case ap of [] \<Rightarrow> None | a # ap \<Rightarrow> emit (printint (ucast a) 10 False) (vprintf_loop str False fmt' ap))
        else if c = 120 then
          (case ap of [] \<Rightarrow> None | a # ap \<Rightarrow> emit (printint (ucast a) 16 False) (vprintf_loop str False fmt' ap))
        else if c = 112 then
          (case ap of [] \<Rightarrow> None | a # ap \<Rightarrow> emit (printptr a) (vprintf_loop str False fmt' ap))
        else if c = 115 then
          (case ap of
             [] \<Rightarrow> None
           | a # ap \<Rightarrow> emit (cbytes (if a = 0 then null_str else str a)) (vprintf_loop str False fmt' ap))
        else if c = 99 then
          (case ap of [] \<Rightarrow> None | a # ap \<Rightarrow> emit [ucast a] (vprintf_loop str False fmt' ap))
        else if c = 37 then emit [c] (vprintf_loop str False fmt' ap)
        else emit [37, c] (vprintf_loop str False fmt' ap))"

declare vprintf_loop.simps [simp del]

definition vprintf :: "(uint64 \<Rightarrow> cstr) \<Rightarrow> cstr \<Rightarrow> uint64 list \<Rightarrow> uint8 list option" where
  "vprintf str fmt ap = vprintf_loop str False fmt ap"

definition ufprintf :: "(uint64 \<Rightarrow> cstr) \<Rightarrow> int \<Rightarrow> cstr \<Rightarrow> uint64 list \<Rightarrow> (int \<times> uint8 list) option" where
  "ufprintf str fd fmt ap = map_option (Pair fd) (vprintf str fmt ap)"

definition uprintf :: "(uint64 \<Rightarrow> cstr) \<Rightarrow> cstr \<Rightarrow> uint64 list \<Rightarrow> (int \<times> uint8 list) option" where
  "uprintf str fmt ap = map_option (Pair 1) (vprintf str fmt ap)"

section \<open>Formats of the kernel\<close>

definition kprintint :: "uint32 \<Rightarrow> nat \<Rightarrow> bool \<Rightarrow> uint8 list" where
  "kprintint xx base sign =
     (let sign = (sign \<and> sint xx < 0);
          x = (if sign then - xx else xx);
          buf = digit_loop kdigits base x [];
          buf = (if sign then buf @ [45] else buf) in
      rev buf)"

definition kprintptr :: "uint64 \<Rightarrow> uint8 list" where
  "kprintptr x = [48, 120] @ ptr_loop kdigits 16 x"

fun kprintf_loop :: "(uint64 \<Rightarrow> cstr) \<Rightarrow> cstr \<Rightarrow> uint64 list \<Rightarrow> uint8 list option" where
  "kprintf_loop str fmt ap =
     (if chr fmt = 0 then Some []
      else if chr fmt \<noteq> 37 then emit [chr fmt] (kprintf_loop str (tl fmt) ap)
      else
        let c = chr (tl fmt); fmt' = tl (tl fmt) in
        if c = 0 then Some []
        else if c = 100 then
          (case ap of [] \<Rightarrow> None | a # ap \<Rightarrow> emit (kprintint (ucast a) 10 True) (kprintf_loop str fmt' ap))
        else if c = 120 then
          (case ap of [] \<Rightarrow> None | a # ap \<Rightarrow> emit (kprintint (ucast a) 16 True) (kprintf_loop str fmt' ap))
        else if c = 112 then
          (case ap of [] \<Rightarrow> None | a # ap \<Rightarrow> emit (kprintptr a) (kprintf_loop str fmt' ap))
        else if c = 115 then
          (case ap of
             [] \<Rightarrow> None
           | a # ap \<Rightarrow> emit (cbytes (if a = 0 then null_str else str a)) (kprintf_loop str fmt' ap))
        else if c = 37 then emit [37] (kprintf_loop str fmt' ap)
        else emit [37, c] (kprintf_loop str fmt' ap))"

declare kprintf_loop.simps [simp del]

section \<open>The digits of a number\<close>

function digs :: "nat \<Rightarrow> nat \<Rightarrow> nat list" where
  "digs b n = n mod b # (if 0 < n div b \<and> n div b < n then digs b (n div b) else [])"
  by pat_completeness auto
termination
  by (relation "measure snd") auto

declare digs.simps [simp del]

lemma digs_step: "2 \<le> b \<Longrightarrow> digs b n = n mod b # (if n div b = 0 then [] else digs b (n div b))"
proof -
  assume "2 \<le> b"
  then have "0 < n div b \<and> n div b < n \<longleftrightarrow> n div b \<noteq> 0" by (cases "n = 0") (simp_all add: div_less_dividend)
  then show "digs b n = n mod b # (if n div b = 0 then [] else digs b (n div b))" by (subst digs.simps) simp
qed

lemma digs_less:
  assumes "2 \<le> b" "d \<in> set (digs b n)"
  shows "d < b"
  using assms(2)
proof (induction n rule: less_induct)
  case (less n)
  have "n div b < n" if "n div b \<noteq> 0" using that assms(1) by (cases "n = 0") simp_all
  then show ?case using assms(1) less.IH [of "n div b"] less.prems by (auto simp: digs_step [of b n] split: if_splits)
qed

lemma length_digs: "2 \<le> b \<Longrightarrow> n < b ^ Suc k \<Longrightarrow> length (digs b n) \<le> Suc k"
proof (induction k arbitrary: n)
  case 0
  then show ?case by (simp add: digs_step)
next
  case (Suc k)
  have "n div b < b ^ Suc k" using Suc.prems by (simp add: less_mult_imp_div_less mult.commute)
  then show ?case using Suc.IH [of "n div b"] Suc.prems(1) by (simp add: digs_step [of b n])
qed

lemma digit_loop_digs:
  assumes "2 \<le> base" "base \<le> 16"
  shows "digit_loop ds base x buf = buf @ map (\<lambda>d. ds ! d) (digs base (unat x))"
proof (induction "unat x" arbitrary: x buf rule: less_induct)
  case less
  let ?q = "x div of_nat base"
  have b: "unat (of_nat base :: uint32) = base" using assms by (simp add: unat_of_nat take_bit_nat_eq_self)
  then have q: "unat ?q = unat x div base" by (simp add: unat_div)
  have nz: "?q \<noteq> 0 \<longleftrightarrow> unat x div base \<noteq> 0" using q by (metis unat_eq_0)
  show ?case
  proof (cases "unat x div base = 0")
    case True
    then show ?thesis using nz assms by (subst digit_loop.simps) (simp add: Let_def digs_step)
  next
    case False
    then have lt: "unat ?q < unat x" using q assms by (simp add: div_greater_zero_iff)
    then have "digit_loop ds base ?q (buf @ [ds ! (unat x mod base)]) =
        (buf @ [ds ! (unat x mod base)]) @ map (\<lambda>d. ds ! d) (digs base (unat ?q))" using less by blast
    then show ?thesis using False nz lt q assms
      by (subst digit_loop.simps) (simp add: Let_def digs_step [of base "unat x"] word_less_nat_alt)
  qed
qed

text \<open>\<open>printint\<close> writes at most ten digits and a sign.\<close>

lemma printint_length:
  assumes "base = 10 \<or> base = 16"
  shows "length (printint xx base sg) \<le> 11" "length (kprintint xx base sg) \<le> 11"
proof -
  have "unat x < base ^ Suc 9" for x :: uint32
    using assms unsigned_less [of x, where ?'a = nat] by auto
  then have "length (digs base (unat x)) \<le> 10" for x :: uint32 using length_digs [of base "unat x" 9] assms by auto
  moreover from this have "length (digs base (unat x)) \<le> 11" for x :: uint32 by (rule le_trans) simp
  moreover have "2 \<le> base" "base \<le> 16" using assms by auto
  ultimately show "length (printint xx base sg) \<le> 11" "length (kprintint xx base sg) \<le> 11"
    using digit_loop_digs [of base] by (auto simp: printint_def kprintint_def Let_def intro: le_SucI)
qed

text \<open>The decimal digits read back as the number.\<close>

definition digit :: "nat \<Rightarrow> uint8" where
  "digit d = of_nat (48 + d)"

lemma digit:
  assumes "d < 10"
  shows "is_digit (digit d)" "uint (digit d) = 48 + int d" "udigits ! d = digit d" "kdigits ! d = digit d" "digit d \<noteq> 45"
proof -
  have "d \<in> {0, 1, 2, 3, 4, 5, 6, 7, 8, 9}" using assms by auto
  then show "is_digit (digit d)" "uint (digit d) = 48 + int d" "udigits ! d = digit d" "kdigits ! d = digit d" "digit d \<noteq> 45"
    by (auto simp: digit_def is_digit_def udigits_def kdigits_def)
qed

lemma atoi_digs:
  "atoi_loop n (map digit (rev (digs 10 k)) @ rest) = atoi_loop (n * 10 ^ length (digs 10 k) + int k) rest"
proof (induction k arbitrary: rest rule: less_induct)
  case (less k)
  note d = digit [of "k mod 10"]
  have last: "atoi_loop m (digit (k mod 10) # rest) = atoi_loop (m * 10 + int (k mod 10)) rest" for m
    using d(1,2) by (simp add: atoi_loop.simps [of m])
  show ?case
  proof (cases "k div 10 = 0")
    case True
    then show ?thesis using last [of n] by (simp add: digs_step [of 10 k])
  next
    case False
    let ?q = "k div 10"
    have "k = ?q * 10 + k mod 10" by simp
    then have k: "int k = int ?q * 10 + int (k mod 10)" by presburger
    have "atoi_loop n (map digit (rev (digs 10 ?q)) @ digit (k mod 10) # rest) =
        atoi_loop (n * 10 ^ length (digs 10 ?q) + int ?q) (digit (k mod 10) # rest)" using less [of ?q] False by simp
    also have "\<dots> = atoi_loop ((n * 10 ^ length (digs 10 ?q) + int ?q) * 10 + int (k mod 10)) rest" by (rule last)
    also have "(n * 10 ^ length (digs 10 ?q) + int ?q) * 10 + int (k mod 10) = n * 10 ^ Suc (length (digs 10 ?q)) + int k"
      by (subst k) (simp add: distrib_right)
    finally show ?thesis using False by (simp add: digs_step [of 10 k])
  qed
qed

lemma printint_decimal:
  "printint xx 10 sg = (if sg \<and> sint xx < 0 then 45 # map digit (rev (digs 10 (unat (- xx)))) else map digit (rev (digs 10 (unat xx))))"
  "kprintint xx 10 sg = (if sg \<and> sint xx < 0 then 45 # map digit (rev (digs 10 (unat (- xx)))) else map digit (rev (digs 10 (unat xx))))"
proof -
  have "map ((!) udigits) (digs 10 k) = map digit (digs 10 k)" "map ((!) kdigits) (digs 10 k) = map digit (digs 10 k)" for k
    using digs_less [of 10] digit(3,4) by simp_all
  then show "printint xx 10 sg = (if sg \<and> sint xx < 0 then 45 # map digit (rev (digs 10 (unat (- xx)))) else map digit (rev (digs 10 (unat xx))))"
    "kprintint xx 10 sg = (if sg \<and> sint xx < 0 then 45 # map digit (rev (digs 10 (unat (- xx)))) else map digit (rev (digs 10 (unat xx))))"
    by (simp_all add: printint_def kprintint_def Let_def digit_loop_digs rev_map)
qed

lemma atoi_decimal: "atoi (map digit (rev (digs 10 k))) = int k" "atoi (45 # map digit (rev (digs 10 k))) = - int k"
proof -
  have v: "atoi_loop 0 (map digit (rev (digs 10 k))) = int k"
    using atoi_digs [of 0 k "[]"] by (simp add: atoi_loop.simps [of _ "[]"] is_digit_def)
  have "rev (digs 10 k) \<noteq> []" by (simp add: digs_step)
  then obtain d ds where r: "rev (digs 10 k) = d # ds" by (cases "rev (digs 10 k)") auto
  then have "d \<in> set (digs 10 k)" by (metis list.set_intros(1) set_rev)
  then have "digit d \<noteq> 45" using digs_less [of 10 d k] digit(5) by simp
  then show "atoi (map digit (rev (digs 10 k))) = int k" using v r by (simp add: atoi_def)
  show "atoi (45 # map digit (rev (digs 10 k))) = - int k" using v by (simp add: atoi_def)
qed

section \<open>Formats as lists of pieces\<close>

datatype piece = Lit uint8 | D uint64 | L uint64 | X uint64 | P uint64 | S uint64 | C uint64 | Percent | Unknown uint8

text \<open>\<open>dirs\<close> are the letters of the directives: the kernel knows \<open>d x p s\<close>, the user library also \<open>l c\<close>.\<close>

definition udirs :: "uint8 set" where "udirs = {100, 108, 120, 112, 115, 99}"
definition kdirs :: "uint8 set" where "kdirs = {100, 120, 112, 115}"

fun piece_ok :: "uint8 set \<Rightarrow> piece \<Rightarrow> bool" where
  "piece_ok dirs (Lit c) \<longleftrightarrow> c \<noteq> 0 \<and> c \<noteq> 37"
| "piece_ok dirs (L a) \<longleftrightarrow> 108 \<in> dirs"
| "piece_ok dirs (C a) \<longleftrightarrow> 99 \<in> dirs"
| "piece_ok dirs (Unknown c) \<longleftrightarrow> c \<noteq> 0 \<and> c \<noteq> 37 \<and> c \<notin> dirs"
| "piece_ok dirs p \<longleftrightarrow> True"

fun piece_fmt :: "piece \<Rightarrow> cstr" where
  "piece_fmt (Lit c) = [c]"
| "piece_fmt (D a) = [37, 100]"
| "piece_fmt (L a) = [37, 108]"
| "piece_fmt (X a) = [37, 120]"
| "piece_fmt (P a) = [37, 112]"
| "piece_fmt (S a) = [37, 115]"
| "piece_fmt (C a) = [37, 99]"
| "piece_fmt Percent = [37, 37]"
| "piece_fmt (Unknown c) = [37, c]"

fun piece_arg :: "piece \<Rightarrow> uint64 list" where
  "piece_arg (Lit c) = []"
| "piece_arg Percent = []"
| "piece_arg (Unknown c) = []"
| "piece_arg (D a) = [a]"
| "piece_arg (L a) = [a]"
| "piece_arg (X a) = [a]"
| "piece_arg (P a) = [a]"
| "piece_arg (S a) = [a]"
| "piece_arg (C a) = [a]"

text \<open>The calls that the two loops make for a piece.\<close>

fun render :: "(uint64 \<Rightarrow> cstr) \<Rightarrow> piece \<Rightarrow> uint8 list" where
  "render str (Lit c) = [c]"
| "render str (D a) = printint (ucast a) 10 True"
| "render str (L a) = printint (ucast a) 10 False"
| "render str (X a) = printint (ucast a) 16 False"
| "render str (P a) = printptr a"
| "render str (S a) = cbytes (if a = 0 then null_str else str a)"
| "render str (C a) = [ucast a]"
| "render str Percent = [37]"
| "render str (Unknown c) = [37, c]"

text \<open>The kernel prints \<open>%x\<close> with a sign and in lower case.\<close>

fun krender :: "(uint64 \<Rightarrow> cstr) \<Rightarrow> piece \<Rightarrow> uint8 list" where
  "krender str (D a) = kprintint (ucast a) 10 True"
| "krender str (X a) = kprintint (ucast a) 16 True"
| "krender str (P a) = kprintptr a"
| "krender str p = render str p"

lemma vprintf_piece:
  "piece_ok udirs p \<Longrightarrow> vprintf_loop str False (piece_fmt p @ fmt) (piece_arg p @ ap) = emit (render str p) (vprintf_loop str False fmt ap)"
  by (cases p) (simp_all add: vprintf_loop.simps [of str True] vprintf_loop.simps [of str False "_ # _"] udirs_def)

lemma kprintf_piece:
  "piece_ok kdirs p \<Longrightarrow> kprintf_loop str (piece_fmt p @ fmt) (piece_arg p @ ap) = emit (krender str p) (kprintf_loop str fmt ap)"
  by (cases p) (simp_all add: kprintf_loop.simps [of str "_ # _"] kdirs_def)

lemma int_unat_sint:
  assumes "0 \<le> sint (x :: uint32)"
  shows "int (unat x) = sint x"
proof -
  have "uint (of_int (sint x) :: uint32) = take_bit 32 (sint x)" by (simp only: unsigned_of_int) simp
  also have "\<dots> = sint x" using assms sint_less [of x] by (simp add: take_bit_int_eq_self)
  finally show ?thesis by simp
qed

section \<open>What a format describes\<close>

text \<open>\<open>numeral_of b ds n bs\<close>: \<open>bs\<close> is the number \<open>n\<close> in base \<open>b\<close>, written with the symbols \<open>ds\<close> and without leading zeros.\<close>

definition value_of :: "nat \<Rightarrow> nat list \<Rightarrow> nat" where
  "value_of b xs = foldl (\<lambda>v d. v * b + d) 0 xs"

definition numeral_of :: "nat \<Rightarrow> uint8 list \<Rightarrow> nat \<Rightarrow> uint8 list \<Rightarrow> bool" where
  "numeral_of b ds n bs \<longleftrightarrow>
     (\<exists>xs. bs = map (\<lambda>d. ds ! d) xs \<and> (\<forall>d \<in> set xs. d < b) \<and> value_of b xs = n \<and> xs \<noteq> [] \<and> (hd xs = 0 \<longrightarrow> xs = [0]))"

definition integer_of :: "nat \<Rightarrow> uint8 list \<Rightarrow> int \<Rightarrow> uint8 list \<Rightarrow> bool" where
  "integer_of b ds v out \<longleftrightarrow> (if v < 0 then \<exists>bs. out = 45 # bs \<and> numeral_of b ds (nat (- v)) bs else numeral_of b ds (nat v) out)"

definition upper_hex :: "uint8 list" where "upper_hex = map of_char ''0123456789ABCDEF''"
definition lower_hex :: "uint8 list" where "lower_hex = map of_char ''0123456789abcdef''"

text \<open>The output that a piece of a format describes; \<open>ds\<close> are the symbols, and \<open>sx\<close> says whether \<open>%x\<close> has a sign.\<close>

fun prints :: "uint8 list \<Rightarrow> bool \<Rightarrow> (uint64 \<Rightarrow> cstr) \<Rightarrow> piece \<Rightarrow> uint8 list \<Rightarrow> bool" where
  "prints ds sx str (Lit c) out \<longleftrightarrow> out = [c]"
| "prints ds sx str (D a) out \<longleftrightarrow> integer_of 10 ds (sint (ucast a :: uint32)) out"
| "prints ds sx str (L a) out \<longleftrightarrow> numeral_of 10 ds (unat a mod 2 ^ 32) out"
| "prints ds sx str (X a) out \<longleftrightarrow>
    (if sx then integer_of 16 ds (sint (ucast a :: uint32)) out else numeral_of 16 ds (unat a mod 2 ^ 32) out)"
| "prints ds sx str (P a) out \<longleftrightarrow>
    (\<exists>xs. out = [48, 120] @ map (\<lambda>d. ds ! d) xs \<and> length xs = 16 \<and> (\<forall>d \<in> set xs. d < 16) \<and> value_of 16 xs = unat a)"
| "prints ds sx str (S a) out \<longleftrightarrow> out = (if a = 0 then map of_char ''(null)'' else takeWhile (\<lambda>b. b \<noteq> 0) (str a))"
| "prints ds sx str (C a) out \<longleftrightarrow> out = [of_nat (unat a mod 256)]"
| "prints ds sx str Percent out \<longleftrightarrow> out = [37]"
| "prints ds sx str (Unknown c) out \<longleftrightarrow> out = [37, c]"

lemma hex_symbols: "udigits = upper_hex" "kdigits = lower_hex" "null_str = map of_char ''(null)''"
  by (simp_all add: udigits_def kdigits_def null_str_def upper_hex_def lower_hex_def of_char_def)

lemma value_of_snoc: "value_of b (xs @ [d]) = value_of b xs * b + d"
  by (simp add: value_of_def)

lemma value_of_digs: "2 \<le> b \<Longrightarrow> value_of b (rev (digs b n)) = n \<and> (hd (rev (digs b n)) = 0 \<longrightarrow> rev (digs b n) = [0])"
proof (induction n rule: less_induct)
  case (less n)
  show ?case
  proof (cases "n div b = 0")
    case True
    then have "n mod b = n" using less.prems by (simp add: div_eq_0_iff)
    then have "digs b n = [n]" using digs_step [OF less.prems, of n] True by simp
    then show ?thesis by (auto simp: value_of_def)
  next
    case False
    then have lt: "n div b < n" using less.prems by (cases "n = 0") simp_all
    have ne: "digs b (n div b) \<noteq> []" by (simp add: digs.simps [of b "n div b"])
    have "rev (digs b (n div b)) \<noteq> [0]"
    proof
      assume "rev (digs b (n div b)) = [0]"
      then have "value_of b [0] = n div b" using less.IH [OF lt less.prems] by simp
      then show False using False by (simp add: value_of_def)
    qed
    then show ?thesis using False less.IH [OF lt less.prems] ne less.prems
      by (simp add: digs_step [of b n] value_of_snoc)
  qed
qed

lemma numeral_of_digs: "2 \<le> b \<Longrightarrow> numeral_of b ds n (map (\<lambda>d. ds ! d) (rev (digs b n)))"
proof -
  assume b: "2 \<le> b"
  have "digs b n \<noteq> []" by (subst digs.simps) simp
  then show ?thesis unfolding numeral_of_def using value_of_digs [OF b, of n] digs_less [OF b]
    by (intro exI [of _ "rev (digs b n)"]) auto
qed

text \<open>A number has only one such numeral, so that the description determines the output.\<close>

lemma value_of_unique:
  assumes "2 \<le> b"
  shows "\<forall>d \<in> set xs. d < b \<Longrightarrow> xs \<noteq> [] \<Longrightarrow> hd xs = 0 \<longrightarrow> xs = [0] \<Longrightarrow> rev xs = digs b (value_of b xs)"
proof (induction xs rule: rev_induct)
  case (snoc d xs)
  have d: "d < b" using snoc.prems(1) by simp
  have q: "value_of b (xs @ [d]) div b = value_of b xs" "value_of b (xs @ [d]) mod b = d" using d by (simp_all add: value_of_snoc)
  show ?case
  proof (cases "xs = []")
    case True
    then have "digs b d = [d]" using q digs_step [OF assms, of d] by (simp add: value_of_def)
    then show ?thesis using True by (simp add: value_of_def)
  next
    case False
    then have h: "hd xs \<noteq> 0" using snoc.prems(3) by auto
    then have r: "rev xs = digs b (value_of b xs)" using snoc.IH snoc.prems(1) False by simp
    have "value_of b xs \<noteq> 0"
    proof
      assume "value_of b xs = 0"
      then have "rev xs = [0]" using r assms by (simp add: digs_step)
      then show False using h by simp
    qed
    then show ?thesis using q r assms by (simp add: digs_step [of b "value_of b (xs @ [d])"])
  qed
qed simp

lemma numeral_of_unique: "2 \<le> b \<Longrightarrow> numeral_of b ds n bs \<longleftrightarrow> bs = map (\<lambda>d. ds ! d) (rev (digs b n))"
proof
  assume b: "2 \<le> b" and n: "numeral_of b ds n bs"
  from n obtain xs where xs: "bs = map (\<lambda>d. ds ! d) xs" "\<forall>d \<in> set xs. d < b" "value_of b xs = n" "xs \<noteq> []" "hd xs = 0 \<longrightarrow> xs = [0]"
    unfolding numeral_of_def by (elim exE conjE) (rule that)
  have "rev xs = digs b n" using value_of_unique [OF b xs(2,4,5)] xs(3) by simp
  then have "xs = rev (digs b n)" by (metis rev_rev_ident)
  then show "bs = map (\<lambda>d. ds ! d) (rev (digs b n))" using xs(1) by simp
qed (simp add: numeral_of_digs)

section \<open>The loops print what is described\<close>

lemma int_unat_minus:
  assumes "sint (x :: uint32) < 0"
  shows "unat (- x) = nat (- sint x)"
proof -
  have "- x = of_int (- sint x)" by simp
  then have "uint (- x) = take_bit 32 (- sint x)" by (simp only: unsigned_of_int) simp
  also have "\<dots> = - sint x" using assms sint_ge [of x] by (simp add: take_bit_int_eq_self)
  finally show ?thesis by (simp flip: nat_uint_eq)
qed

lemma printint_integer:
  assumes "base = 10 \<or> base = 16"
  shows "integer_of base udigits (sint x) (printint x base True)" "integer_of base kdigits (sint x) (kprintint x base True)"
    "numeral_of base udigits (unat x) (printint x base False)"
proof -
  have b: "2 \<le> base" "base \<le> 16" using assms by auto
  have n: "unat x = nat (sint x)" if "\<not> sint x < 0" using int_unat_sint [of x] that by (metis nat_int not_less)
  show "integer_of base udigits (sint x) (printint x base True)" "integer_of base kdigits (sint x) (kprintint x base True)"
    using numeral_of_digs [OF b(1)] n int_unat_minus [of x]
    by (auto simp: integer_of_def printint_def kprintint_def Let_def digit_loop_digs [OF b] rev_map)
  show "numeral_of base udigits (unat x) (printint x base False)"
    using numeral_of_digs [OF b(1)] by (simp add: printint_def Let_def digit_loop_digs [OF b] rev_map)
qed

lemma value_of_Cons: "value_of b (d # xs) = d * b ^ length xs + value_of b xs"
proof (induction xs rule: rev_induct)
  case (snoc x xs)
  have "value_of b (d # xs @ [x]) = value_of b (d # xs) * b + x" using value_of_snoc [of b "d # xs" x] by simp
  then show ?case using snoc by (simp add: value_of_snoc algebra_simps)
qed (simp add: value_of_def)

text \<open>\<open>n\<close> turns print the \<open>n\<close> highest groups of four bits.\<close>

lemma top_bits:
  assumes "n \<le> 15"
  shows "(m div 2 ^ 60) * 16 ^ n + (m * 16) mod 2 ^ 64 div 2 ^ (64 - 4 * n) = (m :: nat) div 2 ^ (60 - 4 * n)"
proof -
  have p: "(2 :: nat) ^ 60 = 2 ^ (60 - 4 * n) * 16 ^ n" "(2 :: nat) ^ (64 - 4 * n) = 2 ^ (60 - 4 * n) * 16"
  proof -
    have "(16 :: nat) ^ n = 2 ^ (4 * n)" by (simp add: power_mult)
    then show "(2 :: nat) ^ 60 = 2 ^ (60 - 4 * n) * 16 ^ n" using assms by (simp flip: power_add)
    have "(2 :: nat) ^ (60 - 4 * n) * 2 ^ 4 = 2 ^ (60 - 4 * n + 4)" by (simp only: power_add)
    also have "60 - 4 * n + 4 = 64 - 4 * n" using assms by simp
    finally show "(2 :: nat) ^ (64 - 4 * n) = 2 ^ (60 - 4 * n) * 16" by simp
  qed
  let ?k = "2 ^ (60 - 4 * n) :: nat" and ?q = "m div 2 ^ 60" and ?r = "m mod 2 ^ 60"
  have "(m * 16) mod 2 ^ 64 = ?r * 16" using mult_mod_left [of m "2 ^ 60" 16] by simp
  then have l: "(m * 16) mod 2 ^ 64 div 2 ^ (64 - 4 * n) = ?r div ?k" unfolding p(2) by simp
  have "?k * (?q * 16 ^ n) = ?q * 2 ^ 60" unfolding p(1) by (simp only: mult.commute mult.left_commute)
  then have "m = ?r + ?k * (?q * 16 ^ n)" using div_mult_mod_eq [of m "2 ^ 60"] by linarith
  then have "m div ?k = (?r + ?k * (?q * 16 ^ n)) div ?k" by simp
  also have "\<dots> = ?q * 16 ^ n + ?r div ?k" by (simp add: div_mult_self2)
  finally show ?thesis using l by simp
qed

lemma ptr_loop_value:
  "n \<le> 16 \<Longrightarrow> \<exists>xs. ptr_loop ds n x = map (\<lambda>d. ds ! d) xs \<and> length xs = n \<and> (\<forall>d \<in> set xs. d < 16) \<and> value_of 16 xs = unat x div 2 ^ (64 - 4 * n)"
proof (induction n arbitrary: x)
  case 0
  have "unat x div 2 ^ 64 = 0" using unsigned_less [of x, where ?'a = nat] by simp
  then show ?case by (simp add: value_of_def)
next
  case (Suc n)
  let ?d = "unat (drop_bit 60 x)"
  have d: "?d = unat x div 2 ^ 60" by (simp add: drop_bit_eq_div unat_div)
  have "unat x < 16 * 2 ^ 60" using unsigned_less [of x, where ?'a = nat] by simp
  then have lt: "?d < 16" unfolding d by (simp add: less_mult_imp_div_less)
  have s: "unat (push_bit 4 x) = (unat x * 16) mod 2 ^ 64" by (simp add: push_bit_eq_mult unat_word_ariths)
  obtain xs where xs: "ptr_loop ds n (push_bit 4 x) = map (\<lambda>d. ds ! d) xs" "length xs = n" "\<forall>d \<in> set xs. d < 16"
    "value_of 16 xs = unat (push_bit 4 x) div 2 ^ (64 - 4 * n)" using Suc.IH [of "push_bit 4 x"] Suc.prems by auto
  have "value_of 16 (?d # xs) = unat x div 2 ^ (60 - 4 * n)"
    unfolding value_of_Cons xs(2,4) s d using top_bits [of n "unat x"] Suc.prems by simp
  moreover have "(60 :: nat) - 4 * n = 64 - 4 * Suc n" by simp
  ultimately have v: "value_of 16 (?d # xs) = unat x div 2 ^ (64 - 4 * Suc n)" by (simp only:)
  have "ptr_loop ds (Suc n) x = map (\<lambda>d. ds ! d) (?d # xs)" "length (?d # xs) = Suc n" "\<forall>d \<in> set (?d # xs). d < 16" using xs(1-3) lt by simp_all
  with v show ?case by (intro exI conjI)
qed

lemma unat_ucast32: "unat (ucast (a :: uint64) :: uint32) = unat a mod 2 ^ 32"
  by (simp add: unsigned_ucast_eq take_bit_eq_mod)

lemma render_prints: "prints upper_hex False str p (render str p)"
proof (cases p)
  case (P a)
  then show ?thesis using ptr_loop_value [of 16 udigits a] by (auto simp: printptr_def hex_symbols)
next
  case (L a)
  then show ?thesis using printint_integer(3) [of 10 "ucast a"] by (simp add: hex_symbols unat_ucast32)
next
  case (X a)
  then show ?thesis using printint_integer(3) [of 16 "ucast a"] by (simp add: hex_symbols unat_ucast32)
next
  case (C a)
  have "unat (ucast a :: uint8) = unat a mod 256" by (simp add: unsigned_ucast_eq take_bit_eq_mod)
  moreover have "(ucast a :: uint8) = of_nat (unat (ucast a :: uint8))" by simp
  ultimately have "(ucast a :: uint8) = of_nat (unat a mod 256)" by (simp only:)
  then show ?thesis using C by simp
qed (simp_all add: printint_integer [unfolded hex_symbols] hex_symbols cbytes_def)

lemma krender_prints: "piece_ok kdirs p \<Longrightarrow> prints lower_hex True str p (krender str p)"
proof (cases p)
  case (P a)
  then show ?thesis using ptr_loop_value [of 16 kdigits a] by (auto simp: kprintptr_def hex_symbols)
qed (simp_all add: printint_integer [unfolded hex_symbols] hex_symbols cbytes_def kdirs_def)

text \<open>\<open>%l\<close> of the user library prints only the low half of its 64-bit argument.\<close>

lemma percent_l_truncates: "vprintf str [37, 108] [a] = Some (printint (ucast a) 10 False)"
  using vprintf_piece [of "L a" str "[]" "[]"] by (simp add: vprintf_def udirs_def emit_def vprintf_loop.simps [of _ _ "[]"])

section \<open>Properties\<close>

text \<open>printed numbers read back. For every \<open>int\<close> but the smallest (whose magnitude \<open>atoi\<close> cannot hold),
  \<open>atoi\<close> of what \<open>%d\<close> prints is the number, for the user library and for the kernel.\<close>

theorem atoi_printint:
  assumes "sint xx \<noteq> - (2 ^ 31)"
  shows "atoi (printint xx 10 True) = sint xx \<and> atoi (kprintint xx 10 True) = sint xx"
proof (cases "sint xx < 0")
  case True
  have "sint (- xx) = - sint xx" using assms sint_range_size [of xx] by (simp add: sint_word_ariths signed_take_bit_int_eq_self size_word.rep_eq)
  then have "int (unat (- xx)) = - sint xx" using True int_unat_sint [of "- xx"] by simp
  then show ?thesis using True by (simp add: printint_decimal atoi_decimal)
next
  case False
  then have "int (unat xx) = sint xx" using int_unat_sint [of xx] by simp
  then show ?thesis using False by (simp add: printint_decimal atoi_decimal)
qed

theorem atoi_printint_witness: "atoi (printint (- 1234) 10 True) = - 1234"
  using atoi_printint [of "- 1234"] by simp

text \<open>C33: the buffer of \<open>printint\<close> is large enough: in both bases and for every argument at most 11 of its 16
  bytes are used, in the user library and in the kernel.\<close>

theorem printint_fits:
  assumes "base = 10 \<or> base = 16"
  shows "length (printint xx base sg) \<le> 11 \<and> length (kprintint xx base sg) \<le> 11"
  using printint_length [OF assms] by blast

theorem printint_fits_witness: "length (printint 0x80000000 10 True) \<le> 11"
  using printint_fits [of 10 "0x80000000" True] by simp



end
