(* ===== verification/Console.thy ===== *)
theory Console
  imports Uart Printf
begin

text \<open>
  kernel/console.c with \<open>uartintr\<close> of kernel/uart.c, \<open>printf\<close> and \<open>panic\<close> of kernel/printf.c and \<open>procdump\<close> of
  kernel/proc.c, which print through the console. The input buffer keeps three counters: bytes
  from \<open>r\<close> to \<open>w\<close> are complete lines waiting for \<open>consoleread\<close>, bytes from \<open>w\<close> to \<open>e\<close> are the line being
  edited. \<open>panic\<close> does not return: its result is the state in which it loops, in \<open>Gone\<close>. \<open>printf\<close> takes \<open>pr.lock\<close> with the functions of
  Spinlock, since \<open>pr.locking\<close> makes it conditional; as in the other theories on one running process, the locks of the drivers are left out.

  Main results: \<open>consoleintr_edits\<close> (the three counters implement a line editor) and
  \<open>consoleread_line\<close> (a read takes one line at most).
\<close>

section \<open>State\<close>

definition BACKSPACE :: int where "BACKSPACE = 0x100"
definition INPUT_BUF_SIZE :: nat where "INPUT_BUF_SIZE = 128"
definition CONSOLE :: nat where "CONSOLE = 1"

record cons_st = uart_st +
  cons_buf :: "uint8 list"
  cons_r :: uint32
  cons_w :: uint32
  cons_e :: uint32
  pr_locking :: bool
  pr_lock :: spinlock

section \<open>Output\<close>

definition consputc :: "int \<Rightarrow> 'a uart_st_scheme \<Rightarrow> (unit, 'a uart_st_scheme) res" where
  "consputc c s =
     (if c = BACKSPACE then
        bindR (uartputc_sync 8 s) (\<lambda>_ s. bindR (uartputc_sync 32 s) (\<lambda>_ s. uartputc_sync 8 s))
      else uartputc_sync (of_int c) s)"

fun consputs :: "uint8 list \<Rightarrow> 'a uart_st_scheme \<Rightarrow> (unit, 'a uart_st_scheme) res" where
  "consputs [] s = Ok () s"
| "consputs (c # cs) s = bindR (consputc (uint c) s) (\<lambda>_ s. consputs cs s)"

text \<open>\<open>printf\<close> of the kernel: the bytes of \<open>kprintf_loop\<close> go to the console one by one.\<close>

definition kprint :: "(uint64 \<Rightarrow> cstr) \<Rightarrow> cstr \<Rightarrow> uint64 list \<Rightarrow> 'a uart_st_scheme \<Rightarrow> (unit, 'a uart_st_scheme) res" where
  "kprint str fmt ap s =
     (case kprintf_loop str fmt ap of None \<Rightarrow> Panic ''undefined: va_arg'' | Some out \<Rightarrow> consputs out s)"

text \<open>\<open>panic\<close> clears \<open>pr.locking\<close> first, so its calls of \<open>printf\<close> take no lock.\<close>

definition panic :: "cstr \<Rightarrow> 'a cons_st_scheme \<Rightarrow> (unit, 'a cons_st_scheme) res" where
  "panic msg s =
     bindR (kprint (\<lambda>_. []) [112, 97, 110, 105, 99, 58, 32] [] (s\<lparr>pr_locking := False\<rparr>)) (\<lambda>_ s.
     bindR (kprint (\<lambda>_. []) msg [] s) (\<lambda>_ s.
     bindR (kprint (\<lambda>_. []) [10] [] s) (\<lambda>_ s. Gone (s\<lparr>panicked := True\<rparr>))))"

definition panic_msg :: "string \<Rightarrow> 'a cons_st_scheme \<Rightarrow> (unit, 'a cons_st_scheme) res" where
  "panic_msg e s = panic (map of_char e) s"

definition set_mycpu :: "cpu \<Rightarrow> 'a proc_st_scheme \<Rightarrow> 'a proc_st_scheme" where
  "set_mycpu c s = s\<lparr>cpus := (cpus s)[cpuid s := c]\<rparr>"

text \<open>\<open>acquire(&pr.lock)\<close> spins while another hart has the lock; the run modelled here does not end then.\<close>

definition pr_acquire :: "'a cons_st_scheme \<Rightarrow> (unit, 'a cons_st_scheme) res" where
  "pr_acquire s =
     (let s = set_mycpu (push_off (mycpu s)) s in
      if holding (cpuid s) (pr_lock s) then panic_msg ''acquire'' s
      else if l_locked (pr_lock s) then Diverge
      else Ok () (s\<lparr>pr_lock := (pr_lock s)\<lparr>l_locked := True, l_cpu := Some (cpuid s)\<rparr>\<rparr>))"

definition pr_release :: "'a cons_st_scheme \<Rightarrow> (unit, 'a cons_st_scheme) res" where
  "pr_release s =
     (if \<not> holding (cpuid s) (pr_lock s) then panic_msg ''release'' s
      else
        let s = s\<lparr>pr_lock := (pr_lock s)\<lparr>l_cpu := None, l_locked := False\<rparr>\<rparr> in
        (case pop_off (mycpu s) of
           Ok _ c \<Rightarrow> Ok () (set_mycpu c s)
         | Panic e \<Rightarrow> panic_msg e s
         | _ \<Rightarrow> Diverge))"

text \<open>The format is \<open>None\<close> when \<open>fmt == 0\<close>.\<close>

definition kprintf :: "(uint64 \<Rightarrow> cstr) \<Rightarrow> cstr option \<Rightarrow> uint64 list \<Rightarrow> 'a cons_st_scheme \<Rightarrow> (unit, 'a cons_st_scheme) res" where
  "kprintf str fmt ap s =
     (let locking = pr_locking s in
      bindR (if locking then pr_acquire s else Ok () s) (\<lambda>_ s.
      case fmt of
        None \<Rightarrow> panic_msg ''null fmt'' s
      | Some f \<Rightarrow> bindR (kprint str f ap s) (\<lambda>_ s. if locking then pr_release s else Ok () s)))"

definition printfinit :: "'a cons_st_scheme \<Rightarrow> 'a cons_st_scheme" where
  "printfinit s = s\<lparr>pr_lock := initlock (pr_lock s), pr_locking := True\<rparr>"

fun state_name :: "procstate \<Rightarrow> cstr" where
  "state_name UNUSED = [117, 110, 117, 115, 101, 100]"
| "state_name USED = [117, 115, 101, 100]"
| "state_name SLEEPING = [115, 108, 101, 101, 112, 32]"
| "state_name RUNNABLE = [114, 117, 110, 98, 108, 101]"
| "state_name RUNNING = [114, 117, 110, 32, 32, 32]"
| "state_name ZOMBIE = [122, 111, 109, 98, 105, 101]"

text \<open>\<open>printf("%d %s %s", p->pid, state, p->name)\<close>; the two strings are at the addresses 1 and 2.\<close>

fun procdump_from :: "proc list \<Rightarrow> 'a cons_st_scheme \<Rightarrow> (unit, 'a cons_st_scheme) res" where
  "procdump_from [] s = Ok () s"
| "procdump_from (p # ps) s =
     (if p_state p = UNUSED then procdump_from ps s
      else
        bindR (kprintf (\<lambda>a. if a = 1 then state_name (p_state p) else p_name p)
                 (Some [37, 100, 32, 37, 115, 32, 37, 115]) [of_int (p_pid p), 1, 2] s) (\<lambda>_ s.
        bindR (kprintf (\<lambda>_. []) (Some [10]) [] s) (\<lambda>_ s. procdump_from ps s)))"

definition procdump :: "'a cons_st_scheme \<Rightarrow> (unit, 'a cons_st_scheme) res" where
  "procdump s = bindR (kprintf (\<lambda>_. []) (Some [10]) [] s) (\<lambda>_ s. procdump_from (procs s) s)"

section \<open>System calls on the console\<close>

definition console_src :: "bool \<Rightarrow> uint64 \<Rightarrow> src" where
  "console_src user a = (if user then UserSrc a else KernSrc a)"

definition console_dst :: "bool \<Rightarrow> uint64 \<Rightarrow> dst" where
  "console_dst user a = (if user then UserDst a else KernDst a)"

function consolewrite_loop ::
  "('a uart_st_scheme \<Rightarrow> 'a uart_st_scheme) list \<Rightarrow> bool \<Rightarrow> uint64 \<Rightarrow> int \<Rightarrow> int \<Rightarrow> 'a uart_st_scheme \<Rightarrow>
     (int, 'a uart_st_scheme) res" where
  "consolewrite_loop env user_src src n i s =
     (if i < n then
        bindR (either_copyin (console_src user_src (src + of_int i)) 1 s) (\<lambda>(r, bs) s.
          if r = - 1 then Ok i s
          else bindR (uartputc env (hd bs) s) (\<lambda>env s. consolewrite_loop env user_src src n (i + 1) s))
      else Ok i s)"
  by pat_completeness auto
termination
  by (relation "measure (\<lambda>(env, user_src, src, n, i, s). nat (n - i))") auto

declare consolewrite_loop.simps [simp del]

definition consolewrite ::
  "('a uart_st_scheme \<Rightarrow> 'a uart_st_scheme) list \<Rightarrow> bool \<Rightarrow> uint64 \<Rightarrow> int \<Rightarrow> 'a uart_st_scheme \<Rightarrow> (int, 'a uart_st_scheme) res" where
  "consolewrite env user_src src n s = consolewrite_loop env user_src src n 0 s"

text \<open>\<open>consoleread_wait\<close> returns \<open>None\<close> when the process has been killed.\<close>

fun consoleread_wait ::
  "('a cons_st_scheme \<Rightarrow> 'a cons_st_scheme) list \<Rightarrow> nat \<Rightarrow> 'a cons_st_scheme \<Rightarrow>
     (('a cons_st_scheme \<Rightarrow> 'a cons_st_scheme) list option, 'a cons_st_scheme) res" where
  "consoleread_wait env p s =
     (if cons_r s = cons_w s then
        if killed p s then Ok None s
        else
          let s = go_to_sleep p ChCons s in
          (case env of [] \<Rightarrow> Asleep ChCons s | e # env \<Rightarrow> consoleread_wait env p (woken p (e s)))
      else Ok (Some env) s)"

declare consoleread_wait.simps [simp del]

function consoleread_loop ::
  "('a cons_st_scheme \<Rightarrow> 'a cons_st_scheme) list \<Rightarrow> nat \<Rightarrow> bool \<Rightarrow> uint64 \<Rightarrow> int \<Rightarrow> int \<Rightarrow> 'a cons_st_scheme \<Rightarrow>
     (int, 'a cons_st_scheme) res" where
  "consoleread_loop env p user_dst dst target n s =
     (if 0 < n then
        bindR (consoleread_wait env p s) (\<lambda>r s.
          case r of
            None \<Rightarrow> Ok (- 1) s
          | Some env \<Rightarrow>
              let c = cons_buf s ! (unat (cons_r s) mod INPUT_BUF_SIZE);
                  s = s\<lparr>cons_r := cons_r s + 1\<rparr> in
              if c = 4 then
                Ok (target - n) (if n < target then s\<lparr>cons_r := cons_r s - 1\<rparr> else s)
              else
                bindR (either_copyout (console_dst user_dst dst) [c] s) (\<lambda>r s.
                  if r = - 1 then Ok (target - n) s
                  else if c = 10 then Ok (target - (n - 1)) s
                  else consoleread_loop env p user_dst (dst + 1) target (n - 1) s))
      else Ok (target - n) s)"
  by pat_completeness auto
termination
  by (relation "measure (\<lambda>(env, p, user_dst, dst, target, n, s). nat n)") auto

declare consoleread_loop.simps [simp del]

definition consoleread ::
  "('a cons_st_scheme \<Rightarrow> 'a cons_st_scheme) list \<Rightarrow> bool \<Rightarrow> uint64 \<Rightarrow> int \<Rightarrow> 'a cons_st_scheme \<Rightarrow> (int, 'a cons_st_scheme) res" where
  "consoleread env user_dst dst n s =
     (case myproc s of
        None \<Rightarrow> Panic ''undefined: myproc()''
      | Some p \<Rightarrow> consoleread_loop env p user_dst dst n n s)"

section \<open>Input\<close>

text \<open>\<open>kill_line\<close> is the loop for \<open>Control-U\<close>; it ends at \<open>w\<close> at the latest, after as many turns as the line has bytes.\<close>

fun kill_line :: "nat \<Rightarrow> 'a cons_st_scheme \<Rightarrow> (unit, 'a cons_st_scheme) res" where
  "kill_line 0 s = Ok () s"
| "kill_line (Suc k) s =
     (if cons_e s \<noteq> cons_w s \<and> cons_buf s ! (unat (cons_e s - 1) mod INPUT_BUF_SIZE) \<noteq> 10 then
        bindR (consputc BACKSPACE (s\<lparr>cons_e := cons_e s - 1\<rparr>)) (\<lambda>_ s. kill_line k s)
      else Ok () s)"

definition consoleintr :: "int \<Rightarrow> 'a cons_st_scheme \<Rightarrow> (unit, 'a cons_st_scheme) res" where
  "consoleintr c s =
     (if c = 16 then procdump s
      else if c = 21 then kill_line (unat (cons_e s - cons_w s)) s
      else if c = 8 \<or> c = 127 then
        (if cons_e s \<noteq> cons_w s then consputc BACKSPACE (s\<lparr>cons_e := cons_e s - 1\<rparr>) else Ok () s)
      else if c \<noteq> 0 \<and> unat (cons_e s - cons_r s) < INPUT_BUF_SIZE then
        let c = (if c = 13 then 10 else c) in
        bindR (consputc c s) (\<lambda>_ s.
          let s = s\<lparr>cons_buf := (cons_buf s)[unat (cons_e s) mod INPUT_BUF_SIZE := of_int c], cons_e := cons_e s + 1\<rparr> in
          if c = 10 \<or> c = 4 \<or> unat (cons_e s - cons_r s) = INPUT_BUF_SIZE
          then Ok () (wakeup ChCons (s\<lparr>cons_w := cons_e s\<rparr>))
          else Ok () s)
      else Ok () s)"

fun uartintr_input :: "uint8 list \<Rightarrow> 'a cons_st_scheme \<Rightarrow> (unit, 'a cons_st_scheme) res" where
  "uartintr_input [] s = Ok () s"
| "uartintr_input (c # cs) s = bindR (consoleintr (uint c) (s\<lparr>rx := cs\<rparr>)) (\<lambda>_ s. uartintr_input cs s)"

definition uartintr :: "'a cons_st_scheme \<Rightarrow> (unit, 'a cons_st_scheme) res" where
  "uartintr s = bindR (uartintr_input (rx s) s) (\<lambda>_ s. Ok () (uartstart s))"

text \<open>The entry of the console in the device switch.\<close>

definition consoleinit ::
  "('a cons_st_scheme \<Rightarrow> 'a cons_st_scheme) list \<Rightarrow> (nat \<Rightarrow> 'a cons_st_scheme devfuns) \<Rightarrow> 'a cons_st_scheme \<Rightarrow>
     (nat \<Rightarrow> 'a cons_st_scheme devfuns) \<times> 'a cons_st_scheme" where
  "consoleinit env devsw s =
     (devsw(CONSOLE := \<lparr>dev_read = Some (consoleread env), dev_write = Some (consolewrite env)\<rparr>), uartinit s)"

section \<open>The input buffer as a line editor\<close>

interpretation cring: ring INPUT_BUF_SIZE "TYPE(uint32)"
  by unfold_locales (simp_all add: INPUT_BUF_SIZE_def)

definition cons_all :: "'a cons_st_scheme \<Rightarrow> uint8 list" where
  "cons_all s = ring_contents INPUT_BUF_SIZE (cons_buf s) (cons_r s) (cons_e s)"

definition cons_done :: "'a cons_st_scheme \<Rightarrow> uint8 list" where
  "cons_done s = take (unat (cons_w s - cons_r s)) (cons_all s)"

definition cons_line :: "'a cons_st_scheme \<Rightarrow> uint8 list" where
  "cons_line s = drop (unat (cons_w s - cons_r s)) (cons_all s)"

definition cons_ok :: "'a cons_st_scheme \<Rightarrow> bool" where
  "cons_ok s \<longleftrightarrow> length (cons_buf s) = INPUT_BUF_SIZE \<and> length (cons_all s) \<le> INPUT_BUF_SIZE \<and>
     unat (cons_w s - cons_r s) \<le> length (cons_all s) \<and> 10 \<notin> set (cons_line s)"

text \<open>What a key does to the complete lines and to the line being edited.\<close>

definition edit :: "int \<Rightarrow> uint8 list \<times> uint8 list \<Rightarrow> uint8 list \<times> uint8 list" where
  "edit c = (\<lambda>(dn, line).
     if c = 21 then (dn, [])
     else if c = 8 \<or> c = 127 then (dn, butlast line)
     else if c \<noteq> 0 \<and> length dn + length line < INPUT_BUF_SIZE then
       let c = (if c = 13 then 10 else c) in
       if c = 10 \<or> c = 4 \<or> length dn + length line + 1 = INPUT_BUF_SIZE then (dn @ line @ [of_int c], [])
       else (dn, line @ [of_int c])
     else (dn, line))"

lemma length_cons_all: "length (cons_all s) = unat (cons_e s - cons_r s)"
  by (simp add: cons_all_def)

lemma cons_split: "cons_all s = cons_done s @ cons_line s"
  by (simp add: cons_done_def cons_line_def)

lemma length_cons_done: "cons_ok s \<Longrightarrow> length (cons_done s) = unat (cons_w s - cons_r s)"
  by (simp add: cons_done_def cons_ok_def)

lemma length_cons_line:
  assumes "cons_ok s"
  shows "length (cons_line s) = unat (cons_e s - cons_w s)"
proof -
  have le: "unat (cons_w s - cons_r s) \<le> unat (cons_e s - cons_r s)" using assms by (simp add: cons_ok_def length_cons_all)
  have "cons_e s - cons_w s = (cons_e s - cons_r s) - (cons_w s - cons_r s)" by simp
  then have "unat (cons_e s - cons_w s) = unat (cons_e s - cons_r s) - unat (cons_w s - cons_r s)"
    using le by (metis unat_sub word_le_nat_alt)
  then show ?thesis by (simp add: cons_line_def length_cons_all)
qed

lemma cons_line_empty: "cons_ok s \<Longrightarrow> cons_e s = cons_w s \<longleftrightarrow> cons_line s = []"
  using length_cons_line [of s] by (metis eq_iff_diff_eq_0 length_0_conv unat_eq_0)

text \<open>The abstract state only depends on the buffer and the counters.\<close>

lemma cons_cong:
  fixes s t :: "'a cons_st_scheme"
  assumes "cons_buf t = cons_buf s" "cons_r t = cons_r s" "cons_w t = cons_w s" "cons_e t = cons_e s"
  shows "cons_all t = cons_all s" "cons_done t = cons_done s" "cons_line t = cons_line s" "cons_ok t = cons_ok s"
  using assms by (simp_all add: cons_all_def cons_done_def cons_line_def cons_ok_def)

text \<open>One byte is taken off the line.\<close>

lemma cons_back:
  assumes "cons_ok s" "cons_e s \<noteq> cons_w s"
  defines "t \<equiv> s\<lparr>cons_e := cons_e s - 1\<rparr>"
  shows "cons_ok t" "cons_done t = cons_done s" "cons_line t = butlast (cons_line s)"
    "cons_buf s ! (unat (cons_e s - 1) mod INPUT_BUF_SIZE) = last (cons_line s)"
proof -
  have line: "cons_line s \<noteq> []" using assms(1,2) cons_line_empty by blast
  then have "cons_all s \<noteq> []" by (auto simp: cons_line_def)
  then have "cons_e s \<noteq> cons_r s" by (auto simp: cons_all_def)
  note un = cring.contents_unpush [OF this, of "cons_buf s"]
  have all: "cons_all t = butlast (cons_all s)" using un(1) by (simp add: cons_all_def t_def)
  have lt: "unat (cons_w s - cons_r s) < length (cons_all s)" using line by (auto simp: cons_line_def)
  then have k: "unat (cons_w s - cons_r s) \<le> length (butlast (cons_all s))" by simp
  show d: "cons_done t = cons_done s" using all lt by (simp add: cons_done_def t_def take_butlast)
  show l: "cons_line t = butlast (cons_line s)" using all by (simp add: cons_line_def t_def drop_butlast)
  show "cons_ok t" using assms(1) k l all by (auto simp: cons_ok_def t_def dest: in_set_butlastD)
  have "last (cons_all s) = last (cons_line s)" using line cons_split [of s] by simp
  then show "cons_buf s ! (unat (cons_e s - 1) mod INPUT_BUF_SIZE) = last (cons_line s)" using un(2) by (simp add: cons_all_def)
qed

text \<open>One byte is added to the line, or it ends the line.\<close>

lemma cons_add:
  fixes s :: "'a cons_st_scheme" and c :: uint8
  assumes "cons_ok s" "length (cons_all s) < INPUT_BUF_SIZE"
  defines "t \<equiv> s\<lparr>cons_buf := (cons_buf s)[unat (cons_e s) mod INPUT_BUF_SIZE := c], cons_e := cons_e s + 1\<rparr>"
  shows "cons_all t = cons_all s @ [c]" "unat (cons_e t - cons_r t) = Suc (length (cons_all s))"
    "cons_done t = cons_done s" "cons_line t = cons_line s @ [c]" "c \<noteq> 10 \<Longrightarrow> cons_ok t"
    "cons_ok (t\<lparr>cons_w := cons_e t\<rparr>)" "cons_done (t\<lparr>cons_w := cons_e t\<rparr>) = cons_all s @ [c]" "cons_line (t\<lparr>cons_w := cons_e t\<rparr>) = []"
proof -
  have k: "unat (cons_w s - cons_r s) \<le> length (cons_all s)" and b: "length (cons_buf s) = INPUT_BUF_SIZE"
    using assms(1) by (simp_all add: cons_ok_def)
  show all: "cons_all t = cons_all s @ [c]"
    using cring.contents_push [of "cons_e s" "cons_r s" "cons_buf s" c] assms(2) b length_cons_all [of s] by (simp add: cons_all_def t_def)
  then show n: "unat (cons_e t - cons_r t) = Suc (length (cons_all s))" using length_cons_all [of t] by simp
  show d: "cons_done t = cons_done s" and l: "cons_line t = cons_line s @ [c]"
    using k all by (simp_all add: cons_done_def cons_line_def t_def)
  show "c \<noteq> 10 \<Longrightarrow> cons_ok t" using assms(1,2) all l k by (simp add: cons_ok_def) (simp add: t_def b)
  have w: "cons_all (t\<lparr>cons_w := cons_e t\<rparr>) = cons_all s @ [c]" using all by (simp add: cons_all_def)
  show "cons_done (t\<lparr>cons_w := cons_e t\<rparr>) = cons_all s @ [c]" "cons_line (t\<lparr>cons_w := cons_e t\<rparr>) = []"
    using w n by (simp_all add: cons_done_def cons_line_def)
  then show "cons_ok (t\<lparr>cons_w := cons_e t\<rparr>)" using w n assms(2) b by (simp add: cons_ok_def) (simp add: t_def)
qed

section \<open>The echo\<close>

text \<open>\<open>echo_ok k s\<close>: the device will accept \<open>k\<close> more bytes.\<close>

definition echo_ok :: "nat \<Rightarrow> 'a uart_st_scheme \<Rightarrow> bool" where
  "echo_ok k s \<longleftrightarrow> \<not> panicked s \<and> k \<le> length (filter id (tx_idle s))"

lemma uartputc_sync_ok:
  assumes "echo_ok (Suc k) s"
  shows "\<exists>idle ws. uartputc_sync c s = Ok () (s\<lparr>tx_idle := idle, uart_writes := ws\<rparr>) \<and> echo_ok k (s\<lparr>tx_idle := idle, uart_writes := ws\<rparr>)"
proof -
  have "filter id (dropWhile Not xs) = filter id xs" for xs by (induction xs) auto
  then have f: "filter id (tx_idle s) = filter id (dropWhile Not (tx_idle s))" by simp
  then obtain b idle where d: "dropWhile Not (tx_idle s) = b # idle"
    using assms by (cases "dropWhile Not (tx_idle s)") (auto simp: echo_ok_def)
  then have "length (filter id (tx_idle s)) \<le> Suc (length (filter id idle))" using f by simp
  then show ?thesis using assms d
    by (intro exI [of _ idle] exI [of _ "uart_writes s @ [(THR, c)]"]) (auto simp: uartputc_sync_def echo_ok_def WriteReg_def)
qed

definition echo_only :: "'a uart_st_scheme \<Rightarrow> 'a uart_st_scheme \<Rightarrow> bool" where
  "echo_only s t \<longleftrightarrow> (\<exists>idle ws. t = s\<lparr>tx_idle := idle, uart_writes := ws\<rparr>)"

lemma echo_only_trans: "echo_only s t \<Longrightarrow> echo_only t u \<Longrightarrow> echo_only s u"
  unfolding echo_only_def by (elim exE, simp) (rule exI, rule exI, rule refl)

lemma consputc_ok:
  fixes s :: "'a uart_st_scheme"
  assumes "echo_ok (k + 3) s"
  shows "\<exists>t. consputc c s = Ok () t \<and> echo_only s t \<and> echo_ok k t"
proof -
  have one: "\<exists>t. uartputc_sync b s = Ok () t \<and> echo_only s t \<and> echo_ok j t" if "echo_ok (Suc j) s" for b j and s :: "'a uart_st_scheme"
    using uartputc_sync_ok [OF that, of b] by (auto simp: echo_only_def)
  obtain s1 where s1: "uartputc_sync 8 s = Ok () s1" "echo_only s s1" "echo_ok (k + 2) s1"
    using one [of "k + 2" s 8] assms by (auto simp: numeral_3_eq_3)
  obtain s2 where s2: "uartputc_sync 32 s1 = Ok () s2" "echo_only s1 s2" "echo_ok (k + 1) s2"
    using one [of "k + 1" s1 32] s1(3) by auto
  obtain s3 where s3: "uartputc_sync 8 s2 = Ok () s3" "echo_only s2 s3" "echo_ok k s3" using one [of k s2 8] s2(3) by auto
  obtain t where t: "uartputc_sync (of_int c) s = Ok () t" "echo_only s t" "echo_ok (k + 2) t"
    using one [of "k + 2" s "of_int c"] assms by (auto simp: numeral_3_eq_3)
  then have "echo_ok k t" by (simp add: echo_ok_def)
  moreover have "echo_only s s3" using s1(2) s2(2) s3(2) echo_only_trans by blast
  ultimately show ?thesis using s1 s2 s3 t by (cases "c = BACKSPACE") (auto simp: consputc_def)
qed

lemma consputs_ok:
  "echo_ok (k + 3 * length bs) s \<Longrightarrow> \<exists>t. consputs bs s = Ok () t \<and> echo_only s t \<and> echo_ok k t"
proof (induction bs arbitrary: s)
  case Nil
  have "echo_only s s" unfolding echo_only_def by (rule exI [of _ "tx_idle s"], rule exI [of _ "uart_writes s"]) simp
  then show ?case using Nil by simp
next
  case (Cons b bs)
  obtain s1 where s1: "consputc (uint b) s = Ok () s1" "echo_only s s1" "echo_ok (k + 3 * length bs) s1"
    using consputc_ok [of "k + 3 * length bs" s "uint b"] Cons.prems by (auto simp: algebra_simps)
  then show ?case using Cons.IH [OF s1(3)] echo_only_trans [OF s1(2)] by auto
qed

text \<open>\<open>printf\<close> of the kernel gives \<open>pr.lock\<close> back and leaves the interrupts as they were.\<close>

lemma kprintf_ok:
  fixes s :: "'a cons_st_scheme"
  assumes "kprintf_loop str f ap = Some out" "echo_ok (3 * length out) s" "\<not> l_locked (pr_lock s)" "cpuid s < length (cpus s)"
    "0 \<le> c_noff (mycpu s)" "0 < c_noff (mycpu s) \<Longrightarrow> \<not> c_sie (mycpu s)"
  shows "\<exists>t. kprintf str (Some f) ap s = Ok () t \<and> \<not> l_locked (pr_lock t) \<and> c_noff (mycpu t) = c_noff (mycpu s) \<and> c_sie (mycpu t) = c_sie (mycpu s)"
proof (cases "pr_locking s")
  case False
  then show ?thesis using consputs_ok [of 0 out s] assms(1-3)
    by (auto simp: kprintf_def kprint_def echo_only_def mycpu_def cpuid_def)
next
  case True
  let ?s = "(set_mycpu (push_off (mycpu s)) s)\<lparr>pr_lock := (pr_lock s)\<lparr>l_locked := True, l_cpu := Some (cpuid s)\<rparr>\<rparr>"
  have f: "cpuid ?s = cpuid s" "mycpu ?s = push_off (mycpu s)" "echo_ok k ?s = echo_ok k s" for k
    using assms(4) by (simp_all add: set_mycpu_def mycpu_def cpuid_def echo_ok_def)
  have a: "pr_acquire s = Ok () ?s" using assms(3) by (simp add: pr_acquire_def Let_def set_mycpu_def holding_def cpuid_def)
  obtain t where t: "consputs out ?s = Ok () t" "echo_only ?s t" using consputs_ok [of 0 out ?s] assms(2) f(3) by auto
  then have l: "pr_lock t = (pr_lock s)\<lparr>l_locked := True, l_cpu := Some (cpuid s)\<rparr>" "cpuid t = cpuid s" "cpus t = cpus ?s"
    by (auto simp: echo_only_def cpuid_def set_mycpu_def)
  have m: "mycpu t = push_off (mycpu s)" using f(1,2) l(2,3) by (simp add: mycpu_def)
  obtain c where c: "pop_off (push_off (mycpu s)) = Ok () c" "c_noff c = c_noff (mycpu s)" "c_sie c = c_sie (mycpu s)"
    using push_pop [OF assms(5,6)] by blast
  let ?u = "set_mycpu c (t\<lparr>pr_lock := (pr_lock t)\<lparr>l_cpu := None, l_locked := False\<rparr>\<rparr>)"
  have "mycpu (t\<lparr>pr_lock := x\<rparr>) = mycpu t" for x by (simp add: mycpu_def cpuid_def)
  then have "pr_release t = Ok () ?u" using l(1,2) m c(1) by (simp add: pr_release_def holding_def Let_def)
  moreover have "mycpu ?u = c" "\<not> l_locked (pr_lock ?u)" using assms(4) l(2,3) by (simp_all add: mycpu_def set_mycpu_def cpuid_def)
  ultimately show ?thesis using True a t(1) c(2,3) assms(1) by (intro exI [of _ ?u]) (simp add: kprintf_def kprint_def)
qed

lemma echo_cons:
  fixes s t :: "'a cons_st_scheme"
  assumes "echo_only s t"
  shows "cons_buf t = cons_buf s" "cons_r t = cons_r s" "cons_w t = cons_w s" "cons_e t = cons_e s"
    "cons_done t = cons_done s" "cons_line t = cons_line s" "cons_ok t = cons_ok s" "cons_all t = cons_all s"
proof -
  show f: "cons_buf t = cons_buf s" "cons_r t = cons_r s" "cons_w t = cons_w s" "cons_e t = cons_e s"
    using assms by (auto simp: echo_only_def)
  show "cons_done t = cons_done s" "cons_line t = cons_line s" "cons_ok t = cons_ok s" "cons_all t = cons_all s"
    using cons_cong [OF f] by auto
qed

lemma kill_line_spec:
  fixes s :: "'a cons_st_scheme"
  assumes "cons_ok s" "length (cons_line s) = k" "echo_ok (3 * k) s"
  shows "\<exists>t. kill_line k s = Ok () t \<and> cons_ok t \<and> cons_done t = cons_done s \<and> cons_line t = []"
  using assms
proof (induction k arbitrary: s)
  case 0
  then show ?case by simp
next
  case (Suc k)
  have ne: "cons_e s \<noteq> cons_w s" using Suc.prems(1,2) cons_line_empty [of s] by auto
  note b = cons_back [OF Suc.prems(1) ne]
  have "cons_line s \<noteq> []" using Suc.prems(2) by auto
  then have nl: "last (cons_line s) \<noteq> 10" using Suc.prems(1) last_in_set by (fastforce simp: cons_ok_def)
  let ?s = "s\<lparr>cons_e := cons_e s - 1\<rparr>"
  have "echo_ok (3 * k + 3) ?s" using Suc.prems(3) by (simp add: echo_ok_def)
  then obtain u where u: "consputc BACKSPACE ?s = Ok () u" "echo_only ?s u" "echo_ok (3 * k) u" using consputc_ok by blast
  have "length (cons_line u) = k" using b(3) echo_cons(6) [OF u(2)] Suc.prems(2) by simp
  then obtain t where "kill_line k u = Ok () t" "cons_ok t" "cons_done t = cons_done u" "cons_line t = []"
    using Suc.IH [of u] u(3) b(1) echo_cons(7) [OF u(2)] by blast
  then show ?case using ne nl b u(1) echo_cons(5) [OF u(2)] by (intro exI [of _ t]) simp
qed

text \<open>A key that is stored: it is echoed, appended, and may complete the line.\<close>

lemma consoleintr_type:
  fixes s :: "'a cons_st_scheme"
  assumes "cons_ok s" "0 \<le> c" "c < 256" "c \<noteq> 16" "echo_ok (3 * length (cons_line s) + 3) s"
    and put: "c \<noteq> 21" "c \<noteq> 8" "c \<noteq> 127" "c \<noteq> 0" "length (cons_all s) < INPUT_BUF_SIZE"
  shows "\<exists>t. consoleintr c s = Ok () t \<and> cons_ok t \<and> (cons_done t, cons_line t) = edit c (cons_done s, cons_line s)"
proof -
  let ?c = "if c = 13 then 10 else c"
  have len: "length (cons_done s) + length (cons_line s) = length (cons_all s)" using cons_split [of s] by simp
  obtain u where u: "consputc ?c s = Ok () u" "echo_only s u" using consputc_ok [OF assms(5)] by blast
  note e = echo_cons [OF u(2)]
  have ok: "cons_ok u" "length (cons_all u) < INPUT_BUF_SIZE" using assms(1) put(5) e by simp_all
  note a = cons_add [OF ok, of "of_int ?c"]
  have nl: "(of_int ?c :: uint8) \<noteq> 10" if "?c \<noteq> 10"
  proof
    assume "(of_int ?c :: uint8) = 10"
    then have "uint (of_int ?c :: uint8) = uint (10 :: uint8)" by simp
    then show False using that assms(2,3) by (simp add: unsigned_of_int take_bit_int_eq_self split: if_splits)
  qed
  let ?t = "u\<lparr>cons_buf := (cons_buf u)[unat (cons_e u) mod INPUT_BUF_SIZE := of_int ?c], cons_e := cons_e u + 1\<rparr>"
  have wk: "cons_buf (wakeup ch x) = cons_buf x" "cons_r (wakeup ch x) = cons_r x" "cons_w (wakeup ch x) = cons_w x" "cons_e (wakeup ch x) = cons_e x"
    for ch and x :: "'a cons_st_scheme" by (subst wakeup_eq, simp)+
  have run: "consoleintr c s = (if ?c = 10 \<or> ?c = 4 \<or> unat (cons_e ?t - cons_r ?t) = INPUT_BUF_SIZE
      then Ok () (wakeup ChCons (?t\<lparr>cons_w := cons_e ?t\<rparr>)) else Ok () ?t)"
    using put assms(4) u(1) length_cons_all [of s] by (simp add: consoleintr_def Let_def)
  show ?thesis
  proof (cases "?c = 10 \<or> ?c = 4 \<or> Suc (length (cons_all s)) = INPUT_BUF_SIZE")
    case True
    note w = cons_cong [OF wk(1-4), of ChCons "?t\<lparr>cons_w := cons_e ?t\<rparr>"]
    have "edit c (cons_done s, cons_line s) = (cons_done s @ cons_line s @ [of_int ?c], [])"
      using put True len by (auto simp: edit_def Let_def)
    then show ?thesis using run True a(2,6-8) w e(5,8) cons_split [of s]
      by (intro exI [of _ "wakeup ChCons (?t\<lparr>cons_w := cons_e ?t\<rparr>)"]) auto
  next
    case False
    then have "edit c (cons_done s, cons_line s) = (cons_done s, cons_line s @ [of_int ?c])"
      using put len by (auto simp: edit_def Let_def)
    then show ?thesis using run False a(2-5) nl e by (intro exI [of _ ?t]) auto
  qed
qed

section \<open>Reading a line\<close>

text \<open>What a read of \<open>n\<close> bytes takes off the complete lines: at most one line, without an end-of-file mark, which
  is left for the next read when bytes were already taken. \<open>None\<close>: the bytes run out first.\<close>

fun take_line :: "bool \<Rightarrow> nat \<Rightarrow> uint8 list \<Rightarrow> (uint8 list \<times> uint8 list) option" where
  "take_line started 0 q = Some ([], q)"
| "take_line started (Suc n) [] = None"
| "take_line started (Suc n) (c # q) =
     (if c = 4 then Some ([], if started then c # q else q)
      else if c = 10 then Some ([c], q)
      else map_option (\<lambda>(bs, q). (c # bs, q)) (take_line True n q))"

lemma take_line_length: "take_line started n q = Some (bs, q') \<Longrightarrow> length bs \<le> length q"
  by (induction started n q arbitrary: bs q' rule: take_line.induct) (auto split: if_splits)

lemma cons_pop:
  assumes "cons_ok s" "cons_done s = c # q"
  defines "t \<equiv> s\<lparr>cons_r := cons_r s + 1\<rparr>"
  shows "cons_ok t" "cons_done t = q" "cons_line t = cons_line s" "cons_r s \<noteq> cons_w s"
    "cons_buf s ! (unat (cons_r s) mod INPUT_BUF_SIZE) = c"
proof -
  let ?k = "unat (cons_w s - cons_r s)"
  have k: "?k \<noteq> 0" using length_cons_done [OF assms(1)] assms(2) by auto
  then show nw: "cons_r s \<noteq> cons_w s" by auto
  have "cons_all s = c # drop 1 (cons_all s)" using cons_split [of s] assms(2) by simp
  moreover have "cons_r s \<noteq> cons_e s"
  proof
    assume "cons_r s = cons_e s"
    then have "cons_all s = []" by (simp add: cons_all_def)
    then show False using calculation by simp
  qed
  ultimately have all: "cons_all s = c # cons_all t" and "cons_buf s ! (unat (cons_r s) mod INPUT_BUF_SIZE) = c"
    using cring.contents_pop [of "cons_r s" "cons_e s" "cons_buf s"] by (simp_all add: cons_all_def t_def)
  then show "cons_buf s ! (unat (cons_r s) mod INPUT_BUF_SIZE) = c" by blast
  have nz: "cons_w s - cons_r s \<noteq> 0" using nw by simp
  have "unat (cons_w t - cons_r t) = ?k - 1" using unat_minus_one [OF nz] by (simp add: t_def diff_diff_eq)
  then have kt: "?k = Suc (unat (cons_w t - cons_r t))" using k by simp
  show "cons_done t = q" using assms(2) all kt by (simp add: cons_done_def)
  show l: "cons_line t = cons_line s" using all kt by (simp add: cons_line_def)
  show "cons_ok t" using assms(1) all kt l by (simp add: cons_ok_def) (simp add: t_def)
qed

text \<open>One turn of the loop of \<open>consoleread\<close> when a byte is waiting.\<close>

lemma consoleread_turn:
  assumes "cons_ok s" "cons_done s = c # cs" "0 < n"
  defines "u \<equiv> s\<lparr>cons_r := cons_r s + 1\<rparr>"
  shows "consoleread_loop [] p True dst target n s =
      (if c = 4 then Ok (target - n) (if n < target then u\<lparr>cons_r := cons_r u - 1\<rparr> else u)
       else bindR (either_copyout (UserDst dst) [c] u) (\<lambda>r s.
         if r = - 1 then Ok (target - n) s else if c = 10 then Ok (target - (n - 1)) s
         else consoleread_loop [] p True (dst + 1) target (n - 1) s))"
  using assms(3) cons_pop(4,5) [OF assms(1,2)]
  by (subst consoleread_loop.simps) (simp add: consoleread_wait.simps console_dst_def u_def Let_def cong: if_cong)

text \<open>The loop of \<open>consoleread\<close> for a user buffer.\<close>

lemma consoleread_loop_spec:
  fixes s :: "'a cons_st_scheme"
  assumes "cons_ok s" "myproc s = Some p" "user_space (mem s) (p_pagetable (proc_at s p))" "0 \<le> n"
    and "take_line (n < target) (nat n) (cons_done s) = Some (bs, q)" "n \<le> target"
    and "\<forall>j < length bs. user_pa (mem s) (p_pagetable (proc_at s p)) (dst + of_nat j) \<noteq> None"
  shows "\<exists>r. consoleread_loop [] p True dst target n s = Ok (target - n + int (length bs)) (s\<lparr>cons_r := r, mem :=
      snd (copyout_bytes (user_pa (mem s) (p_pagetable (proc_at s p))) (mem s) dst bs)\<rparr>) \<and>
    cons_ok (s\<lparr>cons_r := r\<rparr>) \<and> cons_done (s\<lparr>cons_r := r\<rparr>) = q \<and> cons_line (s\<lparr>cons_r := r\<rparr>) = cons_line s"
  using assms
proof (induction "nat n" arbitrary: n bs dst s)
  case 0
  then have "n = 0" by simp
  then show ?case using 0 by (intro exI [of _ "cons_r s"]) (simp add: consoleread_loop.simps [of _ _ _ _ _ 0])
next
  case (Suc k)
  let ?pt = "p_pagetable (proc_at s p)"
  let ?tr = "user_pa (mem s) ?pt"
  have n: "0 < n" "nat (n - 1) = k" using Suc.hyps(2) by simp_all
  obtain c cs where cs: "cons_done s = c # cs" using Suc.prems(5) by (cases "cons_done s") (simp_all add: Suc.hyps(2) [symmetric])
  define u where "u = s\<lparr>cons_r := cons_r s + 1\<rparr>"
  note pop = cons_pop [OF Suc.prems(1) cs, folded u_def]
  have u: "mem u = mem s" "myproc u = Some p" "procs u = procs s" "my_pagetable u = ?pt"
    using Suc.prems(2) by (simp_all add: u_def myproc_def mycpu_def cpuid_def my_pagetable_def)
  note loop = consoleread_turn [OF Suc.prems(1) cs n(1), of p dst target, folded u_def]
  have tl: "take_line (n < target) (Suc k) (c # cs) = Some (bs, q)" using Suc.prems(5) cs by (simp add: Suc.hyps(2) [symmetric])
  show ?case
  proof (cases "c = 4")
    case True
    then have "bs = []" "q = (if n < target then cons_done s else cs)" using tl cs by (auto split: if_splits)
    then show ?thesis using True loop pop Suc.prems(1)
      by (intro exI [of _ "if n < target then cons_r s else cons_r s + 1"]) (simp add: u_def)
  next
    case nd: False
    obtain bs' where bs: "bs = c # bs'" and nl: "c = 10 \<Longrightarrow> bs' = [] \<and> q = cs"
      and more: "c \<noteq> 10 \<Longrightarrow> take_line True k cs = Some (bs', q)" using tl nd by (auto split: if_splits)
    obtain pa where pa: "?tr dst = Some pa" using Suc.prems(7) bs by fastforce
    define m where "m = (mem s)(pa := c)"
    note wr = user_write_frame [OF Suc.prems(3) pa, of c, folded m_def]
    have out: "either_copyout (UserDst dst) [c] u = Ok 0 (u\<lparr>mem := m\<rparr>)"
      using copyout_one [of u ?pt dst c] Suc.prems(3) pa u by (simp add: m_def)
    have cp: "copyout_bytes ?tr (mem s) dst bs = copyout_bytes ?tr m (dst + 1) bs'" using pa by (simp add: bs m_def)
    show ?thesis
    proof (cases "c = 10")
      case True
      then show ?thesis using nd loop out nl cp bs pop by (intro exI [of _ "cons_r s + 1"]) (simp add: u_def)
    next
      case False
      let ?v = "u\<lparr>mem := m\<rparr>"
      have v: "cons_ok ?v" "cons_done ?v = cs" "cons_line ?v = cons_line s" "myproc ?v = Some p" "mem ?v = m" "proc_at ?v p = proc_at s p"
        using pop cons_cong [of ?v u] u by (simp_all add: myproc_def mycpu_def cpuid_def)
      have dst: "\<forall>j < length bs'. user_pa m ?pt (dst + 1 + of_nat j) \<noteq> None"
        using Suc.prems(7) wr(1) by (auto simp: bs algebra_simps dest: spec [of _ "Suc _"])
      obtain r where r: "consoleread_loop [] p True (dst + 1) target (n - 1) ?v = Ok (target - (n - 1) + int (length bs')) (?v\<lparr>cons_r := r, mem :=
          snd (copyout_bytes (user_pa (mem ?v) ?pt) (mem ?v) (dst + 1) bs')\<rparr>)"
        "cons_ok (?v\<lparr>cons_r := r\<rparr>)" "cons_done (?v\<lparr>cons_r := r\<rparr>) = q" "cons_line (?v\<lparr>cons_r := r\<rparr>) = cons_line ?v"
        using Suc.hyps(1) [of "n - 1" ?v bs' "dst + 1"] n v wr(2) more False dst Suc.prems(6) by auto
      note same = cons_cong [of "?v\<lparr>cons_r := r\<rparr>" "s\<lparr>cons_r := r\<rparr>"]
      have "consoleread_loop [] p True dst target n s = Ok (target - n + int (length bs))
          (?v\<lparr>cons_r := r, mem := snd (copyout_bytes ?tr (mem s) dst bs)\<rparr>)"
        using loop nd False out r(1) wr(1) v(5) cp bs by simp
      moreover have "?v\<lparr>cons_r := r, mem := x\<rparr> = s\<lparr>cons_r := r, mem := x\<rparr>" for x by (simp add: u_def)
      ultimately show ?thesis using r(2-4) v(3) same by (intro exI [of _ r]) (simp add: u_def)
    qed
  qed
qed

section \<open>Properties\<close>

text \<open>C27: the input buffer of the console is a line editor. For every byte that the serial port delivers (but
  \<open>Control-P\<close>, which only prints) and as long as the device accepts the echo, \<open>consoleintr\<close> returns and does to the complete lines and the
  line being edited what \<open>edit\<close> says: append, erase the last byte, erase the line, or complete the line at a newline, at an end of
  file or when the buffer is full; bytes that do not fit are dropped. (The bytes of the echo are not part of the statement.) The buffer never overflows, and complete lines are
  never changed by editing.\<close>

theorem consoleintr_edits:
  fixes s :: "'a cons_st_scheme"
  assumes "cons_ok s" "0 \<le> c" "c < 256" "c \<noteq> 16" "echo_ok (3 * length (cons_line s) + 3) s"
  shows "\<exists>t. consoleintr c s = Ok () t \<and> cons_ok t \<and> (cons_done t, cons_line t) = edit c (cons_done s, cons_line s)"
proof -
  let ?n = "length (cons_line s)"
  have echo: "echo_ok (3 * ?n) s" using assms(5) by (simp add: echo_ok_def)
  have len: "length (cons_done s) + ?n = length (cons_all s)" using cons_split [of s] by simp
  consider (kill) "c = 21" | (erase) "c = 8 \<or> c = 127" "c \<noteq> 21" | (add) "c \<noteq> 21" "c \<noteq> 8" "c \<noteq> 127" "c \<noteq> 0" "length (cons_all s) < INPUT_BUF_SIZE"
    | (no) "c \<noteq> 21" "c \<noteq> 8" "c \<noteq> 127" "c = 0 \<or> \<not> length (cons_all s) < INPUT_BUF_SIZE" by blast
  then show ?thesis
  proof cases
    case kill
    then show ?thesis using kill_line_spec [OF assms(1) refl echo] length_cons_line [OF assms(1)]
      by (simp add: consoleintr_def edit_def)
  next
    case erase
    have "echo_ok (3 * ?n + 3) (s\<lparr>cons_e := cons_e s - 1\<rparr>)" using assms(5) by (simp add: echo_ok_def)
    then obtain t where t: "consputc BACKSPACE (s\<lparr>cons_e := cons_e s - 1\<rparr>) = Ok () t" "echo_only (s\<lparr>cons_e := cons_e s - 1\<rparr>) t"
      using consputc_ok by blast
    show ?thesis
    proof (cases "cons_e s = cons_w s")
      case True
      then show ?thesis using erase assms(1,4) cons_line_empty [OF assms(1)] by (simp add: consoleintr_def edit_def)
    next
      case False
      then show ?thesis using erase assms(4) t(1) echo_cons [OF t(2)] cons_back [OF assms(1) False]
        by (simp add: consoleintr_def edit_def)
    qed
  next
    case add
    then show ?thesis using consoleintr_type [OF assms] by blast
  next
    case no
    then show ?thesis using assms(1,4) len length_cons_all [of s] by (auto simp: consoleintr_def edit_def)
  qed
qed

theorem consoleintr_edits_witness:
  "\<exists>(s :: cons_st) t. consoleintr 13 s = Ok () t \<and> cons_done t = [104, 105, 10] \<and> cons_line t = []"
proof -
  let ?s = "(undefined :: cons_st)\<lparr>cons_buf := [104, 105] @ replicate 126 0, cons_r := 0, cons_w := 0, cons_e := 2, panicked := False,
    tx_idle := replicate 9 True\<rparr>"
  have all: "cons_all ?s = [104, 105]" by (simp add: cons_all_def ring_contents_def INPUT_BUF_SIZE_def upt_rec)
  then have l: "cons_done ?s = []" "cons_line ?s = [104, 105]" by (simp_all add: cons_done_def cons_line_def)
  then have "cons_ok ?s" using all by (simp add: cons_ok_def) (simp add: INPUT_BUF_SIZE_def)
  then show ?thesis using consoleintr_edits [of ?s 13] l
    by (fastforce simp: echo_ok_def edit_def INPUT_BUF_SIZE_def)
qed

text \<open>C28: reading from the console. When the waiting lines determine the result without a further wait
  (\<open>take_line\<close>), a read into mapped user memory returns the number of bytes of at most one line, puts exactly
  these bytes into the buffer and changes no other byte of memory; the line is gone from the queue, an end-of-file mark
  after it stays for the next read, and the line being edited is untouched.\<close>

theorem consoleread_line:
  fixes s :: "'a cons_st_scheme"
  assumes "cons_ok s" "myproc s = Some p" "user_space (mem s) (p_pagetable (proc_at s p))" "0 \<le> n"
    and "take_line False (nat n) (cons_done s) = Some (bs, q)"
    and "\<forall>j < length bs. user_pa (mem s) (p_pagetable (proc_at s p)) (dst + of_nat j) \<noteq> None"
  shows "\<exists>t. consoleread [] True dst n s = Ok (int (length bs)) t \<and> cons_ok t \<and> cons_done t = q \<and> cons_line t = cons_line s \<and>
    copyin_bytes (user_pa (mem s) (p_pagetable (proc_at s p))) (mem t) dst (length bs) = (0, bs) \<and>
    (\<forall>x. (\<forall>j < length bs. user_pa (mem s) (p_pagetable (proc_at s p)) (dst + of_nat j) \<noteq> Some x) \<longrightarrow> mem t x = mem s x)"
proof -
  let ?tr = "user_pa (mem s) (p_pagetable (proc_at s p))"
  let ?m = "snd (copyout_bytes ?tr (mem s) dst bs)"
  obtain r where r: "consoleread_loop [] p True dst n n s = Ok (int (length bs)) (s\<lparr>cons_r := r, mem := ?m\<rparr>)"
    "cons_ok (s\<lparr>cons_r := r\<rparr>)" "cons_done (s\<lparr>cons_r := r\<rparr>) = q" "cons_line (s\<lparr>cons_r := r\<rparr>) = cons_line s"
    using consoleread_loop_spec [OF assms(1-4), of n bs q dst] assms(5,6) by auto
  note same = cons_cong [of "s\<lparr>cons_r := r, mem := ?m\<rparr>" "s\<lparr>cons_r := r\<rparr>"]
  have "length bs \<le> length (cons_done s)" using take_line_length [OF assms(5)] .
  also have "\<dots> \<le> INPUT_BUF_SIZE" using assms(1) by (auto simp: cons_ok_def cons_done_def)
  finally have "length bs \<le> 2 ^ 64" by (simp add: INPUT_BUF_SIZE_def)
  note d = delivered [OF assms(3) this assms(6)]
  have "consoleread [] True dst n s = Ok (int (length bs)) (s\<lparr>cons_r := r, mem := ?m\<rparr>)" using r(1) assms(2) by (simp add: consoleread_def)
  then show ?thesis using r(2-4) same d by (intro exI [of _ "s\<lparr>cons_r := r, mem := ?m\<rparr>"]) simp
qed

theorem consoleread_line_witness:
  "\<exists>(s :: cons_st) t. cons_done s = [104, 105, 10, 120, 10] \<and> consoleread [] True 8 100 s = Ok 3 t \<and> cons_done t = [120, 10]"
proof -
  obtain m q where m: "user_space m 0x87fff000"
      "\<forall>va. user_pa m 0x87fff000 va = (if unat va < 4096 then Some (q + va) else None)"
    using one_page_space by blast
  let ?s = "(undefined :: cons_st)\<lparr>mem := m, procs := [undefined\<lparr>p_pagetable := 0x87fff000, p_killed := False\<rparr>],
    hart := 0, cpus := [undefined\<lparr>c_proc := Some 0\<rparr>], cons_buf := [104, 105, 10, 120, 10] @ replicate 123 0, cons_r := 0, cons_w := 5, cons_e := 5\<rparr>"
  have s: "myproc ?s = Some 0" "mem ?s = m" "p_pagetable (proc_at ?s 0) = 0x87fff000" by (simp_all add: myproc_def mycpu_def cpuid_def)
  have all: "cons_all ?s = [104, 105, 10, 120, 10]" by (simp add: cons_all_def ring_contents_def INPUT_BUF_SIZE_def upt_rec)
  then have l: "cons_done ?s = [104, 105, 10, 120, 10]" "cons_line ?s = []" by (simp_all add: cons_done_def cons_line_def)
  then have ok: "cons_ok ?s" using all by (simp add: cons_ok_def) (simp add: INPUT_BUF_SIZE_def)
  have "take_line False (Suc (Suc (Suc k))) (cons_done ?s) = Some ([104, 105, 10], [120, 10])" for k unfolding l(1) by simp
  from this [of 97] have tl: "take_line False (nat 100) (cons_done ?s) = Some ([104, 105, 10], [120, 10])" by simp
  have dst: "\<forall>j < length [104, 105, 10 :: uint8]. user_pa (mem ?s) (p_pagetable (proc_at ?s 0)) (8 + of_nat j) \<noteq> None"
    unfolding s using m(2) by (auto simp: less_Suc_eq)
  have "user_space (mem ?s) (p_pagetable (proc_at ?s 0))" using m(1) s by simp
  then obtain t where "consoleread [] True 8 100 ?s = Ok (int (length [104, 105, 10 :: uint8])) t" "cons_done t = [120, 10]"
    using consoleread_line [OF ok s(1) _ _ tl dst] by auto
  then show ?thesis using l(1) by (intro exI [of _ ?s] exI [of _ t]) simp
qed

end
