(* ===== verification/Sched.thy ===== *)
theory Sched
  imports Proc
begin

text \<open>
  The scheduling protocol of kernel/proc.c, step by step: \<open>scheduler\<close>, \<open>sched\<close>, \<open>yield\<close>, \<open>sleep\<close>,
  \<open>wakeup\<close> and the last part of \<open>exit\<close> running on any number of harts at once. Proc treats each of these as one piece; here every acquire,
  release and assignment is a step of its own, so that every interleaving is covered.

  A hart runs its scheduler loop or a process (\<open>thread\<close>, with a program counter). \<open>swtch\<close> changes which of the two the
  hart runs; \<open>saved p\<close> is the point at which process \<open>p\<close> resumes, and \<open>s_intena p\<close> the local variable of \<open>sched\<close> on its stack. Locks are
  owned by harts; \<open>acquire\<close> and \<open>release\<close> are single steps here (Spinlock has their parts), with \<open>push_off\<close> and \<open>pop_off\<close> of Spinlock
  on the hart's \<open>struct cpu\<close> and interrupt-enable bit. The calls of \<open>panic\<close> in \<open>acquire\<close>, \<open>release\<close>, \<open>pop_off\<close>, \<open>sched\<close> and at the end of
  \<open>exit\<close> set \<open>panicked\<close>. The clients of \<open>sleep\<close> and
  \<open>wakeup\<close> follow the discipline of the kernel: a process waits for condition number \<open>k\<close> with
  \<open>while(!cond) sleep(chan, lk)\<close>, holding the lock of the condition; another makes the condition true and calls \<open>wakeup(chan)\<close>
  holding the same lock. \<open>exit\<close> begins here with the acquire of \<open>wait_lock\<close>: it wakes the parent first and makes the condition true (a zombie
  child) before it releases the lock. Processes are not created or freed in this theory.

  Main results: \<open>one_hart_per_process\<close>, \<open>sched_never_panics\<close> and \<open>no_lost_wakeup\<close>.
\<close>

section \<open>State\<close>

datatype lockid = PLock nat | CLock nat

text \<open>Program counters. \<open>SAcq i\<close>: about to acquire the lock of process \<open>i\<close>; \<open>SChk i\<close>: has it; \<open>SRet i\<close>: process \<open>i\<close> has
  switched back.\<close>

datatype spc = SAcq nat | SChk nat | SRet nat

datatype ppc =
    Out
  | YAcq | YSet | YSched | YBack | YRel
  | WAcq nat | WTest nat | WRel nat
  | SlAcq nat | SlRel nat | SlSet nat | SlSched nat | SlBack nat | SlTidy nat | SlRelP nat | SlReacq nat
  | KAcq nat | KSet nat | KLoop nat nat | KChk nat nat | KRel nat
  | XLock nat | XAcq nat | XZomb nat | XRel nat | XSched | XGone

datatype thread = Scheduler spc | Process nat ppc

record sched_st =
  s_state :: "nat \<Rightarrow> procstate"
  s_chan :: "nat \<Rightarrow> nat option"
  s_owner :: "lockid \<Rightarrow> nat option"
  s_cpu :: "nat \<Rightarrow> cpu"
  s_run :: "nat \<Rightarrow> thread"
  s_saved :: "nat \<Rightarrow> ppc"
  s_intena :: "nat \<Rightarrow> bool"
  s_flag :: "nat \<Rightarrow> bool"
  s_panicked :: bool

definition goto :: "nat \<Rightarrow> thread \<Rightarrow> sched_st \<Rightarrow> sched_st" where
  "goto h t s = s\<lparr>s_run := (s_run s)(h := t)\<rparr>"

definition set_state :: "nat \<Rightarrow> procstate \<Rightarrow> sched_st \<Rightarrow> sched_st" where
  "set_state p x s = s\<lparr>s_state := (s_state s)(p := x)\<rparr>"

definition set_chan :: "nat \<Rightarrow> nat option \<Rightarrow> sched_st \<Rightarrow> sched_st" where
  "set_chan p x s = s\<lparr>s_chan := (s_chan s)(p := x)\<rparr>"

definition set_cpu :: "nat \<Rightarrow> cpu \<Rightarrow> sched_st \<Rightarrow> sched_st" where
  "set_cpu h c s = s\<lparr>s_cpu := (s_cpu s)(h := c)\<rparr>"

definition s_proc :: "sched_st \<Rightarrow> nat \<Rightarrow> nat option" where
  "s_proc s h = c_proc (s_cpu s h)"

definition set_proc :: "nat \<Rightarrow> nat option \<Rightarrow> sched_st \<Rightarrow> sched_st" where
  "set_proc h x s = set_cpu h ((s_cpu s h)\<lparr>c_proc := x\<rparr>) s"

definition set_sie :: "nat \<Rightarrow> bool \<Rightarrow> sched_st \<Rightarrow> sched_st" where
  "set_sie h b s = set_cpu h ((s_cpu s h)\<lparr>c_sie := b\<rparr>) s"

definition sched_panic :: "sched_st \<Rightarrow> sched_st" where
  "sched_panic s = s\<lparr>s_panicked := True\<rparr>"

text \<open>\<open>acquire\<close> can proceed when the lock is free; it panics when the hart holds the lock already.\<close>

definition can_acquire :: "lockid \<Rightarrow> nat \<Rightarrow> sched_st \<Rightarrow> bool" where
  "can_acquire l h s \<longleftrightarrow> s_owner s l = None \<or> s_owner s l = Some h"

definition acquire_l :: "lockid \<Rightarrow> nat \<Rightarrow> sched_st \<Rightarrow> sched_st" where
  "acquire_l l h s =
     (if s_owner s l = Some h then sched_panic s
      else set_cpu h (push_off (s_cpu s h)) (s\<lparr>s_owner := (s_owner s)(l := Some h)\<rparr>))"

definition release_l :: "lockid \<Rightarrow> nat \<Rightarrow> sched_st \<Rightarrow> sched_st" where
  "release_l l h s =
     (if s_owner s l \<noteq> Some h then sched_panic s
      else
        (case pop_off (s_cpu s h) of
           Ok _ c \<Rightarrow> set_cpu h c (s\<lparr>s_owner := (s_owner s)(l := None)\<rparr>)
         | _ \<Rightarrow> sched_panic s))"

section \<open>Steps\<close>

text \<open>\<open>sched\<close>: the four checks, the copy of \<open>intena\<close>, and the switch to the scheduler of the hart. Behind the switch, possibly on another
  hart, \<open>sched\<close> puts \<open>intena\<close> back and returns.\<close>

definition sched_ok :: "nat \<Rightarrow> nat \<Rightarrow> sched_st \<Rightarrow> bool" where
  "sched_ok h p s \<longleftrightarrow>
     s_owner s (PLock p) = Some h \<and> c_noff (s_cpu s h) = 1 \<and> s_state s p \<noteq> RUNNING \<and> \<not> c_sie (s_cpu s h)"

definition sched :: "nat \<Rightarrow> nat \<Rightarrow> ppc \<Rightarrow> sched_st \<Rightarrow> sched_st" where
  "sched h p resume s =
     (if sched_ok h p s then
        goto h (Scheduler (SRet p))
          (s\<lparr>s_intena := (s_intena s)(p := c_intena (s_cpu s h)), s_saved := (s_saved s)(p := resume)\<rparr>)
      else sched_panic s)"

definition sched_return :: "nat \<Rightarrow> nat \<Rightarrow> sched_st \<Rightarrow> sched_st" where
  "sched_return h p s = set_cpu h ((s_cpu s h)\<lparr>c_intena := s_intena s p\<rparr>) s"

inductive scheduler_step :: "nat \<Rightarrow> sched_st \<Rightarrow> sched_st \<Rightarrow> bool" where
  again: "s_run s h = Scheduler (SAcq NPROC) \<Longrightarrow> scheduler_step h s (goto h (Scheduler (SAcq 0)) (set_sie h True s))"
| lock: "s_run s h = Scheduler (SAcq i) \<Longrightarrow> i < NPROC \<Longrightarrow> can_acquire (PLock i) h s \<Longrightarrow>
    scheduler_step h s (goto h (Scheduler (SChk i)) (acquire_l (PLock i) h s))"
| pick: "s_run s h = Scheduler (SChk i) \<Longrightarrow> s_state s i = RUNNABLE \<Longrightarrow>
    scheduler_step h s (goto h (Process i (s_saved s i)) (set_proc h (Some i) (set_state i RUNNING s)))"
| skip: "s_run s h = Scheduler (SChk i) \<Longrightarrow> s_state s i \<noteq> RUNNABLE \<Longrightarrow>
    scheduler_step h s (goto h (Scheduler (SAcq (Suc i))) (release_l (PLock i) h s))"
| back_again: "s_run s h = Scheduler (SRet i) \<Longrightarrow>
    scheduler_step h s (goto h (Scheduler (SAcq (Suc i))) (release_l (PLock i) h (set_proc h None s)))"

inductive yield_step :: "nat \<Rightarrow> sched_st \<Rightarrow> sched_st \<Rightarrow> bool" where
  lock: "s_run s h = Process p YAcq \<Longrightarrow> can_acquire (PLock p) h s \<Longrightarrow>
    yield_step h s (goto h (Process p YSet) (acquire_l (PLock p) h s))"
| runnable: "s_run s h = Process p YSet \<Longrightarrow> yield_step h s (goto h (Process p YSched) (set_state p RUNNABLE s))"
| switch: "s_run s h = Process p YSched \<Longrightarrow> yield_step h s (sched h p YBack s)"
| resume: "s_run s h = Process p YBack \<Longrightarrow> yield_step h s (goto h (Process p YRel) (sched_return h p s))"
| unlock: "s_run s h = Process p YRel \<Longrightarrow> yield_step h s (goto h (Process p Out) (release_l (PLock p) h s))"

inductive sleep_step :: "nat \<Rightarrow> sched_st \<Rightarrow> sched_st \<Rightarrow> bool" where
  lock: "s_run s h = Process p (SlAcq k) \<Longrightarrow> can_acquire (PLock p) h s \<Longrightarrow>
    sleep_step h s (goto h (Process p (SlRel k)) (acquire_l (PLock p) h s))"
| unlock_cond: "s_run s h = Process p (SlRel k) \<Longrightarrow>
    sleep_step h s (goto h (Process p (SlSet k)) (release_l (CLock k) h s))"
| asleep: "s_run s h = Process p (SlSet k) \<Longrightarrow>
    sleep_step h s (goto h (Process p (SlSched k)) (set_state p SLEEPING (set_chan p (Some k) s)))"
| switch: "s_run s h = Process p (SlSched k) \<Longrightarrow> sleep_step h s (sched h p (SlBack k) s)"
| resume: "s_run s h = Process p (SlBack k) \<Longrightarrow> sleep_step h s (goto h (Process p (SlTidy k)) (sched_return h p s))"
| tidy: "s_run s h = Process p (SlTidy k) \<Longrightarrow> sleep_step h s (goto h (Process p (SlRelP k)) (set_chan p None s))"
| unlock: "s_run s h = Process p (SlRelP k) \<Longrightarrow>
    sleep_step h s (goto h (Process p (SlReacq k)) (release_l (PLock p) h s))"
| relock: "s_run s h = Process p (SlReacq k) \<Longrightarrow> can_acquire (CLock k) h s \<Longrightarrow>
    sleep_step h s (goto h (Process p (WTest k)) (acquire_l (CLock k) h s))"

inductive wakeup_step :: "nat \<Rightarrow> sched_st \<Rightarrow> sched_st \<Rightarrow> bool" where
  self: "s_run s h = Process q (KLoop k i) \<Longrightarrow> i < NPROC \<Longrightarrow> s_proc s h = Some i \<Longrightarrow>
    wakeup_step h s (goto h (Process q (KLoop k (Suc i))) s)"
| lock: "s_run s h = Process q (KLoop k i) \<Longrightarrow> i < NPROC \<Longrightarrow> s_proc s h \<noteq> Some i \<Longrightarrow> can_acquire (PLock i) h s \<Longrightarrow>
    wakeup_step h s (goto h (Process q (KChk k i)) (acquire_l (PLock i) h s))"
| wake: "s_run s h = Process q (KChk k i) \<Longrightarrow> s_state s i = SLEEPING \<and> s_chan s i = Some k \<Longrightarrow>
    wakeup_step h s (goto h (Process q (KLoop k (Suc i))) (release_l (PLock i) h (set_state i RUNNABLE s)))"
| leave: "s_run s h = Process q (KChk k i) \<Longrightarrow> \<not> (s_state s i = SLEEPING \<and> s_chan s i = Some k) \<Longrightarrow>
    wakeup_step h s (goto h (Process q (KLoop k (Suc i))) (release_l (PLock i) h s))"
| finish: "s_run s h = Process q (KLoop k NPROC) \<Longrightarrow> wakeup_step h s (goto h (Process q (KRel k)) s)"

text \<open>\<open>exit\<close> runs \<open>wakeup\<close> with \<open>wait_lock\<close>, and goes on when the loop is done.\<close>

inductive exit_step :: "nat \<Rightarrow> sched_st \<Rightarrow> sched_st \<Rightarrow> bool" where
  lock_wait: "s_run s h = Process p (XLock k) \<Longrightarrow> can_acquire (CLock k) h s \<Longrightarrow>
    exit_step h s (goto h (Process p (KLoop k 0)) (acquire_l (CLock k) h s))"
| woken: "s_run s h = Process p (KLoop k NPROC) \<Longrightarrow> exit_step h s (goto h (Process p (XAcq k)) s)"
| lock: "s_run s h = Process p (XAcq k) \<Longrightarrow> can_acquire (PLock p) h s \<Longrightarrow>
    exit_step h s (goto h (Process p (XZomb k)) (acquire_l (PLock p) h s))"
| zombie: "s_run s h = Process p (XZomb k) \<Longrightarrow>
    exit_step h s (goto h (Process p (XRel k)) ((set_state p ZOMBIE s)\<lparr>s_flag := (s_flag s)(k := True)\<rparr>))"
| unlock_wait: "s_run s h = Process p (XRel k) \<Longrightarrow> exit_step h s (goto h (Process p XSched) (release_l (CLock k) h s))"
| switch: "s_run s h = Process p XSched \<Longrightarrow> exit_step h s (sched h p XGone s)"
| gone: "s_run s h = Process p XGone \<Longrightarrow> exit_step h s (sched_panic s)"

text \<open>The clients: what a process does outside these functions. With no lock held it may run with interrupts on or off.\<close>

inductive client_step :: "nat \<Rightarrow> sched_st \<Rightarrow> sched_st \<Rightarrow> bool" where
  interrupts: "s_run s h = Process p Out \<Longrightarrow> client_step h s (set_sie h b s)"
| exit: "s_run s h = Process p Out \<Longrightarrow> client_step h s (goto h (Process p (XLock k)) s)"
| yield: "s_run s h = Process p Out \<Longrightarrow> client_step h s (goto h (Process p YAcq) s)"
| wait: "s_run s h = Process p Out \<Longrightarrow> client_step h s (goto h (Process p (WAcq k)) s)"
| wait_lock: "s_run s h = Process p (WAcq k) \<Longrightarrow> can_acquire (CLock k) h s \<Longrightarrow>
    client_step h s (goto h (Process p (WTest k)) (acquire_l (CLock k) h s))"
| wait_go: "s_run s h = Process p (WTest k) \<Longrightarrow> s_flag s k \<Longrightarrow>
    client_step h s (goto h (Process p (WRel k)) (s\<lparr>s_flag := (s_flag s)(k := False)\<rparr>))"
| wait_sleep: "s_run s h = Process p (WTest k) \<Longrightarrow> \<not> s_flag s k \<Longrightarrow> client_step h s (goto h (Process p (SlAcq k)) s)"
| wait_unlock: "s_run s h = Process p (WRel k) \<Longrightarrow> client_step h s (goto h (Process p Out) (release_l (CLock k) h s))"
| wake: "s_run s h = Process p Out \<Longrightarrow> client_step h s (goto h (Process p (KAcq k)) s)"
| wake_lock: "s_run s h = Process p (KAcq k) \<Longrightarrow> can_acquire (CLock k) h s \<Longrightarrow>
    client_step h s (goto h (Process p (KSet k)) (acquire_l (CLock k) h s))"
| wake_set: "s_run s h = Process p (KSet k) \<Longrightarrow>
    client_step h s (goto h (Process p (KLoop k 0)) (s\<lparr>s_flag := (s_flag s)(k := True)\<rparr>))"
| wake_unlock: "s_run s h = Process p (KRel k) \<Longrightarrow> client_step h s (goto h (Process p Out) (release_l (CLock k) h s))"

inductive sys_step :: "sched_st \<Rightarrow> sched_st \<Rightarrow> bool" where
  "scheduler_step h s t \<Longrightarrow> sys_step s t"
| "yield_step h s t \<Longrightarrow> sys_step s t"
| "sleep_step h s t \<Longrightarrow> sys_step s t"
| "wakeup_step h s t \<Longrightarrow> sys_step s t"
| "client_step h s t \<Longrightarrow> sys_step s t"
| "exit_step h s t \<Longrightarrow> sys_step s t"

text \<open>At the start every hart enters its scheduler; processes that exist are runnable and resume by releasing
  their lock (\<open>forkret\<close>).\<close>

definition sched_init :: "sched_st \<Rightarrow> bool" where
  "sched_init s \<longleftrightarrow>
     (\<forall>h. s_run s h = Scheduler (SAcq NPROC) \<and> c_noff (s_cpu s h) = 0 \<and> s_proc s h = None) \<and>
     (\<forall>l. s_owner s l = None) \<and>
     (\<forall>p. s_state s p = UNUSED \<or> p < NPROC \<and> s_state s p = RUNNABLE) \<and>
     (\<forall>p. s_saved s p = YRel) \<and> \<not> s_panicked s"

inductive sched_reachable :: "sched_st \<Rightarrow> bool" where
  start: "sched_init s \<Longrightarrow> sched_reachable s"
| step: "sched_reachable s \<Longrightarrow> sys_step s t \<Longrightarrow> sched_reachable t"

section \<open>Who holds which lock\<close>

fun locks_of :: "thread \<Rightarrow> lockid set" where
  "locks_of (Scheduler (SAcq i)) = {}"
| "locks_of (Scheduler (SChk i)) = {PLock i}"
| "locks_of (Scheduler (SRet i)) = {PLock i}"
| "locks_of (Process p c) =
    (case c of
       Out \<Rightarrow> {} | YAcq \<Rightarrow> {} | YSet \<Rightarrow> {PLock p} | YSched \<Rightarrow> {PLock p} | YBack \<Rightarrow> {PLock p} | YRel \<Rightarrow> {PLock p}
     | WAcq k \<Rightarrow> {} | WTest k \<Rightarrow> {CLock k} | WRel k \<Rightarrow> {CLock k}
     | SlAcq k \<Rightarrow> {CLock k} | SlRel k \<Rightarrow> {PLock p, CLock k} | SlSet k \<Rightarrow> {PLock p} | SlSched k \<Rightarrow> {PLock p}
     | SlBack k \<Rightarrow> {PLock p} | SlTidy k \<Rightarrow> {PLock p} | SlRelP k \<Rightarrow> {PLock p} | SlReacq k \<Rightarrow> {}
     | KAcq k \<Rightarrow> {} | KSet k \<Rightarrow> {CLock k} | KLoop k i \<Rightarrow> {CLock k} | KChk k i \<Rightarrow> {PLock i, CLock k} | KRel k \<Rightarrow> {CLock k}
     | XLock k \<Rightarrow> {} | XAcq k \<Rightarrow> {CLock k} | XZomb k \<Rightarrow> {PLock p, CLock k} | XRel k \<Rightarrow> {PLock p, CLock k} | XSched \<Rightarrow> {PLock p}
     | XGone \<Rightarrow> {PLock p})"

definition locks_ok :: "sched_st \<Rightarrow> bool" where
  "locks_ok s \<longleftrightarrow> (\<forall>l h. s_owner s l = Some h \<longleftrightarrow> l \<in> locks_of (s_run s h)) \<and>
     (\<forall>h. c_noff (s_cpu s h) = int (card (locks_of (s_run s h))) \<and> (locks_of (s_run s h) \<noteq> {} \<longrightarrow> \<not> c_sie (s_cpu s h))) \<and>
     \<not> s_panicked s"

lemma finite_locks_of [simp]: "finite (locks_of t)"
  by (cases t rule: locks_of.cases) (auto split: ppc.splits)

lemma locks_once: "locks_ok s \<Longrightarrow> l \<in> locks_of (s_run s h) \<Longrightarrow> l \<in> locks_of (s_run s g) \<Longrightarrow> g = h"
  unfolding locks_ok_def by (metis option.inject)

lemma locks_ok_simps [simp]:
  "locks_ok (set_state p x s) = locks_ok s" "locks_ok (set_chan p y s) = locks_ok s"
  "locks_ok (set_proc h pr s) = locks_ok s" "locks_ok (s\<lparr>s_flag := b\<rparr>) = locks_ok s" "locks_ok (s\<lparr>s_saved := sv\<rparr>) = locks_ok s"
  "locks_ok (s\<lparr>s_intena := f\<rparr>) = locks_ok s" "locks_ok (sched_return h p s) = locks_ok s"
  by (auto simp: locks_ok_def set_state_def set_chan_def set_proc_def set_cpu_def sched_return_def)

lemma push_off_simps [simp]:
  "c_noff (push_off c) = c_noff c + 1" "\<not> c_sie (push_off c)" "c_proc (push_off c) = c_proc c"
  by (simp_all add: push_off_def Let_def)

lemma pop_off_ok:
  "\<not> c_sie c \<Longrightarrow> 0 < c_noff c \<Longrightarrow> \<exists>d. pop_off c = Ok () d \<and> c_noff d = c_noff c - 1 \<and> c_proc d = c_proc c \<and> (c_noff d \<noteq> 0 \<longrightarrow> \<not> c_sie d)"
  by (simp add: pop_off_def Let_def)

lemma pop_off_proc: "pop_off c = Ok x d \<Longrightarrow> c_proc d = c_proc c"
  by (auto simp: pop_off_def Let_def split: if_splits)

lemma field_simps_sched [simp]:
  "s_run (set_state p x s) = s_run s" "s_run (set_chan p y s) = s_run s" "s_run (acquire_l l h s) = s_run s" "s_run (release_l l h s) = s_run s"
  "s_run (goto h t s) = (s_run s)(h := t)" "s_state (goto h t s) = s_state s" "s_chan (goto h t s) = s_chan s" "s_flag (goto h t s) = s_flag s"
  "s_state (acquire_l l h s) = s_state s" "s_state (release_l l h s) = s_state s" "s_chan (acquire_l l h s) = s_chan s" "s_chan (release_l l h s) = s_chan s"
  "s_flag (acquire_l l h s) = s_flag s" "s_flag (release_l l h s) = s_flag s" "s_state (set_chan p y s) = s_state s" "s_chan (set_state p x s) = s_chan s"
  "s_flag (set_chan p y s) = s_flag s" "s_flag (set_state p x s) = s_flag s" "s_state (set_state p x s) = (s_state s)(p := x)"
  "s_chan (set_chan p y s) = (s_chan s)(p := y)" "s_proc (goto h t s) = s_proc s" "s_saved (goto h t s) = s_saved s"
  "s_proc (acquire_l l h s) = s_proc s" "s_proc (release_l l h s) = s_proc s" "s_saved (acquire_l l h s) = s_saved s" "s_saved (release_l l h s) = s_saved s"
  "s_proc (set_chan p y s) = s_proc s" "s_proc (set_state p x s) = s_proc s" "s_saved (set_chan p y s) = s_saved s" "s_saved (set_state p x s) = s_saved s"
  "s_run (set_cpu h c s) = s_run s" "s_state (set_cpu h c s) = s_state s" "s_chan (set_cpu h c s) = s_chan s" "s_flag (set_cpu h c s) = s_flag s"
  "s_saved (set_cpu h c s) = s_saved s" "s_proc (set_cpu h c s) = (s_proc s)(h := c_proc c)"
  "s_proc (s\<lparr>s_saved := sv\<rparr>) = s_proc s" "s_proc (s\<lparr>s_flag := fl\<rparr>) = s_proc s" "s_proc (s\<lparr>s_intena := ie\<rparr>) = s_proc s"
  by (auto simp: goto_def set_state_def set_chan_def acquire_l_def release_l_def sched_panic_def set_cpu_def s_proc_def fun_eq_iff
      dest!: pop_off_proc split: res.splits)

lemma field_simps_cpu [simp]:
  "s_run (set_proc h x s) = s_run s" "s_state (set_proc h x s) = s_state s" "s_chan (set_proc h x s) = s_chan s" "s_flag (set_proc h x s) = s_flag s"
  "s_saved (set_proc h x s) = s_saved s" "s_proc (set_proc h x s) = (s_proc s)(h := x)"
  "s_run (set_sie h b s) = s_run s" "s_state (set_sie h b s) = s_state s" "s_chan (set_sie h b s) = s_chan s" "s_flag (set_sie h b s) = s_flag s"
  "s_saved (set_sie h b s) = s_saved s" "s_proc (set_sie h b s) = s_proc s"
  "s_run (sched_return h p s) = s_run s" "s_state (sched_return h p s) = s_state s" "s_chan (sched_return h p s) = s_chan s"
  "s_flag (sched_return h p s) = s_flag s" "s_saved (sched_return h p s) = s_saved s" "s_proc (sched_return h p s) = s_proc s"
  by (simp_all add: set_proc_def set_sie_def sched_return_def fun_eq_iff) (simp_all add: s_proc_def)

lemma locks_acquire:
  assumes "locks_ok s" "can_acquire l h s" "l \<notin> locks_of (s_run s h)" "locks_of t = insert l (locks_of (s_run s h))"
  shows "locks_ok (goto h t (acquire_l l h s))"
proof -
  have "s_owner s l = None" using assms(1-3) unfolding can_acquire_def locks_ok_def by blast
  moreover from this have "\<forall>g. l \<notin> locks_of (s_run s g)" using assms(1) unfolding locks_ok_def by (metis option.distinct(1))
  ultimately show ?thesis using assms by (auto simp: locks_ok_def goto_def acquire_l_def set_cpu_def)
qed

lemma locks_release:
  assumes "locks_ok s" "l \<in> locks_of (s_run s h)" "locks_of t = locks_of (s_run s h) - {l}"
  shows "locks_ok (goto h t (release_l l h s))"
proof -
  have "s_owner s l = Some h" using assms(1,2) by (simp add: locks_ok_def)
  moreover have "\<forall>g. g \<noteq> h \<longrightarrow> l \<notin> locks_of (s_run s g)" using locks_once [OF assms(1,2)] by blast
  moreover have c: "0 < card (locks_of (s_run s h))" using assms(2) by (auto simp: card_gt_0_iff)
  have "\<not> c_sie (s_cpu s h)" "c_noff (s_cpu s h) = int (card (locks_of (s_run s h)))" using assms(1,2) by (auto simp: locks_ok_def)
  then obtain d where d: "pop_off (s_cpu s h) = Ok () d" "c_noff d = int (card (locks_of (s_run s h))) - 1" "c_noff d \<noteq> 0 \<Longrightarrow> \<not> c_sie d"
    using pop_off_ok [of "s_cpu s h"] c by auto
  have n: "card (locks_of t) = card (locks_of (s_run s h)) - 1" using assms(2,3) by (simp add: card_Diff_singleton)
  have "\<not> c_sie d" if "locks_of t \<noteq> {}"
  proof -
    have "card (locks_of t) \<noteq> 0" using that by simp
    then show ?thesis using d(2,3) n by simp
  qed
  moreover have "c_noff d = int (card (locks_of t))" using d(2) n c by simp
  ultimately show ?thesis using assms d(1) by (auto simp: locks_ok_def goto_def release_l_def set_cpu_def)
qed

lemma locks_sie: "locks_ok s \<Longrightarrow> locks_of (s_run s h) = {} \<Longrightarrow> locks_ok (set_sie h b s)"
  by (auto simp: locks_ok_def set_sie_def set_cpu_def)

lemma locks_keep: "locks_ok s \<Longrightarrow> locks_of t = locks_of (s_run s h) \<Longrightarrow> locks_ok (goto h t s)"
  by (auto simp: locks_ok_def goto_def)

section \<open>Where a process runs\<close>

text \<open>The state of a process that is running on a hart, by its program counter.\<close>

fun run_state :: "ppc \<Rightarrow> procstate" where
  "run_state YSched = RUNNABLE"
| "run_state (SlSched k) = SLEEPING"
| "run_state (XRel k) = ZOMBIE"
| "run_state XSched = ZOMBIE"
| "run_state c = RUNNING"

fun occupies :: "thread \<Rightarrow> nat \<Rightarrow> bool" where
  "occupies (Process q c) p \<longleftrightarrow> q = p"
| "occupies (Scheduler (SRet q)) p \<longleftrightarrow> q = p"
| "occupies (Scheduler _) p \<longleftrightarrow> False"

fun resumes :: "ppc \<Rightarrow> bool" where
  "resumes YRel \<longleftrightarrow> True"
| "resumes YBack \<longleftrightarrow> True"
| "resumes (SlBack k) \<longleftrightarrow> True"
| "resumes XGone \<longleftrightarrow> True"
| "resumes _ \<longleftrightarrow> False"

lemma resumesD: "resumes c \<Longrightarrow> run_state c = RUNNING \<and> locks_of (Process p c) = {PLock p} \<and> (\<forall>k. c \<noteq> SlSet k)"
  by (cases c) auto

definition procs_ok :: "sched_st \<Rightarrow> bool" where
  "procs_ok s \<longleftrightarrow>
     (\<forall>h p. s_proc s h = Some p \<longleftrightarrow> occupies (s_run s h) p) \<and>
     (\<forall>h g p. occupies (s_run s h) p \<longrightarrow> occupies (s_run s g) p \<longrightarrow> h = g) \<and>
     (\<forall>h p c. s_run s h = Process p c \<longrightarrow> s_state s p = run_state c) \<and>
     (\<forall>h p. s_run s h = Scheduler (SRet p) \<longrightarrow> s_state s p \<noteq> RUNNING) \<and>
     (\<forall>p. resumes (s_saved s p)) \<and>
     (\<forall>p. NPROC \<le> p \<longrightarrow> s_state s p = UNUSED) \<and>
     (\<forall>p. s_state s p = RUNNING \<longrightarrow> (\<exists>h. occupies (s_run s h) p)) \<and>
     (\<forall>p. s_saved s p = XGone \<longrightarrow> s_state s p = ZOMBIE) \<and>
     (\<forall>h p. s_run s h \<noteq> Process p XGone)"

lemma procs_okD:
  assumes "procs_ok s"
  shows "s_proc s h = Some p \<longleftrightarrow> occupies (s_run s h) p"
    "occupies (s_run s h) p \<Longrightarrow> occupies (s_run s g) p \<Longrightarrow> h = g"
    "s_run s h = Process p c \<Longrightarrow> s_state s p = run_state c"
    "s_run s h = Scheduler (SRet p) \<Longrightarrow> s_state s p \<noteq> RUNNING"
    "resumes (s_saved s p)"
    "NPROC \<le> p \<Longrightarrow> s_state s p = UNUSED"
    "s_state s p = RUNNING \<Longrightarrow> \<exists>h. occupies (s_run s h) p"
    "s_saved s p = XGone \<Longrightarrow> s_state s p = ZOMBIE"
    "s_run s h \<noteq> Process p XGone"
  using assms unfolding procs_ok_def by blast+

lemma procs_ok_simps [simp]:
  "procs_ok (acquire_l l h s) = procs_ok s" "procs_ok (release_l l h s) = procs_ok s"
  "procs_ok (set_chan p y s) = procs_ok s" "procs_ok (s\<lparr>s_flag := b\<rparr>) = procs_ok s"
  "procs_ok (set_sie h x s) = procs_ok s"
  by (simp_all add: procs_ok_def)

lemma procs_goto_acquire [simp]:
  "procs_ok (goto h t (acquire_l l g s)) = procs_ok (goto h t s)" "procs_ok (goto h t (release_l l g s)) = procs_ok (goto h t s)"
  "procs_ok (goto h t (set_chan p y s)) = procs_ok (goto h t s)" "procs_ok (goto h t (s\<lparr>s_flag := b\<rparr>)) = procs_ok (goto h t s)"
  "procs_ok (goto h t (set_sie g x s)) = procs_ok (goto h t s)" "procs_ok (goto h t (sched_return g q s)) = procs_ok (goto h t s)"
  by (simp_all add: procs_ok_def)

lemma procs_move:
  assumes "procs_ok s" "s_run s h = Process p c" "run_state d = run_state c" "d \<noteq> XGone"
  shows "procs_ok (goto h (Process p d) s)"
proof -
  have o: "occupies (((s_run s)(h := Process p d)) g) q = occupies (s_run s g) q" for g q using assms(2) by simp
  show ?thesis unfolding procs_ok_def field_simps_sched o
    using procs_okD [OF assms(1)] assms(2,3,4) by (auto split: if_splits)
qed

lemma procs_scan:
  assumes "procs_ok s" "s_run s h = Scheduler (SAcq i) \<or> s_run s h = Scheduler (SChk i)" "t = SAcq j \<or> t = SChk j"
  shows "procs_ok (goto h (Scheduler t) s)"
proof -
  have o: "occupies (((s_run s)(h := Scheduler t)) g) q = occupies (s_run s g) q" for g q using assms(2,3) by auto
  show ?thesis unfolding procs_ok_def field_simps_sched o
    using procs_okD [OF assms(1)] assms(2,3) by (auto split: if_splits)
qed

text \<open>A process changes its own state on the way to \<open>sched\<close>.\<close>

lemma procs_set:
  assumes "procs_ok s" "s_run s h = Process p c" "run_state c = RUNNING" "run_state d = x" "x \<noteq> RUNNING" "p < NPROC"
  shows "procs_ok (goto h (Process p d) (set_state p x s))"
proof -
  have o: "occupies (((s_run s)(h := Process p d)) g) q = occupies (s_run s g) q" for g q using assms(2) by simp
  have x: "s_saved s p \<noteq> XGone" using procs_okD(8) [OF assms(1), of p] procs_okD(3) [OF assms(1,2)] assms(3) by auto
  have other: "s_run s g = Process p e \<Longrightarrow> g = h" "s_run s g \<noteq> Scheduler (SRet p)" for g e
    using procs_okD(2) [OF assms(1), of h p g] assms(2) by auto
  show ?thesis unfolding procs_ok_def field_simps_sched o
    using procs_okD [OF assms(1)] assms(2-) other x by (auto split: if_splits)
qed

lemma procs_switch:
  assumes "procs_ok s" "s_run s h = Process p c" "s_state s p \<noteq> RUNNING" "resumes r" "r = XGone \<Longrightarrow> s_state s p = ZOMBIE"
  shows "procs_ok (goto h (Scheduler (SRet p)) (s\<lparr>s_intena := ie, s_saved := (s_saved s)(p := r)\<rparr>))"
proof -
  have o: "occupies (((s_run s)(h := Scheduler (SRet p))) g) q = occupies (s_run s g) q" for g q using assms(2) by simp
  show ?thesis unfolding procs_ok_def field_simps_sched
    using procs_okD [OF assms(1)] assms(2-) o by (auto split: if_splits)
qed

text \<open>Whoever is on a hart with a state other than \<open>RUNNING\<close> holds the lock of the process.\<close>

lemma occupant_locks:
  assumes "procs_ok s" "occupies (s_run s g) p" "s_state s p \<noteq> RUNNING"
  shows "PLock p \<in> locks_of (s_run s g)"
proof (cases "s_run s g")
  case (Scheduler x)
  then show ?thesis using assms(2) by (cases x) auto
next
  case (Process q c)
  then show ?thesis using assms procs_okD(3) [OF assms(1) Process] by (cases c) auto
qed

lemma procs_pick:
  assumes "procs_ok s" "locks_ok s" "s_run s h = Scheduler (SChk i)" "s_state s i = RUNNABLE"
  shows "procs_ok (goto h (Process i (s_saved s i)) (set_proc h (Some i) (set_state i RUNNING s)))"
proof -
  have no: "\<not> occupies (s_run s g) i" for g
  proof
    assume o: "occupies (s_run s g) i"
    then have "PLock i \<in> locks_of (s_run s g)" using occupant_locks [OF assms(1)] assms(4) by simp
    then have "g = h" using locks_once [OF assms(2), of "PLock i" h g] assms(3) by simp
    then show False using o assms(3) by simp
  qed
  have o: "occupies (((s_run s)(h := Process i (s_saved s i))) g) q = (if g = h then q = i else occupies (s_run s g) q)" for g q
    by auto
  have x: "s_saved s i \<noteq> XGone" using procs_okD(8) [OF assms(1), of i] assms(4) by auto
  have r: "run_state (s_saved s i) = RUNNING" using resumesD [OF procs_okD(5) [OF assms(1)]] by simp
  have "i < NPROC" using procs_okD(6) [OF assms(1), of i] assms(4) by (cases "NPROC \<le> i") auto
  moreover have "\<not> occupies (s_run s h) q" for q using assms(3) by simp
  moreover have "s_run s g \<noteq> Process i c" "s_run s g \<noteq> Scheduler (SRet i)" for g c using no [of g] by auto
  moreover have busy: "\<exists>g. g \<noteq> h \<and> occupies (s_run s g) p" if "s_state s p = RUNNING" for p
    using procs_okD(7) [OF assms(1) that] assms(3) by (metis occupies.simps(4))
  ultimately show ?thesis
    using procs_okD(1-6,8,9) [OF assms(1)] no r x unfolding procs_ok_def by (auto simp: o split: if_splits) (drule busy, blast)
qed

lemma procs_return:
  assumes "procs_ok s" "s_run s h = Scheduler (SRet i)"
  shows "procs_ok (goto h (Scheduler (SAcq j)) (set_proc h None s))"
proof -
  have o: "occupies (((s_run s)(h := Scheduler (SAcq j))) g) q = (g \<noteq> h \<and> occupies (s_run s g) q)" for g q by simp
  have "s_state s i \<noteq> RUNNING" using procs_okD(4) [OF assms] by auto
  moreover have "occupies (s_run s h) q \<longleftrightarrow> q = i" for q using assms(2) by auto
  ultimately show ?thesis
    using procs_okD [OF assms(1)] unfolding procs_ok_def by (auto simp: o split: if_splits) metis
qed

lemma procs_wake:
  assumes "procs_ok s" "locks_ok s" "s_run s h = Process q (KChk k i)" "s_state s i = SLEEPING"
  shows "procs_ok (goto h (Process q (KLoop k j)) (set_state i RUNNABLE s))"
proof -
  have o: "occupies (((s_run s)(h := Process q (KLoop k j))) g) p = occupies (s_run s g) p" for g p using assms(3) by simp
  have no: "s_run s g \<noteq> Process i c" for g c
  proof
    assume g: "s_run s g = Process i c"
    then have "PLock i \<in> locks_of (s_run s g)" using occupant_locks [OF assms(1), of g i] assms(4) by simp
    then have "g = h" using locks_once [OF assms(2), of "PLock i" h g] assms(3) by simp
    then show False using g assms(3,4) procs_okD(3) [OF assms(1,3)] by auto
  qed
  have "i < NPROC" using procs_okD(6) [OF assms(1), of i] assms(4) by (cases "NPROC \<le> i") auto
  then show ?thesis unfolding procs_ok_def field_simps_sched o
    using procs_okD [OF assms(1)] assms(3,4) no by (auto split: if_splits)
qed

lemma process_exists:
  assumes "procs_ok s" "s_run s h = Process p c"
  shows "p < NPROC"
proof (rule ccontr)
  assume "\<not> p < NPROC"
  then have "run_state c = UNUSED" using procs_okD(3) [OF assms] procs_okD(6) [OF assms(1), of p] by simp
  then show False by (cases c) auto
qed

section \<open>Every step keeps both\<close>

lemma sched_switches:
  assumes "locks_ok s" "procs_ok s" "s_run s h = Process p c" "locks_of (s_run s h) = {PLock p}" "run_state c \<noteq> RUNNING"
    "resumes r" "r = XGone \<Longrightarrow> run_state c = ZOMBIE"
  shows "sched h p r s = goto h (Scheduler (SRet p)) (s\<lparr>s_intena := (s_intena s)(p := c_intena (s_cpu s h)), s_saved := (s_saved s)(p := r)\<rparr>)" "locks_ok (sched h p r s)" "procs_ok (sched h p r s)"
proof -
  have "sched_ok h p s" using assms(1,4,5) procs_okD(3) [OF assms(2,3)] by (simp add: sched_ok_def locks_ok_def)
  then show e: "sched h p r s = goto h (Scheduler (SRet p)) (s\<lparr>s_intena := (s_intena s)(p := c_intena (s_cpu s h)), s_saved := (s_saved s)(p := r)\<rparr>)" by (simp add: sched_def)
  show "locks_ok (sched h p r s)" unfolding e using assms(1,4) by (intro locks_keep) auto
  show "procs_ok (sched h p r s)" unfolding e using assms(2,3,5,6,7) procs_okD(3) [OF assms(2,3)] by (intro procs_switch) auto
qed

lemma scheduler_keeps:
  assumes "scheduler_step h s t" "locks_ok s" "procs_ok s"
  shows "locks_ok t \<and> procs_ok t"
  using assms
proof cases
  case (pick i)
  have "locks_of (Process i (s_saved s i)) = {PLock i}" using resumesD [OF procs_okD(5) [OF assms(3)]] by blast
  then have "locks_of (Process i (s_saved s i)) = locks_of (s_run s h)" using pick(2) by (simp only: locks_of.simps)
  then show ?thesis using procs_pick [OF assms(3,2) pick(2,3)] assms(2) unfolding pick(1) by (intro conjI locks_keep) simp_all
next
  case again
  then show ?thesis using assms(2,3) by (auto intro!: locks_keep procs_scan locks_sie)
next
  case (back_again i)
  then have "PLock i \<in> locks_of (s_run s h)" "locks_of (Scheduler (SAcq (Suc i))) = locks_of (s_run s h) - {PLock i}" by simp_all
  then show ?thesis using procs_return [OF assms(3) back_again(2)] assms(2) unfolding back_again(1)
    by (intro conjI locks_release) (simp_all del: locks_of.simps)
qed (auto simp: locks_keep locks_acquire locks_release intro: procs_scan)

lemma yield_keeps:
  assumes "yield_step h s t" "locks_ok s" "procs_ok s"
  shows "locks_ok t \<and> procs_ok t"
  using assms
proof cases
  case (switch p)
  then show ?thesis using sched_switches(2,3) [OF assms(2,3), of h p YSched YBack] by simp
next
  case (runnable p)
  then show ?thesis using assms(2,3) process_exists [OF assms(3)] by (auto intro!: locks_keep procs_set)
qed (auto simp: locks_keep locks_acquire locks_release insert_Diff_if intro: procs_move)

lemma sleep_keeps:
  assumes "sleep_step h s t" "locks_ok s" "procs_ok s"
  shows "locks_ok t \<and> procs_ok t"
  using assms
proof cases
  case (switch p k)
  then show ?thesis using sched_switches(2,3) [OF assms(2,3), of h p "SlSched k" "SlBack k"] by simp
next
  case (asleep p k)
  then show ?thesis using assms(2,3) process_exists [OF assms(3)]
    by (auto intro!: locks_keep procs_set [of "set_chan p (Some k) s" for p k])
qed (auto simp: locks_keep locks_acquire locks_release insert_Diff_if intro: procs_move)

lemma wakeup_keeps:
  assumes "wakeup_step h s t" "locks_ok s" "procs_ok s"
  shows "locks_ok t \<and> procs_ok t"
  using assms
proof cases
  case (lock q k i)
  have "PLock i \<notin> locks_of (s_run s h)" using lock by auto
  then show ?thesis using lock assms(2,3) by (auto simp: locks_acquire intro: procs_move)
next
  case (wake q k i)
  then show ?thesis using assms(2,3) procs_wake [OF assms(3,2)] by (auto simp: locks_release insert_Diff_if)
qed (auto simp: locks_keep locks_release insert_Diff_if intro: procs_move)

lemma exit_keeps:
  assumes "exit_step h s t" "locks_ok s" "procs_ok s"
  shows "locks_ok t \<and> procs_ok t"
  using assms
proof cases
  case (switch p)
  then show ?thesis using sched_switches(2,3) [OF assms(2,3), of h p XSched XGone] by simp
next
  case (zombie p k)
  then show ?thesis using assms(2,3) process_exists [OF assms(3)] by (auto intro!: locks_keep procs_set)
next
  case (gone p)
  then show ?thesis using procs_okD(9) [OF assms(3)] by blast
qed (auto simp: locks_keep locks_acquire locks_release insert_Diff_if intro: procs_move)

lemma client_keeps:
  assumes "client_step h s t" "locks_ok s" "procs_ok s"
  shows "locks_ok t \<and> procs_ok t"
  using assms by cases (auto simp: locks_sie locks_keep locks_acquire locks_release insert_Diff_if intro: procs_move)

lemma step_keeps: "sys_step s t \<Longrightarrow> locks_ok s \<Longrightarrow> procs_ok s \<Longrightarrow> locks_ok t \<and> procs_ok t"
  by (induction rule: sys_step.induct) (blast dest: scheduler_keeps yield_keeps sleep_keeps wakeup_keeps client_keeps exit_keeps)+

lemma init_ok: "sched_init s \<Longrightarrow> locks_ok s \<and> procs_ok s"
proof -
  assume i: "sched_init s"
  then have "s_state s p = UNUSED \<or> s_state s p = RUNNABLE" for p unfolding sched_init_def by blast
  then have "s_state s p \<noteq> RUNNING" for p by (metis procstate.distinct)
  then show "locks_ok s \<and> procs_ok s" using i by (auto simp: sched_init_def locks_ok_def procs_ok_def not_less [symmetric])
qed

lemma reachable_ok: "sched_reachable s \<Longrightarrow> locks_ok s \<and> procs_ok s"
  by (induction rule: sched_reachable.induct) (blast dest: init_ok step_keeps)+

section \<open>Nobody sleeps through a wakeup\<close>

text \<open>A process waits for condition \<open>k\<close> once it has given up the lock of the condition. While the condition holds, some process is still
  in the loop of \<open>wakeup\<close>, in front of the waiting process.\<close>

definition waits :: "sched_st \<Rightarrow> nat \<Rightarrow> nat \<Rightarrow> bool" where
  "waits s p k \<longleftrightarrow> s_state s p = SLEEPING \<and> s_chan s p = Some k \<or> (\<exists>h. s_run s h = Process p (SlSet k))"

fun waking :: "thread \<Rightarrow> nat \<Rightarrow> nat \<Rightarrow> bool" where
  "waking (Process q (KLoop k' i)) k p \<longleftrightarrow> k' = k \<and> i \<le> p"
| "waking (Process q (KChk k' i)) k p \<longleftrightarrow> k' = k \<and> i \<le> p"
| "waking _ k p \<longleftrightarrow> False"

fun falling_asleep :: "thread \<Rightarrow> nat \<Rightarrow> bool" where
  "falling_asleep (Process p (SlAcq k')) k \<longleftrightarrow> k' = k"
| "falling_asleep (Process p (SlRel k')) k \<longleftrightarrow> k' = k"
| "falling_asleep _ k \<longleftrightarrow> False"

definition wake_ok :: "sched_st \<Rightarrow> bool" where
  "wake_ok s \<longleftrightarrow> (\<forall>h k. falling_asleep (s_run s h) k \<longrightarrow> \<not> s_flag s k) \<and>
     (\<forall>p k. waits s p k \<longrightarrow> s_flag s k \<longrightarrow> (\<exists>h. waking (s_run s h) k p))"

text \<open>Steps that wake nobody and send nobody to sleep.\<close>

lemma wake_move:
  assumes "wake_ok s" "s_run t = (s_run s)(h := T)" "\<And>k. s_flag t k \<Longrightarrow> s_flag s k"
    "\<And>p k. waits t p k \<Longrightarrow> s_flag t k \<Longrightarrow> waits s p k" "\<And>k. falling_asleep T k \<Longrightarrow> \<not> s_flag t k"
    "\<And>k p. waking (s_run s h) k p \<Longrightarrow> waits t p k \<Longrightarrow> s_flag t k \<Longrightarrow> waking T k p"
  shows "wake_ok t"
proof -
  have "\<exists>g. waking (s_run t g) k p" if w: "waits t p k" "s_flag t k" for p k
  proof -
    obtain g where g: "waking (s_run s g) k p" using assms(1,3,4) w unfolding wake_ok_def by blast
    show ?thesis
    proof (cases "g = h")
      case True
      then have "waking T k p" using assms(6) w g by blast
      then show ?thesis using assms(2) by (intro exI [of _ h]) simp
    next
      case False
      then show ?thesis using assms(2) g by (intro exI [of _ g]) simp
    qed
  qed
  moreover have "\<not> s_flag t k" if "falling_asleep (s_run t g) k" for g k
    using that assms(1,2,3,5) unfolding wake_ok_def by (cases "g = h") auto
  ultimately show ?thesis unfolding wake_ok_def by blast
qed

lemma waits_goto:
  assumes "s_run t = (s_run s)(h := T)" "\<And>p k. T \<noteq> Process p (SlSet k)"
    "\<And>p. s_state t p = SLEEPING \<Longrightarrow> s_state s p = SLEEPING \<and> s_chan t p = s_chan s p"
  shows "waits t p k \<Longrightarrow> waits s p k"
  using assms(2,3) unfolding waits_def assms(1) by (auto split: if_splits)

lemma scheduler_wakes:
  assumes "scheduler_step h s t" "wake_ok s" "procs_ok s"
  shows "wake_ok t"
proof -
  have "\<exists>T. s_run t = (s_run s)(h := T) \<and> (\<forall>p k. T \<noteq> Process p (SlSet k)) \<and> (\<forall>k. \<not> falling_asleep T k) \<and>
      (\<forall>k p. \<not> waking (s_run s h) k p) \<and> s_flag t = s_flag s \<and> s_chan t = s_chan s \<and>
      (\<forall>p. s_state t p = SLEEPING \<longrightarrow> s_state s p = SLEEPING)"
    using assms(1)
  proof cases
    case (pick i)
    then show ?thesis using procs_okD(5) [OF assms(3), of i] by (cases "s_saved s i") auto
  qed auto
  then obtain T where T: "s_run t = (s_run s)(h := T)" "\<And>p k. T \<noteq> Process p (SlSet k)" "\<And>k. \<not> falling_asleep T k"
    "\<And>k p. \<not> waking (s_run s h) k p" "s_flag t = s_flag s" "s_chan t = s_chan s" "\<And>p. s_state t p = SLEEPING \<Longrightarrow> s_state s p = SLEEPING" by blast
  show ?thesis using T by (intro wake_move [OF assms(2) T(1)] waits_goto [OF T(1)]) auto
qed

lemma yield_wakes:
  assumes "yield_step h s t" "wake_ok s" "locks_ok s" "procs_ok s"
  shows "wake_ok t"
proof -
  have "\<exists>T. s_run t = (s_run s)(h := T) \<and> (\<forall>p k. T \<noteq> Process p (SlSet k)) \<and> (\<forall>k. \<not> falling_asleep T k) \<and>
      (\<forall>k p. \<not> waking (s_run s h) k p) \<and> s_flag t = s_flag s \<and> s_chan t = s_chan s \<and>
      (\<forall>p. s_state t p = SLEEPING \<longrightarrow> s_state s p = SLEEPING)"
    using assms(1)
  proof cases
    case (switch p)
    then show ?thesis using sched_switches(1) [OF assms(3,4), of h p YSched YBack] by auto
  qed auto
  then obtain T where T: "s_run t = (s_run s)(h := T)" "\<And>p k. T \<noteq> Process p (SlSet k)" "\<And>k. \<not> falling_asleep T k"
    "\<And>k p. \<not> waking (s_run s h) k p" "s_flag t = s_flag s" "s_chan t = s_chan s" "\<And>p. s_state t p = SLEEPING \<Longrightarrow> s_state s p = SLEEPING" by blast
  show ?thesis using T by (intro wake_move [OF assms(2) T(1)] waits_goto [OF T(1)]) auto
qed

lemma sleep_wakes:
  assumes "sleep_step h s t" "wake_ok s" "locks_ok s" "procs_ok s"
  shows "wake_ok t"
  using assms(1)
proof cases
  case (lock p k)
  have "\<not> s_flag s k" using assms(2) lock(2) unfolding wake_ok_def by (metis falling_asleep.simps(1))
  then show ?thesis using lock by (intro wake_move [OF assms(2), of t h "Process p (SlRel k)"]) (auto simp: waits_def split: if_splits)
next
  case (unlock_cond p k)
  have "\<not> s_flag s k" using assms(2) unlock_cond(2) unfolding wake_ok_def by (metis falling_asleep.simps(2))
  then show ?thesis using unlock_cond
    by (intro wake_move [OF assms(2), of t h "Process p (SlSet k)"]) (auto simp: waits_def split: if_splits)
next
  case (asleep p k)
  then show ?thesis by (intro wake_move [OF assms(2), of t h "Process p (SlSched k)"]) (auto simp: waits_def split: if_splits)
next
  case (switch p k)
  then show ?thesis using sched_switches(1) [OF assms(3,4), of h p "SlSched k" "SlBack k"]
    by (intro wake_move [OF assms(2), of t h "Scheduler (SRet p)"]) (auto simp: waits_def split: if_splits)
next
  case (resume p k)
  then show ?thesis by (intro wake_move [OF assms(2), of t h "Process p (SlTidy k)"]) (auto simp: waits_def split: if_splits)
next
  case (tidy p k)
  then show ?thesis by (intro wake_move [OF assms(2), of t h "Process p (SlRelP k)"]) (auto simp: waits_def split: if_splits)
next
  case (unlock p k)
  then show ?thesis by (intro wake_move [OF assms(2), of t h "Process p (SlReacq k)"]) (auto simp: waits_def split: if_splits)
next
  case (relock p k)
  then show ?thesis by (intro wake_move [OF assms(2), of t h "Process p (WTest k)"]) (auto simp: waits_def split: if_splits)
qed

text \<open>The process that \<open>wakeup\<close> has locked is not on its way into \<open>sleep\<close> on another hart.\<close>

lemma locked_not_falling:
  assumes "locks_ok s" "s_run s h = Process q (KChk k i)"
  shows "s_run s g \<noteq> Process i (SlSet k')"
proof
  assume g: "s_run s g = Process i (SlSet k')"
  then have "g = h" using locks_once [OF assms(1), of "PLock i" h g] assms(2) by simp
  then show False using g assms(2) by simp
qed

lemma waits_exists: "procs_ok s \<Longrightarrow> waits s p k \<Longrightarrow> p < NPROC"
  unfolding waits_def using process_exists [of s] procs_okD(6) [of s p] by (metis leI procstate.distinct(3))

lemma wakeup_wakes:
  assumes "wakeup_step h s t" "wake_ok s" "locks_ok s" "procs_ok s"
  shows "wake_ok t"
  using assms(1)
proof cases
  case (self q k i)
  have q: "q = i" using self(2,4) procs_okD(1) [OF assms(4), of h i] by simp
  then have "s_run s g \<noteq> Process i (SlSet k')" for g k' using procs_okD(2) [OF assms(4), of h i g] self(2) by auto
  then have "\<not> waits s i k'" for k' using procs_okD(3) [OF assms(4) self(2)] q unfolding waits_def by auto
  then show ?thesis using self
    by (intro wake_move [OF assms(2), of t h "Process q (KLoop k (Suc i))"]) (auto simp: waits_def Suc_le_eq le_less split: if_splits)
next
  case (lock q k i)
  then show ?thesis by (intro wake_move [OF assms(2), of t h "Process q (KChk k i)"]) (auto simp: waits_def split: if_splits)
next
  case (wake q k i)
  have n: "\<not> waits t i k'" for k' using wake locked_not_falling [OF assms(3) wake(2)] by (auto simp: waits_def split: if_splits)
  have "waits s p k'" if "waits t p k'" for p k' using that wake by (auto simp: waits_def split: if_splits)
  then show ?thesis using wake(1,2) n
    by (intro wake_move [OF assms(2), of t h "Process q (KLoop k (Suc i))"]) (auto simp: Suc_le_eq le_less)
next
  case (leave q k i)
  have n: "\<not> waits t i k" using leave locked_not_falling [OF assms(3) leave(2)] by (auto simp: waits_def split: if_splits)
  have "waits s p k'" if "waits t p k'" for p k' using that leave by (auto simp: waits_def split: if_splits)
  then show ?thesis using leave(1,2) n
    by (intro wake_move [OF assms(2), of t h "Process q (KLoop k (Suc i))"]) (auto simp: Suc_le_eq le_less)
next
  case (finish q k)
  have w: "waits s p k'" if "waits t p k'" for p k' using that finish by (auto simp: waits_def split: if_splits)
  then have "waits t p k' \<Longrightarrow> p < NPROC" for p k' using waits_exists [OF assms(4)] by blast
  then show ?thesis using finish w
    by (intro wake_move [OF assms(2), of t h "Process q (KRel k)"]) (auto simp: not_le [symmetric])
qed

lemma wake_rise:
  assumes "wake_ok s" "s_run t = (s_run s)(h := T)" "s_flag t = (s_flag s)(k := True)" "\<And>g. \<not> falling_asleep (s_run s g) k"
    "\<And>p. waits t p k \<Longrightarrow> waking T k p" "\<And>k. \<not> falling_asleep T k" "\<And>p k. waits t p k \<Longrightarrow> waits s p k" "\<And>k p. \<not> waking (s_run s h) k p"
  shows "wake_ok t"
proof -
  have "\<exists>g. waking (s_run t g) k' p" if w: "waits t p k'" "s_flag t k'" for p k'
  proof (cases "k' = k")
    case True
    then show ?thesis using assms(2,5) w by (intro exI [of _ h]) simp
  next
    case False
    then obtain g where g: "waking (s_run s g) k' p" using assms(1,3,7) w unfolding wake_ok_def by auto blast
    then have "g \<noteq> h" using assms(8) by auto
    then show ?thesis using g assms(2) by (intro exI [of _ g]) simp
  qed
  moreover have "\<not> s_flag t k'" if "falling_asleep (s_run t g) k'" for g k'
    using that assms(1-4,6) unfolding wake_ok_def by (cases "g = h"; cases "k' = k") auto
  ultimately show ?thesis unfolding wake_ok_def by blast
qed

text \<open>The lock of a condition keeps the others from going to sleep on it.\<close>

lemma clock_not_falling:
  assumes "locks_ok s" "CLock k \<in> locks_of (s_run s h)" "\<not> falling_asleep (s_run s h) k"
  shows "\<not> falling_asleep (s_run s g) k"
proof
  assume f: "falling_asleep (s_run s g) k"
  then have "CLock k \<in> locks_of (s_run s g)" by (cases "(s_run s g, k)" rule: falling_asleep.cases) auto
  then have "g = h" using locks_once [OF assms(1,2)] by simp
  then show False using f assms(3) by simp
qed

lemma client_wakes:
  assumes "client_step h s t" "wake_ok s" "locks_ok s"
  shows "wake_ok t"
  using assms(1)
proof cases
  case (wake_set p k)
  have "\<not> falling_asleep (s_run s g) k" for g by (rule clock_not_falling [OF assms(3), of k h]) (simp_all add: wake_set(2))
  moreover have "waking (s_run t h) k p'" for p' using wake_set(1) by simp
  moreover have "waits s p' k'" if "waits t p' k'" for p' k' using that wake_set(1) by (auto simp: waits_def split: if_splits)
  moreover have "\<not> waking (s_run s h) k' p'" for k' p' using wake_set(2) by simp
  ultimately show ?thesis using wake_set(1) assms(2) wake_rise [of s t h "Process p (KLoop k 0)" k] by simp
next
  case (wait_go p k)
  then show ?thesis by (intro wake_move [OF assms(2), of t h "Process p (WRel k)"]) (auto simp: waits_def split: if_splits)
next
  case (wait_sleep p k)
  then show ?thesis by (intro wake_move [OF assms(2), of t h "Process p (SlAcq k)"]) (auto simp: waits_def split: if_splits)
next
  case (interrupts p b)
  then show ?thesis by (intro wake_move [OF assms(2), of t h "Process p Out"]) (auto simp: waits_def)
qed (auto intro!: wake_move [OF assms(2), of _ h] simp: waits_def split: if_splits)

text \<open>The processes that the loop of \<open>wakeup\<close> has passed do not wait any more, up to the release of the lock of the condition; \<open>exit\<close> relies
  on it, since it makes the condition true behind the loop.\<close>

fun swept :: "thread \<Rightarrow> (nat \<times> nat) option" where
  "swept (Process q (KLoop k i)) = Some (k, i)"
| "swept (Process q (KChk k i)) = Some (k, i)"
| "swept (Process q (XAcq k)) = Some (k, NPROC)"
| "swept (Process q (XZomb k)) = Some (k, NPROC)"
| "swept _ = None"

definition sweep_ok :: "sched_st \<Rightarrow> bool" where
  "sweep_ok s \<longleftrightarrow> (\<forall>h k i p. swept (s_run s h) = Some (k, i) \<longrightarrow> p < i \<longrightarrow> \<not> waits s p k)"

lemma swept_holds: "swept T = Some (k, i) \<Longrightarrow> CLock k \<in> locks_of T"
  by (cases T rule: swept.cases) auto

lemma sweep_move:
  assumes "sweep_ok s" "locks_ok s" "s_run t = (s_run s)(h := T)"
    "\<And>p k. waits t p k \<Longrightarrow> waits s p k \<or> CLock k \<in> locks_of (s_run s h) \<and> swept (s_run s h) = None"
    "\<And>k i p. swept T = Some (k, i) \<Longrightarrow> p < i \<Longrightarrow> \<not> waits t p k"
  shows "sweep_ok t"
  unfolding sweep_ok_def
proof (intro allI impI)
  fix g k i p assume g: "swept (s_run t g) = Some (k, i)" "p < i"
  show "\<not> waits t p k"
  proof (cases "g = h")
    case True
    then show ?thesis using g assms(3,5) by simp
  next
    case False
    then have sg: "swept (s_run s g) = Some (k, i)" using g(1) assms(3) by simp
    then have "CLock k \<notin> locks_of (s_run s h)" using locks_once [OF assms(2) swept_holds [OF sg], of h] False by blast
    then show ?thesis using assms(4) [of p k] assms(1) sg g(2) unfolding sweep_ok_def by blast
  qed
qed

lemma exit_wakes:
  assumes "exit_step h s t" "wake_ok s" "locks_ok s" "procs_ok s" "sweep_ok s"
  shows "wake_ok t"
  using assms(1)
proof cases
  case (woken p k)
  have "waits s p' k'" if "waits t p' k'" for p' k' using that woken by (auto simp: waits_def split: if_splits)
  then show ?thesis using woken waits_exists [OF assms(4)]
    by (intro wake_move [OF assms(2), of t h "Process p (XAcq k)"]) (auto simp: not_le [symmetric])
next
  case (zombie p k)
  have w: "waits s p' k'" if "waits t p' k'" for p' k' using that zombie by (auto simp: waits_def split: if_splits)
  have "\<not> waits t p' k" for p'
  proof -
    have "swept (s_run s h) = Some (k, NPROC)" using zombie(2) by simp
    then show ?thesis using w [of p' k] waits_exists [OF assms(4), of p' k] assms(5) unfolding sweep_ok_def by blast
  qed
  moreover have "\<not> falling_asleep (s_run s g) k" for g by (rule clock_not_falling [OF assms(3), of k h]) (simp_all add: zombie(2))
  ultimately show ?thesis using w zombie assms(2) wake_rise [of s t h "Process p (XRel k)" k] by simp
next
  case (switch p)
  then show ?thesis using sched_switches(1) [OF assms(3,4), of h p XSched XGone]
    by (intro wake_move [OF assms(2), of t h "Scheduler (SRet p)"]) (auto simp: waits_def split: if_splits)
next
  case (gone p)
  then show ?thesis using procs_okD(9) [OF assms(4)] by blast
qed (auto intro!: wake_move [OF assms(2), of _ h] simp: waits_def split: if_splits)

section \<open>Bounds of the two loops\<close>

fun scan_ok :: "thread \<Rightarrow> bool" where
  "scan_ok (Scheduler (SAcq i)) \<longleftrightarrow> i \<le> NPROC"
| "scan_ok (Scheduler (SChk i)) \<longleftrightarrow> i < NPROC"
| "scan_ok (Scheduler (SRet i)) \<longleftrightarrow> i < NPROC"
| "scan_ok (Process p (KLoop k i)) \<longleftrightarrow> i \<le> NPROC"
| "scan_ok (Process p (KChk k i)) \<longleftrightarrow> i < NPROC"
| "scan_ok (Process p _) \<longleftrightarrow> True"

definition hart_step :: "nat \<Rightarrow> sched_st \<Rightarrow> sched_st \<Rightarrow> bool" where
  "hart_step h s t \<longleftrightarrow> scheduler_step h s t \<or> yield_step h s t \<or> sleep_step h s t \<or> wakeup_step h s t \<or> client_step h s t \<or>
     exit_step h s t"

lemma sys_hart_step: "sys_step s t \<longleftrightarrow> (\<exists>h. hart_step h s t)"
  unfolding hart_step_def sys_step.simps [of s t] by blast

lemma hart_step_run:
  assumes "hart_step h s t" "locks_ok s" "procs_ok s" "\<And>g. scan_ok (s_run s g)"
  shows "\<exists>T. s_run t = (s_run s)(h := T) \<and> scan_ok T"
  using assms(1) unfolding hart_step_def
proof (elim disjE)
  assume "scheduler_step h s t"
  then show ?thesis
  proof cases
    case (pick i)
    then show ?thesis using procs_okD(5) [OF assms(3), of i] by (cases "s_saved s i") auto
  qed (use assms(4) [of h] in auto)
next
  assume "yield_step h s t"
  then show ?thesis
  proof cases
    case (switch p)
    then show ?thesis using sched_switches(1) [OF assms(2,3), of h p YSched YBack] process_exists [OF assms(3)] by auto
  qed auto
next
  assume "sleep_step h s t"
  then show ?thesis
  proof cases
    case (switch p k)
    then show ?thesis using sched_switches(1) [OF assms(2,3), of h p "SlSched k" "SlBack k"] process_exists [OF assms(3)] by auto
  qed auto
next
  assume "wakeup_step h s t"
  then show ?thesis by cases (use assms(4) [of h] in auto)
next
  assume "client_step h s t"
  then show ?thesis
  proof cases
    case (interrupts p b)
    then show ?thesis by (intro exI [of _ "Process p Out"]) auto
  qed auto
next
  assume "exit_step h s t"
  then show ?thesis
  proof cases
    case (switch p)
    then show ?thesis using sched_switches(1) [OF assms(2,3), of h p XSched XGone] process_exists [OF assms(3)] by auto
  next
    case (gone p)
    then show ?thesis using procs_okD(9) [OF assms(3)] by blast
  qed auto
qed

text \<open>A step makes no process wait, but for the release of the condition's lock in \<open>sleep\<close>.\<close>

lemma hart_step_waits:
  assumes "hart_step h s t" "locks_ok s" "procs_ok s" "waits t p k"
  shows "waits s p k \<or> s_run s h = Process p (SlRel k)"
  using assms(1) unfolding hart_step_def
proof (elim disjE)
  assume "scheduler_step h s t"
  then show ?thesis
    by cases (use assms(4) resumesD [OF procs_okD(5) [OF assms(3)]] in \<open>auto simp: waits_def split: if_splits\<close>)
next
  assume "yield_step h s t"
  then show ?thesis
  proof cases
    case (switch p)
    then show ?thesis using sched_switches(1) [OF assms(2,3), of h p YSched YBack] assms(4) by (auto simp: waits_def split: if_splits)
  qed (use assms(4) in \<open>auto simp: waits_def split: if_splits\<close>)
next
  assume "sleep_step h s t"
  then show ?thesis
  proof cases
    case (switch p k)
    then show ?thesis using sched_switches(1) [OF assms(2,3), of h p "SlSched k" "SlBack k"] assms(4) by (auto simp: waits_def split: if_splits)
  qed (use assms(4) in \<open>auto simp: waits_def split: if_splits\<close>)
next
  assume "wakeup_step h s t"
  then show ?thesis by cases (use assms(4) in \<open>auto simp: waits_def split: if_splits\<close>)
next
  assume "client_step h s t"
  then show ?thesis by cases (use assms(4) in \<open>auto simp: waits_def split: if_splits\<close>)
next
  assume "exit_step h s t"
  then show ?thesis
  proof cases
    case (switch p)
    then show ?thesis using sched_switches(1) [OF assms(2,3), of h p XSched XGone] assms(4) by (auto simp: waits_def split: if_splits)
  next
    case (gone p)
    then show ?thesis using procs_okD(9) [OF assms(3)] by blast
  qed (use assms(4) in \<open>auto simp: waits_def split: if_splits\<close>)
qed

text \<open>A process that \<open>wakeup\<close> passes does not wait: it is the caller itself, or it was looked at under its lock.\<close>

lemma wakeup_passes:
  assumes "wakeup_step h s t" "locks_ok s" "procs_ok s" "s_run t h = Process q (KLoop k (Suc i))"
  shows "swept (s_run s h) = Some (k, i) \<and> \<not> waits t i k"
  using assms(1)
proof cases
  case (self q' k' i')
  then have e: "k' = k" "i' = i" using assms(4) by simp_all
  have q: "q' = i" using self(2,4) procs_okD(1) [OF assms(3), of h i] e by simp
  then have "s_run s g \<noteq> Process i (SlSet k'')" for g k'' using procs_okD(2) [OF assms(3), of h i g] self(2) by auto
  then show ?thesis using procs_okD(3) [OF assms(3) self(2)] q self(1,2) e unfolding waits_def by (auto split: if_splits)
next
  case (wake q' k' i')
  then show ?thesis using assms(4) locked_not_falling [OF assms(2) wake(2)] by (auto simp: waits_def split: if_splits)
next
  case (leave q' k' i')
  then show ?thesis using assms(4) locked_not_falling [OF assms(2) leave(2)] by (auto simp: waits_def split: if_splits)
qed (use assms(4) in auto)

lemma hart_step_swept:
  assumes "hart_step h s t" "locks_ok s" "procs_ok s" "swept (s_run t h) = Some (k, i)" "p < i"
  shows "(\<exists>j. swept (s_run s h) = Some (k, j) \<and> p < j) \<or> \<not> waits t p k"
  using assms(1) unfolding hart_step_def
proof (elim disjE)
  assume w: "wakeup_step h s t"
  then show ?thesis
  proof cases
    case (self q k' i')
    then show ?thesis using wakeup_passes [OF w assms(2,3), of q k' i'] assms(4,5) by (auto simp: less_Suc_eq)
  next
    case (wake q k' i')
    then show ?thesis using wakeup_passes [OF w assms(2,3), of q k' i'] assms(4,5) by (auto simp: less_Suc_eq)
  next
    case (leave q k' i')
    then show ?thesis using wakeup_passes [OF w assms(2,3), of q k' i'] assms(4,5) by (auto simp: less_Suc_eq)
  qed (use assms(4,5) in auto)
next
  assume "scheduler_step h s t"
  then show ?thesis
  proof cases
    case (pick i)
    then show ?thesis using assms(4) procs_okD(5) [OF assms(3), of i] by (cases "s_saved s i") auto
  qed (use assms(4) in auto)
next
  assume "yield_step h s t"
  then show ?thesis
    by cases (use assms(4) sched_switches(1) [OF assms(2,3), of h _ YSched YBack] in auto)
next
  assume "sleep_step h s t"
  then show ?thesis
  proof cases
    case (switch p k)
    then show ?thesis using sched_switches(1) [OF assms(2,3), of h p "SlSched k" "SlBack k"] assms(4) by auto
  qed (use assms(4) in auto)
next
  assume "client_step h s t"
  then show ?thesis by cases (use assms(4,5) in auto)
next
  assume "exit_step h s t"
  then show ?thesis
  proof cases
    case (switch p)
    then show ?thesis using sched_switches(1) [OF assms(2,3), of h p XSched XGone] assms(4) by auto
  next
    case (gone p)
    then show ?thesis using procs_okD(9) [OF assms(3)] by blast
  qed (use assms(4,5) in auto)
qed

lemma sweep_step:
  assumes "hart_step h s t" "locks_ok s" "procs_ok s" "sweep_ok s" "s_run t = (s_run s)(h := T)"
  shows "sweep_ok t"
proof (rule sweep_move [OF assms(4,2,5)])
  fix p k assume "waits t p k"
  then have "waits s p k \<or> s_run s h = Process p (SlRel k)" by (rule hart_step_waits [OF assms(1-3)])
  then show "waits s p k \<or> CLock k \<in> locks_of (s_run s h) \<and> swept (s_run s h) = None" by auto
next
  fix k i p assume T: "swept T = Some (k, i)" "p < i"
  show "\<not> waits t p k"
  proof
    assume w: "waits t p k"
    obtain j where j: "swept (s_run s h) = Some (k, j)" "p < j" using hart_step_swept [OF assms(1-3), of k i p] T w assms(5) by auto
    have "waits s p k" using hart_step_waits [OF assms(1-3) w] j(1) by auto
    then show False using assms(4) j unfolding sweep_ok_def by blast
  qed
qed

definition sched_inv :: "sched_st \<Rightarrow> bool" where
  "sched_inv s \<longleftrightarrow> locks_ok s \<and> procs_ok s \<and> wake_ok s \<and> sweep_ok s \<and> (\<forall>h. scan_ok (s_run s h))"

lemma reachable_inv: "sched_reachable s \<Longrightarrow> sched_inv s"
proof (induction rule: sched_reachable.induct)
  case (start s)
  have "wake_ok s" using start by (auto simp: wake_ok_def waits_def sched_init_def) (metis procstate.distinct)+
  then show ?case using start init_ok by (auto simp: sched_inv_def sched_init_def sweep_ok_def)
next
  case (step s t)
  then have i: "locks_ok s" "procs_ok s" "wake_ok s" "\<And>h. scan_ok (s_run s h)" "sweep_ok s" by (simp_all add: sched_inv_def)
  obtain h where h: "hart_step h s t" using step sys_hart_step by blast
  have "wake_ok t" using h i scheduler_wakes yield_wakes sleep_wakes wakeup_wakes client_wakes exit_wakes unfolding hart_step_def by blast
  moreover obtain T where T: "s_run t = (s_run s)(h := T)" "scan_ok T" using hart_step_run [OF h i(1,2,4)] by blast
  moreover have "sweep_ok t" by (rule sweep_step [OF h i(1,2,5) T(1)])
  ultimately show ?case using step_keeps [OF step(2) i(1,2)] i(4) by (simp add: sched_inv_def)
qed

section \<open>Deadlock\<close>

text \<open>The lock a thread is waiting to acquire.\<close>

fun wants :: "thread \<Rightarrow> lockid option" where
  "wants (Scheduler (SAcq i)) = (if i < NPROC then Some (PLock i) else None)"
| "wants (Process p YAcq) = Some (PLock p)"
| "wants (Process p (SlAcq k)) = Some (PLock p)"
| "wants (Process p (SlReacq k)) = Some (CLock k)"
| "wants (Process p (WAcq k)) = Some (CLock k)"
| "wants (Process p (KAcq k)) = Some (CLock k)"
| "wants (Process p (KLoop k i)) = (if i < NPROC \<and> i \<noteq> p then Some (PLock i) else None)"
| "wants (Process p (XLock k)) = Some (CLock k)"
| "wants (Process p (XAcq k)) = Some (PLock p)"
| "wants _ = None"

definition can_move :: "sched_st \<Rightarrow> nat \<Rightarrow> bool" where
  "can_move s h \<longleftrightarrow> (\<exists>t. hart_step h s t)"

definition waits_for :: "sched_st \<Rightarrow> (nat \<times> nat) set" where
  "waits_for s = {(h, g). \<exists>l. wants (s_run s h) = Some l \<and> s_owner s l = Some g}"

lemma can_moveI:
  "scheduler_step h s t \<Longrightarrow> can_move s h" "yield_step h s t \<Longrightarrow> can_move s h" "sleep_step h s t \<Longrightarrow> can_move s h"
  "wakeup_step h s t \<Longrightarrow> can_move s h" "client_step h s t \<Longrightarrow> can_move s h"
  "exit_step h s t \<Longrightarrow> can_move s h"
  unfolding can_move_def hart_step_def by blast+

lemmas scheduler_moveI = scheduler_step.intros [THEN can_moveI(1)]
lemmas process_moveI = yield_step.intros [THEN can_moveI(2)] sleep_step.intros [THEN can_moveI(3)] client_step.intros [THEN can_moveI(5)]
  exit_step.intros [THEN can_moveI(6)]
lemmas wakeup_moveI = wakeup_step.intros [THEN can_moveI(4)]

lemma process_moves:
  assumes "s_run s h = Process p c" "procs_ok s" "scan_ok (s_run s h)" "case wants (s_run s h) of None \<Rightarrow> True | Some l \<Rightarrow> can_acquire l h s"
  shows "can_move s h"
proof -
  have me: "s_proc s h = Some i \<longleftrightarrow> i = p" for i using procs_okD(1) [OF assms(2)] assms(1) by auto
  show ?thesis
  proof (cases c)
    case (KLoop k i)
    then consider "i = NPROC" | "i < NPROC" "i = p" | "i < NPROC" "i \<noteq> p" using assms(1,3) by fastforce
    then show ?thesis
    proof cases
      case 1
      then show ?thesis using wakeup_moveI(5) [of s h p k] assms(1) KLoop by simp
    next
      case 2
      then show ?thesis using wakeup_moveI(1) [of s h p k i] assms(1) me [of i] KLoop by simp
    next
      case 3
      then show ?thesis using wakeup_moveI(2) [of s h p k i] assms(1,4) me [of i] KLoop by simp
    qed
  next
    case (WTest k)
    then show ?thesis using assms(1) client_step.wait_go [THEN can_moveI(5)] client_step.wait_sleep [THEN can_moveI(5)] by blast
  next
    case (KChk k i)
    then show ?thesis using assms(1) wakeup_moveI(3) [of s h p k i] wakeup_moveI(4) [of s h p k i] by blast
  qed (use assms(1,4) in \<open>simp, blast intro: process_moveI\<close>)+
qed

lemma scheduler_moves:
  assumes "s_run s h = Scheduler c" "scan_ok (s_run s h)" "case wants (s_run s h) of None \<Rightarrow> True | Some l \<Rightarrow> can_acquire l h s"
  shows "can_move s h"
proof (cases c)
  case (SAcq i)
  then consider "i = NPROC" | "i < NPROC" using assms(1,2) by fastforce
  then show ?thesis
    by cases (use assms SAcq scheduler_moveI(1) [of s h] scheduler_moveI(2) [of s h i] in auto)
next
  case (SChk i)
  then show ?thesis using assms(1) scheduler_moveI(3,4) by blast
next
  case (SRet i)
  then show ?thesis using assms(1) scheduler_moveI(5) by blast
qed

lemma moves:
  assumes "sched_inv s" "\<And>l. wants (s_run s h) = Some l \<Longrightarrow> can_acquire l h s"
  shows "can_move s h"
proof -
  have "case wants (s_run s h) of None \<Rightarrow> True | Some l \<Rightarrow> can_acquire l h s" using assms(2) by (auto split: option.split)
  moreover have "procs_ok s" "scan_ok (s_run s h)" using assms(1) by (simp_all add: sched_inv_def)
  ultimately show ?thesis using scheduler_moves [of s h] process_moves [of s h] by (metis thread.exhaust)
qed

lemma holder_of_plock: "PLock i \<in> locks_of T \<Longrightarrow> wants T = None"
  by (cases T rule: wants.cases) (simp_all split: if_splits)

lemma holder_of_clock: "CLock k \<in> locks_of T \<Longrightarrow> wants T = None \<or> (\<exists>i. wants T = Some (PLock i))"
  by (cases T rule: wants.cases) (simp_all split: if_splits)

lemma waking_holds: "waking T k p \<Longrightarrow> CLock k \<in> locks_of T"
  by (cases "(T, k, p)" rule: waking.cases) auto

lemma waits_for_plock:
  assumes "sched_inv s" "wants (s_run s h) = Some (PLock i)"
  shows "can_move s h \<or> (\<exists>g. (h, g) \<in> waits_for s \<and> can_move s g)"
proof (cases "s_owner s (PLock i)")
  case None
  then show ?thesis using moves [OF assms(1), of h] assms(2) by (auto simp: can_acquire_def)
next
  case (Some g)
  then have "wants (s_run s g) = None" using holder_of_plock [of i "s_run s g"] assms(1) by (simp add: sched_inv_def locks_ok_def)
  then show ?thesis using moves [OF assms(1), of g] assms(2) Some by (auto simp: waits_for_def)
qed

section \<open>Main results\<close>

text \<open>Two states of an example with one process: the start, and hart 0 running the process.\<close>

definition boot_example :: sched_st where
  "boot_example = \<lparr>s_state = (\<lambda>p. if p = 0 then RUNNABLE else UNUSED), s_chan = (\<lambda>p. None), s_owner = (\<lambda>l. None),
     s_cpu = (\<lambda>h. \<lparr>c_proc = None, c_noff = 0, c_intena = False, c_sie = False\<rparr>), s_run = (\<lambda>h. Scheduler (SAcq NPROC)), s_saved = (\<lambda>p. YRel),
     s_intena = (\<lambda>p. False), s_flag = (\<lambda>k. True), s_panicked = False\<rparr>"

definition scan_example :: sched_st where
  "scan_example = goto 0 (Scheduler (SAcq 0)) (set_sie 0 True boot_example)"

definition run_example :: sched_st where
  "run_example = goto 0 (Process 0 YRel)
     (set_proc 0 (Some 0) (set_state 0 RUNNING (goto 0 (Scheduler (SChk 0)) (acquire_l (PLock 0) 0 scan_example))))"

lemma boot_example_reachable: "sched_reachable boot_example"
  by (rule sched_reachable.start) (simp add: sched_init_def boot_example_def NPROC_def s_proc_def)

lemma run_example_reachable: "sched_reachable run_example"
proof -
  let ?m = "goto 0 (Scheduler (SChk 0)) (acquire_l (PLock 0) 0 scan_example)"
  have "scheduler_step 0 boot_example scan_example"
    unfolding scan_example_def by (rule scheduler_step.again) (simp add: boot_example_def)
  then have a: "sched_reachable scan_example" using sched_reachable.step [OF boot_example_reachable] sys_step.intros(1) by blast
  have m: "sched_reachable ?m"
    by (rule sched_reachable.step [OF a], rule sys_step.intros(1), rule scheduler_step.lock)
      (simp_all add: scan_example_def boot_example_def NPROC_def can_acquire_def goto_def set_sie_def set_cpu_def)
  have "scheduler_step 0 ?m run_example"
    using scheduler_step.pick [of ?m 0 0] by (simp add: run_example_def scan_example_def boot_example_def)
  then show ?thesis using sched_reachable.step [OF m] sys_step.intros(1) by blast
qed

text \<open>C24: at every moment, in every interleaving of the harts, a process runs on at most one hart; a process on a hart that is
  not about to call \<open>sched\<close> has state \<open>RUNNING\<close>, and a process whose state is \<open>RUNNING\<close> is on a hart.\<close>

theorem one_hart_per_process:
  assumes "sched_reachable s"
  shows "(\<forall>h g c d. s_run s h = Process p c \<longrightarrow> s_run s g = Process p d \<longrightarrow> h = g) \<and>
    (\<forall>h c. s_run s h = Process p c \<longrightarrow> s_state s p = run_state c) \<and>
    (s_state s p = RUNNING \<longrightarrow> (\<exists>h c. s_run s h = Process p c))"
proof -
  have i: "procs_ok s" using reachable_ok [OF assms] by simp
  have "\<exists>h c. s_run s h = Process p c" if r: "s_state s p = RUNNING"
  proof -
    obtain h where h: "occupies (s_run s h) p" using procs_okD(7) [OF i r] by blast
    then show ?thesis using r procs_okD(4) [OF i, of h p] by (cases "(s_run s h, p)" rule: occupies.cases) auto
  qed
  moreover have "h = g" if "s_run s h = Process p c" "s_run s g = Process p d" for h g c d
    using procs_okD(2) [OF i, of h p g] that by simp
  ultimately show ?thesis using procs_okD(3) [OF i] by blast
qed

theorem one_hart_per_process_witness:
  "sched_reachable run_example \<and> s_run run_example 0 = Process 0 YRel \<and> s_state run_example 0 = RUNNING \<and>
   (\<nexists>h c. h \<noteq> 0 \<and> s_run run_example h = Process 0 c)"
proof -
  have r: "s_run run_example 0 = Process 0 YRel" by (simp add: run_example_def)
  moreover have "s_state run_example 0 = RUNNING" by (simp add: run_example_def)
  ultimately show ?thesis using one_hart_per_process [OF run_example_reachable, of 0] run_example_reachable by blast
qed

text \<open>C25: the calls of \<open>panic\<close> in \<open>acquire\<close>, \<open>release\<close>, \<open>pop_off\<close>, \<open>sched\<close> and at the end of \<open>exit\<close> are never reached: no hart acquires a lock
  that it holds or releases one that it does not hold, \<open>yield\<close>, \<open>sleep\<close> and \<open>exit\<close> call \<open>sched\<close> with the lock of the process, with no other lock,
  with a state other than \<open>RUNNING\<close> and with interrupts off, and a zombie is never resumed. The nesting count of a hart is the number of the locks
  it owns, and interrupts are off while it owns one.\<close>

theorem sched_never_panics:
  assumes "sched_reachable s"
  shows "\<not> s_panicked s \<and> c_noff (s_cpu s h) = int (card {l. s_owner s l = Some h}) \<and>
    ((\<exists>l. s_owner s l = Some h) \<longrightarrow> \<not> c_sie (s_cpu s h)) \<and>
    (\<forall>p c. s_run s h = Process p c \<longrightarrow> c = YSched \<or> (\<exists>k. c = SlSched k) \<or> c = XSched \<longrightarrow> sched_ok h p s) \<and>
    (\<forall>p. s_run s h \<noteq> Process p XGone)"
proof -
  have l: "locks_ok s" and p: "procs_ok s" using reachable_ok [OF assms] by simp_all
  have o: "{l. s_owner s l = Some h} = locks_of (s_run s h)" using l by (auto simp: locks_ok_def)
  then have e: "(\<exists>l. s_owner s l = Some h) \<longleftrightarrow> locks_of (s_run s h) \<noteq> {}" by blast
  have "sched_ok h q s" if "s_run s h = Process q c" "c = YSched \<or> (\<exists>k. c = SlSched k) \<or> c = XSched" for q c
  proof -
    have "locks_of (s_run s h) = {PLock q}" "run_state c \<noteq> RUNNING" using that by auto
    then show ?thesis using l procs_okD(3) [OF p that(1)] by (simp add: sched_ok_def locks_ok_def)
  qed
  moreover have "c_noff (s_cpu s h) = int (card (locks_of (s_run s h)))" "locks_of (s_run s h) \<noteq> {} \<longrightarrow> \<not> c_sie (s_cpu s h)" "\<not> s_panicked s"
    using l by (simp_all add: locks_ok_def)
  ultimately show ?thesis unfolding o e using procs_okD(9) [OF p] by blast
qed

theorem sched_never_panics_witness:
  "sched_reachable run_example \<and> \<not> s_panicked run_example \<and> c_noff (s_cpu run_example 0) = int (card {l. s_owner run_example l = Some 0}) \<and>
   \<not> c_sie (s_cpu run_example 0)"
proof -
  have "s_owner run_example (PLock 0) = Some 0"
    by (simp add: run_example_def scan_example_def boot_example_def acquire_l_def goto_def set_state_def set_proc_def set_sie_def set_cpu_def)
  then show ?thesis using sched_never_panics [OF run_example_reachable, of 0] run_example_reachable by blast
qed

text \<open>C23: no wakeup is lost. When condition \<open>k\<close> holds and its lock is free, no process sleeps on it, and none has given up the lock of
  the condition on its way to sleep; whatever the interleaving of \<open>sleep\<close> and \<open>wakeup\<close> was.\<close>

theorem no_lost_wakeup:
  assumes "sched_reachable s" "s_flag s k" "s_owner s (CLock k) = None"
  shows "\<not> (s_state s p = SLEEPING \<and> s_chan s p = Some k) \<and> s_run s h \<noteq> Process p (SlSet k)"
proof -
  have i: "locks_ok s" "wake_ok s" using reachable_inv [OF assms(1)] by (simp_all add: sched_inv_def)
  have "CLock k \<notin> locks_of (s_run s g)" for g using i(1) assms(3) unfolding locks_ok_def by (metis option.distinct(1))
  then have "\<not> waking (s_run s g) k p" for g using waking_holds by blast
  then have "\<not> waits s p k" using i(2) assms(2) unfolding wake_ok_def by blast
  then show ?thesis by (auto simp: waits_def)
qed

theorem no_lost_wakeup_witness:
  "sched_reachable run_example \<and> s_flag run_example 3 \<and> s_owner run_example (CLock 3) = None \<and>
   \<not> (s_state run_example 0 = SLEEPING \<and> s_chan run_example 0 = Some 3)"
proof -
  have "s_flag run_example 3" "s_owner run_example (CLock 3) = None"
    by (simp_all add: run_example_def scan_example_def boot_example_def acquire_l_def goto_def set_state_def set_proc_def set_sie_def set_cpu_def)
  then show ?thesis using no_lost_wakeup [OF run_example_reachable, of 3 0 0] run_example_reachable by blast
qed

text \<open>C26: the locks of the scheduler, of \<open>sleep\<close> and of \<open>wakeup\<close> cannot deadlock: every hart can take a step, or waits, directly or
  through the holder of a lock that waits itself, for a hart that can.\<close>

theorem no_deadlock:
  assumes "sched_reachable s"
  shows "\<exists>g. (h, g) \<in> (waits_for s)\<^sup>* \<and> (\<exists>t. hart_step g s t)"
proof -
  have i: "sched_inv s" by (rule reachable_inv [OF assms])
  have plock: "\<exists>g'. (g, g') \<in> (waits_for s)\<^sup>* \<and> can_move s g'" if "wants (s_run s g) = Some (PLock j)" for g j
    using waits_for_plock [OF i that] by blast
  have "\<exists>g. (h, g) \<in> (waits_for s)\<^sup>* \<and> can_move s g"
  proof (cases "wants (s_run s h)")
    case None
    then show ?thesis using moves [OF i, of h] by auto
  next
    case (Some l)
    note w = Some
    show ?thesis
    proof (cases l)
      case (PLock j)
      then show ?thesis using plock w by blast
    next
      case (CLock k)
      show ?thesis
      proof (cases "s_owner s (CLock k)")
        case None
        then show ?thesis using moves [OF i, of h] w CLock by (auto simp: can_acquire_def)
      next
        case (Some g)
        then have "CLock k \<in> locks_of (s_run s g)" using i by (simp add: sched_inv_def locks_ok_def)
        then consider "wants (s_run s g) = None" | j where "wants (s_run s g) = Some (PLock j)"
          using holder_of_clock [of k "s_run s g"] by metis
        then have "\<exists>g'. (g, g') \<in> (waits_for s)\<^sup>* \<and> can_move s g'"
          by cases (use plock moves [OF i, of g] in auto)
        moreover have "(h, g) \<in> waits_for s" using w CLock Some by (simp add: waits_for_def)
        ultimately show ?thesis by (meson converse_rtrancl_into_rtrancl)
      qed
    qed
  qed
  then show ?thesis by (simp add: can_move_def)
qed

theorem no_deadlock_witness:
  "sched_reachable run_example \<and> (\<exists>g. (1, g) \<in> (waits_for run_example)\<^sup>* \<and> (\<exists>t. hart_step g run_example t))"
  using no_deadlock [OF run_example_reachable, of 1] run_example_reachable by simp

end
