(* ===== verification/Virtio.thy ===== *)
theory Virtio
  imports Bio Ring
begin

text \<open>
  The disk driver kernel/virtio_disk.c and kernel/virtio.h, below the buffer cache.

  The driver and the device share three structures: the descriptor table, the ring of available requests (written by
  the driver) and the ring of used ones (written by the device). An address stored in a descriptor is one of the three kinds
  the driver stores: of \<open>disk.ops[i]\<close>, of the data of a buffer, of \<open>disk.info[i].status\<close>. The critical sections of
  \<open>virtio_disk_rw\<close> are operations of their own (\<open>rw_format\<close>, \<open>rw_ring\<close>, \<open>rw_publish\<close>, \<open>rw_finish\<close>), split at the two barriers, because
  the device runs between them.

  The second half composes them into a transition system: requests for any number of buffers, the interrupt handler, the device, and
  the rest of the kernel, interleaved. The device is a parameter; \<open>device_ok\<close> is what section 5.2 of the virtio specification says
  about a chain of three descriptors. Main results: \<open>virtio_never_panics\<close> and \<open>virtio_refines_disk_rw\<close> (in Bio a disk request
  is one atomic operation \<open>disk_rw\<close>; here it is what the device does to a request, whatever the interleaving).
\<close>

section \<open>Data\<close>

definition NUM :: nat where "NUM = 8"
definition VRING_DESC_F_NEXT :: uint16 where "VRING_DESC_F_NEXT = 1"
definition VRING_DESC_F_WRITE :: uint16 where "VRING_DESC_F_WRITE = 2"
definition VIRTIO_BLK_T_IN :: uint32 where "VIRTIO_BLK_T_IN = 0"
definition VIRTIO_BLK_T_OUT :: uint32 where "VIRTIO_BLK_T_OUT = 1"

datatype daddr = Null | OpsOf nat | DataOf nat | StatusOf nat

record virtq_desc =
  d_addr :: daddr
  d_len :: uint32
  d_flags :: uint16
  d_next :: uint16

record virtio_blk_req =
  r_type :: uint32
  r_reserved :: uint32
  r_sector :: uint64

text \<open>\<open>vd_used_idx\<close> is the driver's position in the used ring, \<open>us_idx\<close> the device's; \<open>mmio\<close> is the sequence of the
  writes to the device's registers.\<close>

record virtio_st = bio_st +
  vd_desc :: "virtq_desc list"
  av_ring :: "uint16 list"
  av_idx :: uint16
  us_ring :: "uint32 list"
  us_idx :: uint16
  vd_free :: "bool list"
  vd_used_idx :: uint16
  info_b :: "nat option list"
  info_status :: "uint8 list"
  vd_ops :: "virtio_blk_req list"
  mmio :: "(nat \<times> uint32) list"

definition null_desc :: virtq_desc where
  "null_desc = \<lparr>d_addr = Null, d_len = 0, d_flags = 0, d_next = 0\<rparr>"

section \<open>Initialization\<close>

definition VIRTIO_MMIO_MAGIC_VALUE :: nat where "VIRTIO_MMIO_MAGIC_VALUE = 0x0"
definition VIRTIO_MMIO_VERSION :: nat where "VIRTIO_MMIO_VERSION = 0x4"
definition VIRTIO_MMIO_DEVICE_ID :: nat where "VIRTIO_MMIO_DEVICE_ID = 0x8"
definition VIRTIO_MMIO_VENDOR_ID :: nat where "VIRTIO_MMIO_VENDOR_ID = 0xc"
definition VIRTIO_MMIO_DEVICE_FEATURES :: nat where "VIRTIO_MMIO_DEVICE_FEATURES = 0x10"
definition VIRTIO_MMIO_DRIVER_FEATURES :: nat where "VIRTIO_MMIO_DRIVER_FEATURES = 0x20"
definition VIRTIO_MMIO_QUEUE_SEL :: nat where "VIRTIO_MMIO_QUEUE_SEL = 0x30"
definition VIRTIO_MMIO_QUEUE_NUM_MAX :: nat where "VIRTIO_MMIO_QUEUE_NUM_MAX = 0x34"
definition VIRTIO_MMIO_QUEUE_NUM :: nat where "VIRTIO_MMIO_QUEUE_NUM = 0x38"
definition VIRTIO_MMIO_QUEUE_READY :: nat where "VIRTIO_MMIO_QUEUE_READY = 0x44"
definition VIRTIO_MMIO_STATUS :: nat where "VIRTIO_MMIO_STATUS = 0x70"
definition VIRTIO_MMIO_QUEUE_DESC_LOW :: nat where "VIRTIO_MMIO_QUEUE_DESC_LOW = 0x80"
definition VIRTIO_MMIO_QUEUE_DESC_HIGH :: nat where "VIRTIO_MMIO_QUEUE_DESC_HIGH = 0x84"
definition VIRTIO_MMIO_DRIVER_DESC_LOW :: nat where "VIRTIO_MMIO_DRIVER_DESC_LOW = 0x90"
definition VIRTIO_MMIO_DRIVER_DESC_HIGH :: nat where "VIRTIO_MMIO_DRIVER_DESC_HIGH = 0x94"
definition VIRTIO_MMIO_DEVICE_DESC_LOW :: nat where "VIRTIO_MMIO_DEVICE_DESC_LOW = 0xa0"
definition VIRTIO_MMIO_DEVICE_DESC_HIGH :: nat where "VIRTIO_MMIO_DEVICE_DESC_HIGH = 0xa4"
definition VIRTIO_CONFIG_S_ACKNOWLEDGE :: uint32 where "VIRTIO_CONFIG_S_ACKNOWLEDGE = 1"
definition VIRTIO_CONFIG_S_DRIVER :: uint32 where "VIRTIO_CONFIG_S_DRIVER = 2"
definition VIRTIO_CONFIG_S_DRIVER_OK :: uint32 where "VIRTIO_CONFIG_S_DRIVER_OK = 4"
definition VIRTIO_CONFIG_S_FEATURES_OK :: uint32 where "VIRTIO_CONFIG_S_FEATURES_OK = 8"
definition VIRTIO_BLK_F_RO :: nat where "VIRTIO_BLK_F_RO = 5"
definition VIRTIO_BLK_F_SCSI :: nat where "VIRTIO_BLK_F_SCSI = 7"
definition VIRTIO_BLK_F_CONFIG_WCE :: nat where "VIRTIO_BLK_F_CONFIG_WCE = 11"
definition VIRTIO_BLK_F_MQ :: nat where "VIRTIO_BLK_F_MQ = 12"
definition VIRTIO_F_ANY_LAYOUT :: nat where "VIRTIO_F_ANY_LAYOUT = 27"
definition VIRTIO_RING_F_INDIRECT_DESC :: nat where "VIRTIO_RING_F_INDIRECT_DESC = 28"
definition VIRTIO_RING_F_EVENT_IDX :: nat where "VIRTIO_RING_F_EVENT_IDX = 29"

definition put_reg :: "nat \<Rightarrow> uint32 \<Rightarrow> 'a virtio_st_scheme \<Rightarrow> 'a virtio_st_scheme" where
  "put_reg r v s = s\<lparr>mmio := mmio s @ [(r, v)]\<rparr>"

text \<open>The features the driver turns down.\<close>

definition driver_features :: "uint64 \<Rightarrow> uint64" where
  "driver_features f =
     f AND NOT (push_bit VIRTIO_BLK_F_RO 1) AND NOT (push_bit VIRTIO_BLK_F_SCSI 1) AND NOT (push_bit VIRTIO_BLK_F_CONFIG_WCE 1)
       AND NOT (push_bit VIRTIO_BLK_F_MQ 1) AND NOT (push_bit VIRTIO_F_ANY_LAYOUT 1)
       AND NOT (push_bit VIRTIO_RING_F_EVENT_IDX 1) AND NOT (push_bit VIRTIO_RING_F_INDIRECT_DESC 1)"

definition queue_setup :: "uint32 \<Rightarrow> 'a virtio_st_scheme \<Rightarrow> (unit, 'a virtio_st_scheme) res" where
  "queue_setup status s =
     bindR (kalloc s) (\<lambda>desc s. bindR (kalloc s) (\<lambda>avail s. bindR (kalloc s) (\<lambda>used s.
       if desc = 0 \<or> avail = 0 \<or> used = 0 then Panic ''virtio disk kalloc''
       else
         let m = memset (memset (memset (mem s) desc 0 PGSIZE) avail 0 PGSIZE) used 0 PGSIZE;
             s = s\<lparr>mem := m, vd_desc := replicate NUM null_desc, av_ring := replicate NUM 0, av_idx := 0,
                   us_ring := replicate NUM 0, us_idx := 0\<rparr>;
             s = put_reg VIRTIO_MMIO_QUEUE_NUM (of_nat NUM) s;
             s = put_reg VIRTIO_MMIO_QUEUE_DESC_LOW (ucast desc) s;
             s = put_reg VIRTIO_MMIO_QUEUE_DESC_HIGH (ucast (drop_bit 32 desc)) s;
             s = put_reg VIRTIO_MMIO_DRIVER_DESC_LOW (ucast avail) s;
             s = put_reg VIRTIO_MMIO_DRIVER_DESC_HIGH (ucast (drop_bit 32 avail)) s;
             s = put_reg VIRTIO_MMIO_DEVICE_DESC_LOW (ucast used) s;
             s = put_reg VIRTIO_MMIO_DEVICE_DESC_HIGH (ucast (drop_bit 32 used)) s;
             s = put_reg VIRTIO_MMIO_QUEUE_READY 1 s;
             s = s\<lparr>vd_free := replicate NUM True\<rparr> in
         Ok () (put_reg VIRTIO_MMIO_STATUS (status OR VIRTIO_CONFIG_S_DRIVER_OK) s))))"

text \<open>\<open>R\<close> gives what the device's registers read, \<open>again\<close> is the second reading of the status register.\<close>

definition virtio_disk_init :: "(nat \<Rightarrow> uint32) \<Rightarrow> uint32 \<Rightarrow> 'a virtio_st_scheme \<Rightarrow> (unit, 'a virtio_st_scheme) res" where
  "virtio_disk_init R again s =
     (if R VIRTIO_MMIO_MAGIC_VALUE \<noteq> 0x74726976 \<or> R VIRTIO_MMIO_VERSION \<noteq> 2 \<or> R VIRTIO_MMIO_DEVICE_ID \<noteq> 2 \<or> R VIRTIO_MMIO_VENDOR_ID \<noteq> 0x554d4551
      then Panic ''could not find virtio disk''
      else
        let s = put_reg VIRTIO_MMIO_STATUS 0 s;
            s = put_reg VIRTIO_MMIO_STATUS VIRTIO_CONFIG_S_ACKNOWLEDGE s;
            status = VIRTIO_CONFIG_S_ACKNOWLEDGE OR VIRTIO_CONFIG_S_DRIVER;
            s = put_reg VIRTIO_MMIO_STATUS status s;
            s = put_reg VIRTIO_MMIO_DRIVER_FEATURES (ucast (driver_features (ucast (R VIRTIO_MMIO_DEVICE_FEATURES)))) s;
            s = put_reg VIRTIO_MMIO_STATUS (status OR VIRTIO_CONFIG_S_FEATURES_OK) s in
        if again AND VIRTIO_CONFIG_S_FEATURES_OK = 0 then Panic ''virtio disk FEATURES_OK unset''
        else
          let s = put_reg VIRTIO_MMIO_QUEUE_SEL 0 s in
          if R VIRTIO_MMIO_QUEUE_READY \<noteq> 0 then Panic ''virtio disk should not be ready''
          else if R VIRTIO_MMIO_QUEUE_NUM_MAX = 0 then Panic ''virtio disk has no queue 0''
          else if R VIRTIO_MMIO_QUEUE_NUM_MAX < of_nat NUM then Panic ''virtio disk max queue too short''
          else queue_setup again s)"

section \<open>Descriptors\<close>

definition alloc_desc :: "'a virtio_st_scheme \<Rightarrow> int \<times> 'a virtio_st_scheme" where
  "alloc_desc s =
     (case find_slot id (vd_free s) of
        Some i \<Rightarrow> (int i, s\<lparr>vd_free := (vd_free s)[i := False]\<rparr>)
      | None \<Rightarrow> (- 1, s))"

definition free_desc :: "nat \<Rightarrow> 'a virtio_st_scheme \<Rightarrow> (unit, 'a virtio_st_scheme) res" where
  "free_desc i s =
     (if NUM \<le> i then Panic ''free_desc 1''
      else if vd_free s ! i then Panic ''free_desc 2''
      else Ok () (wakeup ChDiskFree (s\<lparr>vd_desc := (vd_desc s)[i := null_desc], vd_free := (vd_free s)[i := True]\<rparr>)))"

text \<open>The loop of \<open>free_chain\<close> ends even on a cyclic chain, because \<open>free_desc\<close> panics on a descriptor that is free already. A table of the wrong
  length does not occur; the guard makes the recursion total.\<close>

lemma wakeup_virtio [simp]:
  "vd_desc (wakeup ch s) = vd_desc s" "av_ring (wakeup ch s) = av_ring s" "av_idx (wakeup ch s) = av_idx s"
  "us_ring (wakeup ch s) = us_ring s" "us_idx (wakeup ch s) = us_idx s" "vd_free (wakeup ch s) = vd_free s"
  "vd_used_idx (wakeup ch s) = vd_used_idx s" "info_b (wakeup ch s) = info_b s" "info_status (wakeup ch s) = info_status s"
  "vd_ops (wakeup ch s) = vd_ops s" "bufs (wakeup ch s) = bufs s" "disk (wakeup ch s) = disk s" "dlog (wakeup ch s) = dlog s" "lru (wakeup ch s) = lru s"
  by (subst wakeup_eq, simp)+

lemma free_desc_fewer:
  assumes "free_desc i s = Ok u t" "length (vd_free s) = NUM"
  shows "length (filter Not (vd_free t)) < length (filter Not (vd_free s)) \<and> length (vd_free t) = NUM"
proof -
  have i: "i < length (vd_free s)" "\<not> vd_free s ! i" and t: "vd_free t = (vd_free s)[i := True]"
    using assms by (auto simp: free_desc_def split: if_splits)
  have s: "vd_free s = take i (vd_free s) @ False # drop (Suc i) (vd_free s)" using i id_take_nth_drop [OF i(1)] by simp
  have "vd_free t = take i (vd_free s) @ True # drop (Suc i) (vd_free s)" unfolding t using upd_conv_take_nth_drop [OF i(1)] .
  then have "length (filter Not (vd_free t)) < length (filter Not (vd_free s))" by (subst s) simp
  then show ?thesis using assms(2) t by simp
qed

function free_chain :: "nat \<Rightarrow> 'a virtio_st_scheme \<Rightarrow> (unit, 'a virtio_st_scheme) res" where
  "free_chain i s =
     (if length (vd_free s) \<noteq> NUM then Diverge
      else
        let flag = d_flags (vd_desc s ! i); nxt = d_next (vd_desc s ! i) in
        bindR (free_desc i s) (\<lambda>_ s. if flag AND VRING_DESC_F_NEXT \<noteq> 0 then free_chain (unat nxt) s else Ok () s))"
  by auto
termination
  by (relation "measure (\<lambda>(i, s). length (filter Not (vd_free s)))") (auto dest: free_desc_fewer)

declare free_chain.simps [simp del]

fun free_all :: "nat list \<Rightarrow> 'a virtio_st_scheme \<Rightarrow> (unit, 'a virtio_st_scheme) res" where
  "free_all [] s = Ok () s"
| "free_all (i # is) s = bindR (free_desc i s) (\<lambda>_ s. free_all is s)"

fun alloc3_from :: "nat \<Rightarrow> nat list \<Rightarrow> 'a virtio_st_scheme \<Rightarrow> (int \<times> nat list, 'a virtio_st_scheme) res" where
  "alloc3_from 0 idx s = Ok (0, idx) s"
| "alloc3_from (Suc n) idx s =
     (let (i, s) = alloc_desc s in
      if i < 0 then bindR (free_all idx s) (\<lambda>_ s. Ok (- 1, idx) s)
      else alloc3_from n (idx @ [nat i]) s)"

definition alloc3_desc :: "'a virtio_st_scheme \<Rightarrow> (int \<times> nat list, 'a virtio_st_scheme) res" where
  "alloc3_desc s = alloc3_from 3 [] s"

section \<open>Requests\<close>

text \<open>The product is computed in 32 bits.\<close>

definition sector_of :: "uint32 \<Rightarrow> uint64" where
  "sector_of blockno = ucast (blockno * of_nat (BSIZE div 512))"

fun rw_alloc ::
  "('a virtio_st_scheme \<Rightarrow> 'a virtio_st_scheme) list \<Rightarrow> 'a virtio_st_scheme \<Rightarrow>
     (('a virtio_st_scheme \<Rightarrow> 'a virtio_st_scheme) list \<times> nat list, 'a virtio_st_scheme) res" where
  "rw_alloc env s =
     bindR (alloc3_desc s) (\<lambda>(r, idx) s.
       if r = 0 then Ok (env, idx) s
       else
         let s = sleep_self ChDiskFree s in
         (case env of [] \<Rightarrow> Asleep ChDiskFree s | e # env \<Rightarrow> rw_alloc env (woken_self (e s))))"

declare rw_alloc.simps [simp del]

definition rw_format :: "nat \<Rightarrow> bool \<Rightarrow> nat \<Rightarrow> nat \<Rightarrow> nat \<Rightarrow> 'a virtio_st_scheme \<Rightarrow> 'a virtio_st_scheme" where
  "rw_format b write i0 i1 i2 s =
     (let buf0 = \<lparr>r_type = (if write then VIRTIO_BLK_T_OUT else VIRTIO_BLK_T_IN), r_reserved = 0,
                  r_sector = sector_of (b_blockno (buf_at s b))\<rparr>;
          desc0 = \<lparr>d_addr = OpsOf i0, d_len = 16, d_flags = VRING_DESC_F_NEXT, d_next = of_nat i1\<rparr>;
          desc1 = \<lparr>d_addr = DataOf b, d_len = of_nat BSIZE,
                   d_flags = (if write then 0 else VRING_DESC_F_WRITE) OR VRING_DESC_F_NEXT, d_next = of_nat i2\<rparr>;
          desc2 = \<lparr>d_addr = StatusOf i0, d_len = 1, d_flags = VRING_DESC_F_WRITE, d_next = 0\<rparr> in
      upd_buf b (\<lambda>x. x\<lparr>b_disk := True\<rparr>)
        (s\<lparr>vd_ops := (vd_ops s)[i0 := buf0], vd_desc := (vd_desc s)[i0 := desc0, i1 := desc1, i2 := desc2],
           info_status := (info_status s)[i0 := 0xff], info_b := (info_b s)[i0 := Some b]\<rparr>))"

definition rw_ring :: "nat \<Rightarrow> 'a virtio_st_scheme \<Rightarrow> 'a virtio_st_scheme" where
  "rw_ring i0 s = s\<lparr>av_ring := (av_ring s)[unat (av_idx s) mod NUM := of_nat i0]\<rparr>"

definition rw_publish :: "'a virtio_st_scheme \<Rightarrow> 'a virtio_st_scheme" where
  "rw_publish s = s\<lparr>av_idx := av_idx s + 1\<rparr>"

fun rw_wait ::
  "('a virtio_st_scheme \<Rightarrow> 'a virtio_st_scheme) list \<Rightarrow> nat \<Rightarrow> 'a virtio_st_scheme \<Rightarrow> (unit, 'a virtio_st_scheme) res" where
  "rw_wait env b s =
     (if b_disk (buf_at s b) then
        let s = sleep_self (ChDiskBuf b) s in
        (case env of [] \<Rightarrow> Asleep (ChDiskBuf b) s | e # env \<Rightarrow> rw_wait env b (woken_self (e s)))
      else Ok () s)"

declare rw_wait.simps [simp del]

definition rw_finish :: "nat \<Rightarrow> 'a virtio_st_scheme \<Rightarrow> (unit, 'a virtio_st_scheme) res" where
  "rw_finish i0 s = free_chain i0 (s\<lparr>info_b := (info_b s)[i0 := None]\<rparr>)"

definition virtio_disk_rw ::
  "('a virtio_st_scheme \<Rightarrow> 'a virtio_st_scheme) list \<Rightarrow> nat \<Rightarrow> bool \<Rightarrow> 'a virtio_st_scheme \<Rightarrow> (unit, 'a virtio_st_scheme) res" where
  "virtio_disk_rw env b write s =
     bindR (rw_alloc env s) (\<lambda>(env, idx) s.
       let s = rw_format b write (idx ! 0) (idx ! 1) (idx ! 2) s;
           s = rw_publish (rw_ring (idx ! 0) s) in
       bindR (rw_wait env b s) (\<lambda>_ s. rw_finish (idx ! 0) s))"

section \<open>Completion\<close>

definition intr_one :: "'a virtio_st_scheme \<Rightarrow> (unit, 'a virtio_st_scheme) res" where
  "intr_one s =
     (let n = unat (us_ring s ! (unat (vd_used_idx s) mod NUM)) in
      if info_status s ! n \<noteq> 0 then Panic ''virtio_disk_intr status''
      else
        (case info_b s ! n of
           None \<Rightarrow> Panic ''kerneltrap''
         | Some b \<Rightarrow>
             let s = wakeup (ChDiskBuf b) (upd_buf b (\<lambda>x. x\<lparr>b_disk := False\<rparr>) s) in
             Ok () (s\<lparr>vd_used_idx := vd_used_idx s + 1\<rparr>)))"

lemma intr_one_next: "intr_one s = Ok u t \<Longrightarrow> vd_used_idx t = vd_used_idx s + 1 \<and> us_idx t = us_idx s"
  by (auto simp: intr_one_def Let_def upd_buf_def split: if_splits option.splits)

text \<open>The interrupt handler works through the entries of the used ring. The acknowledgement of the interrupt is a register write without effect
  on this state.\<close>

function virtio_disk_intr :: "'a virtio_st_scheme \<Rightarrow> (unit, 'a virtio_st_scheme) res" where
  "virtio_disk_intr s = (if vd_used_idx s \<noteq> us_idx s then bindR (intr_one s) (\<lambda>_ s. virtio_disk_intr s) else Ok () s)"
  by auto
termination
proof (relation "measure (\<lambda>s. unat (us_idx s - vd_used_idx s))")
  fix s t :: "'a virtio_st_scheme" and u
  assume a: "vd_used_idx s \<noteq> us_idx s" "intr_one s = Ok u t"
  then have "us_idx s - vd_used_idx s \<noteq> 0" by simp
  then have "unat (us_idx s - vd_used_idx s - 1) < unat (us_idx s - vd_used_idx s)" using unat_minus_one [of "us_idx s - vd_used_idx s"]
    by (simp add: unat_gt_0)
  then show "(t, s) \<in> measure (\<lambda>s. unat (us_idx s - vd_used_idx s))" using intr_one_next [OF a(2)] by (simp add: algebra_simps)
qed simp

declare virtio_disk_intr.simps [simp del]

section \<open>The device and the interleaving\<close>

text \<open>Where a request stands, which of the two directions it has, and its three descriptors.\<close>

datatype stage = Allocated | Formatted | Ringed | Published

text \<open>\<open>rq\<close>: the request of each buffer; \<open>vlock\<close>: the buffer whose request holds \<open>vdisk_lock\<close>; \<open>dev_seen\<close>: the device's
  position in the available ring; \<open>dev_busy\<close>: the requests that it has taken.\<close>

record vsys_st = virtio_st +
  rq :: "nat \<Rightarrow> (stage \<times> bool \<times> nat \<times> nat \<times> nat) option"
  vlock :: "nat option"
  dev_seen :: uint16
  dev_busy :: "nat list"

text \<open>The chain of descriptors of a request.\<close>

definition chain_ok :: "'a virtio_st_scheme \<Rightarrow> nat \<Rightarrow> bool \<Rightarrow> nat \<Rightarrow> nat \<Rightarrow> nat \<Rightarrow> bool" where
  "chain_ok s b w i0 i1 i2 \<longleftrightarrow>
     vd_desc s ! i0 = \<lparr>d_addr = OpsOf i0, d_len = 16, d_flags = 1, d_next = of_nat i1\<rparr> \<and>
     vd_desc s ! i1 = \<lparr>d_addr = DataOf b, d_len = 1024, d_flags = (if w then 1 else 3), d_next = of_nat i2\<rparr> \<and>
     vd_desc s ! i2 = \<lparr>d_addr = StatusOf i0, d_len = 1, d_flags = 2, d_next = 0\<rparr> \<and>
     vd_ops s ! i0 = \<lparr>r_type = (if w then 1 else 0), r_reserved = 0, r_sector = 2 * ucast (b_blockno (buf_at s b))\<rparr>"

text \<open>What the device does with such a chain: it moves the block between the disk and the buffer and stores 0 as the status.\<close>

definition device_ok :: "(nat \<Rightarrow> vsys_st \<Rightarrow> vsys_st) \<Rightarrow> bool" where
  "device_ok serve \<longleftrightarrow>
     (\<forall>s b w i0 i1 i2. i0 < NUM \<and> i1 < NUM \<and> i2 < NUM \<and> chain_ok s b w i0 i1 i2 \<longrightarrow>
        serve i0 s = (disk_rw b w s)\<lparr>info_status := (info_status s)[i0 := 0]\<rparr>)"

definition dev_take :: "vsys_st \<Rightarrow> vsys_st" where
  "dev_take s = s\<lparr>dev_seen := dev_seen s + 1, dev_busy := unat (av_ring s ! (unat (dev_seen s) mod NUM)) # dev_busy s\<rparr>"

definition dev_complete :: "nat \<Rightarrow> vsys_st \<Rightarrow> vsys_st" where
  "dev_complete i s =
     s\<lparr>dev_busy := remove1 i (dev_busy s), us_ring := (us_ring s)[unat (us_idx s) mod NUM := of_nat i], us_idx := us_idx s + 1\<rparr>"

text \<open>The rest of the kernel leaves the driver's state and the buffers with a request alone.\<close>

definition elsewhere :: "vsys_st \<Rightarrow> vsys_st \<Rightarrow> bool" where
  "elsewhere s t \<longleftrightarrow>
     vd_desc t = vd_desc s \<and> av_ring t = av_ring s \<and> av_idx t = av_idx s \<and> us_ring t = us_ring s \<and> us_idx t = us_idx s \<and>
     vd_free t = vd_free s \<and> vd_used_idx t = vd_used_idx s \<and> info_b t = info_b s \<and> info_status t = info_status s \<and> vd_ops t = vd_ops s \<and>
     rq t = rq s \<and> vlock t = vlock s \<and> dev_seen t = dev_seen s \<and> dev_busy t = dev_busy s \<and>
     length (bufs t) = length (bufs s) \<and> (\<forall>b. rq s b \<noteq> None \<longrightarrow> buf_at t b = buf_at s b) \<and>
     (\<forall>b < length (bufs s). b_disk (buf_at t b) = b_disk (buf_at s b))"

inductive vstep :: "(nat \<Rightarrow> vsys_st \<Rightarrow> vsys_st) \<Rightarrow> vsys_st \<Rightarrow> vsys_st \<Rightarrow> bool" for serve where
  alloc: "rq s b = None \<Longrightarrow> b < length (bufs s) \<Longrightarrow> unat (b_blockno (buf_at s b)) < 2 ^ 31 \<Longrightarrow> vlock s = None \<Longrightarrow>
    alloc3_desc s = Ok (0, [i0, i1, i2]) t \<Longrightarrow>
    vstep serve s (t\<lparr>rq := (rq t)(b := Some (Allocated, w, i0, i1, i2)), vlock := Some b\<rparr>)"
| alloc_fails: "vlock s = None \<Longrightarrow> alloc3_desc s = Ok (- 1, idx) t \<Longrightarrow> vstep serve s t"
| format: "rq s b = Some (Allocated, w, i0, i1, i2) \<Longrightarrow>
    vstep serve s ((rw_format b w i0 i1 i2 s)\<lparr>rq := (rq s)(b := Some (Formatted, w, i0, i1, i2))\<rparr>)"
| ring: "rq s b = Some (Formatted, w, i0, i1, i2) \<Longrightarrow>
    vstep serve s ((rw_ring i0 s)\<lparr>rq := (rq s)(b := Some (Ringed, w, i0, i1, i2))\<rparr>)"
| publish: "rq s b = Some (Ringed, w, i0, i1, i2) \<Longrightarrow>
    vstep serve s ((rw_publish s)\<lparr>rq := (rq s)(b := Some (Published, w, i0, i1, i2)), vlock := None\<rparr>)"
| finish: "rq s b = Some (Published, w, i0, i1, i2) \<Longrightarrow> vlock s = None \<Longrightarrow> \<not> b_disk (buf_at s b) \<Longrightarrow> rw_finish i0 s = Ok () t \<Longrightarrow>
    vstep serve s (t\<lparr>rq := (rq t)(b := None)\<rparr>)"
| intr: "vlock s = None \<Longrightarrow> vd_used_idx s \<noteq> us_idx s \<Longrightarrow> intr_one s = Ok () t \<Longrightarrow> vstep serve s t"
| dev_takes: "dev_seen s \<noteq> av_idx s \<Longrightarrow> vstep serve s (dev_take s)"
| dev_serves: "i \<in> set (dev_busy s) \<Longrightarrow> vstep serve s (dev_complete i (serve i s))"
| others: "elsewhere s t \<Longrightarrow> vstep serve s t"

definition vinit :: "vsys_st \<Rightarrow> bool" where
  "vinit s \<longleftrightarrow> vd_desc s = replicate NUM null_desc \<and> vd_free s = replicate NUM True \<and> length (av_ring s) = NUM \<and> length (us_ring s) = NUM \<and>
     length (info_b s) = NUM \<and> length (info_status s) = NUM \<and> length (vd_ops s) = NUM \<and>
     av_idx s = 0 \<and> us_idx s = 0 \<and> vd_used_idx s = 0 \<and> dev_seen s = 0 \<and> dev_busy s = [] \<and> vlock s = None \<and>
     (\<forall>b. rq s b = None) \<and> (\<forall>b < length (bufs s). \<not> b_disk (buf_at s b))"

inductive vreachable :: "(nat \<Rightarrow> vsys_st \<Rightarrow> vsys_st) \<Rightarrow> vsys_st \<Rightarrow> bool" for serve where
  start: "vinit s \<Longrightarrow> vreachable serve s"
| step: "vreachable serve s \<Longrightarrow> vstep serve s t \<Longrightarrow> vreachable serve t"

section \<open>The invariant\<close>

interpretation vring: ring NUM "TYPE(uint16)"
  by unfold_locales (simp_all add: NUM_def)

definition pending :: "vsys_st \<Rightarrow> nat list" where
  "pending s = map unat (ring_contents NUM (av_ring s) (dev_seen s) (av_idx s))"

definition completed :: "vsys_st \<Rightarrow> nat list" where
  "completed s = map unat (ring_contents NUM (us_ring s) (vd_used_idx s) (us_idx s))"

definition flight :: "vsys_st \<Rightarrow> nat list" where
  "flight s = pending s @ dev_busy s @ completed s"

fun owned :: "(stage \<times> bool \<times> nat \<times> nat \<times> nat) option \<Rightarrow> nat set" where
  "owned None = {}"
| "owned (Some (st, w, i0, i1, i2)) = {i0, i1, i2}"

fun head :: "(stage \<times> bool \<times> nat \<times> nat \<times> nat) option \<Rightarrow> nat option" where
  "head None = None"
| "head (Some (st, w, i0, i1, i2)) = Some i0"

definition req_ok :: "vsys_st \<Rightarrow> nat \<Rightarrow> stage \<Rightarrow> bool \<Rightarrow> nat \<Rightarrow> nat \<Rightarrow> nat \<Rightarrow> bool" where
  "req_ok s b st w i0 i1 i2 \<longleftrightarrow>
     b < length (bufs s) \<and> unat (b_blockno (buf_at s b)) < 2 ^ 31 \<and> {i0, i1, i2} \<subseteq> {..<NUM} \<and> distinct [i0, i1, i2] \<and>
     (vlock s = Some b \<longleftrightarrow> st \<noteq> Published) \<and>
     (st \<noteq> Allocated \<longrightarrow> chain_ok s b w i0 i1 i2 \<and> info_b s ! i0 = Some b) \<and>
     (b_disk (buf_at s b) \<longleftrightarrow> st = Formatted \<or> st = Ringed \<or> i0 \<in> set (flight s)) \<and>
     (i0 \<in> set (flight s) \<longrightarrow> st = Published) \<and>
     (st = Ringed \<longrightarrow> av_ring s ! (unat (av_idx s) mod NUM) = of_nat i0)"

definition sizes_ok :: "vsys_st \<Rightarrow> bool" where
  "sizes_ok s \<longleftrightarrow> length (vd_desc s) = NUM \<and> length (vd_free s) = NUM \<and> length (av_ring s) = NUM \<and> length (us_ring s) = NUM \<and>
     length (info_b s) = NUM \<and> length (info_status s) = NUM \<and> length (vd_ops s) = NUM"

definition flight_ok :: "vsys_st \<Rightarrow> bool" where
  "flight_ok s \<longleftrightarrow> distinct (flight s) \<and> (\<forall>i \<in> set (flight s). \<exists>b. head (rq s b) = Some i) \<and>
     (\<forall>i \<in> set (completed s). info_status s ! i = 0)"

definition vinv :: "vsys_st \<Rightarrow> bool" where
  "vinv s \<longleftrightarrow> sizes_ok s \<and> flight_ok s \<and>
     (\<forall>b st w i0 i1 i2. rq s b = Some (st, w, i0, i1, i2) \<longrightarrow> req_ok s b st w i0 i1 i2) \<and>
     (\<forall>b b'. b \<noteq> b' \<longrightarrow> owned (rq s b) \<inter> owned (rq s b') = {}) \<and>
     (\<forall>i < NUM. vd_free s ! i \<longleftrightarrow> (\<forall>b. i \<notin> owned (rq s b))) \<and>
     (\<forall>b < length (bufs s). rq s b = None \<longrightarrow> \<not> b_disk (buf_at s b))"

lemma vinvD:
  assumes "vinv s"
  shows "sizes_ok s" "flight_ok s" "rq s b = Some (st, w, i0, i1, i2) \<Longrightarrow> req_ok s b st w i0 i1 i2"
    "b \<noteq> b' \<Longrightarrow> owned (rq s b) \<inter> owned (rq s b') = {}" "i < NUM \<Longrightarrow> vd_free s ! i \<longleftrightarrow> (\<forall>b. i \<notin> owned (rq s b))"
    "b < length (bufs s) \<Longrightarrow> rq s b = None \<Longrightarrow> \<not> b_disk (buf_at s b)"
  using assms unfolding vinv_def by blast+

lemma flight_owner:
  assumes "vinv s" "i \<in> set (flight s)"
  shows "\<exists>b w i1 i2. rq s b = Some (Published, w, i, i1, i2) \<and> req_ok s b Published w i i1 i2"
proof -
  obtain b where "head (rq s b) = Some i" using vinvD(2) [OF assms(1)] assms(2) unfolding flight_ok_def by blast
  then obtain st w i1 i2 where r: "rq s b = Some (st, w, i, i1, i2)" by (cases "rq s b" rule: head.cases) auto
  then have q: "req_ok s b st w i i1 i2" by (rule vinvD(3) [OF assms(1)])
  then have "st = Published" using assms(2) by (simp add: req_ok_def)
  then show ?thesis using r q by blast
qed

lemma distinct_flight: "vinv s \<Longrightarrow> distinct (flight s)"
  using vinvD(2) by (simp add: flight_ok_def)

lemma flight_bound: "vinv s \<Longrightarrow> i \<in> set (flight s) \<Longrightarrow> i < NUM"
  using flight_owner [of s i] by (auto simp: req_ok_def)

text \<open>A head that is not in flight: there is room for it in both rings.\<close>

lemma distinct_room: "distinct (xs :: nat list) \<Longrightarrow> set xs \<subseteq> {..<n} \<Longrightarrow> i < n \<Longrightarrow> i \<notin> set xs \<Longrightarrow> length xs < n"
  using psubset_card_mono [of "{..<n}" "set xs"] distinct_card [of xs] by auto

lemma pending_room:
  assumes "vinv s" "i < NUM" "i \<notin> set (flight s)"
  shows "unat (av_idx s - dev_seen s) < NUM"
proof -
  have "distinct (pending s)" "set (pending s) \<subseteq> {..<NUM}" "i \<notin> set (pending s)"
    using vinvD(2) [OF assms(1)] assms flight_bound [OF assms(1)] by (auto simp: flight_ok_def flight_def)
  then have "length (pending s) < NUM" using assms(2) by (intro distinct_room)
  then show ?thesis by (simp add: pending_def)
qed

lemma completed_room:
  assumes "vinv s" "i \<in> set (dev_busy s)"
  shows "unat (us_idx s - vd_used_idx s) < NUM"
proof -
  have "distinct (completed s)" "set (completed s) \<subseteq> {..<NUM}" "i \<notin> set (completed s)" "i < NUM"
    using vinvD(2) [OF assms(1)] assms flight_bound [OF assms(1)] by (auto simp: flight_ok_def flight_def)
  then have "length (completed s) < NUM" by (intro distinct_room)
  then show ?thesis by (simp add: completed_def)
qed

section \<open>Allocation and release\<close>

lemma alloc_desc_cases:
  obtains (none) "alloc_desc s = (- 1, s)" "\<And>i. i < length (vd_free s) \<Longrightarrow> \<not> vd_free s ! i"
  | (got) i where "i < length (vd_free s)" "vd_free s ! i" "alloc_desc s = (int i, s\<lparr>vd_free := (vd_free s)[i := False]\<rparr>)"
proof (cases "find_slot id (vd_free s)")
  case None
  then have "\<forall>x \<in> set (vd_free s). \<not> x" by (simp add: find_slot_None)
  then have "\<not> vd_free s ! i" if "i < length (vd_free s)" for i using nth_mem [OF that] by blast
  then show ?thesis using None by (intro none) (simp_all add: alloc_desc_def)
next
  case (Some i)
  then show ?thesis using find_slot_Some [OF Some] by (intro got [of i]) (simp_all add: alloc_desc_def)
qed

lemma free_desc_ok:
  assumes "i < NUM" "\<not> vd_free s ! i"
  shows "free_desc i s = Ok () (wakeup ChDiskFree (s\<lparr>vd_desc := (vd_desc s)[i := null_desc], vd_free := (vd_free s)[i := True]\<rparr>))"
  using assms by (simp add: free_desc_def)

text \<open>What allocation and release may change.\<close>

definition descs_only :: "'a virtio_st_scheme \<Rightarrow> 'a virtio_st_scheme \<Rightarrow> bool" where
  "descs_only s t \<longleftrightarrow> t = s\<lparr>vd_desc := vd_desc t, vd_free := vd_free t, procs := procs t\<rparr>"

lemma descs_onlyD:
  assumes "descs_only s t"
  shows "av_ring t = av_ring s" "av_idx t = av_idx s" "us_ring t = us_ring s" "us_idx t = us_idx s" "vd_used_idx t = vd_used_idx s"
    "info_b t = info_b s" "info_status t = info_status s" "vd_ops t = vd_ops s" "bufs t = bufs s" "disk t = disk s" "dlog t = dlog s"
  by (subst assms [unfolded descs_only_def], simp)+

lemma descs_only_more: "descs_only s t \<Longrightarrow> virtio_st.more t = virtio_st.more s"
  unfolding descs_only_def by (drule arg_cong [where f = virtio_st.more]) simp

lemma descs_only_refl [simp]: "descs_only s s" by (simp add: descs_only_def)

lemma descs_only_step:
  assumes "descs_only (s\<lparr>vd_desc := D, vd_free := F\<rparr>) t" shows "descs_only s t"
  unfolding descs_only_def by (subst assms [unfolded descs_only_def]) simp

lemma descs_only_free:
  assumes "descs_only (wakeup c (s\<lparr>vd_desc := D, vd_free := F\<rparr>)) t" shows "descs_only s t"
proof -
  have "t = (wakeup c (s\<lparr>vd_desc := D, vd_free := F\<rparr>))\<lparr>vd_desc := vd_desc t, vd_free := vd_free t, procs := procs t\<rparr>"
    using assms by (simp only: descs_only_def)
  also have "\<dots> = s\<lparr>vd_desc := vd_desc t, vd_free := vd_free t, procs := procs t\<rparr>" by (subst wakeup_eq) simp
  finally show ?thesis by (simp only: descs_only_def)
qed

lemma free_all_frees:
  assumes "distinct is" "\<And>i. i \<in> set is \<Longrightarrow> i < NUM \<and> \<not> vd_free s ! i" "length (vd_free s) = NUM"
  obtains t where "free_all is s = Ok () t" "descs_only s t" "length (vd_free t) = NUM" "length (vd_desc t) = length (vd_desc s)"
    "\<And>i. i < NUM \<Longrightarrow> vd_free t ! i \<longleftrightarrow> vd_free s ! i \<or> i \<in> set is" "\<And>i. i \<notin> set is \<Longrightarrow> vd_desc t ! i = vd_desc s ! i"
  using assms
proof (induction "is" arbitrary: s thesis)
  case Nil
  then show ?case by simp
next
  case (Cons i "is")
  let ?s = "wakeup ChDiskFree (s\<lparr>vd_desc := (vd_desc s)[i := null_desc], vd_free := (vd_free s)[i := True]\<rparr>)"
  have f: "free_desc i s = Ok () ?s" using Cons.prems(3) by (intro free_desc_ok) simp_all
  have d: "distinct is" "length (vd_free ?s) = NUM" using Cons.prems(2,4) by simp_all
  have n: "j < NUM \<and> \<not> vd_free ?s ! j" if "j \<in> set is" for j
    using that Cons.prems(2) Cons.prems(3) [of j] by (cases "j = i") simp_all
  obtain t where t: "free_all is ?s = Ok () t" "descs_only ?s t" "length (vd_free t) = NUM" "length (vd_desc t) = length (vd_desc ?s)"
    "\<And>j. j < NUM \<Longrightarrow> vd_free t ! j \<longleftrightarrow> vd_free ?s ! j \<or> j \<in> set is" "\<And>j. j \<notin> set is \<Longrightarrow> vd_desc t ! j = vd_desc ?s ! j"
    using Cons.IH [OF _ d(1) n d(2)] by blast
  show ?case
  proof (rule Cons.prems(1))
    show "free_all (i # is) s = Ok () t" using f t(1) by simp
    show "descs_only s t" using t(2) by (rule descs_only_free)
    show "length (vd_free t) = NUM" "length (vd_desc t) = length (vd_desc s)" using t(3,4) by simp_all
    show "vd_free t ! j \<longleftrightarrow> vd_free s ! j \<or> j \<in> set (i # is)" if "j < NUM" for j
      using t(5) [OF that] Cons.prems(4) that by (cases "j = i") simp_all
    show "vd_desc t ! j = vd_desc s ! j" if "j \<notin> set (i # is)" for j using t(6) [of j] that by simp
  qed
qed

lemma alloc3_from_cases:
  assumes "distinct idx" "\<And>i. i \<in> set idx \<Longrightarrow> i < NUM \<and> \<not> vd_free s ! i" "length (vd_free s) = NUM"
  obtains (got) js F where "alloc3_from n idx s = Ok (0, idx @ js) (s\<lparr>vd_free := F\<rparr>)" "length js = n" "distinct (idx @ js)" "length F = NUM"
      "\<And>i. i \<in> set js \<Longrightarrow> i < NUM \<and> vd_free s ! i" "\<And>i. i < NUM \<Longrightarrow> F ! i \<longleftrightarrow> vd_free s ! i \<and> i \<notin> set js"
  | (full) t idx' where "alloc3_from n idx s = Ok (- 1, idx') t" "descs_only s t" "length (vd_free t) = NUM" "length (vd_desc t) = length (vd_desc s)"
      "\<And>i. i < NUM \<Longrightarrow> vd_free t ! i \<longleftrightarrow> vd_free s ! i \<or> i \<in> set idx" "\<And>i. i < NUM \<Longrightarrow> i \<notin> set idx \<Longrightarrow> \<not> vd_free s ! i \<Longrightarrow> vd_desc t ! i = vd_desc s ! i"
  using assms
proof (induction n arbitrary: idx s thesis)
  case 0
  show ?case by (rule 0(1) [of "[]" "vd_free s"]) (simp_all add: 0(3,5))
next
  case (Suc n)
  show ?case
  proof (cases rule: alloc_desc_cases [of s])
    case none
    obtain t where "free_all idx s = Ok () t" "descs_only s t" "length (vd_free t) = NUM" "length (vd_desc t) = length (vd_desc s)"
      "\<And>i. i < NUM \<Longrightarrow> vd_free t ! i \<longleftrightarrow> vd_free s ! i \<or> i \<in> set idx" "\<And>i. i \<notin> set idx \<Longrightarrow> vd_desc t ! i = vd_desc s ! i"
      using free_all_frees [OF Suc.prems(3,4,5)] by blast
    then show ?thesis by (intro Suc.prems(2) [of idx t]) (simp_all add: none(1))
  next
    case (got i)
    let ?s = "s\<lparr>vd_free := (vd_free s)[i := False]\<rparr>"
    have e: "alloc3_from (Suc n) idx s = alloc3_from n (idx @ [i]) ?s" using got(3) by simp
    have new: "i \<notin> set idx" "i < NUM" using Suc.prems(4,5) got by auto
    have d: "distinct (idx @ [i])" "length (vd_free ?s) = NUM" using Suc.prems(3,5) new by simp_all
    have n: "j < NUM \<and> \<not> vd_free ?s ! j" if "j \<in> set (idx @ [i])" for j
      using that Suc.prems(4) [of j] Suc.prems(5) new by (cases "j = i") simp_all
    show ?thesis
    proof (rule Suc.IH [of "idx @ [i]" ?s thesis])
      show "distinct (idx @ [i])" "length (vd_free ?s) = NUM" by (fact d)+
      show "j < NUM \<and> \<not> vd_free ?s ! j" if "j \<in> set (idx @ [i])" for j by (fact n [OF that])
    next
      fix js F assume a: "alloc3_from n (idx @ [i]) ?s = Ok (0, (idx @ [i]) @ js) (?s\<lparr>vd_free := F\<rparr>)" "length js = n" "distinct ((idx @ [i]) @ js)" "length F = NUM"
        "\<And>j. j \<in> set js \<Longrightarrow> j < NUM \<and> vd_free ?s ! j" "\<And>j. j < NUM \<Longrightarrow> F ! j \<longleftrightarrow> vd_free ?s ! j \<and> j \<notin> set js"
      show thesis
      proof (rule Suc.prems(1))
        show "alloc3_from (Suc n) idx s = Ok (0, idx @ i # js) (s\<lparr>vd_free := F\<rparr>)" using e a(1) by simp
        show "length (i # js) = Suc n" "distinct (idx @ i # js)" "length F = NUM" using a(2-4) by simp_all
        show "j < NUM \<and> vd_free s ! j" if "j \<in> set (i # js)" for j
          using that a(5) [of j] new got(2) Suc.prems(5) by (cases "j = i") simp_all
        show "F ! j \<longleftrightarrow> vd_free s ! j \<and> j \<notin> set (i # js)" if "j < NUM" for j using a(6) [OF that] that Suc.prems(5) by (cases "j = i") simp_all
      qed
    next
      fix t idx' assume a: "alloc3_from n (idx @ [i]) ?s = Ok (- 1, idx') t" "descs_only ?s t" "length (vd_free t) = NUM" "length (vd_desc t) = length (vd_desc ?s)"
        "\<And>j. j < NUM \<Longrightarrow> vd_free t ! j \<longleftrightarrow> vd_free ?s ! j \<or> j \<in> set (idx @ [i])"
        "\<And>j. j < NUM \<Longrightarrow> j \<notin> set (idx @ [i]) \<Longrightarrow> \<not> vd_free ?s ! j \<Longrightarrow> vd_desc t ! j = vd_desc ?s ! j"
      show thesis
      proof (rule Suc.prems(2))
        show "alloc3_from (Suc n) idx s = Ok (- 1, idx') t" using e a(1) by simp
        show "descs_only s t" using a(2) descs_only_step [where s = s and D = "vd_desc s"] by simp
        show "length (vd_free t) = NUM" "length (vd_desc t) = length (vd_desc s)" using a(3,4) by simp_all
        show "vd_free t ! j \<longleftrightarrow> vd_free s ! j \<or> j \<in> set idx" if "j < NUM" for j
          using a(5) [OF that] got(2) that Suc.prems(5) by (cases "j = i") simp_all
        show "vd_desc t ! j = vd_desc s ! j" if "j < NUM" "j \<notin> set idx" "\<not> vd_free s ! j" for j
          using a(6) [of j] that got(2) Suc.prems(5) by (cases "j = i") simp_all
      qed
    qed
  qed
qed

lemma alloc3_cases:
  assumes l: "length (vd_free s) = NUM"
  obtains (got) i0 i1 i2 F where "alloc3_desc s = Ok (0, [i0, i1, i2]) (s\<lparr>vd_free := F\<rparr>)" "distinct [i0, i1, i2]" "length F = NUM"
      "\<And>i. i \<in> {i0, i1, i2} \<Longrightarrow> i < NUM \<and> vd_free s ! i" "\<And>i. i < NUM \<Longrightarrow> F ! i \<longleftrightarrow> vd_free s ! i \<and> i \<notin> {i0, i1, i2}"
  | (full) t idx where "alloc3_desc s = Ok (- 1, idx) t" "descs_only s t" "length (vd_free t) = NUM" "length (vd_desc t) = length (vd_desc s)"
      "\<And>i. i < NUM \<Longrightarrow> vd_free t ! i \<longleftrightarrow> vd_free s ! i" "\<And>i. i < NUM \<Longrightarrow> \<not> vd_free s ! i \<Longrightarrow> vd_desc t ! i = vd_desc s ! i"
proof (rule alloc3_from_cases [of "[]" s 3 thesis, OF _ _ l])
  fix js F assume a: "alloc3_from 3 [] s = Ok (0, [] @ js) (s\<lparr>vd_free := F\<rparr>)" "length js = 3" "distinct ([] @ js)" "length F = NUM"
    "\<And>i. i \<in> set js \<Longrightarrow> i < NUM \<and> vd_free s ! i" "\<And>i. i < NUM \<Longrightarrow> F ! i \<longleftrightarrow> vd_free s ! i \<and> i \<notin> set js"
  obtain i0 i1 i2 where j: "js = [i0, i1, i2]" using a(2) by (auto simp: numeral_3_eq_3 length_Suc_conv)
  show thesis
  proof (rule got)
    show "alloc3_desc s = Ok (0, [i0, i1, i2]) (s\<lparr>vd_free := F\<rparr>)" using a(1) by (simp add: alloc3_desc_def j)
    show "distinct [i0, i1, i2]" "length F = NUM" using a(3,4) by (simp_all add: j)
    show "i < NUM \<and> vd_free s ! i" if "i \<in> {i0, i1, i2}" for i using a(5) [of i] that by (simp add: j)
    show "F ! i \<longleftrightarrow> vd_free s ! i \<and> i \<notin> {i0, i1, i2}" if "i < NUM" for i using a(6) [OF that] by (simp add: j)
  qed
next
  fix t idx assume a: "alloc3_from 3 [] s = Ok (- 1, idx) t" "descs_only s t" "length (vd_free t) = NUM" "length (vd_desc t) = length (vd_desc s)"
    "\<And>i. i < NUM \<Longrightarrow> vd_free t ! i \<longleftrightarrow> vd_free s ! i \<or> i \<in> set []" "\<And>i. i < NUM \<Longrightarrow> i \<notin> set [] \<Longrightarrow> \<not> vd_free s ! i \<Longrightarrow> vd_desc t ! i = vd_desc s ! i"
  show thesis
  proof (rule full)
    show "alloc3_desc s = Ok (- 1, idx) t" using a(1) by (simp add: alloc3_desc_def)
    show "descs_only s t" "length (vd_free t) = NUM" "length (vd_desc t) = length (vd_desc s)" by (fact a)+
    show "vd_free t ! i \<longleftrightarrow> vd_free s ! i" if "i < NUM" for i using a(5) [OF that] by simp
    show "vd_desc t ! i = vd_desc s ! i" if "i < NUM" "\<not> vd_free s ! i" for i using a(6) [of i] that by simp
  qed
qed simp_all

lemma alloc3_success:
  assumes "alloc3_desc s = Ok (0, [i0, i1, i2]) u" "length (vd_free s) = NUM"
  shows "\<exists>F. u = s\<lparr>vd_free := F\<rparr> \<and> distinct [i0, i1, i2] \<and> length F = NUM \<and> (\<forall>i \<in> {i0, i1, i2}. i < NUM \<and> vd_free s ! i) \<and>
    (\<forall>i < NUM. F ! i \<longleftrightarrow> vd_free s ! i \<and> i \<notin> {i0, i1, i2})"
proof (cases rule: alloc3_cases [OF assms(2), case_names got full])
  case (got j0 j1 j2 F)
  then have "j0 = i0" "j1 = i1" "j2 = i2" "u = s\<lparr>vd_free := F\<rparr>" using assms(1) by simp_all
  then show ?thesis using got(2-5) by blast
next
  case (full t idx)
  then show ?thesis using assms(1) by simp
qed

lemma free_chain_is_free_all:
  assumes "chain_ok s b w i0 i1 i2" "distinct [i0, i1, i2]" "{i0, i1, i2} \<subseteq> {..<NUM}" "\<not> vd_free s ! i0" "\<not> vd_free s ! i1" "\<not> vd_free s ! i2"
    "length (vd_free s) = NUM"
  shows "free_chain i0 s = free_all [i0, i1, i2] s"
proof -
  define s1 where "s1 = wakeup ChDiskFree (s\<lparr>vd_desc := (vd_desc s)[i0 := null_desc], vd_free := (vd_free s)[i0 := True]\<rparr>)"
  define s2 where "s2 = wakeup ChDiskFree (s1\<lparr>vd_desc := (vd_desc s1)[i1 := null_desc], vd_free := (vd_free s1)[i1 := True]\<rparr>)"
  define s3 where "s3 = wakeup ChDiskFree (s2\<lparr>vd_desc := (vd_desc s2)[i2 := null_desc], vd_free := (vd_free s2)[i2 := True]\<rparr>)"
  have u: "unat (of_nat i1 :: uint16) = i1" "unat (of_nat i2 :: uint16) = i2"
    using assms(3) by (simp_all add: unat_of_nat take_bit_nat_eq_self NUM_def)
  have l: "length (vd_free s1) = NUM" "length (vd_free s2) = NUM" using assms(7) by (simp_all add: s1_def s2_def)
  have n: "\<not> vd_free s1 ! i1" "\<not> vd_free s2 ! i2" using assms(2,5,6) by (simp_all add: s1_def s2_def)
  have d: "vd_desc s1 ! i1 = vd_desc s ! i1" "vd_desc s2 ! i2 = vd_desc s ! i2" using assms(2) by (simp_all add: s1_def s2_def)
  have f: "free_desc i0 s = Ok () s1" "free_desc i1 s1 = Ok () s2" "free_desc i2 s2 = Ok () s3"
    using assms(3,4) n free_desc_ok unfolding s1_def [symmetric] s2_def [symmetric] s3_def [symmetric]
    by (auto simp: free_desc_ok s1_def s2_def s3_def)
  have c: "d_flags (vd_desc s ! i0) = 1" "d_flags (vd_desc s1 ! i1) AND 1 = 1" "d_flags (vd_desc s2 ! i2) = 2"
    "d_next (vd_desc s ! i0) = of_nat i1" "d_next (vd_desc s1 ! i1) = of_nat i2"
    using assms(1) d by (simp_all add: chain_ok_def)
  have "free_chain i2 s2 = Ok () s3" using f(3) c l by (simp add: free_chain.simps [of i2 s2] VRING_DESC_F_NEXT_def)
  then have "free_chain i1 s1 = Ok () s3" using f(2) c l u by (simp add: free_chain.simps [of i1 s1] VRING_DESC_F_NEXT_def)
  then have "free_chain i0 s = Ok () s3" using f(1) c assms(7) u by (simp add: free_chain.simps [of i0 s] VRING_DESC_F_NEXT_def)
  then show ?thesis using f by simp
qed

section \<open>Every step keeps the invariant\<close>

lemma sector_of_small:
  assumes "unat n < 2 ^ 31" shows "sector_of n = 2 * ucast n"
proof -
  have "unat (n * 2) = unat n * 2" using assms by (simp add: unat_word_ariths)
  moreover have "unat (2 * ucast n :: uint64) = 2 * unat n" using assms by (simp add: unat_word_ariths unsigned_ucast_eq take_bit_nat_eq_self)
  ultimately show ?thesis using assms by (simp add: word_unat_eq_iff sector_of_def BSIZE_def unsigned_ucast_eq take_bit_nat_eq_self)
qed

lemma descs_only_sys:
  assumes "descs_only s t"
  shows "rq t = rq s" "vlock t = vlock s" "dev_seen t = dev_seen s" "dev_busy t = dev_busy s" "flight t = flight s" "completed t = completed s"
proof -
  show "rq t = rq s" "vlock t = vlock s" "dev_seen t = dev_seen s" "dev_busy t = dev_busy s"
    by (subst assms [unfolded descs_only_def], simp)+
  then show "flight t = flight s" "completed t = completed s"
    using descs_onlyD [OF assms] by (simp_all add: flight_def pending_def completed_def)
qed

lemma chain_ok_cong:
  assumes "\<And>i. i \<in> {i0, i1, i2} \<Longrightarrow> vd_desc t ! i = vd_desc s ! i" "vd_ops t ! i0 = vd_ops s ! i0" "b_blockno (buf_at t b) = b_blockno (buf_at s b)"
  shows "chain_ok t b w i0 i1 i2 \<longleftrightarrow> chain_ok s b w i0 i1 i2"
  using assms by (simp add: chain_ok_def)

lemma req_ok_transfer:
  assumes "req_ok s b st w i0 i1 i2" "length (bufs t) = length (bufs s)" "b_blockno (buf_at t b) = b_blockno (buf_at s b)"
    "b_disk (buf_at t b) = b_disk (buf_at s b)" "vlock t = Some b \<longleftrightarrow> vlock s = Some b"
    "\<And>i. i \<in> {i0, i1, i2} \<Longrightarrow> vd_desc t ! i = vd_desc s ! i" "vd_ops t ! i0 = vd_ops s ! i0" "info_b t ! i0 = info_b s ! i0"
    "i0 \<in> set (flight t) \<longleftrightarrow> i0 \<in> set (flight s)"
    "st = Ringed \<Longrightarrow> av_ring t ! (unat (av_idx t) mod NUM) = av_ring s ! (unat (av_idx s) mod NUM)"
  shows "req_ok t b st w i0 i1 i2"
  using assms(1) chain_ok_cong [of i0 i1 i2 t s b w] assms(2-) unfolding req_ok_def by auto

lemma flight_ok_same:
  assumes "flight_ok s" "distinct (flight t)" "set (flight t) \<subseteq> set (flight s)" "set (completed t) \<subseteq> set (completed s)"
    "\<And>b i. head (rq s b) = Some i \<Longrightarrow> head (rq t b) = Some i" "\<And>i. i \<in> set (completed t) \<Longrightarrow> info_status t ! i = info_status s ! i"
  shows "flight_ok t"
  using assms unfolding flight_ok_def by (metis subset_iff)

lemma vinvI:
  assumes "sizes_ok t" "flight_ok t" "\<And>b st w i0 i1 i2. rq t b = Some (st, w, i0, i1, i2) \<Longrightarrow> req_ok t b st w i0 i1 i2"
    "\<And>b b'. b \<noteq> b' \<Longrightarrow> owned (rq t b) \<inter> owned (rq t b') = {}" "\<And>i. i < NUM \<Longrightarrow> vd_free t ! i \<longleftrightarrow> (\<forall>b. i \<notin> owned (rq t b))"
    "\<And>b. b < length (bufs t) \<Longrightarrow> rq t b = None \<Longrightarrow> \<not> b_disk (buf_at t b)"
  shows "vinv t"
  using assms unfolding vinv_def by blast

lemma alloc_keeps:
  assumes "vinv s" "rq s b = None" "b < length (bufs s)" "unat (b_blockno (buf_at s b)) < 2 ^ 31" "vlock s = None"
    "alloc3_desc s = Ok (0, [i0, i1, i2]) u" "t = u\<lparr>rq := (rq u)(b := Some (Allocated, w, i0, i1, i2)), vlock := Some b\<rparr>"
  shows "vinv t"
proof -
  have l: "length (vd_free s) = NUM" using vinvD(1) [OF assms(1)] by (simp add: sizes_ok_def)
  obtain F where F: "u = s\<lparr>vd_free := F\<rparr>" "distinct [i0, i1, i2]" "length F = NUM" "\<And>i. i \<in> {i0, i1, i2} \<Longrightarrow> i < NUM \<and> vd_free s ! i"
    "\<And>i. i < NUM \<Longrightarrow> F ! i \<longleftrightarrow> vd_free s ! i \<and> i \<notin> {i0, i1, i2}"
    using alloc3_success [OF assms(6) l] by blast
  have fl: "flight t = flight s" "completed t = completed s" by (simp_all add: assms(7) F(1) flight_def pending_def completed_def)
  have new: "i \<notin> owned (rq s b')" if "i \<in> {i0, i1, i2}" for i b' using vinvD(5) [OF assms(1), of i] F(4) [OF that] by simp
  have nf: "i0 \<notin> set (flight s)"
  proof
    assume "i0 \<in> set (flight s)"
    then obtain b' w j1 j2 where "rq s b' = Some (Published, w, i0, j1, j2)" using flight_owner [OF assms(1), of i0] by blast
    then show False using new [of i0 b'] by simp
  qed
  have other: "rq t b' = rq s b'" if "b' \<noteq> b" for b' using that by (simp add: assms(7) F(1))
  have me: "rq t b = Some (Allocated, w, i0, i1, i2)" by (simp add: assms(7))
  show ?thesis
  proof (rule vinvI)
    show "sizes_ok t" using vinvD(1) [OF assms(1)] F(3) by (simp add: sizes_ok_def assms(7) F(1))
    show "flight_ok t"
    proof (rule flight_ok_same [OF vinvD(2) [OF assms(1)]])
      show "head (rq t b') = Some i" if "head (rq s b') = Some i" for b' i using that other [of b'] assms(2) by (cases "b' = b") auto
      show "info_status t ! i = info_status s ! i" for i by (simp add: assms(7) F(1))
    qed (use distinct_flight [OF assms(1)] in \<open>simp_all add: fl\<close>)
    show "req_ok t b' st w' j0 j1 j2" if r: "rq t b' = Some (st, w', j0, j1, j2)" for b' st w' j0 j1 j2
    proof (cases "b' = b")
      case True
      then have "st = Allocated" "j0 = i0" "j1 = i1" "j2 = i2" using r me by simp_all
      then show ?thesis using True assms(3,4) F(2,4) nf vinvD(6) [OF assms(1,3,2)] unfolding req_ok_def fl by (auto simp: assms(7) F(1))
    next
      case False
      have q: "req_ok s b' st w' j0 j1 j2" using r other [OF False] vinvD(3) [OF assms(1)] by simp
      show ?thesis by (rule req_ok_transfer [OF q]) (use False assms(5) in \<open>simp_all add: fl\<close>, simp_all add: assms(7) F(1))
    qed
    show "owned (rq t b1) \<inter> owned (rq t b2) = {}" if "b1 \<noteq> b2" for b1 b2
      using that vinvD(4) [OF assms(1) that] new other me by (cases "b1 = b"; cases "b2 = b") auto
    show "vd_free t ! i \<longleftrightarrow> (\<forall>b. i \<notin> owned (rq t b))" if i: "i < NUM" for i
    proof -
      have "(\<forall>b'. i \<notin> owned (rq t b')) \<longleftrightarrow> (\<forall>b'. i \<notin> owned (rq s b')) \<and> i \<notin> {i0, i1, i2}"
        using other me assms(2) by (metis empty_iff owned.simps)
      then show ?thesis using F(5) [OF i] vinvD(5) [OF assms(1) i] by (simp add: assms(7) F(1))
    qed
    show "\<not> b_disk (buf_at t b')" if "b' < length (bufs t)" "rq t b' = None" for b'
      using that vinvD(6) [OF assms(1), of b'] by (auto simp: assms(7) F(1) split: if_splits)
  qed
qed

text \<open>The other steps up to \<open>rw_finish\<close> leave the owners of the descriptors alone.\<close>

lemma vinv_same_owners:
  assumes "vinv s" "sizes_ok t" "flight_ok t" "\<And>b. owned (rq t b) = owned (rq s b)" "\<And>i. i < NUM \<Longrightarrow> vd_free t ! i = vd_free s ! i"
    "\<And>b st w i0 i1 i2. rq t b = Some (st, w, i0, i1, i2) \<Longrightarrow> req_ok t b st w i0 i1 i2"
    "\<And>b. b < length (bufs t) \<Longrightarrow> rq t b = None \<Longrightarrow> b < length (bufs s) \<and> rq s b = None \<and> b_disk (buf_at t b) = b_disk (buf_at s b)"
  shows "vinv t"
  using vinvD(4-6) [OF assms(1)] assms(2-) by (intro vinvI) auto

lemma alloc_fails_keeps:
  assumes "vinv s" "alloc3_desc s = Ok (- 1, idx) t"
  shows "vinv t"
proof -
  have l: "length (vd_free s) = NUM" using vinvD(1) [OF assms(1)] by (simp add: sizes_ok_def)
  have t: "descs_only s t" "length (vd_free t) = NUM" "length (vd_desc t) = length (vd_desc s)"
      "\<And>i. i < NUM \<Longrightarrow> vd_free t ! i \<longleftrightarrow> vd_free s ! i" "\<And>i. i < NUM \<Longrightarrow> \<not> vd_free s ! i \<Longrightarrow> vd_desc t ! i = vd_desc s ! i"
    using assms(2) by (auto intro: alloc3_cases [OF l])
  note f = descs_only_sys [OF t(1)] descs_onlyD [OF t(1)]
  show ?thesis
  proof (rule vinv_same_owners [OF assms(1)])
    show "sizes_ok t" using vinvD(1) [OF assms(1)] t(2,3) by (simp add: sizes_ok_def f)
    show "flight_ok t" using vinvD(2) [OF assms(1)] by (simp add: flight_ok_def f)
    show "req_ok t b st w i0 i1 i2" if r: "rq t b = Some (st, w, i0, i1, i2)" for b st w i0 i1 i2
    proof -
      have q: "req_ok s b st w i0 i1 i2" using r f(1) vinvD(3) [OF assms(1)] by simp
      have "\<not> vd_free s ! i \<and> i < NUM" if "i \<in> {i0, i1, i2}" for i
        using that q vinvD(5) [OF assms(1), of i] r f(1) by (auto simp: req_ok_def) (metis insertCI owned.simps(2))+
      then show ?thesis using t(5) by (intro req_ok_transfer [OF q]) (simp_all add: f)
    qed
  qed (simp_all add: f t(4))
qed

lemma format_keeps:
  assumes "vinv s" "rq s b = Some (Allocated, w, i0, i1, i2)" "t = (rw_format b w i0 i1 i2 s)\<lparr>rq := (rq s)(b := Some (Formatted, w, i0, i1, i2))\<rparr>"
  shows "vinv t"
proof -
  have q: "req_ok s b Allocated w i0 i1 i2" by (rule vinvD(3) [OF assms(1,2)])
  have sz: "length (vd_desc s) = NUM" "length (vd_ops s) = NUM" "length (info_b s) = NUM" "length (info_status s) = NUM"
    using vinvD(1) [OF assms(1)] by (simp_all add: sizes_ok_def)
  have i: "i0 < NUM" "i1 < NUM" "i2 < NUM" "i0 \<noteq> i1" "i0 \<noteq> i2" "i1 \<noteq> i2" "b < length (bufs s)" "i0 \<notin> set (flight s)"
    using q by (auto simp: req_ok_def)
  have f: "flight t = flight s" "completed t = completed s"
    by (simp_all add: assms(3) rw_format_def Let_def flight_def pending_def completed_def upd_buf_def)
  have bl: "b_blockno (buf_at t b') = b_blockno (buf_at s b')" for b'
    using i(7) by (cases "b' = b") (simp_all add: assms(3) rw_format_def Let_def upd_buf_def)
  have sec: "sector_of (b_blockno (buf_at s b)) = 2 * ucast (b_blockno (buf_at s b))"
    using q sector_of_small by (simp add: req_ok_def)
  have "chain_ok t b w i0 i1 i2" unfolding chain_ok_def bl using i sz sec
    by (simp add: assms(3) rw_format_def Let_def upd_buf_def VRING_DESC_F_NEXT_def VRING_DESC_F_WRITE_def VIRTIO_BLK_T_OUT_def VIRTIO_BLK_T_IN_def BSIZE_def)
  then have me: "req_ok t b Formatted w i0 i1 i2" using q i sz f bl unfolding req_ok_def
    by (simp add: assms(3) rw_format_def Let_def upd_buf_def)
  show ?thesis
  proof (rule vinv_same_owners [OF assms(1)])
    show "sizes_ok t" using vinvD(1) [OF assms(1)] by (simp add: sizes_ok_def assms(3) rw_format_def Let_def upd_buf_def)
    show "flight_ok t"
    proof (rule flight_ok_same [OF vinvD(2) [OF assms(1)]])
      show "info_status t ! j = info_status s ! j" if "j \<in> set (completed t)" for j
        using that i(8) unfolding f by (cases "j = i0") (simp_all add: assms(3) rw_format_def Let_def upd_buf_def flight_def)
      show "head (rq t b') = Some j" if "head (rq s b') = Some j" for b' j
        using that assms(2) by (cases "b' = b") (simp_all add: assms(3))
    qed (use distinct_flight [OF assms(1)] in \<open>simp_all add: f\<close>)
    show "req_ok t b' st w' j0 j1 j2" if r: "rq t b' = Some (st, w', j0, j1, j2)" for b' st w' j0 j1 j2
    proof (cases "b' = b")
      case True
      then show ?thesis using me r by (simp add: assms(3))
    next
      case False
      then have r': "rq s b' = Some (st, w', j0, j1, j2)" using r by (simp add: assms(3))
      have "{j0, j1, j2} \<inter> {i0, i1, i2} = {}" using vinvD(4) [OF assms(1) False] r' assms(2) by simp
      then show ?thesis using False
        by (intro req_ok_transfer [OF vinvD(3) [OF assms(1) r']]) (simp_all add: f bl, simp_all add: assms(3) rw_format_def Let_def upd_buf_def, auto)
    qed
  qed (use assms(2) i(7) in \<open>auto simp: assms(3) rw_format_def Let_def upd_buf_def split: if_splits\<close>)
qed

lemma ring_poke:
  assumes "unat (w - r :: uint16) < NUM" "length d = NUM"
  shows "ring_contents NUM (d[unat w mod NUM := x]) r w = ring_contents NUM d r w"
proof -
  let ?d = "d[unat w mod NUM := x]"
  have p: "ring_contents NUM ?d r (w + 1) = ring_contents NUM d r w @ [x]" by (rule vring.contents_push [OF assms])
  have "w + 1 \<noteq> r"
  proof
    assume "w + 1 = r"
    then have "ring_contents NUM ?d r (w + 1) = []" by simp
    then show False using p by simp
  qed
  then show ?thesis using vring.contents_unpush(1) [of "w + 1" r ?d] p by simp
qed

text \<open>While one request holds the lock, all others have been published.\<close>

lemma others_published:
  assumes "vinv s" "rq s b = Some (st, w, i0, i1, i2)" "st \<noteq> Published" "b' \<noteq> b" "rq s b' = Some (st', w', j0, j1, j2)"
  shows "st' = Published"
proof -
  have "vlock s = Some b" using vinvD(3) [OF assms(1,2)] assms(3) by (simp add: req_ok_def)
  then show ?thesis using vinvD(3) [OF assms(1,5)] assms(4) by (simp add: req_ok_def)
qed

lemma ring_keeps:
  assumes "vinv s" "rq s b = Some (Formatted, w, i0, i1, i2)" "t = (rw_ring i0 s)\<lparr>rq := (rq s)(b := Some (Ringed, w, i0, i1, i2))\<rparr>"
  shows "vinv t"
proof -
  have q: "req_ok s b Formatted w i0 i1 i2" by (rule vinvD(3) [OF assms(1,2)])
  then have i: "i0 < NUM" "i0 \<notin> set (flight s)" by (auto simp: req_ok_def)
  have sz: "length (av_ring s) = NUM" using vinvD(1) [OF assms(1)] by (simp add: sizes_ok_def)
  have f: "flight t = flight s" "completed t = completed s" using ring_poke [OF pending_room [OF assms(1) i] sz]
    by (simp_all add: assms(3) rw_ring_def flight_def pending_def completed_def)
  have slot: "unat (av_idx s) mod NUM < length (av_ring s)" using sz by (simp add: NUM_def)
  have "chain_ok t b w i0 i1 i2 = chain_ok s b w i0 i1 i2" by (simp add: chain_ok_def assms(3) rw_ring_def)
  then have me: "req_ok t b Ringed w i0 i1 i2" using q slot unfolding req_ok_def f by (simp add: assms(3) rw_ring_def)
  show ?thesis
  proof (rule vinv_same_owners [OF assms(1)])
    show "sizes_ok t" using vinvD(1) [OF assms(1)] by (simp add: sizes_ok_def assms(3) rw_ring_def)
    show "flight_ok t"
    proof (rule flight_ok_same [OF vinvD(2) [OF assms(1)]])
      show "head (rq t b') = Some j" if "head (rq s b') = Some j" for b' j
        using that assms(2) by (cases "b' = b") (simp_all add: assms(3))
    qed (use distinct_flight [OF assms(1)] in \<open>simp_all add: f\<close>, simp_all add: assms(3) rw_ring_def)
    show "req_ok t b' st w' j0 j1 j2" if r: "rq t b' = Some (st, w', j0, j1, j2)" for b' st w' j0 j1 j2
    proof (cases "b' = b")
      case True
      then show ?thesis using me r by (simp add: assms(3))
    next
      case False
      then have r': "rq s b' = Some (st, w', j0, j1, j2)" using r by (simp add: assms(3))
      have "st = Published" using others_published [OF assms(1,2) _ False r'] by simp
      then show ?thesis by (intro req_ok_transfer [OF vinvD(3) [OF assms(1) r']]) (simp_all add: f, simp_all add: assms(3) rw_ring_def)
    qed
  qed (use assms(2) in \<open>auto simp: assms(3) rw_ring_def split: if_splits\<close>)
qed

lemma publish_keeps:
  assumes "vinv s" "rq s b = Some (Ringed, w, i0, i1, i2)" "t = (rw_publish s)\<lparr>rq := (rq s)(b := Some (Published, w, i0, i1, i2)), vlock := None\<rparr>"
  shows "vinv t"
proof -
  have q: "req_ok s b Ringed w i0 i1 i2" by (rule vinvD(3) [OF assms(1,2)])
  then have i: "i0 < NUM" "i0 \<notin> set (flight s)" by (auto simp: req_ok_def)
  have sz: "length (av_ring s) = NUM" using vinvD(1) [OF assms(1)] by (simp add: sizes_ok_def)
  have u: "unat (of_nat i0 :: uint16) = i0" using i(1) by (simp add: unat_of_nat take_bit_nat_eq_self NUM_def)
  have "ring_contents NUM (av_ring s) (dev_seen s) (av_idx s + 1) = ring_contents NUM (av_ring s) (dev_seen s) (av_idx s) @ [of_nat i0]"
  proof -
    have "av_ring s ! (unat (av_idx s) mod NUM) = of_nat i0" using q by (simp add: req_ok_def)
    then have "(av_ring s)[unat (av_idx s) mod NUM := of_nat i0] = av_ring s" by (metis list_update_id)
    then show ?thesis using vring.contents_push [OF pending_room [OF assms(1) i] sz, of "of_nat i0"] by simp
  qed
  then have f: "flight t = pending s @ i0 # dev_busy s @ completed s" "completed t = completed s"
    using u by (simp_all add: assms(3) rw_publish_def flight_def pending_def completed_def)
  then have fs: "set (flight t) = insert i0 (set (flight s))" unfolding f(1) flight_def [of s] by auto
  have "chain_ok t b w i0 i1 i2 = chain_ok s b w i0 i1 i2" by (simp add: chain_ok_def assms(3) rw_publish_def)
  then have me: "req_ok t b Published w i0 i1 i2" using q unfolding req_ok_def fs by (simp add: assms(3) rw_publish_def)
  show ?thesis
  proof (rule vinv_same_owners [OF assms(1)])
    show "sizes_ok t" using vinvD(1) [OF assms(1)] by (simp add: sizes_ok_def assms(3) rw_publish_def)
    have h: "head (rq t b') = head (rq s b')" for b' using assms(2) by (simp add: assms(3))
    have "\<exists>b'. head (rq s b') = Some i0" using assms(2) by (intro exI [of _ b]) simp
    moreover have "distinct (flight t)" using distinct_flight [OF assms(1)] i(2) unfolding f(1) by (auto simp: flight_def)
    ultimately show "flight_ok t" using vinvD(2) [OF assms(1)] unfolding flight_ok_def fs f(2) h by (simp add: assms(3) rw_publish_def)
    show "req_ok t b' st w' j0 j1 j2" if r: "rq t b' = Some (st, w', j0, j1, j2)" for b' st w' j0 j1 j2
    proof (cases "b' = b")
      case True
      then show ?thesis using me r by (simp add: assms(3))
    next
      case False
      then have r': "rq s b' = Some (st, w', j0, j1, j2)" using r by (simp add: assms(3))
      have "st = Published" using others_published [OF assms(1,2) _ False r'] by simp
      moreover have "j0 \<noteq> i0" using vinvD(4) [OF assms(1) False] r' assms(2) by auto
      moreover have "vlock s = Some b" using q by (simp add: req_ok_def)
      ultimately show ?thesis using False
        by (intro req_ok_transfer [OF vinvD(3) [OF assms(1) r']]) (simp_all add: fs, simp_all add: assms(3) rw_publish_def)
    qed
  qed (use assms(2) in \<open>auto simp: assms(3) rw_publish_def split: if_splits\<close>)
qed

lemma rw_finish_frees:
  assumes "vinv s" "rq s b = Some (Published, w, i0, i1, i2)"
  obtains t where "rw_finish i0 s = Ok () t" "descs_only (s\<lparr>info_b := (info_b s)[i0 := None]\<rparr>) t" "length (vd_free t) = NUM"
    "length (vd_desc t) = NUM" "\<And>i. i < NUM \<Longrightarrow> vd_free t ! i \<longleftrightarrow> vd_free s ! i \<or> i \<in> {i0, i1, i2}"
    "\<And>i. i \<notin> {i0, i1, i2} \<Longrightarrow> vd_desc t ! i = vd_desc s ! i"
proof -
  let ?s = "s\<lparr>info_b := (info_b s)[i0 := None]\<rparr>"
  have q: "req_ok s b Published w i0 i1 i2" by (rule vinvD(3) [OF assms])
  then have c: "chain_ok ?s b w i0 i1 i2" "distinct [i0, i1, i2]" "{i0, i1, i2} \<subseteq> {..<NUM}" by (simp_all add: req_ok_def chain_ok_def)
  have n: "\<not> vd_free s ! i" if "i \<in> {i0, i1, i2}" for i
  proof -
    have "i \<in> owned (rq s b)" using that assms(2) by simp
    then show ?thesis using vinvD(5) [OF assms(1), of i] that c(3) by blast
  qed
  have l: "length (vd_free ?s) = NUM" "length (vd_desc ?s) = NUM" using vinvD(1) [OF assms(1)] by (simp_all add: sizes_ok_def)
  have e: "rw_finish i0 s = free_all [i0, i1, i2] ?s" unfolding rw_finish_def
    using n l(1) by (intro free_chain_is_free_all [OF c]) simp_all
  have "i < NUM \<and> \<not> vd_free ?s ! i" if "i \<in> set [i0, i1, i2]" for i using that n [of i] c(3) by auto
  from free_all_frees [OF c(2) this l(1)] obtain t where t: "free_all [i0, i1, i2] ?s = Ok () t" "descs_only ?s t" "length (vd_free t) = NUM"
    "length (vd_desc t) = length (vd_desc ?s)" "\<And>i. i < NUM \<Longrightarrow> vd_free t ! i \<longleftrightarrow> vd_free ?s ! i \<or> i \<in> set [i0, i1, i2]"
    "\<And>i. i \<notin> set [i0, i1, i2] \<Longrightarrow> vd_desc t ! i = vd_desc ?s ! i" by blast
  show ?thesis
  proof (rule that)
    show "rw_finish i0 s = Ok () t" using e t(1) by simp
    show "descs_only ?s t" "length (vd_free t) = NUM" "length (vd_desc t) = NUM" using t(2-4) l(2) by simp_all
    show "vd_free t ! i \<longleftrightarrow> vd_free s ! i \<or> i \<in> {i0, i1, i2}" if "i < NUM" for i using t(5) [OF that] by simp
    show "vd_desc t ! i = vd_desc s ! i" if "i \<notin> {i0, i1, i2}" for i using t(6) [of i] that by simp
  qed
qed

lemma finish_keeps:
  assumes "vinv s" "rq s b = Some (Published, w, i0, i1, i2)" "\<not> b_disk (buf_at s b)" "rw_finish i0 s = Ok () u" "t = u\<lparr>rq := (rq u)(b := None)\<rparr>"
  shows "vinv t"
proof -
  let ?s = "s\<lparr>info_b := (info_b s)[i0 := None]\<rparr>"
  have q: "req_ok s b Published w i0 i1 i2" by (rule vinvD(3) [OF assms(1,2)])
  then have i: "i0 \<notin> set (flight s)" "b < length (bufs s)" using assms(3) by (auto simp: req_ok_def)
  have u: "descs_only ?s u" "length (vd_free u) = NUM"
    "length (vd_desc u) = NUM" "\<And>i. i < NUM \<Longrightarrow> vd_free u ! i \<longleftrightarrow> vd_free s ! i \<or> i \<in> {i0, i1, i2}"
    "\<And>i. i \<notin> {i0, i1, i2} \<Longrightarrow> vd_desc u ! i = vd_desc s ! i"
    using assms(4) by (auto intro: rw_finish_frees [OF assms(1,2)])
  have same: "flight ?s = flight s" "completed ?s = completed s" by (simp_all add: flight_def pending_def completed_def)
  have tu: "flight t = flight u" "completed t = completed u" by (simp_all add: assms(5) flight_def pending_def completed_def)
  note f = descs_only_sys [OF u(1)] descs_onlyD [OF u(1)] same
  have other: "rq t b' = rq s b'" if "b' \<noteq> b" for b' using that by (simp add: assms(5) f)
  have me: "rq t b = None" by (simp add: assms(5))
  show ?thesis
  proof (rule vinvI)
    show "sizes_ok t" using vinvD(1) [OF assms(1)] u(2,3) by (simp add: sizes_ok_def assms(5) f)
    have "\<exists>b'. head (rq t b') = Some j" if "j \<in> set (flight s)" for j
    proof -
      obtain b' where "head (rq s b') = Some j" using vinvD(2) [OF assms(1)] \<open>j \<in> set (flight s)\<close> unfolding flight_ok_def by blast
      moreover from this have "b' \<noteq> b" using assms(2) that i(1) by auto
      ultimately show ?thesis using other [of b'] by (intro exI [of _ b']) simp
    qed
    then show "flight_ok t" using vinvD(2) [OF assms(1)] unfolding flight_ok_def tu f by (simp add: assms(5) f)
    show "req_ok t b' st w' j0 j1 j2" if r: "rq t b' = Some (st, w', j0, j1, j2)" for b' st w' j0 j1 j2
    proof -
      have b: "b' \<noteq> b" using r me by auto
      then have r': "rq s b' = Some (st, w', j0, j1, j2)" using r other by simp
      have "{j0, j1, j2} \<inter> {i0, i1, i2} = {}" using vinvD(4) [OF assms(1) b] r' assms(2) by simp
      then show ?thesis using u(5) 
        by (intro req_ok_transfer [OF vinvD(3) [OF assms(1) r']]) (simp_all add: tu f, simp_all add: assms(5) f, auto)
    qed
    show "owned (rq t b1) \<inter> owned (rq t b2) = {}" if "b1 \<noteq> b2" for b1 b2
      using vinvD(4) [OF assms(1) that] other me by (cases "b1 = b"; cases "b2 = b") auto
    show "vd_free t ! i \<longleftrightarrow> (\<forall>b. i \<notin> owned (rq t b))" if j: "i < NUM" for i
    proof -
      have "(\<forall>b'. i \<notin> owned (rq t b')) \<longleftrightarrow> (\<forall>b'. b' \<noteq> b \<longrightarrow> i \<notin> owned (rq s b'))" using other me by (metis empty_iff owned.simps(1))
      also have "\<dots> \<longleftrightarrow> (\<forall>b'. i \<notin> owned (rq s b')) \<or> i \<in> owned (rq s b)" using vinvD(4) [OF assms(1)] by (metis disjoint_iff)
      finally show ?thesis using u(4) [OF j] vinvD(5) [OF assms(1) j] assms(2) by (simp add: assms(5))
    qed
    show "\<not> b_disk (buf_at t b')" if "b' < length (bufs t)" "rq t b' = None" for b'
    proof (cases "b' = b")
      case True
      then show ?thesis using assms(3) by (simp add: assms(5) f)
    next
      case False
      then show ?thesis using that vinvD(6) [OF assms(1), of b'] by (simp add: assms(5) f)
    qed
  qed
qed

lemma intr_one_ok:
  assumes "vinv s" "vd_used_idx s \<noteq> us_idx s"
  obtains n b w i1 i2 where "completed s = n # map unat (ring_contents NUM (us_ring s) (vd_used_idx s + 1) (us_idx s))"
    "rq s b = Some (Published, w, n, i1, i2)" "req_ok s b Published w n i1 i2"
    "intr_one s = Ok () ((wakeup (ChDiskBuf b) (upd_buf b (\<lambda>x. x\<lparr>b_disk := False\<rparr>) s))\<lparr>vd_used_idx := vd_used_idx s + 1\<rparr>)"
proof -
  define n where "n = unat (us_ring s ! (unat (vd_used_idx s) mod NUM))"
  have c: "completed s = n # map unat (ring_contents NUM (us_ring s) (vd_used_idx s + 1) (us_idx s))"
    using vring.contents_pop [OF assms(2), of "us_ring s"] by (simp add: completed_def n_def)
  then have m: "n \<in> set (completed s)" "n \<in> set (flight s)" by (simp_all add: flight_def)
  obtain b w i1 i2 where r: "rq s b = Some (Published, w, n, i1, i2)" "req_ok s b Published w n i1 i2" using flight_owner [OF assms(1) m(2)] by blast
  have "info_status s ! n = 0" using vinvD(2) [OF assms(1)] m(1) by (simp add: flight_ok_def)
  moreover have "info_b s ! n = Some b" using r(2) by (simp add: req_ok_def)
  ultimately have "intr_one s = Ok () ((wakeup (ChDiskBuf b) (upd_buf b (\<lambda>x. x\<lparr>b_disk := False\<rparr>) s))\<lparr>vd_used_idx := vd_used_idx s + 1\<rparr>)"
    by (simp add: intr_one_def n_def [symmetric] Let_def upd_buf_def)
  then show ?thesis using that c r by blast
qed

lemma wakeup_sys [simp]:
  "rq (wakeup ch s) = rq s" "vlock (wakeup ch s) = vlock s" "dev_seen (wakeup ch s) = dev_seen s" "dev_busy (wakeup ch s) = dev_busy s"
  by (subst wakeup_eq, simp)+

lemma intr_keeps:
  assumes "vinv s" "vd_used_idx s \<noteq> us_idx s" "intr_one s = Ok () t"
  shows "vinv t"
proof -
  obtain n b w i1 i2 where c: "completed s = n # map unat (ring_contents NUM (us_ring s) (vd_used_idx s + 1) (us_idx s))"
    "rq s b = Some (Published, w, n, i1, i2)" "req_ok s b Published w n i1 i2"
    "intr_one s = Ok () ((wakeup (ChDiskBuf b) (upd_buf b (\<lambda>x. x\<lparr>b_disk := False\<rparr>) s))\<lparr>vd_used_idx := vd_used_idx s + 1\<rparr>)"
    using intr_one_ok [OF assms(1,2)] by blast
  have t: "t = (wakeup (ChDiskBuf b) (upd_buf b (\<lambda>x. x\<lparr>b_disk := False\<rparr>) s))\<lparr>vd_used_idx := vd_used_idx s + 1\<rparr>" using assms(3) c(4) by simp
  have b: "b < length (bufs s)" using c(3) by (simp add: req_ok_def)
  have f: "completed s = n # completed t" "flight s = pending s @ dev_busy s @ n # completed t" "flight t = pending s @ dev_busy s @ completed t"
    using c(1) by (simp_all add: t flight_def pending_def completed_def upd_buf_def)
  have n: "n \<notin> set (flight t)" and fs: "set (flight s) = insert n (set (flight t))" "distinct (flight t)"
    using distinct_flight [OF assms(1)] unfolding f(2,3) by auto
  have bl: "b_blockno (buf_at t b') = b_blockno (buf_at s b')" "length (bufs t) = length (bufs s)" for b'
    using b by (cases "b' = b") (simp_all add: t upd_buf_def)
  have ch: "chain_ok t b w n i1 i2 = chain_ok s b w n i1 i2" by (rule chain_ok_cong) (simp_all add: bl, simp_all add: t upd_buf_def)
  show ?thesis
  proof (rule vinv_same_owners [OF assms(1)])
    show "sizes_ok t" using vinvD(1) [OF assms(1)] by (simp add: sizes_ok_def t upd_buf_def)
    show "flight_ok t"
    proof (rule flight_ok_same [OF vinvD(2) [OF assms(1)]])
      show "set (completed t) \<subseteq> set (completed s)" unfolding f(1) by auto
      show "set (flight t) \<subseteq> set (flight s)" unfolding fs(1) by auto
    qed (rule fs(2), simp_all add: t upd_buf_def)
    show "req_ok t b' st w' j0 j1 j2" if r: "rq t b' = Some (st, w', j0, j1, j2)" for b' st w' j0 j1 j2
    proof (cases "b' = b")
      case True
      then have "st = Published" "w' = w" "j0 = n" "j1 = i1" "j2 = i2" using r c(2) by (simp_all add: t upd_buf_def)
      then show ?thesis using c(3) True n b ch bl unfolding req_ok_def by (simp add: t upd_buf_def)
    next
      case False
      then have r': "rq s b' = Some (st, w', j0, j1, j2)" using r by (simp add: t upd_buf_def)
      have "j0 \<noteq> n" using vinvD(4) [OF assms(1) False] r' c(2) by auto
      then show ?thesis using False fs
        by (intro req_ok_transfer [OF vinvD(3) [OF assms(1) r']]) (simp_all add: bl, simp_all add: t upd_buf_def)
    qed
    show "b' < length (bufs s) \<and> rq s b' = None \<and> b_disk (buf_at t b') = b_disk (buf_at s b')" if "b' < length (bufs t)" "rq t b' = None" for b'
      using that c(2) by (cases "b' = b") (simp_all add: t upd_buf_def)
  qed (simp_all add: t upd_buf_def)
qed

lemma dev_take_keeps:
  assumes "vinv s" "dev_seen s \<noteq> av_idx s" "t = dev_take s"
  shows "vinv t"
proof -
  have "pending s = unat (av_ring s ! (unat (dev_seen s) mod NUM)) # pending t"
    using vring.contents_pop [OF assms(2), of "av_ring s"] by (simp add: assms(3) dev_take_def pending_def)
  then have f: "set (flight t) = set (flight s)" "distinct (flight t)" "completed t = completed s"
    using distinct_flight [OF assms(1)] by (auto simp: flight_def assms(3) dev_take_def completed_def)
  show ?thesis
  proof (rule vinv_same_owners [OF assms(1)])
    show "sizes_ok t" using vinvD(1) [OF assms(1)] by (simp add: sizes_ok_def assms(3) dev_take_def)
    show "flight_ok t" by (rule flight_ok_same [OF vinvD(2) [OF assms(1)] f(2)]) (simp_all add: f, simp_all add: assms(3) dev_take_def)
    show "req_ok t b' st w' j0 j1 j2" if r: "rq t b' = Some (st, w', j0, j1, j2)" for b' st w' j0 j1 j2
    proof -
      have "rq s b' = Some (st, w', j0, j1, j2)" using r by (simp add: assms(3) dev_take_def)
      from vinvD(3) [OF assms(1) this] show ?thesis
        by (rule req_ok_transfer) (simp_all add: f, simp_all add: assms(3) dev_take_def)
    qed
  qed (simp_all add: assms(3) dev_take_def)
qed

lemma disk_rw_virtio [simp]:
  "vd_desc (disk_rw b w s) = vd_desc s" "av_ring (disk_rw b w s) = av_ring s" "av_idx (disk_rw b w s) = av_idx s"
  "us_ring (disk_rw b w s) = us_ring s" "us_idx (disk_rw b w s) = us_idx s" "vd_free (disk_rw b w s) = vd_free s"
  "vd_used_idx (disk_rw b w s) = vd_used_idx s" "info_b (disk_rw b w s) = info_b s" "info_status (disk_rw b w s) = info_status s"
  "vd_ops (disk_rw b w s) = vd_ops s" "length (bufs (disk_rw b w s)) = length (bufs s)"
  by (simp_all add: disk_rw_def Let_def upd_buf_def)

lemma disk_rw_sys [simp]:
  "rq (disk_rw b w s) = rq s" "vlock (disk_rw b w s) = vlock s" "dev_seen (disk_rw b w s) = dev_seen s" "dev_busy (disk_rw b w s) = dev_busy s"
  by (simp_all add: disk_rw_def Let_def upd_buf_def)

lemma disk_rw_buf:
  "b < length (bufs s) \<Longrightarrow> b_blockno (buf_at (disk_rw b w s) b') = b_blockno (buf_at s b')"
  "b < length (bufs s) \<Longrightarrow> b_disk (buf_at (disk_rw b w s) b') = b_disk (buf_at s b')"
  by (cases "b' = b"; simp add: disk_rw_def Let_def upd_buf_def)+

lemma serve_keeps:
  assumes "vinv s" "i \<in> set (dev_busy s)" "device_ok serve" "t = dev_complete i (serve i s)"
  shows "vinv t"
proof -
  have fl: "i \<in> set (flight s)" using assms(2) by (simp add: flight_def)
  obtain b w i1 i2 where r: "rq s b = Some (Published, w, i, i1, i2)" "req_ok s b Published w i i1 i2" using flight_owner [OF assms(1) fl] by blast
  have i: "i < NUM" "i1 < NUM" "i2 < NUM" "chain_ok s b w i i1 i2" "b < length (bufs s)" using r(2) by (simp_all add: req_ok_def)
  then have sv: "serve i s = (disk_rw b w s)\<lparr>info_status := (info_status s)[i := 0]\<rparr>" using assms(3) unfolding device_ok_def by blast
  have t: "t = (disk_rw b w s)\<lparr>info_status := (info_status s)[i := 0], dev_busy := remove1 i (dev_busy s),
      us_ring := (us_ring s)[unat (us_idx s) mod NUM := of_nat i], us_idx := us_idx s + 1\<rparr>"
    by (simp add: assms(4) sv dev_complete_def)
  have sz: "length (us_ring s) = NUM" "length (info_status s) = NUM" using vinvD(1) [OF assms(1)] by (simp_all add: sizes_ok_def)
  have u: "unat (of_nat i :: uint32) = i" using i(1) by (simp add: unat_of_nat take_bit_nat_eq_self NUM_def)
  have f: "completed t = completed s @ [i]" "pending t = pending s" "dev_busy t = remove1 i (dev_busy s)"
    using vring.contents_push [OF completed_room [OF assms(1,2)] sz(1), of "of_nat i"] u by (simp_all add: t completed_def pending_def)
  have fs: "set (flight t) = set (flight s)" "distinct (flight t)"
    using distinct_flight [OF assms(1)] assms(2) unfolding flight_def f by (auto simp: set_remove1_eq)
  have h: "rq t = rq s" by (simp add: t)
  show ?thesis
  proof (rule vinv_same_owners [OF assms(1)])
    show "sizes_ok t" using vinvD(1) [OF assms(1)] by (simp add: sizes_ok_def t)
    have "info_status t ! j = 0" if "j \<in> set (completed t)" for j
      using that vinvD(2) [OF assms(1)] i(1) sz(2) unfolding f(1) by (cases "j = i") (simp_all add: t flight_ok_def)
    then show "flight_ok t" using vinvD(2) [OF assms(1)] fs unfolding flight_ok_def h by simp
    show "req_ok t b' st w' j0 j1 j2" if "rq t b' = Some (st, w', j0, j1, j2)" for b' st w' j0 j1 j2
    proof -
      have "rq s b' = Some (st, w', j0, j1, j2)" using that h by simp
      from vinvD(3) [OF assms(1) this] show ?thesis
        by (rule req_ok_transfer) (simp_all add: fs, simp_all add: t disk_rw_buf i(5))
    qed
  qed (simp_all add: h, simp_all add: t disk_rw_buf i(5))
qed

lemma elsewhere_keeps:
  assumes "vinv s" "elsewhere s t"
  shows "vinv t"
proof -
  have e: "vd_desc t = vd_desc s" "av_ring t = av_ring s" "av_idx t = av_idx s" "us_ring t = us_ring s" "us_idx t = us_idx s"
     "vd_free t = vd_free s" "vd_used_idx t = vd_used_idx s" "info_b t = info_b s" "info_status t = info_status s" "vd_ops t = vd_ops s"
     "rq t = rq s" "vlock t = vlock s" "dev_seen t = dev_seen s" "dev_busy t = dev_busy s" "length (bufs t) = length (bufs s)"
    and b: "\<And>b. rq s b \<noteq> None \<Longrightarrow> buf_at t b = buf_at s b" "\<And>b. b < length (bufs s) \<Longrightarrow> b_disk (buf_at t b) = b_disk (buf_at s b)"
    using assms(2) unfolding elsewhere_def by blast+
  have f: "flight t = flight s" "completed t = completed s" by (simp_all add: flight_def pending_def completed_def e)
  show ?thesis
  proof (rule vinv_same_owners [OF assms(1)])
    show "sizes_ok t" using vinvD(1) [OF assms(1)] by (simp add: sizes_ok_def e)
    show "flight_ok t" using vinvD(2) [OF assms(1)] by (simp add: flight_ok_def e f)
    show "req_ok t b' st w' j0 j1 j2" if "rq t b' = Some (st, w', j0, j1, j2)" for b' st w' j0 j1 j2
    proof -
      have r: "rq s b' = Some (st, w', j0, j1, j2)" using that e(11) by simp
      then have "buf_at t b' = buf_at s b'" using b(1) [of b'] by simp
      then show ?thesis by (intro req_ok_transfer [OF vinvD(3) [OF assms(1) r]]) (simp_all add: f e)
    qed
  qed (use b(2) in \<open>simp_all add: e\<close>)
qed

lemma step_inv: "vstep serve s t \<Longrightarrow> device_ok serve \<Longrightarrow> vinv s \<Longrightarrow> vinv t"
proof (induction rule: vstep.induct)
  case (alloc s b i0 i1 i2 t w)
  then show ?case using alloc_keeps [of s b i0 i1 i2 t _ w] by blast
next
  case (alloc_fails s idx t)
  then show ?case using alloc_fails_keeps by blast
next
  case (format s b w i0 i1 i2)
  then show ?case using format_keeps by blast
next
  case (ring s b w i0 i1 i2)
  then show ?case using ring_keeps by blast
next
  case (publish s b w i0 i1 i2)
  then show ?case using publish_keeps by blast
next
  case (finish s b w i0 i1 i2 t)
  then show ?case using finish_keeps by blast
next
  case (intr s t)
  then show ?case using intr_keeps by blast
next
  case (dev_takes s)
  then show ?case using dev_take_keeps by blast
next
  case (dev_serves i s)
  then show ?case using serve_keeps by blast
next
  case (others s t)
  then show ?case using elsewhere_keeps by blast
qed

lemma vinit_inv: "vinit s \<Longrightarrow> vinv s"
  by (simp add: vinv_def vinit_def sizes_ok_def flight_ok_def flight_def pending_def completed_def)

lemma vreachable_inv: "vreachable serve s \<Longrightarrow> device_ok serve \<Longrightarrow> vinv s"
  by (induction rule: vreachable.induct) (auto intro: vinit_inv step_inv)

section \<open>Main results\<close>

text \<open>A device that follows the chain it is given, as the specification describes.\<close>

definition serve_chain :: "nat \<Rightarrow> vsys_st \<Rightarrow> vsys_st" where
  "serve_chain i s =
     (let d0 = vd_desc s ! i; d1 = vd_desc s ! unat (d_next d0); d2 = vd_desc s ! unat (d_next d1) in
      case (d_addr d0, d_addr d1, d_addr d2) of
        (OpsOf n, DataOf b, StatusOf k) \<Rightarrow>
          let req = vd_ops s ! n; bn = ucast (drop_bit 1 (r_sector req)) in
          (if r_type req = VIRTIO_BLK_T_OUT
           then s\<lparr>disk := (disk s)(bn := b_data (buf_at s b)), dlog := dlog s @ [(bn, b_data (buf_at s b))]\<rparr>
           else upd_buf b (\<lambda>x. x\<lparr>b_data := disk s bn\<rparr>) s)\<lparr>info_status := (info_status s)[k := 0]\<rparr>
      | _ \<Rightarrow> s)"

lemma serve_chain_ok: "device_ok serve_chain"
  unfolding device_ok_def
proof (intro allI impI, elim conjE)
  fix s :: vsys_st and b w i0 i1 i2
  assume i: "i0 < NUM" "i1 < NUM" "i2 < NUM" and c: "chain_ok s b w i0 i1 i2"
  have u: "unat (of_nat i1 :: uint16) = i1" "unat (of_nat i2 :: uint16) = i2"
    using i by (simp_all add: unat_of_nat take_bit_nat_eq_self NUM_def)
  have "drop_bit 1 (2 * ucast n :: uint64) = ucast n" for n :: uint32
  proof -
    have l: "unat n < 2 ^ 32" using unsigned_less [of n] by simp
    then have "unat (2 * ucast n :: uint64) = 2 * unat n"
      by (simp add: unat_word_ariths unsigned_ucast_eq take_bit_nat_eq_self)
    then show ?thesis using l
      by (simp add: word_unat_eq_iff unsigned_drop_bit_eq drop_bit_eq_div unat_div_distrib unsigned_ucast_eq take_bit_nat_eq_self)
  qed
  moreover have "ucast (ucast n :: uint64) = n" for n :: uint32
    by (simp add: word_unat_eq_iff unsigned_ucast_eq take_bit_word_beyond_length_eq)
  ultimately show "serve_chain i0 s = (disk_rw b w s)\<lparr>info_status := (info_status s)[i0 := 0]\<rparr>"
    using c u by (cases w) (simp_all add: serve_chain_def chain_ok_def disk_rw_def Let_def VIRTIO_BLK_T_OUT_def)
qed

lemma virtio_disk_intr_ok:
  "vinv s \<Longrightarrow> \<exists>t. virtio_disk_intr s = Ok () t \<and> vinv t \<and> flight t = pending s @ dev_busy s \<and> rq t = rq s"
proof (induction s rule: virtio_disk_intr.induct)
  case (1 s)
  show ?case
  proof (cases "vd_used_idx s = us_idx s")
    case True
    then show ?thesis using 1(2) by (subst virtio_disk_intr.simps) (simp add: completed_def flight_def)
  next
    case False
    obtain b where c:
      "intr_one s = Ok () ((wakeup (ChDiskBuf b) (upd_buf b (\<lambda>x. x\<lparr>b_disk := False\<rparr>) s))\<lparr>vd_used_idx := vd_used_idx s + 1\<rparr>)" (is "_ = Ok () ?u")
      using intr_one_ok [OF 1(2) False] by blast
    have u: "vinv ?u" using intr_keeps [OF 1(2) False c] .
    have "rq ?u = rq s" "pending ?u = pending s" "dev_busy ?u = dev_busy s" by (simp_all add: pending_def upd_buf_def)
    then show ?thesis using 1(1) [OF False c u] c False by (subst virtio_disk_intr.simps) simp
  qed
qed

text \<open>A finished request of which nothing is in flight.\<close>

lemma served_not_busy:
  assumes "vinv s" "vinv t" "rq t = rq s" "flight t = pending s @ dev_busy s" "rq s b = Some (Published, w, i0, i1, i2)" "i0 \<in> set (completed s)"
  shows "\<not> b_disk (buf_at t b)"
proof -
  have "i0 \<notin> set (flight t)" using distinct_flight [OF assms(1)] assms(4,6) by (auto simp: flight_def)
  moreover have "req_ok t b Published w i0 i1 i2" using vinvD(3) [OF assms(2)] assms(3,5) by simp
  ultimately show ?thesis by (simp add: req_ok_def)
qed

text \<open>The code of \<open>virtio_disk_rw\<close> up to its first sleep is a path of the transition system: it sleeps for descriptors, or with the request
  published. The fields \<open>rq\<close> and \<open>vlock\<close> are not part of the code's state.\<close>

lemma rw_publish_path:
  assumes "vreachable serve s" "rq s b = None" "b < length (bufs s)" "unat (b_blockno (buf_at s b)) < 2 ^ 31" "vlock s = None"
    "alloc3_desc s = Ok (0, [i0, i1, i2]) u"
  shows "vreachable serve ((rw_publish (rw_ring i0 (rw_format b w i0 i1 i2 u)))\<lparr>rq := (rq u)(b := Some (Published, w, i0, i1, i2)), vlock := None\<rparr>)"
proof -
  define s1 where "s1 = u\<lparr>rq := (rq u)(b := Some (Allocated, w, i0, i1, i2)), vlock := Some b\<rparr>"
  define s2 where "s2 = (rw_format b w i0 i1 i2 s1)\<lparr>rq := (rq s1)(b := Some (Formatted, w, i0, i1, i2))\<rparr>"
  define s3 where "s3 = (rw_ring i0 s2)\<lparr>rq := (rq s2)(b := Some (Ringed, w, i0, i1, i2))\<rparr>"
  define s4 where "s4 = (rw_publish s3)\<lparr>rq := (rq s3)(b := Some (Published, w, i0, i1, i2)), vlock := None\<rparr>"
  have "vreachable serve s1" unfolding s1_def by (rule vreachable.step [OF assms(1) vstep.alloc [OF assms(2-6)]])
  moreover have "vstep serve s1 s2" unfolding s2_def by (rule vstep.format) (simp add: s1_def)
  moreover have "vstep serve s2 s3" unfolding s3_def by (rule vstep.ring) (simp add: s2_def)
  moreover have "vstep serve s3 s4" unfolding s4_def by (rule vstep.publish) (simp add: s3_def)
  ultimately have "vreachable serve s4" by (blast intro: vreachable.step)
  moreover have "s4 = (rw_publish (rw_ring i0 (rw_format b w i0 i1 i2 u)))\<lparr>rq := (rq u)(b := Some (Published, w, i0, i1, i2)), vlock := None\<rparr>"
    by (simp add: s4_def s3_def s2_def s1_def rw_format_def rw_ring_def rw_publish_def upd_buf_def Let_def)
  ultimately show ?thesis by simp
qed

lemma virtio_disk_rw_sleeps:
  assumes "vreachable serve s" "device_ok serve" "rq s b = None" "b < length (bufs s)" "unat (b_blockno (buf_at s b)) < 2 ^ 31" "vlock s = None"
  shows "(\<exists>t. virtio_disk_rw [] b w s = Asleep ChDiskFree (sleep_self ChDiskFree t) \<and> vreachable serve t) \<or>
    (\<exists>t i0 i1 i2. virtio_disk_rw [] b w s = Asleep (ChDiskBuf b) (sleep_self (ChDiskBuf b) (t\<lparr>rq := rq s, vlock := vlock s\<rparr>)) \<and>
      vreachable serve t \<and> rq t b = Some (Published, w, i0, i1, i2))"
proof -
  have "length (vd_free s) = NUM" using vinvD(1) [OF vreachable_inv [OF assms(1,2)]] by (simp add: sizes_ok_def)
  then show ?thesis
  proof (cases rule: alloc3_cases [case_names got full])
    case (got i0 i1 i2 F)
    let ?u = "s\<lparr>vd_free := F\<rparr>"
    let ?p = "rw_publish (rw_ring i0 (rw_format b w i0 i1 i2 ?u))"
    let ?t = "?p\<lparr>rq := (rq ?u)(b := Some (Published, w, i0, i1, i2)), vlock := None\<rparr>"
    have "b_disk (buf_at ?p b)" using assms(4) by (simp add: rw_publish_def rw_ring_def rw_format_def upd_buf_def nth_upd_nth Let_def)
    then have "virtio_disk_rw [] b w s = Asleep (ChDiskBuf b) (sleep_self (ChDiskBuf b) ?p)"
      using got(1) by (simp add: virtio_disk_rw_def rw_alloc.simps rw_wait.simps Let_def)
    moreover have "?p = ?t\<lparr>rq := rq s, vlock := vlock s\<rparr>" by (simp add: rw_format_def rw_ring_def rw_publish_def upd_buf_def Let_def)
    moreover have "vreachable serve ?t" by (rule rw_publish_path [OF assms(1,3-6) got(1)])
    moreover have "rq ?t b = Some (Published, w, i0, i1, i2)" by simp
    ultimately show ?thesis by metis
  next
    case (full t idx)
    then have "virtio_disk_rw [] b w s = Asleep ChDiskFree (sleep_self ChDiskFree t)" by (simp add: virtio_disk_rw_def rw_alloc.simps)
    moreover have "vreachable serve t" by (rule vreachable.step [OF assms(1) vstep.alloc_fails [OF assms(6) full(1)]])
    ultimately show ?thesis by blast
  qed
qed

text \<open>C35: in every interleaving of disk requests, interrupts and the device, the driver does not panic: allocation returns, the interrupt handler
  returns and has then woken every request the device has completed, and a request whose buffer the handler has released leaves its loop and gets its
  descriptors freed. A call of \<open>virtio_disk_rw\<close> runs until it sleeps, for descriptors or with its request published, in a state of the
  interleaving. (The panics of \<open>virtio_disk_init\<close>, which runs before, are about a device that is not there.)\<close>

theorem virtio_never_panics:
  assumes "device_ok serve" "vreachable serve s"
  shows "(\<exists>r t. alloc3_desc s = Ok r t) \<and>
    (\<exists>t. virtio_disk_intr s = Ok () t \<and> (\<forall>b w i0 i1 i2. rq s b = Some (Published, w, i0, i1, i2) \<and> i0 \<in> set (completed s) \<longrightarrow> \<not> b_disk (buf_at t b))) \<and>
    (\<forall>b w i0 i1 i2. rq s b = Some (Published, w, i0, i1, i2) \<longrightarrow>
      (\<exists>t. rw_finish i0 s = Ok () t \<and> vd_free t ! i0 \<and> vd_free t ! i1 \<and> vd_free t ! i2) \<and>
      (\<not> b_disk (buf_at s b) \<longrightarrow> rw_wait [] b s = Ok () s)) \<and>
    (\<forall>b w. rq s b = None \<and> b < length (bufs s) \<and> unat (b_blockno (buf_at s b)) < 2 ^ 31 \<and> vlock s = None \<longrightarrow>
      (\<exists>t. virtio_disk_rw [] b w s = Asleep ChDiskFree (sleep_self ChDiskFree t) \<and> vreachable serve t) \<or>
      (\<exists>t i0 i1 i2. virtio_disk_rw [] b w s = Asleep (ChDiskBuf b) (sleep_self (ChDiskBuf b) (t\<lparr>rq := rq s, vlock := vlock s\<rparr>)) \<and>
        vreachable serve t \<and> rq t b = Some (Published, w, i0, i1, i2)))"
proof (rule conjI [OF _ conjI [OF _ conjI]])
  have v: "vinv s" by (rule vreachable_inv [OF assms(2,1)])
  have l: "length (vd_free s) = NUM" using vinvD(1) [OF v] by (simp add: sizes_ok_def)
  show "\<exists>r t. alloc3_desc s = Ok r t" by (rule alloc3_cases [OF l]) blast+
  obtain t where t: "virtio_disk_intr s = Ok () t" "vinv t" "flight t = pending s @ dev_busy s" "rq t = rq s"
    using virtio_disk_intr_ok [OF v] by blast
  show "\<exists>t. virtio_disk_intr s = Ok () t \<and> (\<forall>b w i0 i1 i2. rq s b = Some (Published, w, i0, i1, i2) \<and> i0 \<in> set (completed s) \<longrightarrow> \<not> b_disk (buf_at t b))"
    using t(1) served_not_busy [OF v t(2,4,3)] by blast
  show "\<forall>b w i0 i1 i2. rq s b = Some (Published, w, i0, i1, i2) \<longrightarrow>
      (\<exists>t. rw_finish i0 s = Ok () t \<and> vd_free t ! i0 \<and> vd_free t ! i1 \<and> vd_free t ! i2) \<and> (\<not> b_disk (buf_at s b) \<longrightarrow> rw_wait [] b s = Ok () s)"
  proof (intro allI impI conjI)
    fix b w i0 i1 i2 assume r: "rq s b = Some (Published, w, i0, i1, i2)"
    have i: "i0 < NUM" "i1 < NUM" "i2 < NUM" using vinvD(3) [OF v r] by (simp_all add: req_ok_def)
    show "\<exists>t. rw_finish i0 s = Ok () t \<and> vd_free t ! i0 \<and> vd_free t ! i1 \<and> vd_free t ! i2"
      by (rule rw_finish_frees [OF v r]) (use i in auto)
  qed (simp add: rw_wait.simps)
qed (use virtio_disk_rw_sleeps [OF assms(2,1)] in blast)

text \<open>An example: a write request for one buffer, from the start until the device has taken it.\<close>

definition boot_disk :: vsys_st where
  "boot_disk = \<lparr>mem = (\<lambda>_. 0), kend = 0, freelist = 0, procs = [], nextpid = 1, initproc = None, cpus = [], hart = 0, ticks = 0,
     trampoline_pa = 0, forkret_pa = 0, disk = (\<lambda>_. []), dlog = [],
     bufs = [\<lparr>b_valid = True, b_disk = False, b_dev = 1, b_blockno = 7, b_lock = \<lparr>sl_locked = True, sl_pid = 1\<rparr>, b_refcnt = 1, b_data = [1, 2, 3]\<rparr>],
     lru = [0], vd_desc = replicate NUM null_desc, av_ring = replicate NUM 0, av_idx = 0, us_ring = replicate NUM 0, us_idx = 0,
     vd_free = replicate NUM True, vd_used_idx = 0, info_b = replicate NUM None, info_status = replicate NUM 0,
     vd_ops = replicate NUM \<lparr>r_type = 0, r_reserved = 0, r_sector = 0\<rparr>, mmio = [], rq = (\<lambda>_. None), vlock = None, dev_seen = 0, dev_busy = []\<rparr>"

definition disk_example :: vsys_st where
  "disk_example =
     (let s = boot_disk\<lparr>vd_free := [False, False, False, True, True, True, True, True], rq := (\<lambda>_. None)(0 := Some (Allocated, True, 0, 1, 2)), vlock := Some 0\<rparr>;
          s = (rw_format 0 True 0 1 2 s)\<lparr>rq := (rq s)(0 := Some (Formatted, True, 0, 1, 2))\<rparr>;
          s = (rw_ring 0 s)\<lparr>rq := (rq s)(0 := Some (Ringed, True, 0, 1, 2))\<rparr>;
          s = (rw_publish s)\<lparr>rq := (rq s)(0 := Some (Published, True, 0, 1, 2)), vlock := None\<rparr> in
      dev_take s)"

lemma boot_disk_reachable: "vreachable serve boot_disk"
  by (rule vreachable.start) (simp add: vinit_def boot_disk_def)

lemma disk_example_reachable: "vreachable serve disk_example"
proof -
  define s1 where "s1 = boot_disk\<lparr>vd_free := [False, False, False, True, True, True, True, True], rq := (\<lambda>_. None)(0 := Some (Allocated, True, 0, 1, 2)), vlock := Some 0\<rparr>"
  define s2 where "s2 = (rw_format 0 True 0 1 2 s1)\<lparr>rq := (rq s1)(0 := Some (Formatted, True, 0, 1, 2))\<rparr>"
  define s3 where "s3 = (rw_ring 0 s2)\<lparr>rq := (rq s2)(0 := Some (Ringed, True, 0, 1, 2))\<rparr>"
  define s4 where "s4 = (rw_publish s3)\<lparr>rq := (rq s3)(0 := Some (Published, True, 0, 1, 2)), vlock := None\<rparr>"
  have a: "alloc3_desc boot_disk = Ok (0, [0, 1, 2]) (boot_disk\<lparr>vd_free := [False, False, False, True, True, True, True, True]\<rparr>)"
  proof -
    have "vd_free boot_disk = [True, True, True, True, True, True, True, True]" by (simp add: boot_disk_def NUM_def numeral_eq_Suc)
    then show ?thesis by (simp add: alloc3_desc_def numeral_3_eq_3 alloc_desc_def)
  qed
  have "vstep serve boot_disk s1" using vstep.alloc [of boot_disk 0 0 1 2 _ serve True] a by (simp add: s1_def boot_disk_def)
  then have "vreachable serve s1" by (rule vreachable.step [OF boot_disk_reachable])
  moreover have "vstep serve s1 s2" unfolding s2_def by (rule vstep.format) (simp add: s1_def)
  moreover have "vstep serve s2 s3" unfolding s3_def by (rule vstep.ring) (simp add: s2_def)
  moreover have "vstep serve s3 s4" unfolding s4_def by (rule vstep.publish) (simp add: s3_def)
  moreover have "vstep serve s4 (dev_take s4)"
    by (rule vstep.dev_takes) (simp add: s4_def s3_def s2_def s1_def rw_format_def rw_ring_def rw_publish_def Let_def upd_buf_def boot_disk_def)
  moreover have "disk_example = dev_take s4" by (simp add: disk_example_def s4_def s3_def s2_def s1_def Let_def)
  ultimately show ?thesis by (metis vreachable.step)
qed

lemma disk_example_busy: "dev_busy disk_example = [0]"
  by (simp add: disk_example_def dev_take_def rw_format_def rw_ring_def rw_publish_def Let_def upd_buf_def boot_disk_def NUM_def)

theorem virtio_never_panics_witness:
  "device_ok serve_chain \<and> vreachable serve_chain disk_example \<and> (\<exists>r t. alloc3_desc disk_example = Ok r t) \<and>
   (\<exists>t. virtio_disk_intr disk_example = Ok () t)"
  using virtio_never_panics [OF serve_chain_ok disk_example_reachable] serve_chain_ok disk_example_reachable by blast

text \<open>C34: a disk request is the atomic operation of the buffer cache. Whatever else is in flight, what the device does to a request that it has taken
  is \<open>disk_rw\<close> of the buffer and the direction the request was made with; every published request is in flight exactly once until the
  interrupt handler has seen its completion, and its caller waits as long.\<close>

theorem virtio_refines_disk_rw:
  assumes "device_ok serve" "vreachable serve s"
  shows "distinct (flight s) \<and>
    (\<forall>b w i0 i1 i2. rq s b = Some (Published, w, i0, i1, i2) \<longrightarrow> b_disk (buf_at s b) = (i0 \<in> set (flight s))) \<and>
    (\<forall>i \<in> set (dev_busy s). \<exists>b w i1 i2. rq s b = Some (Published, w, i, i1, i2) \<and>
      disk (dev_complete i (serve i s)) = disk (disk_rw b w s) \<and> dlog (dev_complete i (serve i s)) = dlog (disk_rw b w s) \<and>
      bufs (dev_complete i (serve i s)) = bufs (disk_rw b w s))"
proof (intro conjI allI impI ballI)
  have v: "vinv s" by (rule vreachable_inv [OF assms(2,1)])
  show "distinct (flight s)" by (rule distinct_flight [OF v])
  show "b_disk (buf_at s b) = (i0 \<in> set (flight s))" if "rq s b = Some (Published, w, i0, i1, i2)" for b w i0 i1 i2
    using vinvD(3) [OF v that] by (simp add: req_ok_def)
  fix i assume "i \<in> set (dev_busy s)"
  then have "i \<in> set (flight s)" by (simp add: flight_def)
  then obtain b w i1 i2 where r: "rq s b = Some (Published, w, i, i1, i2)" "req_ok s b Published w i i1 i2" using flight_owner [OF v] by blast
  then have "i < NUM" "i1 < NUM" "i2 < NUM" "chain_ok s b w i i1 i2" by (simp_all add: req_ok_def)
  then have "serve i s = (disk_rw b w s)\<lparr>info_status := (info_status s)[i := 0]\<rparr>"
    using assms(1) unfolding device_ok_def by blast
  then show "\<exists>b w i1 i2. rq s b = Some (Published, w, i, i1, i2) \<and>
      disk (dev_complete i (serve i s)) = disk (disk_rw b w s) \<and> dlog (dev_complete i (serve i s)) = dlog (disk_rw b w s) \<and>
      bufs (dev_complete i (serve i s)) = bufs (disk_rw b w s)"
    using r(1) by (intro exI [of _ b] exI [of _ w] exI [of _ i1] exI [of _ i2]) (simp add: dev_complete_def)
qed

theorem virtio_refines_disk_rw_witness:
  "device_ok serve_chain \<and> vreachable serve_chain disk_example \<and> 0 \<in> set (dev_busy disk_example) \<and>
   (\<exists>b w i1 i2. rq disk_example b = Some (Published, w, 0, i1, i2) \<and>
      disk (dev_complete 0 (serve_chain 0 disk_example)) = disk (disk_rw b w disk_example))"
proof -
  have "0 \<in> set (dev_busy disk_example)" by (simp add: disk_example_busy)
  then show ?thesis
    using virtio_refines_disk_rw [OF serve_chain_ok disk_example_reachable] serve_chain_ok disk_example_reachable by blast
qed

text \<open>After a successful initialization all descriptors are free, the rings are empty, and the device has been told so.\<close>

lemma queue_setup_ready:
  assumes "queue_setup status s = Ok () t"
  shows "vd_free t = replicate NUM True \<and> vd_desc t = replicate NUM null_desc \<and> av_idx t = 0 \<and> us_idx t = 0 \<and>
    last (mmio t) = (VIRTIO_MMIO_STATUS, status OR VIRTIO_CONFIG_S_DRIVER_OK)"
proof -
  obtain desc s1 avail s2 used s3 where "kalloc s = Ok desc s1" "kalloc s1 = Ok avail s2" "kalloc s2 = Ok used s3" by (metis kalloc_def)
  then show ?thesis using assms unfolding queue_setup_def by (simp add: put_reg_def Let_def split: if_splits) auto
qed

lemma virtio_init_ready:
  assumes "virtio_disk_init R again s = Ok () t"
  shows "vd_free t = replicate NUM True \<and> vd_desc t = replicate NUM null_desc \<and> av_idx t = 0 \<and> us_idx t = 0 \<and>
    last (mmio t) = (VIRTIO_MMIO_STATUS, again OR VIRTIO_CONFIG_S_DRIVER_OK) \<and> again AND VIRTIO_CONFIG_S_FEATURES_OK \<noteq> 0 \<and>
    of_nat NUM \<le> R VIRTIO_MMIO_QUEUE_NUM_MAX"
  using assms unfolding virtio_disk_init_def Let_def by (simp add: queue_setup_ready not_less split: if_splits)

end
