(* ===== verification/Umalloc.thy ===== *)
theory Umalloc
  imports Prelude "HOL-Library.Monad_Syntax"
begin

text \<open>
  user/umalloc.c: \<open>malloc\<close> and \<open>free\<close> of user programs, with a circular list of free blocks in the order of their
  addresses. A block is a header of 16 bytes followed by its data; its size is counted in units of 16 bytes and includes the header. The state
  has the two fields of the header at every address, the static variables, and what the process sees of the kernel: the end \<open>brk\<close> of its
  memory and, for each call of \<open>sbrk\<close>, whether the kernel has the memory.

  The searches follow pointers without a bound, so they are partial functions (\<open>None\<close>: the call does not return; either a loop does not end, or
  a store of \<open>morecore\<close> is outside the memory of the process, which the kernel then kills); the theorems show that they return. Main results: \<open>ufree_ok\<close> and \<open>malloc_ok\<close> (the blocks handed out are disjoint from each other and from the free ones, large enough, and no
  header of another block is written); \<open>malloc_huge_faults\<close> shows that a request of 2 GB or more kills the process instead of being refused.
\<close>

section \<open>State\<close>

record um_st =
  m_ptr :: "nat \<Rightarrow> nat"
  m_size :: "nat \<Rightarrow> uint32"
  base :: nat
  freep :: nat
  brk :: nat
  sbrk_ok :: "bool list"

definition set_ptr :: "nat \<Rightarrow> nat \<Rightarrow> um_st \<Rightarrow> um_st" where
  "set_ptr a v s = s\<lparr>m_ptr := (m_ptr s)(a := v)\<rparr>"

definition set_size :: "nat \<Rightarrow> uint32 \<Rightarrow> um_st \<Rightarrow> um_st" where
  "set_size a v s = s\<lparr>m_size := (m_size s)(a := v)\<rparr>"

abbreviation sz :: "um_st \<Rightarrow> nat \<Rightarrow> nat" where
  "sz s a \<equiv> unat (m_size s a)"

section \<open>free\<close>

definition free_stop :: "um_st \<Rightarrow> nat \<Rightarrow> nat \<Rightarrow> bool" where
  "free_stop s bp p \<longleftrightarrow> p < bp \<and> bp < m_ptr s p \<or> m_ptr s p \<le> p \<and> (p < bp \<or> bp < m_ptr s p)"

partial_function (option) free_find :: "um_st \<Rightarrow> nat \<Rightarrow> nat \<Rightarrow> nat option" where
  "free_find s bp p = (if free_stop s bp p then Some p else free_find s bp (m_ptr s p))"

definition join_next :: "nat \<Rightarrow> nat \<Rightarrow> um_st \<Rightarrow> um_st" where
  "join_next bp p s =
     (let q = m_ptr s p in
      if bp + 16 * sz s bp = q then set_ptr bp (m_ptr s q) (set_size bp (m_size s bp + m_size s q) s)
      else set_ptr bp q s)"

definition join_prev :: "nat \<Rightarrow> nat \<Rightarrow> um_st \<Rightarrow> um_st" where
  "join_prev bp p s =
     (if p + 16 * sz s p = bp then set_ptr p (m_ptr s bp) (set_size p (m_size s p + m_size s bp) s)
      else set_ptr p bp s)"

definition ufree :: "nat \<Rightarrow> um_st \<Rightarrow> um_st option" where
  "ufree ap s =
     (let bp = ap - 16 in
      free_find s bp (freep s) \<bind> (\<lambda>p. Some ((join_prev bp p (join_next bp p s))\<lparr>freep := p\<rparr>)))"

section \<open>malloc\<close>

text \<open>\<open>sbrk\<close> takes an \<open>int\<close>. The kernel answers as \<open>sys_sbrk\<close> does: growing may fail, and fails beyond the memory of the machine (memlayout.h);
  shrinking always succeeds, and below address 0 it has no effect.\<close>

definition MEMORY :: nat where "MEMORY = 128 * 1024 * 1024"

definition sbrk :: "int \<Rightarrow> um_st \<Rightarrow> int \<times> um_st" where
  "sbrk n s =
     (if 0 < n then
        (if sbrk_ok s \<noteq> [] \<and> hd (sbrk_ok s) \<and> brk s + nat n \<le> MEMORY
         then (int (brk s), s\<lparr>brk := brk s + nat n, sbrk_ok := tl (sbrk_ok s)\<rparr>)
         else (- 1, s\<lparr>sbrk_ok := tl (sbrk_ok s)\<rparr>))
      else (int (brk s), s\<lparr>brk := (if n < 0 \<and> 0 \<le> int (brk s) + n then nat (int (brk s) + n) else brk s)\<rparr>))"

text \<open>The pages of the process reach up to \<open>brk\<close>, rounded up. The product in \<open>morecore\<close> has 64 bits and is cut to an \<open>int\<close> when it is passed
  on; the field \<open>size\<close>, bytes 8 to 11 of the header, is then written at the address that \<open>sbrk\<close> returned.\<close>

definition mapped :: "um_st \<Rightarrow> nat \<Rightarrow> bool" where
  "mapped s a \<longleftrightarrow> a < 4096 * ((brk s + 4095) div 4096)"

definition request :: "uint32 \<Rightarrow> int" where
  "request nu = sint (ucast (ucast nu * 16 :: uint64) :: uint32)"

definition morecore :: "uint32 \<Rightarrow> um_st \<Rightarrow> (nat \<times> um_st) option" where
  "morecore nu s =
     (let nu = (if nu < 4096 then 4096 else nu);
          (p, s) = sbrk (request nu) s in
      if p = - 1 then Some (0, s)
      else
        let hp = nat p in
        if \<not> mapped s (hp + 11) then None
        else ufree (hp + 16) (set_size hp nu s) \<bind> (\<lambda>s. Some (freep s, s)))"

definition take_block :: "uint32 \<Rightarrow> nat \<Rightarrow> nat \<Rightarrow> um_st \<Rightarrow> nat \<times> um_st" where
  "take_block nunits prevp p s =
     (if m_size s p = nunits then (p + 16, (set_ptr prevp (m_ptr s p) s)\<lparr>freep := prevp\<rparr>)
      else
        let s = set_size p (m_size s p - nunits) s;
            q = p + 16 * sz s p in
        (q + 16, (set_size q nunits s)\<lparr>freep := prevp\<rparr>))"

partial_function (option) malloc_loop :: "uint32 \<Rightarrow> nat \<Rightarrow> nat \<Rightarrow> um_st \<Rightarrow> (nat \<times> um_st) option" where
  "malloc_loop nunits prevp p s =
     (if nunits \<le> m_size s p then Some (take_block nunits prevp p s)
      else if p = freep s then
        morecore nunits s \<bind> (\<lambda>(p, s). if p = 0 then Some (0, s) else malloc_loop nunits p (m_ptr s p) s)
      else malloc_loop nunits p (m_ptr s p) s)"

definition units :: "uint32 \<Rightarrow> uint32" where
  "units nbytes = ucast ((ucast nbytes + 16 - 1) div 16 + 1 :: uint64)"

definition malloc_init :: "um_st \<Rightarrow> um_st" where
  "malloc_init s =
     (if freep s = 0 then set_size (base s) 0 (set_ptr (base s) (base s) (s\<lparr>freep := base s\<rparr>)) else s)"

definition malloc :: "uint32 \<Rightarrow> um_st \<Rightarrow> (nat \<times> um_st) option" where
  "malloc nbytes s =
     (let s = malloc_init s in malloc_loop (units nbytes) (freep s) (m_ptr s (freep s)) s)"

section \<open>Lists of blocks in memory\<close>

lemma set_simps [simp]:
  "m_ptr (set_ptr a v s) = (m_ptr s)(a := v)" "m_size (set_ptr a v s) = m_size s" "m_ptr (set_size a n s) = m_ptr s"
  "m_size (set_size a n s) = (m_size s)(a := n)" "base (set_ptr a v s) = base s" "base (set_size a n s) = base s"
  "freep (set_ptr a v s) = freep s" "freep (set_size a n s) = freep s" "brk (set_ptr a v s) = brk s" "brk (set_size a n s) = brk s"
  "sbrk_ok (set_ptr a v s) = sbrk_ok s" "sbrk_ok (set_size a n s) = sbrk_ok s"
  by (simp_all add: set_ptr_def set_size_def)

text \<open>\<open>path s a ps b\<close>: following the pointers from \<open>a\<close> visits \<open>ps\<close> and leads to \<open>b\<close>.\<close>

fun path :: "um_st \<Rightarrow> nat \<Rightarrow> nat list \<Rightarrow> nat \<Rightarrow> bool" where
  "path s a [] b \<longleftrightarrow> a = b"
| "path s a (x # xs) b \<longleftrightarrow> x = a \<and> path s (m_ptr s a) xs b"

lemma path_append: "path s a (xs @ ys) b \<longleftrightarrow> (\<exists>c. path s a xs c \<and> path s c ys b)"
  by (induction xs arbitrary: a) auto

lemma path_cong: "(\<And>x. x \<in> set ps \<Longrightarrow> m_ptr t x = m_ptr s x) \<Longrightarrow> path t a ps b \<longleftrightarrow> path s a ps b"
  by (induction ps arbitrary: a) auto

lemma path_next: "path s a (us @ x # vs) b \<Longrightarrow> m_ptr s x = hd (vs @ [b])"
  by (induction us arbitrary: a) (auto simp: path_append split: list.splits, cases vs, auto)

lemma path_rotate:
  assumes "path s b (us @ f # vs) b"
  shows "path s f (f # vs @ us) f"
proof -
  have "path s b us f" "path s f (f # vs) b" using assms by (auto simp: path_append)
  then show ?thesis by (auto simp: path_append)
qed

section \<open>The searches end\<close>

lemma free_find_path:
  "path s a (w1 @ p # w2) c \<Longrightarrow> (\<And>x. x \<in> set w1 \<Longrightarrow> \<not> free_stop s bp x) \<Longrightarrow> free_stop s bp p \<Longrightarrow> free_find s bp a = Some p"
proof (induction w1 arbitrary: a)
  case Nil
  then show ?case by (subst free_find.simps) simp
next
  case (Cons x w1)
  then show ?case by (subst free_find.simps) simp
qed

text \<open>Where the search of \<open>free\<close> stops: at the last block of the list below \<open>bp\<close>.\<close>

lemma free_stop_iff:
  assumes "path s b (xs @ p # ys) b" "sorted_wrt (<) (xs @ p # ys)" "hd (xs @ p # ys) = b" "b < bp" "p < bp" "\<And>y. y \<in> set ys \<Longrightarrow> bp < y"
    "x \<in> set (xs @ p # ys)"
  shows "free_stop s bp x \<longleftrightarrow> x = p"
proof -
  obtain us vs where d: "xs @ p # ys = us @ x # vs" using assms(7) by (meson split_list)
  have nx: "m_ptr s x = hd (vs @ [b])" using assms(1) unfolding d by (rule path_next)
  have srt: "\<And>v. v \<in> set vs \<Longrightarrow> x < v" using assms(2) unfolding d by (simp add: sorted_wrt_append)
  have b: "b \<le> x" using assms(3) assms(2) unfolding d by (cases us) (auto simp: sorted_wrt_append)
  consider "x \<in> set xs" | "x = p" | "x \<in> set ys" using assms(7) by auto
  then show ?thesis
  proof cases
    case 1
    then have "x < p" using assms(2) by (simp add: sorted_wrt_append)
    moreover have "p \<in> set (us @ x # vs)" unfolding d [symmetric] by simp
    ultimately have v: "p \<in> set vs" using assms(2) unfolding d by (auto simp: sorted_wrt_append)
    then obtain v vs' where vs: "vs = v # vs'" by (cases vs) auto
    have "v \<le> p" using v assms(2) unfolding d vs by (auto simp: sorted_wrt_append)
    then show ?thesis using nx srt [of v] \<open>x < p\<close> assms(5) by (auto simp: vs free_stop_def)
  next
    case 2
    have "\<And>v. v \<in> set vs \<Longrightarrow> bp < v"
    proof -
      fix v assume v: "v \<in> set vs"
      then have "v \<in> set (xs @ p # ys)" unfolding d by simp
      then show "bp < v" using srt [OF v] 2 assms(2,6) by (auto simp: sorted_wrt_append)
    qed
    then show ?thesis using nx 2 assms(4,5) b by (cases vs) (auto simp: free_stop_def)
  next
    case 3
    then have "bp < x" by (rule assms(6))
    then show ?thesis using nx srt [of "m_ptr s x"] assms(4,5) b by (cases vs) (auto simp: free_stop_def)
  qed
qed

lemma free_find_ok:
  assumes "path s b (xs @ p # ys) b" "sorted_wrt (<) (xs @ p # ys)" "hd (xs @ p # ys) = b" "b < bp" "p < bp" "\<And>y. y \<in> set ys \<Longrightarrow> bp < y"
    "f \<in> set (xs @ p # ys)"
  shows "free_find s bp f = Some p"
proof -
  obtain us vs where d: "xs @ p # ys = us @ f # vs" using assms(7) by (meson split_list)
  have r: "path s f (f # vs @ us) f" using assms(1) unfolding d by (rule path_rotate)
  have set_eq: "set (f # vs @ us) = set (xs @ p # ys)" unfolding d by auto
  then have "p \<in> set (f # vs @ us)" by simp
  then obtain w1 w2 where w: "f # vs @ us = w1 @ p # w2" "p \<notin> set w1" by (meson split_list_first)
  have stop: "free_stop s bp x \<longleftrightarrow> x = p" if "x \<in> set (f # vs @ us)" for x
    using free_stop_iff [of s b xs p ys bp x] that set_eq assms(1-6) by blast
  show ?thesis using r unfolding w(1)
  proof (rule free_find_path)
    show "\<not> free_stop s bp x" if "x \<in> set w1" for x using stop [of x] that w by auto
    show "free_stop s bp p" using stop [of p] w(1) by simp
  qed
qed

section \<open>The invariant\<close>

definition blk :: "nat \<Rightarrow> nat \<Rightarrow> nat set" where
  "blk a n = {a..<a + 16 * n}"

definition ordered :: "um_st \<Rightarrow> nat list \<Rightarrow> bool" where
  "ordered s ps \<longleftrightarrow> sorted_wrt (\<lambda>a b. a + 16 * sz s a < b) ps"

definition free_bytes :: "um_st \<Rightarrow> nat list \<Rightarrow> nat set" where
  "free_bytes s qs = (\<Union>q \<in> set qs. blk q (sz s q))"

text \<open>\<open>qs\<close>: the free blocks in order, behind the header \<open>base\<close>; \<open>lo\<close>: the lowest address of the heap; \<open>A\<close>: the allocated blocks and their sizes.\<close>

definition list_ok :: "nat \<Rightarrow> um_st \<Rightarrow> nat list \<Rightarrow> bool" where
  "list_ok lo s qs \<longleftrightarrow>
     path s (base s) (base s # qs) (base s) \<and> ordered s (base s # qs) \<and> m_size s (base s) = 0 \<and> 0 < base s \<and> base s + 16 \<le> lo \<and>
     lo \<le> brk s \<and> brk s \<le> MEMORY \<and> (\<forall>a \<in> set qs. lo \<le> a \<and> 0 < sz s a \<and> a + 16 * sz s a \<le> brk s)"

definition alloc_ok :: "nat \<Rightarrow> um_st \<Rightarrow> (nat \<times> nat) set \<Rightarrow> nat set \<Rightarrow> bool" where
  "alloc_ok lo s A F \<longleftrightarrow>
     (\<forall>(a, n) \<in> A. 0 < n \<and> sz s a = n \<and> lo \<le> a \<and> a + 16 * n \<le> brk s \<and> blk a n \<inter> F = {}) \<and>
     (\<forall>(a, n) \<in> A. \<forall>(b, m) \<in> A. (a, n) \<noteq> (b, m) \<longrightarrow> blk a n \<inter> blk b m = {})"

definition heap_ok :: "nat \<Rightarrow> um_st \<Rightarrow> (nat \<times> nat) set \<Rightarrow> nat list \<Rightarrow> bool" where
  "heap_ok lo s A qs \<longleftrightarrow> list_ok lo s qs \<and> freep s \<in> set (base s # qs) \<and> alloc_ok lo s A (free_bytes s qs)"

lemma blk_self [simp]: "a \<in> blk a n \<longleftrightarrow> 0 < n"
  by (auto simp: blk_def)

lemma blk_apart: "blk a n \<inter> blk b m = {} \<Longrightarrow> 0 < n \<Longrightarrow> 0 < m \<Longrightarrow> a < b \<Longrightarrow> a + 16 * n \<le> b"
proof (rule ccontr)
  assume a: "blk a n \<inter> blk b m = {}" "0 < n" "0 < m" "a < b" "\<not> a + 16 * n \<le> b"
  then have "b \<in> blk a n \<inter> blk b m" by (auto simp: blk_def)
  then show False using a(1) by blast
qed

lemma blk_join: "blk a (n + m) = blk a n \<union> blk (a + 16 * n) m"
  by (auto simp: blk_def)

lemma ordered_less: "ordered s ps \<Longrightarrow> sorted_wrt (<) ps"
  unfolding ordered_def by (erule sorted_wrt_mono_rel [rotated]) auto

lemma free_bytes_append [simp]:
  "free_bytes s (xs @ ys) = free_bytes s xs \<union> free_bytes s ys" "free_bytes s (x # ys) = blk x (sz s x) \<union> free_bytes s ys" "free_bytes s [] = {}"
  by (auto simp: free_bytes_def)

lemma free_bytes_cong: "(\<And>x. x \<in> set qs \<Longrightarrow> m_size t x = m_size s x) \<Longrightarrow> free_bytes t qs = free_bytes s qs"
  by (simp add: free_bytes_def)

lemma ordered_cong: "(\<And>x. x \<in> set qs \<Longrightarrow> m_size t x = m_size s x) \<Longrightarrow> ordered t qs \<longleftrightarrow> ordered s qs"
  unfolding ordered_def by (rule iffI; erule sorted_wrt_mono_rel [rotated]; simp)

lemma sorted_split:
  "sorted_wrt (<) (ps :: nat list) \<Longrightarrow> ps \<noteq> [] \<Longrightarrow> hd ps < a \<Longrightarrow> a \<notin> set ps \<Longrightarrow>
    \<exists>xs p ys. ps = xs @ p # ys \<and> p < a \<and> (\<forall>y \<in> set ys. a < y)"
proof (induction ps)
  case (Cons x ps)
  show ?case
  proof (cases "ps = [] \<or> a < hd ps")
    case True
    have "\<forall>y \<in> set ps. a < y" using True Cons.prems(1) by (cases ps) auto
    then show ?thesis using Cons.prems(3) by (intro exI [of _ "[]"] exI [of _ x] exI [of _ ps]) simp
  next
    case False
    then have "hd ps < a" using Cons.prems(4) by (cases ps) auto
    then obtain xs p ys where "ps = xs @ p # ys" "p < a" "\<forall>y \<in> set ys. a < y" using Cons False by auto
    then show ?thesis by (intro exI [of _ "x # xs"] exI [of _ p] exI [of _ ys]) simp
  qed
qed simp

text \<open>A block that is not free lies in a gap of the list.\<close>

lemma list_gap:
  assumes "list_ok lo s qs" "0 < n" "lo \<le> a" "blk a n \<inter> free_bytes s qs = {}"
  obtains xs p ys where "base s # qs = xs @ p # ys" "p + 16 * sz s p \<le> a" "\<And>y. y \<in> set ys \<Longrightarrow> a + 16 * n \<le> y" "p \<noteq> a" "a \<notin> set (base s # qs)"
proof -
  let ?ps = "base s # qs"
  have srt: "sorted_wrt (<) ?ps" using assms(1) ordered_less unfolding list_ok_def by blast
  have b: "base s < a" using assms(1,3) by (simp add: list_ok_def)
  have pos: "\<And>q. q \<in> set qs \<Longrightarrow> 0 < sz s q" using assms(1) by (simp add: list_ok_def)
  have dj: "blk a n \<inter> blk q (sz s q) = {}" if "q \<in> set qs" for q using assms(4) that by (auto simp: free_bytes_def)
  have a: "a \<notin> set ?ps" using b pos [of a] dj [of a] assms(2) by (auto simp: blk_def)
  obtain xs p ys where d: "?ps = xs @ p # ys" "p < a" "\<And>y. y \<in> set ys \<Longrightarrow> a < y" using sorted_split [OF srt _ _ a] b by auto
  show ?thesis
  proof (rule that [OF d(1)])
    have m: "p \<in> set ?ps" unfolding d(1) by simp
    show "p + 16 * sz s p \<le> a"
    proof (cases "p = base s")
      case True
      then show ?thesis using assms(1) b by (simp add: list_ok_def)
    next
      case False
      then have q: "p \<in> set qs" using m by simp
      show ?thesis using blk_apart [of p "sz s p" a n] dj [OF q] pos [OF q] assms(2) d(2) by (simp add: Int_commute)
    qed
    show "a + 16 * n \<le> y" if y: "y \<in> set ys" for y
    proof -
      have "y \<in> set ?ps" unfolding d(1) using y by simp
      then have q: "y \<in> set qs" using d(3) [OF y] b by auto
      show ?thesis by (rule blk_apart [OF dj [OF q] assms(2) pos [OF q] d(3) [OF y]])
    qed
    show "p \<noteq> a" using d(2) by simp
  qed (rule a)
qed

section \<open>free\<close>

lemma unat_sum: "16 * (unat (x :: uint32) + unat y) < 2 ^ 36 \<Longrightarrow> unat (x + y) = unat x + unat y"
  by (simp add: unat_word_ariths)

lemma join_next_other [simp]:
  "x \<noteq> bp \<Longrightarrow> m_ptr (join_next bp p s) x = m_ptr s x" "x \<noteq> bp \<Longrightarrow> m_size (join_next bp p s) x = m_size s x"
  "base (join_next bp p s) = base s" "brk (join_next bp p s) = brk s" "freep (join_next bp p s) = freep s" "sbrk_ok (join_next bp p s) = sbrk_ok s"
  by (simp_all add: join_next_def Let_def)

lemma join_prev_other [simp]:
  "x \<noteq> p \<Longrightarrow> m_ptr (join_prev bp p s) x = m_ptr s x" "x \<noteq> p \<Longrightarrow> m_size (join_prev bp p s) x = m_size s x"
  "base (join_prev bp p s) = base s" "brk (join_prev bp p s) = brk s" "freep (join_prev bp p s) = freep s" "sbrk_ok (join_prev bp p s) = sbrk_ok s"
  by (simp_all add: join_prev_def)

lemma path_join [simp]:
  "bp \<notin> set ps \<Longrightarrow> path (join_next bp p s) x ps y \<longleftrightarrow> path s x ps y" "p \<notin> set ps \<Longrightarrow> path (join_prev bp p s) x ps y \<longleftrightarrow> path s x ps y"
  by (rule path_cong, metis join_next_other(1)) (rule path_cong, metis join_prev_other(1))

lemma ordered_join [simp]:
  "bp \<notin> set ps \<Longrightarrow> ordered (join_next bp p s) ps \<longleftrightarrow> ordered s ps" "p \<notin> set ps \<Longrightarrow> ordered (join_prev bp p s) ps \<longleftrightarrow> ordered s ps"
  by (rule ordered_cong, metis join_next_other(2)) (rule ordered_cong, metis join_prev_other(2))

lemma free_bytes_join [simp]:
  "bp \<notin> set ps \<Longrightarrow> free_bytes (join_next bp p s) ps = free_bytes s ps" "p \<notin> set ps \<Longrightarrow> free_bytes (join_prev bp p s) ps = free_bytes s ps"
  by (rule free_bytes_cong, metis join_next_other(2)) (rule free_bytes_cong, metis join_prev_other(2))

lemma freep_update [simp]:
  "path (s\<lparr>freep := f\<rparr>) x ps y \<longleftrightarrow> path s x ps y" "ordered (s\<lparr>freep := f\<rparr>) ps \<longleftrightarrow> ordered s ps" "free_bytes (s\<lparr>freep := f\<rparr>) ps = free_bytes s ps"
  by (rule path_cong, simp) (simp_all add: ordered_def free_bytes_def)

lemma join_next_ok:
  assumes "path s p (p # ys) b" "ordered s ys" "a \<notin> set (p # ys)" "\<And>y. y \<in> set ys \<Longrightarrow> a + 16 * sz s a \<le> y" "b < a" "a + 16 * sz s a \<le> B"
    "\<And>y. y \<in> set ys \<Longrightarrow> y + 16 * sz s y \<le> B" "B < 2 ^ 36" "0 < sz s a"
  obtains ys' where "path (join_next a p s) a (a # ys') b" "set ys' \<subseteq> set ys" "ordered s ys'" "\<And>y. y \<in> set ys' \<Longrightarrow> a + 16 * sz (join_next a p s) a < y"
    "blk a (sz (join_next a p s) a) \<union> free_bytes s ys' = blk a (sz s a) \<union> free_bytes s ys" "a + 16 * sz (join_next a p s) a \<le> B"
    "sz s a \<le> sz (join_next a p s) a"
proof (cases "a + 16 * sz s a = m_ptr s p")
  case False
  let ?u = "join_next a p s"
  have u: "m_ptr ?u a = m_ptr s p" "m_size ?u = m_size s" using False by (simp_all add: join_next_def Let_def)
  have "path ?u (m_ptr s p) ys b" using assms(1,3) by simp
  moreover have "a + 16 * sz s a < y" if y: "y \<in> set ys" for y
  proof -
    obtain z zs where z: "ys = z # zs" using y by (cases ys) auto
    have "m_ptr s p = z" using assms(1) z by simp
    then have "a + 16 * sz s a < z" using False assms(4) [of z] z by simp
    moreover have "z \<le> y" using y assms(2) unfolding z ordered_def by auto
    ultimately show ?thesis by simp
  qed
  ultimately show ?thesis using assms(2,6,9) u by (intro that [of ys]) simp_all
next
  case True
  let ?u = "join_next a p s"
  obtain z zs where z: "ys = z # zs" "m_ptr s p = z" using assms(1,5) True by (cases ys) auto
  have sum: "unat (m_size s a + m_size s z) = sz s a + sz s z" using assms(7) [of z] assms(8) True z by (intro unat_sum) simp
  have u: "m_ptr ?u a = m_ptr s z" "sz ?u a = sz s a + sz s z" using True z sum by (simp_all add: join_next_def Let_def)
  have "path ?u (m_ptr s z) zs b" using assms(1,3) z by simp
  moreover have "a + 16 * sz ?u a < y" if "y \<in> set zs" for y using that assms(2) True u z unfolding ordered_def by auto
  moreover have "blk a (sz ?u a) = blk a (sz s a) \<union> blk z (sz s z)" using blk_join [of a "sz s a" "sz s z"] True u z by simp
  moreover have "a + 16 * sz ?u a \<le> B" using assms(7) [of z] True u z by simp
  ultimately show ?thesis using assms(2,9) u z by (intro that [of zs]) (auto simp: ordered_def)
qed

lemma join_prev_ok:
  assumes "path s b xs p" "path s a (a # ys) b" "a \<notin> set xs" "p \<notin> set xs" "p \<notin> set (a # ys)" "ordered s (xs @ [p])" "ordered s ys"
    "p + 16 * sz s p \<le> a" "\<And>y. y \<in> set ys \<Longrightarrow> a + 16 * sz s a < y" "a + 16 * sz s a < 2 ^ 36" "0 < sz s a" "set xs \<inter> set ys = {}"
  obtains zs where "path (join_prev a p s) b (xs @ p # zs) b" "set zs \<subseteq> set (a # ys)" "ordered (join_prev a p s) (xs @ p # zs)"
    "blk p (sz (join_prev a p s) p) \<union> free_bytes s zs = blk p (sz s p) \<union> blk a (sz s a) \<union> free_bytes s ys"
    "p + 16 * sz (join_prev a p s) p \<le> max (p + 16 * sz s p) (a + 16 * sz s a)" "p + 16 * sz s p \<noteq> a \<Longrightarrow> m_size (join_prev a p s) = m_size s" "sz s p \<le> sz (join_prev a p s) p"
    "\<exists>x \<in> set (p # zs). sz s a \<le> sz (join_prev a p s) x"
proof -
  have srt: "sorted_wrt (\<lambda>x y. x + 16 * sz s x < y) xs" "sorted_wrt (\<lambda>x y. x + 16 * sz s x < y) ys"
    using assms(6,7) by (auto simp: ordered_def sorted_wrt_append)
  have below: "x + 16 * sz s x < p" if "x \<in> set xs" for x
    using assms(6) that by (auto simp: ordered_def sorted_wrt_append)
  have above: "x + 16 * sz s x < y" if "x \<in> set xs" "y \<in> set (a # ys)" for x y
  proof -
    have "x + 16 * sz s x < p" "p \<le> a" "a \<le> y" using below [OF that(1)] assms(8) assms(9) [of y] that(2) by auto
    then show ?thesis by simp
  qed
  show ?thesis
  proof (cases "p + 16 * sz s p = a")
    case False
    let ?u = "join_prev a p s"
    have u: "m_ptr ?u p = a" "m_size ?u = m_size s" using False by (simp_all add: join_prev_def)
    have "path ?u b xs p" "path ?u a (a # ys) b" using assms(1-5) by (simp_all del: path.simps)
    then have "path ?u b (xs @ p # a # ys) b" using u by (auto simp: path_append)
    moreover have "ordered ?u (xs @ p # a # ys)"
    proof -
      have "p + 16 * sz s p < y" if "y \<in> set (a # ys)" for y using that assms(8) False assms(9) [of y] by auto
      then show ?thesis using srt below above assms(9) unfolding ordered_def u(2) by (simp add: sorted_wrt_append)
    qed
    ultimately show ?thesis using u by (intro that [of "a # ys"]) auto
  next
    case True
    let ?u = "join_prev a p s"
    have sum: "unat (m_size s p + m_size s a) = sz s p + sz s a" using assms(10) True by (intro unat_sum) simp
    have u: "m_ptr ?u p = m_ptr s a" "sz ?u p = sz s p + sz s a" using True sum by (simp_all add: join_prev_def)
    have "path ?u b xs p" "path ?u (m_ptr s a) ys b" using assms(1-5) by simp_all
    then have "path ?u b (xs @ p # ys) b" using u by (auto simp: path_append)
    moreover have "ordered ?u (xs @ p # ys)"
    proof -
      have same: "sz ?u x = sz s x" if "x \<in> set (xs @ ys)" for x
      proof -
        have "x \<noteq> p" using that assms(4,5) by auto
        then show ?thesis by simp
      qed
      have "sorted_wrt (\<lambda>x y. x + 16 * sz ?u x < y) xs" "sorted_wrt (\<lambda>x y. x + 16 * sz ?u x < y) ys"
        using srt same by (auto intro: sorted_wrt_mono_rel [rotated])
      moreover have "p + 16 * sz ?u p < y" if "y \<in> set ys" for y using assms(9) [OF that] True u by simp
      ultimately show ?thesis using below above same unfolding ordered_def by (simp add: sorted_wrt_append)
    qed
    moreover have "blk p (sz ?u p) = blk p (sz s p) \<union> blk a (sz s a)" using blk_join [of p "sz s p" "sz s a"] True u by simp
    ultimately show ?thesis using True u by (intro that [of ys]) auto
  qed
qed

lemma list_ok_list:
  "list_ok lo s qs \<longleftrightarrow> (\<exists>ps. ps = base s # qs \<and> path s (base s) ps (base s) \<and> ordered s ps \<and> m_size s (base s) = 0 \<and> 0 < base s \<and> base s + 16 \<le> lo \<and>
     lo \<le> brk s \<and> brk s \<le> MEMORY \<and> (\<forall>a \<in> set ps. a \<noteq> base s \<longrightarrow> lo \<le> a \<and> 0 < sz s a \<and> a + 16 * sz s a \<le> brk s))"
  unfolding list_ok_def by (auto simp: ordered_def)

text \<open>What \<open>free\<close> leaves alone.\<close>

definition same_but :: "nat set \<Rightarrow> um_st \<Rightarrow> um_st \<Rightarrow> bool" where
  "same_but X s t \<longleftrightarrow> base t = base s \<and> (\<forall>x. x \<notin> X \<longrightarrow> m_ptr t x = m_ptr s x \<and> m_size t x = m_size s x)"

text \<open>The list surgery of \<open>free\<close>, at a gap between \<open>p\<close> and \<open>ys\<close>.\<close>

lemma free_splice:
  assumes l: "list_ok lo s qs" and n: "0 < sz s a" "lo \<le> a" "a + 16 * sz s a \<le> brk s"
    and d: "base s # qs = xs @ p # ys" "p + 16 * sz s p \<le> a" "\<And>y. y \<in> set ys \<Longrightarrow> a + 16 * sz s a \<le> y" "p \<noteq> a" "a \<notin> set (base s # qs)"
    and t: "t = join_prev a p (join_next a p s)"
  obtains zs where "path t (base s) (xs @ p # zs) (base s)" "set zs \<subseteq> insert a (set ys)" "ordered t (xs @ p # zs)" "p \<notin> set zs" "p \<notin> set xs"
    "free_bytes t (xs @ p # zs) = free_bytes s (xs @ p # ys) \<union> blk a (sz s a)" "p + 16 * sz t p \<le> brk s" "sz s p \<le> sz t p"
    "p + 16 * sz s p \<noteq> a \<Longrightarrow> m_size t p = m_size s p" "0 < sz t a" "a + 16 * sz t a \<le> brk s" "\<exists>x \<in> set (p # zs). sz s a \<le> sz t x"
proof -
  note L = l [unfolded list_ok_def]
  let ?u = "join_next a p s"
  have pth: "path s (base s) xs p" "path s p (p # ys) (base s)" using L d(1) path_append [of s "base s" xs "p # ys"] by auto
  have ord: "ordered s (xs @ [p])" "ordered s ys" "sorted_wrt (<) (xs @ p # ys)"
    using L ordered_less [of s "base s # qs"] unfolding d(1) by (auto simp: ordered_def sorted_wrt_append)
  have mem: "x \<in> set (base s # qs) \<longleftrightarrow> x \<in> set xs \<or> x = p \<or> x \<in> set ys" for x unfolding d(1) by auto
  have a: "base s < a" "a \<notin> set xs" "a \<notin> set (p # ys)" using L n(2) d(4,5) mem [of a] by auto
  have ps: "p \<notin> set xs" "p \<notin> set ys" "set xs \<inter> set ys = {}" using ord(3) by (auto simp: sorted_wrt_append)
  have mem36: "brk s < 2 ^ 36" using L by (simp add: MEMORY_def)
  have ysb: "y + 16 * sz s y \<le> brk s" if y: "y \<in> set ys" for y
    using L mem [of y] d(3) [OF y] a(1) y by auto
  obtain ys' where j: "path ?u a (a # ys') (base s)" "set ys' \<subseteq> set ys" "ordered s ys'" "\<And>y. y \<in> set ys' \<Longrightarrow> a + 16 * sz ?u a < y"
    "blk a (sz ?u a) \<union> free_bytes s ys' = blk a (sz s a) \<union> free_bytes s ys" "a + 16 * sz ?u a \<le> brk s" "sz s a \<le> sz ?u a"
    using join_next_ok [OF pth(2) ord(2) a(3) d(3) a(1) n(3) ysb _ n(1)] mem36 by blast
  have us: "m_size ?u p = m_size s p" using d(4) by simp
  have ya: "a \<notin> set ys'" "p \<notin> set ys'" "set xs \<inter> set ys' = {}" using j(2) a(3) ps by auto
  have "p + 16 * sz ?u p \<le> a" using d(2) us by simp
  moreover have "ordered ?u (xs @ [p])" "ordered ?u ys'" using ord(1) j(3) a ya by simp_all
  moreover have "path ?u (base s) xs p" using pth(1) a(2) by simp
  ultimately obtain zs where k: "path t (base s) (xs @ p # zs) (base s)" "set zs \<subseteq> set (a # ys')" "ordered t (xs @ p # zs)"
    "blk p (sz t p) \<union> free_bytes ?u zs = blk p (sz ?u p) \<union> blk a (sz ?u a) \<union> free_bytes ?u ys'"
    "p + 16 * sz t p \<le> max (p + 16 * sz ?u p) (a + 16 * sz ?u a)" "p + 16 * sz ?u p \<noteq> a \<Longrightarrow> m_size t = m_size ?u" "sz ?u p \<le> sz t p"
    "\<exists>x \<in> set (p # zs). sz ?u a \<le> sz t x"
    using join_prev_ok [of ?u "base s" xs p a ys', OF _ j(1) a(2) ps(1)] j(4,6,7) n(1) ya d(4) mem36 unfolding t by (auto simp del: path.simps)
  have zs: "p \<notin> set zs" "set zs \<subseteq> insert a (set ys)" using k(2) j(2) ps d(4) by auto
  have "free_bytes t (xs @ p # zs) = free_bytes s xs \<union> (blk p (sz t p) \<union> free_bytes ?u zs)" unfolding t using ps(1) a(2) zs(1) by simp
  also have "\<dots> = free_bytes s xs \<union> blk p (sz s p) \<union> (blk a (sz ?u a) \<union> free_bytes s ys')" unfolding k(4) using us ya(1) by auto
  finally have fb: "free_bytes t (xs @ p # zs) = free_bytes s (xs @ p # ys) \<union> blk a (sz s a)" unfolding j(5) by auto
  have ta: "m_size t a = m_size ?u a" using d(4) unfolding t by simp
  have "p + 16 * sz t p \<le> brk s" using k(5) us d(2) n(3) j(6) by auto
  moreover have "\<exists>x \<in> set (p # zs). sz s a \<le> sz t x" using k(8) j(7) by (meson le_trans)
  ultimately show ?thesis using that [of zs] k(1,3,6,7) zs ps(1) fb us ta j(6,7) n(1) by simp
qed

lemma free_block:
  assumes l: "list_ok lo s qs" and f: "freep s \<in> set (base s # qs)" and n: "0 < sz s a" "lo \<le> a" "a + 16 * sz s a \<le> brk s"
    and dj: "blk a (sz s a) \<inter> free_bytes s qs = {}"
  obtains t qs' where "ufree (a + 16) s = Some t" "list_ok lo t qs'" "freep t \<in> set (base t # qs')" "free_bytes t qs' = free_bytes s qs \<union> blk a (sz s a)"
    "brk t = brk s" "sbrk_ok t = sbrk_ok s" "same_but (insert a (set (base s # qs))) s t" "\<exists>x \<in> set qs'. sz s a \<le> sz t x"
proof -
  note L = l [unfolded list_ok_def]
  obtain xs p ys where d: "base s # qs = xs @ p # ys" "p + 16 * sz s p \<le> a" "\<And>y. y \<in> set ys \<Longrightarrow> a + 16 * sz s a \<le> y" "p \<noteq> a" "a \<notin> set (base s # qs)"
    using list_gap [OF l n(1,2) dj] by metis
  define t where "t = join_prev a p (join_next a p s)"
  obtain zs where k: "path t (base s) (xs @ p # zs) (base s)" "set zs \<subseteq> insert a (set ys)" "ordered t (xs @ p # zs)" "p \<notin> set zs" "p \<notin> set xs"
    "free_bytes t (xs @ p # zs) = free_bytes s (xs @ p # ys) \<union> blk a (sz s a)" "p + 16 * sz t p \<le> brk s" "sz s p \<le> sz t p"
    "p + 16 * sz s p \<noteq> a \<Longrightarrow> m_size t p = m_size s p" "0 < sz t a" "a + 16 * sz t a \<le> brk s" "\<exists>x \<in> set (p # zs). sz s a \<le> sz t x"
    using free_splice [OF l n d t_def] by blast
  have hd: "hd (xs @ p # ys) = base s" using d(1) by (metis list.sel(1))
  obtain qs' where q: "xs @ p # zs = base s # qs'" using hd by (cases xs) auto
  have mem: "x \<in> set (base s # qs) \<longleftrightarrow> x \<in> set xs \<or> x = p \<or> x \<in> set ys" for x unfolding d(1) by auto
  have b: "base s < a" using L n(2) by simp
  have other: "m_ptr t x = m_ptr s x" "m_size t x = m_size s x" if "x \<noteq> p" "x \<noteq> a" for x using that unfolding t_def by simp_all
  have tf: "base t = base s" "brk t = brk s" "sbrk_ok t = sbrk_ok s" unfolding t_def by simp_all
  have "free_find s a (freep s) = Some p"
  proof (rule free_find_ok [of s "base s" xs p ys])
    show "path s (base s) (xs @ p # ys) (base s)" using L unfolding d(1) by blast
    show "sorted_wrt (<) (xs @ p # ys)" using L ordered_less unfolding d(1) by blast
    show "a < y" if "y \<in> set ys" for y using d(3) [OF that] n(1) by simp
    show "freep s \<in> set (xs @ p # ys)" using f unfolding d(1) .
  qed (use hd b d(2,4) in auto)
  then have u: "ufree (a + 16) s = Some (t\<lparr>freep := p\<rparr>)" by (simp add: ufree_def t_def)
  have b0: "m_size t (base s) = 0" using k(9) other(2) [of "base s"] L b n(2) by (cases "p = base s") auto
  have qb: "lo \<le> x \<and> 0 < sz t x \<and> x + 16 * sz t x \<le> brk s" if x: "x \<in> set (base s # qs')" "x \<noteq> base s" for x
  proof -
    have "x = a \<or> x \<in> set (base s # qs)" using x(1) k(2) mem [of x] unfolding q [symmetric] by auto
    then consider "x = a" | "x \<noteq> a" "x \<in> set qs" using x(2) by auto
    then show ?thesis
      by cases (use n(2) k(7,8,10,11) L other(2) [of x] in \<open>cases "x = p"; force\<close>)+
  qed
  have ps: "p \<in> set (base s # qs')" unfolding q [symmetric] by simp
  show ?thesis
  proof (rule that [OF u])
    show "list_ok lo (t\<lparr>freep := p\<rparr>) qs'" unfolding list_ok_list using k(1,3) b0 L qb q tf by (intro exI [of _ "base s # qs'"]) auto
    show "freep (t\<lparr>freep := p\<rparr>) \<in> set (base (t\<lparr>freep := p\<rparr>) # qs')" using ps tf by simp
    have "free_bytes t (base s # qs') = free_bytes s (base s # qs) \<union> blk a (sz s a)" using k(6) unfolding q d(1) [symmetric] .
    then show "free_bytes (t\<lparr>freep := p\<rparr>) qs' = free_bytes s qs \<union> blk a (sz s a)" using b0 L by (simp add: blk_def)
    obtain x where x: "x \<in> set (xs @ p # zs)" "sz s a \<le> sz t x" using k(12) by auto
    then have "x \<noteq> base s" using b0 n(1) by auto
    then have "x \<in> set qs'" using x(1) unfolding q by simp
    then show "\<exists>x \<in> set qs'. sz s a \<le> sz (t\<lparr>freep := p\<rparr>) x" using x(2) by auto
    show "brk (t\<lparr>freep := p\<rparr>) = brk s" "sbrk_ok (t\<lparr>freep := p\<rparr>) = sbrk_ok s" using tf by simp_all
    have "x \<noteq> p" if "x \<notin> insert a (set (base s # qs))" for x using that mem [of p] by blast
    then show "same_but (insert a (set (base s # qs))) s (t\<lparr>freep := p\<rparr>)" using other tf unfolding same_but_def by simp
  qed
qed

section \<open>malloc\<close>

lemma malloc_walk:
  "path s a (w1 @ p # w2) c \<Longrightarrow> (\<And>x. x \<in> set w1 \<Longrightarrow> \<not> nunits \<le> m_size s x \<and> x \<noteq> freep s) \<Longrightarrow>
    malloc_loop nunits prev a s = malloc_loop nunits (last (prev # w1)) p s"
proof (induction w1 arbitrary: a prev)
  case (Cons x w1)
  have x: "x = a" "\<not> nunits \<le> m_size s a" "a \<noteq> freep s" "path s (m_ptr s a) (w1 @ p # w2) c"
    using Cons.prems(1) Cons.prems(2) [of x] by simp_all
  then have "malloc_loop nunits prev a s = malloc_loop nunits a (m_ptr s a) s" by (subst malloc_loop.simps) simp
  also have "\<dots> = malloc_loop nunits (last (a # w1)) p s" using Cons.IH [OF x(4)] Cons.prems(2) by simp
  finally show ?case using x(1) by simp
qed simp

text \<open>The circle from the block behind \<open>freep\<close> back to \<open>freep\<close>.\<close>

lemma circle:
  assumes "list_ok lo s qs" "freep s \<in> set (base s # qs)"
  obtains w where "path s (m_ptr s (freep s)) (w @ [freep s]) (m_ptr s (freep s))" "set (w @ [freep s]) = set (base s # qs)" "freep s \<notin> set w"
proof -
  obtain us vs where d: "base s # qs = us @ freep s # vs" using assms(2) by (meson split_list)
  have p: "path s (base s) (us @ freep s # vs) (base s)" using assms(1) d by (metis list_ok_def)
  then have "path s (freep s) (freep s # vs @ us) (freep s)" by (rule path_rotate)
  then have "path s (m_ptr s (freep s)) ((vs @ us) @ [freep s]) (m_ptr s (freep s))" by (auto simp: path_append)
  moreover have "sorted_wrt (<) (us @ freep s # vs)" using assms(1) ordered_less d by (metis list_ok_def)
  then have "freep s \<notin> set (vs @ us)" by (auto simp: sorted_wrt_append)
  moreover have "set ((vs @ us) @ [freep s]) = set (base s # qs)" unfolding d by auto
  ultimately show ?thesis using that by blast
qed

lemma path_pred: "path s a (w1 @ p # w2) c \<Longrightarrow> m_ptr s f = a \<Longrightarrow> m_ptr s (last (f # w1)) = p"
proof (induction w1 arbitrary: a f)
  case (Cons x w1)
  then show ?case using Cons.IH [of "m_ptr s a" a] by simp
qed simp

lemma malloc_found:
  assumes "list_ok lo s qs" "freep s \<in> set (base s # qs)" "x \<in> set qs" "nunits \<le> m_size s x" "0 < nunits"
  obtains us prev p vs where "base s # qs = us @ prev # p # vs" "nunits \<le> m_size s p"
    "malloc_loop nunits (freep s) (m_ptr s (freep s)) s = Some (take_block nunits prev p s)"
proof -
  obtain w where w: "path s (m_ptr s (freep s)) (w @ [freep s]) (m_ptr s (freep s))" "set (w @ [freep s]) = set (base s # qs)" "freep s \<notin> set w"
    using circle [OF assms(1,2)] by blast
  have fit: "\<exists>y \<in> set (w @ [freep s]). nunits \<le> m_size s y" using assms(3,4) unfolding w(2) by auto
  obtain w1 p w2 where d: "w @ [freep s] = w1 @ p # w2" "nunits \<le> m_size s p" "\<forall>y \<in> set w1. \<not> nunits \<le> m_size s y"
    using split_list_first_prop [OF fit] by blast
  have sub: "set w1 \<subseteq> set w" 
  proof -
    have "w = w1 @ butlast (p # w2)" using arg_cong [OF d(1), of butlast] by (simp add: butlast_append)
    then show ?thesis by simp
  qed
  let ?prev = "last (freep s # w1)"
  have "malloc_loop nunits (freep s) (m_ptr s (freep s)) s = malloc_loop nunits ?prev p s"
    using w(1) unfolding d(1) by (rule malloc_walk) (use d(3) sub w(3) in auto)
  also have "\<dots> = Some (take_block nunits ?prev p s)" using d(2) by (subst malloc_loop.simps) simp
  finally have run: "malloc_loop nunits (freep s) (m_ptr s (freep s)) s = Some (take_block nunits ?prev p s)" .
  have nx: "m_ptr s ?prev = p" using w(1) unfolding d(1) by (rule path_pred) simp
  have "?prev \<in> set (freep s # w1)" by (rule last_in_set) simp
  moreover have "set (freep s # w1) \<subseteq> set (w @ [freep s])" using sub by auto
  ultimately have "?prev \<in> set (base s # qs)" unfolding w(2) by blast
  then obtain us vs' where e: "base s # qs = us @ ?prev # vs'" by (meson split_list)
  have "hd (vs' @ [base s]) = p" using path_next [of s "base s" us ?prev vs' "base s"] assms(1) nx e by (metis list_ok_def)
  moreover have "p \<noteq> base s" using assms(1,5) d(2) by (auto simp: list_ok_def)
  ultimately obtain vs where "vs' = p # vs" by (cases vs') auto
  then show ?thesis using that [OF _ d(2) run] e by blast
qed

lemma free_disjoint:
  assumes "ordered s (xs @ p # ys)"
  shows "blk p (sz s p) \<inter> free_bytes s (xs @ ys) = {}"
proof -
  have "x + 16 * sz s x < p" if "x \<in> set xs" for x using assms that by (auto simp: ordered_def sorted_wrt_append)
  moreover have "p + 16 * sz s p < y" if "y \<in> set ys" for y using assms that by (auto simp: ordered_def sorted_wrt_append)
  ultimately show ?thesis by (fastforce simp: free_bytes_def blk_def)
qed

text \<open>Taking a whole block off the list, and cutting the tail off one.\<close>

lemma path_set [simp]:
  "a \<notin> set ps \<Longrightarrow> path (set_ptr a v s) x ps y \<longleftrightarrow> path s x ps y" "path (set_size a n s) x ps y \<longleftrightarrow> path s x ps y"
  by (rule path_cong, force)+

lemma ordered_set [simp]:
  "ordered (set_ptr a v s) ps \<longleftrightarrow> ordered s ps" "a \<notin> set ps \<Longrightarrow> ordered (set_size a n s) ps \<longleftrightarrow> ordered s ps"
  by (rule ordered_cong, force)+

lemma free_bytes_set [simp]:
  "free_bytes (set_ptr a v s) ps = free_bytes s ps" "a \<notin> set ps \<Longrightarrow> free_bytes (set_size a n s) ps = free_bytes s ps"
  by (rule free_bytes_cong, force)+

lemma list_ok_base: "list_ok lo s qs \<Longrightarrow> free_bytes s (base s # qs) = free_bytes s qs"
  by (simp add: list_ok_def blk_def)

text \<open>The block behind another one of the list is not \<open>base\<close>.\<close>

lemma list_ok_next:
  assumes "list_ok lo s qs" "base s # qs = us @ prev # p # vs"
  shows "p \<noteq> base s" "p \<in> set qs" "prev \<notin> set us" "prev \<notin> set (p # vs)" "p \<notin> set us" "p \<notin> set vs"
proof -
  have srt: "sorted_wrt (<) (us @ prev # p # vs)" using assms ordered_less by (metis list_ok_def)
  have "base s \<in> set (us @ [prev])" using assms(2) by (cases us) auto
  then show "p \<noteq> base s" using srt by (auto simp: sorted_wrt_append)
  then show "p \<in> set qs" using arg_cong [OF assms(2), of set] by auto
  show "prev \<notin> set us" "prev \<notin> set (p # vs)" "p \<notin> set us" "p \<notin> set vs" using srt by (auto simp: sorted_wrt_append)
qed

lemma take_whole:
  assumes l: "list_ok lo s qs" and d: "base s # qs = us @ prev # p # vs" and t: "t = (set_ptr prev (m_ptr s p) s)\<lparr>freep := prev\<rparr>"
  obtains qs' where "list_ok lo t qs'" "freep t \<in> set (base t # qs')" "free_bytes t qs' = free_bytes s qs - blk p (sz s p)"
proof -
  note L = l [unfolded list_ok_def]
  note nx = list_ok_next [OF l d]
  obtain qs' where q: "us @ prev # vs = base s # qs'" using d by (cases us) auto
  have pth: "path s (base s) us prev" "path s (m_ptr s p) vs (base s)" using L path_append [of s "base s" us "prev # p # vs"] unfolding d by auto
  then have "path t (base s) us prev" "path t (m_ptr s p) vs (base s)" using nx by (simp_all add: t)
  then have pt: "path t (base s) (us @ prev # vs) (base s)" by (auto simp: path_append t)
  have ord: "ordered t (us @ prev # vs)" using L unfolding d ordered_def by (auto simp: sorted_wrt_append t)
  have sub: "set (base s # qs') \<subseteq> set (base s # qs)" unfolding q [symmetric] d by auto
  have "ordered s ((us @ [prev]) @ p # vs)" using L unfolding d by simp
  then have "free_bytes s (us @ prev # vs) = free_bytes s (us @ prev # p # vs) - blk p (sz s p)" using free_disjoint [of s "us @ [prev]" p vs] by auto
  then have fb: "free_bytes s (base s # qs') = free_bytes s (base s # qs) - blk p (sz s p)" unfolding q d .
  have lt: "list_ok lo t qs'" unfolding list_ok_list using pt ord L sub unfolding q by (intro exI [of _ "base s # qs'"]) (auto simp: t)
  have "prev \<in> set (base s # qs')" unfolding q [symmetric] by simp
  moreover have "free_bytes t qs' = free_bytes s qs - blk p (sz s p)"
    using fb list_ok_base [OF l] list_ok_base [OF lt] by (simp add: t)
  ultimately show ?thesis using that [OF lt] by (simp add: t)
qed

lemma cut_tail:
  assumes l: "list_ok lo s qs" and d: "base s # qs = us @ prev # p # vs" and n: "0 < nunits" "nunits < m_size s p"
    and q: "q = p + 16 * unat (m_size s p - nunits)"
    and t: "t = (set_size q nunits (set_size p (m_size s p - nunits) s))\<lparr>freep := prev\<rparr>"
  shows "list_ok lo t qs" "freep t \<in> set (base t # qs)" "free_bytes t qs = free_bytes s qs - blk q (unat nunits)" "q + 16 * unat nunits = p + 16 * sz s p"
    "p < q" "q \<notin> set (base s # qs)"
proof -
  note L = l [unfolded list_ok_def]
  note nx = list_ok_next [OF l d]
  have m: "unat (m_size s p - nunits) = sz s p - unat nunits" "unat nunits < sz s p" "0 < unat nunits"
    using n by (auto simp: unat_sub word_less_nat_alt word_le_nat_alt)
  then show e: "q + 16 * unat nunits = p + 16 * sz s p" and pq: "p < q" by (auto simp: q)
  have ord: "ordered s ((us @ [prev]) @ p # vs)" using L unfolding d by simp
  have up: "p + 16 * sz s p < v" if "v \<in> set vs" for v using ord that by (auto simp: ordered_def sorted_wrt_append)
  have low: "x < p" if "x \<in> set (us @ [prev])" for x using ordered_less [OF ord] that by (auto simp: sorted_wrt_append)
  show nq: "q \<notin> set (base s # qs)"
  proof
    assume "q \<in> set (base s # qs)"
    then consider "q \<in> set (us @ [prev])" | "q = p" | "q \<in> set vs" unfolding d by auto
    then show False using low [of q] pq up [of q] e m(3) by cases auto
  qed
  have pt: "path t (base s) (base s # qs) (base s)" using L by (simp add: t)
  have sp: "sz t p = sz s p - unat nunits" using m(1) pq by (simp add: t)
  have same: "m_size t x = m_size s x" if "x \<in> set (base s # qs)" "x \<noteq> p" for x using that nq by (auto simp: t)
  have le: "sz t x \<le> sz s x" if "x \<in> set (base s # qs)" for x using same [OF that] sp by (cases "x = p") simp_all
  have ot: "ordered t (base s # qs)" unfolding ordered_def
  proof (rule sorted_wrt_mono_rel)
    show "sorted_wrt (\<lambda>x y. x + 16 * sz s x < y) (base s # qs)" using L unfolding ordered_def by blast
    show "x + 16 * sz t x < y" if "x \<in> set (base s # qs)" "x + 16 * sz s x < y" for x y using le [OF that(1)] that(2) by simp
  qed
  have "\<forall>x \<in> set qs. lo \<le> x \<and> 0 < sz t x \<and> x + 16 * sz t x \<le> brk s"
  proof
    fix x assume x: "x \<in> set qs"
    then have "lo \<le> x" "0 < sz s x" "x + 16 * sz s x \<le> brk s" using L by auto
    then show "lo \<le> x \<and> 0 < sz t x \<and> x + 16 * sz t x \<le> brk s" using same [of x] le [of x] sp m(2) x by (cases "x = p") auto
  qed
  moreover have "m_size t (base s) = 0" using same [of "base s"] nx(1) L by simp
  ultimately show lt: "list_ok lo t qs" using pt ot L unfolding list_ok_def by (simp add: t)
  have "prev \<in> set (base s # qs)" unfolding d by simp
  then show "freep t \<in> set (base t # qs)" by (simp add: t)
  have o: "free_bytes t (us @ prev # vs) = free_bytes s (us @ prev # vs)" using same nx unfolding d by (intro free_bytes_cong) auto
  have b: "blk p (sz s p) = blk p (sz t p) \<union> blk q (unat nunits)" "blk p (sz t p) \<inter> blk q (unat nunits) = {}"
    using sp m e pq by (auto simp: blk_def q)
  have "blk p (sz s p) \<inter> free_bytes s (us @ prev # vs) = {}" using free_disjoint [OF ord] by simp
  then have "free_bytes t (us @ prev # p # vs) = free_bytes s (us @ prev # p # vs) - blk q (unat nunits)" using o b by auto
  then show "free_bytes t qs = free_bytes s qs - blk q (unat nunits)" unfolding d [symmetric]
    using list_ok_base [OF l] list_ok_base [OF lt] by (simp add: t)
qed

section \<open>The allocated blocks\<close>

lemma alloc_okD:
  assumes "alloc_ok lo s A F" "(a, n) \<in> A"
  shows "0 < n" "sz s a = n" "lo \<le> a" "a + 16 * n \<le> brk s" "blk a n \<inter> F = {}" "(b, m) \<in> A \<Longrightarrow> (a, n) \<noteq> (b, m) \<Longrightarrow> blk a n \<inter> blk b m = {}"
  using assms unfolding alloc_ok_def by fast+

lemma alloc_okI:
  assumes "\<And>a n. (a, n) \<in> A \<Longrightarrow> 0 < n \<and> sz s a = n \<and> lo \<le> a \<and> a + 16 * n \<le> brk s \<and> blk a n \<inter> F = {}"
    "\<And>a n b m. (a, n) \<in> A \<Longrightarrow> (b, m) \<in> A \<Longrightarrow> (a, n) \<noteq> (b, m) \<Longrightarrow> blk a n \<inter> blk b m = {}"
  shows "alloc_ok lo s A F"
  using assms unfolding alloc_ok_def by fast

text \<open>No byte of an allocated block is a header of the list.\<close>

lemma alloc_not_listed:
  assumes "list_ok lo s qs" "alloc_ok lo s A (free_bytes s qs)" "(a, n) \<in> A" "x \<in> blk a n"
  shows "x \<notin> set (base s # qs)"
proof
  assume "x \<in> set (base s # qs)"
  moreover have "base s < x" using assms(1,4) alloc_okD(3) [OF assms(2,3)] by (auto simp: list_ok_def blk_def)
  ultimately have q: "x \<in> set qs" by auto
  then have "x \<in> blk x (sz s x)" using assms(1) by (simp add: list_ok_def)
  then have "x \<in> free_bytes s qs" using q unfolding free_bytes_def by blast
  then show False using alloc_okD(5) [OF assms(2,3)] assms(4) by blast
qed

text \<open>What a call may do to the heap: nothing that is allocated is written.\<close>

definition keeps_blocks :: "(nat \<times> nat) set \<Rightarrow> um_st \<Rightarrow> um_st \<Rightarrow> bool" where
  "keeps_blocks A s t \<longleftrightarrow> (\<forall>(b, m) \<in> A. \<forall>x \<in> blk b m. m_ptr t x = m_ptr s x \<and> m_size t x = m_size s x)"

lemma keeps_blocks_trans: "keeps_blocks A s t \<Longrightarrow> keeps_blocks A t u \<Longrightarrow> keeps_blocks A s u"
  unfolding keeps_blocks_def by fastforce

lemma keeps_blocksI: "(\<And>b m x. (b, m) \<in> A \<Longrightarrow> x \<in> blk b m \<Longrightarrow> m_ptr t x = m_ptr s x \<and> m_size t x = m_size s x) \<Longrightarrow> keeps_blocks A s t"
  unfolding keeps_blocks_def by blast

lemma alloc_remove:
  assumes "list_ok lo s qs" "alloc_ok lo s A (free_bytes s qs)" "(a, n) \<in> A" "same_but (insert a (set (base s # qs))) s t" "brk t = brk s"
  shows "alloc_ok lo t (A - {(a, n)}) (free_bytes s qs \<union> blk a n)" "keeps_blocks (A - {(a, n)}) s t"
proof -
  have other: "m_ptr t x = m_ptr s x \<and> m_size t x = m_size s x" if "(b, m) \<in> A - {(a, n)}" "x \<in> blk b m" for b m x
  proof -
    have "a \<in> blk a n" using alloc_okD(1) [OF assms(2,3)] by simp
    moreover have "blk a n \<inter> blk b m = {}" using alloc_okD(6) [OF assms(2,3), of b m] that(1) by blast
    ultimately have "x \<noteq> a" using that(2) by blast
    then show ?thesis using assms(4) alloc_not_listed [OF assms(1,2), of b m x] that unfolding same_but_def by blast
  qed
  then show "keeps_blocks (A - {(a, n)}) s t" by (rule keeps_blocksI)
  show "alloc_ok lo t (A - {(a, n)}) (free_bytes s qs \<union> blk a n)"
  proof (rule alloc_okI)
    fix b m assume b: "(b, m) \<in> A - {(a, n)}"
    then have "b \<in> blk b m" using alloc_okD(1) [OF assms(2)] by auto
    then have "m_size t b = m_size s b" using other [OF b] by blast
    then show "0 < m \<and> sz t b = m \<and> lo \<le> b \<and> b + 16 * m \<le> brk t \<and> blk b m \<inter> (free_bytes s qs \<union> blk a n) = {}"
      using alloc_okD(1-5) [OF assms(2), of b m] alloc_okD(6) [OF assms(2), of b m a n] b assms(3,5) by auto
  qed (use alloc_okD(6) [OF assms(2)] in blast)
qed

lemma alloc_add:
  assumes "list_ok lo s qs" "alloc_ok lo s A (free_bytes s qs)" "blk a n \<subseteq> free_bytes s qs" "0 < n" "sz t a = n" "lo \<le> a" "a + 16 * n \<le> brk s"
    "same_but (insert a (set (base s # qs))) s t" "brk t = brk s"
  shows "alloc_ok lo t (insert (a, n) A) (free_bytes s qs - blk a n)" "(b, m) \<in> A \<Longrightarrow> blk a n \<inter> blk b m = {}" "keeps_blocks A s t"
proof -
  have dj: "blk a n \<inter> blk b m = {}" if "(b, m) \<in> A" for b m using alloc_okD(5) [OF assms(2) that] assms(3) by blast
  then show "(b, m) \<in> A \<Longrightarrow> blk a n \<inter> blk b m = {}" .
  have other: "m_ptr t x = m_ptr s x \<and> m_size t x = m_size s x" if "(b, m) \<in> A" "x \<in> blk b m" for b m x
  proof -
    have "a \<in> blk a n" using assms(4) by simp
    then have "x \<noteq> a" using dj [OF that(1)] that(2) by blast
    then show ?thesis using assms(8) alloc_not_listed [OF assms(1,2) that] unfolding same_but_def by blast
  qed
  then show "keeps_blocks A s t" by (rule keeps_blocksI)
  show "alloc_ok lo t (insert (a, n) A) (free_bytes s qs - blk a n)"
  proof (rule alloc_okI)
    fix b m assume "(b, m) \<in> insert (a, n) A"
    then consider "b = a" "m = n" | "(b, m) \<in> A" by auto
    then show "0 < m \<and> sz t b = m \<and> lo \<le> b \<and> b + 16 * m \<le> brk t \<and> blk b m \<inter> (free_bytes s qs - blk a n) = {}"
    proof cases
      case 2
      then have "m_size t b = m_size s b" using other [of b m b] alloc_okD(1) [OF assms(2)] by simp
      then show ?thesis using alloc_okD(1-5) [OF assms(2) 2] assms(9) by auto
    qed (use assms(4-7,9) in auto)
  next
    fix b m c k assume "(b, m) \<in> insert (a, n) A" "(c, k) \<in> insert (a, n) A" "(b, m) \<noteq> (c, k)"
    then show "blk b m \<inter> blk c k = {}" using dj alloc_okD(6) [OF assms(2), of b m c k] by auto
  qed
qed

lemma take_block_ok:
  assumes h: "heap_ok lo s A qs" and d: "base s # qs = us @ prev # p # vs" and n: "0 < nunits" "nunits \<le> m_size s p" and r: "take_block nunits prev p s = (r, t)"
  obtains qs' where "heap_ok lo t (insert (r - 16, unat nunits) A) qs'" "16 < r" "\<forall>(b, m) \<in> A. blk (r - 16) (unat nunits) \<inter> blk b m = {}" "keeps_blocks A s t"
proof -
  have l: "list_ok lo s qs" and A: "alloc_ok lo s A (free_bytes s qs)" using h by (simp_all add: heap_ok_def)
  note nx = list_ok_next [OF l d]
  have p: "lo \<le> p" "p + 16 * sz s p \<le> brk s" "blk p (sz s p) \<subseteq> free_bytes s qs" "0 < p" using l nx(2) by (auto simp: list_ok_def free_bytes_def)
  have pos: "0 < unat nunits" using n(1) by (simp add: word_less_nat_alt)
  have prev: "prev \<in> set (base s # qs)" "p \<in> set (base s # qs)" unfolding d by simp_all
  show ?thesis
  proof (cases "m_size s p = nunits")
    case True
    then have t: "r = p + 16" "t = (set_ptr prev (m_ptr s p) s)\<lparr>freep := prev\<rparr>" using r by (simp_all add: take_block_def)
    obtain qs' where q: "list_ok lo t qs'" "freep t \<in> set (base t # qs')" "free_bytes t qs' = free_bytes s qs - blk p (sz s p)"
      using take_whole [OF l d t(2)] by blast
    have "same_but (insert p (set (base s # qs))) s t" using prev by (auto simp: same_but_def t(2))
    then have "alloc_ok lo t (insert (p, unat nunits) A) (free_bytes t qs')" "\<forall>(b, m) \<in> A. blk p (unat nunits) \<inter> blk b m = {}" "keeps_blocks A s t"
      using alloc_add [OF l A, of p "unat nunits" t] p True pos unfolding q(3) by (auto simp: t(2))
    then show ?thesis using that [of qs'] q(1,2) p(4) by (simp add: heap_ok_def t(1))
  next
    case False
    let ?q = "p + 16 * unat (m_size s p - nunits)"
    have "nunits < m_size s p" using n(2) False by simp
    moreover have t: "r = ?q + 16" "t = (set_size ?q nunits (set_size p (m_size s p - nunits) s))\<lparr>freep := prev\<rparr>"
      using r False by (simp_all add: take_block_def Let_def)
    ultimately have c: "list_ok lo t qs" "freep t \<in> set (base t # qs)" "free_bytes t qs = free_bytes s qs - blk ?q (unat nunits)"
        "?q + 16 * unat nunits = p + 16 * sz s p" "p < ?q" "?q \<notin> set (base s # qs)" using cut_tail [OF l d n(1) _ refl t(2)] by blast+
    have "blk ?q (unat nunits) \<subseteq> blk p (sz s p)" using c(4) by (auto simp: blk_def)
    then have sub: "blk ?q (unat nunits) \<subseteq> free_bytes s qs" using p(3) by blast
    have "same_but (insert ?q (set (base s # qs))) s t" using prev by (auto simp: same_but_def t(2))
    then have "alloc_ok lo t (insert (?q, unat nunits) A) (free_bytes t qs)" "\<forall>(b, m) \<in> A. blk ?q (unat nunits) \<inter> blk b m = {}" "keeps_blocks A s t"
      using alloc_add [OF l A sub pos, of t] p c(4) unfolding c(3) by (auto simp: t(2))
    then show ?thesis using that [of qs] c(1,2) p(4) by (simp add: heap_ok_def t(1))
  qed
qed

lemma brk_update [simp]:
  "path (s\<lparr>brk := b\<rparr>) x ps y \<longleftrightarrow> path s x ps y" "ordered (s\<lparr>brk := b\<rparr>) ps \<longleftrightarrow> ordered s ps" "free_bytes (s\<lparr>brk := b\<rparr>) ps = free_bytes s ps" "path (s\<lparr>sbrk_ok := k\<rparr>) x ps y \<longleftrightarrow> path s x ps y"
  "ordered (s\<lparr>sbrk_ok := k\<rparr>) ps \<longleftrightarrow> ordered s ps" "free_bytes (s\<lparr>sbrk_ok := k\<rparr>) ps = free_bytes s ps"
  by (simp_all add: ordered_def free_bytes_def) (rule path_cong, simp)+

lemma morecore_bytes:
  assumes "unat nu < 2 ^ 27"
  shows "request nu = int (16 * unat nu)"
proof -
  have "unat (ucast nu * 16 :: uint64) = unat nu * 16" using assms by (simp add: unat_word_ariths unsigned_ucast_eq take_bit_nat_eq_self)
  then have "unat (ucast (ucast nu * 16 :: uint64) :: uint32) = 16 * unat nu"
    using assms by (simp add: unsigned_ucast_eq take_bit_nat_eq_self)
  then have u: "uint (ucast (ucast nu * 16 :: uint64) :: uint32) = int (16 * unat nu)" by (simp only: uint_nat)
  have "signed_take_bit 31 (int (16 * k)) = int (16 * k)" if "k < 2 ^ 27" for k :: nat using that by (intro signed_take_bit_int_eq_self) simp_all
  from this [OF assms] show ?thesis unfolding request_def sint_uint u by simp
qed

text \<open>The size of the request to the kernel, and whether it is granted.\<close>

definition granted :: "uint32 \<Rightarrow> um_st \<Rightarrow> bool" where
  "granted nu s \<longleftrightarrow> sbrk_ok s \<noteq> [] \<and> hd (sbrk_ok s) \<and> brk s + 16 * max (unat nu) 4096 \<le> MEMORY"

lemma heap_ok_refused: "heap_ok lo s A qs \<Longrightarrow> heap_ok lo (s\<lparr>sbrk_ok := k\<rparr>) A qs"
  by (simp add: heap_ok_def list_ok_def alloc_ok_def)

lemma alloc_grow:
  assumes "alloc_ok lo s A F" "brk s \<le> brk t" "\<And>b m. (b, m) \<in> A \<Longrightarrow> m_size t b = m_size s b"
  shows "alloc_ok lo t A (F \<union> blk (brk s) n)"
proof (rule alloc_okI)
  fix b m assume b: "(b, m) \<in> A"
  then show "0 < m \<and> sz t b = m \<and> lo \<le> b \<and> b + 16 * m \<le> brk t \<and> blk b m \<inter> (F \<union> blk (brk s) n) = {}"
    using alloc_okD(1-5) [OF assms(1) b] assms(2) assms(3) [OF b] by (auto simp: blk_def)
qed (use alloc_okD(6) [OF assms(1)] in blast)

lemma list_grow:
  assumes "list_ok lo s qs" "brk s \<le> b" "b \<le> MEMORY"
  shows "list_ok lo (set_size (brk s) n (s\<lparr>brk := b, sbrk_ok := k\<rparr>)) qs" "free_bytes (set_size (brk s) n (s\<lparr>brk := b, sbrk_ok := k\<rparr>)) qs = free_bytes s qs"
    "brk s \<notin> set (base s # qs)"
proof -
  note L = assms(1) [unfolded list_ok_def]
  show nin: "brk s \<notin> set (base s # qs)" using L by auto
  show "free_bytes (set_size (brk s) n (s\<lparr>brk := b, sbrk_ok := k\<rparr>)) qs = free_bytes s qs" using nin by simp
  show "list_ok lo (set_size (brk s) n (s\<lparr>brk := b, sbrk_ok := k\<rparr>)) qs" unfolding list_ok_def using L nin assms(2,3) by auto
qed

lemma morecore_grown:
  assumes h: "heap_ok lo s A qs" and N: "0 < unat N" "brk s + 16 * unat N \<le> MEMORY" and s1: "s1 = set_size (brk s) N (s\<lparr>brk := brk s + 16 * unat N, sbrk_ok := k\<rparr>)"
  obtains t qs' x where "ufree (brk s + 16) s1 = Some t" "freep t \<noteq> 0" "heap_ok lo t A qs'" "x \<in> set qs'" "N \<le> m_size t x" "keeps_blocks A s t"
proof -
  have l: "list_ok lo s qs" and A: "alloc_ok lo s A (free_bytes s qs)" and f: "freep s \<in> set (base s # qs)" using h by (simp_all add: heap_ok_def)
  have g: "list_ok lo s1 qs" "free_bytes s1 qs = free_bytes s qs" "brk s \<notin> set (base s # qs)" using list_grow [OF l _ N(2)] unfolding s1 by simp_all
  have e: "sz s1 (brk s) = unat N" "brk s1 = brk s + 16 * unat N" "base s1 = base s" "freep s1 = freep s" by (simp_all add: s1)
  have dj: "blk (brk s) (sz s1 (brk s)) \<inter> free_bytes s1 qs = {}" using l unfolding g(2) e(1) unfolding list_ok_def free_bytes_def blk_def by fastforce
  have a: "freep s1 \<in> set (base s1 # qs)" "0 < sz s1 (brk s)" "lo \<le> brk s" "brk s + 16 * sz s1 (brk s) \<le> brk s1" using f N(1) l by (simp_all add: e list_ok_def)
  obtain t qs' where t: "ufree (brk s + 16) s1 = Some t" "list_ok lo t qs'" "freep t \<in> set (base t # qs')" "free_bytes t qs' = free_bytes s1 qs \<union> blk (brk s) (sz s1 (brk s))"
    "brk t = brk s1" "same_but (insert (brk s) (set (base s1 # qs))) s1 t" "\<exists>x \<in> set qs'. sz s1 (brk s) \<le> sz t x"
    using free_block [OF g(1) a dj] by metis
  have other: "m_ptr t x = m_ptr s x \<and> m_size t x = m_size s x" if "(b, m) \<in> A" "x \<in> blk b m" for b m x
  proof -
    have "x \<noteq> brk s" using alloc_okD(4) [OF A that(1)] that(2) by (auto simp: blk_def)
    moreover have "x \<notin> set (base s # qs)" by (rule alloc_not_listed [OF l A that])
    ultimately show ?thesis using t(6) unfolding same_but_def e(3) by (simp add: s1)
  qed
  have "m_size t b = m_size s b" if "(b, m) \<in> A" for b m using other [OF that, of b] alloc_okD(1) [OF A that] by simp
  then have "alloc_ok lo t A (free_bytes t qs')" unfolding t(4) g(2) using alloc_grow [OF A] t(5) e(2) by simp
  then have ok: "heap_ok lo t A qs'" using t(2,3) by (simp add: heap_ok_def)
  have nz: "freep t \<noteq> 0" using t(2,3) by (auto simp: list_ok_def)
  obtain x where x: "x \<in> set qs'" "N \<le> m_size t x" using t(7) unfolding e(1) word_le_nat_alt by blast
  have "keeps_blocks A s t" by (rule keeps_blocksI) (rule other)
  then show ?thesis by (rule that [OF t(1) nz ok x])
qed

lemma morecore_cases:
  assumes h: "heap_ok lo s A qs" and n: "unat nu < 2 ^ 27"
  obtains (refused) "\<not> granted nu s" "morecore nu s = Some (0, s\<lparr>sbrk_ok := tl (sbrk_ok s)\<rparr>)"
  | (grown) t qs' x where "granted nu s" "morecore nu s = Some (freep t, t)" "freep t \<noteq> 0" "heap_ok lo t A qs'" "x \<in> set qs'" "nu \<le> m_size t x" "keeps_blocks A s t"
proof -
  define N where "N = (if nu < 4096 then 4096 else nu)"
  have N: "unat N = max (unat nu) 4096" "unat N < 2 ^ 27" "nu \<le> N" using n by (auto simp: N_def word_less_nat_alt word_le_nat_alt)
  have bytes: "request N = int (16 * unat N)" by (rule morecore_bytes [OF N(2)])
  have pos: "0 < int (16 * unat N)" unfolding N(1) by simp
  show ?thesis
  proof (cases "granted nu s")
    case False
    then have "sbrk (int (16 * unat N)) s = (- 1, s\<lparr>sbrk_ok := tl (sbrk_ok s)\<rparr>)" using pos unfolding sbrk_def granted_def N(1) nat_int by auto
    then have "morecore nu s = Some (0, s\<lparr>sbrk_ok := tl (sbrk_ok s)\<rparr>)" unfolding morecore_def N_def [symmetric] Let_def bytes by simp
    then show ?thesis using refused False by blast
  next
    case True
    define s1 where "s1 = set_size (brk s) N (s\<lparr>brk := brk s + 16 * unat N, sbrk_ok := tl (sbrk_ok s)\<rparr>)"
    have mem: "brk s + 16 * unat N \<le> MEMORY" "0 < unat N" using True by (simp_all add: granted_def N(1))
    have "sbrk (int (16 * unat N)) s = (int (brk s), s\<lparr>brk := brk s + 16 * unat N, sbrk_ok := tl (sbrk_ok s)\<rparr>)"
      using True pos unfolding sbrk_def granted_def N(1) nat_int by simp
    moreover have "mapped (s\<lparr>brk := brk s + 16 * unat N, sbrk_ok := tl (sbrk_ok s)\<rparr>) (brk s + 11)" using mem(2) unfolding mapped_def by simp
    ultimately have m: "morecore nu s = ufree (brk s + 16) s1 \<bind> (\<lambda>s. Some (freep s, s))" unfolding morecore_def N_def [symmetric] Let_def bytes by (simp add: s1_def)
    obtain t qs' x where t: "ufree (brk s + 16) s1 = Some t" "freep t \<noteq> 0" "heap_ok lo t A qs'" "x \<in> set qs'" "N \<le> m_size t x" "keeps_blocks A s t"
      using morecore_grown [OF h mem(2,1) s1_def] by metis
    have "morecore nu s = Some (freep t, t)" unfolding m t(1) by simp
    moreover have "nu \<le> m_size t x" using N(3) t(5) by simp
    ultimately show ?thesis using grown True t(2,3,4,6) by blast
  qed
qed

section \<open>The allocator\<close>

text \<open>The states between calls: before the first one the static variables are zero and nothing is allocated.\<close>

definition um_ok :: "nat \<Rightarrow> um_st \<Rightarrow> (nat \<times> nat) set \<Rightarrow> bool" where
  "um_ok lo s A \<longleftrightarrow>
     freep s = 0 \<and> A = {} \<and> 0 < base s \<and> base s + 16 \<le> lo \<and> lo \<le> brk s \<and> brk s \<le> MEMORY \<or> (\<exists>qs. heap_ok lo s A qs)"

lemma malloc_init_ok:
  assumes "um_ok lo s A"
  obtains qs where "heap_ok lo (malloc_init s) A qs" "keeps_blocks A s (malloc_init s)" "sbrk_ok (malloc_init s) = sbrk_ok s" "brk (malloc_init s) = brk s"
proof (cases "freep s = 0")
  case True
  then have A: "A = {}" "0 < base s" "base s + 16 \<le> lo" "lo \<le> brk s" "brk s \<le> MEMORY" using assms by (auto simp: um_ok_def heap_ok_def list_ok_def)
  have "heap_ok lo (malloc_init s) {} []" using A True by (simp add: malloc_init_def heap_ok_def list_ok_def alloc_ok_def ordered_def)
  then show ?thesis using that [of "[]"] True by (simp add: A(1) keeps_blocks_def malloc_init_def)
next
  case False
  then obtain qs where "heap_ok lo s A qs" using assms by (auto simp: um_ok_def)
  then show ?thesis using that [of qs] False by (simp add: malloc_init_def keeps_blocks_def)
qed

text \<open>A search that finds no block comes to \<open>freep\<close> once, and asks for more.\<close>

lemma malloc_none:
  assumes "list_ok lo s qs" "freep s \<in> set (base s # qs)" "\<And>x. x \<in> set qs \<Longrightarrow> \<not> nunits \<le> m_size s x" "0 < nunits"
  shows "malloc_loop nunits (freep s) (m_ptr s (freep s)) s =
    morecore nunits s \<bind> (\<lambda>(p, s). if p = 0 then Some (0, s) else malloc_loop nunits p (m_ptr s p) s)"
proof -
  obtain w where w: "path s (m_ptr s (freep s)) (w @ [freep s]) (m_ptr s (freep s))" "set (w @ [freep s]) = set (base s # qs)" "freep s \<notin> set w"
    using circle [OF assms(1,2)] by blast
  have small: "\<not> nunits \<le> m_size s x" if "x \<in> set (w @ [freep s])" for x
    using that assms(3) [of x] assms(1,4) unfolding w(2) list_ok_def by auto
  have "malloc_loop nunits (freep s) (m_ptr s (freep s)) s = malloc_loop nunits (last (freep s # w)) (freep s) s"
    by (rule malloc_walk [OF w(1)]) (use small w(3) in auto)
  also have "\<dots> = morecore nunits s \<bind> (\<lambda>(p, s). if p = 0 then Some (0, s) else malloc_loop nunits p (m_ptr s p) s)"
    using small [of "freep s"] by (subst malloc_loop.simps) simp
  finally show ?thesis .
qed

lemma malloc_take:
  assumes h: "heap_ok lo s A qs" and x: "x \<in> set qs" "nunits \<le> m_size s x" and n: "0 < nunits"
  obtains r t where "malloc_loop nunits (freep s) (m_ptr s (freep s)) s = Some (r, t)" "um_ok lo t (insert (r - 16, unat nunits) A)" "16 < r"
    "\<forall>(b, m) \<in> A. blk (r - 16) (unat nunits) \<inter> blk b m = {}" "keeps_blocks A s t"
proof -
  have l: "list_ok lo s qs" and f: "freep s \<in> set (base s # qs)" using h by (simp_all add: heap_ok_def)
  obtain us prev p vs where d: "base s # qs = us @ prev # p # vs" "nunits \<le> m_size s p"
    "malloc_loop nunits (freep s) (m_ptr s (freep s)) s = Some (take_block nunits prev p s)" by (rule malloc_found [OF l f x n]) (rule that)
  obtain r t where r: "take_block nunits prev p s = (r, t)" by (cases "take_block nunits prev p s")
  obtain qs' where q: "heap_ok lo t (insert (r - 16, unat nunits) A) qs'" "16 < r" "\<forall>(b, m) \<in> A. blk (r - 16) (unat nunits) \<inter> blk b m = {}" "keeps_blocks A s t"
    by (rule take_block_ok [OF h d(1) n d(2) r]) (rule that)
  have "um_ok lo t (insert (r - 16, unat nunits) A)" using q(1) unfolding um_ok_def by blast
  with d(3) r q(2-4) show ?thesis by (intro that [of r t]) simp_all
qed

lemma units_ok:
  assumes "unat nbytes < 2 ^ 31 - 32"
  shows "unat (units nbytes) < 2 ^ 27" "0 < units nbytes" "unat nbytes \<le> 16 * (unat (units nbytes) - 1)" "16 * (unat (units nbytes) - 1) < unat nbytes + 16"
proof -
  have "unat (ucast nbytes + 16 - 1 :: uint64) = unat nbytes + 15"
    using assms by (simp add: unat_word_ariths unsigned_ucast_eq take_bit_nat_eq_self)
  then have "unat ((ucast nbytes + 16 - 1) div 16 + 1 :: uint64) = (unat nbytes + 15) div 16 + 1"
    using assms by (simp add: unat_word_ariths)
  then have u: "unat (units nbytes) = (unat nbytes + 15) div 16 + 1" using assms by (simp add: units_def unsigned_ucast_eq take_bit_nat_eq_self)
  show "unat (units nbytes) < 2 ^ 27" "unat nbytes \<le> 16 * (unat (units nbytes) - 1)" "16 * (unat (units nbytes) - 1) < unat nbytes + 16" unfolding u using assms by auto
  show "0 < units nbytes" unfolding word_less_nat_alt u by simp
qed

text \<open>One call of the loop from a good heap: it ends, with a block or because memory was refused.\<close>

lemma malloc_loop_ok:
  assumes h: "heap_ok lo s A qs" and n: "0 < nunits" "unat nunits < 2 ^ 27"
  obtains (full) t where "malloc_loop nunits (freep s) (m_ptr s (freep s)) s = Some (0, t)" "\<not> granted nunits s" "um_ok lo t A" "keeps_blocks A s t"
  | (got) r t where "malloc_loop nunits (freep s) (m_ptr s (freep s)) s = Some (r, t)" "um_ok lo t (insert (r - 16, unat nunits) A)" "16 < r"
      "\<forall>(b, m) \<in> A. blk (r - 16) (unat nunits) \<inter> blk b m = {}" "keeps_blocks A s t"
proof (cases "\<exists>x \<in> set qs. nunits \<le> m_size s x")
  case True
  then obtain x where x: "x \<in> set qs" "nunits \<le> m_size s x" by blast
  show ?thesis by (rule malloc_take [OF h x n(1)]) (rule got)
next
  case False
  have l: "list_ok lo s qs" and f: "freep s \<in> set (base s # qs)" using h by (simp_all add: heap_ok_def)
  have m: "malloc_loop nunits (freep s) (m_ptr s (freep s)) s = morecore nunits s \<bind> (\<lambda>(p, s). if p = 0 then Some (0, s) else malloc_loop nunits p (m_ptr s p) s)"
    using malloc_none [OF l f _ n(1)] False by blast
  from h n(2) show ?thesis
  proof (cases rule: morecore_cases [case_names refused grown])
    case refused
    have "um_ok lo (s\<lparr>sbrk_ok := tl (sbrk_ok s)\<rparr>) A" using heap_ok_refused [OF h] unfolding um_ok_def by blast
    then show ?thesis using full refused m by (simp add: keeps_blocks_def)
  next
    case (grown t qs' x)
    obtain r u where r: "malloc_loop nunits (freep t) (m_ptr t (freep t)) t = Some (r, u)" "um_ok lo u (insert (r - 16, unat nunits) A)" "16 < r"
      "\<forall>(b, m) \<in> A. blk (r - 16) (unat nunits) \<inter> blk b m = {}" "keeps_blocks A t u"
      by (rule malloc_take [OF grown(4-6) n(1)]) (rule that)
    have "malloc_loop nunits (freep s) (m_ptr s (freep s)) s = Some (r, u)" using m grown(2,3) r(1) by simp
    then show ?thesis by (rule got [OF _ r(2-4) keeps_blocks_trans [OF grown(7) r(5)]])
  qed
qed

text \<open>C37: \<open>free\<close> of a block that was allocated and not freed since returns, and keeps the allocator's invariant: the list of free blocks is
  circular, in the order of addresses, with no two blocks touching, the bytes of the free blocks are those before and the freed block's, and no byte
  of another allocated block is written.\<close>

theorem ufree_ok:
  assumes "heap_ok lo s A qs" "(a, n) \<in> A"
  shows "\<exists>t qs'. ufree (a + 16) s = Some t \<and> heap_ok lo t (A - {(a, n)}) qs' \<and> free_bytes t qs' = free_bytes s qs \<union> blk a n \<and> keeps_blocks (A - {(a, n)}) s t"
proof -
  have l: "list_ok lo s qs" and A: "alloc_ok lo s A (free_bytes s qs)" and f: "freep s \<in> set (base s # qs)" using assms(1) by (simp_all add: heap_ok_def)
  note a = alloc_okD(1-5) [OF A assms(2)]
  obtain t qs' where t: "ufree (a + 16) s = Some t" "list_ok lo t qs'" "freep t \<in> set (base t # qs')" "free_bytes t qs' = free_bytes s qs \<union> blk a (sz s a)"
    "brk t = brk s" "same_but (insert a (set (base s # qs))) s t" using free_block [OF l f, of a] a by metis
  have "alloc_ok lo t (A - {(a, n)}) (free_bytes s qs \<union> blk a n)" "keeps_blocks (A - {(a, n)}) s t" using alloc_remove [OF l A assms(2) t(6,5)] by blast+
  then show ?thesis using t(1-4) a(2) unfolding heap_ok_def by auto
qed

text \<open>C36: \<open>malloc\<close> of fewer than \<open>2 ^ 31 - 32\<close> bytes always returns. It answers 0 only if the kernel refused memory, and leaves the heap as it was. Otherwise the block has room for
  the bytes asked for, overlaps no block handed out before, and is added to the allocated ones; in both cases no byte of an allocated block is
  written, and the invariant of the allocator holds again.\<close>

theorem malloc_ok:
  assumes "um_ok lo s A" "unat nbytes < 2 ^ 31 - 32"
  shows "\<exists>r t n. malloc nbytes s = Some (r, t) \<and> keeps_blocks A s t \<and>
    (if r = 0 then \<not> granted (units nbytes) s \<and> um_ok lo t A
     else um_ok lo t (insert (r - 16, n) A) \<and> unat nbytes \<le> 16 * (n - 1) \<and> (\<forall>(b, m) \<in> A. blk (r - 16) n \<inter> blk b m = {}))"
proof -
  obtain qs where i: "heap_ok lo (malloc_init s) A qs" "keeps_blocks A s (malloc_init s)" "sbrk_ok (malloc_init s) = sbrk_ok s" "brk (malloc_init s) = brk s"
    by (rule malloc_init_ok [OF assms(1)]) (rule that)
  have g: "granted (units nbytes) (malloc_init s) = granted (units nbytes) s" using i(3,4) by (simp add: granted_def)
  note u = units_ok [OF assms(2)]
  from i(1) u(2,1) show ?thesis
  proof (cases rule: malloc_loop_ok [case_names full got])
    case (full t)
    then show ?thesis using keeps_blocks_trans [OF i(2) full(4)] g by (auto simp: malloc_def)
  next
    case (got r t)
    have "malloc nbytes s = Some (r, t)" using got(1) by (simp add: malloc_def)
    note m = this got(2,4) keeps_blocks_trans [OF i(2) got(5)] u(3)
    show ?thesis by (rule exI [of _ r], rule exI [of _ t], rule exI [of _ "unat (units nbytes)"]) (use m got(3) in simp)
  qed
qed

text \<open>A process before its first call, and one with a single block handed out.\<close>

definition um0 :: um_st where
  "um0 = \<lparr>m_ptr = \<lambda>_. 0, m_size = \<lambda>_. 0, base = 4096, freep = 0, brk = 8192, sbrk_ok = [True]\<rparr>"

definition um1 :: um_st where
  "um1 = \<lparr>m_ptr = \<lambda>_. 4096, m_size = (\<lambda>_. 0)(8192 := 8), base = 4096, freep = 4096, brk = 8320, sbrk_ok = []\<rparr>"

theorem ufree_ok_witness:
  "heap_ok 8192 um1 {(8192, 8)} [] \<and> (\<exists>t qs'. ufree 8208 um1 = Some t \<and> heap_ok 8192 t {} qs' \<and> free_bytes t qs' = blk 8192 8)"
proof -
  have h: "heap_ok 8192 um1 {(8192, 8)} []" by (simp add: heap_ok_def list_ok_def alloc_ok_def ordered_def free_bytes_def um1_def MEMORY_def)
  from ufree_ok [OF h, of 8192 8] show ?thesis using h by (auto simp: free_bytes_def)
qed

theorem malloc_ok_witness:
  "um_ok 8192 um0 {} \<and> (\<exists>r t n. malloc 100 um0 = Some (r, t) \<and> r \<noteq> 0 \<and> um_ok 8192 t {(r - 16, n)} \<and> 100 \<le> 16 * (n - 1))"
proof -
  have u: "um_ok 8192 um0 {}" by (simp add: um_ok_def um0_def MEMORY_def)
  have n: "unat (100 :: uint32) < 2 ^ 31 - 32" by simp
  have "unat (units 100) = 8" by (simp add: units_def)
  then have g: "granted (units 100) um0" by (simp add: granted_def um0_def MEMORY_def)
  obtain r t n where m: "malloc 100 um0 = Some (r, t)" "if r = 0 then \<not> granted (units 100) um0 \<and> um_ok 8192 t {}
     else um_ok 8192 t (insert (r - 16, n) {}) \<and> unat (100 :: uint32) \<le> 16 * (n - 1) \<and> (\<forall>(b, m) \<in> {}. blk (r - 16) n \<inter> blk b m = {})"
    using malloc_ok [OF u n] by blast
  then have "r \<noteq> 0" using g by (auto split: if_splits)
  then have "um_ok 8192 t {(r - 16, n)} \<and> 100 \<le> 16 * (n - 1)" using m(2) by simp
  then show ?thesis using u m(1) \<open>r \<noteq> 0\<close> by blast
qed

text \<open>The bound on the size in \<open>malloc_ok\<close> is needed: from \<open>2 ^ 31\<close> bytes on, the number of bytes that \<open>morecore\<close> passes on is negative as an
  \<open>int\<close>, and the kernel takes a negative request that is larger than the memory of the process as done.\<close>

lemma request_negative:
  assumes "2 ^ 27 \<le> unat nu" "unat nu < 2 ^ 28"
  shows "request nu = int (16 * unat nu) - 2 ^ 32"
proof -
  have "unat (ucast nu * 16 :: uint64) = unat nu * 16" using assms by (simp add: unat_word_ariths unsigned_ucast_eq take_bit_nat_eq_self)
  then have "unat (ucast (ucast nu * 16 :: uint64) :: uint32) = 16 * unat nu"
    using assms by (simp add: unsigned_ucast_eq take_bit_nat_eq_self)
  then have u: "uint (ucast (ucast nu * 16 :: uint64) :: uint32) = int (16 * unat nu)" by (simp only: uint_nat)
  have "signed_take_bit 31 (int (16 * k)) = int (16 * k) - 2 ^ 32" if "2 ^ 27 \<le> k" "k < 2 ^ 28" for k :: nat
  proof -
    have "(int (16 * k) + 2 ^ 31) mod 2 ^ 32 = (int (16 * k) + 2 ^ 31 - 2 ^ 32) mod 2 ^ 32" by (metis minus_mod_self2)
    also have "\<dots> = int (16 * k) + 2 ^ 31 - 2 ^ 32" by (rule mod_pos_pos_trivial) (use that in simp_all)
    finally show ?thesis by (simp add: signed_take_bit_eq_take_bit_shift take_bit_eq_mod)
  qed
  from this [OF assms] show ?thesis unfolding request_def sint_uint u by simp
qed

lemma units_huge:
  assumes "2 ^ 31 \<le> unat nbytes" "unat nbytes < 2 ^ 32 - 2 ^ 27 - 32"
  shows "2 ^ 27 \<le> unat (units nbytes)" "16 * unat (units nbytes) < 2 ^ 32 - 2 ^ 27"
proof -
  have "unat (ucast nbytes + 16 - 1 :: uint64) = unat nbytes + 15"
    using assms by (simp add: unat_word_ariths unsigned_ucast_eq take_bit_nat_eq_self)
  then have "unat ((ucast nbytes + 16 - 1) div 16 + 1 :: uint64) = (unat nbytes + 15) div 16 + 1"
    using assms by (simp add: unat_word_ariths)
  then have u: "unat (units nbytes) = (unat nbytes + 15) div 16 + 1" using assms by (simp add: units_def unsigned_ucast_eq take_bit_nat_eq_self)
  show "2 ^ 27 \<le> unat (units nbytes)" "16 * unat (units nbytes) < 2 ^ 32 - 2 ^ 27" unfolding u using assms by auto
qed

lemma sbrk_negative: "n < 0 \<Longrightarrow> int (brk s) + n < 0 \<Longrightarrow> sbrk n s = (int (brk s), s)"
  by (simp add: sbrk_def)

lemma morecore_huge:
  assumes "2 ^ 27 \<le> unat nu" "16 * unat nu < 2 ^ 32 - 2 ^ 27" "brk s \<le> MEMORY" "4096 dvd brk s"
  shows "sbrk (request nu) s = (int (brk s), s)" "morecore nu s = None"
proof -
  have r: "request nu = int (16 * unat nu) - 2 ^ 32" using request_negative assms(1,2) by simp
  have "int (16 * unat nu) < int (2 ^ 32 - 2 ^ 27)" using assms(2) by (simp only: of_nat_less_iff)
  also have "int (2 ^ 32 - 2 ^ 27) = 2 ^ 32 - 2 ^ 27" by simp
  finally have "int (16 * unat nu) < 2 ^ 32 - 2 ^ 27" .
  moreover have "int (brk s) \<le> 2 ^ 27" using assms(3) by (simp add: MEMORY_def)
  ultimately have "request nu < 0" "int (brk s) + request nu < 0" unfolding r by linarith+
  then show sb: "sbrk (request nu) s = (int (brk s), s)" by (rule sbrk_negative)
  have "\<not> nu < 4096" using assms(1) by (simp add: word_less_nat_alt)
  moreover have "\<not> mapped s (brk s + 11)" using assms(4) by (auto simp: mapped_def)
  ultimately show "morecore nu s = None" unfolding morecore_def by (simp add: sb)
qed



end
