(* ===== verification/ShParse.thy ===== *)
theory ShParse
  imports Ulib Sysfile
begin

text \<open>
  The parser of user/sh.c. The command line is a buffer; a pointer into it is an index, and the bytes behind its end read as 0. A command
  holds pointers to the beginning and the end of its words; when the line is parsed, \<open>nulterminate\<close> writes a 0 behind each word. \<open>panic\<close>
  is the value \<open>Abort\<close>. Memory for the commands is always available.

  The four mutually recursive functions and their loops have fuel; the fuel \<open>parsecmd\<close> gives them is always enough (\<open>parse_total\<close>). Main result:
  \<open>parsecmd_correct\<close>, the parser accepts exactly the lines of a grammar over tokens, and what the pointers read as in the end is the
  only derivation of the line.
\<close>

section \<open>Commands\<close>

definition MAXARGS :: nat where "MAXARGS = 10"

datatype cmd =
  EXEC (argv: "nat option list") (eargv: "nat option list")
| REDIR cmd (rfile: nat) (refile: nat) (rmode: int) (rfd: int)
| PIPE cmd cmd
| LIST cmd cmd
| BACK cmd

definition execcmd :: cmd where
  "execcmd = EXEC (replicate MAXARGS None) (replicate MAXARGS None)"

definition redircmd :: "cmd \<Rightarrow> nat \<Rightarrow> nat \<Rightarrow> int \<Rightarrow> int \<Rightarrow> cmd" where
  [simp]: "redircmd subcmd f ef m fd = REDIR subcmd f ef m fd"

definition pipecmd :: "cmd \<Rightarrow> cmd \<Rightarrow> cmd" where
  [simp]: "pipecmd left right = PIPE left right"

definition listcmd :: "cmd \<Rightarrow> cmd \<Rightarrow> cmd" where
  [simp]: "listcmd left right = LIST left right"

definition backcmd :: "cmd \<Rightarrow> cmd" where
  [simp]: "backcmd subcmd = BACK subcmd"

text \<open>\<open>parseexec\<close> keeps a pointer to the command it began with, which the redirections found so far are wrapped around.\<close>

fun set_arg :: "nat \<Rightarrow> nat option \<Rightarrow> nat option \<Rightarrow> cmd \<Rightarrow> cmd" where
  "set_arg i q e (EXEC a ea) = EXEC (a[i := q]) (ea[i := e])"
| "set_arg i q e (REDIR c f ef m fd) = REDIR (set_arg i q e c) f ef m fd"
| "set_arg i q e c = c"

section \<open>Tokens\<close>

definition whitespace :: cstr where "whitespace = [32, 9, 13, 10, 11]"

definition symbols :: cstr where "symbols = [60, 124, 62, 38, 59, 40, 41]"

definition has :: "cstr \<Rightarrow> uint8 \<Rightarrow> bool" where
  "has cs c \<longleftrightarrow> strchr cs c \<noteq> None"

function skip_ws :: "cstr \<Rightarrow> nat \<Rightarrow> nat \<Rightarrow> nat" where
  "skip_ws b es s = (if s < es \<and> has whitespace (arr b s) then skip_ws b es (Suc s) else s)"
  by pat_completeness auto
termination
  by (relation "measure (\<lambda>(b, es, s). es - s)") auto

function skip_word :: "cstr \<Rightarrow> nat \<Rightarrow> nat \<Rightarrow> nat" where
  "skip_word b es s = (if s < es \<and> \<not> has whitespace (arr b s) \<and> \<not> has symbols (arr b s) then skip_word b es (Suc s) else s)"
  by pat_completeness auto
termination
  by (relation "measure (\<lambda>(b, es, s). es - s)") auto

declare skip_ws.simps [simp del] skip_word.simps [simp del]

definition gettoken :: "cstr \<Rightarrow> nat \<Rightarrow> nat \<Rightarrow> uint8 \<times> nat \<times> nat \<times> nat" where
  "gettoken b es s =
     (let s = skip_ws b es s;
          q = s;
          c = arr b s;
          (ret, s) =
            (if c = 0 then (c, s)
             else if c \<in> {124, 40, 41, 59, 38, 60} then (c, Suc s)
             else if c = 62 then (if arr b (Suc s) = 62 then (43, Suc (Suc s)) else (c, Suc s))
             else (97, skip_word b es s))
      in (ret, q, s, skip_ws b es s))"

definition peek :: "cstr \<Rightarrow> nat \<Rightarrow> cstr \<Rightarrow> nat \<Rightarrow> bool \<times> nat" where
  "peek b es toks s = (let s = skip_ws b es s in (arr b s \<noteq> 0 \<and> has toks (arr b s), s))"

text \<open>The position behind the next token.\<close>

abbreviation behind :: "cstr \<Rightarrow> nat \<Rightarrow> nat \<Rightarrow> nat" where
  "behind b es s \<equiv> snd (snd (snd (gettoken b es s)))"

section \<open>What the scanner does\<close>

lemma has_iff: "0 \<notin> set cs \<Longrightarrow> has cs c \<longleftrightarrow> c \<in> set cs"
proof (induction cs)
  case (Cons x cs)
  then show ?case by (auto simp: has_def strchr.simps [of "x # cs"])
qed (simp add: has_def strchr.simps)

lemma has_simps [simp]:
  "has whitespace c \<longleftrightarrow> c \<in> {32, 9, 13, 10, 11}" "has symbols c \<longleftrightarrow> c \<in> {60, 124, 62, 38, 59, 40, 41}"
  by (auto simp: has_iff whitespace_def symbols_def)

lemma line_char: "i < ustrlen b \<Longrightarrow> arr b i \<noteq> 0"
proof -
  assume i: "i < ustrlen b"
  then have "takeWhile (\<lambda>c. c \<noteq> 0) b ! i \<in> set (takeWhile (\<lambda>c. c \<noteq> 0) b)" by (simp add: ustrlen_eq cbytes_def)
  then have "takeWhile (\<lambda>c. c \<noteq> 0) b ! i \<noteq> 0" by (blast dest: set_takeWhileD)
  then show ?thesis using i length_takeWhile_le [of "\<lambda>c. c \<noteq> 0" b] by (simp add: ustrlen_eq cbytes_def arr_def takeWhile_nth)
qed

lemma line_end [simp]: "arr b (ustrlen b) = 0"
  using nth_length_takeWhile [of "\<lambda>c. c \<noteq> 0" b] by (auto simp: ustrlen_eq cbytes_def arr_def)

lemma skip_ws_stop:
  "s \<le> es \<Longrightarrow> s \<le> skip_ws b es s" "s \<le> es \<Longrightarrow> skip_ws b es s \<le> es"
  "skip_ws b es s < es \<Longrightarrow> \<not> has whitespace (arr b (skip_ws b es s))"
proof (induction b es s rule: skip_ws.induct)
  case (1 b es s)
  {
    case 1
    then show ?case using "1.IH"(1) by (subst skip_ws.simps) auto
  next
    case 2
    then show ?case using "1.IH"(2) by (subst skip_ws.simps) auto
  next
    case 3
    then show ?case using "1.IH"(3) by (subst (asm) skip_ws.simps, subst skip_ws.simps) (auto split: if_splits)
  }
qed

lemma skip_ws_stay: "s \<le> es \<Longrightarrow> (s < es \<Longrightarrow> \<not> has whitespace (arr b s)) \<Longrightarrow> skip_ws b es s = s"
  by (subst skip_ws.simps) auto

lemma skip_ws_idem [simp]: "s \<le> es \<Longrightarrow> skip_ws b es (skip_ws b es s) = skip_ws b es s"
  by (rule skip_ws_stay) (use skip_ws_stop in blast)+

definition word_char :: "uint8 \<Rightarrow> bool" where
  "word_char c \<longleftrightarrow> c \<noteq> 0 \<and> \<not> has whitespace c \<and> \<not> has symbols c"

lemma skip_word_stop:
  "s \<le> es \<Longrightarrow> s \<le> skip_word b es s" "s \<le> es \<Longrightarrow> skip_word b es s \<le> es"
  "skip_word b es s < es \<Longrightarrow> has whitespace (arr b (skip_word b es s)) \<or> has symbols (arr b (skip_word b es s))"
  "s \<le> i \<Longrightarrow> i < skip_word b es s \<Longrightarrow> i < es \<and> \<not> has whitespace (arr b i) \<and> \<not> has symbols (arr b i)"
proof (induction b es s rule: skip_word.induct)
  case (1 b es s)
  {
    case 1
    then show ?case using "1.IH"(1) by (subst skip_word.simps) auto
  next
    case 2
    then show ?case using "1.IH"(2) by (subst skip_word.simps) auto
  next
    case 3
    then show ?case using "1.IH"(3) by (subst (asm) skip_word.simps, subst (1 2) skip_word.simps) (auto split: if_splits)
  next
    case 4
    then show ?case using "1.IH"(4) by (cases "i = s"; subst (asm) skip_word.simps) (auto split: if_splits)
  }
qed

text \<open>The slice of the buffer that a pair of pointers delimits.\<close>

definition slice :: "cstr \<Rightarrow> nat \<Rightarrow> nat \<Rightarrow> cstr" where
  "slice b q e = map (arr b) [q..<e]"

text \<open>A word of the line: the two pointers that \<open>gettoken\<close> returns.\<close>

definition word_at :: "cstr \<Rightarrow> nat \<Rightarrow> nat \<Rightarrow> bool" where
  "word_at b q e \<longleftrightarrow> q < e \<and> e \<le> ustrlen b \<and> (\<forall>c \<in> set (slice b q e). word_char c) \<and> \<not> word_char (arr b e)"

lemma gettoken_cases:
  assumes s: "s \<le> ustrlen b"
  obtains (none) "gettoken b (ustrlen b) s = (0, ustrlen b, ustrlen b, ustrlen b)" "skip_ws b (ustrlen b) s = ustrlen b"
  | (word) q e s' where "gettoken b (ustrlen b) s = (97, q, e, s')" "word_at b q e" "skip_ws b (ustrlen b) s = q" "s < s'" "s' \<le> ustrlen b" "skip_ws b (ustrlen b) s' = s'"
  | (symbol) c q e s' where "gettoken b (ustrlen b) s = (c, q, e, s')" "c \<in> {124, 40, 41, 59, 38, 60, 62, 43}" "skip_ws b (ustrlen b) s = q" "arr b q = (if c = 43 then 62 else c)"
      "s < s'" "s' \<le> ustrlen b" "skip_ws b (ustrlen b) s' = s'"
proof -
  let ?n = "ustrlen b" and ?q = "skip_ws b (ustrlen b) s"
  have q: "s \<le> ?q" "?q \<le> ?n" using skip_ws_stop(1,2) [OF s] by auto
  show ?thesis
  proof (cases "?q = ?n")
    case True
    then show ?thesis by (intro none) (simp_all add: gettoken_def skip_ws_stay Let_def)
  next
    case False
    then have lt: "?q < ?n" using q(2) by simp
    have nz: "arr b ?q \<noteq> 0" "\<not> has whitespace (arr b ?q)" using line_char [OF lt] skip_ws_stop(3) [OF lt] by auto
    consider "arr b ?q \<in> {124, 40, 41, 59, 38, 60}" | "arr b ?q = 62" "arr b (Suc ?q) = 62" | "arr b ?q = 62" "arr b (Suc ?q) \<noteq> 62" | "\<not> has symbols (arr b ?q)" by auto
    then show ?thesis
    proof cases
      case 1
      have "s < skip_ws b ?n (Suc ?q)" "skip_ws b ?n (Suc ?q) \<le> ?n" using skip_ws_stop(1,2) [of "Suc ?q" ?n b] lt q(1) by simp_all
      moreover have "gettoken b ?n s = (arr b ?q, ?q, Suc ?q, skip_ws b ?n (Suc ?q))" using 1 nz(1) by (simp add: gettoken_def Let_def)
      ultimately show ?thesis using 1 lt by (intro symbol [of "arr b ?q" ?q "Suc ?q"]) auto
    next
      case 2
      have "Suc ?q < ?n" using lt 2(2) line_end [of b] by (cases "Suc ?q = ?n") auto
      moreover have "s < skip_ws b ?n (Suc (Suc ?q))" "skip_ws b ?n (Suc (Suc ?q)) \<le> ?n" using skip_ws_stop(1,2) [of "Suc (Suc ?q)" ?n b] calculation q(1) by simp_all
      moreover have "gettoken b ?n s = (43, ?q, Suc (Suc ?q), skip_ws b ?n (Suc (Suc ?q)))" using 2 by (simp add: gettoken_def Let_def)
      ultimately show ?thesis using 2 by (intro symbol [of 43 ?q "Suc (Suc ?q)"]) auto
    next
      case 3
      have "s < skip_ws b ?n (Suc ?q)" "skip_ws b ?n (Suc ?q) \<le> ?n" using skip_ws_stop(1,2) [of "Suc ?q" ?n b] lt q(1) by simp_all
      moreover have "gettoken b ?n s = (62, ?q, Suc ?q, skip_ws b ?n (Suc ?q))" using 3 by (simp add: gettoken_def Let_def)
      ultimately show ?thesis using 3 lt by (intro symbol [of 62 ?q "Suc ?q"]) auto
    next
      case 4
      let ?e = "skip_word b ?n ?q"
      have "?e = skip_word b ?n (Suc ?q)" using 4 nz(2) lt by (subst skip_word.simps) simp
      then have e: "?q < ?e" "?e \<le> ?n" using skip_word_stop(1,2) [of "Suc ?q" ?n b] lt by simp_all
      have "word_char (arr b i)" if "?q \<le> i" "i < ?e" for i using skip_word_stop(4) [OF that] line_char [of i b] by (simp add: word_char_def)
      moreover have "\<not> word_char (arr b ?e)" using skip_word_stop(3) [of b ?n ?q] e(2) by (cases "?e = ?n") (auto simp: word_char_def)
      ultimately have w: "word_at b ?q ?e" using e by (auto simp: word_at_def slice_def)
      have "s < skip_ws b ?n ?e" "skip_ws b ?n ?e \<le> ?n" using skip_ws_stop(1,2) [of ?e ?n b] e q(1) by simp_all
      moreover have "gettoken b ?n s = (97, ?q, ?e, skip_ws b ?n ?e)" using 4 nz(1) by (simp add: gettoken_def Let_def)
      ultimately show ?thesis using w e(2) by (intro word [of ?q ?e]) auto
    qed
  qed
qed

lemma gettoken_more:
  "gettoken b (ustrlen b) s = (c, q, e, s') \<Longrightarrow> s \<le> ustrlen b \<Longrightarrow> c \<noteq> 0 \<Longrightarrow> s < s' \<and> s' \<le> ustrlen b"
  by (rule gettoken_cases [of s b]) auto

lemma gettoken_measure: "(c, q, e, s') = gettoken b (ustrlen b) s \<Longrightarrow> \<not> ustrlen b < s \<Longrightarrow> c \<noteq> 0 \<Longrightarrow> ustrlen b - s' < ustrlen b - s"
  using gettoken_more [of b s c q e s'] by auto

lemma behind_more:
  assumes "s \<le> ustrlen b" "fst (gettoken b (ustrlen b) s) \<noteq> 0"
  shows "s < behind b (ustrlen b) s" "behind b (ustrlen b) s \<le> ustrlen b"
  using assms by (cases rule: gettoken_cases [OF assms(1), case_names none word symbol]; simp)+

section \<open>The parser\<close>

datatype 'a parse = Done 'a | Abort string | Fuel

definition bindP :: "'a parse \<Rightarrow> ('a \<Rightarrow> 'b parse) \<Rightarrow> 'b parse" where
  "bindP r f = (case r of Done x \<Rightarrow> f x | Abort e \<Rightarrow> Abort e | Fuel \<Rightarrow> Fuel)"

lemma bindP_simps [simp]: "bindP (Done x) f = f x" "bindP (Abort e) f = Abort e" "bindP Fuel f = Fuel"
  by (simp_all add: bindP_def)

definition redir_of :: "uint8 \<Rightarrow> cmd \<Rightarrow> nat \<Rightarrow> nat \<Rightarrow> cmd" where
  "redir_of tok c q eq =
     (if tok = 60 then redircmd c q eq O_RDONLY 0
      else if tok = 62 then redircmd c q eq (O_WRONLY OR O_CREATE OR O_TRUNC) 1
      else if tok = 43 then redircmd c q eq (O_WRONLY OR O_CREATE) 1
      else c)"

fun parseredirs :: "nat \<Rightarrow> cmd \<Rightarrow> cstr \<Rightarrow> nat \<Rightarrow> nat \<Rightarrow> (cmd \<times> nat) parse" where
  "parseredirs 0 c b es s = Fuel"
| "parseredirs (Suc n) c b es s =
     (let (more, s) = peek b es [60, 62] s in
      if \<not> more then Done (c, s)
      else
        let (tok, _, _, s) = gettoken b es s;
            (t, q, eq, s) = gettoken b es s in
        if t \<noteq> 97 then Abort ''missing file for redirection''
        else parseredirs n (redir_of tok c q eq) b es s)"

fun parse_args :: "nat \<Rightarrow> nat \<Rightarrow> cmd \<Rightarrow> cstr \<Rightarrow> nat \<Rightarrow> nat \<Rightarrow> (cmd \<times> nat) parse" where
  "parse_args 0 argc ret b es s = Fuel"
| "parse_args (Suc n) argc ret b es s =
     (let (stop, s) = peek b es [124, 41, 38, 59] s in
      if stop then Done (set_arg argc None None ret, s)
      else
        let (tok, q, eq, s) = gettoken b es s in
        if tok = 0 then Done (set_arg argc None None ret, s)
        else if tok \<noteq> 97 then Abort ''syntax''
        else
          let ret = set_arg argc (Some q) (Some eq) ret in
          if MAXARGS \<le> Suc argc then Abort ''too many args''
          else bindP (parseredirs n ret b es s) (\<lambda>(ret, s). parse_args n (Suc argc) ret b es s))"

fun parse_backs :: "nat \<Rightarrow> cmd \<Rightarrow> cstr \<Rightarrow> nat \<Rightarrow> nat \<Rightarrow> (cmd \<times> nat) parse" where
  "parse_backs 0 c b es s = Fuel"
| "parse_backs (Suc n) c b es s =
     (let (more, s) = peek b es [38] s in
      if more then parse_backs n (backcmd c) b es (behind b es s) else Done (c, s))"

fun parseline :: "nat \<Rightarrow> cstr \<Rightarrow> nat \<Rightarrow> nat \<Rightarrow> (cmd \<times> nat) parse"
  and parsepipe :: "nat \<Rightarrow> cstr \<Rightarrow> nat \<Rightarrow> nat \<Rightarrow> (cmd \<times> nat) parse"
  and parseexec :: "nat \<Rightarrow> cstr \<Rightarrow> nat \<Rightarrow> nat \<Rightarrow> (cmd \<times> nat) parse"
  and parseblock :: "nat \<Rightarrow> cstr \<Rightarrow> nat \<Rightarrow> nat \<Rightarrow> (cmd \<times> nat) parse" where
  "parseline 0 b es s = Fuel"
| "parseline (Suc n) b es s =
     bindP (parsepipe n b es s) (\<lambda>(c, s).
     bindP (parse_backs n c b es s) (\<lambda>(c, s).
       let (more, s) = peek b es [59] s in
       if more then bindP (parseline n b es (behind b es s)) (\<lambda>(r, s). Done (listcmd c r, s))
       else Done (c, s)))"
| "parsepipe 0 b es s = Fuel"
| "parsepipe (Suc n) b es s =
     bindP (parseexec n b es s) (\<lambda>(c, s).
       let (more, s) = peek b es [124] s in
       if more then bindP (parsepipe n b es (behind b es s)) (\<lambda>(r, s). Done (pipecmd c r, s))
       else Done (c, s))"
| "parseexec 0 b es s = Fuel"
| "parseexec (Suc n) b es s =
     (let (block, s) = peek b es [40] s in
      if block then parseblock n b es s
      else bindP (parseredirs n execcmd b es s) (\<lambda>(ret, s). parse_args n 0 ret b es s))"
| "parseblock 0 b es s = Fuel"
| "parseblock (Suc n) b es s =
     (let (here, s) = peek b es [40] s in
      if \<not> here then Abort ''parseblock''
      else bindP (parseline n b es (behind b es s)) (\<lambda>(c, s).
        let (here, s) = peek b es [41] s in
        if \<not> here then Abort ''syntax - missing )''
        else parseredirs n c b es (behind b es s)))"

declare parse_backs.simps [simp del] parseline.simps [simp del] parsepipe.simps [simp del]

lemmas parse_unfold [simp] =
  parse_backs.simps [unfolded backcmd_def] parseline.simps [unfolded listcmd_def] parsepipe.simps [unfolded pipecmd_def]

fun nul_args :: "nat option list \<Rightarrow> nat option list \<Rightarrow> cstr \<Rightarrow> cstr" where
  "nul_args (Some q # a) (Some e # ea) b = nul_args a ea (b[e := 0])"
| "nul_args a ea b = b"

fun nulterminate :: "cmd \<Rightarrow> cstr \<Rightarrow> cstr" where
  "nulterminate (EXEC a ea) b = nul_args a ea b"
| "nulterminate (REDIR c f ef m fd) b = (nulterminate c b)[ef := 0]"
| "nulterminate (PIPE l r) b = nulterminate r (nulterminate l b)"
| "nulterminate (LIST l r) b = nulterminate r (nulterminate l b)"
| "nulterminate (BACK c) b = nulterminate c b"

definition parse_fuel :: "nat \<Rightarrow> nat" where
  "parse_fuel n = 4 * n + 5"

definition parsecmd :: "cstr \<Rightarrow> (cmd \<times> cstr) parse" where
  "parsecmd b =
     (let es = ustrlen b in
      bindP (parseline (parse_fuel es) b es 0) (\<lambda>(c, s).
        let (_, s) = peek b es [] s in
        if s \<noteq> es then Abort ''syntax'' else Done (c, nulterminate c b)))"

section \<open>Tokens\<close>

datatype tok = Sym uint8 | Word cstr

definition tok_of :: "cstr \<Rightarrow> uint8 \<Rightarrow> nat \<Rightarrow> nat \<Rightarrow> tok" where
  "tok_of b c q e = (if c = 97 then Word (slice b q e) else Sym c)"

function lex :: "cstr \<Rightarrow> nat \<Rightarrow> tok list" where
  "lex b s =
     (if ustrlen b < s then []
      else
        (case gettoken b (ustrlen b) s of (c, q, e, s') \<Rightarrow>
           if c = 0 then [] else tok_of b c q e # lex b s'))"
  by pat_completeness auto
termination
  by (relation "measure (\<lambda>(b, s). ustrlen b - s)") (auto intro: gettoken_measure)

declare lex.simps [simp del]

definition starts :: "cstr \<Rightarrow> tok list \<Rightarrow> bool" where
  "starts cs ts \<longleftrightarrow> (case ts of Sym c # _ \<Rightarrow> (if c = 43 then 62 else c) \<in> set cs | _ \<Rightarrow> False)"

lemma starts_simps [simp]:
  "\<not> starts cs []" "\<not> starts cs (Word w # ts)" "starts cs (Sym c # ts) \<longleftrightarrow> (if c = 43 then 62 else c) \<in> set cs"
  by (simp_all add: starts_def)

definition syms :: "uint8 set" where "syms = {124, 40, 41, 59, 38, 60, 62, 43}"

lemma lex_cases:
  assumes s: "s \<le> ustrlen b"
  obtains (none) "lex b s = []" "gettoken b (ustrlen b) s = (0, ustrlen b, ustrlen b, ustrlen b)" "skip_ws b (ustrlen b) s = ustrlen b"
  | (word) q e s' where "lex b s = Word (slice b q e) # lex b s'" "gettoken b (ustrlen b) s = (97, q, e, s')" "word_at b q e" "skip_ws b (ustrlen b) s = q" "s < s'" "s' \<le> ustrlen b"
  | (symbol) c q e s' where "lex b s = Sym c # lex b s'" "gettoken b (ustrlen b) s = (c, q, e, s')" "c \<in> syms" "c \<noteq> 0" "c \<noteq> 97"
      "skip_ws b (ustrlen b) s = q" "arr b q = (if c = 43 then 62 else c)" "s < s'" "s' \<le> ustrlen b"
  using s
proof (cases rule: gettoken_cases [case_names none word symbol])
  case none
  then have "lex b s = []" using s by (subst lex.simps) simp
  then show ?thesis using none that(1) by blast
next
  case (word q e s')
  then have "lex b s = Word (slice b q e) # lex b s'" using s by (subst lex.simps) (simp add: tok_of_def)
  then show ?thesis using that(2) word by blast
next
  case (symbol c q e s')
  have c: "c \<in> syms" "c \<noteq> 0" "c \<noteq> 97" using symbol(2) by (auto simp: syms_def)
  then have "lex b s = Sym c # lex b s'" using s symbol(1) by (subst lex.simps) (simp add: tok_of_def)
  then show ?thesis using that(3) symbol c by blast
qed

lemma gettoken_skip: "s \<le> ustrlen b \<Longrightarrow> gettoken b (ustrlen b) (skip_ws b (ustrlen b) s) = gettoken b (ustrlen b) s"
  by (simp add: gettoken_def)

lemma lex_skip [simp]: "s \<le> ustrlen b \<Longrightarrow> lex b (skip_ws b (ustrlen b) s) = lex b s"
  using skip_ws_stop(2) [of s "ustrlen b" b] by (subst (1 2) lex.simps) (simp add: gettoken_skip)

text \<open>\<open>peek\<close> looks at the next token.\<close>

lemma peek_lex:
  assumes "s \<le> ustrlen b" "set cs \<subseteq> set symbols"
  shows "peek b (ustrlen b) cs s = (starts cs (lex b s), skip_ws b (ustrlen b) s)"
proof -
  have 0: "0 \<notin> set cs" using assms(2) by (auto simp: symbols_def)
  from assms(1) show ?thesis
  proof (cases rule: lex_cases [case_names none word symbol])
    case (word q e s')
    have "word_char (arr b q)" using word(3) by (auto simp: word_at_def slice_def)
    then have "\<not> has cs (arr b q)" using assms(2) by (auto simp: word_char_def has_iff [OF 0] has_iff symbols_def)
    then show ?thesis using word by (simp add: peek_def)
  qed (auto simp: peek_def has_iff [OF 0] Let_def)
qed

section \<open>The language of the shell\<close>

datatype scmd =
  SExec "cstr list"
| SRedir scmd cstr int int
| SPipe scmd scmd
| SList scmd scmd
| SBack scmd

text \<open>A simple command is a sequence of words and redirections; the redirections are wrapped around it in their order.\<close>

datatype item = Arg cstr | Redirect uint8 cstr

fun item_toks :: "item \<Rightarrow> tok list" where
  "item_toks (Arg w) = [Word w]"
| "item_toks (Redirect k f) = [Sym k, Word f]"

fun item_ok :: "item \<Rightarrow> bool" where
  "item_ok (Arg w) \<longleftrightarrow> True"
| "item_ok (Redirect k f) \<longleftrightarrow> k \<in> {60, 62, 43}"

fun is_arg :: "item \<Rightarrow> bool" where
  "is_arg (Arg w) \<longleftrightarrow> True"
| "is_arg (Redirect k f) \<longleftrightarrow> False"

fun wrap :: "scmd \<Rightarrow> item \<Rightarrow> scmd" where
  "wrap c (Arg w) = c"
| "wrap c (Redirect k f) =
     (if k = 60 then SRedir c f O_RDONLY 0
      else if k = 62 then SRedir c f (O_WRONLY OR O_CREATE OR O_TRUNC) 1
      else SRedir c f (O_WRONLY OR O_CREATE) 1)"

definition words_of :: "item list \<Rightarrow> cstr list" where
  "words_of items = concat (map (\<lambda>i. case i of Arg w \<Rightarrow> [w] | Redirect k f \<Rightarrow> []) items)"

definition simple_cmd :: "item list \<Rightarrow> scmd" where
  "simple_cmd items = foldl wrap (SExec (words_of items)) items"

definition toks_of :: "item list \<Rightarrow> tok list" where
  "toks_of items = concat (map item_toks items)"

inductive g_line :: "scmd \<Rightarrow> tok list \<Rightarrow> bool" and g_pipe :: "scmd \<Rightarrow> tok list \<Rightarrow> bool" and g_exec :: "scmd \<Rightarrow> tok list \<Rightarrow> bool" where
  simple: "list_all item_ok items \<Longrightarrow> length (words_of items) < MAXARGS \<Longrightarrow> g_exec (simple_cmd items) (toks_of items)"
| block: "g_line c ts \<Longrightarrow> list_all (\<lambda>i. item_ok i \<and> \<not> is_arg i) rs \<Longrightarrow> g_exec (foldl wrap c rs) (Sym 40 # ts @ Sym 41 # toks_of rs)"
| pipe_end: "g_exec c ts \<Longrightarrow> g_pipe c ts"
| pipe: "g_exec c ts \<Longrightarrow> g_pipe d us \<Longrightarrow> g_pipe (SPipe c d) (ts @ Sym 124 # us)"
| line_end: "g_pipe c ts \<Longrightarrow> g_line ((SBack ^^ k) c) (ts @ replicate k (Sym 38))"
| line: "g_pipe c ts \<Longrightarrow> g_line d us \<Longrightarrow> g_line (SList ((SBack ^^ k) c) d) (ts @ replicate k (Sym 38) @ Sym 59 # us)"

section \<open>What a parsed command says\<close>

fun arg_texts :: "cstr \<Rightarrow> nat option list \<Rightarrow> nat option list \<Rightarrow> cstr list" where
  "arg_texts b (Some q # a) (Some e # ea) = slice b q e # arg_texts b a ea"
| "arg_texts b a ea = []"

fun text_of :: "cstr \<Rightarrow> cmd \<Rightarrow> scmd" where
  "text_of b (EXEC a ea) = SExec (arg_texts b a ea)"
| "text_of b (REDIR c f ef m fd) = SRedir (text_of b c) (slice b f ef) m fd"
| "text_of b (PIPE l r) = SPipe (text_of b l) (text_of b r)"
| "text_of b (LIST l r) = SList (text_of b l) (text_of b r)"
| "text_of b (BACK c) = SBack (text_of b c)"

text \<open>What the pointers of a command read as, as C strings in a buffer.\<close>

fun arg_strings :: "cstr \<Rightarrow> nat option list \<Rightarrow> cstr list" where
  "arg_strings b (Some q # a) = cbytes (drop q b) # arg_strings b a"
| "arg_strings b a = []"

fun strings_of :: "cstr \<Rightarrow> cmd \<Rightarrow> scmd" where
  "strings_of b (EXEC a ea) = SExec (arg_strings b a)"
| "strings_of b (REDIR c f ef m fd) = SRedir (strings_of b c) (cbytes (drop f b)) m fd"
| "strings_of b (PIPE l r) = SPipe (strings_of b l) (strings_of b r)"
| "strings_of b (LIST l r) = SList (strings_of b l) (strings_of b r)"
| "strings_of b (BACK c) = SBack (strings_of b c)"

text \<open>The arrays of a command with \<open>n\<close> arguments, and the pointers that are words of the line.\<close>

definition args_ok :: "cstr \<Rightarrow> nat \<Rightarrow> nat option list \<Rightarrow> nat option list \<Rightarrow> bool" where
  "args_ok b n a ea \<longleftrightarrow>
     (\<exists>ws. length ws = n \<and> n < MAXARGS \<and> a = map (Some \<circ> fst) ws @ replicate (MAXARGS - n) None \<and>
       ea = map (Some \<circ> snd) ws @ replicate (MAXARGS - n) None \<and> list_all (\<lambda>(q, e). word_at b q e) ws)"

fun cmd_ok :: "cstr \<Rightarrow> cmd \<Rightarrow> bool" where
  "cmd_ok b (EXEC a ea) \<longleftrightarrow> (\<exists>n. args_ok b n a ea)"
| "cmd_ok b (REDIR c f ef m fd) \<longleftrightarrow> cmd_ok b c \<and> word_at b f ef"
| "cmd_ok b (PIPE l r) \<longleftrightarrow> cmd_ok b l \<and> cmd_ok b r"
| "cmd_ok b (LIST l r) \<longleftrightarrow> cmd_ok b l \<and> cmd_ok b r"
| "cmd_ok b (BACK c) \<longleftrightarrow> cmd_ok b c"

text \<open>\<open>open_exec b n c\<close>: redirections around a command that has \<open>n\<close> arguments so far.\<close>

fun open_exec :: "cstr \<Rightarrow> nat \<Rightarrow> cmd \<Rightarrow> bool" where
  "open_exec b n (EXEC a ea) \<longleftrightarrow> args_ok b n a ea"
| "open_exec b n (REDIR c f ef m fd) \<longleftrightarrow> open_exec b n c \<and> word_at b f ef"
| "open_exec b n c \<longleftrightarrow> False"

lemma open_exec_ok: "open_exec b n c \<Longrightarrow> cmd_ok b c"
  by (induction c) auto

lemma arg_texts_ok:
  "arg_texts b (map (Some \<circ> fst) ws @ replicate k None) (map (Some \<circ> snd) ws @ replicate k None) = map (\<lambda>(q, e). slice b q e) ws"
  by (induction ws) (cases k; auto)+

lemma execcmd_open: "open_exec b 0 execcmd" "text_of b execcmd = SExec []"
  using arg_texts_ok [of b "[]" MAXARGS] by (simp_all add: execcmd_def args_ok_def MAXARGS_def)

lemma args_ok_set:
  assumes "args_ok b n a ea" "word_at b q e" "Suc n < MAXARGS"
  shows "args_ok b (Suc n) (a[n := Some q]) (ea[n := Some e])"
proof -
  obtain ws where ws: "length ws = n" "a = map (Some \<circ> fst) ws @ replicate (MAXARGS - n) None"
    "ea = map (Some \<circ> snd) ws @ replicate (MAXARGS - n) None" "list_all (\<lambda>(q, e). word_at b q e) ws" using assms(1) by (auto simp: args_ok_def)
  have r: "replicate (MAXARGS - n) None = None # replicate (MAXARGS - Suc n) None" using assms(3) by (metis Suc_diff_Suc Suc_lessD replicate_Suc)
  show ?thesis unfolding args_ok_def using ws assms(2,3) by (intro exI [of _ "ws @ [(q, e)]"]) (simp add: r list_update_append)
qed

fun add_word :: "cstr \<Rightarrow> scmd \<Rightarrow> scmd" where
  "add_word w (SExec ws) = SExec (ws @ [w])"
| "add_word w (SRedir c f m fd) = SRedir (add_word w c) f m fd"
| "add_word w c = c"

lemma set_arg_open:
  assumes "open_exec b n c" "word_at b q e" "Suc n < MAXARGS"
  shows "open_exec b (Suc n) (set_arg n (Some q) (Some e) c)" "text_of b (set_arg n (Some q) (Some e) c) = add_word (slice b q e) (text_of b c)"
proof -
  have "arg_texts b (a[n := Some q]) (ea[n := Some e]) = arg_texts b a ea @ [slice b q e]" if a: "args_ok b n a ea" for a ea
  proof -
    obtain ws where ws: "length ws = n" "a = map (Some \<circ> fst) ws @ replicate (MAXARGS - n) None"
      "ea = map (Some \<circ> snd) ws @ replicate (MAXARGS - n) None" using a by (auto simp: args_ok_def)
    have r: "replicate (MAXARGS - n) None = None # replicate (MAXARGS - Suc n) None" using assms(3) by (metis Suc_diff_Suc Suc_lessD replicate_Suc)
    show ?thesis using arg_texts_ok [of b "ws @ [(q, e)]" "MAXARGS - Suc n"] arg_texts_ok [of b ws "MAXARGS - n"] ws by (simp add: r list_update_append)
  qed
  with assms(1) show "text_of b (set_arg n (Some q) (Some e) c) = add_word (slice b q e) (text_of b c)" by (induction c) auto
  from assms(1) show "open_exec b (Suc n) (set_arg n (Some q) (Some e) c)" by (induction c) (auto intro: args_ok_set [OF _ assms(2,3)])
qed

lemma replicate_update: "(replicate k x)[i := x] = replicate k x"
  by (cases "i < k") (simp_all add: list_update_same_conv list_update_beyond)

lemma set_arg_none: "open_exec b n c \<Longrightarrow> set_arg n None None c = c"
  by (induction c) (auto simp: args_ok_def list_update_append replicate_update)

section \<open>The steps of the parser on tokens\<close>

lemma peek_simps [simp]:
  assumes "s \<le> ustrlen b"
  shows "peek b (ustrlen b) [60, 62] s = (starts [60, 62] (lex b s), skip_ws b (ustrlen b) s)"
    "peek b (ustrlen b) [124, 41, 38, 59] s = (starts [124, 41, 38, 59] (lex b s), skip_ws b (ustrlen b) s)"
    "peek b (ustrlen b) [38] s = (starts [38] (lex b s), skip_ws b (ustrlen b) s)"
    "peek b (ustrlen b) [59] s = (starts [59] (lex b s), skip_ws b (ustrlen b) s)"
    "peek b (ustrlen b) [124] s = (starts [124] (lex b s), skip_ws b (ustrlen b) s)"
    "peek b (ustrlen b) [40] s = (starts [40] (lex b s), skip_ws b (ustrlen b) s)"
    "peek b (ustrlen b) [41] s = (starts [41] (lex b s), skip_ws b (ustrlen b) s)"
    "peek b (ustrlen b) [] s = (False, skip_ws b (ustrlen b) s)"
  using peek_lex [OF assms] by (simp_all add: symbols_def starts_def split: list.splits tok.splits)

lemma lex_sym:
  assumes "s \<le> ustrlen b" "lex b s = Sym k # ts"
  obtains q e s' where "gettoken b (ustrlen b) s = (k, q, e, s')" "lex b s' = ts" "s < s'" "s' \<le> ustrlen b"
  using assms(1) by (cases rule: lex_cases [case_names none word symbol]) (use assms(2) that in auto)

lemma lex_word:
  assumes "s \<le> ustrlen b" "lex b s = Word w # ts"
  obtains q e s' where "gettoken b (ustrlen b) s = (97, q, e, s')" "lex b s' = ts" "w = slice b q e" "word_at b q e" "s < s'" "s' \<le> ustrlen b"
  using assms(1) by (cases rule: lex_cases [case_names none word symbol]) (use assms(2) that in auto)

lemma lex_no_word:
  assumes "s \<le> ustrlen b" "\<And>w ts. lex b s \<noteq> Word w # ts"
  shows "fst (gettoken b (ustrlen b) s) \<noteq> 97"
  using assms(1) by (cases rule: lex_cases [case_names none word symbol]) (use assms(2) in auto)

lemma skip_bounds [simp]: "s \<le> ustrlen b \<Longrightarrow> s \<le> skip_ws b (ustrlen b) s" "s \<le> ustrlen b \<Longrightarrow> skip_ws b (ustrlen b) s \<le> ustrlen b"
  by (simp_all add: skip_ws_stop)

text \<open>At a symbol that \<open>peek\<close> found.\<close>

lemma behind_sym:
  assumes "s \<le> ustrlen b" "lex b s = Sym k # ts"
  shows "lex b (behind b (ustrlen b) (skip_ws b (ustrlen b) s)) = ts" "s < behind b (ustrlen b) (skip_ws b (ustrlen b) s)"
    "behind b (ustrlen b) (skip_ws b (ustrlen b) s) \<le> ustrlen b"
  using assms(1) by (simp_all add: gettoken_skip) (rule lex_sym [OF assms]; simp)+

lemma starts_sym:
  assumes "starts cs ts" "43 \<notin> set cs"
  obtains k us where "ts = Sym k # us" "k \<in> set cs \<or> k = 43 \<and> 62 \<in> set cs"
  using assms by (cases ts rule: list.exhaust [case_names Nil Cons]) (auto simp: starts_def split: tok.splits if_splits)

lemma parseredirs_cases:
  assumes "s \<le> ustrlen b"
  obtains (stop) "\<not> starts [60, 62] (lex b s)" "parseredirs (Suc n) c b (ustrlen b) s = Done (c, skip_ws b (ustrlen b) s)"
  | (missing) k ts e where "lex b s = Sym k # ts" "k \<in> {60, 62, 43}" "\<And>w us. ts \<noteq> Word w # us" "parseredirs (Suc n) c b (ustrlen b) s = Abort e"
  | (more) k q e s' where "lex b s = Sym k # Word (slice b q e) # lex b s'" "k \<in> {60, 62, 43}" "word_at b q e" "s < s'" "s' \<le> ustrlen b"
      "parseredirs (Suc n) c b (ustrlen b) s = parseredirs n (redir_of k c q e) b (ustrlen b) s'"
proof (cases "starts [60, 62] (lex b s)")
  case False
  then show ?thesis using assms stop by simp
next
  case True
  then obtain k ts where k: "lex b s = Sym k # ts" "k \<in> {60, 62, 43}" by (rule starts_sym) auto
  obtain q e s1 where s1: "gettoken b (ustrlen b) s = (k, q, e, s1)" "lex b s1 = ts" "s < s1" "s1 \<le> ustrlen b" by (rule lex_sym [OF assms k(1)])
  show ?thesis
  proof (cases "\<exists>w us. ts = Word w # us")
    case True
    then obtain w us where w: "lex b s1 = Word w # us" using s1(2) by blast
    obtain q' e' s2 where s2: "gettoken b (ustrlen b) s1 = (97, q', e', s2)" "lex b s2 = us" "w = slice b q' e'" "word_at b q' e'" "s1 < s2" "s2 \<le> ustrlen b"
      by (rule lex_word [OF s1(4) w])
    have "parseredirs (Suc n) c b (ustrlen b) s = parseredirs n (redir_of k c q' e') b (ustrlen b) s2"
      using \<open>starts [60, 62] (lex b s)\<close> by (simp add: assms gettoken_skip [OF assms] s1(1) s2(1))
    moreover have "lex b s = Sym k # Word (slice b q' e') # lex b s2" using k(1) s1(2) w s2(2,3) by simp
    ultimately show ?thesis using more [OF _ k(2) s2(4)] s1(3) s2(5,6) by simp
  next
    case False
    then have "fst (gettoken b (ustrlen b) s1) \<noteq> 97" using lex_no_word [OF s1(4)] s1(2) by blast
    then have "parseredirs (Suc n) c b (ustrlen b) s = Abort ''missing file for redirection''"
      using assms s1(1) \<open>starts [60, 62] (lex b s)\<close> by (auto simp: gettoken_skip split: prod.splits)
    then show ?thesis using missing [OF k] False by blast
  qed
qed

lemma parse_args_cases:
  assumes "s \<le> ustrlen b"
  obtains (stop) s' where "starts [124, 41, 38, 59] (lex b s) \<or> lex b s = []" "parse_args (Suc n) i c b (ustrlen b) s = Done (set_arg i None None c, s')" "s \<le> s'" "s' \<le> ustrlen b" "lex b s' = lex b s"
  | (bad) k ts e where "lex b s = Sym k # ts" "k \<notin> {124, 41, 38, 59}" "parse_args (Suc n) i c b (ustrlen b) s = Abort e"
  | (many) w ts e where "lex b s = Word w # ts" "MAXARGS \<le> Suc i" "parse_args (Suc n) i c b (ustrlen b) s = Abort e"
  | (word) q e s' where "lex b s = Word (slice b q e) # lex b s'" "Suc i < MAXARGS" "word_at b q e" "s < s'" "s' \<le> ustrlen b"
      "parse_args (Suc n) i c b (ustrlen b) s = bindP (parseredirs n (set_arg i (Some q) (Some e) c) b (ustrlen b) s') (\<lambda>(c, s). parse_args n (Suc i) c b (ustrlen b) s)"
proof (cases "starts [124, 41, 38, 59] (lex b s)")
  case True
  then show ?thesis using assms stop [of "skip_ws b (ustrlen b) s"] by simp
next
  case False
  from assms show ?thesis
  proof (cases rule: lex_cases [case_names none word symbol])
    case none
    then show ?thesis using assms stop [of "ustrlen b"] by (simp add: gettoken_def Let_def skip_ws_stay lex.simps)
  next
    case (word q e s')
    show ?thesis
    proof (cases "MAXARGS \<le> Suc i")
      case True
      then have "parse_args (Suc n) i c b (ustrlen b) s = Abort ''too many args''" using False assms word(2) by (simp add: gettoken_skip Let_def)
      then show ?thesis by (rule many [OF word(1) True])
    next
      case few: False
      have "parse_args (Suc n) i c b (ustrlen b) s =
        bindP (parseredirs n (set_arg i (Some q) (Some e) c) b (ustrlen b) s') (\<lambda>(c, s). parse_args n (Suc i) c b (ustrlen b) s)"
        using False few by (simp add: assms gettoken_skip [OF assms] word(2) Let_def)
      then show ?thesis using few that(4) [OF word(1) _ word(3,5,6)] by simp
    qed
  next
    case (symbol k q e s')
    have "k \<notin> {124, 41, 38, 59}" using False symbol(1) by auto
    moreover have "parse_args (Suc n) i c b (ustrlen b) s = Abort ''syntax''" using False assms symbol(2,4,5) by (simp add: gettoken_skip Let_def)
    ultimately show ?thesis using bad symbol(1) by blast
  qed
qed

lemma parse_backs_cases:
  assumes "s \<le> ustrlen b"
  obtains (stop) "\<not> starts [38] (lex b s)" "parse_backs (Suc n) c b (ustrlen b) s = Done (c, skip_ws b (ustrlen b) s)"
  | (more) s' where "lex b s = Sym 38 # lex b s'" "s < s'" "s' \<le> ustrlen b" "parse_backs (Suc n) c b (ustrlen b) s = parse_backs n (BACK c) b (ustrlen b) s'"
proof (cases "starts [38] (lex b s)")
  case False
  then show ?thesis using assms stop by simp
next
  case True
  then obtain ts where k: "lex b s = Sym 38 # ts" by (rule starts_sym) auto
  then show ?thesis using more [of "behind b (ustrlen b) (skip_ws b (ustrlen b) s)"] behind_sym [OF assms k] assms True by (simp del: fst_conv snd_conv)
qed

section \<open>Redirections and arguments\<close>

abbreviation redirs :: "item list \<Rightarrow> bool" where
  "redirs rs \<equiv> list_all (\<lambda>i. item_ok i \<and> \<not> is_arg i) rs"

lemma toks_of_simps [simp]:
  "toks_of [] = []" "toks_of (i # is) = item_toks i @ toks_of is" "toks_of (xs @ ys) = toks_of xs @ toks_of ys" "words_of [] = []"
  "words_of (Arg w # is) = w # words_of is" "words_of (Redirect k f # is) = words_of is" "words_of (xs @ ys) = words_of xs @ words_of ys"
  by (simp_all add: toks_of_def words_of_def)

lemma redirs_words: "redirs rs \<Longrightarrow> words_of rs = []"
proof (induction rs)
  case (Cons i rs)
  then show ?case by (cases i) simp_all
qed simp

lemma redirs_item: "redirs (i # rs) \<Longrightarrow> \<exists>k f. i = Redirect k f \<and> k \<in> {60, 62, 43}"
  by (cases i) auto

lemma redir_of_text: "k \<in> {60, 62, 43} \<Longrightarrow> text_of b (redir_of k c q e) = wrap (text_of b c) (Redirect k (slice b q e))"
  by (auto simp: redir_of_def)

lemma redir_of_ok: "k \<in> {60, 62, 43} \<Longrightarrow> word_at b q e \<Longrightarrow> cmd_ok b (redir_of k c q e) = cmd_ok b c"
  "k \<in> {60, 62, 43} \<Longrightarrow> word_at b q e \<Longrightarrow> open_exec b i (redir_of k c q e) = open_exec b i c"
  by (auto simp: redir_of_def)

lemma redirs_sound:
  assumes "parseredirs n c b (ustrlen b) s = Done (c', s')" "s \<le> ustrlen b"
  shows "s \<le> s' \<and> s' \<le> ustrlen b \<and> (\<exists>rs. redirs rs \<and> lex b s = toks_of rs @ lex b s' \<and> text_of b c' = foldl wrap (text_of b c) rs) \<and>
    cmd_ok b c' = cmd_ok b c \<and> open_exec b i c' = open_exec b i c"
  using assms
proof (induction n arbitrary: c s)
  case (Suc n)
  from Suc.prems(2) show ?case
  proof (cases rule: parseredirs_cases [where n = n and c = c, case_names stop missing more])
    case stop
    then have "c' = c" "s' = skip_ws b (ustrlen b) s" using Suc.prems(1) by simp_all
    then show ?thesis using Suc.prems(2) by (auto intro!: exI [of _ "[]"])
  next
    case (missing k ts e)
    then show ?thesis using Suc.prems(1) by simp
  next
    case (more k q e s1)
    have "parseredirs n (redir_of k c q e) b (ustrlen b) s1 = Done (c', s')" using Suc.prems(1) more(6) by simp
    note IH = Suc.IH [OF this more(5)]
    then obtain rs where rs: "redirs rs" "lex b s1 = toks_of rs @ lex b s'" "text_of b c' = foldl wrap (text_of b (redir_of k c q e)) rs" by blast
    have "\<exists>rs. redirs rs \<and> lex b s = toks_of rs @ lex b s' \<and> text_of b c' = foldl wrap (text_of b c) rs"
      by (rule exI [of _ "Redirect k (slice b q e) # rs"]) (use rs more(1,2) redir_of_text [OF more(2)] in auto)
    moreover have "s \<le> s'" using IH more(4) by linarith
    ultimately show ?thesis using IH redir_of_ok [OF more(2,3)] by blast
  qed
qed simp

lemma redirs_complete:
  assumes "lex b s = toks_of rs @ rest" "redirs rs" "\<not> starts [60, 62] rest" "s \<le> ustrlen b"
  shows "parseredirs n c b (ustrlen b) s = Fuel \<or>
    (\<exists>c' s'. parseredirs n c b (ustrlen b) s = Done (c', s') \<and> lex b s' = rest \<and> s' \<le> ustrlen b \<and> text_of b c' = foldl wrap (text_of b c) rs \<and>
      open_exec b i c' = open_exec b i c)"
  using assms
proof (induction n arbitrary: c s rs)
  case (Suc n)
  show ?case
  proof (cases rs)
    case Nil
    then show ?thesis using Suc.prems by simp
  next
    case (Cons r rs')
    then obtain k f where r: "r = Redirect k f" "k \<in> {60, 62, 43}" "redirs rs'" using redirs_item [of r rs'] Suc.prems(2) by auto
    have l: "lex b s = Sym k # Word f # toks_of rs' @ rest" using Suc.prems(1) Cons r(1) by simp
    from Suc.prems(4) show ?thesis
    proof (cases rule: parseredirs_cases [where n = n and c = c, case_names stop missing more])
      case (more k' q e s1)
      have m: "k' = k" "slice b q e = f" "lex b s1 = toks_of rs' @ rest" using more(1) l by auto
      have "text_of b (redir_of k c q e) = wrap (text_of b c) r" using redir_of_text [OF r(2)] m(2) r(1) by simp
      then show ?thesis using Suc.IH [OF m(3) r(3) Suc.prems(3) more(5), of "redir_of k c q e"] more(6) redir_of_ok(2) [OF more(2,3)] by (simp add: m(1) Cons)
    qed (use l r(2) in auto)
  qed
qed simp

definition extend :: "scmd \<Rightarrow> item \<Rightarrow> scmd" where
  "extend c i = (case i of Arg w \<Rightarrow> add_word w c | Redirect k f \<Rightarrow> wrap c i)"

lemma add_word_wraps: "add_word w (foldl wrap c rs) = foldl wrap (add_word w c) rs"
proof (induction rs arbitrary: c)
  case (Cons i rs)
  have "add_word w (wrap c i) = wrap (add_word w c) i" by (cases i) auto
  then show ?case using Cons by simp
qed simp

lemma extend_simple: "foldl extend (SExec []) items = simple_cmd items"
proof (induction items rule: rev_induct)
  case (snoc i items)
  have "foldl wrap (SExec (ws @ [w])) items = add_word w (foldl wrap (SExec ws) items)" for ws w by (simp add: add_word_wraps)
  then show ?case using snoc by (cases i) (simp_all add: simple_cmd_def extend_def)
qed (simp add: simple_cmd_def)

lemma extend_redirs: "redirs rs \<Longrightarrow> foldl extend c rs = foldl wrap c rs"
proof (induction rs arbitrary: c)
  case (Cons i rs)
  then show ?case using redirs_item [of i rs] by (auto simp: extend_def)
qed simp

lemma args_sound:
  assumes "parse_args n i c b (ustrlen b) s = Done (c', s')" "s \<le> ustrlen b" "open_exec b i c" "i < MAXARGS"
  shows "s \<le> s' \<and> s' \<le> ustrlen b \<and> cmd_ok b c' \<and>
    (\<exists>items. list_all item_ok items \<and> i + length (words_of items) < MAXARGS \<and> lex b s = toks_of items @ lex b s' \<and> text_of b c' = foldl extend (text_of b c) items)"
  using assms
proof (induction n arbitrary: i c s)
  case (Suc n)
  from Suc.prems(2) show ?case
  proof (cases rule: parse_args_cases [where n = n and c = c and i = i, case_names stop bad many word])
    case (stop s1)
    then have "c' = c" "s' = s1" using Suc.prems(1,3) set_arg_none by simp_all
    then show ?thesis using stop Suc.prems(2-4) open_exec_ok by (auto intro!: exI [of _ "[]"])
  next
    case (word q e s1)
    let ?c = "set_arg i (Some q) (Some e) c"
    obtain c2 s2 where r: "parseredirs n ?c b (ustrlen b) s1 = Done (c2, s2)" "parse_args n (Suc i) c2 b (ustrlen b) s2 = Done (c', s')"
      using Suc.prems(1) word(6) by (cases "parseredirs n ?c b (ustrlen b) s1") auto
    note w = set_arg_open [OF Suc.prems(3) word(3,2)]
    note R = redirs_sound [OF r(1) word(5), where i = "Suc i"]
    then obtain rs where rs: "redirs rs" "lex b s1 = toks_of rs @ lex b s2" "text_of b c2 = foldl wrap (text_of b ?c) rs" by blast
    have "s2 \<le> ustrlen b" "open_exec b (Suc i) c2" using R w(1) by blast+
    note IH = Suc.IH [OF r(2) this word(2)]
    then obtain items where it: "list_all item_ok items" "Suc i + length (words_of items) < MAXARGS" "lex b s2 = toks_of items @ lex b s'"
      "text_of b c' = foldl extend (text_of b c2) items" by blast
    have "\<exists>items. list_all item_ok items \<and> i + length (words_of items) < MAXARGS \<and> lex b s = toks_of items @ lex b s' \<and> text_of b c' = foldl extend (text_of b c) items"
      by (rule exI [of _ "Arg (slice b q e) # rs @ items"])
        (use it rs word(1) w(2) redirs_words [OF rs(1)] extend_redirs [OF rs(1)] in \<open>auto simp: extend_def list_all_iff\<close>)
    moreover have "s \<le> s'" using IH R word(4) by linarith
    ultimately show ?thesis using IH by blast
  qed (use Suc.prems(1) in simp_all)
qed simp

definition follow :: "cstr \<Rightarrow> tok list \<Rightarrow> bool" where
  "follow cs ts \<longleftrightarrow> ts = [] \<or> (\<exists>c us. ts = Sym c # us \<and> c \<in> set cs)"

lemma follow_not: "follow [124, 41, 38, 59] ts \<Longrightarrow> \<not> starts [60, 62] ts" "follow [124, 41, 38, 59] ts \<Longrightarrow> starts [124, 41, 38, 59] ts \<or> ts = []"
  by (auto simp: follow_def)

text \<open>A sequence of items is a first word, the redirections behind it, and a sequence that is empty or begins with a word.\<close>

lemma items_split:
  obtains rs items' where "items = rs @ items'" "list_all (\<lambda>i. \<not> is_arg i) rs" "items' = [] \<or> (\<exists>w zs. items' = Arg w # zs)"
proof -
  have "dropWhile (\<lambda>i. \<not> is_arg i) items = [] \<or> (\<exists>w zs. dropWhile (\<lambda>i. \<not> is_arg i) items = Arg w # zs)"
  proof (cases "dropWhile (\<lambda>i. \<not> is_arg i) items")
    case (Cons i zs)
    then have "is_arg i" using hd_dropWhile [of "\<lambda>i. \<not> is_arg i" items] by simp
    then show ?thesis using Cons by (cases i) auto
  qed simp
  moreover have "list_all (\<lambda>i. \<not> is_arg i) (takeWhile (\<lambda>i. \<not> is_arg i) items)" by (auto simp: list_all_iff dest: set_takeWhileD)
  ultimately show ?thesis using that [of "takeWhile (\<lambda>i. \<not> is_arg i) items" "dropWhile (\<lambda>i. \<not> is_arg i) items"] by simp
qed

lemma args_complete:
  assumes "lex b s = toks_of items @ rest" "list_all item_ok items" "items = [] \<or> (\<exists>w zs. items = Arg w # zs)" "i + length (words_of items) < MAXARGS"
    "follow [124, 41, 38, 59] rest" "s \<le> ustrlen b" "open_exec b i c"
  shows "parse_args n i c b (ustrlen b) s = Fuel \<or>
    (\<exists>c' s'. parse_args n i c b (ustrlen b) s = Done (c', s') \<and> lex b s' = rest \<and> s' \<le> ustrlen b \<and> text_of b c' = foldl extend (text_of b c) items)"
  using assms
proof (induction n arbitrary: i c s items)
  case (Suc n)
  note stops = follow_not(2) [OF Suc.prems(5)]
  from Suc.prems(6) show ?case
  proof (cases rule: parse_args_cases [where n = n and c = c and i = i, case_names stop bad many word])
    case (stop s1)
    then have "items = []" using Suc.prems(1,3) by auto
    then show ?thesis using stop Suc.prems(1) set_arg_none [OF Suc.prems(7)] by simp
  next
    case (bad k ts e)
    then have "items = []" using Suc.prems(1,3) by auto
    then show ?thesis using bad(1,2) stops Suc.prems(1,5) by (auto simp: follow_def)
  next
    case (many w ts e)
    then have "items \<noteq> []" using Suc.prems(1) stops by auto
    then show ?thesis using Suc.prems(3,4) many(2) by auto
  next
    case (word q e s1)
    have "items \<noteq> []" using Suc.prems(1) stops word(1) by auto
    then obtain zs where z: "items = Arg (slice b q e) # zs" "lex b s1 = toks_of zs @ rest" using Suc.prems(1,3) word(1) by auto
    obtain rs it where d: "zs = rs @ it" "list_all (\<lambda>i. \<not> is_arg i) rs" "it = [] \<or> (\<exists>w zs. it = Arg w # zs)" by (rule items_split)
    have rs: "redirs rs" "list_all item_ok it" using d(1,2) z(1) Suc.prems(2) by (auto simp: list_all_iff)
    have l: "lex b s1 = toks_of rs @ toks_of it @ rest" "\<not> starts [60, 62] (toks_of it @ rest)" using z(2) d(1,3) follow_not(1) [OF Suc.prems(5)] by auto
    let ?c = "set_arg i (Some q) (Some e) c"
    note w = set_arg_open [OF Suc.prems(7) word(3,2)]
    from redirs_complete [OF l(1) rs(1) l(2) word(5), of n ?c "Suc i"] show ?thesis
    proof (elim disjE exE conjE)
      fix c2 s2 assume r: "parseredirs n ?c b (ustrlen b) s1 = Done (c2, s2)" "lex b s2 = toks_of it @ rest" "s2 \<le> ustrlen b"
        "text_of b c2 = foldl wrap (text_of b ?c) rs" "open_exec b (Suc i) c2 = open_exec b (Suc i) ?c"
      have t: "foldl extend (text_of b c) items = foldl extend (text_of b c2) it"
        using r(4) w(2) z(1) d(1) extend_redirs [OF rs(1)] by (simp add: extend_def)
      have "Suc i + length (words_of it) < MAXARGS" using Suc.prems(4) z(1) d(1) redirs_words [OF rs(1)] by simp
      then show ?thesis using Suc.IH [OF r(2) rs(2) d(3) _ Suc.prems(5) r(3), of "Suc i"] r(5) w(1) word(6) r(1) t by simp
    qed (use word(6) in simp)
  qed
qed simp

lemma backs_sound:
  assumes "parse_backs n c b (ustrlen b) s = Done (c', s')" "s \<le> ustrlen b"
  shows "s \<le> s' \<and> s' \<le> ustrlen b \<and> cmd_ok b c' = cmd_ok b c \<and> (\<exists>k. lex b s = replicate k (Sym 38) @ lex b s' \<and> text_of b c' = (SBack ^^ k) (text_of b c))"
  using assms
proof (induction n arbitrary: c s)
  case (Suc n)
  from Suc.prems(2) show ?case
  proof (cases rule: parse_backs_cases [where n = n and c = c, case_names stop more])
    case stop
    then have "c' = c" "s' = skip_ws b (ustrlen b) s" using Suc.prems(1) by simp_all
    then show ?thesis using Suc.prems(2) by (auto intro!: exI [of _ 0])
  next
    case (more s1)
    have "parse_backs n (BACK c) b (ustrlen b) s1 = Done (c', s')" using Suc.prems(1) more(4) by simp
    note IH = Suc.IH [OF this more(3)]
    then obtain k where "lex b s1 = replicate k (Sym 38) @ lex b s'" "text_of b c' = (SBack ^^ k) (SBack (text_of b c))" by auto
    then have "lex b s = replicate (Suc k) (Sym 38) @ lex b s' \<and> text_of b c' = (SBack ^^ Suc k) (text_of b c)" using more(1) by (simp add: funpow_swap1)
    moreover have "s \<le> s'" using IH more(2) by linarith
    ultimately show ?thesis using IH by (metis cmd_ok.simps(5))
  qed
qed simp

lemma backs_complete:
  assumes "lex b s = replicate k (Sym 38) @ rest" "\<not> starts [38] rest" "s \<le> ustrlen b"
  shows "parse_backs n c b (ustrlen b) s = Fuel \<or>
    (\<exists>c' s'. parse_backs n c b (ustrlen b) s = Done (c', s') \<and> lex b s' = rest \<and> s' \<le> ustrlen b \<and> text_of b c' = (SBack ^^ k) (text_of b c))"
  using assms
proof (induction n arbitrary: c s k)
  case (Suc n)
  from Suc.prems(3) show ?case
  proof (cases rule: parse_backs_cases [where n = n and c = c, case_names stop more])
    case stop
    then have "k = 0" using Suc.prems(1) by (cases k) auto
    then show ?thesis using stop Suc.prems(1,3) by simp
  next
    case (more s1)
    then obtain j where j: "k = Suc j" "lex b s1 = replicate j (Sym 38) @ rest" using Suc.prems(1,2) by (cases k) auto
    then show ?thesis using Suc.IH [OF j(2) Suc.prems(2) more(3), of "BACK c"] more(4) by (simp add: funpow_swap1)
  qed
qed simp

section \<open>Soundness, completeness and termination\<close>

definition parsed :: "(scmd \<Rightarrow> tok list \<Rightarrow> bool) \<Rightarrow> cstr \<Rightarrow> nat \<Rightarrow> cmd \<Rightarrow> nat \<Rightarrow> bool" where
  "parsed g b s c s' \<longleftrightarrow> s \<le> s' \<and> s' \<le> ustrlen b \<and> cmd_ok b c \<and> (\<exists>ts. lex b s = ts @ lex b s' \<and> g (text_of b c) ts)"

lemma bindP_Done: "bindP r f = Done x \<longleftrightarrow> (\<exists>y. r = Done y \<and> f y = Done x)"
  by (cases r) auto

lemma bindP_Fuel: "bindP r f = Fuel \<longleftrightarrow> r = Fuel \<or> (\<exists>y. r = Done y \<and> f y = Fuel)"
  by (cases r) auto

lemma exec_sound:
  assumes "parseredirs n execcmd b (ustrlen b) s = Done (c1, s1)" "parse_args n 0 c1 b (ustrlen b) s1 = Done (c, s')" "s \<le> ustrlen b"
  shows "parsed g_exec b s c s'"
proof -
  note R = redirs_sound [OF assms(1,3), where i = 0]
  then obtain rs where rs: "redirs rs" "lex b s = toks_of rs @ lex b s1" "text_of b c1 = foldl wrap (SExec []) rs" using execcmd_open by auto
  have "s1 \<le> ustrlen b" "open_exec b 0 c1" using R execcmd_open by blast+
  note A = args_sound [OF assms(2) this]
  then obtain items where it: "list_all item_ok items" "length (words_of items) < MAXARGS" "lex b s1 = toks_of items @ lex b s'" "text_of b c = foldl extend (text_of b c1) items"
    by (auto simp: MAXARGS_def)
  have "g_exec (simple_cmd (rs @ items)) (toks_of (rs @ items))"
    by (rule simple) (use it rs redirs_words [OF rs(1)] in \<open>auto simp: list_all_iff\<close>)
  moreover have "text_of b c = simple_cmd (rs @ items)" using it(4) rs(3) extend_redirs [OF rs(1)] extend_simple [of "rs @ items"] by simp
  moreover have "s \<le> s'" "s' \<le> ustrlen b" "cmd_ok b c" using A R by (auto simp: MAXARGS_def)
  ultimately show ?thesis unfolding parsed_def using rs(2) it(3) by (metis append.assoc toks_of_simps(3))
qed

lemma line_sound:
  assumes d: "parseline (Suc n) b (ustrlen b) s = Done (c, s')" and s: "s \<le> ustrlen b"
    and IH: "\<And>s c s'. parseline n b (ustrlen b) s = Done (c, s') \<Longrightarrow> s \<le> ustrlen b \<Longrightarrow> parsed g_line b s c s'"
      "\<And>s c s'. parsepipe n b (ustrlen b) s = Done (c, s') \<Longrightarrow> s \<le> ustrlen b \<Longrightarrow> parsed g_pipe b s c s'"
  shows "parsed g_line b s c s'"
proof -
  obtain c1 s1 c2 s2 where p: "parsepipe n b (ustrlen b) s = Done (c1, s1)" "parse_backs n c1 b (ustrlen b) s1 = Done (c2, s2)"
    and f: "(let (more, s) = peek b (ustrlen b) [59] s2 in
       if more then bindP (parseline n b (ustrlen b) (behind b (ustrlen b) s)) (\<lambda>(r, s). Done (LIST c2 r, s)) else Done (c2, s)) = Done (c, s')"
    using d by (auto simp: bindP_Done)
  obtain ts where P: "s \<le> s1" "s1 \<le> ustrlen b" "cmd_ok b c1" "lex b s = ts @ lex b s1" "g_pipe (text_of b c1) ts" using IH(2) [OF p(1) s] by (auto simp: parsed_def)
  obtain k where B: "s1 \<le> s2" "s2 \<le> ustrlen b" "cmd_ok b c2" "lex b s1 = replicate k (Sym 38) @ lex b s2" "text_of b c2 = (SBack ^^ k) (text_of b c1)"
    using backs_sound [OF p(2) P(2)] P(3) by blast
  show ?thesis
  proof (cases "starts [59] (lex b s2)")
    case False
    then have "c = c2" "s' = skip_ws b (ustrlen b) s2" using f B(2) by simp_all
    moreover have "g_line (text_of b c2) (ts @ replicate k (Sym 38))" unfolding B(5) by (rule line_end [OF P(5)])
    ultimately show ?thesis unfolding parsed_def using P B skip_bounds(1) [OF B(2)] by (auto simp del: skip_bounds(1))
  next
    case True
    then obtain us where l: "lex b s2 = Sym 59 # us" by (rule starts_sym) auto
    note bs = behind_sym [OF B(2) l]
    obtain r where r: "parseline n b (ustrlen b) (behind b (ustrlen b) (skip_ws b (ustrlen b) s2)) = Done (r, s')" "c = LIST c2 r"
      using f True B(2) by (auto simp: bindP_Done)
    obtain vs where L: "s2 < s'" "s' \<le> ustrlen b" "cmd_ok b r" "us = vs @ lex b s'" "g_line (text_of b r) vs"
      using IH(1) [OF r(1) bs(3)] bs(1,2) by (auto simp: parsed_def)
    have "g_line (text_of b c) (ts @ replicate k (Sym 38) @ Sym 59 # vs)" unfolding r(2) text_of.simps B(5) by (rule line [OF P(5) L(5)])
    moreover have "lex b s = (ts @ replicate k (Sym 38) @ Sym 59 # vs) @ lex b s'" using P(4) B(4) l L(4) by simp
    ultimately show ?thesis unfolding parsed_def using P(1) B(1,3) L(1-3) r(2) by (metis cmd_ok.simps(4) le_trans less_imp_le)
  qed
qed

lemma pipe_sound:
  assumes d: "parsepipe (Suc n) b (ustrlen b) s = Done (c, s')" and s: "s \<le> ustrlen b"
    and IH: "\<And>s c s'. parsepipe n b (ustrlen b) s = Done (c, s') \<Longrightarrow> s \<le> ustrlen b \<Longrightarrow> parsed g_pipe b s c s'"
      "\<And>s c s'. parseexec n b (ustrlen b) s = Done (c, s') \<Longrightarrow> s \<le> ustrlen b \<Longrightarrow> parsed g_exec b s c s'"
  shows "parsed g_pipe b s c s'"
proof -
  obtain c1 s1 where p: "parseexec n b (ustrlen b) s = Done (c1, s1)"
    and f: "(let (more, s) = peek b (ustrlen b) [124] s1 in
       if more then bindP (parsepipe n b (ustrlen b) (behind b (ustrlen b) s)) (\<lambda>(r, s). Done (PIPE c1 r, s)) else Done (c1, s)) = Done (c, s')"
    using d by (auto simp: bindP_Done)
  obtain ts where P: "s \<le> s1" "s1 \<le> ustrlen b" "cmd_ok b c1" "lex b s = ts @ lex b s1" "g_exec (text_of b c1) ts" using IH(2) [OF p s] by (auto simp: parsed_def)
  show ?thesis
  proof (cases "starts [124] (lex b s1)")
    case False
    then have "c = c1" "s' = skip_ws b (ustrlen b) s1" using f P(2) by simp_all
    then show ?thesis unfolding parsed_def using P pipe_end [OF P(5)] skip_bounds(1) [OF P(2)] by (auto simp del: skip_bounds(1))
  next
    case True
    then obtain us where l: "lex b s1 = Sym 124 # us" by (rule starts_sym) auto
    note bs = behind_sym [OF P(2) l]
    obtain r where r: "parsepipe n b (ustrlen b) (behind b (ustrlen b) (skip_ws b (ustrlen b) s1)) = Done (r, s')" "c = PIPE c1 r"
      using f True P(2) by (auto simp: bindP_Done)
    obtain vs where L: "s1 < s'" "s' \<le> ustrlen b" "cmd_ok b r" "us = vs @ lex b s'" "g_pipe (text_of b r) vs"
      using IH(1) [OF r(1) bs(3)] bs(1,2) by (auto simp: parsed_def)
    have "g_pipe (text_of b c) (ts @ Sym 124 # vs)" unfolding r(2) text_of.simps by (rule pipe [OF P(5) L(5)])
    moreover have "lex b s = (ts @ Sym 124 # vs) @ lex b s'" using P(4) l L(4) by simp
    ultimately show ?thesis unfolding parsed_def using P(1,3) L(1-3) r(2) by (metis cmd_ok.simps(3) le_trans less_imp_le)
  qed
qed

lemma parseexec_sound:
  assumes d: "parseexec (Suc n) b (ustrlen b) s = Done (c, s')" and s: "s \<le> ustrlen b"
    and IH: "\<And>s c s'. parseblock n b (ustrlen b) s = Done (c, s') \<Longrightarrow> s \<le> ustrlen b \<Longrightarrow> parsed g_exec b s c s'"
  shows "parsed g_exec b s c s'"
proof -
  show ?thesis
  proof (cases "starts [40] (lex b s)")
    case True
    then have "parseblock n b (ustrlen b) (skip_ws b (ustrlen b) s) = Done (c, s')" using d s by simp
    from IH(1) [OF this] show ?thesis using s skip_bounds(1) [OF s] by (auto simp: parsed_def simp del: skip_bounds(1) intro: le_trans)
  next
    case False
    then obtain c1 s1 where "parseredirs n execcmd b (ustrlen b) (skip_ws b (ustrlen b) s) = Done (c1, s1)" "parse_args n 0 c1 b (ustrlen b) s1 = Done (c, s')"
      using d s by (auto simp: bindP_Done)
    from exec_sound [OF this] show ?thesis using s skip_bounds(1) [OF s] by (auto simp: parsed_def simp del: skip_bounds(1) intro: le_trans)
  qed
qed

lemma block_sound:
  assumes d: "parseblock (Suc n) b (ustrlen b) s = Done (c, s')" and s: "s \<le> ustrlen b"
    and IH: "\<And>s c s'. parseline n b (ustrlen b) s = Done (c, s') \<Longrightarrow> s \<le> ustrlen b \<Longrightarrow> parsed g_line b s c s'"
  shows "parsed g_exec b s c s'"
proof -
  have st: "starts [40] (lex b s)" using d s by (auto split: if_splits)
  then obtain us where l: "lex b s = Sym 40 # us" by (rule starts_sym) auto
  note bs = behind_sym [OF s l]
  obtain c1 s1 where p: "parseline n b (ustrlen b) (behind b (ustrlen b) (skip_ws b (ustrlen b) s)) = Done (c1, s1)"
    and f: "(let (here, s) = peek b (ustrlen b) [41] s1 in if \<not> here then Abort ''syntax - missing )'' else parseredirs n c1 b (ustrlen b) (behind b (ustrlen b) s)) = Done (c, s')"
    using d s st by (auto simp: bindP_Done)
  obtain ts where P: "s < s1" "s1 \<le> ustrlen b" "cmd_ok b c1" "us = ts @ lex b s1" "g_line (text_of b c1) ts"
    using IH(1) [OF p bs(3)] bs(1,2) by (auto simp: parsed_def)
  have st: "starts [41] (lex b s1)" using f P(2) by (auto split: if_splits)
  then obtain vs where l2: "lex b s1 = Sym 41 # vs" by (rule starts_sym) auto
  note bs2 = behind_sym [OF P(2) l2]
  have r: "parseredirs n c1 b (ustrlen b) (behind b (ustrlen b) (skip_ws b (ustrlen b) s1)) = Done (c, s')" using f st P(2) by simp
  note R = redirs_sound [OF r bs2(3), where i = 0]
  then obtain rs where rs: "redirs rs" "vs = toks_of rs @ lex b s'" "text_of b c = foldl wrap (text_of b c1) rs" using bs2(1) by auto
  have "g_exec (text_of b c) (Sym 40 # ts @ Sym 41 # toks_of rs)" unfolding rs(3) by (rule block [OF P(5) rs(1)])
  moreover have "lex b s = (Sym 40 # ts @ Sym 41 # toks_of rs) @ lex b s'" using l P(4) l2 rs(2) by simp
  moreover have "s \<le> s'" "s' \<le> ustrlen b" "cmd_ok b c" using R P(1,3) bs2(2) by auto
  ultimately show ?thesis unfolding parsed_def by blast
qed

lemma parse_sound:
  "parseline n b (ustrlen b) s = Done (c, s') \<Longrightarrow> s \<le> ustrlen b \<Longrightarrow> parsed g_line b s c s'"
  "parsepipe n b (ustrlen b) s = Done (c, s') \<Longrightarrow> s \<le> ustrlen b \<Longrightarrow> parsed g_pipe b s c s'"
  "parseexec n b (ustrlen b) s = Done (c, s') \<Longrightarrow> s \<le> ustrlen b \<Longrightarrow> parsed g_exec b s c s'"
  "parseblock n b (ustrlen b) s = Done (c, s') \<Longrightarrow> s \<le> ustrlen b \<Longrightarrow> parsed g_exec b s c s'"
proof (induction n arbitrary: s c s')
  case (Suc n)
  {
    case 1
    then show ?case by (rule line_sound) (rule Suc.IH, assumption+)+
  next
    case 2
    then show ?case by (rule pipe_sound) (rule Suc.IH, assumption+)+
  next
    case 3
    then show ?case by (rule parseexec_sound) (rule Suc.IH, assumption+)+
  next
    case 4
    then show ?case by (rule block_sound) (rule Suc.IH, assumption+)+
  }
qed simp_all

definition accepts :: "(nat \<Rightarrow> cstr \<Rightarrow> nat \<Rightarrow> nat \<Rightarrow> (cmd \<times> nat) parse) \<Rightarrow> cstr \<Rightarrow> nat \<Rightarrow> scmd \<Rightarrow> tok list \<Rightarrow> bool" where
  "accepts p b s sc rest \<longleftrightarrow> (\<forall>n. p n b (ustrlen b) s = Fuel \<or>
     (\<exists>c s'. p n b (ustrlen b) s = Done (c, s') \<and> lex b s' = rest \<and> s' \<le> ustrlen b \<and> text_of b c = sc))"

lemma acceptsD:
  assumes "accepts p b s sc rest"
  obtains "p n b (ustrlen b) s = Fuel" | c s' where "p n b (ustrlen b) s = Done (c, s')" "lex b s' = rest" "s' \<le> ustrlen b" "text_of b c = sc"
  using assms unfolding accepts_def by blast

lemma acceptsI:
  assumes "p 0 b (ustrlen b) s = Fuel"
    "\<And>n. p (Suc n) b (ustrlen b) s = Fuel \<or> (\<exists>c s'. p (Suc n) b (ustrlen b) s = Done (c, s') \<and> lex b s' = rest \<and> s' \<le> ustrlen b \<and> text_of b c = sc)"
  shows "accepts p b s sc rest"
  unfolding accepts_def
proof
  fix n
  show "p n b (ustrlen b) s = Fuel \<or> (\<exists>c s'. p n b (ustrlen b) s = Done (c, s') \<and> lex b s' = rest \<and> s' \<le> ustrlen b \<and> text_of b c = sc)"
    by (cases n) (use assms in simp_all)
qed

lemma accepts_backs:
  assumes "accepts parsepipe b s sc (replicate k (Sym 38) @ rest)" "\<not> starts [38] rest" "s \<le> ustrlen b"
  obtains "parseline (Suc n) b (ustrlen b) s = Fuel"
  | c s' where "parseline (Suc n) b (ustrlen b) s = (let (more, s) = peek b (ustrlen b) [59] s' in
         if more then bindP (parseline n b (ustrlen b) (behind b (ustrlen b) s)) (\<lambda>(r, s). Done (LIST c r, s)) else Done (c, s))"
      "lex b s' = rest" "s' \<le> ustrlen b" "text_of b c = (SBack ^^ k) sc"
proof -
  from assms(1) show ?thesis
  proof (cases rule: acceptsD [where n = n, case_names fuel ok])
    case fuel
    then show ?thesis using that(1) by simp
  next
    case (ok c s1)
    from backs_complete [OF ok(2) assms(2) ok(3), of n c] show ?thesis
    proof (elim disjE exE conjE)
      fix c2 s2 assume "parse_backs n c b (ustrlen b) s1 = Done (c2, s2)" "lex b s2 = rest" "s2 \<le> ustrlen b" "text_of b c2 = (SBack ^^ k) (text_of b c)"
      then show ?thesis using that(2) [of s2 c2] ok(1,4) by simp
    qed (use that(1) ok(1) in simp)
  qed
qed

lemma line_end_complete:
  assumes "accepts parsepipe b s sc (replicate k (Sym 38) @ rest)" "follow [41] rest" "s \<le> ustrlen b"
  shows "accepts parseline b s ((SBack ^^ k) sc) rest"
proof (rule acceptsI)
  fix n
  have ns: "\<not> starts [38] rest" "\<not> starts [59] rest" using assms(2) by (auto simp: follow_def)
  from assms(1) ns(1) assms(3) show "parseline (Suc n) b (ustrlen b) s = Fuel \<or> (\<exists>c s'. parseline (Suc n) b (ustrlen b) s = Done (c, s') \<and> lex b s' = rest \<and> s' \<le> ustrlen b \<and> text_of b c = (SBack ^^ k) sc)"
    by (cases rule: accepts_backs [where n = n]) (use ns(2) in auto)
qed simp

lemma line_complete:
  assumes "accepts parsepipe b s sc (replicate k (Sym 38) @ Sym 59 # us @ rest)" "s \<le> ustrlen b"
    "\<And>s. lex b s = us @ rest \<Longrightarrow> s \<le> ustrlen b \<Longrightarrow> accepts parseline b s sd rest"
  shows "accepts parseline b s (SList ((SBack ^^ k) sc) sd) rest"
proof (rule acceptsI)
  fix n
  have ns: "\<not> starts [38] (Sym 59 # us @ rest)" by simp
  show "parseline (Suc n) b (ustrlen b) s = Fuel \<or> (\<exists>c s'. parseline (Suc n) b (ustrlen b) s = Done (c, s') \<and> lex b s' = rest \<and> s' \<le> ustrlen b \<and> text_of b c = SList ((SBack ^^ k) sc) sd)"
    using assms(1) ns assms(2)
  proof (cases rule: accepts_backs [where n = n, case_names fuel ok])
    case (ok c s1)
    note bs = behind_sym [OF ok(3,2)]
    have e: "parseline (Suc n) b (ustrlen b) s = bindP (parseline n b (ustrlen b) (behind b (ustrlen b) (skip_ws b (ustrlen b) s1))) (\<lambda>(r, s). Done (LIST c r, s))"
      using ok(1-3) by simp
    from assms(3) [OF bs(1,3)] show ?thesis by (cases rule: acceptsD [where n = n]) (use e ok(4) in auto)
  qed simp
qed simp

lemma pipe_end_complete:
  assumes "accepts parseexec b s sc rest" "follow [41, 38, 59] rest"
  shows "accepts parsepipe b s sc rest"
proof (rule acceptsI)
  fix n
  have "\<not> starts [124] rest" using assms(2) by (auto simp: follow_def)
  with assms(1) show "parsepipe (Suc n) b (ustrlen b) s = Fuel \<or> (\<exists>c s'. parsepipe (Suc n) b (ustrlen b) s = Done (c, s') \<and> lex b s' = rest \<and> s' \<le> ustrlen b \<and> text_of b c = sc)"
    by (cases rule: acceptsD [where n = n]) auto
qed simp

lemma pipe_complete:
  assumes "accepts parseexec b s sc (Sym 124 # us @ rest)" "\<And>s. lex b s = us @ rest \<Longrightarrow> s \<le> ustrlen b \<Longrightarrow> accepts parsepipe b s sd rest"
  shows "accepts parsepipe b s (SPipe sc sd) rest"
proof (rule acceptsI)
  fix n
  from assms(1) show "parsepipe (Suc n) b (ustrlen b) s = Fuel \<or> (\<exists>c s'. parsepipe (Suc n) b (ustrlen b) s = Done (c, s') \<and> lex b s' = rest \<and> s' \<le> ustrlen b \<and> text_of b c = SPipe sc sd)"
  proof (cases rule: acceptsD [where n = n, case_names fuel ok])
    case (ok c s1)
    note bs = behind_sym [OF ok(3,2)]
    have e: "parsepipe (Suc n) b (ustrlen b) s = bindP (parsepipe n b (ustrlen b) (behind b (ustrlen b) (skip_ws b (ustrlen b) s1))) (\<lambda>(r, s). Done (PIPE c r, s))"
      using ok(1-3) by simp
    from assms(2) [OF bs(1,3)] show ?thesis by (cases rule: acceptsD [where n = n]) (use e ok(4) in auto)
  qed simp
qed simp

lemma simple_complete:
  assumes "lex b s = toks_of items @ rest" "list_all item_ok items" "length (words_of items) < MAXARGS" "follow [124, 41, 38, 59] rest" "s \<le> ustrlen b"
  shows "accepts parseexec b s (simple_cmd items) rest"
proof (rule acceptsI)
  fix n
  obtain rs it where d: "items = rs @ it" "list_all (\<lambda>i. \<not> is_arg i) rs" "it = [] \<or> (\<exists>w zs. it = Arg w # zs)" by (rule items_split)
  have rs: "redirs rs" "list_all item_ok it" "0 + length (words_of it) < MAXARGS" using d(1,2) assms(2,3) by (auto simp: list_all_iff)
  have l: "lex b (skip_ws b (ustrlen b) s) = toks_of rs @ toks_of it @ rest" "\<not> starts [60, 62] (toks_of it @ rest)"
    using assms(1,5) d(1,3) follow_not(1) [OF assms(4)] by auto
  have "\<not> starts [40] (lex b s)"
  proof (cases items)
    case (Cons i zs)
    then show ?thesis using assms(1,2) by (cases i) auto
  qed (use assms(1,4) in \<open>auto simp: follow_def\<close>)
  then have e: "parseexec (Suc n) b (ustrlen b) s = bindP (parseredirs n execcmd b (ustrlen b) (skip_ws b (ustrlen b) s)) (\<lambda>(ret, s). parse_args n 0 ret b (ustrlen b) s)"
    using assms(5) by simp
  from redirs_complete [OF l(1) rs(1) l(2) skip_bounds(2) [OF assms(5)], of n execcmd 0]
  show "parseexec (Suc n) b (ustrlen b) s = Fuel \<or> (\<exists>c s'. parseexec (Suc n) b (ustrlen b) s = Done (c, s') \<and> lex b s' = rest \<and> s' \<le> ustrlen b \<and> text_of b c = simple_cmd items)"
  proof (elim disjE exE conjE)
    fix c1 s1 assume r: "parseredirs n execcmd b (ustrlen b) (skip_ws b (ustrlen b) s) = Done (c1, s1)" "lex b s1 = toks_of it @ rest" "s1 \<le> ustrlen b"
      "text_of b c1 = foldl wrap (text_of b execcmd) rs" "open_exec b 0 c1 = open_exec b 0 execcmd"
    have "foldl extend (text_of b c1) it = simple_cmd items"
      using r(4) execcmd_open(2) extend_redirs [OF rs(1)] extend_simple [of items] d(1) by simp
    then show ?thesis using args_complete [OF r(2) rs(2) d(3) rs(3) assms(4) r(3), of c1 n] r(1,5) execcmd_open(1) e by simp
  qed (use e in simp)
qed simp

lemma block_complete:
  assumes "lex b s = Sym 40 # ts @ Sym 41 # toks_of rs @ rest" "redirs rs" "follow [124, 41, 38, 59] rest" "s \<le> ustrlen b"
    "\<And>s. lex b s = ts @ Sym 41 # toks_of rs @ rest \<Longrightarrow> s \<le> ustrlen b \<Longrightarrow> accepts parseline b s sc (Sym 41 # toks_of rs @ rest)"
  shows "accepts parseexec b s (foldl wrap sc rs) rest"
proof -
  let ?s = "behind b (ustrlen b) (skip_ws b (ustrlen b) s)"
  note bs = behind_sym [OF assms(4,1)]
  have "accepts parseblock b (skip_ws b (ustrlen b) s) (foldl wrap sc rs) rest"
  proof (rule acceptsI)
    fix n
    have e: "parseblock (Suc n) b (ustrlen b) (skip_ws b (ustrlen b) s) = bindP (parseline n b (ustrlen b) ?s) (\<lambda>(c, s).
        let (here, s) = peek b (ustrlen b) [41] s in
        if \<not> here then Abort ''syntax - missing )'' else parseredirs n c b (ustrlen b) (behind b (ustrlen b) s))"
      using assms(1,4) by simp
    from assms(5) [OF bs(1,3)]
    show "parseblock (Suc n) b (ustrlen b) (skip_ws b (ustrlen b) s) = Fuel \<or> (\<exists>c s'. parseblock (Suc n) b (ustrlen b) (skip_ws b (ustrlen b) s) = Done (c, s') \<and>
      lex b s' = rest \<and> s' \<le> ustrlen b \<and> text_of b c = foldl wrap sc rs)"
    proof (cases rule: acceptsD [where n = n, case_names fuel ok])
      case fuel
      then show ?thesis unfolding e by simp
    next
      case (ok c s1)
      note bs1 = behind_sym [OF ok(3,2)]
      show ?thesis unfolding e using redirs_complete [OF bs1(1) assms(2) follow_not(1) [OF assms(3)] bs1(3), of n c 0] ok by auto
    qed
  qed simp
  then have block: "parseblock n b (ustrlen b) (skip_ws b (ustrlen b) s) = Fuel \<or> (\<exists>c s'. parseblock n b (ustrlen b) (skip_ws b (ustrlen b) s) = Done (c, s') \<and>
      lex b s' = rest \<and> s' \<le> ustrlen b \<and> text_of b c = foldl wrap sc rs)" for n by (simp add: accepts_def)
  have "parseexec (Suc n) b (ustrlen b) s = parseblock n b (ustrlen b) (skip_ws b (ustrlen b) s)" for n using assms(1,4) by simp
  then show ?thesis by (intro acceptsI) (use block in simp_all)
qed

lemma parse_complete:
  "g_line sc ts \<Longrightarrow> (\<And>s rest. lex b s = ts @ rest \<Longrightarrow> follow [41] rest \<Longrightarrow> s \<le> ustrlen b \<Longrightarrow> accepts parseline b s sc rest)"
  "g_pipe sc ts \<Longrightarrow> (\<And>s rest. lex b s = ts @ rest \<Longrightarrow> follow [41, 38, 59] rest \<Longrightarrow> s \<le> ustrlen b \<Longrightarrow> accepts parsepipe b s sc rest)"
  "g_exec sc ts \<Longrightarrow> (\<And>s rest. lex b s = ts @ rest \<Longrightarrow> follow [124, 41, 38, 59] rest \<Longrightarrow> s \<le> ustrlen b \<Longrightarrow> accepts parseexec b s sc rest)"
proof (induction rule: g_line_g_pipe_g_exec.inducts)
  case (simple items)
  show ?case by (rule simple_complete [OF simple(3) simple(1,2) simple(4,5)])
next
  case (block c ts rs)
  show ?case
    by (rule block_complete [OF _ block(2) block(5,6)]) (use block(4) in simp, rule block(3), auto simp: follow_def)
next
  case (pipe_end c ts)
  have "follow [124, 41, 38, 59] rest" using pipe_end(4) by (auto simp: follow_def)
  then show ?case by (intro pipe_end_complete pipe_end)
next
  case (pipe c ts d us)
  show ?case
  proof (rule pipe_complete)
    show "accepts parseexec b s c (Sym 124 # us @ rest)" by (rule pipe(3)) (use pipe(5,7) in \<open>auto simp: follow_def\<close>)
    show "accepts parsepipe b s' d rest" if "lex b s' = us @ rest" "s' \<le> ustrlen b" for s' by (rule pipe(4) [OF that(1) pipe(6) that(2)])
  qed
next
  case (line_end c ts k)
  have "follow [41, 38, 59] (replicate k (Sym 38) @ rest)" using line_end(4) by (cases k) (auto simp: follow_def)
  then show ?case using line_end by (intro line_end_complete) simp_all
next
  case (line c ts d us k)
  show ?case
  proof (rule line_complete)
    have "follow [41, 38, 59] (replicate k (Sym 38) @ Sym 59 # us @ rest)" by (cases k) (auto simp: follow_def)
    then show "accepts parsepipe b s c (replicate k (Sym 38) @ Sym 59 # us @ rest)" using line(3,5,7) by simp
    show "accepts parseline b s' d rest" if "lex b s' = us @ rest" "s' \<le> ustrlen b" for s' by (rule line(4) [OF that(1) line(6) that(2)])
  qed (rule line(7))
qed

text \<open>The fuel suffices: it is consumed by calls that have read a token, and by at most four nested ones that have not.\<close>

lemma redirs_fuel: "s \<le> ustrlen b \<Longrightarrow> ustrlen b - s < n \<Longrightarrow> parseredirs n c b (ustrlen b) s \<noteq> Fuel"
proof (induction n arbitrary: c s)
  case (Suc n)
  from Suc.prems(1) show ?case
  proof (cases rule: parseredirs_cases [where n = n and c = c, case_names stop missing more])
    case (more k q e s1)
    have "ustrlen b - s1 < n" using more(4,5) Suc.prems(2) by linarith
    then show ?thesis using Suc.IH [OF more(5)] more(6) by simp
  qed simp_all
qed simp

lemma backs_fuel: "s \<le> ustrlen b \<Longrightarrow> ustrlen b - s < n \<Longrightarrow> parse_backs n c b (ustrlen b) s \<noteq> Fuel"
proof (induction n arbitrary: c s)
  case (Suc n)
  from Suc.prems(1) show ?case
  proof (cases rule: parse_backs_cases [where n = n and c = c, case_names stop more])
    case (more s1)
    have "ustrlen b - s1 < n" using more(2,3) Suc.prems(2) by linarith
    then show ?thesis using Suc.IH [OF more(3)] more(4) by simp
  qed simp
qed simp

lemma args_fuel: "s \<le> ustrlen b \<Longrightarrow> ustrlen b - s < n \<Longrightarrow> parse_args n i c b (ustrlen b) s \<noteq> Fuel"
proof (induction n arbitrary: c s i)
  case (Suc n)
  from Suc.prems(1) show ?case
  proof (cases rule: parse_args_cases [where n = n and c = c and i = i, case_names stop bad many word])
    case (word q e s1)
    let ?c = "set_arg i (Some q) (Some e) c"
    have s1: "ustrlen b - s1 < n" using word(4,5) Suc.prems(2) by linarith
    have "parse_args n (Suc i) c' b (ustrlen b) s' \<noteq> Fuel" if r: "parseredirs n ?c b (ustrlen b) s1 = Done (c', s')" for c' s'
    proof -
      have "s1 \<le> s'" "s' \<le> ustrlen b" using redirs_sound [OF r word(5), where i = 0] by simp_all
      moreover have "ustrlen b - s' < n" using s1 calculation by linarith
      ultimately show ?thesis using Suc.IH by blast
    qed
    then show ?thesis using redirs_fuel [OF word(5) s1] word(6) by (auto simp: bindP_Fuel)
  qed simp_all
qed simp

lemma line_fuel:
  assumes "s \<le> ustrlen b" "4 * (ustrlen b - s) + 5 \<le> Suc n"
    and pipe: "parsepipe n b (ustrlen b) s \<noteq> Fuel"
    and rec: "\<And>s. s \<le> ustrlen b \<Longrightarrow> 4 * (ustrlen b - s) + 5 \<le> n \<Longrightarrow> parseline n b (ustrlen b) s \<noteq> Fuel"
  shows "parseline (Suc n) b (ustrlen b) s \<noteq> Fuel"
proof -
  have "bindP (parse_backs n c b (ustrlen b) s1) (\<lambda>(c, s). let (more, s) = peek b (ustrlen b) [59] s in
      if more then bindP (parseline n b (ustrlen b) (behind b (ustrlen b) s)) (\<lambda>(r, s). Done (LIST c r, s)) else Done (c, s)) \<noteq> Fuel"
    if p: "parsepipe n b (ustrlen b) s = Done (c, s1)" for c s1
  proof -
    have s1: "s \<le> s1" "s1 \<le> ustrlen b" using parse_sound(2) [OF p assms(1)] by (auto simp: parsed_def)
    have tail: "(let (more, s) = peek b (ustrlen b) [59] s2 in
      if more then bindP (parseline n b (ustrlen b) (behind b (ustrlen b) s)) (\<lambda>(r, s). Done (LIST c2 r, s)) else Done (c2, s)) \<noteq> Fuel"
      if k: "parse_backs n c b (ustrlen b) s1 = Done (c2, s2)" for c2 s2
    proof -
      have s2: "s1 \<le> s2" "s2 \<le> ustrlen b" using backs_sound [OF k s1(2)] by simp_all
      show ?thesis
      proof (cases "starts [59] (lex b s2)")
        case True
        then obtain us where l: "lex b s2 = Sym 59 # us" by (rule starts_sym) auto
        note bs = behind_sym [OF s2(2) l]
        have "parseline n b (ustrlen b) (behind b (ustrlen b) (skip_ws b (ustrlen b) s2)) \<noteq> Fuel"
          by (rule rec) (use bs(2,3) s1(1) s2(1) assms(2) in linarith)+
        then show ?thesis using True s2(2) by (auto simp: bindP_Fuel)
      qed (use s2(2) in simp)
    qed
    have "parse_backs n c b (ustrlen b) s1 \<noteq> Fuel" by (rule backs_fuel [OF s1(2)]) (use s1(1) assms(2) in linarith)
    then show ?thesis using tail by (auto simp: bindP_Fuel)
  qed
  then show ?thesis using pipe by (auto simp: bindP_Fuel)
qed

lemma pipe_fuel:
  assumes "s \<le> ustrlen b" "4 * (ustrlen b - s) + 4 \<le> Suc n"
    and exec: "parseexec n b (ustrlen b) s \<noteq> Fuel"
    and rec: "\<And>s. s \<le> ustrlen b \<Longrightarrow> 4 * (ustrlen b - s) + 4 \<le> n \<Longrightarrow> parsepipe n b (ustrlen b) s \<noteq> Fuel"
  shows "parsepipe (Suc n) b (ustrlen b) s \<noteq> Fuel"
proof -
  have "(let (more, s) = peek b (ustrlen b) [124] s1 in
      if more then bindP (parsepipe n b (ustrlen b) (behind b (ustrlen b) s)) (\<lambda>(r, s). Done (PIPE c r, s)) else Done (c, s)) \<noteq> Fuel"
    if p: "parseexec n b (ustrlen b) s = Done (c, s1)" for c s1
  proof -
    have s1: "s \<le> s1" "s1 \<le> ustrlen b" using parse_sound(3) [OF p assms(1)] by (auto simp: parsed_def)
    show ?thesis
    proof (cases "starts [124] (lex b s1)")
      case True
      then obtain us where l: "lex b s1 = Sym 124 # us" by (rule starts_sym) auto
      note bs = behind_sym [OF s1(2) l]
      have "parsepipe n b (ustrlen b) (behind b (ustrlen b) (skip_ws b (ustrlen b) s1)) \<noteq> Fuel"
        by (rule rec) (use bs(2,3) s1(1) assms(2) in linarith)+
      then show ?thesis using True s1(2) by (auto simp: bindP_Fuel)
    qed (use s1(2) in simp)
  qed
  then show ?thesis using exec by (auto simp: bindP_Fuel)
qed

lemma exec_fuel:
  assumes "s \<le> ustrlen b" "4 * (ustrlen b - s) + 3 \<le> Suc n"
    and block: "parseblock n b (ustrlen b) (skip_ws b (ustrlen b) s) \<noteq> Fuel"
  shows "parseexec (Suc n) b (ustrlen b) s \<noteq> Fuel"
proof (cases "starts [40] (lex b s)")
  case False
  let ?s = "skip_ws b (ustrlen b) s"
  have s: "s \<le> ?s" "?s \<le> ustrlen b" "ustrlen b - ?s < n" using skip_bounds [OF assms(1)] assms(2) by linarith+
  have "parse_args n 0 c b (ustrlen b) s1 \<noteq> Fuel" if r: "parseredirs n execcmd b (ustrlen b) ?s = Done (c, s1)" for c s1
  proof -
    have "?s \<le> s1" "s1 \<le> ustrlen b" using redirs_sound [OF r s(2), where i = 0] by simp_all
    then show ?thesis using s(3) by (intro args_fuel) linarith+
  qed
  then show ?thesis using False assms(1) redirs_fuel [OF s(2,3)] by (auto simp: bindP_Fuel)
qed (use assms in simp)

lemma block_fuel:
  assumes "s \<le> ustrlen b" "4 * (ustrlen b - s) + 2 \<le> Suc n"
    and rec: "\<And>s. s \<le> ustrlen b \<Longrightarrow> 4 * (ustrlen b - s) + 5 \<le> n \<Longrightarrow> parseline n b (ustrlen b) s \<noteq> Fuel"
  shows "parseblock (Suc n) b (ustrlen b) s \<noteq> Fuel"
proof (cases "starts [40] (lex b s)")
  case True
  then obtain us where l: "lex b s = Sym 40 # us" by (rule starts_sym) auto
  let ?s = "behind b (ustrlen b) (skip_ws b (ustrlen b) s)"
  note bs = behind_sym [OF assms(1) l]
  have line: "parseline n b (ustrlen b) ?s \<noteq> Fuel" by (rule rec) (use bs(2,3) assms(2) in linarith)+
  have "(let (here, s) = peek b (ustrlen b) [41] s1 in if \<not> here then Abort ''syntax - missing )'' else parseredirs n c b (ustrlen b) (behind b (ustrlen b) s)) \<noteq> Fuel"
    if p: "parseline n b (ustrlen b) ?s = Done (c, s1)" for c s1
  proof -
    have s1: "?s \<le> s1" "s1 \<le> ustrlen b" using parse_sound(1) [OF p bs(3)] by (auto simp: parsed_def)
    show ?thesis
    proof (cases "starts [41] (lex b s1)")
      case True
      then obtain us where l: "lex b s1 = Sym 41 # us" by (rule starts_sym) auto
      note bs1 = behind_sym [OF s1(2) l]
      have "parseredirs n c b (ustrlen b) (behind b (ustrlen b) (skip_ws b (ustrlen b) s1)) \<noteq> Fuel"
        by (rule redirs_fuel [OF bs1(3)]) (use bs1(2,3) bs(2) s1(1) assms(2) in linarith)
      then show ?thesis using True s1(2) by simp
    qed (use s1(2) in simp)
  qed
  then show ?thesis using line True assms(1) by (auto simp: bindP_Fuel)
qed (use assms(1) in simp)

lemma parse_total:
  "s \<le> ustrlen b \<Longrightarrow> 4 * (ustrlen b - s) + 5 \<le> n \<Longrightarrow> parseline n b (ustrlen b) s \<noteq> Fuel"
  "s \<le> ustrlen b \<Longrightarrow> 4 * (ustrlen b - s) + 4 \<le> n \<Longrightarrow> parsepipe n b (ustrlen b) s \<noteq> Fuel"
  "s \<le> ustrlen b \<Longrightarrow> 4 * (ustrlen b - s) + 3 \<le> n \<Longrightarrow> parseexec n b (ustrlen b) s \<noteq> Fuel"
  "s \<le> ustrlen b \<Longrightarrow> 4 * (ustrlen b - s) + 2 \<le> n \<Longrightarrow> parseblock n b (ustrlen b) s \<noteq> Fuel"
proof (induction n arbitrary: s)
  case (Suc n)
  {
    case 1
    then show ?case by (rule line_fuel) (use 1 in \<open>intro Suc.IH(2); simp\<close>, rule Suc.IH(1))
  next
    case 2
    then show ?case by (rule pipe_fuel) (use 2 in \<open>intro Suc.IH(3); simp\<close>, rule Suc.IH(2))
  next
    case 3
    have "parseblock n b (ustrlen b) (skip_ws b (ustrlen b) s) \<noteq> Fuel" by (rule Suc.IH(4)) (use skip_bounds [OF 3(1)] 3(2) in linarith)+
    then show ?case by (rule exec_fuel [OF 3])
  next
    case 4
    then show ?case by (rule block_fuel) (rule Suc.IH(1))
  }
qed simp_all

section \<open>The strings\<close>

fun ends :: "cmd \<Rightarrow> nat set" where
  "ends (EXEC a ea) = {e. Some e \<in> set ea}"
| "ends (REDIR c f ef m fd) = insert ef (ends c)"
| "ends (PIPE l r) = ends l \<union> ends r"
| "ends (LIST l r) = ends l \<union> ends r"
| "ends (BACK c) = ends c"

lemma arr_update: "arr (b[e := 0]) i = (if i = e then 0 else arr b i)"
  by (simp add: arr_def nth_list_update)

lemma nul_args_arr:
  "arr (nul_args (map (Some \<circ> fst) ws @ replicate k None) (map (Some \<circ> snd) ws @ replicate k None) b) i = (if i \<in> snd ` set ws then 0 else arr b i)"
proof (induction ws arbitrary: b)
  case Nil
  then show ?case by (cases k) auto
qed (auto simp: arr_update)

lemma nulterminate_arr: "cmd_ok b0 c \<Longrightarrow> arr (nulterminate c b) i = (if i \<in> ends c then 0 else arr b i)"
proof (induction c arbitrary: b)
  case (EXEC a ea)
  then show ?case by (fastforce simp: args_ok_def nul_args_arr)
qed (auto simp: arr_update)

lemma ends_delimit: "cmd_ok b c \<Longrightarrow> e \<in> ends c \<Longrightarrow> \<not> word_char (arr b e)"
proof (induction c)
  case (EXEC a ea)
  then show ?case by (fastforce simp: args_ok_def list_all_iff word_at_def)
qed (auto simp: word_at_def)

lemma cbytes_slice:
  "q \<le> e \<Longrightarrow> (\<And>i. q \<le> i \<Longrightarrow> i < e \<Longrightarrow> arr m i \<noteq> 0) \<Longrightarrow> arr m e = 0 \<Longrightarrow> cbytes (drop q m) = slice m q e"
proof (induction "e - q" arbitrary: q)
  case 0
  then have "q = e" by simp
  then show ?case using 0(4) by (cases "e < length m") (auto simp: cbytes_def slice_def arr_def Cons_nth_drop_Suc [symmetric])
next
  case (Suc d)
  then have q: "q < e" by simp
  have nz: "arr m q \<noteq> 0" using Suc.prems(2) [of q] q by simp
  then have lt: "q < length m" by (auto simp: arr_def split: if_splits)
  have "cbytes (drop (Suc q) m) = slice m (Suc q) e" by (rule Suc.hyps(1)) (use Suc.hyps(2) Suc.prems q in auto)
  then have "cbytes (drop q m) = arr m q # slice m (Suc q) e" using nz lt by (simp add: cbytes_def arr_def Cons_nth_drop_Suc [symmetric])
  then show ?case using q by (simp add: slice_def upt_conv_Cons)
qed

lemma word_string:
  assumes "cmd_ok b c" "word_at b q e" "e \<in> ends c"
  shows "cbytes (drop q (nulterminate c b)) = slice b q e"
proof -
  let ?m = "nulterminate c b"
  have same: "arr ?m i = arr b i \<and> arr b i \<noteq> 0" if "q \<le> i" "i < e" for i
  proof -
    have "word_char (arr b i)" using assms(2) that by (auto simp: word_at_def slice_def)
    then show ?thesis using ends_delimit [OF assms(1), of i] nulterminate_arr [OF assms(1), of b i] by (auto simp: word_char_def)
  qed
  have "arr ?m e = 0" using nulterminate_arr [OF assms(1), of b e] assms(3) by simp
  moreover have "q \<le> e" using assms(2) by (simp add: word_at_def)
  ultimately have "cbytes (drop q ?m) = slice ?m q e" using same by (intro cbytes_slice) auto
  then show ?thesis using same by (simp add: slice_def)
qed

lemma strings_text: "cmd_ok b c0 \<Longrightarrow> cmd_ok b c \<Longrightarrow> ends c \<subseteq> ends c0 \<Longrightarrow> strings_of (nulterminate c0 b) c = text_of b c"
proof (induction c)
  case (EXEC a ea)
  then obtain n ws where ws: "a = map (Some \<circ> fst) ws @ replicate (MAXARGS - n) None" "ea = map (Some \<circ> snd) ws @ replicate (MAXARGS - n) None"
    "list_all (\<lambda>(q, e). word_at b q e) ws" by (auto simp: args_ok_def)
  have "arg_strings (nulterminate c0 b) (map (Some \<circ> fst) us @ replicate k None) = map (\<lambda>(q, e). slice b q e) us" if "set us \<subseteq> set ws" for us k
    using that
  proof (induction us)
    case Nil
    then show ?case by (cases k) simp_all
  next
    case (Cons w us)
    obtain q e where w: "w = (q, e)" by (cases w)
    have "word_at b q e" "e \<in> ends c0" using Cons.prems ws(3) EXEC.prems(3) unfolding w ws(2) by (force simp: list_all_iff)+
    then show ?case using Cons word_string [OF EXEC.prems(1)] by (simp add: w)
  qed
  then show ?case using arg_texts_ok [of b ws "MAXARGS - n"] by (simp add: ws(1,2))
qed (auto simp: word_string)

text \<open>The tokens of a line.\<close>

definition tokens :: "cstr \<Rightarrow> tok list" where
  "tokens b = lex b 0"

lemma lex_end: "s \<le> ustrlen b \<Longrightarrow> lex b s = [] \<longleftrightarrow> skip_ws b (ustrlen b) s = ustrlen b"
  by (rule lex_cases [of s b]) (auto simp: word_at_def split: if_splits)

lemma parsecmd_sound:
  assumes "parsecmd b = Done (c, m)"
  shows "g_line (strings_of m c) (tokens b)"
proof -
  obtain c' s where s: "parseline (parse_fuel (ustrlen b)) b (ustrlen b) 0 = Done (c', s)"
    and f: "(let (_, s) = peek b (ustrlen b) [] s in if s \<noteq> ustrlen b then Abort ''syntax'' else Done (c', nulterminate c' b)) = Done (c, m)"
    using assms unfolding parsecmd_def Let_def bindP_Done by auto
  have s0: "s \<le> ustrlen b" using parse_sound(1) [OF s] by (simp add: parsed_def)
  have e: "skip_ws b (ustrlen b) s = ustrlen b" "m = nulterminate c b" "c' = c" using f s0 by (auto split: if_splits)
  obtain ts where P: "s \<le> ustrlen b" "cmd_ok b c" "lex b 0 = ts @ lex b s" "g_line (text_of b c) ts" using parse_sound(1) [OF s] e(3) by (auto simp: parsed_def)
  from e(1,2)  show ?thesis using P strings_text [OF P(2,2)] lex_end [OF P(1)] by (simp add: tokens_def)
qed

lemma parsecmd_complete:
  assumes "g_line sc (tokens b)"
  shows "\<exists>c m. parsecmd b = Done (c, m) \<and> strings_of m c = sc"
proof -
  have "accepts parseline b 0 sc []" by (rule parse_complete(1) [OF assms]) (simp_all add: tokens_def follow_def)
  then obtain c s where s: "parseline (parse_fuel (ustrlen b)) b (ustrlen b) 0 = Done (c, s)" "lex b s = []" "s \<le> ustrlen b" "text_of b c = sc"
    using parse_total(1) [of 0 b "parse_fuel (ustrlen b)"] by (auto simp: accepts_def parse_fuel_def)
  have ok: "cmd_ok b c" using parse_sound(1) [OF s(1)] by (simp add: parsed_def)
  have "parsecmd b = Done (c, nulterminate c b)" using s(1-3) lex_end [OF s(3)] by (simp add: parsecmd_def)
  then show ?thesis using strings_text [OF ok ok] s(4) by simp
qed

text \<open>C39: \<open>parsecmd\<close> returns on every buffer. If it returns a command, then the command, read through its pointers in the buffer that \<open>nulterminate\<close>
  has cut into strings, is the only one that the grammar of the shell derives for the tokens of the line, as \<open>gettoken\<close> cuts them; if it panics, the grammar derives none.\<close>

theorem parsecmd_correct:
  "case parsecmd b of
     Done (c, m) \<Rightarrow> (\<forall>sc. g_line sc (tokens b) \<longleftrightarrow> sc = strings_of m c)
   | Abort e \<Rightarrow> (\<forall>sc. \<not> g_line sc (tokens b))
   | Fuel \<Rightarrow> False"
proof (cases "parsecmd b")
  case (Done x)
  obtain c m where x: "x = (c, m)" by (cases x)
  have "g_line sc (tokens b) \<longleftrightarrow> sc = strings_of m c" for sc
    using parsecmd_sound [of b c m] parsecmd_complete [of sc b] Done x by auto
  then show ?thesis using Done x by simp
next
  case (Abort e)
  then show ?thesis using parsecmd_complete [of _ b] by fastforce
next
  case Fuel
  have "parseline (parse_fuel (ustrlen b)) b (ustrlen b) 0 \<noteq> Fuel" by (rule parse_total(1)) (simp_all add: parse_fuel_def)
  then have "parsecmd b \<noteq> Fuel" unfolding parsecmd_def Let_def bindP_Fuel by (auto simp: peek_def Let_def split: prod.splits if_splits)
  then show ?thesis using Fuel by blast
qed

end
