(* ===== verification/Sh.thy ===== *)
theory Sh
  imports ShParse
begin

text \<open>
  user/sh.c: running a parsed command, and the loop of the shell. What a process does is a tree: the system calls that end it or create
  another process, or wait for one, are the nodes, and the descriptor table is carried along. A descriptor table is a list of open files; a new descriptor is the
  lowest free one, as in \<open>fdalloc\<close>. The record \<open>answers\<close> has the results of the system calls that may fail, by the position of the command in the
  line; \<open>console_ok\<close> has those of the calls of \<open>open\<close> at the start of the shell, in their order.

  Main result: \<open>shell_wiring\<close>, a line of the language of the shell starts its programs with exactly the descriptors that the line describes, and
  the shells that wait for them hold no end of a pipe.
\<close>

section \<open>Descriptors\<close>

datatype fobj = Opened cstr int | PipeRead "nat list" | PipeWrite "nat list" | Inherited nat

type_synonym fdtab = "fobj option list"

definition fd_alloc :: "fobj \<Rightarrow> fdtab \<Rightarrow> (nat \<times> fdtab) option" where
  "fd_alloc f t =
     (case find_slot (\<lambda>x. x = None) t of
        None \<Rightarrow> None
      | Some fd \<Rightarrow> Some (fd, t[fd := Some f]))"

text \<open>This is what the kernel does to the table of a process.\<close>

lemma fd_alloc_kernel:
  "fst (fdalloc p f s) = map_option fst (fd_alloc (Inherited f) (map (map_option Inherited) (p_ofile (proc_at s p))))"
proof -
  have "find_slot (\<lambda>x. x = None) (map (map_option Inherited) xs) = find_slot (\<lambda>x. x = None) xs" for xs by (induction xs) auto
  then show ?thesis by (simp add: fdalloc_def fd_alloc_def split: option.splits)
qed

definition fd_close :: "nat \<Rightarrow> fdtab \<Rightarrow> fdtab" where
  "fd_close fd t = t[fd := None]"

definition fd_dup :: "nat \<Rightarrow> fdtab \<Rightarrow> fdtab" where
  "fd_dup fd t =
     (if fd < length t then
        (case t ! fd of
           None \<Rightarrow> t
         | Some f \<Rightarrow> (case fd_alloc f t of None \<Rightarrow> t | Some (_, t) \<Rightarrow> t))
      else t)"

definition fd_pipe :: "nat list \<Rightarrow> fdtab \<Rightarrow> (nat \<times> nat \<times> fdtab) option" where
  "fd_pipe pos t =
     (case fd_alloc (PipeRead pos) t of
        None \<Rightarrow> None
      | Some (fd0, t) \<Rightarrow>
          (case fd_alloc (PipeWrite pos) t of
             None \<Rightarrow> None
           | Some (fd1, t) \<Rightarrow> Some (fd0, fd1, t)))"

section \<open>Running a command\<close>

record answers =
  fork_ok :: "nat list \<Rightarrow> nat \<Rightarrow> bool"
  pipe_ok :: "nat list \<Rightarrow> bool"
  open_ok :: "nat list \<Rightarrow> bool"
  exec_ok :: "nat list \<Rightarrow> bool"
  chdir_ok :: "cstr \<Rightarrow> bool"
  console_ok :: "nat \<Rightarrow> bool"

datatype run =
  Exit int
| Exec "cstr list" fdtab
| Message string run
| Fork run run
| Wait fdtab run
| Chdir cstr run

definition sh_panic :: "string \<Rightarrow> run" where
  "sh_panic e = Message e (Exit 1)"

definition fork1 :: "answers \<Rightarrow> nat list \<Rightarrow> nat \<Rightarrow> run \<Rightarrow> run \<Rightarrow> run" where
  "fork1 w pos i ch pa = (if fork_ok w pos i then Fork ch pa else sh_panic ''fork'')"

fun runcmd :: "answers \<Rightarrow> cstr \<Rightarrow> nat list \<Rightarrow> cmd \<Rightarrow> fdtab \<Rightarrow> run" where
  "runcmd w m pos (EXEC a ea) t =
     (case arg_strings m a of
        [] \<Rightarrow> Exit 1
      | args \<Rightarrow> if exec_ok w pos then Exec args t else Message ''exec failed'' (Exit 0))"
| "runcmd w m pos (REDIR c f ef md fd) t =
     (let t = fd_close (nat fd) t in
      case fd_alloc (Opened (cbytes (drop f m)) md) t of
        None \<Rightarrow> Message ''open failed'' (Exit 1)
      | Some (_, t) \<Rightarrow>
          if open_ok w pos then runcmd w m (0 # pos) c t else Message ''open failed'' (Exit 1))"
| "runcmd w m pos (LIST l r) t = fork1 w pos 0 (runcmd w m (0 # pos) l t) (Wait t (runcmd w m (1 # pos) r t))"
| "runcmd w m pos (PIPE l r) t =
     (if \<not> pipe_ok w pos then sh_panic ''pipe''
      else
        (case fd_pipe pos t of
           None \<Rightarrow> sh_panic ''pipe''
         | Some (p0, p1, t) \<Rightarrow>
             fork1 w pos 0 (runcmd w m (0 # pos) l (fd_close p1 (fd_close p0 (fd_dup p1 (fd_close 1 t)))))
               (fork1 w pos 1 (runcmd w m (1 # pos) r (fd_close p1 (fd_close p0 (fd_dup p0 (fd_close 0 t)))))
                 (let t = fd_close p1 (fd_close p0 t) in Wait t (Wait t (Exit 0))))))"
| "runcmd w m pos (BACK c) t = fork1 w pos 0 (runcmd w m (0 # pos) c t) (Exit 0)"

section \<open>The loop\<close>

lemma open_console_less:
  assumes "find_slot (\<lambda>x. x = None) t = Some fd"
  shows "length (filter (\<lambda>x. x = None) (t[fd := Some v])) < length (filter (\<lambda>x. x = None) t)"
proof -
  have fd: "fd < length t" "t ! fd = None" using find_slot_SomeD [OF assms] by auto
  have e: "t = take fd t @ None # drop (Suc fd) t" using id_take_nth_drop [OF fd(1)] unfolding fd(2) .
  have "filter (\<lambda>x. x = None) t = filter (\<lambda>x. x = None) (take fd t) @ None # filter (\<lambda>x. x = None) (drop (Suc fd) t)"
    using arg_cong [OF e, of "filter (\<lambda>x. x = None)"] by simp
  moreover have "t[fd := Some v] = take fd t @ Some v # drop (Suc fd) t" using fd(1) by (simp add: upd_conv_take_nth_drop)
  ultimately show ?thesis by simp
qed

function open_console :: "(nat \<Rightarrow> bool) \<Rightarrow> nat \<Rightarrow> fdtab \<Rightarrow> fdtab" where
  "open_console ok k t =
     (if \<not> ok k then t
      else
        (case find_slot (\<lambda>x. x = None) t of
           None \<Rightarrow> t
         | Some fd \<Rightarrow>
             let t = t[fd := Some (Opened [99, 111, 110, 115, 111, 108, 101] O_RDWR)] in
             if 3 \<le> fd then fd_close fd t else open_console ok (Suc k) t))"
  by pat_completeness auto
termination
  by (relation "measure (\<lambda>(ok, k, t). length (filter (\<lambda>x. x = None) t))") (auto intro: open_console_less)

declare open_console.simps [simp del]

definition getcmd :: "uint8 list \<Rightarrow> cstr \<times> uint8 list" where
  "getcmd inp = (case gets 100 inp of (bs, inp) \<Rightarrow> (bs @ replicate (100 - length bs) 0, inp))"

definition run_line :: "answers \<Rightarrow> nat list \<Rightarrow> cstr \<Rightarrow> fdtab \<Rightarrow> run" where
  "run_line w pos b t =
     (case parsecmd b of
        Done (c, m) \<Rightarrow> runcmd w m pos c t
      | Abort e \<Rightarrow> sh_panic e
      | Fuel \<Rightarrow> Exit 1)"

lemma gets_rest: "gets_loop k i inp = (bs, rest) \<Longrightarrow> inp = bs @ rest"
proof (induction k i inp arbitrary: bs rest rule: gets_loop.induct)
  case (1 k i inp)
  then show ?case by (subst (asm) gets_loop.simps) (auto split: if_splits list.splits prod.splits)
qed

lemma getcmd_shorter: "(b, rest) = getcmd inp \<Longrightarrow> chr b \<noteq> 0 \<Longrightarrow> length rest < length inp"
  by (auto simp: getcmd_def gets_def Let_def split: prod.splits dest!: gets_rest)

function sh_loop :: "answers \<Rightarrow> nat \<Rightarrow> uint8 list \<Rightarrow> fdtab \<Rightarrow> run" where
  "sh_loop w i inp t =
     (case getcmd inp of (b, inp) \<Rightarrow>
        if chr b = 0 then Exit 0
        else if take 3 b = [99, 100, 32] then
          let b = b[ustrlen b - 1 := 0]; d = cbytes (drop 3 b) in
          Chdir d (if chdir_ok w d then sh_loop w (Suc i) inp t else Message ''cannot cd'' (sh_loop w (Suc i) inp t))
        else fork1 w [i] 2 (run_line w [i] b t) (Wait t (sh_loop w (Suc i) inp t)))"
  by pat_completeness auto
termination
  by (relation "measure (\<lambda>(w, i, inp, t). length inp)") (auto intro: getcmd_shorter)

declare sh_loop.simps [simp del]

definition sh_main :: "answers \<Rightarrow> uint8 list \<Rightarrow> fdtab \<Rightarrow> run" where
  "sh_main w inp t = sh_loop w 0 inp (open_console (console_ok w) 0 t)"

section \<open>Which programs run, with which descriptors\<close>

fun programs :: "run \<Rightarrow> (cstr list \<times> fdtab) list" where
  "programs (Exit n) = []"
| "programs (Exec args t) = [(args, t)]"
| "programs (Message e r) = programs r"
| "programs (Fork c r) = programs c @ programs r"
| "programs (Wait t r) = programs r"
| "programs (Chdir d r) = programs r"

text \<open>The descriptor tables of the shells that wait, at each call of \<open>wait\<close>.\<close>

fun waits :: "run \<Rightarrow> fdtab list" where
  "waits (Exit n) = []"
| "waits (Exec args t) = []"
| "waits (Message e r) = waits r"
| "waits (Fork c r) = waits c @ waits r"
| "waits (Wait t r) = t # waits r"
| "waits (Chdir d r) = waits r"

fun wiring :: "nat list \<Rightarrow> scmd \<Rightarrow> fdtab \<Rightarrow> (cstr list \<times> fdtab) list" where
  "wiring pos (SExec args) t = (if args = [] then [] else [(args, t)])"
| "wiring pos (SRedir c f md fd) t = wiring (0 # pos) c (t[nat fd := Some (Opened f md)])"
| "wiring pos (SPipe l r) t = wiring (0 # pos) l (t[1 := Some (PipeWrite pos)]) @ wiring (1 # pos) r (t[0 := Some (PipeRead pos)])"
| "wiring pos (SList l r) t = wiring (0 # pos) l t @ wiring (1 # pos) r t"
| "wiring pos (SBack c) t = wiring (0 # pos) c t"

fun waiting :: "nat list \<Rightarrow> scmd \<Rightarrow> fdtab \<Rightarrow> fdtab list" where
  "waiting pos (SExec args) t = []"
| "waiting pos (SRedir c f md fd) t = waiting (0 # pos) c (t[nat fd := Some (Opened f md)])"
| "waiting pos (SPipe l r) t = waiting (0 # pos) l (t[1 := Some (PipeWrite pos)]) @ waiting (1 # pos) r (t[0 := Some (PipeRead pos)]) @ [t, t]"
| "waiting pos (SList l r) t = waiting (0 # pos) l t @ t # waiting (1 # pos) r t"
| "waiting pos (SBack c) t = waiting (0 # pos) c t"

definition all_ok :: "answers \<Rightarrow> bool" where
  "all_ok w \<longleftrightarrow> (\<forall>pos i. fork_ok w pos i \<and> pipe_ok w pos \<and> open_ok w pos \<and> exec_ok w pos)"

text \<open>Descriptors 0 and 1 are open, and two descriptors are free.\<close>

definition fds_ready :: "fdtab \<Rightarrow> bool" where
  "fds_ready t \<longleftrightarrow> (\<exists>a b. 2 \<le> a \<and> a < b \<and> b < length t \<and> t ! a = None \<and> t ! b = None) \<and> t ! 0 \<noteq> None \<and> t ! 1 \<noteq> None"

lemma fds_ready_update:
  assumes "fds_ready t" "i < 2"
  shows "fds_ready (t[i := Some f])"
proof -
  obtain a b where ab: "2 \<le> a" "a < b" "b < length t" "t ! a = None" "t ! b = None" "t ! 0 \<noteq> None" "t ! 1 \<noteq> None" using assms(1) by (auto simp: fds_ready_def)
  then have "t[i := Some f] ! a = None" "t[i := Some f] ! b = None" using assms(2) by simp_all
  moreover have "i < length t" using ab(1-3) assms(2) by linarith
  then have "t[i := Some f] ! 0 \<noteq> None" "t[i := Some f] ! 1 \<noteq> None" using ab(6,7) by (simp_all add: nth_list_update)
  ultimately show ?thesis unfolding fds_ready_def using ab(1-3) by (metis length_list_update)
qed

lemma fds_ready_low:
  assumes "fds_ready t" "j < 2"
  shows "t ! j \<noteq> None"
proof -
  have "t ! 0 \<noteq> None" "t ! 1 \<noteq> None" using assms(1) by (simp_all add: fds_ready_def)
  moreover have "j = 0 \<or> j = 1" using assms(2) by linarith
  ultimately show ?thesis by metis
qed

fun redirs_std :: "scmd \<Rightarrow> bool" where
  "redirs_std (SExec args) \<longleftrightarrow> True"
| "redirs_std (SRedir c f md fd) \<longleftrightarrow> (fd = 0 \<or> fd = 1) \<and> redirs_std c"
| "redirs_std (SPipe l r) \<longleftrightarrow> redirs_std l \<and> redirs_std r"
| "redirs_std (SList l r) \<longleftrightarrow> redirs_std l \<and> redirs_std r"
| "redirs_std (SBack c) \<longleftrightarrow> redirs_std c"

lemma wrap_std: "redirs_std c \<Longrightarrow> redirs_std (foldl wrap c items)"
proof (induction items arbitrary: c)
  case (Cons i items)
  then show ?case by (cases i) auto
qed simp

lemma grammar_std:
  "g_line c ts \<Longrightarrow> redirs_std c" "g_pipe c ts \<Longrightarrow> redirs_std c" "g_exec c ts \<Longrightarrow> redirs_std c"
proof (induction rule: g_line_g_pipe_g_exec.inducts)
  case (line_end c ts k)
  then show ?case by (induction k) simp_all
next
  case (line c ts d us k)
  have "redirs_std ((SBack ^^ k) c)" using line(3) by (induction k) simp_all
  then show ?case using line(4) by simp
qed (auto simp: simple_cmd_def intro!: wrap_std)

lemma pipe_fds:
  assumes "fds_ready t"
  obtains a b where "fd_pipe pos t = Some (a, b, t[a := Some (PipeRead pos), b := Some (PipeWrite pos)])" "2 \<le> a" "a < b" "b < length t" "t ! a = None" "t ! b = None"
proof -
  obtain x y where xy: "2 \<le> x" "x < y" "y < length t" "t ! x = None" "t ! y = None" "t ! 0 \<noteq> None" "t ! 1 \<noteq> None" using assms by (auto simp: fds_ready_def)
  have "\<exists>z \<in> set t. z = None" using xy by (metis less_trans nth_mem)
  then obtain a where a: "find_slot (\<lambda>z. z = None) t = Some a" using find_slot_None [of "\<lambda>z. z = None" t] by (cases "find_slot (\<lambda>z. z = None) t") auto
  have a': "a < length t" "t ! a = None" "\<forall>j < a. t ! j \<noteq> None" using find_slot_Some [OF a] by auto
  have a2: "2 \<le> a" using xy(6,7) a'(2) by (metis One_nat_def less_2_cases not_le)
  let ?t = "t[a := Some (PipeRead pos)]"
  have "\<exists>z \<in> set ?t. z = None" using xy a'(1) by (metis length_list_update less_trans nat_neq_iff nth_list_update_neq nth_mem)
  then obtain b where b: "find_slot (\<lambda>z. z = None) ?t = Some b" using find_slot_None [of "\<lambda>z. z = None" ?t] by (cases "find_slot (\<lambda>z. z = None) ?t") auto
  have b': "b < length t" "?t ! b = None" using find_slot_Some [OF b] by auto
  have ne: "b \<noteq> a" using b'(2) a'(1) by auto
  then have tb: "t ! b = None" using b'(2) by simp
  then have "a < b" using a'(3) ne by (metis linorder_neqE_nat)
  moreover have "fd_pipe pos t = Some (a, b, ?t[b := Some (PipeWrite pos)])" by (simp add: fd_pipe_def fd_alloc_def a b)
  ultimately show ?thesis using that [of a b] a2 b'(1) a'(2) tb by simp
qed

lemma fd_alloc_at:
  assumes "i < length t" "t ! i = None" "\<And>j. j < i \<Longrightarrow> t ! j \<noteq> None"
  shows "fd_alloc f t = Some (i, t[i := Some f])"
proof -
  have "find_slot (\<lambda>z. z = None) t = Some i" by (rule find_slot_least) (use assms in auto)
  then show ?thesis by (simp add: fd_alloc_def)
qed

lemma redir_fds:
  assumes "fds_ready t" "i < 2"
  shows "fd_alloc f (fd_close i t) = Some (i, t[i := Some f])"
proof -
  have "i < length t" using assms by (auto simp: fds_ready_def)
  moreover have "t ! j \<noteq> None" if "j < i" for j using fds_ready_low [OF assms(1), of j] that assms(2) by simp
  ultimately have "fd_alloc f (t[i := None]) = Some (i, t[i := None, i := Some f])" using assms(2) by (intro fd_alloc_at) auto
  then show ?thesis by (simp add: fd_close_def)
qed

lemma child_fds:
  assumes "fds_ready t" "2 \<le> a" "a < b" "b < length t" "t ! a = None" "t ! b = None" "i < 2" "fd = a \<and> f = r \<or> fd = b \<and> f = w"
  shows "fd_close b (fd_close a (fd_dup fd (fd_close i (t[a := Some r, b := Some w])))) = t[i := Some f]"
proof -
  let ?t = "t[a := Some r, b := Some w]"
  have ne: "i \<noteq> a" "i \<noteq> b" "a \<noteq> b" "i < length t" using assms(2-4,7) by simp_all
  have "fd_alloc f (?t[i := None]) = Some (i, ?t[i := None, i := Some f])"
  proof (rule fd_alloc_at)
    fix j assume "j < i"
    then show "?t[i := None] ! j \<noteq> None" using fds_ready_low [OF assms(1), of j] assms(2,3,7) by simp
  qed (use ne in simp_all)
  moreover have "?t[i := None] ! fd = Some f" "fd < length t" using assms(8) ne assms(3,4) by auto
  ultimately have "fd_dup fd (fd_close i ?t) = ?t[i := Some f]" by (simp add: fd_dup_def fd_close_def)
  then have "fd_close b (fd_close a (fd_dup fd (fd_close i ?t))) = ?t[i := Some f, a := None, b := None]" by (simp add: fd_close_def)
  also have "\<dots> = t[i := Some f]"
    by (rule nth_equalityI) (use ne assms(3-6) in \<open>auto simp: nth_list_update\<close>)
  finally show ?thesis .
qed

lemma parent_fds:
  assumes "a < b" "b < length t" "t ! a = None" "t ! b = None"
  shows "fd_close b (fd_close a (t[a := Some r, b := Some w])) = t"
  unfolding fd_close_def by (rule nth_equalityI) (use assms in \<open>auto simp: nth_list_update\<close>)

lemma runcmd_wiring:
  "all_ok w \<Longrightarrow> fds_ready t \<Longrightarrow> redirs_std (strings_of m c) \<Longrightarrow>
    programs (runcmd w m pos c t) = wiring pos (strings_of m c) t \<and> waits (runcmd w m pos c t) = waiting pos (strings_of m c) t"
proof (induction c arbitrary: t pos)
  case (EXEC a ea)
  then show ?case by (auto simp: all_ok_def split: list.splits)
next
  case (REDIR c f ef md fd)
  then have fd: "nat fd < 2" by auto
  have "fd_alloc (Opened (cbytes (drop f m)) md) (fd_close (nat fd) t) = Some (nat fd, t[nat fd := Some (Opened (cbytes (drop f m)) md)])"
    by (rule redir_fds [OF REDIR.prems(2) fd])
  then show ?case using REDIR fds_ready_update [OF REDIR.prems(2) fd] by (simp add: all_ok_def)
next
  case (PIPE l r)
  obtain a b where p: "fd_pipe pos t = Some (a, b, t[a := Some (PipeRead pos), b := Some (PipeWrite pos)])" "2 \<le> a" "a < b" "b < length t" "t ! a = None" "t ! b = None"
    using pipe_fds [OF PIPE.prems(2)] by metis
  note ch = child_fds [OF PIPE.prems(2) p(2-6)]
  show ?case using PIPE fds_ready_update [OF PIPE.prems(2), of 0] fds_ready_update [OF PIPE.prems(2), of 1] p(1)
      ch [of 1 b "PipeWrite pos" "PipeRead pos" "PipeWrite pos"] ch [of 0 a "PipeRead pos" "PipeRead pos" "PipeWrite pos"] parent_fds [OF p(3-6)]
    by (simp add: all_ok_def fork1_def Let_def)
qed (auto simp: all_ok_def fork1_def)

text \<open>C40: if no system call fails, a line of the language of the shell starts exactly the programs of its (unique) derivation, from left to right, each with
  the descriptor table the line describes: redirections and pipe ends in place of standard input and output, all other descriptors
  inherited, and no end of a pipe left open. Each shell that waits for programs of the line does so with the table it was started with, so that no
  waiting shell keeps a pipe open.\<close>

theorem shell_wiring:
  assumes "g_line sc (tokens b)" "all_ok w" "fds_ready t"
  shows "programs (run_line w pos b t) = wiring pos sc t \<and> waits (run_line w pos b t) = waiting pos sc t"
proof -
  obtain c m where p: "parsecmd b = Done (c, m)" "strings_of m c = sc" using parsecmd_complete [OF assms(1)] by blast
  then show ?thesis using runcmd_wiring [OF assms(2,3), of m c pos] grammar_std(1) [OF assms(1)] by (simp add: run_line_def)
qed

definition line_example :: cstr where "line_example = [97, 124, 98]"

definition fds_example :: fdtab where
  "fds_example = [Some (Inherited 0), Some (Inherited 1), Some (Inherited 2), None, None]"

definition answers_example :: answers where
  "answers_example = \<lparr>fork_ok = \<lambda>_ _. True, pipe_ok = \<lambda>_. True, open_ok = \<lambda>_. True, exec_ok = \<lambda>_. True, chdir_ok = \<lambda>_. True, console_ok = \<lambda>_. True\<rparr>"

lemma line_example_tokens: "tokens line_example = [Word [97], Sym 124, Word [98]]"
proof -
  have n: "ustrlen [97, 124, 98] = 3" by (simp add: ustrlen_eq cbytes_def)
  show ?thesis
    by (simp add: line_example_def tokens_def lex.simps n gettoken_def skip_ws.simps skip_word.simps arr_def slice_def tok_of_def upt_rec)
qed

theorem shell_wiring_witness:
  "g_line (SPipe (SExec [[97]]) (SExec [[98]])) (tokens line_example) \<and> all_ok answers_example \<and> fds_ready fds_example \<and>
   programs (run_line answers_example [] line_example fds_example) =
     [([[97]], [Some (Inherited 0), Some (PipeWrite []), Some (Inherited 2), None, None]),
      ([[98]], [Some (PipeRead []), Some (Inherited 1), Some (Inherited 2), None, None])] \<and>
   waits (run_line answers_example [] line_example fds_example) = [fds_example, fds_example]"
proof -
  have e: "g_exec (SExec [w]) [Word w]" for w using simple [of "[Arg w]"] by (simp add: simple_cmd_def MAXARGS_def)
  have g: "g_line (SPipe (SExec [[97]]) (SExec [[98]])) (tokens line_example)"
    using line_end [OF pipe [OF e pipe_end [OF e]], of 0 "[97]" "[98]"] by (simp add: line_example_tokens)
  have a: "all_ok answers_example" by (simp add: all_ok_def answers_example_def)
  have f: "fds_ready fds_example" unfolding fds_ready_def fds_example_def by (intro conjI exI [of _ 3] exI [of _ 4]) simp_all
  show ?thesis using g a f shell_wiring [OF g a f, of "[]"] by (simp add: fds_example_def)
qed

text \<open>The shell begins with descriptors 0, 1 and 2 open, if the calls of \<open>open\<close> succeed, and in any case with all others as they were.\<close>

lemma open_console_fds:
  "3 \<le> length t \<Longrightarrow> length (open_console ok k t) = length t \<and> ((\<exists>n. \<not> ok n) \<or> (\<forall>i < 3. open_console ok k t ! i \<noteq> None)) \<and>
    (\<forall>i \<ge> 3. open_console ok k t ! i = t ! i)"
proof (induction ok k t rule: open_console.induct)
  case (1 ok k t)
  show ?case
  proof (cases "ok k \<and> find_slot (\<lambda>x. x = None) t \<noteq> None")
    case False
    then have e: "open_console ok k t = t" by (subst open_console.simps) (auto split: option.splits)
    have "t ! i \<noteq> None" if "\<forall>n. ok n" "i < 3" for i
      using that False 1(2) find_slot_None [of "\<lambda>x. x = None" t] nth_mem [of i t] by auto
    then show ?thesis unfolding e by blast
  next
    case True
    then obtain fd where Some: "find_slot (\<lambda>x. x = None) t = Some fd" and ok: "\<not> \<not> ok k" by auto
    let ?t = "t[fd := Some (Opened [99, 111, 110, 115, 111, 108, 101] O_RDWR)]"
    have fd: "fd < length t" "t ! fd = None" "\<forall>j < fd. t ! j \<noteq> None" using find_slot_Some [OF Some] by auto
    show ?thesis
    proof (cases "3 \<le> fd")
      case True
      then have "open_console ok k t = ?t[fd := None]" using Some ok by (subst open_console.simps) (simp add: fd_close_def)
      also have "\<dots> = t" using fd(2) by (metis list_update_id list_update_overwrite)
      finally have e: "open_console ok k t = t" .
      show ?thesis unfolding e using fd(3) True by simp
    next
      case False
      then have e: "open_console ok k t = open_console ok (Suc k) ?t" using Some ok by (subst open_console.simps) simp
      show ?thesis unfolding e using 1(1) [OF ok Some refl False] 1(2) False by simp
    qed
  qed
qed

end
