(* ===== verification/Spec2Isabelle.thy ===== *)
theory Spec2Isabelle
  imports VmFork FsFiles Syscall Ulib Grep Console Sched Virtio Umalloc Sh
begin

text \<open>
  A verification of xv6-riscv, a small Unix for RISC-V multiprocessors (src/kernel, src/user).

  \<^bold>\<open>The program.\<close> The kernel is layered: the physical page allocator (kalloc.c), page tables and address spaces
  (vm.c), processes, scheduling and sleeping (proc.c, spinlock.c, sleeplock.c), the disk driver and the buffer cache
  (virtio_disk.c, bio.c), the write-ahead log (log.c), the file system (fs.c), pipes and open files (pipe.c, file.c), the
  console (uart.c, console.c, printf.c), exec and system calls (exec.c, syscall.c, sysfile.c, sysproc.c). User programs use
  the library user/ulib.c and user/printf.c; grep and the shell are two of them.

  \<^bold>\<open>State.\<close> The global variables of the kernel are one record per component, each extending the one below:
  \<open>kmem_st\<close> (memory, free list), \<open>proc_st\<close> (process table, harts, ticks), \<open>bio_st\<close> (disk, buffers), \<open>log_st\<close>,
  \<open>fs_st\<close> (super block, inode table), \<open>pipe_st\<close>, \<open>file_st\<close>, \<open>uart_st\<close>, \<open>cons_st\<close>; an operation of a component works on every
  extension of its record, so the components compose without lifting. A pointer to an entry of a static table is its index; pages are addresses
  of a byte-addressed memory. A function that can panic, sleep or diverge returns \<open>('a, 's) res\<close> (Prelude). A loop around
  \<open>sleep\<close> takes a list of functions, what the rest of the system does during each sleep, and is \<open>Asleep\<close> when the list
  is used up; properties quantify over the list. Machine integers are words of their width. The loops of the source are structural recursions,
  or recursions with a termination proof. The pointer searches of \<open>malloc\<close> and \<open>free\<close> and \<open>strlen\<close> are partial functions (\<open>None\<close>: no end, or a fault),
  and theorems show when they return; \<open>Diverge\<close> is a busy loop that nothing ends (waiting for the transmitter after a panic).

  \<^bold>\<open>Theories.\<close>
  \<^item> Prelude, Bytes, Ring: outcomes and their small Hoare logic, table scans, little-endian encodings and memory, ring buffers with wrapping
    counters (locale \<open>ring\<close>, interpreted by Pipe, Uart, Console and Virtio).
  \<^item> KString (kernel/string.c), Riscv (riscv.h, memlayout.h), Kalloc (kalloc.c): memory functions; page-table entries; the free list in the
    free pages, that no page is handed out twice, and the checks of \<open>kfree\<close>.
  \<^item> Vm (vm.c), with VmFrame, VmTables, VmMaps, VmSpace: \<open>walk\<close> over three levels of tables in memory refines a partial function from
    pages to entries; \<open>mappages\<close>, \<open>uvmalloc\<close>, \<open>uvmdealloc\<close> and \<open>freewalk\<close> against it, including the undo on failure. UserMem: \<open>copyin\<close>, \<open>copyout\<close>,
    \<open>copyinstr\<close>. VmFork: \<open>uvmcopy\<close>.
  \<^item> Spinlock (spinlock.c): acquire and release as steps of harts that interleave, mutual exclusion, the interrupt nesting, and no panic
    for harts that nest their locks. Proc, ProcLife (proc.c):
    the operations on the process table, each critical section one function. Sched (proc.c): \<open>scheduler\<close>, \<open>sched\<close>, \<open>yield\<close>, \<open>sleep\<close>, \<open>wakeup\<close> and
    the end of \<open>exit\<close> as steps on any number of harts, with the interrupt nesting of Spinlock: one hart per process, no panic, no lost wakeup, no deadlock. Sleeplock (sleeplock.c): locale \<open>sleep_lock\<close>.
  \<^item> Virtio (virtio_disk.c): descriptors and rings shared with the device, every interleaving; a request refines the atomic \<open>disk_rw\<close> of
    Bio (bio.c). BlockCache: the contract of the cache as a locale for its clients.
  \<^item> Log (log.c), LogCrash, LogTrans: commit and recovery; a crash at any disk write leaves all of a transaction or nothing. FsTrans: the
    calls that \<open>begin_op\<close> admits together may not fit.
  \<^item> Fs, Dir (fs.c), with FsTrans, FsBlocks, FsFiles: super block, bitmap, inodes, directories and path names; allocation, and reading and writing
    of files against the abstract contents.
  \<^item> Pipe (pipe.c), File (file.c), Args, Syscall (syscall.c, sysproc.c), Exec (exec.c), Sysfile (sysfile.c): every operation; Pipe against a byte queue.
  \<^item> Uart (uart.c), Console (console.c), Printf (kernel and user printf.c): the transmit queue, line editing, formatted output.
  \<^item> Ulib (user/ulib.c), Grep (user/grep.c): strings, the regular-expression matcher against the language of the pattern.
  \<^item> Umalloc (user/umalloc.c): the free list in memory; \<open>malloc\<close> (of less than 2 GB) and \<open>free\<close> return, and blocks never overlap.
  \<^item> ShParse, Sh (user/sh.c): the parser against a grammar of the command language, and the processes and descriptors a line gives rise to.

  \<^bold>\<open>Bounds.\<close> Constants are those of the source (64 processes, 30 buffers, 10 blocks per operation, 8 descriptors). The
  only fuel of a computation is that of the shell's parser and of \<open>freewalk\<close>. \<open>freewalk\<close> recurs over a table of three levels with fuel 3, which
  \<open>freewalk_frees\<close> (VmTables) shows to be enough for every table of three levels in which nothing is mapped any more; it is \<open>Diverge\<close> on deeper ones. \<open>parsecmd\<close> gives it \<open>4 * n + 5\<close> for a line of \<open>n\<close> bytes, and \<open>parse_total\<close> shows that this is always enough, since
  at most four nested calls read no token.

  \<^bold>\<open>Not modelled.\<close>
  \<^item> Assembly (entry.S, trampoline.S, kernelvec.S, swtch.S, initcode.S, usys.pl): no C semantics; \<open>swtch\<close> appears in Sched as the switch
    between a process and the scheduler of its hart.
  \<^item> The machine instructions behind riscv.h (control registers, \<open>sfence\<close>, \<open>wfi\<close>), and the code that mostly sets such registers: start.c, main.c,
    trap.c and plic.c. The handlers that trap.c calls (\<open>syscall\<close>, \<open>uartintr\<close>, \<open>virtio_disk_intr\<close>, \<open>yield\<close>, \<open>wakeup\<close>) are modelled.
  \<^item> ramdisk.c, which is not part of the build, and mkfs.c, a host program that writes the initial disk image.
  \<^item> User programs that only make system calls in a fixed order (cat, echo, init, kill, ln, ls, mkdir, rm, wc, zombie), and the test drivers
    usertests.c, grind.c, stressfs.c, forktest.c, whose meaning is the sequence of system calls they make.
\<close>

end
